(* ===== verification/Prelude.thy ===== *)
theory Prelude
  imports Main "HOL-Library.Word"
begin

text \<open>
  Shared types and generic lemmas of the development: bytes and byte strings, Go slices,
  big-endian integers, the correspondence between Go strings and byte slices, and
  the \<open>Option.bind\<close> facts the state-passing definitions use.
\<close>

type_synonym byte = "8 word"
type_synonym bytes = "byte list"
type_synonym u16 = "16 word"

text \<open>
  \<open>slice_simps\<close> collects the take/drop facts about Go slices; \<open>engine_simps\<close> the record
  and projection facts of the connection models.
\<close>

named_theorems slice_simps "facts about slices, take and drop"
named_theorems engine_simps "unfolding facts of the connection engines"

section \<open>Slices\<close>

text \<open>Go's \<open>b[i:j]\<close>, for \<open>i \<le> j \<le> len(b)\<close>.\<close>

definition slice :: "nat \<Rightarrow> nat \<Rightarrow> 'a list \<Rightarrow> 'a list" where
  "slice i j xs = take (j - i) (drop i xs)"

lemma length_slice [simp]: "j \<le> length xs \<Longrightarrow> length (slice i j xs) = j - i"
  by (simp add: slice_def)

lemma slice_empty [simp]: "slice i i xs = []"
  by (simp add: slice_def)

lemma slice_from_0 [slice_simps]: "slice 0 n xs = take n xs"
  by (simp add: slice_def)

lemma take_slice [slice_simps]: "take n (slice i j xs) = slice i (min j (i + n)) xs"
proof (cases "i \<le> j")
  case True
  then have "min n (j - i) = min j (i + n) - i" by (simp add: min_def) arith
  then show ?thesis by (simp add: slice_def)
next
  case False
  then show ?thesis by (simp add: slice_def)
qed

lemma drop_slice [slice_simps]: "drop n (slice i j xs) = slice (i + n) j xs"
  by (simp add: slice_def drop_take add.commute)

lemma slice_append_slice:
  "i \<le> j \<Longrightarrow> j \<le> k \<Longrightarrow> slice i j xs @ slice j k xs = slice i k xs"
proof -
  assume ij: "i \<le> j" and jk: "j \<le> k"
  have "slice i k xs = take ((j - i) + (k - j)) (drop i xs)"
    using ij jk by (simp add: slice_def)
  also have "\<dots> = take (j - i) (drop i xs) @ take (k - j) (drop (j - i) (drop i xs))"
    by (rule take_add)
  finally show ?thesis using ij by (simp add: slice_def)
qed

lemma slice_append_left: "j \<le> length xs \<Longrightarrow> slice i j (xs @ ys) = slice i j xs"
  by (simp add: slice_def)

lemma slice_nth: "i < length xs \<Longrightarrow> slice i (Suc i) xs = [xs ! i]"
  by (simp add: slice_def take_Suc_conv_app_nth)

lemma slice_all: "slice 0 (length xs) xs = xs"
  by (simp add: slice_def)

lemma take_append_left: "n \<le> length xs \<Longrightarrow> take n (xs @ ys) = take n xs"
  by simp

text \<open>A list that starts with another: the two agree below its length.\<close>

lemma nth_append_left: "i < length xs \<Longrightarrow> (xs @ ys) ! i = xs ! i"
  by (simp add: nth_append)

lemma nth_take_append: "i < n \<Longrightarrow> n \<le> length b \<Longrightarrow> (take n b @ x) ! i = b ! i"
  by (simp add: nth_append)

text \<open>Writing a block over a list, as Go's \<open>copy(xs[i:], ys)\<close> does when it fits.\<close>

definition overwrite :: "nat \<Rightarrow> 'a list \<Rightarrow> 'a list \<Rightarrow> 'a list" where
  "overwrite i ys xs = take i xs @ ys @ drop (i + length ys) xs"

lemma length_overwrite [simp]:
  "i + length ys \<le> length xs \<Longrightarrow> length (overwrite i ys xs) = length xs"
  by (simp add: overwrite_def)

lemma slice_overwrite_before:
  "j \<le> i \<Longrightarrow> i \<le> length xs \<Longrightarrow> slice k j (overwrite i ys xs) = slice k j xs"
  by (auto simp: slice_def overwrite_def min_def drop_take)

lemma slice_overwrite_grow:
  "k \<le> i \<Longrightarrow> i + length ys \<le> length xs \<Longrightarrow>
   slice k (i + length ys) (overwrite i ys xs) = slice k i xs @ ys"
proof -
  assume k: "k \<le> i" and len: "i + length ys \<le> length xs"
  have "drop k (overwrite i ys xs) = take (i - k) (drop k xs) @ ys @ drop (i + length ys) xs"
    using k len by (simp add: overwrite_def drop_take)
  moreover have "i + length ys - k = length (take (i - k) (drop k xs) @ ys)"
    using k len by simp
  ultimately show ?thesis by (simp add: slice_def)
qed

lemma drop_overwrite:
  "i + length ys \<le> n \<Longrightarrow> n \<le> length xs \<Longrightarrow> drop n (overwrite i ys xs) = drop n xs"
  by (simp add: overwrite_def)

section \<open>Big-endian integers\<close>

fun be_nat :: "bytes \<Rightarrow> nat" where
  "be_nat [] = 0"
| "be_nat (b # bs) = unat b * 256 ^ length bs + be_nat bs"

fun nat_be :: "nat \<Rightarrow> nat \<Rightarrow> bytes" where
  "nat_be 0 x = []"
| "nat_be (Suc n) x = word_of_nat (x div 256 ^ n) # nat_be n x"

lemma length_nat_be [simp]: "length (nat_be n x) = n"
  by (induction n) auto

lemma byte_lt_256: "unat (b :: byte) < 256"
  using unsigned_less [of b, where 'a = nat] by simp

lemma be_nat_bound: "be_nat bs < 256 ^ length bs"
proof (induction bs)
  case Nil
  then show ?case by simp
next
  case (Cons b bs)
  have "unat b * 256 ^ length bs + be_nat bs < (unat b + 1) * 256 ^ length bs"
    using Cons by (simp add: algebra_simps)
  also have "\<dots> \<le> 256 * 256 ^ length bs"
    using byte_lt_256 [of b] by (intro mult_le_mono1) simp
  finally show ?case by simp
qed

lemma be_nat_nat_be: "be_nat (nat_be n x) = x mod 256 ^ n"
proof (induction n)
  case 0
  then show ?case by simp
next
  case (Suc n)
  have "be_nat (nat_be (Suc n) x) = (x div 256 ^ n) mod 256 * 256 ^ n + x mod 256 ^ n"
    using Suc by (simp add: unat_of_nat)
  also have "\<dots> = x mod (256 ^ n * 256)"
    using mod_mult2_eq [of x "256 ^ n" 256] by (simp add: algebra_simps)
  finally show ?case by (simp add: mult.commute)
qed

lemma of_nat_byte_mod: "(word_of_nat (x mod 256) :: byte) = word_of_nat x"
  by (simp add: word_of_nat_eq_iff take_bit_eq_mod)

lemma of_nat_byte_add: "(word_of_nat (k * 256 + y) :: byte) = word_of_nat y"
  using of_nat_byte_mod [of "k * 256 + y"] of_nat_byte_mod [of y] by simp

lemma nat_be_add_mult: "nat_be n (k * 256 ^ (n + d) + x) = nat_be n x"
proof (induction n arbitrary: d)
  case 0
  then show ?case by simp
next
  case (Suc n)
  have "(k * 256 ^ (Suc n + d) + x) div 256 ^ n = (k * 256 ^ d) * 256 + x div 256 ^ n"
    using div_mult_self3 [of "256 ^ n" "k * 256 ^ d * 256" x]
    by (simp add: power_add algebra_simps)
  then have "(word_of_nat ((k * 256 ^ (Suc n + d) + x) div 256 ^ n) :: byte)
      = word_of_nat (x div 256 ^ n)"
    by (simp only: of_nat_byte_add)
  moreover have "nat_be n (k * 256 ^ (Suc n + d) + x) = nat_be n x"
    using Suc.IH [of "Suc d"] by simp
  ultimately show ?case by (simp only: nat_be.simps)
qed

lemma nat_be_be_nat: "nat_be (length bs) (be_nat bs) = bs"
proof (induction bs)
  case Nil
  then show ?case by simp
next
  case (Cons b bs)
  have "be_nat (b # bs) div 256 ^ length bs = unat b"
    using be_nat_bound [of bs] by simp
  moreover have "nat_be (length bs) (be_nat (b # bs)) = bs"
    using nat_be_add_mult [of "length bs" "unat b" 0 "be_nat bs"] Cons by simp
  ultimately show ?case by simp
qed

lemma nat_be_be_nat': "length bs = n \<Longrightarrow> nat_be n (be_nat bs) = bs"
  using nat_be_be_nat by blast

text \<open>Words of 16, 32 and 128 bits as byte strings, as \<open>encoding/binary.BigEndian\<close> writes them.\<close>

definition word_of_be :: "bytes \<Rightarrow> 'a::len word" where
  "word_of_be bs = word_of_nat (be_nat bs)"

definition be_of_word :: "nat \<Rightarrow> 'a::len word \<Rightarrow> bytes" where
  "be_of_word n w = nat_be n (unat w)"

lemma length_be_of_word [simp]: "length (be_of_word n w) = n"
  by (simp add: be_of_word_def)

lemma pow_256: "(256 :: nat) ^ n = 2 ^ (8 * n)"
  by (simp add: power_mult)

lemma unat_word_of_be:
  assumes "8 * length bs = LENGTH('a::len)"
  shows "unat (word_of_be bs :: 'a word) = be_nat bs"
proof -
  have "(256 :: nat) ^ length bs = 2 ^ LENGTH('a)"
    using assms by (simp only: pow_256)
  then show ?thesis
    using be_nat_bound [of bs]
    by (simp add: word_of_be_def unat_of_nat)
qed

lemma be_of_word_of_be:
  assumes "8 * n = LENGTH('a::len)" and "length bs = n"
  shows "be_of_word n (word_of_be bs :: 'a word) = bs"
  using assms unat_word_of_be [of bs, where 'a = 'a]
  by (simp add: be_of_word_def nat_be_be_nat')

lemma word_of_be_of_word:
  assumes "8 * n = LENGTH('a::len)"
  shows "word_of_be (be_of_word n (w :: 'a word)) = w"
proof -
  have "(256 :: nat) ^ n = 2 ^ LENGTH('a)"
    using assms by (simp only: pow_256)
  then show ?thesis
    using unsigned_less [of w, where 'a = nat]
    by (simp add: word_of_be_def be_of_word_def be_nat_nat_be)
qed

lemmas word_of_be_16 [simp] = word_of_be_of_word [of 2, where 'a = 16, simplified]
lemmas word_of_be_32 [simp] = word_of_be_of_word [of 4, where 'a = 32, simplified]
lemmas word_of_be_128 [simp] = word_of_be_of_word [of 16, where 'a = 128, simplified]
lemmas be_of_word_16 = be_of_word_of_be [of 2, where 'a = 16, simplified]
lemmas be_of_word_32 = be_of_word_of_be [of 4, where 'a = 32, simplified]
lemmas be_of_word_128 = be_of_word_of_be [of 16, where 'a = 128, simplified]

section \<open>Go strings and byte slices\<close>

text \<open>A Go string is a byte string; the conversions \<open>[]byte(s)\<close> and \<open>string(b)\<close> are bijections.\<close>

definition byte_of_char :: "char \<Rightarrow> byte" where
  "byte_of_char c = word_of_nat (of_char c)"

definition char_of_byte :: "byte \<Rightarrow> char" where
  "char_of_byte b = char_of (unat b)"

definition bytes_of :: "string \<Rightarrow> bytes" where
  "bytes_of s = map byte_of_char s"

definition string_of :: "bytes \<Rightarrow> string" where
  "string_of b = map char_of_byte b"

lemma char_of_byte_of_char [simp]: "char_of_byte (byte_of_char c) = c"
  by (simp add: char_of_byte_def byte_of_char_def unat_of_nat)

lemma byte_of_char_of_byte [simp]: "byte_of_char (char_of_byte b) = b"
  using byte_lt_256 [of b] by (simp add: char_of_byte_def byte_of_char_def)

lemma string_of_bytes_of [simp]: "string_of (bytes_of s) = s"
  by (simp add: string_of_def bytes_of_def comp_def)

lemma bytes_of_string_of [simp]: "bytes_of (string_of b) = b"
  by (simp add: string_of_def bytes_of_def comp_def)

lemma length_bytes_of [simp]: "length (bytes_of s) = length s"
  by (simp add: bytes_of_def)

lemma length_string_of [simp]: "length (string_of b) = length b"
  by (simp add: string_of_def)

lemma bytes_of_Nil [simp]: "bytes_of [] = []"
  by (simp add: bytes_of_def)

lemma string_of_Nil_iff [simp]: "string_of b = [] \<longleftrightarrow> b = []"
  by (simp add: string_of_def)

lemma bytes_of_Nil_iff [simp]: "bytes_of s = [] \<longleftrightarrow> s = []"
  by (simp add: bytes_of_def)

lemma byte_of_char_inj [simp]: "byte_of_char c = byte_of_char d \<longleftrightarrow> c = d"
  by (metis char_of_byte_of_char)

text \<open>The byte \<open>byte(n)\<close> of a length: exact below 256.\<close>

lemma unat_byte_len [simp]: "n < 256 \<Longrightarrow> unat (word_of_nat n :: byte) = n"
  by (simp add: unat_of_nat)

lemma byte_len_eq_0_iff: "n < 256 \<Longrightarrow> (word_of_nat n :: byte) = 0 \<longleftrightarrow> n = 0"
  by (metis unat_byte_len unat_eq_zero)

end
