(* ===== verification/Netip.thy ===== *)
theory Netip
  imports Prelude
begin

text \<open>
  The part of Go's standard package \<open>net/netip\<close> the program uses: addresses, their
  classification predicates, address-and-port pairs and CIDR prefixes. An IPv4 address is
  a 32-bit word, an IPv6 address a 128-bit word with its zone; the zero \<open>netip.Addr\<close> is
  \<open>NoIP\<close>.
\<close>

section \<open>Addresses\<close>

datatype ip = NoIP | IP4 "32 word" | IP6 "128 word" string

fun Is4 :: "ip \<Rightarrow> bool" where
  "Is4 (IP4 w) = True"
| "Is4 x = False"

fun Is6 :: "ip \<Rightarrow> bool" where
  "Is6 (IP6 w z) = True"
| "Is6 x = False"

definition ip_IsValid :: "ip \<Rightarrow> bool" where
  "ip_IsValid x = (x \<noteq> NoIP)"

fun Is4In6 :: "ip \<Rightarrow> bool" where
  "Is4In6 (IP6 w z) = (drop_bit 32 w = 0xffff)"
| "Is4In6 x = False"

fun Unmap :: "ip \<Rightarrow> ip" where
  "Unmap (IP6 w z) = (if drop_bit 32 w = 0xffff then IP4 (ucast w) else IP6 w z)"
| "Unmap x = x"

fun WithZone :: "ip \<Rightarrow> string \<Rightarrow> ip" where
  "WithZone (IP6 w z) z' = IP6 w z'"
| "WithZone x z' = x"

fun ip_Zone :: "ip \<Rightarrow> string" where
  "ip_Zone (IP6 w z) = z"
| "ip_Zone x = []"

definition AddrFrom4 :: "bytes \<Rightarrow> ip" where
  "AddrFrom4 b = IP4 (word_of_be b)"

definition AddrFrom16 :: "bytes \<Rightarrow> ip" where
  "AddrFrom16 b = IP6 (word_of_be b) []"

text \<open>\<open>As4\<close> is used on IPv4 addresses only (on others it panics or unmaps).\<close>

fun As4 :: "ip \<Rightarrow> bytes" where
  "As4 (IP4 w) = be_of_word 4 w"
| "As4 (IP6 w z) = drop 12 (be_of_word 16 w)"
| "As4 NoIP = []"

fun As16 :: "ip \<Rightarrow> bytes" where
  "As16 (IP4 w) = replicate 10 0 @ [0xff, 0xff] @ be_of_word 4 w"
| "As16 (IP6 w z) = be_of_word 16 w"
| "As16 NoIP = replicate 16 0"

fun ip_AppendBinary :: "ip \<Rightarrow> bytes \<Rightarrow> bytes" where
  "ip_AppendBinary NoIP b = b"
| "ip_AppendBinary (IP4 w) b = b @ be_of_word 4 w"
| "ip_AppendBinary (IP6 w z) b = b @ be_of_word 16 w @ bytes_of z"

text \<open>An address as it goes on the wire: unmapped and without a zone.\<close>

definition plain_ip :: "ip \<Rightarrow> bool" where
  "plain_ip x = (Unmap x = x \<and> ip_Zone x = [])"

lemma Unmap_idem [simp]: "Unmap (Unmap x) = Unmap x"
  by (cases x) auto

lemma WithZone_idem [simp]: "WithZone (WithZone x z) z' = WithZone x z'"
  by (cases x) auto

lemma Unmap_WithZone_Unmap [simp]: "Unmap (WithZone (Unmap x) z) = WithZone (Unmap x) z"
  by (cases x) auto

lemma plain_normalized [simp]: "plain_ip (WithZone (Unmap x) [])"
  by (cases x) (auto simp: plain_ip_def)

lemma plain_id: "plain_ip x \<Longrightarrow> WithZone (Unmap x) [] = x"
  by (cases x) (auto simp: plain_ip_def split: if_splits)

lemma Is4_Unmap_or_Is6: "x \<noteq> NoIP \<Longrightarrow> Is4 (Unmap x) \<or> Is6 (Unmap x)"
  by (cases x) auto

lemma Unmap_NoIP_iff [simp]: "Unmap x = NoIP \<longleftrightarrow> x = NoIP"
  by (cases x) auto

lemma WithZone_NoIP_iff [simp]: "WithZone x z = NoIP \<longleftrightarrow> x = NoIP"
  by (cases x) auto

lemma ip_IsValid_simps [simp]:
  "ip_IsValid (IP4 w)" "ip_IsValid (IP6 v z)" "\<not> ip_IsValid NoIP"
  by (simp_all add: ip_IsValid_def)

lemma Is4D: "Is4 x \<Longrightarrow> \<exists>w. x = IP4 w"
  by (cases x) auto

lemma Is6D: "Is6 x \<Longrightarrow> \<exists>w z. x = IP6 w z"
  by (cases x) auto

lemma Is4_not_Is6: "Is4 x \<Longrightarrow> \<not> Is6 x"
  by (cases x) auto

section \<open>Classification\<close>

fun IsLoopback4 :: "32 word \<Rightarrow> bool" where
  "IsLoopback4 w = (drop_bit 24 w = 127)"

definition IsLoopback :: "ip \<Rightarrow> bool" where
  "IsLoopback x =
     (case Unmap x of IP4 w \<Rightarrow> IsLoopback4 w | IP6 w z \<Rightarrow> w = 1 | NoIP \<Rightarrow> False)"

definition IsUnspecified :: "ip \<Rightarrow> bool" where
  "IsUnspecified x = (x = IP4 0 \<or> x = IP6 0 [])"

definition IsLinkLocalUnicast :: "ip \<Rightarrow> bool" where
  "IsLinkLocalUnicast x =
     (case Unmap x of
        IP4 w \<Rightarrow> drop_bit 16 w = 0xa9fe
      | IP6 w z \<Rightarrow> drop_bit 118 w = 0x3fa
      | NoIP \<Rightarrow> False)"

definition IsPrivate :: "ip \<Rightarrow> bool" where
  "IsPrivate x =
     (case Unmap x of
        IP4 w \<Rightarrow> drop_bit 24 w = 10 \<or> drop_bit 20 w = 0xac1 \<or> drop_bit 16 w = 0xc0a8
      | IP6 w z \<Rightarrow> drop_bit 121 w = 0x7e
      | NoIP \<Rightarrow> False)"

definition IsMulticast :: "ip \<Rightarrow> bool" where
  "IsMulticast x =
     (case Unmap x of
        IP4 w \<Rightarrow> drop_bit 28 w = 0xe
      | IP6 w z \<Rightarrow> drop_bit 120 w = 0xff
      | NoIP \<Rightarrow> False)"

section \<open>Address and port, prefixes\<close>

record addrport =
  ap_addr :: ip
  ap_port :: u16

definition AddrPortFrom :: "ip \<Rightarrow> u16 \<Rightarrow> addrport" where
  "AddrPortFrom x p = \<lparr>ap_addr = x, ap_port = p\<rparr>"

definition zeroAddrPort :: addrport where
  "zeroAddrPort = AddrPortFrom NoIP 0"

definition ap_IsValid :: "addrport \<Rightarrow> bool" where
  "ap_IsValid ap = ip_IsValid (ap_addr ap)"

lemma AddrPortFrom_sel [simp]:
  "ap_addr (AddrPortFrom x p) = x" "ap_port (AddrPortFrom x p) = p"
  by (simp_all add: AddrPortFrom_def)

lemma AddrPortFrom_eq: "AddrPortFrom x p = ap \<longleftrightarrow> ap_addr ap = x \<and> ap_port ap = p"
  by (cases ap) (auto simp: AddrPortFrom_def)

text \<open>\<open>netip.Prefix\<close>: the zero prefix, or one made by \<open>PrefixFrom\<close> with an out-of-range length,
  is invalid, which \<open>None\<close> stands for.\<close>

record prefix =
  pfx_ip :: ip
  pfx_bits :: "nat option"

definition PrefixFrom :: "ip \<Rightarrow> int \<Rightarrow> prefix" where
  "PrefixFrom x n =
     \<lparr>pfx_ip = WithZone x [],
      pfx_bits =
       (if ip_IsValid x \<and> 0 \<le> n \<and> n \<le> (if Is4 x then 32 else 128)
        then Some (nat n) else None)\<rparr>"

definition pfx_IsValid :: "prefix \<Rightarrow> bool" where
  "pfx_IsValid p = (pfx_bits p \<noteq> None)"

definition pfx_Contains :: "prefix \<Rightarrow> ip \<Rightarrow> bool" where
  "pfx_Contains p x =
     (case (pfx_bits p, pfx_ip p, x) of
        (Some n, IP4 v, IP4 w) \<Rightarrow> drop_bit (32 - n) v = drop_bit (32 - n) w
      | (Some n, IP6 v _, IP6 w z) \<Rightarrow> z = [] \<and> drop_bit (128 - n) v = drop_bit (128 - n) w
      | _ \<Rightarrow> False)"

definition pfx_Masked :: "prefix \<Rightarrow> prefix" where
  "pfx_Masked p =
     (case (pfx_bits p, pfx_ip p) of
        (Some n, IP4 v) \<Rightarrow> p\<lparr>pfx_ip := IP4 (push_bit (32 - n) (drop_bit (32 - n) v))\<rparr>
      | (Some n, IP6 v z) \<Rightarrow> p\<lparr>pfx_ip := IP6 (push_bit (128 - n) (drop_bit (128 - n) v)) z\<rparr>
      | _ \<Rightarrow> \<lparr>pfx_ip = NoIP, pfx_bits = None\<rparr>)"

definition pfx4 :: "32 word \<Rightarrow> nat \<Rightarrow> prefix" where
  "pfx4 w n = \<lparr>pfx_ip = IP4 w, pfx_bits = Some n\<rparr>"

definition pfx6 :: "128 word \<Rightarrow> nat \<Rightarrow> prefix" where
  "pfx6 w n = \<lparr>pfx_ip = IP6 w [], pfx_bits = Some n\<rparr>"

lemma pfx4_Contains [simp]:
  "pfx_Contains (pfx4 v n) (IP4 w) \<longleftrightarrow> drop_bit (32 - n) v = drop_bit (32 - n) w"
  "\<not> pfx_Contains (pfx4 v n) (IP6 u z)"
  "\<not> pfx_Contains (pfx4 v n) NoIP"
  by (simp_all add: pfx_Contains_def pfx4_def)

lemma pfx6_Contains [simp]:
  "pfx_Contains (pfx6 v n) (IP6 w z) \<longleftrightarrow> z = [] \<and> drop_bit (128 - n) v = drop_bit (128 - n) w"
  "\<not> pfx_Contains (pfx6 v n) (IP4 u)"
  "\<not> pfx_Contains (pfx6 v n) NoIP"
  by (simp_all add: pfx_Contains_def pfx6_def)

text \<open>Containment in a prefix is membership in an interval of addresses.\<close>

lemma unat_drop_bit_word: "unat (drop_bit k (w :: 'a::len word)) = unat w div 2 ^ k"
  unfolding unat_drop_bit_eq by (rule drop_bit_eq_div)

lemma drop_bit_word_eq_iff:
  "drop_bit k (v :: 'a::len word) = drop_bit k w \<longleftrightarrow> unat v div 2 ^ k = unat w div 2 ^ k"
  by (metis unat_drop_bit_word word_unat_eq_iff)

lemma div_eq_iff_interval:
  assumes "0 < (d::nat)"
  shows "a div d = b div d \<longleftrightarrow> (a div d) * d \<le> b \<and> b < (a div d) * d + d"
proof -
  have "b div d = q \<longleftrightarrow> q * d \<le> b \<and> b < q * d + d" for q
    using assms
    by (metis add.commute div_nat_eqI div_times_less_eq_dividend dividend_less_div_times
        mult.commute mult_Suc_right)
  then show ?thesis by metis
qed

end
