(* ===== verification/WireTypes.thy ===== *)
theory WireTypes
  imports Netip
begin

text \<open>
  The data types of package \<open>wire\<close>: the open code types of \<open>codes.go\<close> with their names,
  the protocol constants of \<open>doc.go\<close>, the stage and field names of \<open>errors.go\<close>, and the
  \<open>Addr\<close> struct of \<open>addr.go\<close> with its accessors.
\<close>

section \<open>Rendering\<close>

definition hex_digit :: "nat \<Rightarrow> char" where
  "hex_digit n = ''0123456789abcdef'' ! (n mod 16)"

definition hexCode :: "byte \<Rightarrow> string" where
  "hexCode b = ''0x'' @ [hex_digit (unat b div 16), hex_digit (unat b)]"

fun nat_string :: "nat \<Rightarrow> string" where
  "nat_string n =
     (if n < 10 then [char_of (48 + n)]
      else nat_string (n div 10) @ [char_of (48 + n mod 10)])"

declare nat_string.simps [simp del]

fun join_strings :: "string \<Rightarrow> string list \<Rightarrow> string" where
  "join_strings sep [] = []"
| "join_strings sep [s] = s"
| "join_strings sep (s # ss) = s @ sep @ join_strings sep ss"

definition has_prefix :: "'a list \<Rightarrow> 'a list \<Rightarrow> bool" where
  "has_prefix s p = (take (length p) s = p)"

section \<open>Codes\<close>

type_synonym method_code = byte
type_synonym command = byte
type_synonym atyp = byte
type_synonym reply = byte

definition MethodNoAuth :: method_code where "MethodNoAuth = 0x00"
definition MethodGSSAPI :: method_code where "MethodGSSAPI = 0x01"
definition MethodUserPass :: method_code where "MethodUserPass = 0x02"
definition MethodCHAP :: method_code where "MethodCHAP = 0x03"
definition MethodCRAM :: method_code where "MethodCRAM = 0x05"
definition MethodSSL :: method_code where "MethodSSL = 0x06"
definition MethodNDS :: method_code where "MethodNDS = 0x07"
definition MethodMultiAuth :: method_code where "MethodMultiAuth = 0x08"
definition MethodJSON :: method_code where "MethodJSON = 0x09"
definition MethodNoAcceptable :: method_code where "MethodNoAcceptable = 0xFF"

lemmas method_defs = MethodNoAuth_def MethodGSSAPI_def MethodUserPass_def MethodCHAP_def
  MethodCRAM_def MethodSSL_def MethodNDS_def MethodMultiAuth_def MethodJSON_def
  MethodNoAcceptable_def

definition Method_IsPrivate :: "method_code \<Rightarrow> bool" where
  "Method_IsPrivate m = (m \<ge> 0x80 \<and> m \<le> 0xFE)"

definition Method_String :: "method_code \<Rightarrow> string" where
  "Method_String m =
     (if m = MethodNoAuth then ''no auth''
      else if m = MethodGSSAPI then ''GSSAPI''
      else if m = MethodUserPass then ''username/password''
      else if m = MethodCHAP then ''CHAP''
      else if m = MethodCRAM then ''CRAM''
      else if m = MethodSSL then ''SSL''
      else if m = MethodNDS then ''NDS''
      else if m = MethodMultiAuth then ''multi-auth''
      else if m = MethodJSON then ''JSON''
      else if m = MethodNoAcceptable then ''no acceptable methods''
      else hexCode m)"

definition CmdConnect :: command where "CmdConnect = 0x01"
definition CmdBind :: command where "CmdBind = 0x02"
definition CmdUDPAssociate :: command where "CmdUDPAssociate = 0x03"
definition CmdTorResolve :: command where "CmdTorResolve = 0xF0"
definition CmdTorResolvePTR :: command where "CmdTorResolvePTR = 0xF1"

lemmas cmd_defs = CmdConnect_def CmdBind_def CmdUDPAssociate_def CmdTorResolve_def
  CmdTorResolvePTR_def

definition Command_String :: "command \<Rightarrow> string" where
  "Command_String c =
     (if c = CmdConnect then ''CONNECT''
      else if c = CmdBind then ''BIND''
      else if c = CmdUDPAssociate then ''UDP ASSOCIATE''
      else if c = CmdTorResolve then ''RESOLVE''
      else if c = CmdTorResolvePTR then ''RESOLVE_PTR''
      else hexCode c)"

definition ATYPIPv4 :: atyp where "ATYPIPv4 = 0x01"
definition ATYPDomain :: atyp where "ATYPDomain = 0x03"
definition ATYPIPv6 :: atyp where "ATYPIPv6 = 0x04"

lemmas atyp_defs = ATYPIPv4_def ATYPDomain_def ATYPIPv6_def

definition ATYP_String :: "atyp \<Rightarrow> string" where
  "ATYP_String a =
     (if a = ATYPIPv4 then ''IPv4''
      else if a = ATYPDomain then ''domain''
      else if a = ATYPIPv6 then ''IPv6''
      else hexCode a)"

definition ReplySucceeded :: reply where "ReplySucceeded = 0x00"
definition ReplyGeneralFailure :: reply where "ReplyGeneralFailure = 0x01"
definition ReplyNotAllowed :: reply where "ReplyNotAllowed = 0x02"
definition ReplyNetworkUnreachable :: reply where "ReplyNetworkUnreachable = 0x03"
definition ReplyHostUnreachable :: reply where "ReplyHostUnreachable = 0x04"
definition ReplyConnectionRefused :: reply where "ReplyConnectionRefused = 0x05"
definition ReplyTTLExpired :: reply where "ReplyTTLExpired = 0x06"
definition ReplyCommandNotSupported :: reply where "ReplyCommandNotSupported = 0x07"
definition ReplyAddressTypeNotSupported :: reply where "ReplyAddressTypeNotSupported = 0x08"
definition ReplyTorHSNotFound :: reply where "ReplyTorHSNotFound = 0xF0"
definition Reply4Granted :: reply where "Reply4Granted = 0x5A"
definition Reply4Rejected :: reply where "Reply4Rejected = 0x5B"
definition Reply4NoIdentd :: reply where "Reply4NoIdentd = 0x5C"
definition Reply4IdentMismatch :: reply where "Reply4IdentMismatch = 0x5D"

lemmas reply_defs = ReplySucceeded_def ReplyGeneralFailure_def ReplyNotAllowed_def
  ReplyNetworkUnreachable_def ReplyHostUnreachable_def ReplyConnectionRefused_def
  ReplyTTLExpired_def ReplyCommandNotSupported_def ReplyAddressTypeNotSupported_def
  ReplyTorHSNotFound_def Reply4Granted_def Reply4Rejected_def Reply4NoIdentd_def
  Reply4IdentMismatch_def

definition replyNames :: "string list" where
  "replyNames =
     [''succeeded'', ''general SOCKS server failure'', ''connection not allowed by ruleset'',
      ''network unreachable'', ''host unreachable'', ''connection refused'', ''TTL expired'',
      ''command not supported'', ''address type not supported'']"

definition reply4Names :: "string list" where
  "reply4Names =
     [''request granted'', ''request rejected or failed'', ''cannot connect to identd'',
      ''identd user id mismatch'']"

definition torReplyNames :: "string list" where
  "torReplyNames =
     [''tor: onion service descriptor can not be found'',
      ''tor: onion service descriptor is invalid'',
      ''tor: onion service introduction failed'',
      ''tor: onion service rendezvous failed'',
      ''tor: onion service missing client authorization'',
      ''tor: onion service wrong client authorization'',
      ''tor: onion service invalid address'',
      ''tor: onion service introduction timed out'']"

text \<open>The subtractions are on \<open>uint8\<close>, as in the code.\<close>

definition Reply4String :: "reply \<Rightarrow> string" where
  "Reply4String r =
     (if r \<ge> Reply4Granted \<and> unat (r - Reply4Granted) < length reply4Names
      then reply4Names ! unat (r - Reply4Granted)
      else hexCode r)"

definition Reply_String :: "reply \<Rightarrow> string" where
  "Reply_String r =
     (if unat r < length replyNames then replyNames ! unat r
      else if r \<ge> ReplyTorHSNotFound \<and> unat (r - ReplyTorHSNotFound) < length torReplyNames
      then torReplyNames ! unat (r - ReplyTorHSNotFound)
      else hexCode r)"

section \<open>Protocol constants\<close>

definition Version5 :: byte where "Version5 = 0x05"
definition Version4 :: byte where "Version4 = 0x04"
definition UserPassVersion :: byte where "UserPassVersion = 0x01"
definition MaxReplyLen :: nat where "MaxReplyLen = 4 + 1 + 255 + 2"

lemmas version_defs = Version5_def Version4_def UserPassVersion_def

definition StageGreeting :: string where "StageGreeting = ''greeting''"
definition StageMethodSelection :: string where "StageMethodSelection = ''method selection''"
definition StageUserPass :: string where "StageUserPass = ''username/password request''"
definition StageUserPassStatus :: string where
  "StageUserPassStatus = ''username/password status''"
definition StageRequest :: string where "StageRequest = ''request''"
definition StageReply :: string where "StageReply = ''reply''"
definition StageUDPHeader :: string where "StageUDPHeader = ''udp header''"
definition StageRequest4 :: string where "StageRequest4 = ''socks4 request''"
definition StageReply4 :: string where "StageReply4 = ''socks4 reply''"

lemmas stage_defs = StageGreeting_def StageMethodSelection_def StageUserPass_def
  StageUserPassStatus_def StageRequest_def StageReply_def StageUDPHeader_def
  StageRequest4_def StageReply4_def

definition FieldVER :: string where "FieldVER = ''VER''"
definition FieldNMETHODS :: string where "FieldNMETHODS = ''NMETHODS''"
definition FieldATYP :: string where "FieldATYP = ''ATYP''"
definition FieldADDR :: string where "FieldADDR = ''ADDR''"
definition FieldPORT :: string where "FieldPORT = ''PORT''"
definition FieldUSERID :: string where "FieldUSERID = ''USERID''"

lemmas field_defs = FieldVER_def FieldNMETHODS_def FieldATYP_def FieldADDR_def
  FieldPORT_def FieldUSERID_def

section \<open>Addr\<close>

text \<open>The names end in \<open>_of\<close> where Go's field \<open>ip\<close>, \<open>name\<close>, \<open>port\<close> has its accessor.\<close>

record addr =
  IP_of :: ip
  Name_of :: string
  Port_of :: u16

definition zeroAddr :: addr where
  "zeroAddr = \<lparr>IP_of = NoIP, Name_of = [], Port_of = 0\<rparr>"

definition ipAddr :: "ip \<Rightarrow> u16 \<Rightarrow> addr" where
  "ipAddr x p = \<lparr>IP_of = x, Name_of = [], Port_of = p\<rparr>"

definition nameAddrOf :: "string \<Rightarrow> u16 \<Rightarrow> addr" where
  "nameAddrOf s p = \<lparr>IP_of = NoIP, Name_of = s, Port_of = p\<rparr>"

definition AddrFromAddrPort :: "addrport \<Rightarrow> addr" where
  "AddrFromAddrPort ap =
     (if \<not> ap_IsValid ap then zeroAddr
      else ipAddr (WithZone (Unmap (ap_addr ap)) []) (ap_port ap))"

definition IsName :: "addr \<Rightarrow> bool" where
  "IsName a = (Name_of a \<noteq> [])"

definition addr_IsValid :: "addr \<Rightarrow> bool" where
  "addr_IsValid a = (ip_IsValid (IP_of a) \<or> Name_of a \<noteq> [])"

definition addr_ATYP :: "addr \<Rightarrow> atyp" where
  "addr_ATYP a =
     (if Name_of a \<noteq> [] then ATYPDomain
      else if Is4 (IP_of a) then ATYPIPv4
      else if Is6 (IP_of a) then ATYPIPv6
      else 0)"

text \<open>
  The invariant of the type: every \<open>Addr\<close> the package makes holds either an unmapped,
  zone-free IP and no name, or a name of 1 to 255 bytes and no IP, or neither (the zero
  \<open>Addr\<close>, possibly with a port after a SOCKS4 parse error path).
\<close>

definition addr_wf :: "addr \<Rightarrow> bool" where
  "addr_wf a =
     (plain_ip (IP_of a) \<and> length (Name_of a) \<le> 255
      \<and> (ip_IsValid (IP_of a) \<longrightarrow> Name_of a = []))"

lemma addr_sels [simp]:
  "IP_of zeroAddr = NoIP" "Name_of zeroAddr = []" "Port_of zeroAddr = 0"
  "IP_of (ipAddr x p) = x" "Name_of (ipAddr x p) = []" "Port_of (ipAddr x p) = p"
  "IP_of (nameAddrOf s p) = NoIP" "Name_of (nameAddrOf s p) = s" "Port_of (nameAddrOf s p) = p"
  by (simp_all add: zeroAddr_def ipAddr_def nameAddrOf_def)

lemma zeroAddr_invalid [simp]: "\<not> addr_IsValid zeroAddr"
  by (simp add: addr_IsValid_def)

lemma addr_IsValid_ip [simp]: "addr_IsValid (ipAddr x p) = ip_IsValid x"
  by (simp add: addr_IsValid_def)

lemma addr_IsValid_name [simp]: "addr_IsValid (nameAddrOf s p) = (s \<noteq> [])"
  by (simp add: addr_IsValid_def)

lemma ipAddr_eta: "Name_of a = [] \<Longrightarrow> ipAddr (IP_of a) (Port_of a) = a"
  by (cases a) (simp add: ipAddr_def)

lemma nameAddrOf_eta: "IP_of a = NoIP \<Longrightarrow> nameAddrOf (Name_of a) (Port_of a) = a"
  by (cases a) (simp add: nameAddrOf_def)

text \<open>A well-formed address is one of four shapes.\<close>

lemma addr_wf_cases:
  assumes "addr_wf a"
  obtains (ip4) w p where "a = ipAddr (IP4 w) p"
    | (ip6) w p where "a = ipAddr (IP6 w []) p" "drop_bit 32 w \<noteq> 0xffff"
    | (name) s p where "a = nameAddrOf s p" "s \<noteq> []" "length s \<le> 255"
    | (zero) p where "a = ipAddr NoIP p"
proof (cases "IP_of a")
  case NoIP
  show ?thesis
  proof (cases "Name_of a = []")
    case True
    then show ?thesis using zero [of "Port_of a"] NoIP ipAddr_eta [of a] by simp
  next
    case False
    then show ?thesis
      using name [of "Name_of a" "Port_of a"] NoIP nameAddrOf_eta [of a] assms
      by (simp add: addr_wf_def)
  qed
next
  case (IP4 w)
  then have "Name_of a = []" using assms by (simp add: addr_wf_def)
  then show ?thesis using ip4 [of w "Port_of a"] IP4 ipAddr_eta [of a] by simp
next
  case (IP6 w z)
  then have "Name_of a = []" and "z = []" and "drop_bit 32 w \<noteq> 0xffff"
    using assms by (auto simp: addr_wf_def plain_ip_def)
  then show ?thesis using ip6 [of w "Port_of a"] IP6 ipAddr_eta [of a] by simp
qed

lemma addr_wf_zero [simp]: "addr_wf zeroAddr"
  by (simp add: addr_wf_def plain_ip_def)

lemma addr_wf_ipAddr [simp]: "addr_wf (ipAddr x p) = plain_ip x"
  by (simp add: addr_wf_def)

lemma plain_ip_simps [simp]:
  "plain_ip (IP4 w)" "plain_ip NoIP" "plain_ip (IP6 v z) \<longleftrightarrow> drop_bit 32 v \<noteq> 0xffff \<and> z = []"
  by (auto simp: plain_ip_def)

lemma addr_wf_nameAddrOf [simp]: "addr_wf (nameAddrOf s p) = (length s \<le> 255)"
  by (simp add: addr_wf_def)

lemma AddrFromAddrPort_wf [simp]: "addr_wf (AddrFromAddrPort ap)"
  by (simp add: AddrFromAddrPort_def)

lemma AddrFromAddrPort_plain:
  "plain_ip x \<Longrightarrow> ip_IsValid x \<Longrightarrow> AddrFromAddrPort (AddrPortFrom x p) = ipAddr x p"
  by (simp add: AddrFromAddrPort_def ap_IsValid_def plain_id)

end
