(* ===== verification/GoErrors.thy ===== *)
theory GoErrors
  imports WireTypes
begin

text \<open>
  Error values. Go's \<open>error\<close> is an open interface; \<open>error\<close> here is the sum of the concrete
  types the program and the standard library it calls make. Package-level error variables
  are compared by identity, so each is a \<open>sentinel\<close> of its own. \<open>err_nodes\<close> is the
  pre-order tree that \<open>errors.Is\<close> and \<open>errors.AsType\<close> walk; \<open>err_Is\<close>, \<open>err_As\<close> and
  \<open>IsTimeout\<close> are those walks.
\<close>

section \<open>The error type\<close>

datatype sentinel =
    ErrIncomplete | ErrInvalid | errZeroAddr
  | IoEOF | ErrUnexpectedEOF | NetErrClosed | OsErrDeadlineExceeded | BufioErrBufferFull
  | CtxCanceled | CtxDeadlineExceeded | ErrorsErrUnsupported | ErrWriteToConnected
  | ErrAuthFailed | ErrNoAcceptableMethods | ErrMethodNotOffered | ErrNotAllowed
  | ErrNotPipelinable | ErrAssociationClosed | ErrFragmentC | ErrWrongSourceC
  | errNilUserPass | errNoAcceptable | errNoConn | errLongAuth | errAuthSOCKS4
  | errOfferNoAuth | errLongUserPass | errFastOpen | errNoProxyConn
  | errRelayBoth | errDSTPort | errNoRelayConn | errLocalPort | errNoLocalPort
  | ErrServerClosed | ErrReplied | ErrNoReply | ErrFragment | ErrWrongSource
  | ErrUnsolicited | ErrTooLarge | ErrTooManyTargets
  | errUnsupported | errTooLong | errContract | errSOCKS4Auth | errSOCKS4Cmd
  | errClientGone | errNotBind | errRelayPanic | errPanic

text \<open>The sentinels made by \<open>fmt.Errorf\<close> with \<open>%w\<close>, and what they wrap.\<close>

fun sent_unwrap :: "sentinel \<Rightarrow> sentinel list" where
  "sent_unwrap errZeroAddr = [ErrInvalid]"
| "sent_unwrap errLongUserPass = [ErrInvalid]"
| "sent_unwrap errFastOpen = [ErrorsErrUnsupported]"
| "sent_unwrap errUnsupported = [ErrorsErrUnsupported]"
| "sent_unwrap errSOCKS4Auth = [ErrAuthFailed]"
| "sent_unwrap errSOCKS4Cmd = [ErrorsErrUnsupported]"
| "sent_unwrap _ = []"

datatype errno =
    ENETUNREACH | EHOSTUNREACH | ECONNREFUSED | ETIMEDOUT | EACCES | EPERM
  | ECONNRESET | ECONNABORTED | EPIPE | EMSGSIZE | EDESTADDRREQ | EINVAL | EAGAIN
  | ENOSYS | EOPNOTSUPP | EOTHER nat

datatype error =
    ESent sentinel
  | EStr string
  | EWrap string "error list"
  | EForeign string bool "error list"
  | EErrno errno
  | ESyscall string error
  | EOp (op_Op: string) (op_Net: string) (op_Source: "string option")
      (op_Addr: "string option") (op_Err: error)
  | EDNS (dns_Err: string) (dns_Name: string) (dns_UnwrapErr: "error option")
      (dns_IsTimeout: bool) (dns_IsNotFound: bool)
  | EAddr string string
  | EUnknownNetwork string
  | EProtocol (pe_Stage: string) (pe_Field: string) (pe_Got: byte) (pe_Hint: string)
      (pe_Err: "error option")
  | EHandshake (he_Stage: string) (he_Err: "error option")
  | EReply (re_Reply: reply) (re_Bound: addr) (re_Version: nat)
  | EMethod (me_Offered: method_code) (me_Selected: method_code) (me_OfferedNoAuth: bool)
  | EAuth (ae_Method: method_code) (ae_Status: byte)
  | EMethodServer "method_code list"
  | EDenied addrport string
  | ERejected error
  | EPanic string bool
  | ERelay string

text \<open>Comparison targets of \<open>errors.Is\<close> in the program: sentinels and errnos.\<close>

datatype target = TSent sentinel | TErrno errno

section \<open>The error tree\<close>

fun err_nodes :: "error \<Rightarrow> error list" where
  "err_nodes (ESent s) = ESent s # map ESent (sent_unwrap s)"
| "err_nodes (EWrap m es) = EWrap m es # concat (map err_nodes es)"
| "err_nodes (EForeign m t es) = EForeign m t es # concat (map err_nodes es)"
| "err_nodes (ESyscall c e) = ESyscall c e # err_nodes e"
| "err_nodes (EOp p n s a e) = EOp p n s a e # err_nodes e"
| "err_nodes (EDNS m n u t f) =
     EDNS m n u t f # (case u of None \<Rightarrow> [] | Some e \<Rightarrow> err_nodes e)"
| "err_nodes (EProtocol st f g h u) =
     EProtocol st f g h u # (case u of None \<Rightarrow> [] | Some e \<Rightarrow> err_nodes e)"
| "err_nodes (EHandshake st u) =
     EHandshake st u # (case u of None \<Rightarrow> [] | Some e \<Rightarrow> err_nodes e)"
| "err_nodes (ERejected e) = ERejected e # EAuth MethodUserPass 1 # err_nodes e"
| "err_nodes e = [e]"

lemma err_nodes_self: "e \<in> set (err_nodes e)"
  by (cases e) auto

text \<open>\<open>syscall.Errno.Is\<close> for the targets of the program.\<close>

definition errno_Is :: "errno \<Rightarrow> target \<Rightarrow> bool" where
  "errno_Is n t = (t = TSent ErrorsErrUnsupported \<and> (n = ENOSYS \<or> n = EOPNOTSUPP))"

text \<open>
  \<open>errno.Is\<close> (internal/errno): the errno a REP mirrors.
\<close>

definition errno_replies :: "(reply \<times> errno) list" where
  "errno_replies =
     [(ReplyNetworkUnreachable, ENETUNREACH), (ReplyHostUnreachable, EHOSTUNREACH),
      (ReplyConnectionRefused, ECONNREFUSED), (ReplyTTLExpired, ETIMEDOUT)]"

definition errno_mirror_Is :: "reply \<Rightarrow> target \<Rightarrow> bool" where
  "errno_mirror_Is rep t =
     (case map_of errno_replies rep of Some n \<Rightarrow> t = TErrno n | None \<Rightarrow> False)"

text \<open>\<open>(*ReplyError).Is\<close>, \<open>(*MethodError).Is\<close>, \<open>(*AuthError).Is\<close> of the client package.\<close>

definition ReplyError_Is :: "reply \<Rightarrow> nat \<Rightarrow> target \<Rightarrow> bool" where
  "ReplyError_Is rep version t =
     (if version = 4
      then t = TSent ErrAuthFailed \<and> (rep = Reply4NoIdentd \<or> rep = Reply4IdentMismatch)
      else if t = TSent ErrorsErrUnsupported then rep = ReplyCommandNotSupported
      else if t = TSent ErrNotAllowed then rep = ReplyNotAllowed
      else errno_mirror_Is rep t)"

definition MethodError_Is :: "method_code \<Rightarrow> method_code \<Rightarrow> bool \<Rightarrow> target \<Rightarrow> bool" where
  "MethodError_Is offered selected offeredNoAuth t =
     (if t = TSent ErrNoAcceptableMethods then selected = MethodNoAcceptable
      else if t = TSent ErrMethodNotOffered
      then selected \<noteq> MethodNoAcceptable \<and> selected \<noteq> offered
           \<and> (\<not> offeredNoAuth \<or> selected \<noteq> MethodNoAuth)
      else False)"

text \<open>One node's answer to \<open>errors.Is\<close>: identity, or its own \<open>Is\<close> method.\<close>

fun node_Is :: "error \<Rightarrow> target \<Rightarrow> bool" where
  "node_Is (ESent s) t = (t = TSent s)"
| "node_Is (EErrno n) t = (t = TErrno n \<or> errno_Is n t)"
| "node_Is (EReply rep b v) t = ReplyError_Is rep v t"
| "node_Is (EMethod off sel noa) t = MethodError_Is off sel noa t"
| "node_Is (EAuth m st) t = (t = TSent ErrAuthFailed)"
| "node_Is (EMethodServer ms) t = (t = TSent ErrNoAcceptableMethods)"
| "node_Is (EDenied ap why) t = (t = TSent ErrNotAllowed)"
| "node_Is (EPanic v replied) t = (t = TSent ErrNoReply \<and> \<not> replied)"
| "node_Is (ERelay why) t = (t = TSent ErrNotAllowed)"
| "node_Is _ t = False"

definition err_Is :: "error \<Rightarrow> target \<Rightarrow> bool" where
  "err_Is e t = list_ex (\<lambda>x. node_Is x t) (err_nodes e)"

definition err_As :: "(error \<Rightarrow> bool) \<Rightarrow> error \<Rightarrow> error option" where
  "err_As p e = find p (err_nodes e)"

definition hasErrType :: "(error \<Rightarrow> bool) \<Rightarrow> error \<Rightarrow> bool" where
  "hasErrType p e = (err_As p e \<noteq> None)"

abbreviation IsS :: "error \<Rightarrow> sentinel \<Rightarrow> bool" where
  "IsS e s \<equiv> err_Is e (TSent s)"

lemma err_Is_ESent [simp]: "err_Is (ESent s) t \<longleftrightarrow> t = TSent s \<or> t \<in> TSent ` set (sent_unwrap s)"
  by (auto simp: err_Is_def list_ex_iff)

lemma err_Is_EProtocol [simp]:
  "err_Is (EProtocol st f g h u) t \<longleftrightarrow> (case u of None \<Rightarrow> False | Some e \<Rightarrow> err_Is e t)"
  by (auto simp: err_Is_def split: option.splits)

lemma err_Is_EHandshake [simp]:
  "err_Is (EHandshake st u) t \<longleftrightarrow> (case u of None \<Rightarrow> False | Some e \<Rightarrow> err_Is e t)"
  by (auto simp: err_Is_def split: option.splits)

lemma err_Is_EOp [simp]: "err_Is (EOp p n s a e) t \<longleftrightarrow> err_Is e t"
  by (auto simp: err_Is_def)

lemma err_Is_EWrap [simp]: "err_Is (EWrap m es) t \<longleftrightarrow> list_ex (\<lambda>e. err_Is e t) es"
  by (induction es) (auto simp: err_Is_def)

lemma err_Is_leaf [simp]:
  "err_Is (EStr s) t \<longleftrightarrow> False"
  "err_Is (EErrno n) t \<longleftrightarrow> t = TErrno n \<or> errno_Is n t"
  "err_Is (EReply rep b v) t \<longleftrightarrow> ReplyError_Is rep v t"
  "err_Is (EAuth m st) t \<longleftrightarrow> t = TSent ErrAuthFailed"
  "err_Is (EMethodServer ms) t \<longleftrightarrow> t = TSent ErrNoAcceptableMethods"
  "err_Is (EMethod off sel noa) t \<longleftrightarrow> MethodError_Is off sel noa t"
  "err_Is (EDenied ap why) t \<longleftrightarrow> t = TSent ErrNotAllowed"
  "err_Is (ERelay why) t \<longleftrightarrow> t = TSent ErrNotAllowed"
  "err_Is (EPanic msg replied) t \<longleftrightarrow> t = TSent ErrNoReply \<and> \<not> replied"
  by (simp_all add: err_Is_def)

text \<open>\<open>errors.Is(err, ErrIncomplete)\<close>, the test of every reader loop.\<close>

definition is_incomplete :: "error \<Rightarrow> bool" where
  "is_incomplete e = IsS e ErrIncomplete"

lemma is_incomplete_simps [simp]:
  "is_incomplete (ESent ErrIncomplete)"
  "\<not> is_incomplete (EProtocol st f g h None)"
  "\<not> is_incomplete (ESent errTooLong)"
  "\<not> is_incomplete (ESent ErrUnexpectedEOF)"
  "\<not> is_incomplete (ESent errContract)"
  "\<not> is_incomplete (EAuth m s)"
  by (simp_all add: is_incomplete_def)

section \<open>Timeouts\<close>

text \<open>
  A node's own \<open>Timeout()\<close> where it does not delegate. \<open>*net.OpError\<close>, \<open>*os.SyscallError\<close>
  and \<open>*HandshakeError\<close> delegate to the error they wrap, which the walk tests next.
\<close>

fun node_Timeout :: "error \<Rightarrow> bool" where
  "node_Timeout (ESent s) = (s = OsErrDeadlineExceeded \<or> s = CtxDeadlineExceeded)"
| "node_Timeout (EErrno n) = (n = ETIMEDOUT \<or> n = EAGAIN)"
| "node_Timeout (EDNS m n u t f) = t"
| "node_Timeout (EForeign m t es) = t"
| "node_Timeout _ = False"

definition IsTimeout :: "error \<Rightarrow> bool" where
  "IsTimeout e = list_ex node_Timeout (err_nodes e)"

text \<open>\<open>neterr.Truncated\<close>.\<close>

definition Truncated :: "string \<Rightarrow> error \<Rightarrow> error" where
  "Truncated stage e =
     (if IsS e IoEOF \<or> IsS e ErrUnexpectedEOF \<or> IsS e ErrIncomplete
      then EProtocol stage [] 0 [] (Some (ESent ErrUnexpectedEOF))
      else e)"

lemma Truncated_not_incomplete [simp]: "\<not> is_incomplete (Truncated stage e)"
  by (simp add: Truncated_def is_incomplete_def)

text \<open>\<open>errno.Reply\<close>: the REP mirroring the first errno of the tree.\<close>

fun is_EErrno :: "error \<Rightarrow> bool" where
  "is_EErrno (EErrno n) = True"
| "is_EErrno _ = False"

definition errno_Reply :: "error \<Rightarrow> reply option" where
  "errno_Reply e =
     (case err_As is_EErrno e of
        Some (EErrno n) \<Rightarrow> map_of (map (\<lambda>(r, m). (m, r)) errno_replies) n
      | _ \<Rightarrow> None)"

text \<open>The mirror is a bijection: \<open>Is\<close> and \<open>Reply\<close> agree on every errno.\<close>

lemma errno_Reply_mirror:
  "errno_Reply (EErrno n) = Some rep \<longleftrightarrow> errno_mirror_Is rep (TErrno n)"
  by (cases n)
    (auto simp: errno_Reply_def err_As_def errno_mirror_Is_def errno_replies_def reply_defs)

end
