(* ===== verification/ServerErrors.thy ===== *)
theory ServerErrors
  imports GoErrors
begin

text \<open>
  \<open>server/errors.go\<close> and \<open>server/errno.go\<close>: the REP sent for an error. The lemmas show that a
  failure is never reported as a success, that the errno a dial failed with reaches the client
  unchanged, and that a proxy behind this one passes its own REP through.
\<close>

definition upstreamReply :: "reply \<Rightarrow> nat \<Rightarrow> reply" where
  "upstreamReply rep version =
     (if version \<noteq> 4 then rep
      else if rep = Reply4NoIdentd \<or> rep = Reply4IdentMismatch then ReplyNotAllowed
      else ReplyGeneralFailure)"

text \<open>\<open>errors.AsType\<close> at the types the function asks for.\<close>

fun is_EReply :: "error \<Rightarrow> bool" where
  "is_EReply (EReply r b v) = True"
| "is_EReply _ = False"

fun is_EDNS :: "error \<Rightarrow> bool" where
  "is_EDNS (EDNS m n u t f) = True"
| "is_EDNS _ = False"

definition errnoReply :: "error \<Rightarrow> reply option" where
  "errnoReply e =
     (case err_As is_EErrno e of
        Some (EErrno n) \<Rightarrow> if n = EACCES \<or> n = EPERM then Some ReplyNotAllowed else errno_Reply e
      | _ \<Rightarrow> errno_Reply e)"

definition ReplyFor :: "error option \<Rightarrow> reply" where
  "ReplyFor err =
     (case err of
        None \<Rightarrow> ReplySucceeded
      | Some e \<Rightarrow>
          (case err_As is_EReply e of
             Some (EReply rep b v) \<Rightarrow> upstreamReply rep v
           | _ \<Rightarrow>
               if IsS e ErrNotAllowed then ReplyNotAllowed
               else if IsS e ErrorsErrUnsupported then ReplyCommandNotSupported
               else case errnoReply e of
                 Some rep \<Rightarrow> rep
               | None \<Rightarrow>
                   if hasErrType is_EDNS e then ReplyHostUnreachable
                   else if IsTimeout e then ReplyTTLExpired
                   else ReplyGeneralFailure))"

definition isSuccess :: "reply \<Rightarrow> bool" where
  "isSuccess rep = (rep = ReplySucceeded \<or> rep = Reply4Granted)"

section \<open>Lemmas\<close>

lemma err_As_SomeD: "err_As p e = Some x \<Longrightarrow> p x \<and> x \<in> set (err_nodes e)"
  by (auto simp: err_As_def find_Some_iff)

lemma is_EReplyD: "is_EReply x \<Longrightarrow> \<exists>r b v. x = EReply r b v"
  by (cases x) auto

lemma is_EErrnoD: "is_EErrno x \<Longrightarrow> \<exists>n. x = EErrno n"
  by (cases x) auto

lemma errnoReply_codes:
  "errnoReply e = Some rep \<Longrightarrow>
   rep \<in> {ReplyNotAllowed, ReplyNetworkUnreachable, ReplyHostUnreachable, ReplyConnectionRefused,
     ReplyTTLExpired}"
  by (auto simp: errnoReply_def errno_Reply_def errno_replies_def
      split: option.splits error.splits if_splits)

text \<open>Only an upstream proxy's own SOCKS5 reply can make an error's REP a success.\<close>

lemma ReplyFor_success:
  assumes "isSuccess (ReplyFor (Some e))"
  shows "\<exists>b v. v \<noteq> 4 \<and> EReply (ReplyFor (Some e)) b v \<in> set (err_nodes e)"
proof (cases "err_As is_EReply e")
  case None
  then show ?thesis
    using assms errnoReply_codes [of e]
    by (auto simp: ReplyFor_def isSuccess_def reply_defs split: option.splits if_splits)
next
  case (Some x)
  then obtain r b v where x: "x = EReply r b v" using err_As_SomeD is_EReplyD by blast
  then have m: "EReply r b v \<in> set (err_nodes e)" using Some err_As_SomeD by blast
  have "ReplyFor (Some e) = upstreamReply r v" by (simp add: ReplyFor_def Some x)
  moreover from this have "v \<noteq> 4"
    using assms by (auto simp: upstreamReply_def isSuccess_def reply_defs split: if_splits)
  ultimately show ?thesis using m by (auto simp: upstreamReply_def)
qed

text \<open>An errno whatever wraps it, as long as nothing in the tree says more.\<close>

lemma ReplyFor_errno:
  assumes "err_As is_EReply e = None" and "\<not> IsS e ErrNotAllowed" and "\<not> IsS e ErrorsErrUnsupported"
    and "err_As is_EErrno e = Some (EErrno n)" and "errno_mirror_Is rep (TErrno n)"
  shows "ReplyFor (Some e) = rep"
proof -
  have "errno_Reply e = errno_Reply (EErrno n)"
    using assms(4) by (simp add: errno_Reply_def) (simp add: err_As_def)
  then have r: "errno_Reply e = Some rep" using assms(5) by (simp add: errno_Reply_mirror)
  moreover have "n \<noteq> EACCES \<and> n \<noteq> EPERM"
    using assms(5) by (auto simp: errno_mirror_Is_def errno_replies_def split: if_splits)
  ultimately show ?thesis using assms by (simp add: ReplyFor_def errnoReply_def)
qed

lemma ReplyFor_upstream:
  "err_As is_EReply e = Some (EReply rep b v) \<Longrightarrow> v \<noteq> 4 \<Longrightarrow> ReplyFor (Some e) = rep"
  by (simp add: ReplyFor_def upstreamReply_def)

end
