(* ===== verification/NetText.thy ===== *)
theory NetText
  imports GoErrors
begin

text \<open>
  The textual part of Go's standard library the program uses: \<open>netip.ParseAddr\<close>,
  \<open>netip.Addr.String\<close>, \<open>net.SplitHostPort\<close>, \<open>net.JoinHostPort\<close> and \<open>strconv.ParseUint\<close>,
  written from their documented and published behaviour.
\<close>

section \<open>Decimal and hexadecimal numbers\<close>

definition is_digit :: "char \<Rightarrow> bool" where
  "is_digit c = (48 \<le> (of_char c :: nat) \<and> (of_char c :: nat) \<le> 57)"

definition digit_val :: "char \<Rightarrow> nat" where
  "digit_val c = of_char c - 48"

fun dec_val :: "nat \<Rightarrow> string \<Rightarrow> nat" where
  "dec_val acc [] = acc"
| "dec_val acc (c # s) = dec_val (10 * acc + digit_val c) s"

text \<open>\<open>strconv.ParseUint(s, 10, 16)\<close>: \<open>None\<close> on a syntax or range error.\<close>

definition ParseUint16 :: "string \<Rightarrow> nat option" where
  "ParseUint16 s =
     (if s = [] \<or> \<not> list_all is_digit s then None
      else if dec_val 0 s < 65536 then Some (dec_val 0 s) else None)"

definition hex_val :: "char \<Rightarrow> nat option" where
  "hex_val c =
     (let n = (of_char c :: nat) in
      if 48 \<le> n \<and> n \<le> 57 then Some (n - 48)
      else if 97 \<le> n \<and> n \<le> 102 then Some (n - 87)
      else if 65 \<le> n \<and> n \<le> 70 then Some (n - 55)
      else None)"

section \<open>IP addresses as text\<close>

text \<open>\<open>parseIPv4Fields\<close>: \<open>fs\<close> are the finished fields, \<open>v\<close> and \<open>dl\<close> the value and the number of
  digits of the field being read.\<close>

fun parseIPv4Fields :: "nat list \<Rightarrow> nat \<Rightarrow> nat \<Rightarrow> string \<Rightarrow> nat list option" where
  "parseIPv4Fields fs v dl [] = (if length fs < 3 then None else Some (fs @ [v]))"
| "parseIPv4Fields fs v dl (c # s) =
     (if is_digit c then
        (if dl = 1 \<and> v = 0 then None
         else if v * 10 + digit_val c > 255 then None
         else parseIPv4Fields fs (v * 10 + digit_val c) (Suc dl) s)
      else if c = CHR ''.'' then
        (if dl = 0 \<or> s = [] then None
         else if length fs = 3 then None
         else parseIPv4Fields (fs @ [v]) 0 0 s)
      else None)"

definition parseIPv4 :: "string \<Rightarrow> ip option" where
  "parseIPv4 s =
     map_option (\<lambda>fs. AddrFrom4 (map word_of_nat fs)) (parseIPv4Fields [] 0 0 s)"

text \<open>One hexadecimal group: its value and length, \<open>None\<close> past four digits.\<close>

fun hex_group :: "nat \<Rightarrow> nat \<Rightarrow> string \<Rightarrow> (nat \<times> nat \<times> string) option" where
  "hex_group acc off [] = Some (acc, off, [])"
| "hex_group acc off (c # s) =
     (case hex_val c of
        None \<Rightarrow> Some (acc, off, c # s)
      | Some d \<Rightarrow> if off > 3 then None else hex_group (acc * 16 + d) (Suc off) s)"

text \<open>
  The group loop of \<open>parseIPv6\<close>: \<open>b\<close> are the bytes so far, \<open>el\<close> the position of the ellipsis;
  the result is the bytes, the ellipsis and the unread text. The recursion spends one group
  of two bytes per turn, so eight turns are enough.
\<close>

fun ipv6_groups ::
  "nat \<Rightarrow> bytes \<Rightarrow> nat option \<Rightarrow> string \<Rightarrow> (bytes \<times> nat option \<times> string) option" where
  "ipv6_groups 0 b el s = Some (b, el, s)"
| "ipv6_groups (Suc k) b el s =
     (case hex_group 0 0 s of
        None \<Rightarrow> None
      | Some (acc, off, rest) \<Rightarrow>
          if off = 0 then None
          else if rest \<noteq> [] \<and> hd rest = CHR ''.'' then
            (if el = None \<and> length b \<noteq> 12 then None
             else if length b + 4 > 16 then None
             else case parseIPv4Fields [] 0 0 s of
                    None \<Rightarrow> None
                  | Some fs \<Rightarrow> Some (b @ map word_of_nat fs, el, []))
          else
            let b' = b @ nat_be 2 acc in
            case rest of
              [] \<Rightarrow> Some (b', el, [])
            | [c] \<Rightarrow> None
            | c # d # r \<Rightarrow>
                if c \<noteq> CHR '':'' then None
                else if d = CHR '':'' then
                  (if el \<noteq> None then None
                   else if r = [] then Some (b', Some (length b'), [])
                   else ipv6_groups k b' (Some (length b')) r)
                else ipv6_groups k b' el (d # r))"

definition expand_ellipsis :: "bytes \<Rightarrow> nat option \<Rightarrow> bytes option" where
  "expand_ellipsis b el =
     (if length b < 16 then
        (case el of None \<Rightarrow> None
         | Some e \<Rightarrow> Some (take e b @ replicate (16 - length b) 0 @ drop e b))
      else if el \<noteq> None then None else Some b)"

definition split_zone :: "string \<Rightarrow> string \<times> string option" where
  "split_zone s =
     (if CHR ''%'' \<in> set s
      then (takeWhile (\<lambda>c. c \<noteq> CHR ''%'') s, Some (tl (dropWhile (\<lambda>c. c \<noteq> CHR ''%'') s)))
      else (s, None))"

definition parseIPv6 :: "string \<Rightarrow> ip option" where
  "parseIPv6 t =
     (let (s, z) = split_zone t; zone = (case z of None \<Rightarrow> [] | Some x \<Rightarrow> x) in
      if z = Some [] then None
      else if has_prefix s ''::'' \<and> length s = 2 then Some (IP6 0 zone)
      else
        let lead = has_prefix s ''::'';
            r = (if lead then ipv6_groups 8 [] (Some 0) (drop 2 s) else ipv6_groups 8 [] None s)
        in case r of
             None \<Rightarrow> None
           | Some (b, el, rest) \<Rightarrow>
               if rest \<noteq> [] then None
               else map_option (\<lambda>bs. WithZone (AddrFrom16 bs) zone) (expand_ellipsis b el))"

fun scan_ip :: "string \<Rightarrow> string \<Rightarrow> ip option" where
  "scan_ip whole [] = None"
| "scan_ip whole (c # s) =
     (if c = CHR ''.'' then parseIPv4 whole
      else if c = CHR '':'' then parseIPv6 whole
      else if c = CHR ''%'' then None
      else scan_ip whole s)"

definition netip_ParseAddr :: "string \<Rightarrow> ip option" where
  "netip_ParseAddr s = scan_ip s s"

fun hex_string :: "nat \<Rightarrow> string" where
  "hex_string n = (if n < 16 then [hex_digit n] else hex_string (n div 16) @ [hex_digit n])"

declare hex_string.simps [simp del]

definition ip4_String :: "bytes \<Rightarrow> string" where
  "ip4_String b = join_strings ''.'' (map (\<lambda>x. nat_string (unat x)) b)"

definition hextets :: "128 word \<Rightarrow> nat list" where
  "hextets w = (let b = be_of_word 16 w in map (\<lambda>i. be_nat (slice (2 * i) (2 * i + 2) b)) [0..<8])"

definition zero_run :: "nat list \<Rightarrow> nat \<Rightarrow> nat" where
  "zero_run hs i = length (takeWhile (\<lambda>h. h = 0) (drop i hs))"

text \<open>The longest run of two or more zero groups, the first of equals.\<close>

definition longest_zeros :: "nat list \<Rightarrow> nat \<times> nat" where
  "longest_zeros hs =
     foldl (\<lambda>(st, len) i. let l = zero_run hs i in if 2 \<le> l \<and> len < l then (i, l) else (st, len))
       (255, 0) [0..<8]"

definition ip6_String :: "128 word \<Rightarrow> string" where
  "ip6_String w =
     (let hs = hextets w; (st, len) = longest_zeros hs;
          part = (\<lambda>xs. join_strings '':'' (map hex_string xs))
      in if st = 255 then part hs else part (take st hs) @ ''::'' @ part (drop (st + len) hs))"

fun ip_String :: "ip \<Rightarrow> string" where
  "ip_String NoIP = ''invalid IP''"
| "ip_String (IP4 w) = ip4_String (be_of_word 4 w)"
| "ip_String (IP6 w z) =
     (if drop_bit 32 w = 0xffff then ''::ffff:'' @ ip4_String (drop 12 (be_of_word 16 w))
      else ip6_String w) @ (if z = [] then [] else CHR ''%'' # z)"

definition ap_String :: "addrport \<Rightarrow> string" where
  "ap_String ap =
     (case ap_addr ap of
        NoIP \<Rightarrow> ''invalid AddrPort''
      | IP4 w \<Rightarrow> ip_String (IP4 w) @ '':'' @ nat_string (unat (ap_port ap))
      | IP6 w z \<Rightarrow> ''['' @ ip_String (IP6 w z) @ '']:'' @ nat_string (unat (ap_port ap)))"

section \<open>Host and port\<close>

definition JoinHostPort :: "string \<Rightarrow> string \<Rightarrow> string" where
  "JoinHostPort host port =
     (if CHR '':'' \<in> set host then ''['' @ host @ '']:'' @ port else host @ '':'' @ port)"

definition index_of :: "char \<Rightarrow> string \<Rightarrow> nat option" where
  "index_of c s = (if c \<in> set s then Some (length (takeWhile (\<lambda>x. x \<noteq> c) s)) else None)"

definition last_index_of :: "char \<Rightarrow> string \<Rightarrow> nat option" where
  "last_index_of c s =
     (if c \<in> set s then Some (length s - 1 - length (takeWhile (\<lambda>x. x \<noteq> c) (rev s))) else None)"

definition addrErr :: "string \<Rightarrow> string \<Rightarrow> error + 'a" where
  "addrErr a why = Inl (EAddr why a)"

definition host_of :: "string \<Rightarrow> nat \<Rightarrow> error + string \<times> nat \<times> nat" where
  "host_of hp i =
     (if hp \<noteq> [] \<and> hp ! 0 = CHR ''['' then
        (case index_of (CHR '']'') hp of
           None \<Rightarrow> addrErr hp ''missing ']' in address''
         | Some e \<Rightarrow>
             if e + 1 = length hp then addrErr hp ''missing port in address''
             else if e + 1 = i then Inr (slice 1 e hp, 1, e + 1)
             else if hp ! (e + 1) = CHR '':'' then addrErr hp ''too many colons in address''
             else addrErr hp ''missing port in address'')
      else if CHR '':'' \<in> set (take i hp) then addrErr hp ''too many colons in address''
      else Inr (take i hp, 0, 0))"

definition SplitHostPort :: "string \<Rightarrow> error + string \<times> string" where
  "SplitHostPort hp =
     (case last_index_of (CHR '':'') hp of
        None \<Rightarrow> addrErr hp ''missing port in address''
      | Some i \<Rightarrow>
          (case host_of hp i of
             Inl e \<Rightarrow> Inl e
           | Inr (host, j, k) \<Rightarrow>
               if CHR ''['' \<in> set (drop j hp) then addrErr hp ''unexpected '[' in address''
               else if CHR '']'' \<in> set (drop k hp) then addrErr hp ''unexpected ']' in address''
               else Inr (host, drop (i + 1) hp)))"

lemma SplitHostPort_nonempty: "SplitHostPort hp = Inr (h, p) \<Longrightarrow> hp \<noteq> []"
  by (auto simp: SplitHostPort_def last_index_of_def addrErr_def)

lemma parseIPv4_Is4: "parseIPv4 s = Some x \<Longrightarrow> Is4 x"
  by (auto simp: parseIPv4_def AddrFrom4_def)

lemma parseIPv6_Is6: "parseIPv6 s = Some x \<Longrightarrow> Is6 x"
  by (auto simp: parseIPv6_def AddrFrom16_def Let_def split: prod.splits if_splits option.splits)

lemma scan_ip_family:
  "scan_ip w s = Some x \<Longrightarrow> Is4 x \<or> Is6 x"
  by (induction w s rule: scan_ip.induct)
    (auto split: if_splits dest: parseIPv4_Is4 parseIPv6_Is6)

lemma scan_ip_no_colon: "scan_ip w s = Some x \<Longrightarrow> CHR '':'' \<notin> set s \<Longrightarrow> Is4 x"
  by (induction w s rule: scan_ip.induct) (auto split: if_splits dest: parseIPv4_Is4)

end
