(* ===== verification/TargetFilter.thy ===== *)
theory TargetFilter
  imports ServerErrors NetText
begin

text \<open>
  \<open>server/filter.go\<close> and \<open>server/ownhost.go\<close>: which targets the built-in handlers may reach. The
  tables are the source's; the listing of the host's interfaces, the kernel's source address
  for a target (\<open>sourceFor\<close>) and a caller's own filter are arguments.
\<close>

section \<open>Requests\<close>

text \<open>\<open>Request.Identity\<close> is \<open>any\<close>: what the authenticators of the package put there.\<close>

datatype identity = IdNil | IdString string | IdOther nat

text \<open>\<open>net.Addr\<close>: the types \<open>addrPortOf\<close> tells apart. A TCP or UDP address is its \<open>AddrPort()\<close>.\<close>

datatype netaddr = NilAddr | TCPAddr addrport | UDPAddr addrport | TextAddr string

text \<open>The exported fields of \<open>Request\<close>; \<open>rq_self\<close> is \<open>r.sc.s.cfg.selfAddrs\<close>, \<open>None\<close> when \<open>r.sc\<close> is nil.\<close>

record request =
  rq_Version :: nat
  rq_Command :: command
  rq_Addr :: addr
  rq_Identity :: identity
  rq_Method :: method_code
  rq_LocalAddr :: netaddr
  rq_RemoteAddr :: netaddr
  rq_self :: "prefix list option"

definition zeroRequest :: request where
  "zeroRequest = \<lparr>rq_Version = 0, rq_Command = 0, rq_Addr = zeroAddr, rq_Identity = IdNil,
     rq_Method = 0, rq_LocalAddr = NilAddr, rq_RemoteAddr = NilAddr, rq_self = None\<rparr>"

text \<open>A \<open>Filter\<close>; \<open>None\<close> as a \<open>filter_fn option\<close> is the nil filter.\<close>

type_synonym filter_fn = "request option \<Rightarrow> string \<Rightarrow> addrport \<Rightarrow> error option"

section \<open>Addresses\<close>

definition normalize :: "addrport \<Rightarrow> addrport" where
  "normalize ap = AddrPortFrom (WithZone (Unmap (ap_addr ap)) []) (ap_port ap)"

text \<open>\<open>netip.ParseAddrPort\<close>: the last colon splits; IPv6 only in brackets, IPv4 never.\<close>

definition find_index_last :: "char \<Rightarrow> string \<Rightarrow> nat option" where
  "find_index_last c s =
     (if c \<in> set s then Some (length s - 1 - length (takeWhile (\<lambda>x. x \<noteq> c) (rev s))) else None)"

definition ParseAddrPort :: "string \<Rightarrow> addrport option" where
  "ParseAddrPort s =
     (case find_index_last (CHR '':'') s of
        None \<Rightarrow> None
      | Some i \<Rightarrow>
          let host = take i s; port = drop (Suc i) s in
          if host = [] \<or> port = [] then None
          else if hd host = CHR ''['' then
            (if length host < 2 \<or> last host \<noteq> CHR '']'' then None
             else case (netip_ParseAddr (butlast (tl host)), ParseUint16 port) of
               (Some x, Some p) \<Rightarrow> if Is6 x then Some (AddrPortFrom x (word_of_nat p)) else None
             | _ \<Rightarrow> None)
          else case (netip_ParseAddr host, ParseUint16 port) of
            (Some x, Some p) \<Rightarrow> if Is4 x then Some (AddrPortFrom x (word_of_nat p)) else None
          | _ \<Rightarrow> None)"

definition addrPortOf :: "netaddr \<Rightarrow> addrport" where
  "addrPortOf a =
     (case a of
        TCPAddr ap \<Rightarrow> normalize ap
      | UDPAddr ap \<Rightarrow> normalize ap
      | NilAddr \<Rightarrow> zeroAddrPort
      | TextAddr s \<Rightarrow>
          normalize (case ParseAddrPort s of Some ap \<Rightarrow> ap | None \<Rightarrow> zeroAddrPort))"

definition ipOf :: "netaddr \<Rightarrow> ip" where
  "ipOf a = ap_addr (addrPortOf a)"

section \<open>Classification\<close>

definition ip4_of_bytes :: "nat \<Rightarrow> nat \<Rightarrow> nat \<Rightarrow> nat \<Rightarrow> 32 word" where
  "ip4_of_bytes a b c d = word_of_nat (((a * 256 + b) * 256 + c) * 256 + d)"

definition denied4 :: "(prefix \<times> string) list" where
  "denied4 =
     [(pfx4 (ip4_of_bytes 0 0 0 0) 8, ''unspecified''),
      (pfx4 (ip4_of_bytes 10 0 0 0) 8, ''private''),
      (pfx4 (ip4_of_bytes 100 64 0 0) 10, ''cgnat''),
      (pfx4 (ip4_of_bytes 127 0 0 0) 8, ''loopback''),
      (pfx4 (ip4_of_bytes 169 254 0 0) 16, ''link-local''),
      (pfx4 (ip4_of_bytes 172 16 0 0) 12, ''private''),
      (pfx4 (ip4_of_bytes 192 0 0 0) 24, ''reserved''),
      (pfx4 (ip4_of_bytes 192 0 2 0) 24, ''reserved''),
      (pfx4 (ip4_of_bytes 192 88 99 0) 24, ''reserved''),
      (pfx4 (ip4_of_bytes 168 63 129 16) 32, ''metadata''),
      (pfx4 (ip4_of_bytes 192 168 0 0) 16, ''private''),
      (pfx4 (ip4_of_bytes 198 18 0 0) 15, ''reserved''),
      (pfx4 (ip4_of_bytes 198 51 100 0) 24, ''reserved''),
      (pfx4 (ip4_of_bytes 203 0 113 0) 24, ''reserved''),
      (pfx4 (ip4_of_bytes 224 0 0 0) 4, ''multicast''),
      (pfx4 (ip4_of_bytes 240 0 0 0) 4, ''reserved'')]"

text \<open>The top 16-bit groups of an IPv6 address, the others zero.\<close>

definition ip6_top :: "nat \<Rightarrow> nat \<Rightarrow> 128 word" where
  "ip6_top a b = word_of_nat ((a * 65536 + b) * 2 ^ 96)"

definition global6 :: prefix where "global6 = pfx6 (ip6_top 0x2000 0) 3"

definition denied6 :: "(prefix \<times> string) list" where
  "denied6 =
     [(pfx6 (ip6_top 0x2001 0) 23, ''reserved''),
      (pfx6 (ip6_top 0x2001 0xdb8) 32, ''reserved''),
      (pfx6 (ip6_top 0x3fff 0) 20, ''reserved'')]"

definition other6 :: "(prefix \<times> string) list" where
  "other6 =
     [(pfx6 0 128, ''unspecified''),
      (pfx6 1 128, ''loopback''),
      (pfx6 (ip6_top 0xfc00 0) 7, ''private''),
      (pfx6 (ip6_top 0xfe80 0) 10, ''link-local''),
      (pfx6 (ip6_top 0xff00 0) 8, ''multicast'')]"

definition nat64 :: prefix where "nat64 = pfx6 (ip6_top 0x64 0xff9b) 96"
definition sixToFour :: prefix where "sixToFour = pfx6 (ip6_top 0x2002 0) 16"

fun reasonIn :: "(prefix \<times> string) list \<Rightarrow> ip \<Rightarrow> string \<Rightarrow> string" where
  "reasonIn [] x otherwise = otherwise"
| "reasonIn ((p, reason) # ps) x otherwise =
     (if pfx_Contains p x then reason else reasonIn ps x otherwise)"

definition embedded4 :: "ip \<Rightarrow> ip" where
  "embedded4 x =
     (let b = As16 x in
      if \<not> Is6 x then NoIP
      else if pfx_Contains nat64 x then AddrFrom4 (slice 12 16 b)
      else if pfx_Contains sixToFour x then AddrFrom4 (slice 2 6 b)
      else NoIP)"

definition classify :: "ip \<Rightarrow> string" where
  "classify x =
     (if Is6 x \<and> \<not> ip_IsValid (embedded4 x) then
        (if \<not> pfx_Contains global6 x then reasonIn other6 x ''reserved''
         else reasonIn denied6 x [])
      else
        let y = (if Is6 x then embedded4 x else x) in
        if \<not> Is4 y then ''invalid'' else reasonIn denied4 y [])"

section \<open>Filters\<close>

definition isSelf :: "request \<Rightarrow> ip \<Rightarrow> bool" where
  "isSelf r x =
     list_ex (\<lambda>a. ip_IsValid a \<and>
         (a = ipOf (rq_LocalAddr r)
          \<or> list_ex (\<lambda>p. pfx_Contains p a) (case rq_self r of Some ps \<Rightarrow> ps | None \<Rightarrow> [])))
       [x, embedded4 x]"

definition DefaultFilter :: filter_fn where
  "DefaultFilter r network ap0 =
     (let ap = normalize ap0 in
      if (case r of Some q \<Rightarrow> isSelf q (ap_addr ap) | None \<Rightarrow> False)
      then Some (EDenied ap ''own address'')
      else if ap_port ap = 0 \<and> \<not> has_prefix network ''ip'' then Some (EDenied ap ''port 0'')
      else let reason = classify (ap_addr ap) in
        if reason = [] then None else Some (EDenied ap reason))"

definition AllowAll :: filter_fn where
  "AllowAll r network ap = None"

definition allow :: "filter_fn option \<Rightarrow> filter_fn" where
  "allow f r network ap =
     (case f of Some g \<Rightarrow> g r network (normalize ap) | None \<Rightarrow> DefaultFilter r network (normalize ap))"

definition ipNetwork :: "ip \<Rightarrow> string" where
  "ipNetwork x = (if Is4 x then ''ip4'' else ''ip6'')"

definition allowIP :: "filter_fn option \<Rightarrow> request option \<Rightarrow> ip \<Rightarrow> error option" where
  "allowIP f r x = allow f r (ipNetwork x) (AddrPortFrom x 0)"

text \<open>\<open>ownHost\<close>: the cached listing (\<open>None\<close> if it failed), else the kernel's source address.\<close>

definition ownHost :: "ip list option \<Rightarrow> (addrport \<Rightarrow> addrport) \<Rightarrow> addrport \<Rightarrow> addrport" where
  "ownHost ips sourceFor dst =
     (case ips of
        None \<Rightarrow> sourceFor dst
      | Some own \<Rightarrow>
          if list_ex (\<lambda>a. ip_IsValid a \<and> (a \<in> set own \<or> IsLoopback a \<or> IsUnspecified a))
               [ap_addr dst, embedded4 (ap_addr dst)]
          then dst else zeroAddrPort)"

text \<open>\<open>checkOwnHost\<close>; the scratch request is a copy of \<open>r\<close> with another \<open>LocalAddr\<close>.\<close>

definition checkOwnHost ::
  "filter_fn option \<Rightarrow> request option \<Rightarrow> string \<Rightarrow> addrport \<Rightarrow> addrport \<Rightarrow> netaddr \<Rightarrow> error option" where
  "checkOwnHost f r network local remote remoteAddr =
     (if \<not> ap_IsValid local \<or> ap_addr local \<noteq> ap_addr remote then None
      else
        let ra = (if remoteAddr = NilAddr then TCPAddr remote else remoteAddr);
            rr = (case r of Some q \<Rightarrow> q | None \<Rightarrow> zeroRequest)
        in allow f (Some (rr\<lparr>rq_LocalAddr := ra\<rparr>)) network remote)"

definition vet ::
  "filter_fn option \<Rightarrow> ip list option \<Rightarrow> (addrport \<Rightarrow> addrport) \<Rightarrow> request option \<Rightarrow> string \<Rightarrow> addrport
   \<Rightarrow> error option" where
  "vet f ips sourceFor r network ap =
     (case allow f r network ap of
        Some e \<Rightarrow> Some e
      | None \<Rightarrow> checkOwnHost f r network (ownHost ips sourceFor ap) ap NilAddr)"

definition checkDial ::
  "filter_fn option \<Rightarrow> ip list option \<Rightarrow> (addrport \<Rightarrow> addrport) \<Rightarrow> request option \<Rightarrow> string \<Rightarrow> string
   \<Rightarrow> error option" where
  "checkDial f ips sourceFor r network address =
     (case ParseAddrPort address of
        None \<Rightarrow> Some (EDenied zeroAddrPort ''unparsable address'')
      | Some ap \<Rightarrow> vet f ips sourceFor r network (normalize ap))"

text \<open>The loop of \<open>lookupAllowed\<close> over the lookup's addresses; \<open>limit\<close> is \<open>cap(dst)\<close>.\<close>

fun lookupLoop ::
  "filter_fn option \<Rightarrow> request option \<Rightarrow> u16 \<Rightarrow> (ip \<Rightarrow> string) \<Rightarrow> nat
   \<Rightarrow> ip list \<Rightarrow> error option \<Rightarrow> ip list \<Rightarrow> ip list \<times> error option" where
  "lookupLoop f r port network limit dst denial [] = (dst, denial)"
| "lookupLoop f r port network limit dst denial (x # xs) =
     (let y = WithZone (Unmap x) [] in
      case allow f r (network y) (AddrPortFrom y port) of
        Some ferr \<Rightarrow>
          lookupLoop f r port network limit dst (if denial = None then Some ferr else denial) xs
      | None \<Rightarrow>
          let dst' = dst @ [y] in
          if length dst' = limit then (dst', denial)
          else lookupLoop f r port network limit dst' denial xs)"

definition lookupAllowed ::
  "filter_fn option \<Rightarrow> (ip list \<times> error option) \<Rightarrow> request option \<Rightarrow> u16 \<Rightarrow> (ip \<Rightarrow> string)
   \<Rightarrow> ip list \<Rightarrow> nat \<Rightarrow> ip list \<times> error option \<times> error option" where
  "lookupAllowed f found r port network dst limit =
     (case found of (ips, err) \<Rightarrow>
        (case lookupLoop f r port network limit dst None ips of
           (out, denial) \<Rightarrow> (out, denial, err)))"

definition notFound :: "string \<Rightarrow> error" where
  "notFound name = EDNS ''no such host'' name None False True"

section \<open>The tables as intervals\<close>

text \<open>The specification: the addresses that are globally reachable unicast, as intervals of numbers
  each from its first address up to
  the first one after it, read off the dotted quads and hexadecimal groups of the special-purpose registries.\<close>

definition quad :: "nat \<Rightarrow> nat \<Rightarrow> nat \<Rightarrow> nat \<Rightarrow> nat" where
  "quad a b c d = a * 2 ^ 24 + b * 2 ^ 16 + c * 2 ^ 8 + d"

definition special4 :: "(nat \<times> nat) list" where
  "special4 =
     [(quad 0 0 0 0, quad 1 0 0 0), (quad 10 0 0 0, quad 11 0 0 0),
      (quad 100 64 0 0, quad 100 128 0 0), (quad 127 0 0 0, quad 128 0 0 0),
      (quad 169 254 0 0, quad 169 255 0 0), (quad 172 16 0 0, quad 172 32 0 0),
      (quad 192 0 0 0, quad 192 0 1 0), (quad 192 0 2 0, quad 192 0 3 0),
      (quad 192 88 99 0, quad 192 88 100 0), (quad 168 63 129 16, quad 168 63 129 17),
      (quad 192 168 0 0, quad 192 169 0 0), (quad 198 18 0 0, quad 198 20 0 0),
      (quad 198 51 100 0, quad 198 51 101 0), (quad 203 0 113 0, quad 203 0 114 0),
      (quad 224 0 0 0, quad 240 0 0 0), (quad 240 0 0 0, quad 256 0 0 0)]"

definition in_ranges :: "(nat \<times> nat) list \<Rightarrow> nat \<Rightarrow> bool" where
  "in_ranges rs n = list_ex (\<lambda>(lo, hi). lo \<le> n \<and> n < hi) rs"

definition public4 :: "nat \<Rightarrow> bool" where
  "public4 n = (\<not> in_ranges special4 n)"

definition special6 :: "(nat \<times> nat) list" where
  "special6 =
     [(0x2001 * 2 ^ 112, 0x20010200 * 2 ^ 96),
      (0x20010db8 * 2 ^ 96, 0x20010db9 * 2 ^ 96),
      (0x3fff * 2 ^ 112, 0x3fff1000 * 2 ^ 96)]"

fun globally_reachable :: "ip \<Rightarrow> bool" where
  "globally_reachable NoIP = False"
| "globally_reachable (IP4 w) = public4 (unat w)"
| "globally_reachable (IP6 w z) =
     (let n = unat w in
      if n div 2 ^ 32 = 0x64ff9b * 2 ^ 64 then public4 (n mod 2 ^ 32)
      else if n div 2 ^ 112 = 0x2002 then public4 (n div 2 ^ 80 mod 2 ^ 32)
      else 0x2000 * 2 ^ 112 \<le> n \<and> n < 0x4000 * 2 ^ 112 \<and> \<not> in_ranges special6 n)"

subsection \<open>Prefixes as intervals\<close>

lemma drop_bit_interval:
  fixes v w :: "'a::len word"
  shows "drop_bit k v = drop_bit k w \<longleftrightarrow>
    (unat v div 2 ^ k) * 2 ^ k \<le> unat w \<and> unat w < (unat v div 2 ^ k) * 2 ^ k + 2 ^ k"
  unfolding drop_bit_word_eq_iff by (rule div_eq_iff_interval) simp

lemma pfx4_interval:
  "pfx_Contains (pfx4 v k) (IP4 w) \<longleftrightarrow>
    (unat v div 2 ^ (32 - k)) * 2 ^ (32 - k) \<le> unat w \<and>
    unat w < (unat v div 2 ^ (32 - k)) * 2 ^ (32 - k) + 2 ^ (32 - k)"
  by (simp only: pfx4_Contains drop_bit_interval)

lemma pfx6_interval:
  "pfx_Contains (pfx6 v k) (IP6 w []) \<longleftrightarrow>
    (unat v div 2 ^ (128 - k)) * 2 ^ (128 - k) \<le> unat w \<and>
    unat w < (unat v div 2 ^ (128 - k)) * 2 ^ (128 - k) + 2 ^ (128 - k)"
  by (simp only: pfx6_Contains drop_bit_interval simp_thms)

lemma reasonIn_Nil_iff:
  "list_all (\<lambda>(p, reason). reason \<noteq> []) ps \<Longrightarrow>
   reasonIn ps x [] = [] \<longleftrightarrow> list_all (\<lambda>(p, reason). \<not> pfx_Contains p x) ps"
  by (induction ps) (auto split: if_splits)

lemma reasonIn_not_Nil:
  "list_all (\<lambda>(p, reason). reason \<noteq> []) ps \<Longrightarrow> other \<noteq> [] \<Longrightarrow> reasonIn ps x other \<noteq> []"
  by (induction ps) (auto split: if_splits)

lemma denied4_public: "reasonIn denied4 (IP4 w) [] = [] \<longleftrightarrow> public4 (unat w)"
  unfolding public4_def special4_def in_ranges_def
  by (subst reasonIn_Nil_iff)
    (simp_all add: denied4_def pfx4_interval ip4_of_bytes_def quad_def unat_of_nat del: pfx4_Contains)

lemma global6_interval:
  "pfx_Contains global6 (IP6 w []) \<longleftrightarrow> 0x2000 * 2 ^ 112 \<le> unat w \<and> unat w < 0x4000 * 2 ^ 112"
  by (simp add: global6_def pfx6_interval ip6_top_def unat_of_nat del: pfx6_Contains)

lemma denied6_public: "reasonIn denied6 (IP6 w []) [] = [] \<longleftrightarrow> \<not> in_ranges special6 (unat w)"
  unfolding special6_def in_ranges_def
  by (subst reasonIn_Nil_iff)
    (simp_all add: denied6_def pfx6_interval ip6_top_def unat_of_nat del: pfx6_Contains)

lemma nat64_div: "pfx_Contains nat64 (IP6 w []) \<longleftrightarrow> unat w div 2 ^ 32 = 0x64ff9b * 2 ^ 64"
  by (auto simp add: nat64_def word_unat_eq_iff unat_drop_bit_word ip6_top_def unat_of_nat)

lemma sixToFour_div: "pfx_Contains sixToFour (IP6 w []) \<longleftrightarrow> unat w div 2 ^ 112 = 0x2002"
  by (auto simp add: sixToFour_def word_unat_eq_iff unat_drop_bit_word ip6_top_def unat_of_nat)

subsection \<open>Embedded IPv4 addresses\<close>

lemma drop_nat_be: "drop k (nat_be (k + m) x) = nat_be m x"
proof (induction k)
  case (Suc k)
  then show ?case by simp
qed simp

lemma take_nat_be: "take k (nat_be (k + m) x) = nat_be k (x div 256 ^ m)"
proof (induction k)
  case (Suc k)
  have "x div 256 ^ m div 256 ^ k = x div 256 ^ (k + m)"
    by (simp only: power_add mult.commute flip: div_mult2_eq)
  then show ?case using Suc by simp
qed simp

lemma embedded_nat64: "slice 12 16 (be_of_word 16 (w :: 128 word)) = nat_be 4 (unat w)"
  using drop_nat_be [of 12 4 "unat w"] by (simp add: slice_def be_of_word_def)

lemma embedded_6to4: "slice 2 6 (be_of_word 16 (w :: 128 word)) = nat_be 4 (unat w div 2 ^ 80)"
  using drop_nat_be [of 2 14 "unat w"] take_nat_be [of 4 10 "unat w"]
  by (simp add: slice_def be_of_word_def)

lemma unat_AddrFrom4: "AddrFrom4 (nat_be 4 x) = IP4 (word_of_nat x)"
  by (simp add: AddrFrom4_def word_of_be_def be_nat_nat_be word_of_nat_eq_iff take_bit_eq_mod)

lemma embedded4_simps [simp]:
  "embedded4 NoIP = NoIP" "embedded4 (IP4 v) = NoIP"
  "embedded4 (IP6 w []) =
     (if unat w div 2 ^ 32 = 0x64ff9b * 2 ^ 64 then IP4 (word_of_nat (unat w))
      else if unat w div 2 ^ 112 = 0x2002 then IP4 (word_of_nat (unat w div 2 ^ 80))
      else NoIP)"
  by (simp_all only: embedded4_def Let_def As16.simps Is6.simps nat64_div sixToFour_div
      embedded_nat64 embedded_6to4 unat_AddrFrom4 simp_thms if_True if_False)

lemma classify_embedded:
  "embedded4 x = IP4 v \<Longrightarrow> classify x = reasonIn denied4 (IP4 v) []"
  by (cases x) (simp_all add: classify_def del: embedded4_simps(3))

lemma classify_reachable:
  assumes "ip_Zone x = []"
  shows "classify x = [] \<longleftrightarrow> globally_reachable x"
proof (cases x)
  case (IP6 w z)
  have o: "reasonIn other6 (IP6 w []) ''reserved'' \<noteq> []"
    by (rule reasonIn_not_Nil) (simp_all add: other6_def)
  have z: "z = []" using assms IP6 by simp
  consider (nat64) "unat w div 2 ^ 32 = 0x64ff9b * 2 ^ 64"
    | (six) "unat w div 2 ^ 32 \<noteq> 0x64ff9b * 2 ^ 64" "unat w div 2 ^ 112 = 0x2002"
    | (plain) "unat w div 2 ^ 32 \<noteq> 0x64ff9b * 2 ^ 64" "unat w div 2 ^ 112 \<noteq> 0x2002"
    by blast
  then show ?thesis
  proof cases
    case nat64
    then have e: "embedded4 x = IP4 (word_of_nat (unat w))"
      by (simp only: IP6 z embedded4_simps if_True simp_thms)
    have g: "globally_reachable x = public4 (unat w mod 2 ^ 32)"
      by (simp only: IP6 z globally_reachable.simps Let_def nat64 if_True simp_thms)
    show ?thesis
      unfolding g classify_embedded [OF e] denied4_public by (simp add: unsigned_ucast_eq take_bit_eq_mod)
  next
    case six
    then have e: "embedded4 x = IP4 (word_of_nat (unat w div 2 ^ 80))"
      by (simp only: IP6 z embedded4_simps if_True if_False simp_thms)
    have g: "globally_reachable x = public4 (unat w div 2 ^ 80 mod 2 ^ 32)"
      using six by (simp only: IP6 z globally_reachable.simps Let_def if_True if_False simp_thms)
    show ?thesis
      unfolding g classify_embedded [OF e] denied4_public by (simp add: unat_of_nat)
  next
    case plain
    then have e: "embedded4 x = NoIP" by (simp only: IP6 z embedded4_simps if_False simp_thms)
    have g: "globally_reachable x = (0x2000 * 2 ^ 112 \<le> unat w \<and> unat w < 0x4000 * 2 ^ 112
        \<and> \<not> in_ranges special6 (unat w))"
      using plain by (simp only: IP6 z globally_reachable.simps Let_def if_False simp_thms)
    have "classify x = (if \<not> pfx_Contains global6 x then reasonIn other6 x ''reserved''
        else reasonIn denied6 x [])"
      using e by (simp add: classify_def IP6 del: embedded4_simps)
    then show ?thesis
      unfolding g using o by (auto simp add: IP6 z global6_interval denied6_public)
  qed
qed (simp_all add: classify_def denied4_public Let_def)

section \<open>The filters' promises\<close>

lemma normalize_sel [simp]:
  "ap_addr (normalize ap) = WithZone (Unmap (ap_addr ap)) []" "ap_port (normalize ap) = ap_port ap"
  by (simp_all add: normalize_def)

lemma normalize_idem [simp]: "normalize (normalize ap) = normalize ap"
  by (simp add: normalize_def)

lemma ip_Zone_plain [simp]: "ip_Zone (WithZone x []) = []"
  by (cases x) simp_all

lemma classify_plain: "classify (WithZone x []) = [] \<longleftrightarrow> globally_reachable (WithZone x [])"
  by (rule classify_reachable) simp

text \<open>C19: \<open>DefaultFilter\<close> lets an address through if and only if it is not the conn's own address,
  its port is not 0 (unless the port means nothing), and it is globally reachable unicast by
  the interval tables, an IPv4 address embedded by mapping, NAT64 or 6to4 standing for itself.\<close>

theorem DefaultFilter_allows_exactly:
  "DefaultFilter r network ap = None \<longleftrightarrow>
     \<not> (\<exists>q. r = Some q \<and> isSelf q (ap_addr (normalize ap)))
     \<and> (ap_port ap = 0 \<longrightarrow> has_prefix network ''ip'')
     \<and> globally_reachable (ap_addr (normalize ap))"
  by (cases r) (simp_all add: DefaultFilter_def Let_def classify_plain)

lemma DefaultFilter_allows_exactly_witness:
  "DefaultFilter None ''tcp4'' (AddrPortFrom (IP4 (ip4_of_bytes 8 8 8 8)) 53) = None"
  using DefaultFilter_allows_exactly [of None "''tcp4''" "AddrPortFrom (IP4 (ip4_of_bytes 8 8 8 8)) 53"]
  by (simp add: public4_def in_ranges_def special4_def quad_def ip4_of_bytes_def)

text \<open>The four ways an IPv6 address carries an IPv4 one.\<close>

definition embeds4 :: "32 word \<Rightarrow> ip set" where
  "embeds4 v =
     {IP4 v} \<union> {IP6 w z | w z. unat w = 0xffff * 2 ^ 32 + unat v}
     \<union> {IP6 w z | w z. unat w = 0x64ff9b * 2 ^ 96 + unat v}
     \<union> {IP6 w z | w z. unat w div 2 ^ 80 = 0x2002 * 2 ^ 32 + unat v}"

lemma unat_32_bound: "unat (v :: 32 word) < 2 ^ 32"
  using unsigned_less [of v, where 'a = nat] by simp

lemma mod_block: "m = k * 2 ^ 32 + unat (v :: 32 word) \<Longrightarrow> m mod 2 ^ 32 = unat v"
  using unat_32_bound [of v] by (simp only: mod_mult_self3 mod_less)

lemma reachable_mapped:
  fixes v :: "32 word"
  assumes w: "unat w = 0xffff * 2 ^ 32 + unat v"
  shows "Unmap (IP6 w z) = IP4 v"
proof -
  have "unat (drop_bit 32 w) = 0xffff"
    using w unat_32_bound [of v] by (simp add: unat_drop_bit_word)
  then have "drop_bit 32 w = 0xffff" by (simp add: word_unat_eq_iff)
  moreover have "unat (ucast w :: 32 word) = unat v"
    using mod_block [of "unat w" "0xffff" v] w by (simp add: unsigned_ucast_eq take_bit_eq_mod)
  then have "(ucast w :: 32 word) = v" by (simp only: word_unat_eq_iff)
  ultimately show ?thesis by simp
qed

lemma not_mapped: "unat (w :: 128 word) div 2 ^ 32 \<noteq> 0xffff \<Longrightarrow> Unmap (IP6 w z) = IP6 w z"
  by (auto simp: word_unat_eq_iff unat_drop_bit_word)

lemma reachable_nat64:
  fixes v :: "32 word"
  assumes w: "unat w = 0x64ff9b * 2 ^ 96 + unat v"
  shows "globally_reachable (WithZone (Unmap (IP6 w z)) []) = public4 (unat v)"
proof -
  have d: "unat w div 2 ^ 32 = 0x64ff9b * 2 ^ 64"
    using w unat_32_bound [of v] by simp
  have m: "unat w mod 2 ^ 32 = unat v"
    by (rule mod_block [where k = "0x64ff9b * 2 ^ 64"]) (simp add: w)
  have "Unmap (IP6 w z) = IP6 w z" using d by (intro not_mapped) simp
  then show ?thesis
    by (simp only: WithZone.simps globally_reachable.simps Let_def d m if_True simp_thms)
qed

lemma reachable_6to4:
  fixes v :: "32 word"
  assumes w: "unat w div 2 ^ 80 = 0x2002 * 2 ^ 32 + unat v"
  shows "globally_reachable (WithZone (Unmap (IP6 w z)) []) = public4 (unat v)"
proof -
  have q: "a div 2 ^ 112 = a div 2 ^ 80 div 2 ^ 32" "a div 2 ^ 112 = a div 2 ^ 32 div 2 ^ 80" for a :: nat
    by (simp_all flip: div_mult2_eq)
  have d: "unat w div 2 ^ 112 = 0x2002"
    unfolding q(1) w using unat_32_bound [of v] by simp
  have e: "unat w div 2 ^ 80 mod 2 ^ 32 = unat v"
    by (rule mod_block [where k = "0x2002"]) (rule w)
  have "unat w div 2 ^ 32 div 2 ^ 80 = 0x2002" using d unfolding q(2) .
  then have n: "unat w div 2 ^ 32 \<noteq> 0x64ff9b * 2 ^ 64" "unat w div 2 ^ 32 \<noteq> 0xffff" by auto
  then have "Unmap (IP6 w z) = IP6 w z" by (intro not_mapped) (simp only: simp_thms)
  then show ?thesis
    using n(1) d e by (simp only: WithZone.simps globally_reachable.simps Let_def if_True if_False simp_thms)
qed

text \<open>No encoding of an IPv4 address gets round the table: mapped, NAT64 and 6to4 forms, with any
  zone, are allowed exactly when the IPv4 address itself is.\<close>

theorem embedded_addresses_judged_alike:
  assumes "x \<in> embeds4 v"
  shows "DefaultFilter None network (AddrPortFrom x p) = None \<longleftrightarrow>
    DefaultFilter None network (AddrPortFrom (IP4 v) p) = None"
proof -
  have "globally_reachable (WithZone (Unmap x) []) = public4 (unat v)"
    using assms unfolding embeds4_def
    by (elim UnE) (auto simp: reachable_mapped reachable_nat64 reachable_6to4 simp del: Unmap.simps(1))
  then show ?thesis
    using classify_reachable [of "IP4 v"] by (simp add: DefaultFilter_def Let_def classify_plain)
qed

lemma embedded_addresses_judged_alike_witness:
  "DefaultFilter None ''tcp6'' (AddrPortFrom (IP6 0x64ff9b00000000000000000a000001 []) 80) \<noteq> None"
proof -
  have "IP6 0x64ff9b00000000000000000a000001 [] \<in> embeds4 (ip4_of_bytes 10 0 0 1)"
    by (simp add: embeds4_def ip4_of_bytes_def)
  from embedded_addresses_judged_alike [OF this, of "''tcp6''" 80] show ?thesis
    by (simp add: DefaultFilter_def Let_def classify_def denied4_def ip4_of_bytes_def pfx4_interval
        unat_of_nat del: pfx4_Contains)
qed

text \<open>A target is this host's own: while the interfaces can be listed, it or the IPv4 address it embeds is an address of
  one of them, a loopback or an unspecified one; when they cannot be, the kernel would reach it from the
  address that it is.\<close>

definition own_target :: "ip list option \<Rightarrow> (addrport \<Rightarrow> addrport) \<Rightarrow> addrport \<Rightarrow> bool" where
  "own_target listing sourceFor ap =
     (case listing of
        Some own \<Rightarrow> \<exists>a \<in> {ap_addr ap, embedded4 (ap_addr ap)}. ip_IsValid a \<and> (a \<in> set own \<or> IsLoopback a \<or> IsUnspecified a)
      | None \<Rightarrow> ip_IsValid (ap_addr ap) \<and> ap_addr (sourceFor ap) = ap_addr ap)"

lemma own_target_ownHost:
  assumes "own_target listing sourceFor ap"
  shows "ap_IsValid (ownHost listing sourceFor ap)" and "ap_addr (ownHost listing sourceFor ap) = ap_addr ap"
proof -
  have v: "ip_IsValid (ap_addr ap)"
    using assms by (cases "ap_addr ap") (auto simp: own_target_def ip_IsValid_def split: option.splits)
  show "ap_IsValid (ownHost listing sourceFor ap)" "ap_addr (ownHost listing sourceFor ap) = ap_addr ap"
    using assms v by (auto simp: own_target_def ownHost_def ap_IsValid_def split: option.splits)
qed

lemma vet_denies_own:
  assumes "normalize ap = ap" and "own_target listing sourceFor ap"
  shows "\<exists>ap' why. vet None listing sourceFor r network ap = Some (EDenied ap' why)"
proof -
  have n: "WithZone (Unmap (ap_addr ap)) [] = ap_addr ap"
    using arg_cong [OF assms(1), of ap_addr] by simp
  note o = own_target_ownHost [OF assms(2)]
  have "ip_IsValid (ap_addr ap)" using o by (simp add: ap_IsValid_def)
  then have self: "isSelf (q\<lparr>rq_LocalAddr := TCPAddr ap\<rparr>) (ap_addr ap)" for q
    by (simp add: isSelf_def ipOf_def addrPortOf_def n)
  have "\<exists>why. checkOwnHost None r network (ownHost listing sourceFor ap) ap NilAddr = Some (EDenied ap why)"
    using self o assms(1) by (auto simp: checkOwnHost_def allow_def DefaultFilter_def Let_def)
  moreover have "\<exists>ap' why. e = EDenied ap' why" if "allow None r network ap = Some e" for e
    using that by (auto simp: allow_def DefaultFilter_def Let_def split: option.splits if_splits)
  ultimately show ?thesis by (auto simp: vet_def split: option.split)
qed

lemma ReplyFor_denied: "ReplyFor (Some (EDenied ap why)) = ReplyNotAllowed"
  by (simp add: ReplyFor_def err_As_def err_Is_def)


text \<open>A mapped address in its textual form.\<close>

lemma ipv6_groups_mapped: "ipv6_groups 8 [] (Some 0) ''ffff:808:808'' = Some ([255, 255, 8, 8, 8, 8], Some 0, [])"
proof -
  have b: "nat_be 2 65535 = [255, 255]" "nat_be 2 2056 = [8, 8]" unfolding numeral_2_eq_2 by simp_all
  have "ipv6_groups (Suc (Suc (Suc n))) [] (Some 0) ''ffff:808:808'' = Some ([255, 255, 8, 8, 8, 8], Some 0, [])" for n
    by (simp add: hex_val_def b)
  from this [of 5] show ?thesis by (simp only: numeral_eq_Suc pred_numeral_simps BitM.simps)
qed

lemma ParseAddrPort_mapped: "ParseAddrPort ''[::ffff:808:808]:80'' = Some (AddrPortFrom (IP6 0xffff08080808 []) 80)"
proof -
  have e: "expand_ellipsis [255, 255, 8, 8, 8, 8] (Some 0) = Some [0, 0, 0, 0, 0, 0, 0, 0, 0, 0, 255, 255, 8, 8, 8, 8]"
    by (simp add: expand_ellipsis_def eval_nat_numeral)
  have h: "netip_ParseAddr ''::ffff:808:808'' = Some (IP6 0xffff08080808 [])"
    by (simp add: netip_ParseAddr_def parseIPv6_def split_zone_def has_prefix_def Let_def ipv6_groups_mapped e)
      (simp add: AddrFrom16_def word_of_be_def)
  have "ParseUint16 ''80'' = Some 80" by (simp add: ParseUint16_def is_digit_def digit_val_def)
  then show ?thesis by (simp add: ParseAddrPort_def find_index_last_def Let_def h)
qed


text \<open>What \<open>lookupAllowed\<close> returns.\<close>

definition allowed_of ::
  "filter_fn option \<Rightarrow> request option \<Rightarrow> u16 \<Rightarrow> (ip \<Rightarrow> string) \<Rightarrow> ip list \<Rightarrow> ip list" where
  "allowed_of f r port network ips =
     filter (\<lambda>y. allow f r (network y) (AddrPortFrom y port) = None)
       (map (\<lambda>x. WithZone (Unmap x) []) ips)"

lemma lookupLoop_take:
  "limit = 0 \<or> length dst < limit \<Longrightarrow>
   fst (lookupLoop f r port network limit dst d ips) =
     (if limit = 0 then dst @ allowed_of f r port network ips
      else take limit (dst @ allowed_of f r port network ips))"
proof (induction ips arbitrary: dst d)
  case (Cons x xs)
  show ?case
  proof (cases "allow f r (network (WithZone (Unmap x) [])) (AddrPortFrom (WithZone (Unmap x) []) port)")
    case None
    show ?thesis
      using Cons.prems Cons.IH [of "dst @ [WithZone (Unmap x) []]" d] None
      by (auto simp: allowed_of_def Let_def)
  next
    case (Some e)
    then show ?thesis using Cons by (simp add: allowed_of_def)
  qed
qed (auto simp: allowed_of_def)

text \<open>\<open>lookupAllowed\<close> keeps, in the lookup's order, exactly the addresses the filter allows, cut
  at the capacity of the slice it fills when that is not 0; the lookup's error passes through.\<close>

theorem lookupAllowed_result:
  assumes "limit = 0 \<or> length dst < limit"
  shows "\<exists>denial. lookupAllowed f (ips, err) r port network dst limit =
    ((if limit = 0 then dst @ allowed_of f r port network ips
      else take limit (dst @ allowed_of f r port network ips)), denial, err)"
  using lookupLoop_take [OF assms, of f r port network None ips]
  by (cases "lookupLoop f r port network limit dst None ips") (simp add: lookupAllowed_def)

lemma lookupAllowed_result_witness:
  "\<exists>denial. lookupAllowed (Some AllowAll) ([IP4 1, IP4 2, IP4 3], None) None 80 ipNetwork [] 2
     = ([IP4 1, IP4 2], denial, None)"
  using lookupAllowed_result [of 2 "[]" "Some AllowAll" "[IP4 1, IP4 2, IP4 3]" None None 80 ipNetwork]
  by (simp add: allowed_of_def allow_def AllowAll_def)

end
