(* ===== verification/WireEncode.thy ===== *)
theory WireEncode
  imports NetText
begin

text \<open>
  Package \<open>wire\<close>, the writing half: \<open>addr.go\<close> (\<open>ParseAddr\<close>, \<open>String\<close>, \<open>append\<close>), the hints of
  \<open>errors.go\<close> and every \<open>Append*\<close> function of \<open>encode.go\<close>. An \<open>Append*\<close> function returns the
  extended slice and its error, as in Go; on an error the slice is the one passed in.
\<close>

section \<open>Version checks and hints (errors.go)\<close>

definition hintHTTP :: string where "hintHTTP = ''likely an HTTP proxy''"
definition hintSOCKS4 :: string where "hintSOCKS4 = ''likely a SOCKS4 server''"
definition hintTor :: string where "hintTor = ''Tor rejected the username format''"
definition hintSOCKS5 :: string where "hintSOCKS5 = ''likely a SOCKS5-only server''"

definition versionHint :: "string \<Rightarrow> byte \<Rightarrow> string" where
  "versionHint stage ver =
     (if stage = StageReply4 then
        (if ver = byte_of_char (CHR ''H'') then hintHTTP
         else if ver = Version5 then hintSOCKS5 else [])
      else if stage = StageMethodSelection \<or> stage = StageUserPassStatus \<or> stage = StageReply then
        (if ver = byte_of_char (CHR ''H'') then hintHTTP
         else if ver = 0 then hintSOCKS4
         else if ver = Version5 \<and> stage = StageUserPassStatus then hintTor else [])
      else [])"

definition checkVersion :: "bytes \<Rightarrow> byte \<Rightarrow> string \<Rightarrow> error option" where
  "checkVersion b want stage =
     (if b = [] \<or> b ! 0 = want then None
      else Some (EProtocol stage FieldVER (b ! 0) (versionHint stage (b ! 0)) None))"

section \<open>Addr (addr.go)\<close>

definition wire_ParseAddr :: "string \<Rightarrow> error + addr" where
  "wire_ParseAddr hostport =
     (case SplitHostPort hostport of
        Inl e \<Rightarrow> Inl e
      | Inr (host, portStr) \<Rightarrow>
          (case ParseUint16 portStr of
             None \<Rightarrow> addrErr hostport ''invalid port''
           | Some p \<Rightarrow>
               let port = word_of_nat p in
               if hostport ! 0 = CHR ''['' then
                 (case netip_ParseAddr host of
                    None \<Rightarrow> addrErr hostport ''brackets need an IPv6 address''
                  | Some x \<Rightarrow>
                      if \<not> Is6 x then addrErr hostport ''brackets need an IPv6 address''
                      else if ip_Zone x \<noteq> [] then addrErr hostport ''IPv6 zone not allowed''
                      else Inr (ipAddr (Unmap x) port))
               else
                 let asName =
                   (if length host = 0 \<or> length host > 255
                    then addrErr hostport ''host must be 1-255 bytes''
                    else Inr (nameAddrOf host port))
                 in if list_all (\<lambda>c. is_digit c \<or> c = CHR ''.'') host then
                      (case netip_ParseAddr host of
                         Some x \<Rightarrow> Inr (ipAddr x port)
                       | None \<Rightarrow> asName)
                    else asName))"

definition addr_String :: "addr \<Rightarrow> string" where
  "addr_String a =
     (if Name_of a \<noteq> [] then JoinHostPort (Name_of a) (nat_string (unat (Port_of a)))
      else if ip_IsValid (IP_of a) then ap_String (AddrPortFrom (IP_of a) (Port_of a))
      else ''invalid Addr'')"

definition wireLen :: "addr \<Rightarrow> nat" where
  "wireLen a =
     (if Name_of a \<noteq> [] then 1 + 1 + length (Name_of a) + 2
      else if Is4 (IP_of a) then 1 + 4 + 2
      else 1 + 16 + 2)"

definition addr_append :: "addr \<Rightarrow> bytes \<Rightarrow> bytes" where
  "addr_append a b =
     (let b1 = b @ [addr_ATYP a];
          b2 = (if Name_of a \<noteq> []
                then (b1 @ [word_of_nat (length (Name_of a))]) @ bytes_of (Name_of a)
                else ip_AppendBinary (IP_of a) b1)
      in b2 @ be_of_word 2 (Port_of a))"

definition AppendBinary :: "addr \<Rightarrow> bytes \<Rightarrow> bytes \<times> error option" where
  "AppendBinary a b =
     (if \<not> addr_IsValid a then (b, Some (ESent errZeroAddr)) else (addr_append a b, None))"

section \<open>Messages (encode.go)\<close>

definition invalidErr :: "string \<Rightarrow> error" where
  "invalidErr why = EWrap (''wire: invalid field: '' @ why) [ESent ErrInvalid]"

definition AppendGreeting :: "bytes \<Rightarrow> method_code list \<Rightarrow> bytes \<times> error option" where
  "AppendGreeting dst methods =
     (if length methods = 0 \<or> length methods > 255
      then (dst, Some (invalidErr (nat_string (length methods) @ '' methods'')))
      else (dst @ [Version5, word_of_nat (length methods)] @ methods, None))"

definition AppendUserPass :: "bytes \<Rightarrow> string \<Rightarrow> string \<Rightarrow> bytes \<times> error option" where
  "AppendUserPass dst user pass =
     (if length user > 255 \<or> length pass > 255
      then (dst, Some (invalidErr ''username or password over 255 bytes''))
      else (dst @ [UserPassVersion, word_of_nat (length user)] @ bytes_of user
              @ [word_of_nat (length pass)] @ bytes_of pass, None))"

definition appendAddrMessage :: "bytes \<Rightarrow> bytes \<Rightarrow> addr \<Rightarrow> bytes \<times> error option" where
  "appendAddrMessage dst header a =
     (if \<not> addr_IsValid a then (dst, Some (ESent errZeroAddr))
      else (addr_append a (dst @ header), None))"

definition AppendRequest :: "bytes \<Rightarrow> command \<Rightarrow> addr \<Rightarrow> bytes \<times> error option" where
  "AppendRequest dst cmd a = appendAddrMessage dst [Version5, cmd, 0] a"

definition isSOCKS4aIP :: "bytes \<Rightarrow> bool" where
  "isSOCKS4aIP b = (b ! 0 = 0 \<and> b ! 1 = 0 \<and> b ! 2 = 0)"

definition checkRequest4 :: "addr \<Rightarrow> string \<Rightarrow> error option" where
  "checkRequest4 a userID =
     (if \<not> addr_IsValid a then Some (ESent errZeroAddr)
      else if Is6 (IP_of a) then Some (invalidErr ''SOCKS4 has no IPv6'')
      else if Is4 (IP_of a) \<and> isSOCKS4aIP (As4 (IP_of a))
      then Some (invalidErr ''SOCKS4 to 0.0.0.0/24'')
      else if length userID > 255 \<or> char_of_byte 0 \<in> set userID \<or> char_of_byte 0 \<in> set (Name_of a)
      then Some (invalidErr ''USERID over 255 bytes, or a NUL byte'')
      else None)"

definition AppendRequest4 ::
  "bytes \<Rightarrow> command \<Rightarrow> addr \<Rightarrow> string \<Rightarrow> bytes \<times> error option" where
  "AppendRequest4 dst cmd a userID =
     (case checkRequest4 a userID of
        Some e \<Rightarrow> (dst, Some e)
      | None \<Rightarrow>
          let dstIP = (if Is4 (IP_of a) then As4 (IP_of a) else [0, 0, 0, 1]);
              d1 = dst @ [Version4, cmd] @ be_of_word 2 (Port_of a) @ dstIP;
              d2 = d1 @ bytes_of userID @ [0]
          in (if Name_of a \<noteq> [] then d2 @ bytes_of (Name_of a) @ [0] else d2, None))"

definition AppendMethodSelection :: "bytes \<Rightarrow> method_code \<Rightarrow> bytes" where
  "AppendMethodSelection dst m = dst @ [Version5, m]"

definition AppendUserPassStatus :: "bytes \<Rightarrow> byte \<Rightarrow> bytes" where
  "AppendUserPassStatus dst status = dst @ [UserPassVersion, status]"

definition AppendReply :: "bytes \<Rightarrow> reply \<Rightarrow> addr \<Rightarrow> bytes \<times> error option" where
  "AppendReply dst rep bound = appendAddrMessage dst [Version5, rep, 0] bound"

definition AppendReply4 :: "bytes \<Rightarrow> reply \<Rightarrow> addr \<Rightarrow> bytes \<times> error option" where
  "AppendReply4 dst rep bound =
     (if Name_of bound \<noteq> [] \<or> Is6 (IP_of bound)
      then (dst, Some (invalidErr (''SOCKS4 reply to '' @ addr_String bound)))
      else (dst @ [0, rep] @ be_of_word 2 (Port_of bound)
              @ (if Is4 (IP_of bound) then As4 (IP_of bound) else [0, 0, 0, 0]), None))"

definition AppendUDPHeader :: "bytes \<Rightarrow> byte \<Rightarrow> addr \<Rightarrow> bytes \<times> error option" where
  "AppendUDPHeader dst frag a = appendAddrMessage dst [0, 0, frag] a"

definition UDPHeaderLen :: "addr \<Rightarrow> nat" where
  "UDPHeaderLen a = (if \<not> addr_IsValid a then 0 else 3 + wireLen a)"

definition MaxUDPHeaderLen :: nat where
  "MaxUDPHeaderLen = 3 + 1 + 1 + 255 + 2"

section \<open>Lengths and failures\<close>

lemma addr_append_dst: "addr_append a (dst @ h) = dst @ addr_append a h"
  by (cases "IP_of a") (auto simp: addr_append_def Let_def)

lemma length_addr_append:
  assumes "addr_wf a" and "addr_IsValid a"
  shows "length (addr_append a b) = length b + wireLen a"
  using assms by (cases a rule: addr_wf_cases)
    (auto simp: addr_append_def wireLen_def Let_def)

lemma wireLen_bounds: "addr_wf a \<Longrightarrow> 5 \<le> wireLen a \<and> wireLen a \<le> 259"
  by (cases a rule: addr_wf_cases) (auto simp: wireLen_def Suc_le_eq)

lemma UDPHeaderLen_max: "addr_wf a \<Longrightarrow> UDPHeaderLen a \<le> MaxUDPHeaderLen"
  using wireLen_bounds [of a] by (auto simp: UDPHeaderLen_def MaxUDPHeaderLen_def)

lemma wire_ParseAddr_wf:
  assumes "wire_ParseAddr hp = Inr a"
  shows "addr_wf a \<and> addr_IsValid a"
proof -
  have as_name: "addr_wf b \<and> addr_IsValid b"
    if "(if length h = 0 \<or> length h > 255 then addrErr hp w else Inr (nameAddrOf h q)) = Inr b"
    for h q w b
    using that by (auto simp: addrErr_def split: if_splits)
  have v4: "addr_wf (ipAddr x q) \<and> addr_IsValid (ipAddr x q)"
    if "netip_ParseAddr h = Some x" and "list_all (\<lambda>c. is_digit c \<or> c = CHR ''.'') h" for h x q
  proof -
    have "CHR '':'' \<notin> set h"
      using that(2) by (auto simp: list_all_iff is_digit_def)
    then have "Is4 x" using that(1) scan_ip_no_colon by (auto simp: netip_ParseAddr_def)
    then show ?thesis by (auto dest: Is4D)
  qed
  have v6: "addr_wf (ipAddr (Unmap x) q) \<and> addr_IsValid (ipAddr (Unmap x) q)"
    if "Is6 x" and "ip_Zone x = []" for x q
    using that by (auto dest!: Is6D)
  show ?thesis
    using assms as_name v4 v6
    by (auto simp: wire_ParseAddr_def addrErr_def Let_def
        split: sum.splits prod.splits option.splits if_splits)
qed

text \<open>An \<open>Append*\<close> function that fails leaves the slice alone and wraps \<open>ErrInvalid\<close>.\<close>

lemma append_failures:
  "AppendGreeting d ms = (d', Some e) \<Longrightarrow> d' = d \<and> IsS e ErrInvalid"
  "AppendUserPass d u p = (d', Some e) \<Longrightarrow> d' = d \<and> IsS e ErrInvalid"
  "appendAddrMessage d h a = (d', Some e) \<Longrightarrow> d' = d \<and> IsS e ErrInvalid"
  "AppendRequest4 d c a u = (d', Some e) \<Longrightarrow> d' = d \<and> IsS e ErrInvalid"
  "AppendReply4 d r a = (d', Some e) \<Longrightarrow> d' = d \<and> IsS e ErrInvalid"
  by (auto simp: AppendGreeting_def AppendUserPass_def appendAddrMessage_def AppendRequest4_def
      AppendReply4_def checkRequest4_def invalidErr_def Let_def split: if_splits option.splits)

end
