(* ===== verification/WireParse.thy ===== *)
theory WireParse
  imports WireEncode
begin

text \<open>
  Package \<open>wire\<close>, the reading half: every \<open>Parse*\<close> function of \<open>parse.go\<close>. A parse function
  returns its values, the length \<open>n\<close> and the error, as in Go.

  The interface between these parsers and every reader loop of the program is the Parse
  contract of \<open>doc.go\<close>, here the locale \<open>parse_contract\<close>: on success the message is the first
  \<open>n\<close> bytes and what follows does not matter; on \<open>ErrIncomplete\<close> \<open>n\<close> is more than what is
  there and no more than the message; any other error is final, whatever bytes come next.
\<close>

section \<open>The parsers (parse.go)\<close>

definition ParseGreeting :: "method_code list \<Rightarrow> bytes \<Rightarrow> method_code list \<times> nat \<times> error option" where
  "ParseGreeting dst b =
     (case checkVersion b Version5 StageGreeting of
        Some e \<Rightarrow> (dst, 0, Some e)
      | None \<Rightarrow>
          if length b < 2 then (dst, 3, Some (ESent ErrIncomplete))
          else if b ! 1 = 0 then (dst, 0, Some (EProtocol StageGreeting FieldNMETHODS 0 [] None))
          else
            let n = 2 + unat (b ! 1) in
            if length b < n then (dst, n, Some (ESent ErrIncomplete))
            else (dst @ slice 2 n b, n, None))"

definition ParseUserPass :: "bytes \<Rightarrow> (bytes \<times> bytes) \<times> nat \<times> error option" where
  "ParseUserPass b =
     (case checkVersion b UserPassVersion StageUserPass of
        Some e \<Rightarrow> (([], []), 0, Some e)
      | None \<Rightarrow>
          if length b < 2 then (([], []), 3, Some (ESent ErrIncomplete))
          else
            let plenAt = 2 + unat (b ! 1) in
            if length b \<le> plenAt then (([], []), plenAt + 1, Some (ESent ErrIncomplete))
            else
              let n = plenAt + 1 + unat (b ! plenAt) in
              if length b < n then (([], []), n, Some (ESent ErrIncomplete))
              else ((slice 2 plenAt b, slice (plenAt + 1) n b), n, None))"

definition throughDomainLen :: nat where "throughDomainLen = 5"

text \<open>The length the address header asks for: \<open>Inl\<close> for the early returns.\<close>

definition addrMessageLen :: "bytes \<Rightarrow> string \<Rightarrow> bool \<Rightarrow> (nat \<times> error) + nat" where
  "addrMessageLen b stage allowATYP0 =
     (let t = b ! 3 in
      if t = ATYPIPv4 \<or> t = 0 \<and> allowATYP0 then Inr (3 + 1 + 4 + 2)
      else if t = ATYPIPv6 then Inr (3 + 1 + 16 + 2)
      else if t \<noteq> ATYPDomain then Inl (0, EProtocol stage FieldATYP t [] None)
      else if length b < throughDomainLen then Inl (throughDomainLen, ESent ErrIncomplete)
      else if b ! 4 = 0 then Inl (0, EProtocol stage FieldADDR 0 [] None)
      else Inr (3 + 1 + 1 + unat (b ! 4) + 2))"

text \<open>The switch on ATYP once the whole message is there.\<close>

definition addrAt :: "bytes \<Rightarrow> nat \<Rightarrow> addr" where
  "addrAt b n =
     (let port = word_of_be (slice (n - 2) n b) in
      if b ! 3 = ATYPIPv4 then ipAddr (AddrFrom4 (slice 4 8 b)) port
      else if b ! 3 = ATYPIPv6 then ipAddr (Unmap (AddrFrom16 (slice 4 20 b))) port
      else if b ! 3 = ATYPDomain then nameAddrOf (string_of (slice 5 (n - 2) b)) port
      else zeroAddr)"

definition parseAddrMessage :: "bytes \<Rightarrow> string \<Rightarrow> bool \<Rightarrow> addr \<times> nat \<times> error option" where
  "parseAddrMessage b stage allowATYP0 =
     (if length b < 4 then (zeroAddr, throughDomainLen, Some (ESent ErrIncomplete))
      else case addrMessageLen b stage allowATYP0 of
        Inl (n, e) \<Rightarrow> (zeroAddr, n, Some e)
      | Inr n \<Rightarrow>
          if length b < n then (zeroAddr, n, Some (ESent ErrIncomplete))
          else (addrAt b n, n, None))"

definition ParseRequest :: "bytes \<Rightarrow> (command \<times> addr) \<times> nat \<times> error option" where
  "ParseRequest b =
     (case checkVersion b Version5 StageRequest of
        Some e \<Rightarrow> ((0, zeroAddr), 0, Some e)
      | None \<Rightarrow>
          (case parseAddrMessage b StageRequest False of
             (a, n, Some e) \<Rightarrow> ((0, zeroAddr), n, Some e)
           | (a, n, None) \<Rightarrow> ((b ! 1, a), n, None)))"

text \<open>\<open>bytes.IndexByte(b, 0)\<close>.\<close>

definition index0 :: "bytes \<Rightarrow> nat option" where
  "index0 b = (if 0 \<in> set b then Some (length (takeWhile (\<lambda>x. x \<noteq> 0) b)) else None)"

definition cstring ::
  "bytes \<Rightarrow> nat \<Rightarrow> string \<Rightarrow> nat \<Rightarrow> nat \<Rightarrow> bytes \<times> nat \<times> error option" where
  "cstring b start field minLen after =
     (case index0 (drop start b) of
        Some i \<Rightarrow>
          if i > 255 \<or> i < minLen then ([], 0, Some (EProtocol StageRequest4 field 0 [] None))
          else (slice start (start + i) b, start + i + 1, None)
      | None \<Rightarrow>
          if length b - start > 255 then ([], 0, Some (EProtocol StageRequest4 field 0 [] None))
          else
            let lacking = minLen - (length b - start) in
            ([], length b + lacking + 1 + after, Some (ESent ErrIncomplete)))"

definition is4a :: "bytes \<Rightarrow> bool" where
  "is4a b = (isSOCKS4aIP (slice 4 8 b) \<and> b ! 7 \<noteq> 0)"

definition ParseRequest4 :: "bytes \<Rightarrow> (command \<times> addr \<times> bytes) \<times> nat \<times> error option" where
  "ParseRequest4 b =
     (case checkVersion b Version4 StageRequest4 of
        Some e \<Rightarrow> ((0, zeroAddr, []), 0, Some e)
      | None \<Rightarrow>
          if length b < 8 then ((0, zeroAddr, []), 9, Some (ESent ErrIncomplete))
          else
            let afterUserID = (if is4a b then 2 else 0)
            in (case cstring b 8 FieldUSERID 0 afterUserID of
                  (userID, n, Some e) \<Rightarrow> ((0, zeroAddr, []), n, Some e)
                | (userID, n, None) \<Rightarrow>
                    let port = word_of_be (slice 2 4 b) in
                    if \<not> is4a b
                    then ((b ! 1, ipAddr (AddrFrom4 (slice 4 8 b)) port, userID), n, None)
                    else
                      (case cstring b n FieldADDR 1 0 of
                         (name, m, Some e) \<Rightarrow> ((0, zeroAddr, []), m, Some e)
                       | (name, m, None) \<Rightarrow>
                           ((b ! 1, nameAddrOf (string_of name) port, userID), m, None))))"

definition ParseMethodSelection :: "bytes \<Rightarrow> method_code \<times> nat \<times> error option" where
  "ParseMethodSelection b =
     (case checkVersion b Version5 StageMethodSelection of
        Some e \<Rightarrow> (0, 0, Some e)
      | None \<Rightarrow> if length b < 2 then (0, 2, Some (ESent ErrIncomplete)) else (b ! 1, 2, None))"

definition ParseUserPassStatus :: "bytes \<Rightarrow> byte \<times> nat \<times> error option" where
  "ParseUserPassStatus b =
     (case checkVersion b UserPassVersion StageUserPassStatus of
        Some e \<Rightarrow> (0, 0, Some e)
      | None \<Rightarrow> if length b < 2 then (0, 2, Some (ESent ErrIncomplete)) else (b ! 1, 2, None))"

definition ParseReply :: "bytes \<Rightarrow> command \<Rightarrow> (reply \<times> addr) \<times> nat \<times> error option" where
  "ParseReply b cmd =
     (case checkVersion b Version5 StageReply of
        Some e \<Rightarrow> ((0, zeroAddr), 0, Some e)
      | None \<Rightarrow>
          let rep = (if length b > 1 then b ! 1 else 0);
              (bound, n, err) =
                parseAddrMessage b StageReply (cmd = CmdTorResolve \<or> cmd = CmdTorResolvePTR)
          in ((rep, bound), n, err))"

definition reply4Len :: nat where "reply4Len = 8"

definition ParseReply4 :: "bytes \<Rightarrow> (reply \<times> addr) \<times> nat \<times> error option" where
  "ParseReply4 b =
     (case checkVersion b 0 StageReply4 of
        Some e \<Rightarrow> ((0, zeroAddr), 0, Some e)
      | None \<Rightarrow>
          let rep = (if length b > 1 then b ! 1 else 0) in
          if length b < reply4Len then ((rep, zeroAddr), reply4Len, Some (ESent ErrIncomplete))
          else ((rep, ipAddr (AddrFrom4 (slice 4 8 b)) (word_of_be (slice 2 4 b))),
                reply4Len, None))"

definition ParseUDPHeader :: "bytes \<Rightarrow> (byte \<times> addr) \<times> nat \<times> error option" where
  "ParseUDPHeader b =
     (case parseAddrMessage b StageUDPHeader False of
        (a, n, Some e) \<Rightarrow> ((0, zeroAddr), n, Some e)
      | (a, n, None) \<Rightarrow> ((b ! 2, a), n, None))"

section \<open>The Parse contract (doc.go)\<close>

locale parse_contract =
  fixes parse :: "bytes \<Rightarrow> 'a \<times> nat \<times> error option"
  assumes ok_len: "parse b = (v, n, None) \<Longrightarrow> 0 < n \<and> n \<le> length b"
    and ok_prefix: "parse b = (v, n, None) \<Longrightarrow> parse (take n b @ x) = (v, n, None)"
    and inc_len: "parse b = (v, n, Some e) \<Longrightarrow> is_incomplete e \<Longrightarrow> length b < n"
    and inc_bound: "parse b = (v, n, Some e) \<Longrightarrow> is_incomplete e \<Longrightarrow>
      parse (b @ x) = (w, m, None) \<Longrightarrow> n \<le> m"
    and err_final: "parse b = (v, n, Some e) \<Longrightarrow> \<not> is_incomplete e \<Longrightarrow>
      n = 0 \<and> (\<exists>w. parse (b @ x) = (w, 0, Some e))"
begin

text \<open>Less than the whole message is incomplete, so a parser never answers early.\<close>

lemma proper_prefix_incomplete:
  assumes ok: "parse b = (v, n, None)" and k: "k < n"
  shows "\<exists>w m e. parse (take k b) = (w, m, Some e) \<and> is_incomplete e \<and> m \<le> n"
proof -
  obtain w m r where p: "parse (take k b) = (w, m, r)" by (cases "parse (take k b)")
  have whole: "parse (take k b @ drop k b) = (v, n, None)" using ok by simp
  show ?thesis
  proof (cases r)
    case None
    have "parse (take m (take k b) @ drop m b) = (w, m, None)"
      using ok_prefix p None by blast
    moreover have "m \<le> k" using ok_len p None by fastforce
    ultimately have "parse b = (w, m, None)" by (simp add: min_def)
    then show ?thesis using ok \<open>m \<le> k\<close> k by simp
  next
    case (Some e)
    have "is_incomplete e"
      using err_final [OF p [unfolded Some], of "drop k b"] whole by auto
    then show ?thesis using p Some inc_bound whole by blast
  qed
qed

lemma ok_append: "parse b = (v, n, None) \<Longrightarrow> parse (b @ x) = (v, n, None)"
  using ok_prefix [of b v n "drop n b @ x"] by (simp flip: append_assoc)

lemma ok_unique:
  "parse b = (v, n, None) \<Longrightarrow> parse (b @ x) = (w, m, r) \<Longrightarrow> w = v \<and> m = n \<and> r = None"
  using ok_append by fastforce

lemma incomplete_Nil:
  "parse b = (v, n, None) \<Longrightarrow> \<exists>w m e. parse [] = (w, m, Some e) \<and> is_incomplete e"
  using proper_prefix_incomplete [of b v n 0] ok_len [of b v n] by auto

end

text \<open>A parser whose incomplete answers never ask for more than \<open>maxlen\<close> bytes: a reader with a
  buffer of that size never slices past it.\<close>

locale bounded_parse = parse_contract +
  fixes maxlen :: nat
  assumes inc_max: "parse b = (v, n, Some e) \<Longrightarrow> is_incomplete e \<Longrightarrow> n \<le> maxlen"
begin

lemma ok_max: "parse b = (v, n, None) \<Longrightarrow> n \<le> maxlen"
proof -
  assume ok: "parse b = (v, n, None)"
  then obtain w m e where p: "parse (take (n - 1) b) = (w, m, Some e)" and i: "is_incomplete e"
    using proper_prefix_incomplete [OF ok, of "n - 1"] ok_len [OF ok] by (auto simp del: One_nat_def)
  have "length (take (n - 1) b) < m" using inc_len [OF p i] .
  moreover have "length (take (n - 1) b) = n - 1" using ok_len [OF ok] by auto
  ultimately show ?thesis using inc_max [OF p i] by simp
qed

end

text \<open>The contract from three facts that are easier to compute: a success depends on its first
  \<open>n\<close> bytes alone, and more bytes change neither a success nor a final error.\<close>

lemma bounded_parseI:
  assumes ok: "\<And>b v n. parse b = (v, n, None) \<Longrightarrow>
      0 < n \<and> n \<le> length b \<and> parse (take n b) = (v, n, None)"
    and more: "\<And>b v n x. parse b = (v, n, None) \<Longrightarrow> parse (b @ x) = (v, n, None)"
    and inc: "\<And>b v n e. parse b = (v, n, Some e) \<Longrightarrow> is_incomplete e \<Longrightarrow>
      length b < n \<and> n \<le> L"
    and bound: "\<And>b v n e x w m. parse b = (v, n, Some e) \<Longrightarrow> is_incomplete e \<Longrightarrow>
      parse (b @ x) = (w, m, None) \<Longrightarrow> n \<le> m"
    and final: "\<And>b v n e x. parse b = (v, n, Some e) \<Longrightarrow> \<not> is_incomplete e \<Longrightarrow>
      n = 0 \<and> (\<exists>w. parse (b @ x) = (w, 0, Some e))"
  shows "bounded_parse parse L"
proof unfold_locales
  fix b v n assume p: "parse b = (v, n, None)"
  show "0 < n \<and> n \<le> length b" using ok [OF p] by simp
  show "parse (take n b @ x) = (v, n, None)" for x using more ok [OF p] by simp
next
  fix b v n e assume p: "parse b = (v, n, Some e)" and i: "is_incomplete e"
  show "length b < n" and "n \<le> L" using inc [OF p i] by simp_all
  show "n \<le> m" if "parse (b @ x) = (w, m, None)" for x w m using bound [OF p i that] .
next
  fix b v n e x assume p: "parse b = (v, n, Some e)" and i: "\<not> is_incomplete e"
  show "n = 0 \<and> (\<exists>w. parse (b @ x) = (w, 0, Some e))" using final [OF p i] .
qed

section \<open>Every parser keeps the contract\<close>

lemma checkVersion_append:
  "b \<noteq> [] \<Longrightarrow> checkVersion (b @ x) v st = checkVersion b v st"
  by (simp add: checkVersion_def nth_append)

lemma checkVersion_Nil [simp]: "checkVersion [] v st = None"
  by (simp add: checkVersion_def)

lemma checkVersion_take: "0 < n \<Longrightarrow> checkVersion (take n b) v st = checkVersion b v st"
  by (simp add: checkVersion_def)

lemma checkVersion_SomeD:
  "checkVersion b v st = Some e \<Longrightarrow>
   b \<noteq> [] \<and> \<not> is_incomplete e \<and> checkVersion (b @ x) v st = Some e"
  by (auto simp: checkVersion_def nth_append split: if_splits)

lemma checkVersion_None_iff: "checkVersion b v st = None \<longleftrightarrow> b = [] \<or> b ! 0 = v"
  by (auto simp: checkVersion_def)

lemma slice_take: "j \<le> n \<Longrightarrow> slice i j (take n b) = slice i j b"
  by (simp add: slice_def drop_take min_def)

lemmas parse_simps = Let_def Suc_le_eq nth_append_left slice_append_left slice_take
  checkVersion_take checkVersion_append

lemma ParseGreeting_ok_iff:
  "ParseGreeting dst b = (v, n, None) \<longleftrightarrow>
   2 \<le> length b \<and> b ! 0 = Version5 \<and> b ! 1 \<noteq> 0 \<and> n = 2 + unat (b ! 1) \<and> n \<le> length b \<and>
   v = dst @ slice 2 n b"
  by (cases "checkVersion b Version5 StageGreeting")
    (auto simp: ParseGreeting_def Let_def checkVersion_def split: if_splits)

lemma ParseGreeting_err_cases:
  assumes "ParseGreeting dst b = (v, n, Some e)"
  obtains (short) "length b < 2" "n = 3" "e = ESent ErrIncomplete"
  | (methods) "2 \<le> length b" "n = 2 + unat (b ! 1)" "length b < n" "e = ESent ErrIncomplete"
  | (version) "n = 0" "checkVersion b Version5 StageGreeting = Some e"
  | (none) "n = 0" "2 \<le> length b" "b ! 0 = Version5" "b ! 1 = 0"
      "e = EProtocol StageGreeting FieldNMETHODS 0 [] None"
  using assms
  by (cases "checkVersion b Version5 StageGreeting")
    (auto simp: ParseGreeting_def Let_def checkVersion_None_iff split: if_splits)

lemma ParseGreeting_version:
  "checkVersion b Version5 StageGreeting = Some e \<Longrightarrow> ParseGreeting dst b = (dst, 0, Some e)"
  by (simp add: ParseGreeting_def)

text \<open>The bytes of a prefix.\<close>

lemma nth_upto_append: "k \<le> length b \<Longrightarrow> i < k \<Longrightarrow> (b @ x) ! i = b ! i"
  by (simp add: nth_append)

interpretation greeting: bounded_parse "ParseGreeting dst" "2 + 255"
proof (rule bounded_parseI, goal_cases)
  case (1 b v n)
  then show ?case by (auto simp: ParseGreeting_ok_iff parse_simps)
next
  case (2 b v n x)
  then have "2 \<le> length b" by (simp add: ParseGreeting_ok_iff)
  then show ?case using 2 nth_upto_append [of 2 b _ x]
    by (simp add: ParseGreeting_ok_iff slice_append_left)
next
  case (3 b v n e)
  then show ?case
    using byte_lt_256 [of "b ! 1"]
    by (cases rule: ParseGreeting_err_cases) (auto dest: checkVersion_SomeD)
next
  case (4 b v n e x w m)
  then have "unat ((b @ x) ! 1) \<noteq> 0" and "m = 2 + unat ((b @ x) ! 1)"
    by (simp_all add: ParseGreeting_ok_iff unat_eq_zero)
  from 4(1) this show ?case
    by (cases rule: ParseGreeting_err_cases)
      (use 4 in \<open>auto simp: nth_append_left dest: checkVersion_SomeD\<close>)
next
  case (5 b v n e x)
  from this(1) show ?case
  proof (cases rule: ParseGreeting_err_cases)
    case version
    then show ?thesis by (simp add: ParseGreeting_version checkVersion_SomeD)
  next
    case none
    then show ?thesis using nth_upto_append [of 2 b _ x]
      by (simp add: ParseGreeting_def checkVersion_def)
  qed (use 5 in auto)
qed

subsection \<open>User and password\<close>

lemma ParseUserPass_ok_iff:
  "ParseUserPass b = (v, n, None) \<longleftrightarrow>
   2 \<le> length b \<and> b ! 0 = UserPassVersion \<and>
   (let p = 2 + unat (b ! 1) in
     p < length b \<and> n = p + 1 + unat (b ! p) \<and> n \<le> length b \<and>
     v = (slice 2 p b, slice (p + 1) n b))"
  by (cases "checkVersion b UserPassVersion StageUserPass")
    (auto simp: ParseUserPass_def Let_def checkVersion_def split: if_splits)

lemma ParseUserPass_err_cases:
  assumes "ParseUserPass b = (v, n, Some e)"
  obtains (short) "length b < 2" "n = 3" "e = ESent ErrIncomplete"
  | (user) "2 \<le> length b" "n = 3 + unat (b ! 1)" "length b < n" "e = ESent ErrIncomplete"
  | (pass) "2 + unat (b ! 1) < length b" "n = 3 + unat (b ! 1) + unat (b ! (2 + unat (b ! 1)))"
      "length b < n" "e = ESent ErrIncomplete"
  | (version) "n = 0" "checkVersion b UserPassVersion StageUserPass = Some e"
  using assms
  by (cases "checkVersion b UserPassVersion StageUserPass")
    (auto simp: ParseUserPass_def Let_def checkVersion_None_iff split: if_splits)

interpretation userpass: bounded_parse ParseUserPass "3 + 255 + 255"
proof (rule bounded_parseI, goal_cases)
  case (1 b v n)
  then show ?case by (auto simp: ParseUserPass_ok_iff parse_simps)
next
  case (2 b v n x)
  then have p: "2 + unat (b ! 1) < length b" by (simp add: ParseUserPass_ok_iff Let_def)
  then show ?case using 2 nth_upto_append [of "3 + unat (b ! 1)" b _ x]
    by (simp add: ParseUserPass_ok_iff slice_append_left Let_def)
next
  case (3 b v n e)
  then show ?case
    using byte_lt_256 [of "b ! 1"] byte_lt_256 [of "b ! (2 + unat (b ! 1))"]
    by (cases rule: ParseUserPass_err_cases) (auto dest: checkVersion_SomeD)
next
  case (4 b v n e x w m)
  then have "m = 3 + unat ((b @ x) ! 1) + unat ((b @ x) ! (2 + unat ((b @ x) ! 1)))"
    by (simp add: ParseUserPass_ok_iff Let_def)
  from 4(1) this show ?case
  proof (cases rule: ParseUserPass_err_cases)
    case pass
    then have "(b @ x) ! 1 = b ! 1" "(b @ x) ! (2 + unat (b ! 1)) = b ! (2 + unat (b ! 1))"
      by (auto simp: nth_append)
    then show ?thesis using pass \<open>m = _\<close> by simp
  qed (use 4 in \<open>auto simp: nth_append_left dest: checkVersion_SomeD\<close>)
next
  case (5 b v n e x)
  from this(1) show ?case
  proof (cases rule: ParseUserPass_err_cases)
    case version
    then show ?thesis by (simp add: ParseUserPass_def checkVersion_SomeD)
  qed (use 5 in auto)
qed

subsection \<open>Address messages\<close>

lemma addrMessageLen_Inr:
  "addrMessageLen b st z = Inr n \<longleftrightarrow>
     (b ! 3 = ATYPIPv4 \<or> b ! 3 = 0 \<and> z) \<and> n = 10 \<or>
     b ! 3 = ATYPIPv6 \<and> n = 22 \<or>
     b ! 3 = ATYPDomain \<and> 5 \<le> length b \<and> b ! 4 \<noteq> 0 \<and> n = 7 + unat (b ! 4)"
  by (auto simp: addrMessageLen_def throughDomainLen_def atyp_defs Let_def)

lemma addrMessageLen_Inl:
  assumes "addrMessageLen b st z = Inl (n, e)"
  obtains (atyp) "n = 0" "b ! 3 \<notin> {ATYPIPv4, ATYPIPv6, ATYPDomain}" "\<not> (b ! 3 = 0 \<and> z)"
      "e = EProtocol st FieldATYP (b ! 3) [] None"
  | (short) "b ! 3 = ATYPDomain" "length b < 5" "n = 5" "e = ESent ErrIncomplete"
  | (addr) "n = 0" "b ! 3 = ATYPDomain" "5 \<le> length b" "b ! 4 = 0"
      "e = EProtocol st FieldADDR 0 [] None"
  using assms
  by (auto simp: addrMessageLen_def throughDomainLen_def atyp_defs Let_def split: if_splits)

lemma addrMessageLen_bounds:
  "addrMessageLen b st z = Inr n \<Longrightarrow> 8 \<le> n \<and> n \<le> 262 \<and> 5 \<le> n"
  using byte_lt_256 [of "b ! 4"] unat_gt_0 [of "b ! 4"]
  by (auto simp: addrMessageLen_Inr Suc_le_eq)

lemma addrMessageLen_append:
  assumes "4 \<le> length b" and "addrMessageLen b st z \<noteq> Inl (5, ESent ErrIncomplete)"
  shows "addrMessageLen (b @ x) st z = addrMessageLen b st z"
  using assms nth_upto_append [of 4 b 3 x] nth_upto_append [of 5 b 4 x]
  by (auto simp: addrMessageLen_def throughDomainLen_def Let_def split: if_splits)

lemma parseAddrMessage_ok_iff:
  "parseAddrMessage b st z = (v, n, None) \<longleftrightarrow>
   4 \<le> length b \<and> addrMessageLen b st z = Inr n \<and> n \<le> length b \<and> v = addrAt b n"
  by (auto simp: parseAddrMessage_def split: sum.splits)

lemma parseAddrMessage_err_cases:
  assumes "parseAddrMessage b st z = (v, n, Some e)"
  obtains (short) "length b < 4" "n = 5" "e = ESent ErrIncomplete"
  | (body) "4 \<le> length b" "addrMessageLen b st z = Inr n" "length b < n" "e = ESent ErrIncomplete"
  | (head) "4 \<le> length b" "addrMessageLen b st z = Inl (n, e)"
  using assms
  by (auto simp: parseAddrMessage_def throughDomainLen_def split: sum.splits if_splits)

lemma addrAt_append:
  assumes "8 \<le> n" and "n \<le> length b" and "addrMessageLen b st z = Inr n"
  shows "addrAt (b @ x) n = addrAt b n" and "addrAt (take n b) n = addrAt b n"
  using assms nth_upto_append [of n b 3 x]
  by (auto simp: addrAt_def Let_def slice_append_left slice_take addrMessageLen_Inr atyp_defs)

lemma addrMessageLen_take:
  "5 \<le> n \<Longrightarrow> n \<le> length b \<Longrightarrow> addrMessageLen (take n b) st z = addrMessageLen b st z"
  by (simp add: addrMessageLen_def throughDomainLen_def Let_def)

lemma bounded_parseAddrMessage: "bounded_parse (\<lambda>b. parseAddrMessage b st z) 262"
proof (rule bounded_parseI, goal_cases)
  case (1 b v n)
  then show ?case using addrMessageLen_bounds [of b st z n]
    by (auto simp: parseAddrMessage_ok_iff addrMessageLen_take addrAt_append)
next
  case (2 b v n x)
  then show ?case using addrMessageLen_bounds [of b st z n] addrMessageLen_append [of b st z x]
    by (auto simp: parseAddrMessage_ok_iff addrAt_append)
next
  case (3 b v n e)
  then show ?case
    using addrMessageLen_bounds [of b st z n]
    by (cases rule: parseAddrMessage_err_cases) (auto elim!: addrMessageLen_Inl)
next
  case (4 b v n e x w m)
  then have "5 \<le> m" and m: "addrMessageLen (b @ x) st z = Inr m"
    using addrMessageLen_bounds [of "b @ x" st z m] by (simp_all add: parseAddrMessage_ok_iff)
  from 4(1) this show ?case
    by (cases rule: parseAddrMessage_err_cases)
      (use 4(2) in \<open>auto simp: addrMessageLen_append elim!: addrMessageLen_Inl\<close>)
next
  case (5 b v n e x)
  from this(1) show ?case
  proof (cases rule: parseAddrMessage_err_cases)
    case head
    have not_inc: "e \<noteq> ESent ErrIncomplete" using 5(2) by auto
    from head have "n = 0" using 5 by (auto elim!: addrMessageLen_Inl)
    moreover have "addrMessageLen (b @ x) st z = Inl (n, e)"
      using head not_inc addrMessageLen_append [of b st z x] by auto
    ultimately show ?thesis using head by (simp add: parseAddrMessage_def)
  qed (use 5 in auto)
qed

text \<open>A parser that checks the version byte and then runs a bounded parser over the same bytes.\<close>

lemma bounded_parse_versioned:
  assumes p: "bounded_parse p L"
    and parse: "\<And>b. parse b =
      (case checkVersion b ver st of
         Some e \<Rightarrow> (d, 0, Some e)
       | None \<Rightarrow> (case p b of (a, n, Some e) \<Rightarrow> (g b a, n, Some e) | (a, n, None) \<Rightarrow> (f b a, n, None)))"
    and f: "\<And>b a n x. p b = (a, n, None) \<Longrightarrow> f (take n b) a = f b a \<and> f (b @ x) a = f b a"
    and nil: "p [] = (a0, m0, Some e0)" "is_incomplete e0"
  shows "bounded_parse parse L"
proof -
  have c: "parse_contract p" using p by (rule bounded_parse.axioms(1))
  note len = parse_contract.ok_len [OF c] and inc = parse_contract.inc_len [OF c]
    and more = parse_contract.ok_append [OF c] and pre = parse_contract.ok_prefix [OF c, where x = "[]", simplified]
    and bound = parse_contract.inc_bound [OF c] and final = parse_contract.err_final [OF c]
    and max = bounded_parse.inc_max [OF p]
  have empty: "b \<noteq> []" if "p b = (a, n, None)" for b a n
    using len [OF that] by auto
  have ok: "parse b = (v, n, None) \<longleftrightarrow>
      checkVersion b ver st = None \<and> (\<exists>a. p b = (a, n, None) \<and> v = f b a)" for b v n
    by (auto simp: parse split: option.splits prod.splits)
  have err: "parse b = (v, n, Some e) \<Longrightarrow>
      checkVersion b ver st = Some e \<and> n = 0 \<or>
      checkVersion b ver st = None \<and> (\<exists>a. p b = (a, n, Some e))" for b v n e
    by (auto simp: parse split: option.splits prod.splits)
  show ?thesis
  proof (rule bounded_parseI, goal_cases)
    case (1 b v n)
    then obtain a where a: "checkVersion b ver st = None" "p b = (a, n, None)" "v = f b a"
      by (auto simp: ok)
    then show ?case
      using len [OF a(2)] pre [OF a(2)] f [OF a(2)] by (simp add: ok checkVersion_take)
  next
    case (2 b v n x)
    then obtain a where a: "checkVersion b ver st = None" "p b = (a, n, None)" "v = f b a"
      by (auto simp: ok)
    then show ?case
      using empty [OF a(2)] more [OF a(2), of x] f [OF a(2), of x]
      by (simp add: ok checkVersion_append)
  next
    case (3 b v n e)
    then show ?case using err inc max by (blast dest: checkVersion_SomeD)
  next
    case (4 b v n e x w m)
    then show ?case using err [OF 4(1)] bound by (auto simp: ok dest: checkVersion_SomeD)
  next
    case (5 b v n e x)
    show ?case
    proof (cases "checkVersion b ver st")
      case None
      then obtain a where a: "p b = (a, n, Some e)" using err [OF 5(1)] by auto
      then have "b \<noteq> []" using nil 5(2) by auto
      then show ?thesis
        using None final [OF a 5(2), of x] by (auto simp: parse checkVersion_append)
    next
      case (Some e')
      then show ?thesis using err [OF 5(1)] checkVersion_SomeD [OF Some, of x]
        by (simp add: parse)
    qed
  qed
qed

lemma parseAddrMessage_Nil: "parseAddrMessage [] st z = (zeroAddr, 5, Some (ESent ErrIncomplete))"
  by (simp add: parseAddrMessage_def throughDomainLen_def)

lemma parseAddrMessage_nth:
  assumes "parseAddrMessage b st z = (a, n, None)" and "i < 8"
  shows "take n b ! i = b ! i" and "(b @ x) ! i = b ! i"
  using assms addrMessageLen_bounds [of b st z n]
  by (auto simp: parseAddrMessage_ok_iff nth_append)

lemmas parseAddrMessage_nth1 = parseAddrMessage_nth [where i = "Suc 0", simplified]

interpretation request: bounded_parse ParseRequest 262
  by (rule bounded_parse_versioned [OF bounded_parseAddrMessage _ _ parseAddrMessage_Nil,
        where parse = ParseRequest and f = "\<lambda>b a. (b ! 1, a)" and g = "\<lambda>b a. (0, zeroAddr)"])
    (auto simp: ParseRequest_def intro: parseAddrMessage_nth1 split: option.splits prod.splits)

lemma ParseReply_alt:
  "ParseReply b cmd =
     (case checkVersion b Version5 StageReply of
        Some e \<Rightarrow> ((0, zeroAddr), 0, Some e)
      | None \<Rightarrow>
         (case parseAddrMessage b StageReply (cmd = CmdTorResolve \<or> cmd = CmdTorResolvePTR) of
            (a, n, Some e) \<Rightarrow> ((if length b > 1 then b ! 1 else 0, a), n, Some e)
          | (a, n, None) \<Rightarrow> ((b ! 1, a), n, None)))"
  by (auto simp: ParseReply_def Let_def parseAddrMessage_ok_iff split: option.splits prod.splits)

interpretation reply: bounded_parse "\<lambda>b. ParseReply b cmd" 262
  by (rule bounded_parse_versioned [OF bounded_parseAddrMessage ParseReply_alt _ parseAddrMessage_Nil])
    (simp_all add: parseAddrMessage_nth1)

lemma MaxReplyLen_262: "MaxReplyLen = 262"
  by (simp add: MaxReplyLen_def)

lemma bounded_parse_fixed:
  assumes parse: "\<And>b. parse b =
      (case checkVersion b ver st of
         Some e \<Rightarrow> (d, 0, Some e)
       | None \<Rightarrow> if length b < k then (g b, k, Some (ESent ErrIncomplete)) else (f b, k, None))"
    and f: "\<And>b x. k \<le> length b \<Longrightarrow> f (take k b) = f b \<and> f (b @ x) = f b"
    and k: "0 < k"
  shows "bounded_parse parse k"
proof (rule bounded_parseI, goal_cases)
  case (1 b v n)
  then show ?case using k f by (auto simp: parse checkVersion_take split: option.splits if_splits)
next
  case (2 b v n x)
  then have "checkVersion (b @ x) ver st = None" "k \<le> length b" "n = k" "v = f b"
    using k checkVersion_append [of b x ver st]
    by (cases "b = []"; force simp: parse split: option.splits if_splits)+
  then show ?case using f by (simp add: parse)
next
  case (3 b v n e)
  then show ?case by (auto simp: parse dest: checkVersion_SomeD split: option.splits if_splits)
next
  case (4 b v n e x w m)
  then show ?case by (auto simp: parse dest: checkVersion_SomeD split: option.splits if_splits)
next
  case (5 b v n e x)
  then have "checkVersion b ver st = Some e" "n = 0"
    by (auto simp: parse split: option.splits if_splits)
  then show ?case using checkVersion_SomeD [of b ver st e x] by (simp add: parse)
qed

interpretation method_selection: bounded_parse ParseMethodSelection 2
  by (rule bounded_parse_fixed [where f = "\<lambda>b. b ! 1"])
    (auto simp: ParseMethodSelection_def nth_append split: option.splits)

interpretation userpass_status: bounded_parse ParseUserPassStatus 2
  by (rule bounded_parse_fixed [where f = "\<lambda>b. b ! 1"])
    (auto simp: ParseUserPassStatus_def nth_append split: option.splits)

interpretation reply4: bounded_parse ParseReply4 8
proof (rule bounded_parse_fixed [where
      f = "\<lambda>b. (b ! 1, ipAddr (AddrFrom4 (slice 4 8 b)) (word_of_be (slice 2 4 b)))"
      and g = "\<lambda>b. (if length b > 1 then b ! 1 else 0, zeroAddr)"])
qed (auto simp: ParseReply4_def Let_def reply4Len_def nth_append slice_take slice_append_left
    split: option.splits)

interpretation udp_header: bounded_parse ParseUDPHeader 262
proof (rule bounded_parseI, goal_cases)
  note [simp] = ParseUDPHeader_def
  note c = bounded_parse.axioms(1) [OF bounded_parseAddrMessage]
  {
    case (1 b v n)
    then obtain a where a: "parseAddrMessage b StageUDPHeader False = (a, n, None)" "v = (b ! 2, a)"
      by (auto split: prod.splits option.splits)
    then show ?case
      using parse_contract.ok_len [OF c a(1)] parseAddrMessage_nth [OF a(1), of 2]
        parse_contract.ok_prefix [OF c a(1), of "[]"] by simp
  next
    case (2 b v n x)
    then obtain a where a: "parseAddrMessage b StageUDPHeader False = (a, n, None)" "v = (b ! 2, a)"
      by (auto split: prod.splits option.splits)
    then show ?case
      using parse_contract.ok_append [OF c a(1), of x] parseAddrMessage_nth [OF a(1), of 2] by simp
  next
    case (3 b v n e)
    then show ?case
      using parse_contract.inc_len [OF c] bounded_parse.inc_max [OF bounded_parseAddrMessage]
      by (fastforce split: prod.splits option.splits)
  next
    case (4 b v n e x w m)
    then show ?case using parse_contract.inc_bound [OF c]
      by (fastforce split: prod.splits option.splits)
  next
    case (5 b v n e x)
    then obtain a where a: "parseAddrMessage b StageUDPHeader False = (a, n, Some e)"
      by (auto split: prod.splits option.splits)
    show ?case using parse_contract.err_final [OF c a 5(2), of x] by auto
  }
qed

subsection \<open>SOCKS4 requests\<close>

lemma index0_append_Some: "index0 xs = Some i \<Longrightarrow> index0 (xs @ ys) = Some i"
  by (auto simp: index0_def takeWhile_append split: if_splits)

lemma index0_append_None:
  "index0 xs = None \<Longrightarrow> index0 (xs @ ys) = map_option ((+) (length xs)) (index0 ys)"
  by (auto simp: index0_def takeWhile_append split: if_splits)

lemma index0_length: "index0 xs = Some i \<Longrightarrow> i < length xs"
proof (induction xs arbitrary: i)
  case (Cons a xs)
  then show ?case by (cases "0 \<in> set xs") (auto simp: index0_def split: if_splits)
qed (simp add: index0_def)

lemma index0_take:
  assumes "index0 xs = Some i" and "i < k"
  shows "index0 (take k xs) = Some i"
proof (cases "index0 (take k xs)")
  case None
  then have "index0 xs = map_option ((+) (length (take k xs))) (index0 (drop k xs))"
    using index0_append_None [OF None, of "drop k xs"] by simp
  then show ?thesis using assms index0_length [OF assms(1)]
    by (cases "index0 (drop k xs)") auto
next
  case (Some j)
  then show ?thesis using index0_append_Some [OF Some, of "drop k xs"] assms by simp
qed

lemma cstring_ok_iff:
  "cstring b s f ml af = (v, n, None) \<longleftrightarrow>
   (\<exists>i. index0 (drop s b) = Some i \<and> i \<le> 255 \<and> ml \<le> i \<and> v = slice s (s + i) b \<and> n = s + i + 1)"
  by (auto simp: cstring_def split: option.splits)

lemma cstring_err_cases:
  assumes "cstring b s f ml af = (v, n, Some e)"
  obtains (bad) "n = 0" "e = EProtocol StageRequest4 f 0 [] None" "v = []"
      "(\<exists>i. index0 (drop s b) = Some i \<and> (i > 255 \<or> i < ml)) \<or>
       index0 (drop s b) = None \<and> length b - s > 255"
  | (short) "e = ESent ErrIncomplete" "index0 (drop s b) = None" "length b - s \<le> 255"
      "n = length b + (ml - (length b - s)) + 1 + af"
  using assms by (auto simp: cstring_def Let_def split: option.splits if_splits)

lemma cstring_ok_len: "cstring b s f ml af = (v, n, None) \<Longrightarrow>
    s < n \<and> n \<le> length b \<and> s + ml + 1 \<le> n \<and> n \<le> s + 256"
  using index0_length [of "drop s b"] by (auto simp: cstring_ok_iff)

lemma cstring_ok_append:
  assumes "cstring b s f ml af = (v, n, None)"
  shows "cstring (b @ x) s f ml af = (v, n, None)"
proof -
  have "n \<le> length b" "s < n" using cstring_ok_len [OF assms] by auto
  moreover from this have "drop s (b @ x) = drop s b @ x" by simp
  ultimately show ?thesis
    using assms index0_append_Some [of "drop s b" _ x]
    by (auto simp: cstring_ok_iff slice_append_left)
qed

lemma cstring_ok_take:
  assumes "cstring b s f ml af = (v, n, None)" and "n \<le> k"
  shows "cstring (take k b) s f ml af = (v, n, None)"
proof -
  obtain i where i: "index0 (drop s b) = Some i" "i \<le> 255" "ml \<le> i" "v = slice s (s + i) b"
      "n = s + i + 1"
    using assms by (auto simp: cstring_ok_iff)
  have "index0 (drop s (take k b)) = Some i"
    using index0_take [OF i(1), of "k - s"] i assms by (simp add: drop_take)
  then show ?thesis using i assms by (simp add: cstring_ok_iff slice_take)
qed

lemma cstring_bad_append:
  assumes "cstring b s f ml af = (v, n, Some e)" and "\<not> is_incomplete e" and "s \<le> length b"
  shows "n = 0 \<and> cstring (b @ x) s f ml af = ([], 0, Some e)"
  using assms(1)
proof (cases rule: cstring_err_cases)
  case bad
  from bad(4) show ?thesis
  proof
    assume "\<exists>i. index0 (drop s b) = Some i \<and> (i > 255 \<or> i < ml)"
    then obtain i where i: "index0 (drop s b) = Some i" "i > 255 \<or> i < ml" by auto
    then have "index0 (drop s (b @ x)) = Some i"
      using assms(3) index0_append_Some by simp
    then show ?thesis using bad i by (auto simp: cstring_def)
  next
    assume n: "index0 (drop s b) = None \<and> length b - s > 255"
    then have "index0 (drop s (b @ x)) = map_option ((+) (length b - s)) (index0 x)"
      using assms(3) index0_append_None [of "drop s b" x] by simp
    then show ?thesis using bad n by (auto simp: cstring_def split: option.splits)
  qed
qed (use assms in auto)

lemma cstring_short_bound:
  assumes "cstring b s f ml af = (v, n, Some e)" and "is_incomplete e" and "s \<le> length b"
    and ok: "cstring (b @ x) s f ml af' = (w, m, None)"
  shows "n \<le> m + af"
  using assms(1)
proof (cases rule: cstring_err_cases)
  case short
  then have "index0 (drop s (b @ x)) = map_option ((+) (length b - s)) (index0 x)"
    using assms(3) index0_append_None [of "drop s b" x] by simp
  then obtain i where "i \<ge> length b - s" "ml \<le> i" "m = s + i + 1"
    using ok by (auto simp: cstring_ok_iff)
  then show ?thesis using short assms(3) by auto
qed (use assms in auto)

lemma cstring_short:
  assumes "cstring b s f ml af = (v, n, Some e)" and "is_incomplete e" and "ml \<le> 1" and "s \<le> length b"
  shows "length b + af < n \<and> n \<le> s + 256 + af"
  using assms(1)
proof (cases rule: cstring_err_cases)
  case short
  then show ?thesis using assms by auto
qed (use assms in auto)

lemma is4a_append:
  "8 \<le> length b \<Longrightarrow> is4a (b @ x) = is4a b" "8 \<le> n \<Longrightarrow> is4a (take n b) = is4a b"
  by (simp_all add: is4a_def slice_append_left slice_take nth_append)

text \<open>A SOCKS4 request is a header of eight bytes, the userid and, for 4a, the name.\<close>

lemma ParseRequest4_ok_iff:
  "ParseRequest4 b = (v, n, None) \<longleftrightarrow>
   8 \<le> length b \<and> b ! 0 = Version4 \<and>
   (\<exists>u k. cstring b 8 FieldUSERID 0 (if is4a b then 2 else 0) = (u, k, None) \<and>
     (if is4a b
      then \<exists>nm. cstring b k FieldADDR 1 0 = (nm, n, None) \<and>
             v = (b ! 1, nameAddrOf (string_of nm) (word_of_be (slice 2 4 b)), u)
      else n = k \<and> v = (b ! 1, ipAddr (AddrFrom4 (slice 4 8 b)) (word_of_be (slice 2 4 b)), u)))"
  by (cases "checkVersion b Version4 StageRequest4")
    (auto simp: ParseRequest4_def Let_def checkVersion_def split: if_splits option.splits prod.splits)

lemma ParseRequest4_err_cases:
  assumes "ParseRequest4 b = (v, n, Some e)"
  obtains (short) "length b < 8" "n = 9" "e = ESent ErrIncomplete"
  | (version) "n = 0" "checkVersion b Version4 StageRequest4 = Some e"
  | (userid) u where "8 \<le> length b" "b ! 0 = Version4" "cstring b 8 FieldUSERID 0 (if is4a b then 2 else 0) = (u, n, Some e)"
  | (name) u k nm where "8 \<le> length b" "b ! 0 = Version4" "is4a b" "cstring b 8 FieldUSERID 0 2 = (u, k, None)"
      "cstring b k FieldADDR 1 0 = (nm, n, Some e)"
  using assms
  by (cases "checkVersion b Version4 StageRequest4")
    (auto simp: ParseRequest4_def Let_def checkVersion_None_iff split: if_splits option.splits prod.splits)

lemma ParseRequest4_append_cong:
  assumes "8 \<le> length b"
  shows "(b @ x) ! 0 = b ! 0" "(b @ x) ! 1 = b ! 1" "(b @ x) ! Suc 0 = b ! Suc 0" "slice 4 8 (b @ x) = slice 4 8 b"
    "slice 2 4 (b @ x) = slice 2 4 b" "is4a (b @ x) = is4a b"
  using assms nth_upto_append [of 8 b _ x] by (simp_all add: slice_append_left is4a_append)

interpretation request4: bounded_parse ParseRequest4 520
proof (rule bounded_parseI, goal_cases)
  case (1 b v n)
  then obtain u k where u: "cstring b 8 FieldUSERID 0 (if is4a b then 2 else 0) = (u, k, None)"
    and kn: "k \<le> n" and n: "n \<le> length b"
    using cstring_ok_len [of b 8] cstring_ok_len [of b _ FieldADDR 1 0]
    by (auto simp: ParseRequest4_ok_iff split: if_splits) (metis less_imp_le)
  have k: "9 \<le> k" using cstring_ok_len [OF u] by simp
  have "cstring (take n b) 8 FieldUSERID 0 (if is4a b then 2 else 0) = (u, k, None)"
    using cstring_ok_take [OF u kn] .
  then show ?case
    using 1 n k kn u cstring_ok_take [of b k FieldADDR 1 0 _ n n]
    by (auto simp: ParseRequest4_ok_iff is4a_append slice_take split: if_splits)
next
  case (2 b v n x)
  then have "8 \<le> length b" by (simp add: ParseRequest4_ok_iff)
  then show ?case using 2
    by (fastforce simp: ParseRequest4_ok_iff ParseRequest4_append_cong
        intro: cstring_ok_append split: if_splits)
next
  case (3 b v n e)
  from this(1) show ?case
  proof (cases rule: ParseRequest4_err_cases)
    case (userid u)
    then show ?thesis using cstring_short [OF userid(3) 3(2)] by (auto split: if_splits)
  next
    case (name u k nm)
    have "k \<le> length b" "k \<le> 264" using cstring_ok_len [OF name(4)] by auto
    then show ?thesis using cstring_short [OF name(5) 3(2)] by auto
  qed (use 3 in \<open>auto dest: checkVersion_SomeD\<close>)
next
  case (4 b v n e x w m)
  then obtain u' k' where u': "8 \<le> length (b @ x)"
      "cstring (b @ x) 8 FieldUSERID 0 (if is4a (b @ x) then 2 else 0) = (u', k', None)"
      and m: "k' + (if is4a (b @ x) then 2 else 0) \<le> m" "9 \<le> m"
      and nm: "is4a (b @ x) \<Longrightarrow> \<exists>nm. cstring (b @ x) k' FieldADDR 1 0 = (nm, m, None)"
    using cstring_ok_len [of "b @ x" 8] cstring_ok_len [of "b @ x" _ FieldADDR 1 0]
    by (fastforce simp: ParseRequest4_ok_iff split: if_splits)
  from 4(1) show ?case
  proof (cases rule: ParseRequest4_err_cases)
    case (userid u)
    then show ?thesis
      using cstring_short_bound [OF userid(3) 4(2) _ u'(2)] m is4a_append(1) [of b x]
      by (auto split: if_splits)
  next
    case (name u k nm)
    have "k' = k" using cstring_ok_append [OF name(4), of x] u' name is4a_append(1) [of b x]
      by simp
    then obtain nm' where "cstring (b @ x) k FieldADDR 1 0 = (nm', m, None)"
      using nm name is4a_append(1) [of b x] by auto
    then show ?thesis
      using cstring_short_bound [OF name(5) 4(2)] cstring_ok_len [OF name(4)] by fastforce
  qed (use 4 m in \<open>auto dest: checkVersion_SomeD\<close>)
next
  case (5 b v n e x)
  from this(1) show ?case
  proof (cases rule: ParseRequest4_err_cases)
    case version
    then show ?thesis using checkVersion_SomeD [of b _ _ e x] by (simp add: ParseRequest4_def)
  next
    case (userid u)
    then show ?thesis
      using cstring_bad_append [OF userid(3) 5(2), of x] ParseRequest4_append_cong [of b x]
      by (auto simp: ParseRequest4_def checkVersion_def Let_def)
  next
    case (name u k nm)
    have "k \<le> length b" using cstring_ok_len [OF name(4)] by simp
    then show ?thesis
      using name cstring_bad_append [OF name(5) 5(2), of x] ParseRequest4_append_cong [of b x]
        cstring_ok_append [OF name(4), of x]
      by (auto simp: ParseRequest4_def checkVersion_def Let_def)
  qed (use 5 in auto)
qed

end
