(* ===== verification/Streams.thy ===== *)
theory Streams
  imports GoErrors
begin

text \<open>
  The reading side of a connection, as an \<open>io.Reader\<close> shows it: the bytes arrive in chunks of any
  size (empty ones included), then the reader stops with an error that stays, possibly returned
  together with the last bytes. An \<open>outcome\<close> tells a run that returns from one that panics and one
  that loops for ever. \<open>rd_full\<close> is \<open>io.ReadFull\<close> before it renames the error.
\<close>

datatype 'a outcome = Ret 'a | Panic | Diverge

datatype stream = Chunk bytes stream | Stop bytes error

fun stream_bytes :: "stream \<Rightarrow> bytes" where
  "stream_bytes (Chunk c s) = c @ stream_bytes s"
| "stream_bytes (Stop c e) = c"

fun stream_end :: "stream \<Rightarrow> error" where
  "stream_end (Chunk c s) = stream_end s"
| "stream_end (Stop c e) = e"

text \<open>One \<open>Read\<close> into a buffer of \<open>k\<close> bytes.\<close>

fun stream_read :: "nat \<Rightarrow> stream \<Rightarrow> bytes \<times> error option \<times> stream" where
  "stream_read k (Chunk c s) =
     (if length c > k then (take k c, None, Chunk (drop k c) s) else (c, None, s))"
| "stream_read k (Stop c e) =
     (if length c > k then (take k c, None, Stop (drop k c) e) else (c, Some e, Stop [] e))"

lemma stream_read_bytes:
  "stream_read k s = (b, e, s') \<Longrightarrow>
   length b \<le> k \<and> stream_bytes s = b @ stream_bytes s' \<and> stream_end s' = stream_end s"
  by (cases s) (auto split: if_splits)

lemma stream_read_None:
  "stream_read k s = (b, None, s') \<Longrightarrow> length b = k \<or> size s' < size s"
  by (cases s) (auto split: if_splits)

lemma stream_read_Some:
  "stream_read k s = (b, Some e, s') \<Longrightarrow> e = stream_end s \<and> s' = Stop [] (stream_end s)"
  by (cases s) (auto split: if_splits)

function rd_full :: "nat \<Rightarrow> stream \<Rightarrow> bytes \<times> error option \<times> stream" where
  "rd_full k s =
     (if k = 0 then ([], None, s)
      else case stream_read k s of (b, e, s') \<Rightarrow>
        if k \<le> length b then (b, None, s')
        else case e of
          Some err \<Rightarrow> (b, Some err, s')
        | None \<Rightarrow> (case rd_full (k - length b) s' of (b2, e2, s2) \<Rightarrow> (b @ b2, e2, s2)))"
  by auto
termination
  by (relation "measure (\<lambda>(k, s). size s)") (auto dest!: stream_read_None sym [of _ "stream_read _ _"])

declare rd_full.simps [simp del]

lemma rd_full_ok:
  "k \<le> length (stream_bytes s) \<Longrightarrow>
   \<exists>s'. rd_full k s = (take k (stream_bytes s), None, s') \<and>
     stream_bytes s' = drop k (stream_bytes s) \<and> stream_end s' = stream_end s"
proof (induction k s rule: rd_full.induct)
  case (1 k s)
  obtain b e s' where r: "stream_read k s = (b, e, s')" by (cases "stream_read k s")
  note rb = stream_read_bytes [OF r]
  show ?case
  proof (cases "k = 0 \<or> k \<le> length b")
    case True
    then show ?thesis using r rb by (auto simp: rd_full.simps [of k s])
  next
    case False
    then have e: "e = None"
      using r rb "1.prems" stream_read_Some [of k s b _ s'] by (cases e) fastforce+
    have "k - length b \<le> length (stream_bytes s')" using rb "1.prems" by simp
    then obtain s2 where "rd_full (k - length b) s' = (take (k - length b) (stream_bytes s'), None, s2)"
      "stream_bytes s2 = drop (k - length b) (stream_bytes s')" "stream_end s2 = stream_end s'"
      using "1.IH" [OF _ r [symmetric] refl _ e] False by auto
    then show ?thesis using False r rb e by (auto simp: rd_full.simps [of k s])
  qed
qed

lemma rd_full_short:
  "length (stream_bytes s) < k \<Longrightarrow>
   rd_full k s = (stream_bytes s, Some (stream_end s), Stop [] (stream_end s))"
proof (induction k s rule: rd_full.induct)
  case (1 k s)
  obtain b e s' where r: "stream_read k s = (b, e, s')" by (cases "stream_read k s")
  note rb = stream_read_bytes [OF r]
  have k: "k \<noteq> 0" "\<not> k \<le> length b" using rb "1.prems" by auto
  show ?case
  proof (cases e)
    case None
    then have "rd_full (k - length b) s' = (stream_bytes s', Some (stream_end s'), Stop [] (stream_end s'))"
      using "1.IH" [OF _ r [symmetric] refl _ None] k rb "1.prems" by auto
    then show ?thesis using k r rb None by (simp add: rd_full.simps [of k s])
  next
    case (Some err)
    then show ?thesis using k r rb stream_read_Some [of k s b err s'] by (simp add: rd_full.simps [of k s])
  qed
qed

text \<open>\<open>io.ReadFull\<close>: EOF after some of the bytes is \<open>ErrUnexpectedEOF\<close>.\<close>

definition ReadFull :: "nat \<Rightarrow> stream \<Rightarrow> bytes \<times> error option \<times> stream" where
  "ReadFull k s =
     (case rd_full k s of (b, e, s') \<Rightarrow>
        (b, if b \<noteq> [] \<and> e = Some (ESent IoEOF) then Some (ESent ErrUnexpectedEOF) else e, s'))"

lemma ReadFull_ok:
  "k \<le> length (stream_bytes s) \<Longrightarrow>
   \<exists>s'. ReadFull k s = (take k (stream_bytes s), None, s') \<and>
     stream_bytes s' = drop k (stream_bytes s) \<and> stream_end s' = stream_end s"
  using rd_full_ok [of k s] by (auto simp: ReadFull_def)

lemma ReadFull_short:
  "length (stream_bytes s) < k \<Longrightarrow>
   ReadFull k s = (stream_bytes s,
     Some (if stream_bytes s \<noteq> [] \<and> stream_end s = ESent IoEOF then ESent ErrUnexpectedEOF
           else stream_end s),
     Stop [] (stream_end s))"
  by (simp add: ReadFull_def rd_full_short)

lemma ReadFull_length: "ReadFull k s = (b, None, s') \<Longrightarrow> length b = k"
  using ReadFull_ok [of k s] ReadFull_short [of s k] by (cases "k \<le> length (stream_bytes s)") auto

end
