(* ===== verification/WireRead.thy ===== *)
theory WireRead
  imports WireParse Streams
begin

text \<open>
  Package \<open>wire\<close>, \<open>read.go\<close>: the blocking \<open>Read*\<close> functions. Their common loop is total in the
  model: \<open>Panic\<close> is the slice expression \<open>buf[have:need]\<close> out of range, \<open>Diverge\<close> the loop that would
  ask for nothing for ever. A parser that keeps the Parse contract within the buffer's size
  reaches neither, and then the result is that of one \<open>Parse*\<close> call over all the bytes of the
  stream, however they arrive, with exactly the message consumed.
\<close>

definition readFailure ::
  "(bytes \<Rightarrow> 'a \<times> nat \<times> error option) \<Rightarrow> bytes \<Rightarrow> error \<Rightarrow> string \<Rightarrow> 'a \<times> error option" where
  "readFailure parse partial err stage =
     (case parse partial of
        (v, n, None) \<Rightarrow> (v, None)
      | (v, n, Some perr) \<Rightarrow>
          if \<not> is_incomplete perr then (v, Some perr)
          else if IsS err IoEOF \<or> IsS err ErrUnexpectedEOF
          then (v, Some (EProtocol stage [] 0 [] (Some (ESent ErrUnexpectedEOF))))
          else (v, Some err))"

text \<open>\<open>read\<close>: \<open>b\<close> is \<open>buf[:have]\<close>, \<open>cap\<close> the length of \<open>buf\<close>.\<close>

function wire_read ::
  "(bytes \<Rightarrow> 'a \<times> nat \<times> error option) \<Rightarrow> nat \<Rightarrow> string \<Rightarrow> bytes \<Rightarrow> stream
   \<Rightarrow> ('a \<times> error option \<times> stream) outcome" where
  "wire_read parse cap stage b s =
     (case parse b of
        (v, need, None) \<Rightarrow> Ret (v, None, s)
      | (v, need, Some e) \<Rightarrow>
          if \<not> is_incomplete e then Ret (v, Some e, s)
          else if need < length b \<or> cap < need then Panic
          else if need = length b then Diverge
          else (case ReadFull (need - length b) s of
                  (got, Some err, s') \<Rightarrow>
                    (case readFailure parse (b @ got) err stage of (w, r) \<Rightarrow> Ret (w, r, s'))
                | (got, None, s') \<Rightarrow> wire_read parse cap stage (b @ got) s'))"
  by auto
termination
proof (relation "measure (\<lambda>(parse, cap, stage, b, s). cap - length b)", goal_cases)
  case 2
  then show ?case by (auto dest!: ReadFull_length sym [of _ "ReadFull _ _"])
qed simp

declare wire_read.simps [simp del]

definition maxGreetingLen :: nat where "maxGreetingLen = 2 + 255"
definition maxUserPassLen :: nat where "maxUserPassLen = 1 + 1 + 255 + 1 + 255"
definition maxRequest4Len :: nat where "maxRequest4Len = 8 + 256 + 256"

definition ReadGreeting :: "stream \<Rightarrow> (method_code list \<times> error option \<times> stream) outcome" where
  "ReadGreeting r = wire_read (ParseGreeting []) maxGreetingLen StageGreeting [] r"

definition ReadUserPass :: "stream \<Rightarrow> ((bytes \<times> bytes) \<times> error option \<times> stream) outcome" where
  "ReadUserPass r = wire_read ParseUserPass maxUserPassLen StageUserPass [] r"

definition ReadRequest :: "stream \<Rightarrow> ((command \<times> addr) \<times> error option \<times> stream) outcome" where
  "ReadRequest r = wire_read ParseRequest MaxReplyLen StageRequest [] r"

definition ReadMethodSelection :: "stream \<Rightarrow> (method_code \<times> error option \<times> stream) outcome" where
  "ReadMethodSelection r = wire_read ParseMethodSelection 2 StageMethodSelection [] r"

definition ReadUserPassStatus :: "stream \<Rightarrow> (byte \<times> error option \<times> stream) outcome" where
  "ReadUserPassStatus r = wire_read ParseUserPassStatus 2 StageUserPassStatus [] r"

definition ReadReply :: "stream \<Rightarrow> command \<Rightarrow> ((reply \<times> addr) \<times> error option \<times> stream) outcome" where
  "ReadReply r cmd = wire_read (\<lambda>b. ParseReply b cmd) MaxReplyLen StageReply [] r"

definition ReadRequest4 ::
  "stream \<Rightarrow> ((command \<times> addr \<times> bytes) \<times> error option \<times> stream) outcome" where
  "ReadRequest4 r = wire_read ParseRequest4 maxRequest4Len StageRequest4 [] r"

definition ReadReply4 :: "stream \<Rightarrow> ((reply \<times> addr) \<times> error option \<times> stream) outcome" where
  "ReadReply4 r = wire_read ParseReply4 reply4Len StageReply4 [] r"

section \<open>What the loop returns\<close>

text \<open>The error of a stream that stops inside a message.\<close>

definition truncatedBy :: "string \<Rightarrow> error \<Rightarrow> error" where
  "truncatedBy stage e =
     (if IsS e IoEOF \<or> IsS e ErrUnexpectedEOF
      then EProtocol stage [] 0 [] (Some (ESent ErrUnexpectedEOF)) else e)"

context bounded_parse
begin

text \<open>A whole message: its value, and the stream is left right after it.\<close>

lemma wire_read_ok:
  assumes "parse (b @ stream_bytes s) = (v, n, None)" and "length b \<le> n"
  shows "\<exists>s'. wire_read parse maxlen stage b s = Ret (v, None, s') \<and>
    b @ stream_bytes s = take n (b @ stream_bytes s) @ stream_bytes s' \<and>
    stream_end s' = stream_end s"
  using assms
proof (induction "maxlen - length b" arbitrary: b s rule: less_induct)
  case less
  obtain w m r where p: "parse b = (w, m, r)" by (cases "parse b")
  show ?case
  proof (cases r)
    case None
    then have "w = v \<and> m = n" using ok_unique [OF p [unfolded None] less.prems(1)] by simp
    moreover from this have "length b = n" using ok_len p None less.prems(2) by fastforce
    ultimately show ?thesis using p None by (auto simp: wire_read.simps [of parse])
  next
    case (Some e)
    have i: "is_incomplete e"
      using err_final [OF p [unfolded Some], of "stream_bytes s"] less.prems(1) by auto
    have m: "length b < m" "m \<le> n" "m \<le> maxlen"
      using inc_len [OF p [unfolded Some] i] inc_bound [OF p [unfolded Some] i less.prems(1)]
        inc_max [OF p [unfolded Some] i] by auto
    have n: "n \<le> length (b @ stream_bytes s)" using ok_len [OF less.prems(1)] by simp
    then have "m - length b \<le> length (stream_bytes s)" using m by simp
    then obtain s' where s': "ReadFull (m - length b) s = (take (m - length b) (stream_bytes s), None, s')"
      "stream_bytes s' = drop (m - length b) (stream_bytes s)" "stream_end s' = stream_end s"
      using ReadFull_ok [of "m - length b" s] by blast
    define b' where "b' = b @ take (m - length b) (stream_bytes s)"
    have eq: "b' @ stream_bytes s' = b @ stream_bytes s" using s' by (simp add: b'_def)
    have "length b' = m" using m n by (simp add: b'_def)
    then have "\<exists>s''. wire_read parse maxlen stage b' s' = Ret (v, None, s'') \<and>
        b' @ stream_bytes s' = take n (b' @ stream_bytes s') @ stream_bytes s'' \<and>
        stream_end s'' = stream_end s'"
      using less.hyps [of b' s'] m less.prems eq by simp
    then show ?thesis
      using p Some i m s' eq by (simp add: wire_read.simps [of parse maxlen stage b s] b'_def)
  qed
qed

text \<open>A final error of the parser is the result, and so is a stream that stops too early.\<close>

lemma wire_read_err:
  assumes "parse (b @ stream_bytes s) = (v, n, Some e)"
  shows "\<exists>w s'. wire_read parse maxlen stage b s =
      Ret (w, Some (if is_incomplete e then truncatedBy stage (stream_end s) else e), s')"
  using assms
proof (induction "maxlen - length b" arbitrary: b s rule: less_induct)
  case less
  obtain w m r where p: "parse b = (w, m, r)" by (cases "parse b")
  show ?case
  proof (cases r)
    case None
    then show ?thesis using ok_append [of b w m "stream_bytes s"] p less.prems by simp
  next
    case (Some e')
    note p = p [unfolded Some]
    show ?thesis
    proof (cases "is_incomplete e'")
      case False
      then have "e' = e" using err_final [OF p, of "stream_bytes s"] less.prems by auto
      then show ?thesis using p False by (simp add: wire_read.simps [of parse])
    next
      case i: True
      have m: "length b < m" "m \<le> maxlen" using inc_len [OF p i] inc_max [OF p i] by auto
      show ?thesis
      proof (cases "m - length b \<le> length (stream_bytes s)")
        case True
        then obtain s' where s': "ReadFull (m - length b) s = (take (m - length b) (stream_bytes s), None, s')"
          "stream_bytes s' = drop (m - length b) (stream_bytes s)" "stream_end s' = stream_end s"
          using ReadFull_ok [OF True] by auto
        define b' where "b' = b @ take (m - length b) (stream_bytes s)"
        have eq: "b' @ stream_bytes s' = b @ stream_bytes s" using s' by (simp add: b'_def)
        have "length b' = m" using m True by (simp add: b'_def)
        then have "\<exists>w s''. wire_read parse maxlen stage b' s' =
            Ret (w, Some (if is_incomplete e then truncatedBy stage (stream_end s') else e), s'')"
          using less.hyps [of b' s'] m less.prems eq by simp
        then show ?thesis
          using p i m s' by (auto simp add: wire_read.simps [of parse maxlen stage b s] b'_def)
      next
        case False
        then show ?thesis
          using p i m less.prems
          by (auto simp: wire_read.simps [of parse maxlen stage b s] ReadFull_short readFailure_def
              truncatedBy_def)
      qed
    qed
  qed
qed

end

section \<open>Every Read function\<close>

text \<open>The contract of a \<open>Read*\<close>: on every stream it does what one parse of all the stream's bytes
  says, and on success what is left on the stream is exactly what follows the message.\<close>

definition reads_as ::
  "(bytes \<Rightarrow> 'a \<times> nat \<times> error option) \<Rightarrow> string
   \<Rightarrow> (stream \<Rightarrow> ('a \<times> error option \<times> stream) outcome) \<Rightarrow> bool" where
  "reads_as parse stage run =
     (\<forall>s. case parse (stream_bytes s) of
        (v, n, None) \<Rightarrow>
          (\<exists>s'. run s = Ret (v, None, s') \<and> stream_bytes s' = drop n (stream_bytes s)
             \<and> stream_end s' = stream_end s)
      | (v, n, Some e) \<Rightarrow>
          (\<exists>w s'. run s =
             Ret (w, Some (if is_incomplete e then truncatedBy stage (stream_end s) else e), s')))"

context bounded_parse
begin

lemma reads_as_wire_read: "reads_as parse stage (wire_read parse maxlen stage [])"
proof -
  have ok: "\<exists>s'. wire_read parse maxlen stage [] s = Ret (v, None, s') \<and>
      stream_bytes s' = drop n (stream_bytes s) \<and> stream_end s' = stream_end s"
    if p: "parse (stream_bytes s) = (v, n, None)" for s v n
  proof -
    obtain s' where s': "wire_read parse maxlen stage [] s = Ret (v, None, s')"
        "stream_bytes s = take n (stream_bytes s) @ stream_bytes s'" "stream_end s' = stream_end s"
      using wire_read_ok [of "[]" s v n stage, simplified append_Nil list.size, OF p le0] by blast
    have "take n (stream_bytes s) @ stream_bytes s' = take n (stream_bytes s) @ drop n (stream_bytes s)"
      unfolding append_take_drop_id by (rule s'(2) [symmetric])
    then have "stream_bytes s' = drop n (stream_bytes s)" by (simp only: same_append_eq)
    then show ?thesis using s' by blast
  qed
  have err: "\<exists>w s'. wire_read parse maxlen stage [] s =
      Ret (w, Some (if is_incomplete e then truncatedBy stage (stream_end s) else e), s')"
    if "parse (stream_bytes s) = (v, n, Some e)" for s v n e
    using wire_read_err [of "[]" s v n e stage] that by simp
  show ?thesis
    unfolding reads_as_def by (auto split: prod.splits option.splits dest: ok err)
qed

end

end
