(* ===== verification/ServerConn.thy ===== *)
theory ServerConn
  imports TargetFilter WireRead
begin

text \<open>
  The read and write engine of \<open>server/conn.go\<close>: the pooled buffers, \<open>flush\<close>, \<open>fill\<close>, \<open>next\<close> and
  \<open>clearLastMsg\<close>. The record \<open>conn\<close> is \<open>serverConn\<close> with its buffers and the network connection:
  what the client will still send (a stream), what the next writes will return, and the calls
  made on the connection so far.

  The loops are \<open>partial_function\<close>s: \<open>None\<close> is a loop that never ends, and the totality lemmas show
  that it does not happen within the sizes the server uses. The main lemma says that \<open>next\<close> returns
  what one parse of all the undelivered bytes returns, however they arrive, takes exactly the
  message, and writes what is queued before it waits for more.
\<close>

section \<open>The connection\<close>

definition inSize :: nat where "inSize = 2048"
definition maxAuthMsg :: nat where "maxAuthMsg = 1024"
definition outSize :: nat where "outSize = 2 + maxAuthMsg + MaxReplyLen"
definition lingerMaxBytes :: nat where "lingerMaxBytes = 65536"

text \<open>The calls on the \<open>net.Conn\<close>. A deadline call sets (\<open>True\<close>) or clears the deadline.\<close>

datatype deadline_kind = DlBoth | DlRead | DlWrite

datatype netop =
    NRead nat
  | NWrite bytes "error option"
  | NDeadline deadline_kind bool
  | NCloseWrite
  | NClose

text \<open>The hooks of \<open>ServerTrace\<close>, as they are called.\<close>

datatype tevent =
    TGotGreeting "method_code list"
  | TAuthDone method_code identity "error option"
  | TGotRequest
  | TReplied reply addr "error option"
  | TDone bool "error option"

text \<open>
  \<open>inBuf\<close> is \<open>bufp.in\<close>, \<open>hasBuf\<close> says that \<open>bufp\<close> is not nil. \<open>writes\<close> holds the results of the writes to
  come (none left: they succeed). \<open>closeWrite\<close> is \<open>None\<close> if the conn has no \<open>CloseWrite\<close> method, else
  what it returns.
\<close>

record conn =
  hasBuf :: bool
  inBuf :: bytes
  inUsed :: nat
  outUsed :: nat
  rpos :: nat
  wpos :: nat
  readErr :: "error option"
  out :: bytes
  writeErr :: "error option"
  outStage :: string
  authenticating :: bool
  lastMsg :: "nat \<times> nat"
  linger :: bool
  exposed :: bool
  replied :: bool
  listening :: bool
  doneC :: bool
  req :: request
  rd :: stream
  writes :: "error option list"
  closeWrite :: "error option option"
  net :: "netop list"
  trace :: "tevent list"

section \<open>Buffers\<close>

text \<open>\<open>putBuffers\<close>: what is left in the arrays a buffer goes back to the pool with.\<close>

definition put_in :: "conn \<Rightarrow> bytes" where
  "put_in c = replicate (inUsed c) 0 @ drop (inUsed c) (inBuf c)"

definition zeroIn :: bytes where "zeroIn = replicate inSize 0"

text \<open>\<open>(*buffers).read\<close>: one \<open>Read\<close> of the conn into \<open>in[off:]\<close>.\<close>

definition buffers_read :: "nat \<Rightarrow> conn \<Rightarrow> conn \<times> nat \<times> error option" where
  "buffers_read off c =
     (case stream_read (inSize - off) (rd c) of
        (b, e, s) \<Rightarrow>
          (c\<lparr>inBuf := overwrite off b (inBuf c), rd := s,
             inUsed := min (max (inUsed c) (off + length b)) inSize,
             net := net c @ [NRead (length b)]\<rparr>,
           length b, e))"

definition wrote :: "bytes \<Rightarrow> conn \<Rightarrow> conn" where
  "wrote b c = c\<lparr>outUsed := max (outUsed c) (min (length b) outSize)\<rparr>"

text \<open>One \<open>Write\<close> of the conn.\<close>

definition net_write :: "bytes \<Rightarrow> conn \<Rightarrow> conn \<times> error option" where
  "net_write b c =
     (let e = (case writes c of [] \<Rightarrow> None | x # _ \<Rightarrow> x) in
      (c\<lparr>writes := tl (writes c), net := net c @ [NWrite b e]\<rparr>, e))"

section \<open>The engine\<close>

definition queue :: "bytes \<Rightarrow> string \<Rightarrow> conn \<Rightarrow> conn" where
  "queue b stage c = (wrote b c)\<lparr>out := b, outStage := stage\<rparr>"

definition flush :: "conn \<Rightarrow> conn \<times> error option" where
  "flush c =
     (if writeErr c \<noteq> None \<or> out c = [] then (c, writeErr c)
      else case net_write (out c) c of
        (c', e) \<Rightarrow> (c'\<lparr>writeErr := e, out := []\<rparr>, e))"

text \<open>The bytes in \<open>in[r:w]\<close>.\<close>

definition pending :: "conn \<Rightarrow> bytes" where
  "pending c = slice (rpos c) (wpos c) (inBuf c)"

definition compact :: "nat \<Rightarrow> conn \<Rightarrow> conn" where
  "compact need c =
     (if rpos c + need > inSize
      then c\<lparr>inBuf := overwrite 0 (pending c) (inBuf c), wpos := wpos c - rpos c, rpos := 0\<rparr>
      else c)"

definition fill_read :: "conn \<Rightarrow> conn" where
  "fill_read c =
     (case buffers_read (wpos c) c of
        (c', n, e) \<Rightarrow> c'\<lparr>wpos := wpos c + n, readErr := e\<rparr>)"

partial_function (option) fill :: "nat \<Rightarrow> conn \<Rightarrow> (conn \<times> error option) option" where
  "fill need c =
     (if need \<le> wpos c - rpos c then Some (c, None)
      else if readErr c \<noteq> None then Some (c, readErr c)
      else case flush c of
        (c1, Some e) \<Rightarrow> Some (c1, Some e)
      | (c1, None) \<Rightarrow> fill need (fill_read (compact need c1)))"

definition protoErr :: "string \<Rightarrow> sentinel \<Rightarrow> error" where
  "protoErr stage s = EProtocol stage [] 0 [] (Some (ESent s))"

partial_function (option) next_msg ::
  "string \<Rightarrow> nat \<Rightarrow> (bytes \<Rightarrow> 'v \<times> int \<times> error option) \<Rightarrow> conn
   \<Rightarrow> (conn \<times> (error + 'v \<times> bytes)) option" where
  "next_msg stage limit parse c =
     (let b = pending c in
      case parse b of
        (v, n, None) \<Rightarrow>
          if n < 0 \<or> n > int (length b) then Some (c, Inl (protoErr stage errContract))
          else Some (c\<lparr>rpos := rpos c + nat n\<rparr>, Inr (v, take (nat n) b))
      | (v, n, Some e) \<Rightarrow>
          if \<not> is_incomplete e then Some (c, Inl e)
          else
            let need = max n (int (length b) + 1) in
            if need > int limit then Some (c, Inl (protoErr stage errTooLong))
            else Option.bind (fill (nat need) c)
              (\<lambda>(c1, e1).
                 case e1 of
                   Some err \<Rightarrow>
                     if wpos c1 - rpos c1 = length b then Some (c1, Inl (Truncated stage err))
                     else next_msg stage limit parse c1
                 | None \<Rightarrow> next_msg stage limit parse c1))"

definition clearLastMsg :: "conn \<Rightarrow> conn" where
  "clearLastMsg c =
     (let (i, j) = lastMsg c;
          c1 = (if hasBuf c \<and> j > i then c\<lparr>inBuf := overwrite i (replicate (j - i) 0) (inBuf c)\<rparr> else c)
      in c1\<lparr>lastMsg := (0, 0)\<rparr>)"

section \<open>The invariant\<close>

text \<open>The window is inside the buffer, everything above the high-water mark is zero, the read error
  is the one the stream stopped with, and the bounds of the last message lie before the window.\<close>

definition conn_inv :: "conn \<Rightarrow> bool" where
  "conn_inv c =
     (length (inBuf c) = inSize \<and> rpos c \<le> wpos c \<and> wpos c \<le> inUsed c \<and> inUsed c \<le> inSize
      \<and> set (drop (inUsed c) (inBuf c)) \<subseteq> {0}
      \<and> (\<forall>e. readErr c = Some e \<longrightarrow> rd c = Stop [] e)
      \<and> fst (lastMsg c) \<le> snd (lastMsg c) \<and> snd (lastMsg c) \<le> rpos c)"

definition undelivered :: "conn \<Rightarrow> bytes" where
  "undelivered c = pending c @ stream_bytes (rd c)"

text \<open>No write fails from here on.\<close>

definition writable :: "conn \<Rightarrow> bool" where
  "writable c = (writeErr c = None \<and> set (writes c) \<subseteq> {None})"

lemma conn_invD:
  assumes "conn_inv c"
  shows "length (inBuf c) = 2048" "rpos c \<le> wpos c" "wpos c \<le> inUsed c" "inUsed c \<le> 2048"
    "set (drop (inUsed c) (inBuf c)) \<subseteq> {0}" "fst (lastMsg c) \<le> snd (lastMsg c)"
    "snd (lastMsg c) \<le> rpos c" "readErr c = Some e \<Longrightarrow> rd c = Stop [] e"
  using assms unfolding conn_inv_def inSize_def by blast+

lemma conn_invI:
  assumes "length (inBuf c) = 2048" "rpos c \<le> wpos c" "wpos c \<le> inUsed c" "inUsed c \<le> 2048"
    "set (drop (inUsed c) (inBuf c)) \<subseteq> {0}" "fst (lastMsg c) \<le> snd (lastMsg c)"
    "snd (lastMsg c) \<le> rpos c" "\<And>e. readErr c = Some e \<Longrightarrow> rd c = Stop [] e"
  shows "conn_inv c"
  using assms unfolding conn_inv_def inSize_def by blast

lemma length_pending: "conn_inv c \<Longrightarrow> length (pending c) = wpos c - rpos c"
  using conn_invD [of c] by (simp add: pending_def)

text \<open>A change that keeps the window, the buffer and the stream keeps the invariant.\<close>

definition same_input :: "conn \<Rightarrow> conn \<Rightarrow> bool" where
  "same_input c d =
     (inBuf d = inBuf c \<and> inUsed d = inUsed c \<and> rpos d = rpos c \<and> wpos d = wpos c
      \<and> readErr d = readErr c \<and> rd d = rd c \<and> lastMsg d = lastMsg c)"

lemma same_input_inv: "same_input c d \<Longrightarrow> conn_inv c \<Longrightarrow> conn_inv d"
  unfolding same_input_def conn_inv_def by simp

lemma same_input_bytes:
  "same_input c d \<Longrightarrow> pending d = pending c \<and> undelivered d = undelivered c"
  by (simp add: same_input_def pending_def undelivered_def)

lemma flush_same_input: "same_input c (fst (flush c))"
  by (simp add: flush_def net_write_def same_input_def Let_def)

section \<open>Reading into the buffer\<close>

text \<open>How much the stream can still give: decreases with every read that has room.\<close>

fun weight :: "stream \<Rightarrow> nat" where
  "weight (Chunk c s) = Suc (length c + weight s)"
| "weight (Stop c e) = length c"

lemma stream_read_weight:
  assumes "0 < k" and "stream_read k s = (b, e, s')"
  shows "weight s' + (if e = None then 1 else 0) \<le> weight s"
  using assms by (cases s) (auto split: if_splits)

lemma overwrite_zero_above:
  assumes "set (drop u xs) \<subseteq> {0}" and "i + length ys \<le> length xs" and "u \<le> length xs"
  shows "set (drop (max u (i + length ys)) (overwrite i ys xs)) \<subseteq> {0}"
proof -
  have "drop (max u (i + length ys)) (overwrite i ys xs) = drop (max u (i + length ys)) xs"
    using assms by (intro drop_overwrite) auto
  moreover have "set (drop (max u (i + length ys)) xs) \<subseteq> set (drop u xs)"
    by (intro set_drop_subset_set_drop) simp
  ultimately show ?thesis using assms(1) by simp
qed

lemma fill_read_facts:
  assumes inv: "conn_inv c" and e: "readErr c = None"
  shows "conn_inv (fill_read c) \<and> undelivered (fill_read c) = undelivered c \<and>
    rpos (fill_read c) = rpos c \<and> wpos c \<le> wpos (fill_read c) \<and>
    stream_end (rd (fill_read c)) = stream_end (rd c)"
proof -
  obtain b e' s where r: "stream_read (inSize - wpos c) (rd c) = (b, e', s)"
    by (cases "stream_read (inSize - wpos c) (rd c)")
  note d = conn_invD [OF inv]
  note rb = stream_read_bytes [OF r]
  have "length b \<le> 2048 - wpos c" using rb by (simp add: inSize_def)
  then have len: "wpos c + length b \<le> 2048" using d(3,4) by arith
  define c' where "c' = fill_read c"
  have f: "inBuf c' = overwrite (wpos c) b (inBuf c)" "rd c' = s" "inUsed c' = max (inUsed c) (wpos c + length b)"
    "rpos c' = rpos c" "wpos c' = wpos c + length b" "readErr c' = e'" "lastMsg c' = lastMsg c"
    using r len d by (simp_all add: c'_def fill_read_def buffers_read_def inSize_def)
  have "conn_inv c'"
  proof (rule conn_invI)
    show "set (drop (inUsed c') (inBuf c')) \<subseteq> {0}"
      unfolding f using overwrite_zero_above [of "inUsed c" "inBuf c" "wpos c" b] d len by simp
    show "rd c' = Stop [] x" if "readErr c' = Some x" for x
      using stream_read_Some [of "inSize - wpos c" "rd c" b x s] r that f by simp
  qed (use f d len in auto)
  moreover have "undelivered c' = undelivered c"
    using slice_overwrite_grow [of "rpos c" "wpos c" b "inBuf c"] d len rb
    by (simp add: undelivered_def pending_def f)
  ultimately show ?thesis using f rb by (simp add: c'_def)
qed

lemma compact_facts:
  assumes inv: "conn_inv c" and lm: "lastMsg c = (0, 0)"
  shows "conn_inv (compact need c) \<and> pending (compact need c) = pending c \<and> rd (compact need c) = rd c"
proof (cases "rpos c + need > inSize")
  case True
  note d = conn_invD [OF inv]
  have lp: "length (pending c) = wpos c - rpos c" using length_pending [OF inv] .
  have "set (drop (max (inUsed c) (0 + length (pending c))) (overwrite 0 (pending c) (inBuf c))) \<subseteq> {0}"
    using d lp by (intro overwrite_zero_above) auto
  moreover have "max (inUsed c) (0 + length (pending c)) = inUsed c" using d lp by simp
  ultimately have "conn_inv (compact need c)"
    using True d lm lp by (intro conn_invI) (simp_all add: compact_def)
  moreover have "pending (compact need c) = pending c"
    using True d lp slice_overwrite_grow [of 0 0 "pending c" "inBuf c"]
    by (simp add: compact_def pending_def [of "_ \<lparr>rpos := _\<rparr>"])
  ultimately show ?thesis using True by (simp add: compact_def)
qed (use inv in \<open>simp add: compact_def\<close>)

section \<open>What fill does\<close>

text \<open>The fields \<open>fill\<close> and \<open>next\<close> never touch.\<close>

definition engine_frame :: "conn \<Rightarrow> conn \<Rightarrow> bool" where
  "engine_frame c d =
     (hasBuf d = hasBuf c \<and> outUsed d = outUsed c \<and> outStage d = outStage c
      \<and> authenticating d = authenticating c \<and> lastMsg d = lastMsg c \<and> linger d = linger c
      \<and> exposed d = exposed c \<and> replied d = replied c \<and> listening d = listening c
      \<and> doneC d = doneC c \<and> req d = req c \<and> closeWrite d = closeWrite c \<and> trace d = trace c)"

lemma engine_frame_refl [simp]: "engine_frame c c"
  by (simp add: engine_frame_def)

lemma engine_frame_trans: "engine_frame c d \<Longrightarrow> engine_frame d e \<Longrightarrow> engine_frame c e"
  by (simp add: engine_frame_def)

lemma engine_frame_steps:
  "engine_frame c (fst (flush c))" "engine_frame c (compact need c)" "engine_frame c (fill_read c)"
  by (simp_all add: engine_frame_def flush_def net_write_def compact_def fill_read_def
      buffers_read_def Let_def split: prod.splits)

text \<open>The bytes written so far, in order.\<close>

definition written :: "netop list \<Rightarrow> bytes" where
  "written ops = concat (map (\<lambda>x. case x of NWrite b e \<Rightarrow> b | _ \<Rightarrow> []) ops)"

lemma written_simps [simp]:
  "written [] = []" "written (xs @ ys) = written xs @ written ys"
  "written (NRead n # xs) = written xs" "written (NWrite b e # xs) = b @ written xs"
  "written (NDeadline k v # xs) = written xs" "written (map NRead ns) = []"
  "written (NCloseWrite # xs) = written xs" "written (NClose # xs) = written xs"
  by (simp_all add: written_def comp_def)

lemma writable_net_write:
  "writable c \<Longrightarrow> net_write b c = (c', e) \<Longrightarrow>
   e = None \<and> c' = c\<lparr>writes := tl (writes c), net := net c @ [NWrite b None]\<rparr> \<and> writable c'"
  by (cases "writes c") (auto simp: net_write_def writable_def)

lemma flush_writable:
  "writable c \<Longrightarrow> \<exists>c'. flush c = (c', None) \<and> writable c' \<and> out c' = [] \<and>
     net c' = net c @ (if out c = [] then [] else [NWrite (out c) None])"
  by (cases "writes c") (auto simp: flush_def writable_def net_write_def)

lemma flush_result:
  "flush c = (c', e) \<Longrightarrow> e = writeErr c' \<and> (e = None \<longrightarrow> out c' = [])"
  by (auto simp: flush_def net_write_def Let_def split: if_splits)

lemma fill_read_out: "out (fill_read c) = out c \<and> writeErr (fill_read c) = writeErr c \<and>
    writes (fill_read c) = writes c \<and> (\<exists>n. net (fill_read c) = net c @ [NRead n])"
  by (auto simp: fill_read_def buffers_read_def split: prod.splits)

lemma compact_out: "out (compact k c) = out c \<and> writeErr (compact k c) = writeErr c \<and>
    writes (compact k c) = writes c \<and> net (compact k c) = net c \<and> readErr (compact k c) = readErr c \<and>
    wpos (compact k c) - rpos (compact k c) = wpos c - rpos c \<and> (k \<le> inSize \<longrightarrow> rpos (compact k c) + k \<le> inSize)"
  by (simp add: compact_def)

definition fill_measure :: "conn \<Rightarrow> nat" where
  "fill_measure c = weight (rd c) + (if readErr c = None then 1 else 0)"

lemma fill_read_measure:
  assumes "readErr c = None" and "wpos c < inSize"
  shows "fill_measure (fill_read c) < fill_measure c"
proof -
  obtain b e s where r: "stream_read (inSize - wpos c) (rd c) = (b, e, s)"
    by (cases "stream_read (inSize - wpos c) (rd c)")
  then show ?thesis
    using stream_read_weight [OF _ r] assms
    by (auto simp: fill_measure_def fill_read_def buffers_read_def split: if_splits)
qed

text \<open>What a run of \<open>fill\<close> from \<open>c\<close> ends with.\<close>

definition fill_post :: "nat \<Rightarrow> conn \<Rightarrow> conn \<Rightarrow> error option \<Rightarrow> bool" where
  "fill_post need c c' res =
     (conn_inv c' \<and> undelivered c' = undelivered c \<and> stream_end (rd c') = stream_end (rd c)
      \<and> engine_frame c c' \<and> wpos c - rpos c \<le> wpos c' - rpos c' \<and> rpos c' \<le> rpos c
      \<and> (case res of
           None \<Rightarrow> need \<le> wpos c' - rpos c'
         | Some e \<Rightarrow> wpos c' - rpos c' < need \<and> (writeErr c' = Some e \<or> readErr c' = Some e))
      \<and> (writable c \<longrightarrow> writable c' \<and> (\<forall>e. res = Some e \<longrightarrow> readErr c' = Some e)
           \<and> (net c' = net c \<and> out c' = out c
              \<or> out c' = [] \<and> (\<exists>ns. net c' = net c @
                   (if out c = [] then [] else [NWrite (out c) None]) @ map NRead ns))))"

lemma fill_spec:
  assumes "conn_inv c" and "lastMsg c = (0, 0)" and "need \<le> inSize"
  shows "\<exists>c' res. fill need c = Some (c', res) \<and> fill_post need c c' res"
  using assms
proof (induction "fill_measure c" arbitrary: c rule: less_induct)
  case less
  note inv = less.prems(1) and lm = less.prems(2) and need = less.prems(3)
  consider (enough) "need \<le> wpos c - rpos c"
    | (sticky) e where "\<not> need \<le> wpos c - rpos c" "readErr c = Some e"
    | (read) "\<not> need \<le> wpos c - rpos c" "readErr c = None" by (cases "readErr c") auto
  then show ?case
  proof cases
    case enough
    then show ?thesis using inv by (subst fill.simps) (simp add: fill_post_def)
  next
    case (sticky e)
    then show ?thesis using inv by (subst fill.simps) (simp add: fill_post_def)
  next
    case read
    obtain c1 e1 where f: "flush c = (c1, e1)" by (cases "flush c")
    have s1: "same_input c c1" using flush_same_input [of c] f by simp
    have fr1: "engine_frame c c1" using engine_frame_steps(1) [of c] f by simp
    note i1 = same_input_inv [OF s1 inv]
    note b1 = same_input_bytes [OF s1]
    show ?thesis
    proof (cases e1)
      case (Some e)
      have "\<not> writable c" using flush_writable [of c] f Some by auto
      then show ?thesis
        using read f Some i1 b1 fr1 s1 flush_result [OF f]
        by (subst fill.simps) (simp add: fill_post_def same_input_def)
    next
      case None
      let ?c2 = "compact need c1" and ?c3 = "fill_read (compact need c1)"
      have r1: "readErr c1 = None" "lastMsg c1 = (0, 0)" using s1 read lm by (simp_all add: same_input_def)
      note k = compact_facts [OF i1 r1(2), of need] and ko = compact_out [of need c1]
      have r2: "readErr ?c2 = None" using ko r1 by simp
      note g = fill_read_facts [OF k [THEN conjunct1] r2] and go = fill_read_out [of ?c2]
      have fr: "engine_frame c ?c3"
        using fr1 engine_frame_steps(2,3) engine_frame_trans by blast
      have "wpos ?c2 < inSize"
        using read ko need s1 by (simp add: same_input_def) linarith
      then have "fill_measure ?c3 < fill_measure ?c2" using fill_read_measure r2 by blast
      also have "fill_measure ?c2 = fill_measure c"
        using k ko s1 by (simp add: fill_measure_def same_input_def)
      finally have m: "fill_measure ?c3 < fill_measure c" .
      have lm3: "lastMsg ?c3 = (0, 0)" using fr lm by (simp add: engine_frame_def)
      obtain c' res where ih: "fill need ?c3 = Some (c', res)" "fill_post need ?c3 c' res"
        using less.hyps [OF m _ lm3 need] g by blast
      have eq: "fill need c = fill need ?c3"
        using read f None by (subst fill.simps) simp
      have u: "undelivered ?c3 = undelivered c" "stream_end (rd ?c3) = stream_end (rd c)"
        using g k b1 s1 by (simp_all add: undelivered_def same_input_def)
      have w: "wpos c - rpos c \<le> wpos ?c3 - rpos ?c3"
        using g ko s1 by (simp add: same_input_def) linarith
      have wr: "writable ?c3 \<and> out ?c3 = [] \<and>
          (\<exists>n. net ?c3 = net c @ (if out c = [] then [] else [NWrite (out c) None]) @ [NRead n])"
        if "writable c"
        using flush_writable [OF that] f go ko by (auto simp: writable_def)
      have fl: "writable c' \<and> (\<forall>e. res = Some e \<longrightarrow> readErr c' = Some e) \<and> out c' = [] \<and>
          (\<exists>ns. net c' = net c @ (if out c = [] then [] else [NWrite (out c) None]) @ map NRead ns)"
        if wrc: "writable c"
      proof -
        obtain n where n: "net ?c3 = net c @ (if out c = [] then [] else [NWrite (out c) None]) @ [NRead n]"
          and w3: "writable ?c3" "out ?c3 = []" using wr [OF wrc] by blast
        from ih(2) w3 have wc: "writable c'" "\<forall>e. res = Some e \<longrightarrow> readErr c' = Some e"
          and cases: "net c' = net ?c3 \<and> out c' = [] \<or> out c' = [] \<and> (\<exists>ns. net c' = net ?c3 @ map NRead ns)"
          unfolding fill_post_def by auto
        from cases obtain ns where "net c' = net ?c3 @ map NRead ns" "out c' = []"
          by (metis append_Nil2 list.map_disc_iff)
        then have "net c' = net c @ (if out c = [] then [] else [NWrite (out c) None]) @ map NRead (n # ns)"
          using n by simp
        then show ?thesis using wc \<open>out c' = []\<close> by blast
      qed
      have rp: "rpos ?c3 \<le> rpos c"
        using g s1 by (simp add: same_input_def compact_def)
      have "fill_post need c c' res"
        unfolding fill_post_def
        using ih(2) u w rp fl engine_frame_trans [OF fr] unfolding fill_post_def by auto
      then show ?thesis using eq ih(1) by auto
    qed
  qed
qed

end
