(* ===== verification/ServerNext.thy ===== *)
theory ServerNext
  imports ServerConn
begin

text \<open>
  What \<open>next\<close> returns: it always returns within the sizes the server uses, takes exactly the message
  from the client's bytes and nothing else, writes out what is queued before it waits, and, for a
  parser that keeps the Parse contract, gives what one parse of all the client's bytes gives.
\<close>

section \<open>Any parse function\<close>

definition taken :: "error + 'v \<times> bytes \<Rightarrow> bytes" where
  "taken res = (case res of Inr (v, m) \<Rightarrow> m | Inl e \<Rightarrow> [])"

definition next_post :: "conn \<Rightarrow> conn \<Rightarrow> error + 'v \<times> bytes \<Rightarrow> bool" where
  "next_post c c' res =
     (conn_inv c' \<and> engine_frame c c' \<and> stream_end (rd c') = stream_end (rd c)
      \<and> undelivered c = taken res @ undelivered c' \<and> length (taken res) \<le> rpos c'
      \<and> (writable c \<longrightarrow> writable c' \<and> written (net c') @ out c' = written (net c) @ out c))"

lemma fill_post_writes:
  assumes "fill_post need c c' res" and "writable c"
  shows "writable c' \<and> written (net c') @ out c' = written (net c) @ out c"
  using assms unfolding fill_post_def by (auto split: if_splits)

text \<open>One round of \<open>next\<close> that asks for more.\<close>

lemma next_msg_more:
  assumes inv: "conn_inv c" and lm: "lastMsg c = (0, 0)"
    and p: "parse (pending c) = (v, n, Some e)" and i: "is_incomplete e"
    and need: "max n (int (length (pending c)) + 1) \<le> int limit" and limit: "limit \<le> inSize"
  shows "\<exists>c1 r. fill (nat (max n (int (length (pending c)) + 1))) c = Some (c1, r)
    \<and> fill_post (nat (max n (int (length (pending c)) + 1))) c c1 r
    \<and> (if \<exists>err. r = Some err \<and> wpos c1 - rpos c1 = length (pending c)
       then next_msg stage limit parse c = Some (c1, Inl (Truncated stage (the r)))
       else wpos c - rpos c < wpos c1 - rpos c1
         \<and> next_msg stage limit parse c = next_msg stage limit parse c1)"
proof -
  let ?k = "nat (max n (int (length (pending c)) + 1))"
  have k: "?k \<le> inSize" "length (pending c) < ?k" using need limit by linarith+
  obtain c1 r where f: "fill ?k c = Some (c1, r)" "fill_post ?k c c1 r"
    using fill_spec [OF inv lm k(1)] by blast
  have lp: "length (pending c) = wpos c - rpos c" using length_pending [OF inv] .
  have grow: "wpos c - rpos c \<le> wpos c1 - rpos c1" "r = None \<Longrightarrow> ?k \<le> wpos c1 - rpos c1"
    using f(2) unfolding fill_post_def by (auto split: option.splits)
  have n: "\<not> (max n (int (length (pending c)) + 1) > int limit)" using need by linarith
  have eq: "next_msg stage limit parse c =
      (case r of
         Some err \<Rightarrow>
           if wpos c1 - rpos c1 = length (pending c) then Some (c1, Inl (Truncated stage err))
           else next_msg stage limit parse c1
       | None \<Rightarrow> next_msg stage limit parse c1)"
    using p i n f(1) by (subst next_msg.simps) (simp add: Let_def split: option.splits)
  show ?thesis
  proof (intro exI conjI)
    show "if \<exists>err. r = Some err \<and> wpos c1 - rpos c1 = length (pending c)
       then next_msg stage limit parse c = Some (c1, Inl (Truncated stage (the r)))
       else wpos c - rpos c < wpos c1 - rpos c1
         \<and> next_msg stage limit parse c = next_msg stage limit parse c1"
      using eq grow lp k(2) by (cases r) auto
  qed (use f in auto)
qed

lemma next_post_trans:
  assumes "fill_post k c c1 r" and "next_post c1 c' res"
  shows "next_post c c' res"
proof -
  have "writable c \<Longrightarrow> writable c1 \<and> written (net c1) @ out c1 = written (net c) @ out c"
    using fill_post_writes [OF assms(1)] by blast
  then show ?thesis
    using assms engine_frame_trans [of c c1 c'] unfolding next_post_def fill_post_def by auto
qed

lemma window_bound: "conn_inv c \<Longrightarrow> wpos c - rpos c \<le> inSize"
  using conn_invD [of c] by (simp add: inSize_def)

lemma next_total:
  assumes "conn_inv c" and "lastMsg c = (0, 0)" and "limit \<le> inSize"
  shows "\<exists>c' res. next_msg stage limit parse c = Some (c', res) \<and> next_post c c' res"
  using assms
proof (induction "inSize - (wpos c - rpos c)" arbitrary: c rule: less_induct)
  case less
  note inv = less.prems(1) and lm = less.prems(2)
  obtain v n r where p: "parse (pending c) = (v, n, r)" by (cases "parse (pending c)")
  show ?case
  proof (cases r)
    case None
    show ?thesis
    proof (cases "n < 0 \<or> n > int (length (pending c))")
      case True
      then show ?thesis
        using p None inv by (subst next_msg.simps) (simp add: Let_def next_post_def taken_def)
    next
      case False
      let ?c' = "c\<lparr>rpos := rpos c + nat n\<rparr>"
      have n: "nat n \<le> wpos c - rpos c" using False length_pending [OF inv] by linarith
      note d = conn_invD [OF inv]
      have "conn_inv ?c'" using d n by (intro conn_invI) auto
      moreover have "pending c = take (nat n) (pending c) @ pending ?c'"
      proof -
        have "pending ?c' = drop (nat n) (pending c)" by (simp add: pending_def drop_slice)
        then show ?thesis by simp
      qed
      ultimately have "next_post c ?c' (Inr (v, take (nat n) (pending c)))"
        by (simp add: next_post_def taken_def undelivered_def engine_frame_def writable_def)
      then show ?thesis
        using p None False by (subst next_msg.simps) (simp add: Let_def)
    qed
  next
    case (Some e)
    note p = p [unfolded Some]
    consider (final) "\<not> is_incomplete e"
      | (long) "is_incomplete e" "max n (int (length (pending c)) + 1) > int limit"
      | (more) "is_incomplete e" "max n (int (length (pending c)) + 1) \<le> int limit" by linarith
    then show ?thesis
    proof cases
      case final
      then show ?thesis
        using p inv by (subst next_msg.simps) (simp add: Let_def next_post_def taken_def)
    next
      case long
      then show ?thesis
        using p inv by (subst next_msg.simps) (simp add: Let_def next_post_def taken_def)
    next
      case more
      obtain c1 r where f: "fill_post (nat (max n (int (length (pending c)) + 1))) c c1 r"
        and nx: "if \<exists>err. r = Some err \<and> wpos c1 - rpos c1 = length (pending c)
          then next_msg stage limit parse c = Some (c1, Inl (Truncated stage (the r)))
          else wpos c - rpos c < wpos c1 - rpos c1
            \<and> next_msg stage limit parse c = next_msg stage limit parse c1"
        using next_msg_more [where stage = stage and parse = parse, OF inv lm p more less.prems(3)]
        by blast
      have i1: "conn_inv c1" and lm1: "lastMsg c1 = (0, 0)"
        using f lm unfolding fill_post_def engine_frame_def by simp_all
      show ?thesis
      proof (cases "\<exists>err. r = Some err \<and> wpos c1 - rpos c1 = length (pending c)")
        case True
        have "next_post c c1 (Inl (Truncated stage (the r)))"
          using f fill_post_writes [OF f] unfolding next_post_def fill_post_def by (simp add: taken_def)
        then show ?thesis using nx True by auto
      next
        case False
        then have m: "inSize - (wpos c1 - rpos c1) < inSize - (wpos c - rpos c)"
          and eq: "next_msg stage limit parse c = next_msg stage limit parse c1"
          using nx window_bound [OF i1] by (auto split: if_splits)
        then show ?thesis
          using less.hyps [OF m i1 lm1 less.prems(3)] next_post_trans [OF f] by auto
      qed
    qed
  qed
qed

section \<open>A parser that keeps the contract\<close>

definition intp :: "(bytes \<Rightarrow> 'v \<times> nat \<times> error option) \<Rightarrow> bytes \<Rightarrow> 'v \<times> int \<times> error option" where
  "intp p b = (case p b of (v, n, e) \<Rightarrow> (v, int n, e))"

text \<open>What a parse of the whole input says the reader loop must answer.\<close>

definition parsed ::
  "string \<Rightarrow> (bytes \<Rightarrow> 'v \<times> nat \<times> error option) \<Rightarrow> bytes \<Rightarrow> error \<Rightarrow> error + 'v \<times> bytes" where
  "parsed stage p input err =
     (case p input of
        (v, n, None) \<Rightarrow> Inr (v, take n input)
      | (v, n, Some e) \<Rightarrow> Inl (if is_incomplete e then Truncated stage err else e))"

context bounded_parse
begin

lemma next_result:
  assumes "conn_inv c" and "lastMsg c = (0, 0)" and "writable c"
    and "maxlen \<le> limit" and "limit \<le> inSize"
  shows "\<exists>c'. next_msg stage limit (intp parse) c
      = Some (c', parsed stage parse (undelivered c) (stream_end (rd c)))
    \<and> next_post c c' (parsed stage parse (undelivered c) (stream_end (rd c)))"
proof -
  have "\<exists>c' . next_msg stage limit (intp parse) c
      = Some (c', parsed stage parse (undelivered c) (stream_end (rd c)))"
    using assms
  proof (induction "inSize - (wpos c - rpos c)" arbitrary: c rule: less_induct)
    case less
    note inv = less.prems(1) and lm = less.prems(2) and wr = less.prems(3)
    obtain v n r where p: "parse (pending c) = (v, n, r)" by (cases "parse (pending c)")
    then have ip: "intp parse (pending c) = (v, int n, r)" by (simp add: intp_def)
    show ?case
    proof (cases r)
      case None
      note p = p [unfolded None]
      have "parse (undelivered c) = (v, n, None)" using ok_append [OF p] by (simp add: undelivered_def)
      moreover have "n \<le> length (pending c)" using ok_len [OF p] by simp
      ultimately show ?thesis
        using ip None by (subst next_msg.simps) (simp add: Let_def parsed_def undelivered_def)
    next
      case (Some e)
      note p = p [unfolded Some] and ip = ip [unfolded Some]
      show ?thesis
      proof (cases "is_incomplete e")
        case False
        then obtain w where "parse (undelivered c) = (w, 0, Some e)"
          using err_final [OF p False, of "stream_bytes (rd c)"] by (auto simp: undelivered_def)
        then show ?thesis
          using ip False by (subst next_msg.simps) (simp add: Let_def parsed_def)
      next
        case i: True
        have "n \<le> maxlen" "length (pending c) < n" using inc_max [OF p i] inc_len [OF p i] by auto
        then have need: "max (int n) (int (length (pending c)) + 1) \<le> int limit"
          using less.prems(4) by simp
        obtain c1 r1 where f: "fill_post (nat (max (int n) (int (length (pending c)) + 1))) c c1 r1"
          and nx: "if \<exists>err. r1 = Some err \<and> wpos c1 - rpos c1 = length (pending c)
            then next_msg stage limit (intp parse) c = Some (c1, Inl (Truncated stage (the r1)))
            else wpos c - rpos c < wpos c1 - rpos c1
              \<and> next_msg stage limit (intp parse) c = next_msg stage limit (intp parse) c1"
          using next_msg_more [where stage = stage and parse = "intp parse", OF inv lm ip i need less.prems(5)]
          by blast
        have i1: "conn_inv c1" and lm1: "lastMsg c1 = (0, 0)" and w1: "writable c1"
          and u1: "undelivered c1 = undelivered c" and e1: "stream_end (rd c1) = stream_end (rd c)"
          using f lm wr unfolding fill_post_def engine_frame_def by simp_all
        show ?thesis
        proof (cases "\<exists>err. r1 = Some err \<and> wpos c1 - rpos c1 = length (pending c)")
          case True
          then obtain err where err: "r1 = Some err" and same: "wpos c1 - rpos c1 = length (pending c)"
            by blast
          have "readErr c1 = Some err" using f wr err unfolding fill_post_def by simp
          then have stop: "rd c1 = Stop [] err" using conn_invD(8) [OF i1] by simp
          have "length (pending c1) = length (pending c)" using length_pending [OF i1] same by simp
          moreover have "pending c1 = pending c @ stream_bytes (rd c)"
            using u1 stop by (simp add: undelivered_def)
          ultimately have "undelivered c = pending c" by (simp add: undelivered_def)
          then show ?thesis
            using nx True p i err stop e1 by (simp add: parsed_def)
        next
          case False
          then have m: "inSize - (wpos c1 - rpos c1) < inSize - (wpos c - rpos c)"
            and eq: "next_msg stage limit (intp parse) c = next_msg stage limit (intp parse) c1"
            using nx window_bound [OF i1] by (auto split: if_splits)
          then show ?thesis
            using less.hyps [OF m i1 lm1 w1 less.prems(4,5)] u1 e1 by simp
        qed
      qed
    qed
  qed
  then show ?thesis
    using next_total [OF assms(1,2,5), of stage "intp parse"] by auto
qed

end

end
