(* ===== verification/ClientErrors.thy ===== *)
theory ClientErrors
  imports ServerErrors
begin

text \<open>
  The client's \<open>errors.go\<close> and \<open>errors_errno.go\<close>: classification of errors (\<open>KindOf\<close>, \<open>IsProxyError\<close>,
  \<open>serverMsg\<close>) and the messages of the packages' own error types. The text of an error that is
  not the program's own (\<open>net\<close>, \<open>os\<close>, a caller's) is the parameter \<open>other\<close>.
\<close>

section \<open>Stages\<close>

definition StageConfig :: string where "StageConfig = ''config''"
definition StageResolve :: string where "StageResolve = ''resolve''"
definition StageProxyDial :: string where "StageProxyDial = ''proxy dial''"
definition StageAuth :: string where "StageAuth = ''auth''"
definition StageRelayDial :: string where "StageRelayDial = ''relay dial''"
definition StageAccept :: string where "StageAccept = ''accept''"

lemmas client_stage_defs = StageConfig_def StageResolve_def StageProxyDial_def StageAuth_def
  StageRelayDial_def StageAccept_def

section \<open>Server message errors\<close>

fun is_EMethod :: "error \<Rightarrow> bool" where
  "is_EMethod (EMethod a b c) = True"
| "is_EMethod _ = False"

fun is_EAuth :: "error \<Rightarrow> bool" where
  "is_EAuth (EAuth m s) = True"
| "is_EAuth _ = False"

fun is_EProtocol :: "error \<Rightarrow> bool" where
  "is_EProtocol (EProtocol a b c d f) = True"
| "is_EProtocol _ = False"

fun is_EHandshake :: "error \<Rightarrow> bool" where
  "is_EHandshake (EHandshake a b) = True"
| "is_EHandshake _ = False"

definition isErrType :: "(error \<Rightarrow> bool) \<Rightarrow> error \<Rightarrow> bool \<Rightarrow> bool" where
  "isErrType p e deep = (if deep then hasErrType p e else p e)"

definition serverMsg :: "error \<Rightarrow> bool \<Rightarrow> bool" where
  "serverMsg e deep =
     (isErrType is_EReply e deep \<or> isErrType is_EMethod e deep \<or> isErrType is_EAuth e deep
      \<or> isErrType is_EProtocol e deep)"

definition isServerMsgErr :: "error \<Rightarrow> bool" where
  "isServerMsgErr e = (serverMsg e False \<or> IsS e ErrAuthFailed)"

definition IsProxyError :: "error option \<Rightarrow> bool" where
  "IsProxyError err =
     (case err of
        None \<Rightarrow> False
      | Some e \<Rightarrow>
          if hasErrType is_EHandshake e \<or> IsS e ErrAssociationClosed then True else serverMsg e True)"

section \<open>Messages\<close>

definition ProtocolError_parts ::
  "string \<Rightarrow> string \<Rightarrow> byte \<Rightarrow> string \<Rightarrow> string option \<Rightarrow> string list" where
  "ProtocolError_parts stage field got hint err =
     (let p0 = [if has_prefix stage ''socks4 '' then stage else ''socks '' @ stage];
          p1 = (if field \<noteq> [] then p0 @ [''invalid '' @ field @ '' '' @ hexCode got] else p0);
          p2 = (if hint \<noteq> [] then butlast p1 @ [last p1 @ '' ('' @ hint @ '')''] else p1);
          p3 = (case err of Some m \<Rightarrow> p2 @ [m] | None \<Rightarrow> p2)
      in if length p3 = 1 then p3 @ [''malformed''] else p3)"

definition ReplyError_Error :: "reply \<Rightarrow> nat \<Rightarrow> string" where
  "ReplyError_Error rep version =
     (if version = 4 then ''socks4 reply: '' @ Reply4String rep else ''socks reply: '' @ Reply_String rep)"

definition MethodError_Error :: "method_code \<Rightarrow> method_code \<Rightarrow> bool \<Rightarrow> string" where
  "MethodError_Error off sel noAuth =
     (let offered = (if noAuth then Method_String off @ '', '' @ Method_String MethodNoAuth
                     else Method_String off)
      in if sel = MethodNoAcceptable
         then ''socks method selection: no acceptable methods (offered '' @ offered @ '')''
         else ''socks method selection: server selected '' @ Method_String sel @ '', offered '' @ offered)"

definition AuthError_Error :: "method_code \<Rightarrow> byte \<Rightarrow> string" where
  "AuthError_Error m st = ''socks auth: rejected ('' @ Method_String m @ '' status '' @ hexCode st @ '')''"

definition MethodErrorServer_Error :: "method_code list \<Rightarrow> string" where
  "MethodErrorServer_Error offered =
     ''socks greeting: no acceptable methods (offered ''
       @ join_strings '', '' (map Method_String offered) @ '')''"

text \<open>The \<open>Error\<close> methods; \<open>*HandshakeError\<close> adds its stage only where the message lacks it.\<close>

fun err_Error :: "(error \<Rightarrow> string) \<Rightarrow> error \<Rightarrow> string" where
  "err_Error other (EProtocol st f g h u) =
     join_strings '': ''
       (ProtocolError_parts st f g h (case u of None \<Rightarrow> None | Some e \<Rightarrow> Some (err_Error other e)))"
| "err_Error other (EHandshake st u) =
     (let stage = (if has_prefix st ''socks4 '' then st else ''socks '' @ st) in
      case u of
        None \<Rightarrow> stage @ '': handshake failed''
      | Some e \<Rightarrow>
          if serverMsg e False then err_Error other e else stage @ '': '' @ err_Error other e)"
| "err_Error other (EReply rep b v) = ReplyError_Error rep v"
| "err_Error other (EMethod off sel na) = MethodError_Error off sel na"
| "err_Error other (EAuth m st) = AuthError_Error m st"
| "err_Error other (EMethodServer ms) = MethodErrorServer_Error ms"
| "err_Error other (EDenied ap why) = ''socks target denied: '' @ why"
| "err_Error other (EPanic v replied) = ''socks0/server: handler panic: '' @ v"
| "err_Error other e = other e"

section \<open>Kinds\<close>

datatype kind =
    KindNone | KindConfig | KindCanceled | KindTimeout | KindRefused | KindReset | KindEOF
  | KindUnreachable | KindDNS | KindNetwork | KindProtocol | KindMethod | KindAuth | KindReply
  | KindClosed | KindAssociation | KindDenied | KindOther

definition isConfigErr :: "error \<Rightarrow> bool" where
  "isConfigErr e = (IsS e ErrNotPipelinable \<or> IsS e ErrInvalid \<or> IsS e errFastOpen)"

definition errnoKind :: "error \<Rightarrow> kind" where
  "errnoKind e =
     (let is = (\<lambda>ns. list_ex (\<lambda>n. err_Is e (TErrno n)) ns) in
      if is [ECONNREFUSED] then KindRefused
      else if is [ECONNRESET, ECONNABORTED, EPIPE] then KindReset
      else if is [ENETUNREACH, EHOSTUNREACH] then KindUnreachable
      else KindNone)"

text \<open>\<open>he\<close> is the first \<open>*HandshakeError\<close> of the tree.\<close>

definition socksKind :: "error \<Rightarrow> (string \<times> error option) option \<Rightarrow> kind" where
  "socksKind e he =
     (let stage = map_option fst he in
      if IsS e ErrAssociationClosed then KindAssociation
      else if stage = Some StageConfig \<or> isConfigErr e then KindConfig
      else if stage = Some StageResolve
      then (if IsS e CtxCanceled then KindCanceled else KindDNS)
      else if hasErrType is_EReply e then KindReply
      else if hasErrType is_EMethod e \<or> IsS e ErrNoAcceptableMethods then KindMethod
      else if IsS e ErrAuthFailed then KindAuth
      else if hasErrType is_EProtocol e
      then (if IsS e ErrUnexpectedEOF then KindEOF else KindProtocol)
      else if IsS e ErrNotAllowed then KindDenied
      else KindNone)"

text \<open>The types of the standard library that implement \<open>net.Error\<close>.\<close>

fun is_net_Error :: "error \<Rightarrow> bool" where
  "is_net_Error (ESent s) = (s = OsErrDeadlineExceeded \<or> s = CtxDeadlineExceeded \<or> s = NetErrClosed)"
| "is_net_Error (EErrno n) = True"
| "is_net_Error (EOp p n s a e) = True"
| "is_net_Error (EDNS m n u t f) = True"
| "is_net_Error (EAddr m a) = True"
| "is_net_Error (EUnknownNetwork n) = True"
| "is_net_Error _ = False"

definition transportKind :: "error \<Rightarrow> (string \<times> error option) option \<Rightarrow> kind" where
  "transportKind e he =
     (if IsS e CtxCanceled then KindCanceled
      else if IsS e NetErrClosed then KindClosed
      else if hasErrType is_EDNS e then KindDNS
      else if IsTimeout e then KindTimeout
      else if errnoKind e \<noteq> KindNone then errnoKind e
      else if IsS e IoEOF \<or> IsS e ErrUnexpectedEOF then KindEOF
      else
        let inner = (case he of Some (st, u) \<Rightarrow> u | None \<Rightarrow> Some e) in
        case inner of
          Some x \<Rightarrow> if hasErrType is_net_Error x then KindNetwork else KindOther
        | None \<Rightarrow> KindOther)"

definition firstHandshake :: "error \<Rightarrow> (string \<times> error option) option" where
  "firstHandshake e =
     (case err_As is_EHandshake e of Some (EHandshake st u) \<Rightarrow> Some (st, u) | _ \<Rightarrow> None)"

definition KindOf :: "error option \<Rightarrow> kind" where
  "KindOf err =
     (case err of
        None \<Rightarrow> KindNone
      | Some e \<Rightarrow>
          let he = firstHandshake e; k = socksKind e he in
          if k \<noteq> KindNone then k else transportKind e he)"

section \<open>Lemmas\<close>

lemma transportKind_some: "transportKind e he \<noteq> KindNone"
  by (auto simp: transportKind_def errnoKind_def Let_def split: option.splits)

lemma hasErrType_iff: "hasErrType p e \<longleftrightarrow> (\<exists>x \<in> set (err_nodes e). p x)"
  by (auto simp: hasErrType_def err_As_def find_None_iff)

lemma hasErrType_EOp [simp]: "hasErrType p (EOp op n s a e) \<longleftrightarrow> p (EOp op n s a e) \<or> hasErrType p e"
  by (auto simp: hasErrType_iff)

lemma hasErrType_EHandshake [simp]:
  "hasErrType p (EHandshake st (Some e)) \<longleftrightarrow> p (EHandshake st (Some e)) \<or> hasErrType p e"
  by (auto simp: hasErrType_iff)

lemma err_As_EOp [simp]: "\<not> p (EOp op n s a e) \<Longrightarrow> err_As p (EOp op n s a e) = err_As p e"
  by (simp add: err_As_def)

lemma err_As_EHandshake [simp]:
  "\<not> p (EHandshake st (Some e)) \<Longrightarrow> err_As p (EHandshake st (Some e)) = err_As p e"
  by (simp add: err_As_def)

lemma firstHandshake_opErr [simp]:
  "firstHandshake (EOp op n s a (EHandshake st u)) = Some (st, u)"
  by (simp add: firstHandshake_def err_As_def)

text \<open>\<open>KindOf\<close> classifies every error and only the nil error gets the empty kind.\<close>

theorem KindOf_total: "KindOf err = KindNone \<longleftrightarrow> err = None"
  by (cases err) (simp_all add: KindOf_def Let_def transportKind_some)

text \<open>A proxy's refusal is classified by its message and never as the transport failure it
  mirrors: whatever REP a handshake's \<open>*net.OpError\<close> carries, outside the configuration and
  resolve stages, its kind is \<open>reply\<close> (so REP 05, which matches ECONNREFUSED, is not \<open>refused\<close>),
  and it is a proxy error.\<close>

theorem KindOf_reply:
  assumes "st \<noteq> StageConfig" and "st \<noteq> StageResolve"
  shows "KindOf (Some (EOp op n s a (EHandshake st (Some (EReply rep b v))))) = KindReply \<and>
    IsProxyError (Some (EOp op n s a (EHandshake st (Some (EReply rep b v)))))"
proof -
  have "\<not> IsS (EReply rep b v) x"
    if "x \<in> {ErrAssociationClosed, ErrNotPipelinable, ErrInvalid, errFastOpen}" for x
    using that by (auto simp: ReplyError_Is_def errno_mirror_Is_def split: option.splits if_splits)
  then show ?thesis
    using assms
    by (auto simp: KindOf_def socksKind_def isConfigErr_def IsProxyError_def hasErrType_iff Let_def)
qed

lemma KindOf_reply_witness:
  "KindOf (Some (EOp ''dial'' ''tcp'' None None
     (EHandshake StageReply (Some (EReply ReplyConnectionRefused zeroAddr 5))))) = KindReply"
  using KindOf_reply [of StageReply "''dial''" "''tcp''" None None ReplyConnectionRefused zeroAddr 5]
  by (simp add: client_stage_defs stage_defs)

end
