(* ===== verification/ServerAuth.thy ===== *)
theory ServerAuth
  imports ServerNext ClientErrors
begin

text \<open>
  \<open>server/auth.go\<close> and the method choice of \<open>server/server.go\<close>: the authenticators and what they may do
  with the connection. An authenticator's \<open>Authenticate\<close> is a program of the calls it makes on its
  \<open>AuthConn\<close>: \<open>ARead\<close> is \<open>ReadMessage\<close> (or \<open>readMessage\<close>, without exposing the buffer) and goes on
  with the message or the error, \<open>AWrite\<close> is \<open>Write\<close>. The hash of the password comparison is the
  parameter \<open>sha256\<close>.
\<close>

section \<open>Authenticators\<close>

datatype auth_prog =
    ADone "error + identity"
  | ARead bool "bytes \<Rightarrow> int \<times> error option" "error + bytes \<Rightarrow> auth_prog"
  | AWrite bytes auth_prog
  | AExpose auth_prog

record userpass =
  up_Users :: "(string \<times> string) list"
  up_Check :: "(bytes \<Rightarrow> bytes \<Rightarrow> error + identity) option"

datatype authenticator =
    NoAuth
  | UserPass userpass
  | Custom method_code auth_prog

fun auth_Method :: "authenticator \<Rightarrow> method_code" where
  "auth_Method NoAuth = MethodNoAuth"
| "auth_Method (UserPass u) = MethodUserPass"
| "auth_Method (Custom m p) = m"

text \<open>\<open>digest\<close>: a length byte and the password padded to 255 bytes.\<close>

definition padded :: "bytes \<Rightarrow> bytes" where
  "padded p = take 256 (word_of_nat (length p) # p @ replicate 255 0)"

definition verify :: "(bytes \<Rightarrow> bytes) \<Rightarrow> userpass \<Rightarrow> bytes \<Rightarrow> bytes \<Rightarrow> bool" where
  "verify sha256 a user pass =
     (let found = map_of (up_Users a) (string_of user);
          want = (case found of Some s \<Rightarrow> s | None \<Rightarrow> []);
          ok = (found \<noteq> None \<and> length want \<le> 255)
      in sha256 (padded pass) = sha256 (padded (bytes_of want)) \<and> ok)"

definition errRejected :: error where "errRejected = EAuth MethodUserPass 1"
definition statusOK :: bytes where "statusOK = [UserPassVersion, 0]"
definition statusFailed :: bytes where "statusFailed = [UserPassVersion, 1]"

definition parseUserPass :: "bytes \<Rightarrow> int \<times> error option" where
  "parseUserPass b = (case ParseUserPass b of (v, n, e) \<Rightarrow> (int n, e))"

text \<open>\<open>identify\<close>, then the status and the error of \<open>Authenticate\<close>; a \<open>Check\<close> never returns the
  package's own \<open>errRejected\<close> pointer, so its error is always wrapped.\<close>

definition up_finish :: "error + identity \<Rightarrow> auth_prog" where
  "up_finish r =
     (case r of
        Inl e \<Rightarrow> AWrite statusFailed (ADone (Inl e))
      | Inr i \<Rightarrow> AWrite statusOK (ADone (Inr i)))"

definition up_identify :: "(bytes \<Rightarrow> bytes) \<Rightarrow> userpass \<Rightarrow> bytes \<Rightarrow> bytes \<Rightarrow> auth_prog" where
  "up_identify sha256 a user pass =
     (case up_Check a of
        Some check \<Rightarrow>
          AExpose (up_finish (case check user pass of Inl e \<Rightarrow> Inl (ERejected e) | Inr i \<Rightarrow> Inr i))
      | None \<Rightarrow>
          up_finish (if verify sha256 a user pass then Inr (IdString (string_of user))
                     else Inl errRejected))"

definition userpass_prog :: "(bytes \<Rightarrow> bytes) \<Rightarrow> userpass \<Rightarrow> auth_prog" where
  "userpass_prog sha256 a =
     ARead False parseUserPass
       (\<lambda>m. case m of
          Inl e \<Rightarrow> ADone (Inl e)
        | Inr msg \<Rightarrow> (case ParseUserPass msg of ((user, pass), n, e) \<Rightarrow> up_identify sha256 a user pass))"

definition Authenticate :: "(bytes \<Rightarrow> bytes) \<Rightarrow> authenticator \<Rightarrow> auth_prog" where
  "Authenticate sha256 a =
     (case a of
        NoAuth \<Rightarrow> ADone (Inr IdNil)
      | UserPass u \<Rightarrow> userpass_prog sha256 u
      | Custom m p \<Rightarrow> p)"

section \<open>AuthConn\<close>

definition unitp :: "(bytes \<Rightarrow> int \<times> error option) \<Rightarrow> bytes \<Rightarrow> unit \<times> int \<times> error option" where
  "unitp p b = ((), p b)"

definition readMessage ::
  "bool \<Rightarrow> (bytes \<Rightarrow> int \<times> error option) \<Rightarrow> conn \<Rightarrow> (conn \<times> (error + bytes)) option" where
  "readMessage expose parse c =
     (if \<not> authenticating c then Some (c, Inl (ESent NetErrClosed))
      else
        let c0 = (if expose then c\<lparr>exposed := True\<rparr> else c) in
        Option.bind (next_msg StageAuth maxAuthMsg (unitp parse) (clearLastMsg c0))
          (\<lambda>(c1, res).
             case res of
               Inl e \<Rightarrow> Some (c1, Inl e)
             | Inr (v, msg) \<Rightarrow>
                 Some (c1\<lparr>lastMsg := (rpos c1 - length msg, rpos c1)\<rparr>, Inr msg)))"

definition auth_put :: "bytes \<Rightarrow> string \<Rightarrow> conn \<Rightarrow> conn" where
  "auth_put b stage c =
     (if length b > maxAuthMsg then
        (if writeErr c \<noteq> None then c
         else case net_write b (c\<lparr>outStage := stage\<rparr>) of (c1, e) \<Rightarrow> c1\<lparr>writeErr := e\<rparr>)
      else queue (out c @ b) stage c)"

definition auth_Write :: "bytes \<Rightarrow> conn \<Rightarrow> conn" where
  "auth_Write b c =
     (if \<not> authenticating c then c
      else
        auth_put b (if rq_Method (req c) = MethodUserPass then StageUserPassStatus else StageAuth)
          (if length (out c) + length b > 2 + maxAuthMsg then fst (flush c) else c))"

primrec run_auth :: "auth_prog \<Rightarrow> conn \<Rightarrow> (conn \<times> (error + identity)) option" where
  "run_auth (ADone r) = (\<lambda>c. Some (c, r))"
| "run_auth (ARead expose p k) =
     (\<lambda>c. Option.bind (readMessage expose p c) (\<lambda>(c1, m). run_auth (k m) c1))"
| "run_auth (AWrite b a) = (\<lambda>c. run_auth a (auth_Write b c))"
| "run_auth (AExpose a) = (\<lambda>c. run_auth a (c\<lparr>exposed := True\<rparr>))"

text \<open>\<open>(*serverConn).authenticate\<close>.\<close>

definition authenticate ::
  "(bytes \<Rightarrow> bytes) \<Rightarrow> authenticator \<Rightarrow> conn \<Rightarrow> (conn \<times> (error + identity)) option" where
  "authenticate sha256 a c =
     (if a = NoAuth then Some (c, Inr IdNil)
      else
        let mark = length (out c) in
        Option.bind (run_auth (Authenticate sha256 a) (c\<lparr>authenticating := True\<rparr>))
          (\<lambda>(c1, r).
             let c2 = clearLastMsg (c1\<lparr>authenticating := False\<rparr>) in
             case r of
               Inr i \<Rightarrow> Some (c2, Inr i)
             | Inl e \<Rightarrow>
                 if IsS e ErrAuthFailed then Some (c2\<lparr>linger := True\<rparr>, Inl e)
                 else if mark \<le> length (out c2) then Some (c2\<lparr>out := take mark (out c2)\<rparr>, Inl e)
                 else Some (c2, Inl e)))"

definition choose_auth :: "authenticator list \<Rightarrow> method_code list \<Rightarrow> authenticator option" where
  "choose_auth auth offered = find (\<lambda>a. auth_Method a \<in> set offered) auth"

definition authStage :: "method_code \<Rightarrow> string" where
  "authStage m = (if m = MethodUserPass then StageUserPass else StageAuth)"

section \<open>Passwords\<close>

lemma padded_inj:
  assumes "length p \<le> 255" and "length q \<le> 255" and "padded p = padded q"
  shows "p = q"
proof -
  have e: "word_of_nat (length p) # take 255 (p @ replicate 255 0)
      = (word_of_nat (length q) # take 255 (q @ replicate 255 0) :: bytes)"
    using assms(3) by (simp add: padded_def)
  then have "(word_of_nat (length p) :: byte) = word_of_nat (length q)" by simp
  then have "unat (word_of_nat (length p) :: byte) = unat (word_of_nat (length q) :: byte)" by simp
  then have len: "length p = length q" using assms by simp
  have "p @ replicate (255 - length p) 0 = q @ replicate (255 - length q) (0 :: byte)"
    using e assms by (simp add: min_def)
  then show ?thesis using len by simp
qed

text \<open>A password is accepted for a user only if it is the user's, or the hash has a collision: the
  right password always gets in, an unknown user never does, and any other password that is
  accepted gives two different 256-byte strings with the same SHA-256.\<close>

theorem verify_correct:
  assumes "length pass \<le> 255"
  shows "(verify h u user pass \<longrightarrow>
      (\<exists>want. map_of (up_Users u) (string_of user) = Some want \<and>
        (pass = bytes_of want \<or> (\<exists>x y. x \<noteq> y \<and> length x = 256 \<and> length y = 256 \<and> h x = h y)))) \<and>
    (map_of (up_Users u) (string_of user) = Some (string_of pass) \<longrightarrow> verify h u user pass)"
proof -
  have len: "length (padded p) = 256" for p by (simp add: padded_def)
  have "pass = bytes_of want \<or> (\<exists>x y. x \<noteq> y \<and> length x = 256 \<and> length y = 256 \<and> h x = h y)"
    if "h (padded pass) = h (padded (bytes_of want))" and "length want \<le> 255" for want
    using padded_inj [OF assms, of "bytes_of want"] that len by (metis length_bytes_of)
  then show ?thesis
    using assms by (auto simp: verify_def Let_def)
qed

lemma verify_correct_witness:
  "verify id \<lparr>up_Users = [(''bob'', ''pw'')], up_Check = None\<rparr> (bytes_of ''bob'') (bytes_of ''pw'')"
  using verify_correct [of "bytes_of ''pw''" id "\<lparr>up_Users = [(''bob'', ''pw'')], up_Check = None\<rparr>"
      "bytes_of ''bob''"]
  by simp

section \<open>What an authenticator can do to the connection\<close>

lemma clearLastMsg_facts:
  assumes inv: "conn_inv c"
  shows "conn_inv (clearLastMsg c) \<and> lastMsg (clearLastMsg c) = (0, 0) \<and>
    pending (clearLastMsg c) = pending c \<and> rd (clearLastMsg c) = rd c"
proof -
  obtain i j where ij: "lastMsg c = (i, j)" by (cases "lastMsg c")
  note d = conn_invD [OF inv]
  have b: "i \<le> j" "j \<le> rpos c" using d ij by simp_all
  show ?thesis
  proof (cases "hasBuf c \<and> j > i")
    case True
    let ?b = "overwrite i (replicate (j - i) 0) (inBuf c)"
    have "set (drop (max (inUsed c) (i + (j - i))) ?b) \<subseteq> {0}"
      using d b overwrite_zero_above [of "inUsed c" "inBuf c" i "replicate (j - i) 0"] by simp
    moreover have "max (inUsed c) (i + (j - i)) = inUsed c" using d b by simp
    ultimately have "set (drop (inUsed c) ?b) \<subseteq> {0}" by simp
    moreover have "drop (rpos c) ?b = drop (rpos c) (inBuf c)"
      using d b by (intro drop_overwrite) simp_all
    ultimately show ?thesis
      using True d b ij by (auto simp: clearLastMsg_def pending_def slice_def intro!: conn_invI)
  next
    case False
    then show ?thesis
      using d ij by (auto simp: clearLastMsg_def pending_def intro!: conn_invI)
  qed
qed

definition auth_frame :: "conn \<Rightarrow> conn \<Rightarrow> bool" where
  "auth_frame c d =
     (hasBuf d = hasBuf c \<and> linger d = linger c \<and> replied d = replied c \<and> listening d = listening c
      \<and> doneC d = doneC c \<and> req d = req c \<and> closeWrite d = closeWrite c \<and> trace d = trace c
      \<and> authenticating d = authenticating c \<and> stream_end (rd d) = stream_end (rd c))"

lemma auth_frame_trans: "auth_frame c d \<Longrightarrow> auth_frame d e \<Longrightarrow> auth_frame c e"
  by (simp add: auth_frame_def)

lemma auth_frame_refl [simp]: "auth_frame c c"
  by (simp add: auth_frame_def)

lemma readMessage_total:
  assumes inv: "conn_inv c"
  shows "\<exists>c' m. readMessage ex p c = Some (c', m) \<and> conn_inv c' \<and> auth_frame c c' \<and>
    undelivered c = (case m of Inr b \<Rightarrow> b | Inl e \<Rightarrow> []) @ undelivered c'"
proof (cases "authenticating c")
  case False
  then show ?thesis using inv by (simp add: readMessage_def)
next
  case True
  define c0 where "c0 = clearLastMsg (if ex then c\<lparr>exposed := True\<rparr> else c)"
  have "conn_inv (if ex then c\<lparr>exposed := True\<rparr> else c)" using inv by (simp add: conn_inv_def)
  then have f: "conn_inv c0" "lastMsg c0 = (0, 0)" "undelivered c0 = undelivered c"
    using clearLastMsg_facts [of "if ex then c\<lparr>exposed := True\<rparr> else c"]
    by (simp_all add: c0_def undelivered_def pending_def split: if_splits)
  have fr: "auth_frame c c0" by (simp add: c0_def auth_frame_def clearLastMsg_def Let_def split: prod.splits)
  obtain c1 res where n: "next_msg StageAuth maxAuthMsg (unitp p) c0 = Some (c1, res)"
    "next_post c0 c1 res"
    using next_total [OF f(1,2), of maxAuthMsg StageAuth "unitp p"]
    by (auto simp: maxAuthMsg_def inSize_def)
  have fr1: "auth_frame c0 c1"
    using n(2) by (simp add: next_post_def engine_frame_def auth_frame_def)
  show ?thesis
  proof (cases res)
    case (Inl e)
    then show ?thesis
      using n True f auth_frame_trans [OF fr fr1]
      by (simp add: readMessage_def Let_def next_post_def taken_def flip: c0_def)
  next
    case (Inr vm)
    obtain v m where vm: "vm = (v, m)" by (cases vm)
    let ?c2 = "c1\<lparr>lastMsg := (rpos c1 - length m, rpos c1)\<rparr>"
    have i1: "conn_inv c1" using n(2) by (simp add: next_post_def)
    have "conn_inv ?c2" using conn_invD [OF i1] by (intro conn_invI) auto
    moreover have "undelivered ?c2 = undelivered c1" by (simp add: undelivered_def pending_def)
    moreover have "auth_frame c1 ?c2" by (simp add: auth_frame_def)
    ultimately show ?thesis
      using n True f Inr vm auth_frame_trans [OF fr auth_frame_trans [OF fr1]]
      by (simp add: readMessage_def Let_def next_post_def taken_def flip: c0_def)
  qed
qed

lemma auth_put_steps: "same_input c (auth_put b st c) \<and> auth_frame c (auth_put b st c)"
  by (simp add: auth_put_def same_input_def auth_frame_def queue_def wrote_def net_write_def Let_def)

lemma flush_steps: "same_input c (fst (flush c)) \<and> auth_frame c (fst (flush c))"
  by (simp add: same_input_def auth_frame_def flush_def net_write_def Let_def)

lemma auth_Write_facts:
  assumes inv: "conn_inv c"
  shows "conn_inv (auth_Write b c) \<and> auth_frame c (auth_Write b c) \<and>
    undelivered (auth_Write b c) = undelivered c"
proof (cases "authenticating c")
  case True
  define c1 where "c1 = (if length (out c) + length b > 2 + maxAuthMsg then fst (flush c) else c)"
  define st where "st = (if rq_Method (req c) = MethodUserPass then StageUserPassStatus else StageAuth)"
  have eq: "auth_Write b c = auth_put b st c1" using True by (simp add: auth_Write_def c1_def st_def)
  have s1: "same_input c c1" and f1: "auth_frame c c1"
    using flush_steps [of c] by (auto simp: c1_def same_input_def)
  note s2 = auth_put_steps [of c1 b st]
  show ?thesis
    unfolding eq
    using same_input_inv [OF conjunct1 [OF s2] same_input_inv [OF s1 inv]] s2
      auth_frame_trans [OF f1] same_input_bytes [OF s1] same_input_bytes [OF conjunct1 [OF s2]]
    by simp
qed (use inv in \<open>simp add: auth_Write_def\<close>)

text \<open>Whatever an authenticator does, it ends, it takes a prefix of the client's bytes and leaves
  the rest, and it changes nothing of the request.\<close>

lemma run_auth_total:
  assumes "conn_inv c"
  shows "\<exists>c' r x. run_auth a c = Some (c', r) \<and> conn_inv c' \<and> auth_frame c c' \<and>
    undelivered c = x @ undelivered c'"
  using assms
proof (induction a arbitrary: c)
  case (ARead ex p k)
  obtain c1 m where m: "readMessage ex p c = Some (c1, m)" "conn_inv c1" "auth_frame c c1"
    "undelivered c = (case m of Inr b \<Rightarrow> b | Inl e \<Rightarrow> []) @ undelivered c1"
    using readMessage_total [OF ARead.prems] by blast
  obtain c' r x where r: "run_auth (k m) c1 = Some (c', r)" "conn_inv c'" "auth_frame c1 c'"
    "undelivered c1 = x @ undelivered c'"
    using ARead.IH [OF rangeI m(2)] by blast
  have "undelivered c = ((case m of Inr b \<Rightarrow> b | Inl e \<Rightarrow> []) @ x) @ undelivered c'"
    using m(4) r(4) by simp
  then show ?case using m(1) r auth_frame_trans [OF m(3) r(3)] by (simp del: append_assoc)
next
  case (AWrite b a)
  note w = auth_Write_facts [OF AWrite.prems, of b]
  obtain c' r x where r: "run_auth a (auth_Write b c) = Some (c', r)" "conn_inv c'"
    "auth_frame (auth_Write b c) c'" "undelivered (auth_Write b c) = x @ undelivered c'"
    using AWrite.IH [of "auth_Write b c"] w by blast
  have "auth_frame c c'" using auth_frame_trans r(3) w by blast
  then show ?case using r w by auto
next
  case (AExpose a)
  let ?c = "c\<lparr>exposed := True\<rparr>"
  have e: "conn_inv ?c" "auth_frame c ?c" "undelivered ?c = undelivered c"
    using AExpose.prems by (simp_all add: conn_inv_def auth_frame_def undelivered_def pending_def)
  obtain c' r x where r: "run_auth a ?c = Some (c', r)" "conn_inv c'"
    "auth_frame ?c c'" "undelivered ?c = x @ undelivered c'"
    using AExpose.IH [OF e(1)] by blast
  have "auth_frame c c'" using auth_frame_trans [OF e(2) r(3)] .
  then show ?case using r e(3) by auto
qed simp

section \<open>The specification on byte strings\<close>

text \<open>\<open>auth_spec\<close> is what an authenticator does to the client's bytes alone: no buffer, no chunks. It
  gives the bytes left, what was written and the result.\<close>

definition natp :: "(bytes \<Rightarrow> int \<times> error option) \<Rightarrow> bytes \<Rightarrow> unit \<times> nat \<times> error option" where
  "natp p b = (case p b of (n, e) \<Rightarrow> ((), nat n, e))"

primrec auth_spec :: "auth_prog \<Rightarrow> error \<Rightarrow> bytes \<Rightarrow> bytes \<times> bytes \<times> (error + identity)" where
  "auth_spec (ADone r) err = (\<lambda>d. (d, [], r))"
| "auth_spec (ARead ex p k) err =
     (\<lambda>d. case parsed StageAuth (natp p) d err of
        Inl e \<Rightarrow> auth_spec (k (Inl e)) err d
      | Inr (v, m) \<Rightarrow> auth_spec (k (Inr m)) err (drop (length m) d))"
| "auth_spec (AWrite b a) err =
     (\<lambda>d. case auth_spec a err d of (d', o1, r) \<Rightarrow> (d', b @ o1, r))"
| "auth_spec (AExpose a) err = auth_spec a err"

text \<open>Every parse function keeps the Parse contract within 1 KiB, and no write is longer than that.\<close>

primrec auth_ok :: "auth_prog \<Rightarrow> bool" where
  "auth_ok (ADone r) \<longleftrightarrow> True"
| "auth_ok (ARead ex p k) \<longleftrightarrow>
     bounded_parse (natp p) maxAuthMsg \<and> (\<forall>b. 0 \<le> fst (p b)) \<and> (\<forall>m. auth_ok (k m))"
| "auth_ok (AWrite b a) \<longleftrightarrow> length b \<le> maxAuthMsg \<and> auth_ok a"
| "auth_ok (AExpose a) \<longleftrightarrow> auth_ok a"

text \<open>What is on its way to the client: written, then queued.\<close>

definition outgoing :: "conn \<Rightarrow> bytes" where
  "outgoing c = written (net c) @ out c"

lemma unitp_natp: "\<forall>b. 0 \<le> fst (p b) \<Longrightarrow> unitp p = intp (natp p)"
proof
  fix b assume "\<forall>b. 0 \<le> fst (p b)"
  then have "0 \<le> fst (p b)" by blast
  then show "unitp p b = intp (natp p) b"
    by (cases "p b") (simp add: unitp_def intp_def natp_def)
qed

lemma readMessage_parsed:
  assumes inv: "conn_inv c" and w: "writable c" and au: "authenticating c"
    and p: "bounded_parse (natp p) maxAuthMsg" "\<forall>b. 0 \<le> fst (p b)"
  shows "\<exists>c'. readMessage ex p c = Some (c',
      map_sum id snd (parsed StageAuth (natp p) (undelivered c) (stream_end (rd c))))
    \<and> writable c' \<and> outgoing c' = outgoing c"
proof -
  define c0 where "c0 = clearLastMsg (if ex then c\<lparr>exposed := True\<rparr> else c)"
  have "conn_inv (if ex then c\<lparr>exposed := True\<rparr> else c)" using inv by (simp add: conn_inv_def)
  then have f: "conn_inv c0" "lastMsg c0 = (0, 0)" "undelivered c0 = undelivered c" "rd c0 = rd c"
    using clearLastMsg_facts [of "if ex then c\<lparr>exposed := True\<rparr> else c"]
    by (simp_all add: c0_def undelivered_def pending_def split: if_splits)
  have o0: "writable c0" "outgoing c0 = outgoing c"
    using w by (simp_all add: c0_def clearLastMsg_def writable_def outgoing_def Let_def split: prod.splits)
  obtain c1 where n: "next_msg StageAuth maxAuthMsg (unitp p) c0
      = Some (c1, parsed StageAuth (natp p) (undelivered c) (stream_end (rd c)))"
    and post: "next_post c0 c1 (parsed StageAuth (natp p) (undelivered c) (stream_end (rd c)))"
    using bounded_parse.next_result [OF p(1) f(1,2) o0(1) order_refl, of StageAuth] f unitp_natp [OF p(2)]
    by (auto simp: maxAuthMsg_def inSize_def)
  have o1: "writable c1" "outgoing c1 = outgoing c"
    using post o0 by (simp_all add: next_post_def outgoing_def)
  show ?thesis
  proof (cases "parsed StageAuth (natp p) (undelivered c) (stream_end (rd c))")
    case (Inl e)
    then show ?thesis using n o1 au by (simp add: readMessage_def Let_def flip: c0_def)
  next
    case (Inr vm)
    then show ?thesis
      using n o1 au by (cases vm) (simp add: readMessage_def Let_def writable_def outgoing_def flip: c0_def)
  qed
qed

lemma auth_Write_outgoing:
  assumes w: "writable c" and au: "authenticating c" and b: "length b \<le> maxAuthMsg"
  shows "writable (auth_Write b c) \<and> outgoing (auth_Write b c) = outgoing c @ b"
proof -
  define c1 where "c1 = (if length (out c) + length b > 2 + maxAuthMsg then fst (flush c) else c)"
  obtain c2 where fl: "flush c = (c2, None)" "writable c2" "out c2 = []"
    "net c2 = net c @ (if out c = [] then [] else [NWrite (out c) None])"
    using flush_writable [OF w] by blast
  have "writable c1" and "outgoing c1 = outgoing c"
    using fl w by (auto simp: c1_def outgoing_def)
  moreover have "\<exists>st. auth_Write b c = queue (out c1 @ b) st c1"
    using au b unfolding auth_Write_def auth_put_def c1_def by auto
  ultimately show ?thesis
    by (auto simp add: queue_def wrote_def outgoing_def writable_def)
qed

text \<open>A client's bytes go through an authenticator the same way however they arrive.\<close>

lemma run_auth_spec:
  assumes "conn_inv c" and "writable c" and "authenticating c" and "auth_ok a"
    and "auth_spec a (stream_end (rd c)) (undelivered c) = (d, w, r)"
  shows "\<exists>c'. run_auth a c = Some (c', r) \<and> conn_inv c' \<and> writable c' \<and> auth_frame c c' \<and>
    undelivered c' = d \<and> outgoing c' = outgoing c @ w"
  using assms
proof (induction a arbitrary: c w)
  case (ADone x)
  then show ?case by simp
next
  case (ARead ex p k)
  note inv = ARead.prems(1) and wr = ARead.prems(2) and au = ARead.prems(3)
  have ok: "bounded_parse (natp p) maxAuthMsg" "\<forall>b. 0 \<le> fst (p b)" "\<And>m. auth_ok (k m)"
    using ARead.prems(4) by simp_all
  let ?res = "parsed StageAuth (natp p) (undelivered c) (stream_end (rd c))"
  obtain c1 where m: "readMessage ex p c = Some (c1, map_sum id snd ?res)"
    and w1: "writable c1" "outgoing c1 = outgoing c"
    using readMessage_parsed [OF inv wr au ok(1,2), of ex] by blast
  have i1: "conn_inv c1" "auth_frame c c1"
    and u1: "undelivered c = (case map_sum id snd ?res of Inr b \<Rightarrow> b | Inl e \<Rightarrow> []) @ undelivered c1"
    using readMessage_total [OF inv, of ex p] m by auto
  have au1: "authenticating c1" "stream_end (rd c1) = stream_end (rd c)"
    using i1(2) au by (simp_all add: auth_frame_def)
  have sp: "auth_spec (k (map_sum id snd ?res)) (stream_end (rd c1)) (undelivered c1) = (d, w, r)"
  proof (cases ?res)
    case (Inl e)
    then show ?thesis using ARead.prems(5) u1 au1(2) by simp
  next
    case (Inr vm)
    obtain v m where "vm = (v, m)" by (cases vm)
    then show ?thesis using ARead.prems(5) u1 au1(2) Inr by simp
  qed
  obtain c' where "run_auth (k (map_sum id snd ?res)) c1 = Some (c', r)" "conn_inv c'" "writable c'"
    "auth_frame c1 c'" "undelivered c' = d" "outgoing c' = outgoing c1 @ w"
    using ARead.IH [OF rangeI i1(1) w1(1) au1(1) ok(3) sp] by blast
  then show ?case using m w1 auth_frame_trans [OF i1(2)] by auto
next
  case (AWrite b a)
  note f = auth_Write_facts [OF AWrite.prems(1), of b]
  have b: "length b \<le> maxAuthMsg" "auth_ok a" using AWrite.prems(4) by simp_all
  note g = auth_Write_outgoing [OF AWrite.prems(2,3) b(1)]
  obtain d' w' r' where sp: "auth_spec a (stream_end (rd c)) (undelivered c) = (d', w', r')"
    by (cases "auth_spec a (stream_end (rd c)) (undelivered c)")
  then have eq: "d' = d" "r' = r" "w = b @ w'" using AWrite.prems(5) by simp_all
  have au: "authenticating (auth_Write b c)" "stream_end (rd (auth_Write b c)) = stream_end (rd c)"
    using f AWrite.prems(3) by (simp_all add: auth_frame_def)
  obtain c' where "run_auth a (auth_Write b c) = Some (c', r)" "conn_inv c'" "writable c'"
    "auth_frame (auth_Write b c) c'" "undelivered c' = d" "outgoing c' = outgoing (auth_Write b c) @ w'"
    using AWrite.IH [of "auth_Write b c" w'] f g b au sp eq by auto
  then show ?case using f g eq auth_frame_trans by auto
next
  case (AExpose a)
  let ?c = "c\<lparr>exposed := True\<rparr>"
  have e: "conn_inv ?c" "auth_frame c ?c" "undelivered ?c = undelivered c" "writable ?c"
    "authenticating ?c" "outgoing ?c = outgoing c"
    using AExpose.prems
    by (simp_all add: conn_inv_def auth_frame_def undelivered_def pending_def writable_def outgoing_def)
  obtain c' where "run_auth a ?c = Some (c', r)" "conn_inv c'" "writable c'" "auth_frame ?c c'"
    "undelivered c' = d" "outgoing c' = outgoing ?c @ w"
    using AExpose.IH [OF e(1,4,5)] AExpose.prems(4,5) e(3) by auto
  then show ?case using e auth_frame_trans [OF e(2)] by auto
qed

lemma bounded_parse_forget:
  assumes "bounded_parse p L" and "L \<le> M" and q: "\<And>b. q b = (case p b of (v, n, e) \<Rightarrow> ((), n, e))"
  shows "bounded_parse q M"
proof -
  note c = bounded_parse.axioms(1) [OF assms(1)]
  have q': "q b = (u, n, r) \<longleftrightarrow> (\<exists>v. p b = (v, n, r))" for b u n r
    by (cases "p b") (simp add: q)
  show ?thesis
  proof (rule bounded_parseI, goal_cases)
    case (1 b v n)
    then show ?case
      unfolding q' using parse_contract.ok_len [OF c] parse_contract.ok_prefix [OF c, where x = "[]"]
      by fastforce
  next
    case (2 b v n x)
    then show ?case unfolding q' using parse_contract.ok_append [OF c] by blast
  next
    case (3 b v n e)
    then show ?case
      unfolding q' using parse_contract.inc_len [OF c] bounded_parse.inc_max [OF assms(1)] assms(2)
      by fastforce
  next
    case (4 b v n e x w m)
    then show ?case unfolding q' using parse_contract.inc_bound [OF c] by blast
  next
    case (5 b v n e x)
    then show ?case unfolding q' using parse_contract.err_final [OF c] by blast
  qed
qed

lemma userpass_ok: "auth_ok (userpass_prog h u)"
proof -
  have "bounded_parse (natp parseUserPass) maxAuthMsg"
    by (rule bounded_parse_forget [OF userpass.bounded_parse_axioms])
      (auto simp: maxAuthMsg_def natp_def parseUserPass_def split: prod.splits)
  then show ?thesis
    by (auto simp: userpass_prog_def parseUserPass_def up_identify_def up_finish_def statusOK_def
        statusFailed_def maxAuthMsg_def split: prod.splits option.splits sum.splits)
qed

end
