(* ===== verification/ServerHandshake.thy ===== *)
theory ServerHandshake
  imports ServerAuth
begin

text \<open>
  The handshake of \<open>server/conn.go\<close>: from the first byte to the request, for SOCKS5 and SOCKS4, with
  the method choice, authentication, the early replies and their trace events. The \<open>V4\<close> and \<open>V5\<close>
  flags are bits of \<open>Versions\<close>. The main lemma is a refinement: whatever the chunks the client's
  bytes come in, the handshake does what \<open>hs_spec\<close>, a function on the byte string, says, and leaves
  every byte after the request.
\<close>

section \<open>Configuration\<close>

definition V4 :: nat where "V4 = 1"
definition V5 :: nat where "V5 = 2"

text \<open>\<open>cf_timeout\<close>: a handshake timeout is set. \<open>cf_hooks\<close>: \<open>Trace\<close> has every hook. \<open>cf_sha256\<close> is the hash.\<close>

record sconfig =
  cf_v4 :: bool
  cf_v5 :: bool
  cf_auth :: "authenticator list"
  cf_builtinNoAuth :: bool
  cf_timeout :: bool
  cf_UserID :: "(bytes \<Rightarrow> error + identity) option"
  cf_Allow :: "(request \<Rightarrow> error option) option"
  cf_hooks :: bool
  cf_sha256 :: "bytes \<Rightarrow> bytes"

definition hook :: "sconfig \<Rightarrow> tevent \<Rightarrow> conn \<Rightarrow> conn" where
  "hook cf e c = (if cf_hooks cf then c\<lparr>trace := trace c @ [e]\<rparr> else c)"

lemma hook_sel [simp]: "rpos (hook cf e c) = rpos c" "req (hook cf e c) = req c"
  by (simp_all add: hook_def)

section \<open>Replies\<close>

definition zeroBound :: addr where
  "zeroBound = AddrFromAddrPort (AddrPortFrom (IP4 0) 0)"

definition appendReply :: "nat \<Rightarrow> bytes \<Rightarrow> reply \<Rightarrow> addr \<Rightarrow> bytes \<times> error option" where
  "appendReply version dst rep bound =
     (if version = V4 then
        let rep4 = (if rep = ReplySucceeded then Reply4Granted
                    else if rep < Reply4Granted \<or> rep > Reply4IdentMismatch then Reply4Rejected
                    else rep)
        in AppendReply4 dst rep4 (if Is4 (IP_of bound) then bound else zeroAddr)
      else AppendReply dst rep (if addr_IsValid bound then bound else zeroBound))"

definition replyNow :: "sconfig \<Rightarrow> reply \<Rightarrow> conn \<Rightarrow> conn" where
  "replyNow cf rep c =
     (let c1 = c\<lparr>replied := True\<rparr>;
          c2 = queue (fst (appendReply (rq_Version (req c)) (out c1) rep zeroAddr)) StageReply c1;
          (c3, err) = flush c2
      in hook cf (TReplied rep zeroAddr err) (c3\<lparr>linger := (err = None \<and> \<not> isSuccess rep)\<rparr>))"

section \<open>SOCKS5\<close>

definition readGreeting :: "sconfig \<Rightarrow> conn \<Rightarrow> (conn \<times> (error + method_code list)) option" where
  "readGreeting cf c =
     Option.bind (next_msg StageGreeting (2 + 255) (intp (ParseGreeting [])) c)
       (\<lambda>(c1, res).
          case res of
            Inl e \<Rightarrow> Some (c1, Inl e)
          | Inr (methods, m) \<Rightarrow>
              let c2 = (if cf_hooks cf then c1\<lparr>exposed := True\<rparr> else c1)
              in Some (hook cf (TGotGreeting methods) c2, Inr methods))"

type_synonym stage_error = "string \<times> error"

definition authenticate5 :: "sconfig \<Rightarrow> conn \<Rightarrow> (conn \<times> stage_error option) option" where
  "authenticate5 cf c =
     Option.bind (readGreeting cf c)
       (\<lambda>(c1, g).
          case g of
            Inl e \<Rightarrow> Some (c1, Some (StageGreeting, e))
          | Inr methods \<Rightarrow>
              (case choose_auth (cf_auth cf) methods of
                 None \<Rightarrow>
                   Some ((queue (AppendMethodSelection (out c1) MethodNoAcceptable)
                            StageMethodSelection c1)\<lparr>linger := True\<rparr>,
                         Some (StageGreeting, EMethodServer methods))
               | Some a \<Rightarrow>
                   let m = auth_Method a;
                       c2 = queue (AppendMethodSelection (out c1) m) StageMethodSelection c1;
                       c3 = c2\<lparr>req := (req c2)\<lparr>rq_Method := m\<rparr>\<rparr>
                   in Option.bind (authenticate (cf_sha256 cf) a c3)
                        (\<lambda>(c4, r).
                           case r of
                             Inl e \<Rightarrow> Some (hook cf (TAuthDone m IdNil (Some e)) c4, Some (authStage m, e))
                           | Inr i \<Rightarrow>
                               let c5 = hook cf (TAuthDone m i None) c4
                               in Some (c5\<lparr>req := (req c5)\<lparr>rq_Identity := i\<rparr>\<rparr>, None))))"

definition badAddress :: "error \<Rightarrow> bool" where
  "badAddress e =
     (case err_As is_EProtocol e of
        Some (EProtocol st f g h u) \<Rightarrow> f \<noteq> FieldVER \<and> u = None
      | _ \<Rightarrow> False)"

definition readRequest5 :: "sconfig \<Rightarrow> conn \<Rightarrow> (conn \<times> stage_error option) option" where
  "readRequest5 cf c =
     Option.bind (next_msg StageRequest MaxReplyLen (intp ParseRequest) c)
       (\<lambda>(c1, res).
          case res of
            Inl e \<Rightarrow>
              Some (if badAddress e
                    then replyNow cf ReplyAddressTypeNotSupported (c1\<lparr>req := (req c1)\<lparr>rq_Version := V5\<rparr>\<rparr>)
                    else c1,
                    Some (StageRequest, e))
          | Inr ((cmd, a), m) \<Rightarrow>
              Some (c1\<lparr>req := (req c1)\<lparr>rq_Version := V5, rq_Command := cmd, rq_Addr := a\<rparr>\<rparr>, None))"

definition handshake5 :: "sconfig \<Rightarrow> conn \<Rightarrow> (conn \<times> stage_error option) option" where
  "handshake5 cf c =
     Option.bind (authenticate5 cf c)
       (\<lambda>(c1, r). case r of Some e \<Rightarrow> Some (c1, Some e) | None \<Rightarrow> readRequest5 cf c1)"

section \<open>SOCKS4\<close>

definition authorize4 :: "sconfig \<Rightarrow> command \<Rightarrow> bytes \<Rightarrow> conn \<Rightarrow> conn \<times> error option" where
  "authorize4 cf cmd uid c =
     (if cmd \<noteq> CmdConnect \<and> cmd \<noteq> CmdBind then (c, Some (ESent errSOCKS4Cmd))
      else case cf_UserID cf of
        Some userID \<Rightarrow>
          let c1 = c\<lparr>exposed := True\<rparr> in
          (case userID uid of
             Inl e \<Rightarrow>
               (hook cf (TAuthDone MethodUserPass IdNil (Some e)) c1,
                Some (EWrap ''socks0: authentication failed: %w'' [ESent ErrAuthFailed, e]))
           | Inr i \<Rightarrow>
               let c2 = hook cf (TAuthDone MethodUserPass i None) c1 in
               (c2\<lparr>req := (req c2)\<lparr>rq_Identity := i, rq_Method := MethodUserPass\<rparr>\<rparr>, None))
      | None \<Rightarrow>
          if \<not> cf_builtinNoAuth cf then (c, Some (ESent errSOCKS4Auth)) else (c, None))"

text \<open>\<open>clear(uid)\<close>: the userid lies 8 bytes into the message just taken.\<close>

definition clear_uid :: "nat \<Rightarrow> nat \<Rightarrow> conn \<Rightarrow> conn" where
  "clear_uid n len c =
     c\<lparr>inBuf := overwrite (rpos c - n + 8) (replicate len 0) (inBuf c)\<rparr>"

definition handshake4 :: "sconfig \<Rightarrow> conn \<Rightarrow> (conn \<times> stage_error option) option" where
  "handshake4 cf c =
     Option.bind (next_msg StageRequest4 (8 + 256 + 256) (intp ParseRequest4) c)
       (\<lambda>(c1, res).
          case res of
            Inl e \<Rightarrow> Some (c1, Some (StageRequest4, e))
          | Inr ((cmd, a, uid), m) \<Rightarrow>
              let c2 = c1\<lparr>req := (req c1)\<lparr>rq_Version := V4, rq_Command := cmd, rq_Addr := a,
                           rq_Method := MethodNoAuth\<rparr>\<rparr>;
                  (c3, r) = authorize4 cf cmd uid c2
              in (case r of
                    Some e \<Rightarrow>
                      Some (clear_uid (length m) (length uid) (replyNow cf Reply4Rejected c3),
                            Some (StageRequest4, e))
                  | None \<Rightarrow> Some (clear_uid (length m) (length uid) c3, None)))"

section \<open>The handshake\<close>

definition negotiate :: "sconfig \<Rightarrow> conn \<Rightarrow> (conn \<times> stage_error option) option" where
  "negotiate cf c =
     Option.bind (fill 1 c)
       (\<lambda>(c1, r).
          case r of
            Some e \<Rightarrow> Some (c1, Some (StageGreeting, Truncated StageGreeting e))
          | None \<Rightarrow>
              let v = inBuf c1 ! 0 in
              if v = Version5 \<and> cf_v5 cf then handshake5 cf c1
              else if v = Version4 \<and> cf_v4 cf then handshake4 cf c1
              else Some (c1, Some (StageGreeting, EProtocol StageGreeting FieldVER v [] None)))"

definition net_op :: "netop \<Rightarrow> conn \<Rightarrow> conn" where
  "net_op x c = c\<lparr>net := net c @ [x]\<rparr>"

definition beginHandshake :: "sconfig \<Rightarrow> netaddr \<Rightarrow> netaddr \<Rightarrow> conn \<Rightarrow> conn" where
  "beginHandshake cf local remote c =
     (let c1 = (if cf_timeout cf then net_op (NDeadline DlBoth True) c else c) in
      c1\<lparr>req := (req c1)\<lparr>rq_LocalAddr := local, rq_RemoteAddr := remote\<rparr>,
         hasBuf := True, inBuf := zeroIn, inUsed := 0, outUsed := 0, out := []\<rparr>)"

definition handshake ::
  "sconfig \<Rightarrow> netaddr \<Rightarrow> netaddr \<Rightarrow> conn \<Rightarrow> (conn \<times> stage_error option) option" where
  "handshake cf local remote c =
     Option.bind (negotiate cf (beginHandshake cf local remote c))
       (\<lambda>(c1, r).
          let (c2, r2) =
            (case r of
               Some e \<Rightarrow> (c1, Some e)
             | None \<Rightarrow> (case flush c1 of (c2, e) \<Rightarrow> (c2, map_option (\<lambda>x. ([], x)) e)))
          in case writeErr c2 of
               Some we \<Rightarrow> Some (c2, Some (outStage c2, we))
             | None \<Rightarrow>
                 Some (if r2 = None \<and> cf_timeout cf then net_op (NDeadline DlBoth False) c2 else c2, r2))"

text \<open>A conn before its handshake.\<close>

definition newConn :: "prefix list \<Rightarrow> stream \<Rightarrow> error option list \<Rightarrow> error option option \<Rightarrow> conn" where
  "newConn self s ws cw =
     \<lparr>hasBuf = False, inBuf = zeroIn, inUsed = 0, outUsed = 0, rpos = 0, wpos = 0, readErr = None,
      out = [], writeErr = None, outStage = [], authenticating = False, lastMsg = (0, 0),
      linger = False, exposed = False, replied = False, listening = False, doneC = False,
      req = zeroRequest\<lparr>rq_self := Some self\<rparr>, rd = s, writes = ws, closeWrite = cw, net = [], trace = []\<rparr>"

section \<open>The specification\<close>

definition auth5_spec ::
  "sconfig \<Rightarrow> error \<Rightarrow> authenticator \<Rightarrow> bytes \<Rightarrow> bytes \<times> bytes \<times> (error + identity)" where
  "auth5_spec cf err a d =
     (if a = NoAuth then (d, [], Inr IdNil) else auth_spec (Authenticate (cf_sha256 cf) a) err d)"

definition req5_spec ::
  "sconfig \<Rightarrow> error \<Rightarrow> request \<Rightarrow> bytes \<Rightarrow> bytes \<times> bytes \<times> (stage_error + request)" where
  "req5_spec cf err q d =
     (case parsed StageRequest ParseRequest d err of
        Inl e \<Rightarrow>
          (d, if badAddress e then fst (AppendReply [] ReplyAddressTypeNotSupported zeroBound) else [],
           Inl (StageRequest, e))
      | Inr ((cmd, a), m) \<Rightarrow>
          (drop (length m) d, [], Inr (q\<lparr>rq_Version := V5, rq_Command := cmd, rq_Addr := a\<rparr>)))"

definition hs5_spec ::
  "sconfig \<Rightarrow> error \<Rightarrow> request \<Rightarrow> bytes \<Rightarrow> bytes \<times> bytes \<times> (stage_error + request)" where
  "hs5_spec cf err q d =
     (case parsed StageGreeting (ParseGreeting []) d err of
        Inl e \<Rightarrow> (d, [], Inl (StageGreeting, e))
      | Inr (methods, m) \<Rightarrow>
          let d1 = drop (length m) d in
          (case choose_auth (cf_auth cf) methods of
             None \<Rightarrow> (d1, [Version5, MethodNoAcceptable], Inl (StageGreeting, EMethodServer methods))
           | Some a \<Rightarrow>
               (case auth5_spec cf err a d1 of
                  (d2, o2, Inl e) \<Rightarrow>
                    (d2, [Version5, auth_Method a] @ o2, Inl (authStage (auth_Method a), e))
                | (d2, o2, Inr i) \<Rightarrow>
                    (case req5_spec cf err (q\<lparr>rq_Method := auth_Method a, rq_Identity := i\<rparr>) d2 of
                       (d3, o3, r) \<Rightarrow> (d3, [Version5, auth_Method a] @ o2 @ o3, r)))))"

definition hs4_spec ::
  "sconfig \<Rightarrow> error \<Rightarrow> request \<Rightarrow> bytes \<Rightarrow> bytes \<times> bytes \<times> (stage_error + request)" where
  "hs4_spec cf err q d =
     (case parsed StageRequest4 ParseRequest4 d err of
        Inl e \<Rightarrow> (d, [], Inl (StageRequest4, e))
      | Inr ((cmd, a, uid), m) \<Rightarrow>
          let d1 = drop (length m) d;
              q1 = q\<lparr>rq_Version := V4, rq_Command := cmd, rq_Addr := a, rq_Method := MethodNoAuth\<rparr>;
              refuse = (\<lambda>e. (d1, fst (AppendReply4 [] Reply4Rejected zeroAddr), Inl (StageRequest4, e)))
          in if cmd \<noteq> CmdConnect \<and> cmd \<noteq> CmdBind then refuse (ESent errSOCKS4Cmd)
             else case cf_UserID cf of
               Some userID \<Rightarrow>
                 (case userID uid of
                    Inl e \<Rightarrow>
                      refuse (EWrap ''socks0: authentication failed: %w'' [ESent ErrAuthFailed, e])
                  | Inr i \<Rightarrow> (d1, [], Inr (q1\<lparr>rq_Identity := i, rq_Method := MethodUserPass\<rparr>)))
             | None \<Rightarrow>
                 if cf_builtinNoAuth cf then (d1, [], Inr q1) else refuse (ESent errSOCKS4Auth))"

definition hs_spec ::
  "sconfig \<Rightarrow> error \<Rightarrow> request \<Rightarrow> bytes \<Rightarrow> bytes \<times> bytes \<times> (stage_error + request)" where
  "hs_spec cf err q d =
     (case d of
        [] \<Rightarrow> (d, [], Inl (StageGreeting, Truncated StageGreeting err))
      | v # _ \<Rightarrow>
          if v = Version5 \<and> cf_v5 cf then hs5_spec cf err q d
          else if v = Version4 \<and> cf_v4 cf then hs4_spec cf err q d
          else (d, [], Inl (StageGreeting, EProtocol StageGreeting FieldVER v [] None)))"

section \<open>The refinement\<close>

text \<open>\<open>c\<close> is between two messages, no write has failed, the client's bytes left are \<open>d\<close>, and \<open>w\<close> is
  written or queued.\<close>

definition at_rest :: "conn \<Rightarrow> error \<Rightarrow> bytes \<Rightarrow> bytes \<Rightarrow> bool" where
  "at_rest c err d w =
     (conn_inv c \<and> lastMsg c = (0, 0) \<and> writable c \<and> stream_end (rd c) = err
      \<and> undelivered c = d \<and> outgoing c = w)"

lemma at_rest_same:
  assumes "at_rest c err d w" and "same_input c c'" and "writeErr c' = writeErr c" and "writes c' = writes c"
    and "outgoing c' = w'"
  shows "at_rest c' err d w'"
  using assms same_input_inv [OF assms(2)] same_input_bytes [OF assms(2)]
  by (simp add: at_rest_def writable_def same_input_def)

lemma at_rest_steps:
  assumes r: "at_rest c err d w"
  shows "at_rest (hook cf e c) err d w" "at_rest (c\<lparr>req := q\<rparr>) err d w"
    "at_rest (c\<lparr>linger := l\<rparr>) err d w" "at_rest (c\<lparr>exposed := x\<rparr>) err d w"
    "at_rest (c\<lparr>replied := y\<rparr>) err d w" "at_rest (queue (out c @ b) st c) err d (w @ b)"
    "at_rest (net_op (NDeadline k v) c) err d w"
proof -
  have o: "outgoing c = w" using r by (simp add: at_rest_def)
  show "at_rest (hook cf e c) err d w" "at_rest (c\<lparr>req := q\<rparr>) err d w"
    "at_rest (c\<lparr>linger := l\<rparr>) err d w" "at_rest (c\<lparr>exposed := x\<rparr>) err d w"
    "at_rest (c\<lparr>replied := y\<rparr>) err d w" "at_rest (queue (out c @ b) st c) err d (w @ b)"
    "at_rest (net_op (NDeadline k v) c) err d w"
    using o by (auto intro!: at_rest_same [OF r] simp: same_input_def hook_def outgoing_def queue_def
        wrote_def net_op_def)
qed

lemma at_rest_flush:
  assumes r: "at_rest c err d w"
  shows "\<exists>c'. flush c = (c', None) \<and> at_rest c' err d w \<and> out c' = []
    \<and> req c' = req c \<and> rpos c' = rpos c \<and> wpos c' = wpos c \<and> inBuf c' = inBuf c"
proof -
  have w: "writable c" using r by (simp add: at_rest_def)
  obtain c' where f: "flush c = (c', None)" "writable c'" "out c' = []"
    "net c' = net c @ (if out c = [] then [] else [NWrite (out c) None])"
    using flush_writable [OF w] by blast
  have s: "same_input c c'" "auth_frame c c'" using flush_steps [of c] f(1) by simp_all
  have "outgoing c' = outgoing c" using f by (simp add: outgoing_def)
  then have "at_rest c' err d w"
    using r f s same_input_inv [OF s(1)] same_input_bytes [OF s(1)]
    by (simp add: at_rest_def same_input_def)
  then show ?thesis using f s by (auto simp: auth_frame_def same_input_def)
qed

lemma at_rest_next:
  assumes "at_rest c err d w" and "next_post c c' res"
  shows "at_rest c' err (drop (length (taken res)) d) w"
proof -
  have "undelivered c = taken res @ undelivered c'" using assms(2) by (simp add: next_post_def)
  then have "undelivered c' = drop (length (taken res)) (undelivered c)" by simp
  then show ?thesis
    using assms by (simp add: at_rest_def next_post_def engine_frame_def outgoing_def)
qed

context bounded_parse
begin

lemma next_at_rest:
  assumes "at_rest c err d w" and "maxlen \<le> limit" and "limit \<le> inSize"
  shows "\<exists>c'. next_msg stage limit (intp parse) c = Some (c', parsed stage parse d err)
    \<and> at_rest c' err (drop (length (taken (parsed stage parse d err))) d) w
    \<and> engine_frame c c'"
  using next_result [of c limit stage] at_rest_next [OF assms(1)] assms
  by (auto simp: at_rest_def next_post_def)

end

lemma engine_frame_req: "engine_frame c c' \<Longrightarrow> req c' = req c"
  by (simp add: engine_frame_def)

text \<open>The result of a step, its spec alongside: the client's bytes left and the outcome always
  agree; what is sent begins what the spec says, and is all of it whenever \<open>sure\<close> holds.\<close>

definition refines :: "conn \<Rightarrow> error \<Rightarrow> bytes \<Rightarrow> bytes \<Rightarrow> bool \<Rightarrow> bool" where
  "refines c err d w sure = (\<exists>w' z. at_rest c err d w' \<and> w = w' @ z \<and> (sure \<longrightarrow> z = []))"

lemma refinesI [intro]: "at_rest c err d w \<Longrightarrow> refines c err d w sure"
  by (auto simp: refines_def)

lemma refines_sure [simp]: "refines c err d w True = at_rest c err d w"
  by (auto simp: refines_def)

definition auth_failure_sent :: "error + identity \<Rightarrow> bool" where
  "auth_failure_sent r = (case r of Inr i \<Rightarrow> True | Inl e \<Rightarrow> IsS e ErrAuthFailed)"

lemma authenticate_refines:
  assumes r: "at_rest c err d w" and ok: "auth_ok (Authenticate (cf_sha256 cf) a)"
    and s: "auth5_spec cf err a d = (d', w', res)"
  shows "\<exists>c'. authenticate (cf_sha256 cf) a c = Some (c', res) \<and>
    refines c' err d' (w @ w') (auth_failure_sent res) \<and> req c' = req c"
proof (cases "a = NoAuth")
  case True
  then show ?thesis using r s by (auto simp: authenticate_def auth5_spec_def refines_def)
next
  case False
  let ?c = "c\<lparr>authenticating := True\<rparr>"
  have i: "conn_inv ?c" "writable ?c" "authenticating ?c" "undelivered ?c = d" "stream_end (rd ?c) = err"
    "outgoing ?c = w"
    using r by (simp_all add: at_rest_def conn_inv_def writable_def undelivered_def pending_def outgoing_def)
  have sp: "auth_spec (Authenticate (cf_sha256 cf) a) (stream_end (rd ?c)) (undelivered ?c) = (d', w', res)"
    using s False i by (simp add: auth5_spec_def)
  obtain c1 where c1: "run_auth (Authenticate (cf_sha256 cf) a) ?c = Some (c1, res)" "conn_inv c1"
    "writable c1" "auth_frame ?c c1" "undelivered c1 = d'" "outgoing c1 = w @ w'"
    using run_auth_spec [OF i(1-3) ok sp] i(6) by auto
  let ?c2 = "clearLastMsg (c1\<lparr>authenticating := False\<rparr>)"
  have "conn_inv (c1\<lparr>authenticating := False\<rparr>)" using c1(2) by (simp add: conn_inv_def)
  note k = clearLastMsg_facts [OF this]
  have req: "req ?c2 = req c" "out ?c2 = out c1" "net ?c2 = net c1" "writeErr ?c2 = writeErr c1"
    "writes ?c2 = writes c1" "stream_end (rd c1) = err"
    using c1(4) i(5) by (simp_all add: clearLastMsg_def auth_frame_def Let_def split: prod.splits)
  have r2: "at_rest ?c2 err d' (w @ w')"
    using k c1 req i by (auto simp: at_rest_def undelivered_def pending_def outgoing_def writable_def)
  have tr: "refines (?c2\<lparr>out := take n (out ?c2)\<rparr>) err d' (w @ w') False" for n
  proof -
    let ?w = "written (net ?c2) @ take n (out ?c2)"
    have "at_rest (?c2\<lparr>out := take n (out ?c2)\<rparr>) err d' ?w"
      by (rule at_rest_same [OF r2]) (simp_all add: same_input_def outgoing_def)
    moreover have "w @ w' = ?w @ drop n (out ?c2)"
      using r2 by (simp add: at_rest_def outgoing_def)
    ultimately show ?thesis unfolding refines_def by blast
  qed
  show ?thesis
  proof (cases res)
    case (Inr x)
    then show ?thesis
      using False c1(1) r2 req by (auto simp: authenticate_def Let_def refines_def)
  next
    case (Inl e)
    then show ?thesis
      using False c1(1) r2 req tr at_rest_steps(3) [OF r2]
      by (auto simp: authenticate_def Let_def refines_def auth_failure_sent_def)
  qed
qed

lemma zeroBound_valid [simp]: "addr_IsValid zeroBound" "addr_wf zeroBound"
  by (simp_all add: zeroBound_def AddrFromAddrPort_plain)

lemma appendReply_ok:
  assumes "addr_wf bound"
  shows "appendReply v dst rep bound = (dst @ fst (appendReply v [] rep bound), None)"
proof (cases "v = V4")
  case True
  define b where "b = (if Is4 (IP_of bound) then bound else zeroAddr)"
  have "Name_of b = [] \<and> \<not> Is6 (IP_of b)"
    using assms by (auto simp: b_def addr_wf_def dest: Is4D)
  then show ?thesis
    using True by (simp add: appendReply_def AppendReply4_def Let_def flip: b_def)
next
  case False
  then show ?thesis
    using addr_append_dst by (simp add: appendReply_def AppendReply_def appendAddrMessage_def)
qed

lemma appendReply_zero:
  "fst (appendReply V5 [] rep zeroAddr) = fst (AppendReply [] rep zeroBound)"
  "fst (appendReply V4 [] Reply4Rejected zeroAddr) = fst (AppendReply4 [] Reply4Rejected zeroAddr)"
  by (simp_all add: appendReply_def V4_def V5_def reply_defs)

lemma replyNow_at_rest:
  assumes r: "at_rest c err d w"
  shows "at_rest (replyNow cf rep c) err d (w @ fst (appendReply (rq_Version (req c)) [] rep zeroAddr))"
proof -
  let ?o = "fst (appendReply (rq_Version (req c)) [] rep zeroAddr)"
  let ?c2 = "queue (out c @ ?o) StageReply (c\<lparr>replied := True\<rparr>)"
  have eq: "fst (appendReply (rq_Version (req c)) (out c) rep zeroAddr) = out c @ ?o"
    using appendReply_ok [of zeroAddr "rq_Version (req c)" "out c" rep] by simp
  have "at_rest ?c2 err d (w @ ?o)"
    using at_rest_steps(6) [OF at_rest_steps(5) [OF r], of True "?o" StageReply] by simp
  then obtain c3 where f: "flush ?c2 = (c3, None)" "at_rest c3 err d (w @ ?o)"
    using at_rest_flush by blast
  have "replyNow cf rep c = hook cf (TReplied rep zeroAddr None) (c3\<lparr>linger := \<not> isSuccess rep\<rparr>)"
    using f(1) eq by (simp add: replyNow_def Let_def)
  then show ?thesis using at_rest_steps(1,3) f(2) by metis
qed

lemma taken_Inl [simp]: "taken (Inl e) = []"
  by (simp add: taken_def)

lemma taken_Inr [simp]: "taken (Inr (v, m)) = m"
  by (simp add: taken_def)

text \<open>\<open>steps_to cf q r c'\<close>: what a handshake step leaves in the conn for the spec's result.\<close>

definition hs_result :: "conn \<Rightarrow> (conn \<times> stage_error option) option \<Rightarrow> error
    \<Rightarrow> bytes \<times> bytes \<times> (stage_error + request) \<Rightarrow> bytes \<Rightarrow> bool \<Rightarrow> bool" where
  "hs_result c run err spec w sure =
     (case spec of (d', w', res) \<Rightarrow>
        \<exists>c' r. run = Some (c', r) \<and> refines c' err d' (w @ w') sure
          \<and> (case res of Inl se \<Rightarrow> r = Some se | Inr q \<Rightarrow> r = None \<and> req c' = q))"

lemma readRequest5_refines:
  assumes r: "at_rest c err d w"
  shows "hs_result c (readRequest5 cf c) err (req5_spec cf err (req c) d) w True"
proof -
  obtain c1 where n: "next_msg StageRequest MaxReplyLen (intp ParseRequest) c
      = Some (c1, parsed StageRequest ParseRequest d err)"
    and r1: "at_rest c1 err (drop (length (taken (parsed StageRequest ParseRequest d err))) d) w"
    and fr: "engine_frame c c1"
    using request.next_at_rest [OF r, of MaxReplyLen StageRequest]
    by (auto simp: MaxReplyLen_262 inSize_def)
  show ?thesis
  proof (cases "parsed StageRequest ParseRequest d err")
    case (Inl e)
    have r1: "at_rest c1 err d w" using r1 Inl by simp
    let ?cq = "c1\<lparr>req := (req c1)\<lparr>rq_Version := V5\<rparr>\<rparr>"
    have "at_rest (replyNow cf ReplyAddressTypeNotSupported ?cq) err d
        (w @ fst (AppendReply [] ReplyAddressTypeNotSupported zeroBound))"
      using replyNow_at_rest [OF at_rest_steps(2) [OF r1, of "(req c1)\<lparr>rq_Version := V5\<rparr>"],
          of cf ReplyAddressTypeNotSupported]
      by (simp add: appendReply_zero)
    then show ?thesis
      using n Inl r1 by (auto simp: readRequest5_def req5_spec_def hs_result_def refines_def)
  next
    case (Inr x)
    obtain cmd a m where x: "x = ((cmd, a), m)" by (metis surj_pair)
    show ?thesis
      using n Inr x at_rest_steps(2) [OF r1] engine_frame_req [OF fr]
      by (auto simp: readRequest5_def req5_spec_def hs_result_def refines_def)
  qed
qed

lemma hs_result_weaken: "hs_result c run err spec w True \<Longrightarrow> hs_result c run err spec w sure"
  by (auto simp: hs_result_def split: prod.splits)

text \<open>The handshake says what it sends, except after an authenticator's error that is no rejection.\<close>

definition hs5_sure :: "sconfig \<Rightarrow> error \<Rightarrow> bytes \<Rightarrow> bool" where
  "hs5_sure cf err d =
     (case parsed StageGreeting (ParseGreeting []) d err of
        Inl e \<Rightarrow> True
      | Inr (methods, m) \<Rightarrow>
          (case choose_auth (cf_auth cf) methods of
             None \<Rightarrow> True
           | Some a \<Rightarrow>
               (case auth5_spec cf err a (drop (length m) d) of (d2, o2, res) \<Rightarrow> auth_failure_sent res)))"

lemma auth_failure_sent_Inr [simp]: "auth_failure_sent (Inr i)"
  by (simp add: auth_failure_sent_def)

lemma handshake5_refines:
  assumes r: "at_rest c err d w"
    and ok: "\<And>a. a \<in> set (cf_auth cf) \<Longrightarrow> auth_ok (Authenticate (cf_sha256 cf) a)"
  shows "hs_result c (handshake5 cf c) err (hs5_spec cf err (req c) d) w (hs5_sure cf err d)"
proof -
  obtain c1 where n: "next_msg StageGreeting (2 + 255) (intp (ParseGreeting [])) c
      = Some (c1, parsed StageGreeting (ParseGreeting []) d err)"
    and r1: "at_rest c1 err (drop (length (taken (parsed StageGreeting (ParseGreeting []) d err))) d) w"
    and fr: "engine_frame c c1"
    using greeting.next_at_rest [OF r, of "2 + 255" StageGreeting "[]"] by (auto simp: inSize_def)
  show ?thesis
  proof (cases "parsed StageGreeting (ParseGreeting []) d err")
    case (Inl e)
    then show ?thesis
      using n r1 by (auto simp: handshake5_def authenticate5_def readGreeting_def hs5_spec_def hs_result_def
          refines_def)
  next
    case (Inr x)
    obtain ms m where x: "x = (ms, m)" by (cases x)
    let ?d1 = "drop (length m) d"
    define c2 where "c2 = hook cf (TGotGreeting ms) (if cf_hooks cf then c1\<lparr>exposed := True\<rparr> else c1)"
    have r1': "at_rest c1 err ?d1 w" using r1 Inr x by simp
    have r2: "at_rest c2 err ?d1 w"
      using at_rest_steps(1,4) r1' by (simp add: c2_def)
    have q2: "req c2 = req c" using engine_frame_req [OF fr] by (simp add: c2_def hook_def)
    have g: "readGreeting cf c = Some (c2, Inr ms)"
      using n Inr x by (simp add: readGreeting_def c2_def)
    show ?thesis
    proof (cases "choose_auth (cf_auth cf) ms")
      case None
      have "at_rest ((queue (out c2 @ [Version5, MethodNoAcceptable]) StageMethodSelection c2)\<lparr>linger := True\<rparr>)
          err ?d1 (w @ [Version5, MethodNoAcceptable])"
        using at_rest_steps(3) [OF at_rest_steps(6) [OF r2]] by simp
      then show ?thesis
        using g None Inr x
        by (auto simp: handshake5_def authenticate5_def hs5_spec_def hs_result_def refines_def
            AppendMethodSelection_def)
    next
      case (Some a)
      let ?m = "auth_Method a"
      define c3 where "c3 = (queue (out c2 @ [Version5, ?m]) StageMethodSelection c2)\<lparr>req := (req c2)\<lparr>rq_Method := ?m\<rparr>\<rparr>"
      have r3: "at_rest c3 err ?d1 (w @ [Version5, ?m])"
        using at_rest_steps(2) [OF at_rest_steps(6) [OF r2]] by (simp add: c3_def)
      have q3: "req c3 = (req c)\<lparr>rq_Method := ?m\<rparr>" by (simp add: c3_def q2)
      have "a \<in> set (cf_auth cf)" using Some by (auto simp: choose_auth_def find_Some_iff)
      note oka = ok [OF this]
      obtain d2 o2 res where sp: "auth5_spec cf err a ?d1 = (d2, o2, res)"
        by (cases "auth5_spec cf err a ?d1")
      obtain c4 where a4: "authenticate (cf_sha256 cf) a c3 = Some (c4, res)"
        and f4: "refines c4 err d2 ((w @ [Version5, ?m]) @ o2) (auth_failure_sent res)" and q4: "req c4 = req c3"
        using authenticate_refines [OF r3 oka sp] by blast
      have c3': "c3 = (let c2' = queue (AppendMethodSelection (out c2) ?m) StageMethodSelection c2
          in c2'\<lparr>req := (req c2')\<lparr>rq_Method := ?m\<rparr>\<rparr>)"
        by (simp add: c3_def AppendMethodSelection_def queue_def wrote_def)
      show ?thesis
      proof (cases res)
        case (Inl e)
        have "refines (hook cf (TAuthDone ?m IdNil (Some e)) c4) err d2 ((w @ [Version5, ?m]) @ o2)
            (auth_failure_sent res)"
          using f4 at_rest_steps(1) unfolding refines_def by blast
        then show ?thesis
          using g Some Inr x a4 Inl sp
          by (simp add: handshake5_def authenticate5_def hs5_spec_def hs_result_def hs5_sure_def Let_def
              flip: c3' [unfolded Let_def])
      next
        case (Inr i)
        let ?c5 = "(hook cf (TAuthDone ?m i None) c4)\<lparr>req := (req (hook cf (TAuthDone ?m i None) c4))\<lparr>rq_Identity := i\<rparr>\<rparr>"
        have "at_rest c4 err d2 ((w @ [Version5, ?m]) @ o2)" using f4 Inr by (simp add: refines_def)
        then have r5: "at_rest ?c5 err d2 ((w @ [Version5, ?m]) @ o2)"
          using at_rest_steps(1,2) by blast
        have q5: "req ?c5 = (req c)\<lparr>rq_Method := ?m, rq_Identity := i\<rparr>"
          using q3 q4 by (simp add: hook_def)
        have a5: "authenticate5 cf c = Some (?c5, None)"
          using g Some a4 Inr by (simp add: authenticate5_def Let_def flip: c3' [unfolded Let_def])
        show ?thesis
          using readRequest5_refines [OF r5, of cf] a5 sp Inr Some x \<open>parsed StageGreeting (ParseGreeting []) d err = Inr x\<close>
          unfolding q5
          by (auto simp: handshake5_def hs5_spec_def hs_result_def hs5_sure_def refines_def split: prod.splits)
      qed
    qed
  qed
qed

lemma ParseRequest4_length:
  assumes "ParseRequest4 b = ((cmd, a, u), n, None)"
  shows "8 + length u \<le> n"
proof -
  obtain k where k: "cstring b 8 FieldUSERID 0 (if is4a b then 2 else 0) = (u, k, None)" "k \<le> n"
    using assms cstring_ok_len [of b _ FieldADDR 1 0]
    by (auto simp: ParseRequest4_ok_iff less_imp_le split: if_splits)
  then obtain i where i: "index0 (drop 8 b) = Some i" "u = slice 8 (8 + i) b" "k = 8 + i + 1"
    by (auto simp: cstring_ok_iff)
  have "length u \<le> i" by (simp add: i slice_def)
  then show ?thesis using i k by simp
qed

lemma clear_uid_at_rest:
  assumes r: "at_rest c err d w" and off: "rpos c - n + 8 + len \<le> rpos c"
  shows "at_rest (clear_uid n len c) err d w"
proof -
  have inv: "conn_inv c" using r by (simp add: at_rest_def)
  note iv = conn_invD [OF inv]
  let ?b = "overwrite (rpos c - n + 8) (replicate len 0) (inBuf c)"
  have "set (drop (max (inUsed c) (rpos c - n + 8 + length (replicate len (0 :: byte)))) ?b) \<subseteq> {0}"
    using iv off by (intro overwrite_zero_above) auto
  moreover have "max (inUsed c) (rpos c - n + 8 + length (replicate len (0 :: byte))) = inUsed c"
    using iv off by simp
  ultimately have z: "set (drop (inUsed c) ?b) \<subseteq> {0}" by simp
  have i: "conn_inv (clear_uid n len c)"
    using iv off z by (intro conn_invI) (simp_all add: clear_uid_def)
  have "drop (rpos c) ?b = drop (rpos c) (inBuf c)"
    using iv off by (intro drop_overwrite) auto
  then have "pending (clear_uid n len c) = pending c"
    by (simp add: pending_def clear_uid_def slice_def)
  then show ?thesis
    using r i by (simp add: at_rest_def undelivered_def clear_uid_def writable_def outgoing_def)
qed

lemma replyNow_rpos: "rpos (replyNow cf rep c) = rpos c"
  by (simp add: replyNow_def hook_def Let_def queue_def wrote_def flush_def net_write_def)

lemma authorize4_at_rest:
  assumes r: "at_rest c err d w" and a: "authorize4 cf cmd uid c = (c', res)"
  shows "at_rest c' err d w \<and> rpos c' = rpos c"
  using a r
  by (auto simp: authorize4_def Let_def intro: at_rest_steps split: if_splits option.splits sum.splits)

lemma handshake4_refines:
  assumes r: "at_rest c err d w"
  shows "hs_result c (handshake4 cf c) err (hs4_spec cf err (req c) d) w True"
proof -
  let ?res = "parsed StageRequest4 ParseRequest4 d err"
  obtain c1 where n: "next_msg StageRequest4 (8 + 256 + 256) (intp ParseRequest4) c = Some (c1, ?res)"
    and r1: "at_rest c1 err (drop (length (taken ?res)) d) w" and fr: "engine_frame c c1"
    using request4.next_at_rest [OF r, of "8 + 256 + 256" StageRequest4] by (auto simp: inSize_def)
  show ?thesis
  proof (cases ?res)
    case (Inl e)
    then show ?thesis
      using n r1 by (auto simp: handshake4_def hs4_spec_def hs_result_def refines_def)
  next
    case (Inr x)
    obtain cmd a u m where x: "x = ((cmd, a, u), m)" by (metis surj_pair)
    have "\<exists>k. ParseRequest4 d = ((cmd, a, u), k, None) \<and> m = take k d"
      using Inr x by (auto simp: parsed_def split: prod.splits option.splits)
    then obtain k where k: "ParseRequest4 d = ((cmd, a, u), k, None)" "m = take k d" by blast
    have len: "8 + length u \<le> length m"
      using ParseRequest4_length [OF k(1)] request4.ok_len [OF k(1)] k(2) by simp
    have "\<exists>c' res'. next_msg StageRequest4 520 (intp ParseRequest4) c = Some (c', res') \<and> next_post c c' res'"
      using r by (intro next_total) (simp_all add: at_rest_def inSize_def)
    then have "next_post c c1 ?res" using n by auto
    then have rp: "length m \<le> rpos c1" using Inr x by (simp add: next_post_def)
    let ?d1 = "drop (length m) d"
    define c2 where "c2 = c1\<lparr>req := (req c1)\<lparr>rq_Version := V4, rq_Command := cmd, rq_Addr := a,
                           rq_Method := MethodNoAuth\<rparr>\<rparr>"
    have r2: "at_rest c2 err ?d1 w" using at_rest_steps(2) r1 Inr x by (simp add: c2_def)
    have q2: "req c2 = (req c)\<lparr>rq_Version := V4, rq_Command := cmd, rq_Addr := a, rq_Method := MethodNoAuth\<rparr>"
      using engine_frame_req [OF fr] by (simp add: c2_def)
    obtain c3 res where a3: "authorize4 cf cmd u c2 = (c3, res)" by (cases "authorize4 cf cmd u c2")
    have r3: "at_rest c3 err ?d1 w" and rp3: "rpos c3 = rpos c2"
      using authorize4_at_rest [OF r2 a3] by simp_all
    have rp3: "length m \<le> rpos c3" using rp rp3 by (simp add: c2_def)
    have run: "handshake4 cf c =
        Some (case res of Some e \<Rightarrow> (clear_uid (length m) (length u) (replyNow cf Reply4Rejected c3), Some (StageRequest4, e))
              | None \<Rightarrow> (clear_uid (length m) (length u) c3, None))"
      using n Inr x a3 by (simp add: handshake4_def c2_def split: option.splits)
    have v3: "rq_Version (req c3) = V4"
      using a3 q2 by (auto simp: authorize4_def Let_def hook_def split: if_splits option.splits sum.splits)
    let ?refuse = "w @ fst (AppendReply4 [] Reply4Rejected zeroAddr)"
    have no: "at_rest (clear_uid (length m) (length u) (replyNow cf Reply4Rejected c3)) err ?d1 ?refuse"
      using clear_uid_at_rest [OF replyNow_at_rest [OF r3, of cf Reply4Rejected]] rp3 len
      by (simp add: replyNow_rpos v3 appendReply_zero)
    have yes: "at_rest (clear_uid (length m) (length u) c3) err ?d1 w"
      using clear_uid_at_rest [OF r3] rp3 len by simp
    have q: "req (clear_uid k' l' c') = req c'" for k' l' c' by (simp add: clear_uid_def)
    show ?thesis
      using run no yes a3 q2 Inr x
      by (auto simp: hs4_spec_def hs_result_def refines_def authorize4_def Let_def q hook_def
          split: if_splits option.splits sum.splits)
  qed
qed

lemma fill_at_rest:
  assumes r: "at_rest c err d w" and need: "need \<le> inSize"
  shows "\<exists>c' res. fill need c = Some (c', res) \<and> at_rest c' err d w \<and> req c' = req c \<and> rpos c' \<le> rpos c \<and>
    (case res of None \<Rightarrow> need \<le> length (pending c')
     | Some e \<Rightarrow> e = err \<and> length d < need)"
proof -
  have inv: "conn_inv c" "lastMsg c = (0, 0)" using r by (simp_all add: at_rest_def)
  obtain c' res where f: "fill need c = Some (c', res)" "fill_post need c c' res"
    using fill_spec [OF inv need] by blast
  have r': "at_rest c' err d w"
    using r f(2) fill_post_writes [OF f(2)]
    unfolding at_rest_def fill_post_def engine_frame_def by (simp add: outgoing_def)
  have i': "conn_inv c'" using r' by (simp add: at_rest_def)
  have "e = err \<and> length d < need" if "res = Some e" for e
  proof -
    have re: "readErr c' = Some e" and short: "wpos c' - rpos c' < need"
      using f(2) r that unfolding fill_post_def at_rest_def by auto
    have "rd c' = Stop [] e" using conn_invD(8) [OF i' re] .
    then show ?thesis
      using r' short length_pending [OF i'] by (auto simp: at_rest_def undelivered_def)
  qed
  moreover have "need \<le> length (pending c')" if "res = None"
    using f(2) that length_pending [OF i'] unfolding fill_post_def by simp
  moreover have "req c' = req c \<and> rpos c' \<le> rpos c" using f(2) by (simp add: fill_post_def engine_frame_def)
  ultimately show ?thesis using f(1) r' by (auto split: option.splits)
qed

text \<open>For which handshakes the spec's output is exact.\<close>

definition hs_sure :: "sconfig \<Rightarrow> error \<Rightarrow> bytes \<Rightarrow> bool" where
  "hs_sure cf err d = (case d of [] \<Rightarrow> True | v # _ \<Rightarrow> v = Version5 \<and> cf_v5 cf \<longrightarrow> hs5_sure cf err d)"

lemma negotiate_refines:
  assumes r: "at_rest c err d w" and r0: "rpos c = 0"
    and ok: "\<And>a. a \<in> set (cf_auth cf) \<Longrightarrow> auth_ok (Authenticate (cf_sha256 cf) a)"
  shows "hs_result c (negotiate cf c) err (hs_spec cf err (req c) d) w (hs_sure cf err d)"
proof -
  obtain c1 res where f: "fill 1 c = Some (c1, res)" "at_rest c1 err d w" "req c1 = req c" "rpos c1 = 0"
    "case res of None \<Rightarrow> 1 \<le> length (pending c1) | Some e \<Rightarrow> e = err \<and> length d < 1"
    using fill_at_rest [OF r, of 1] r0 by (auto simp: inSize_def)
  show ?thesis
  proof (cases res)
    case (Some e)
    then show ?thesis
      using f by (auto simp: negotiate_def hs_spec_def hs_result_def refines_def)
  next
    case None
    have "1 \<le> length (pending c1)" using f(5) None by simp
    moreover have "d = pending c1 @ stream_bytes (rd c1)"
      using f(2) by (simp add: at_rest_def undelivered_def)
    moreover have "pending c1 ! 0 = inBuf c1 ! 0"
      using \<open>1 \<le> length (pending c1)\<close> by (simp add: pending_def f(4) slice_def)
    ultimately obtain ds where d: "d = inBuf c1 ! 0 # ds"
      by (cases "pending c1") auto
    have n: "negotiate cf c =
        (if inBuf c1 ! 0 = Version5 \<and> cf_v5 cf then handshake5 cf c1
         else if inBuf c1 ! 0 = Version4 \<and> cf_v4 cf then handshake4 cf c1
         else Some (c1, Some (StageGreeting, EProtocol StageGreeting FieldVER (inBuf c1 ! 0) [] None)))"
      using f(1) None by (simp add: negotiate_def Let_def)
    have s: "hs_sure cf err d = (inBuf c1 ! 0 = Version5 \<and> cf_v5 cf \<longrightarrow> hs5_sure cf err d)"
      by (simp add: hs_sure_def d)
    consider (five) "inBuf c1 ! 0 = Version5 \<and> cf_v5 cf"
      | (four) "\<not> (inBuf c1 ! 0 = Version5 \<and> cf_v5 cf)" "inBuf c1 ! 0 = Version4 \<and> cf_v4 cf"
      | (other) "\<not> (inBuf c1 ! 0 = Version5 \<and> cf_v5 cf)" "\<not> (inBuf c1 ! 0 = Version4 \<and> cf_v4 cf)" by blast
    then show ?thesis
    proof cases
      case five
      then show ?thesis
        using handshake5_refines [OF f(2) ok] f(3) n s
        by (simp add: hs_spec_def d hs_result_def)
    next
      case four
      have e1: "negotiate cf c = handshake4 cf c1"
        unfolding n if_not_P [OF four(1)] if_P [OF four(2)] ..
      have e2: "hs_spec cf err (req c) d = hs4_spec cf err (req c1) d"
        by (simp only: hs_spec_def d list.case if_not_P [OF four(1)] if_P [OF four(2)] f(3))
      show ?thesis
        unfolding e1 e2 using hs_result_weaken [OF handshake4_refines [OF f(2), of cf]]
        unfolding hs_result_def .
    next
      case other
      then show ?thesis
        using f(2) n by (auto simp: hs_spec_def d hs_result_def refines_def)
    qed
  qed
qed

text \<open>The whole handshake of a fresh connection.\<close>

definition req0 :: "prefix list \<Rightarrow> netaddr \<Rightarrow> netaddr \<Rightarrow> request" where
  "req0 self local remote =
     zeroRequest\<lparr>rq_self := Some self, rq_LocalAddr := local, rq_RemoteAddr := remote\<rparr>"

lemma zeroIn_zero: "set (drop 0 zeroIn) \<subseteq> {0}"
  by (auto simp: zeroIn_def)

lemma beginHandshake_at_rest:
  assumes "set ws \<subseteq> {None}"
  shows "at_rest (beginHandshake cf local remote (newConn self s ws cw)) (stream_end s) (stream_bytes s) []
    \<and> req (beginHandshake cf local remote (newConn self s ws cw)) = req0 self local remote
    \<and> rpos (beginHandshake cf local remote (newConn self s ws cw)) = 0"
proof -
  let ?c = "beginHandshake cf local remote (newConn self s ws cw)"
  have "conn_inv ?c"
    using zeroIn_zero
    by (intro conn_invI)
      (auto simp add: beginHandshake_def newConn_def net_op_def zeroIn_def inSize_def Let_def split: if_splits)
  then show ?thesis
    using assms
    by (simp add: at_rest_def beginHandshake_def newConn_def net_op_def writable_def undelivered_def
        pending_def outgoing_def req0_def Let_def)
qed

lemma handshake_refines:
  assumes w: "set ws \<subseteq> {None}"
    and ok: "\<And>a. a \<in> set (cf_auth cf) \<Longrightarrow> auth_ok (Authenticate (cf_sha256 cf) a)"
  shows "hs_result c (handshake cf local remote (newConn self s ws cw)) (stream_end s)
    (hs_spec cf (stream_end s) (req0 self local remote) (stream_bytes s)) []
    (hs_sure cf (stream_end s) (stream_bytes s))"
proof -
  let ?c = "beginHandshake cf local remote (newConn self s ws cw)"
  let ?sure = "hs_sure cf (stream_end s) (stream_bytes s)"
  note b = beginHandshake_at_rest [OF w, of cf local remote self s cw]
  obtain d' w' res where sp: "hs_spec cf (stream_end s) (req0 self local remote) (stream_bytes s) = (d', w', res)"
    by (cases "hs_spec cf (stream_end s) (req0 self local remote) (stream_bytes s)")
  obtain c1 r where n: "negotiate cf ?c = Some (c1, r)"
    and f: "refines c1 (stream_end s) d' ([] @ w') ?sure"
    and rr: "case res of Inl se \<Rightarrow> r = Some se | Inr q \<Rightarrow> r = None \<and> req c1 = q"
    using negotiate_refines [of ?c "stream_end s" "stream_bytes s" "[]" cf] b ok sp
    by (auto simp: hs_result_def)
  obtain w1 z where r1: "at_rest c1 (stream_end s) d' w1" "w' = w1 @ z" "?sure \<longrightarrow> z = []"
    using f by (auto simp: refines_def)
  have we: "writeErr c' = None" if "at_rest c' x y z" for c' x y z
    using that by (simp add: at_rest_def writable_def)
  show ?thesis
  proof (cases r)
    case (Some se)
    then have "handshake cf local remote (newConn self s ws cw) = Some (c1, Some se)"
      using n we [OF r1(1)] by (simp add: handshake_def)
    then show ?thesis
      using rr Some f sp by (auto simp: hs_result_def split: sum.splits)
  next
    case None
    obtain c2 where c2: "flush c1 = (c2, None)" "at_rest c2 (stream_end s) d' w1" "out c2 = []" "req c2 = req c1"
      using at_rest_flush [OF r1(1)] by blast
    let ?c3 = "if cf_timeout cf then net_op (NDeadline DlBoth False) c2 else c2"
    have "handshake cf local remote (newConn self s ws cw) = Some (?c3, None)"
      using n None c2(1) we [OF c2(2)] by (simp add: handshake_def)
    moreover have "at_rest ?c3 (stream_end s) d' w1" using at_rest_steps(7) c2(2) by simp
    moreover have "req ?c3 = req c1" using c2(4) by (simp add: net_op_def)
    ultimately show ?thesis
      using rr None r1(2,3) sp unfolding hs_result_def refines_def by (auto split: sum.splits)
  qed
qed

lemma req5_spec_result: "req5_spec cf err q d = (d', o1, Inr q') \<Longrightarrow>
    rq_Method q' = rq_Method q \<and> rq_Identity q' = rq_Identity q \<and> rq_Version q' = V5"
  by (auto simp: req5_spec_def split: sum.splits prod.splits)

lemma hs_spec_ok_sure: "hs_spec cf err q d = (d', w', Inr q') \<Longrightarrow> hs_sure cf err d"
  by (auto simp: hs_spec_def hs_sure_def hs5_spec_def hs5_sure_def Let_def
      split: list.splits if_splits sum.splits prod.splits option.splits)

lemma handshake_flushed:
  assumes "handshake cf local remote c = Some (c', None)"
  shows "out c' = []"
proof -
  obtain c1 r where n: "negotiate cf (beginHandshake cf local remote c) = Some (c1, r)"
    using assms by (cases "negotiate cf (beginHandshake cf local remote c)") (auto simp: handshake_def)
  have "r = None"
    using assms n by (cases r) (auto simp: handshake_def split: option.splits)
  moreover obtain c2 e where f: "flush c1 = (c2, e)" by (cases "flush c1")
  ultimately show ?thesis
    using assms n flush_result [OF f]
    by (auto simp: handshake_def net_op_def split: option.splits if_splits)
qed

lemma handshake_done:
  assumes "set ws \<subseteq> {None}"
    and "\<forall>a \<in> set (cf_auth cf). auth_ok (Authenticate (cf_sha256 cf) a)"
    and "hs_spec cf (stream_end s) (req0 self local remote) (stream_bytes s) = (rest, sent, Inr q)"
  shows "\<exists>c'. handshake cf local remote (newConn self s ws cw) = Some (c', None) \<and> req c' = q \<and>
    undelivered c' = rest \<and> written (net c') = sent \<and> out c' = [] \<and> conn_inv c'"
proof -
  obtain c' where c': "handshake cf local remote (newConn self s ws cw) = Some (c', None)" "req c' = q"
    "at_rest c' (stream_end s) rest sent"
    using handshake_refines [OF assms(1), of cf c local remote self s cw] assms(2,3) hs_spec_ok_sure [OF assms(3)]
    by (auto simp: hs_result_def refines_def)
  then show ?thesis
    using handshake_flushed [OF c'(1)] by (auto simp: at_rest_def outgoing_def)
qed

text \<open>C1: The server's handshake is a function of the client's byte string. When no write fails and the
  authenticators keep the Parse contract, then however the bytes arrive (one by one, pipelined
  in one segment, with the stream's end glued to the last bytes or not) the handshake returns,
  and if the specification on the byte string accepts with request \<open>q\<close>, the handshake accepts with
  the same request, has written exactly the specified bytes, has nothing left queued, and leaves
  every byte after the request to be delivered.\<close>

theorem handshake_accepts:
  assumes "set ws \<subseteq> {None}"
    and "\<forall>a \<in> set (cf_auth cf). auth_ok (Authenticate (cf_sha256 cf) a)"
    and "hs_spec cf (stream_end s) (req0 self local remote) (stream_bytes s) = (rest, sent, Inr q)"
  shows "\<exists>c'. handshake cf local remote (newConn self s ws cw) = Some (c', None) \<and> req c' = q \<and>
    undelivered c' = rest \<and> written (net c') = sent \<and> out c' = [] \<and> conn_inv c'"
  by (rule handshake_done [OF assms])

lemma handshake_refused:
  assumes "set ws \<subseteq> {None}"
    and "\<forall>a \<in> set (cf_auth cf). auth_ok (Authenticate (cf_sha256 cf) a)"
    and "hs_spec cf (stream_end s) (req0 self local remote) (stream_bytes s) = (rest, sent, Inl se)"
  shows "\<exists>c' z. handshake cf local remote (newConn self s ws cw) = Some (c', Some se) \<and>
    undelivered c' = rest \<and> conn_inv c' \<and> writable c' \<and> sent = outgoing c' @ z \<and>
    (hs_sure cf (stream_end s) (stream_bytes s) \<longrightarrow> z = [])"
  using handshake_refines [OF assms(1), of cf c local remote self s cw] assms(2,3)
  by (auto simp: hs_result_def refines_def at_rest_def)

lemma flush_outgoing: "writable c \<Longrightarrow> written (net (fst (flush c))) = outgoing c \<and> out (fst (flush c)) = []"
  using flush_writable [of c] by (auto simp: outgoing_def)

text \<open>C2: When the specification refuses, the handshake fails at the same stage with the same error. Once \<open>serve\<close>
  has flushed the conn, as it does after every failed handshake, the bytes the client was sent are a prefix of the
  specified refusal, and they are all of it unless an authenticator failed with an error that is no
  rejection (\<open>hs_sure\<close>): such an authenticator's own last bytes are cut from the queue, where they still are there.\<close>

theorem handshake_refuses:
  assumes "set ws \<subseteq> {None}"
    and "\<forall>a \<in> set (cf_auth cf). auth_ok (Authenticate (cf_sha256 cf) a)"
    and "hs_spec cf (stream_end s) (req0 self local remote) (stream_bytes s) = (rest, sent, Inl se)"
  shows "\<exists>c' z. handshake cf local remote (newConn self s ws cw) = Some (c', Some se) \<and>
    undelivered c' = rest \<and> conn_inv c' \<and> out (fst (flush c')) = [] \<and>
    sent = written (net (fst (flush c'))) @ z \<and>
    (hs_sure cf (stream_end s) (stream_bytes s) \<longrightarrow> z = [])"
  using handshake_refused [OF assms] flush_outgoing by metis

definition openConfig :: sconfig where
  "openConfig = \<lparr>cf_v4 = False, cf_v5 = True, cf_auth = [NoAuth], cf_builtinNoAuth = True,
     cf_timeout = True, cf_UserID = None, cf_Allow = None, cf_hooks = False, cf_sha256 = id\<rparr>"

lemma handshake_accepts_witness:
  "\<exists>c'. handshake openConfig NilAddr NilAddr
      (newConn [] (Chunk [5, 1] (Chunk [0, 5, 1, 0] (Chunk [1, 1, 2, 3, 4, 0] (Stop [80, 9] (ESent IoEOF))))) [] None)
      = Some (c', None) \<and> undelivered c' = [9] \<and> written (net c') = [5, 0]"
proof -
  have s: "hs_spec openConfig (ESent IoEOF) (req0 [] NilAddr NilAddr) [5, 1, 0, 5, 1, 0, 1, 1, 2, 3, 4, 0, 80, 9]
      = ([9], [5, 0], Inr ((req0 [] NilAddr NilAddr)\<lparr>rq_Method := 0, rq_Identity := IdNil, rq_Version := V5,
          rq_Command := 1, rq_Addr := ipAddr (AddrFrom4 [1, 2, 3, 4]) 80\<rparr>))"
    by (simp add: hs_spec_def hs5_spec_def openConfig_def parsed_def ParseGreeting_def checkVersion_def
        Version5_def slice_def choose_auth_def method_defs auth5_spec_def req5_spec_def ParseRequest_def
        parseAddrMessage_def addrMessageLen_def addrAt_def atyp_defs word_of_be_def)
  show ?thesis
    using handshake_accepts [where cf = openConfig and self = "[]" and local = NilAddr and remote = NilAddr
        and ws = "[]" and cw = None
        and s = "Chunk [5, 1] (Chunk [0, 5, 1, 0] (Chunk [1, 1, 2, 3, 4, 0] (Stop [80, 9] (ESent IoEOF))))"
        and rest = "[9]" and sent = "[5, 0]"
        and q = "(req0 [] NilAddr NilAddr)\<lparr>rq_Method := 0, rq_Identity := IdNil, rq_Version := V5,
          rq_Command := 1, rq_Addr := ipAddr (AddrFrom4 [1, 2, 3, 4]) 80\<rparr>"] s
    by (auto simp: openConfig_def Authenticate_def)
qed

lemma handshake_refuses_witness:
  "\<exists>c'. handshake openConfig NilAddr NilAddr (newConn [] (Chunk [5] (Stop [1, 2] (ESent IoEOF))) [] None)
      = Some (c', Some (StageGreeting, EMethodServer [2])) \<and> written (net (fst (flush c'))) = [5, 255]"
proof -
  have s: "hs_spec openConfig (ESent IoEOF) (req0 [] NilAddr NilAddr) [5, 1, 2]
      = ([], [5, 255], Inl (StageGreeting, EMethodServer [2]))"
    "hs_sure openConfig (ESent IoEOF) [5, 1, 2]"
    by (simp_all add: hs_spec_def hs5_spec_def openConfig_def parsed_def ParseGreeting_def checkVersion_def
        Version5_def slice_def choose_auth_def method_defs hs_sure_def hs5_sure_def)
  show ?thesis
    using handshake_refuses [where cf = openConfig and self = "[]" and local = NilAddr and remote = NilAddr
        and ws = "[]" and cw = None and s = "Chunk [5] (Stop [1, 2] (ESent IoEOF))"
        and rest = "[]" and sent = "[5, 255]" and se = "(StageGreeting, EMethodServer [2])"] s
    by (auto simp: openConfig_def Authenticate_def)
qed

section \<open>No way round authentication\<close>

text \<open>The bytes of the two messages a client sends before its request.\<close>

lemma parsed_Inr: "parsed st p d err = Inr (v, m) \<longleftrightarrow> (\<exists>n. p d = (v, n, None) \<and> m = take n d)"
  by (auto simp: parsed_def split: prod.splits option.splits)

lemma greeting_bytes:
  assumes "ParseGreeting [] d = (ms, n, None)"
  shows "take n d = [Version5, word_of_nat (length ms)] @ ms"
proof -
  note g = assms [unfolded ParseGreeting_ok_iff]
  obtain x y zs where d: "d = x # y # zs" using g by (auto simp: numeral_2_eq_2 Suc_le_length_iff)
  then have "length ms = unat y" "ms = take (unat y) zs" using g by (auto simp: slice_def)
  then show ?thesis using g d by simp
qed

lemma userpass_bytes:
  assumes "ParseUserPass d = ((user, pass), n, None)"
  shows "take n d = [UserPassVersion, word_of_nat (length user)] @ user @ [word_of_nat (length pass)] @ pass
    \<and> length pass \<le> 255"
proof -
  note g = assms [unfolded ParseUserPass_ok_iff Let_def]
  obtain x y zs where d: "d = x # y # zs" using g by (auto simp: numeral_2_eq_2 Suc_le_length_iff)
  let ?p = "drop (unat y) zs"
  have u: "user = take (unat y) zs" "length user = unat y" using g d by (auto simp: slice_def)
  obtain l qs where q: "?p = l # qs" using g d by (cases ?p) auto
  have l: "l = d ! (2 + unat (d ! 1))" using nth_via_drop [OF q] d by simp
  have "drop (Suc (unat y)) zs = drop 1 ?p" by (simp only: drop_drop) simp
  then have "drop (Suc (unat y)) zs = qs" using q by simp
  then have p: "pass = take (unat l) qs" "length pass = unat l" using g d l by (auto simp: slice_def)
  have "take n d = x # y # take (unat y) zs @ l # take (unat l) qs"
  proof -
    have "n = Suc (Suc (Suc (unat y + unat l)))" using g d l by simp
    then have "take n d = x # y # take (unat y) zs @ take (Suc (unat l)) ?p"
      using d take_add [of "unat y" "Suc (unat l)" zs] by simp
    then show ?thesis using q by simp
  qed
  then show ?thesis using g d u p byte_lt_256 [of l] by simp
qed

lemma userpass_spec_ok:
  assumes "auth_spec (userpass_prog h u) err d = (d', w', Inr i)" and "up_Check u = None"
  shows "\<exists>user pass n. ParseUserPass d = ((user, pass), n, None) \<and> verify h u user pass
    \<and> i = IdString (string_of user) \<and> d' = drop n d"
proof (cases "parsed StageAuth (natp parseUserPass) d err")
  case (Inl e)
  then show ?thesis using assms by (simp add: userpass_prog_def)
next
  case (Inr vm)
  obtain m where m: "vm = ((), m)" by (cases vm) simp
  obtain user pass n where p: "ParseUserPass d = ((user, pass), n, None)" "m = take n d"
    using Inr m by (auto simp: parsed_Inr natp_def parseUserPass_def split: prod.splits)
  then have "ParseUserPass m = ((user, pass), n, None)" "length m = n"
    using userpass.ok_prefix [OF p(1), of "[]"] userpass.ok_len [OF p(1)] by simp_all
  then show ?thesis
    using assms Inr m p(1)
    by (auto simp: userpass_prog_def up_identify_def up_finish_def split: if_splits)
qed

text \<open>C3: With a user list as the only authenticator, and no \<open>UserID\<close>, nobody gets a request through without the
  password of a listed user: not by SOCKS5 with another method, and not by SOCKS4. If the handshake accepts, the
  client's bytes are a greeting that offers user/password, then the message with a user name and a password, then the
  rest; that user is in the list and that password is the listed one, or a different one with the same SHA-256 hash
  of the padded password; and the request carries that user's name as its identity.\<close>

theorem no_authentication_bypass:
  assumes "set ws \<subseteq> {None}"
    and "cf_auth cf = [UserPass u]" and "up_Check u = None"
    and "cf_UserID cf = None" and "\<not> cf_builtinNoAuth cf"
    and "handshake cf local remote (newConn self s ws cw) = Some (c', None)"
  shows "rq_Version (req c') = V5 \<and> rq_Method (req c') = MethodUserPass \<and>
    (\<exists>methods user pass rest want.
       stream_bytes s = [Version5, word_of_nat (length methods)] @ methods
         @ [UserPassVersion, word_of_nat (length user)] @ user @ [word_of_nat (length pass)] @ pass @ rest
       \<and> MethodUserPass \<in> set methods
       \<and> map_of (up_Users u) (string_of user) = Some want
       \<and> (pass = bytes_of want
          \<or> padded pass \<noteq> padded (bytes_of want) \<and> cf_sha256 cf (padded pass) = cf_sha256 cf (padded (bytes_of want)))
       \<and> rq_Identity (req c') = IdString (string_of user))"
proof -
  have ok: "auth_ok (Authenticate (cf_sha256 cf) a)" if "a \<in> set (cf_auth cf)" for a
    using that assms(2) userpass_ok by (simp add: Authenticate_def)
  obtain d' w' res where sp: "hs_spec cf (stream_end s) (req0 self local remote) (stream_bytes s) = (d', w', res)"
    by (cases "hs_spec cf (stream_end s) (req0 self local remote) (stream_bytes s)")
  then have "\<exists>q. res = Inr q \<and> req c' = q"
    using handshake_refines [OF assms(1) ok, where local = local and remote = remote and self = self
        and s = s and cw = cw] assms(6)
    by (auto simp: hs_result_def split: sum.splits)
  then have sp: "hs_spec cf (stream_end s) (req0 self local remote) (stream_bytes s) = (d', w', Inr (req c'))"
    using sp by simp
  have four: "hs4_spec cf err q d \<noteq> (d', w', Inr q')" for err q d q'
    using assms(4,5) by (auto simp: hs4_spec_def Let_def split: sum.splits)
  have five: "hs5_spec cf (stream_end s) (req0 self local remote) (stream_bytes s) = (d', w', Inr (req c'))"
    using sp four by (auto simp: hs_spec_def split: list.splits if_splits)
  then obtain ms m d2 o2 i o3 where g: "parsed StageGreeting (ParseGreeting []) (stream_bytes s) (stream_end s) = Inr (ms, m)"
    and mm: "MethodUserPass \<in> set ms"
    and a: "auth5_spec cf (stream_end s) (UserPass u) (drop (length m) (stream_bytes s)) = (d2, o2, Inr i)"
    and r: "req5_spec cf (stream_end s) ((req0 self local remote)\<lparr>rq_Method := MethodUserPass, rq_Identity := i\<rparr>) d2
      = (d', o3, Inr (req c'))"
    using assms(2)
    by (auto simp: hs5_spec_def Let_def choose_auth_def split: sum.splits prod.splits option.splits if_splits)
  obtain n where n: "ParseGreeting [] (stream_bytes s) = (ms, n, None)" "m = take n (stream_bytes s)"
    using g by (auto simp: parsed_Inr)
  have ln: "length m = n" using greeting.ok_len [OF n(1)] n(2) by simp
  have "auth_spec (userpass_prog (cf_sha256 cf) u) (stream_end s) (drop n (stream_bytes s)) = (d2, o2, Inr i)"
    using a ln by (simp add: auth5_spec_def Authenticate_def)
  from userpass_spec_ok [OF this assms(3)] obtain user pass k
    where up: "ParseUserPass (drop n (stream_bytes s)) = ((user, pass), k, None)" "verify (cf_sha256 cf) u user pass"
      "i = IdString (string_of user)" "d2 = drop k (drop n (stream_bytes s))" by blast
  have "stream_bytes s = take n (stream_bytes s) @ take k (drop n (stream_bytes s)) @ d2"
    unfolding up(4) by (simp only: append_take_drop_id)
  then have bytes: "stream_bytes s = [Version5, word_of_nat (length ms)] @ ms
      @ [UserPassVersion, word_of_nat (length user)] @ user @ [word_of_nat (length pass)] @ pass @ d2"
    unfolding greeting_bytes [OF n(1)] conjunct1 [OF userpass_bytes [OF up(1)]] by simp
  obtain want where want: "map_of (up_Users u) (string_of user) = Some want" "length want \<le> 255"
    "cf_sha256 cf (padded pass) = cf_sha256 cf (padded (bytes_of want))"
    using up(2) by (auto simp: verify_def Let_def)
  then have "pass = bytes_of want \<or> padded pass \<noteq> padded (bytes_of want)"
    using padded_inj [of pass "bytes_of want"] userpass_bytes [OF up(1)] by auto
  then show ?thesis
    using req5_spec_result [OF r] bytes mm want up(3) by (auto simp del: append_Cons)
qed

definition pwConfig :: sconfig where
  "pwConfig = openConfig\<lparr>cf_v4 := True, cf_builtinNoAuth := False,
     cf_auth := [UserPass \<lparr>up_Users = [(''a'', ''b'')], up_Check = None\<rparr>]\<rparr>"

lemma char_of_97: "char_of (97 :: nat) = CHR ''a''"
  by code_simp

lemma no_authentication_bypass_witness:
  "\<exists>c'. handshake pwConfig NilAddr NilAddr
      (newConn [] (Stop [5, 1, 2, 1, 1, 97, 1, 98, 5, 1, 0, 1, 1, 2, 3, 4, 0, 80] (ESent IoEOF)) [] None)
      = Some (c', None) \<and> rq_Method (req c') = MethodUserPass"
proof -
  let ?s = "Stop [5, 1, 2, 1, 1, 97, 1, 98, 5, 1, 0, 1, 1, 2, 3, 4, 0, 80] (ESent IoEOF)"
  have ids: "string_of [97] = ''a''" "padded (bytes_of ''b'') = padded [98]"
    by (simp_all add: string_of_def char_of_byte_def bytes_of_def byte_of_char_def char_of_97)
  have s: "\<exists>q. hs_spec pwConfig (ESent IoEOF) (req0 [] NilAddr NilAddr)
      [5, 1, 2, 1, 1, 97, 1, 98, 5, 1, 0, 1, 1, 2, 3, 4, 0, 80] = ([], [5, 2, 1, 0], Inr q)"
    by (simp add: hs_spec_def hs5_spec_def pwConfig_def openConfig_def parsed_def ParseGreeting_def checkVersion_def
        Version5_def UserPassVersion_def slice_def choose_auth_def method_defs auth5_spec_def req5_spec_def
        ParseRequest_def parseAddrMessage_def addrMessageLen_def addrAt_def atyp_defs Authenticate_def
        userpass_prog_def natp_def parseUserPass_def ParseUserPass_def up_identify_def up_finish_def verify_def ids
        statusOK_def)
  have "\<forall>a \<in> set (cf_auth pwConfig). auth_ok (Authenticate (cf_sha256 pwConfig) a)"
    by (simp add: pwConfig_def Authenticate_def userpass_ok)
  then obtain c' where c': "handshake pwConfig NilAddr NilAddr (newConn [] ?s [] None) = Some (c', None)"
    using handshake_refines [of "[]" pwConfig, where local = NilAddr and remote = NilAddr and self = "[]"
        and s = ?s and cw = None] s
    by (auto simp: hs_result_def)
  have "rq_Method (req c') = MethodUserPass"
    using no_authentication_bypass [OF _ _ _ _ _ c', of "\<lparr>up_Users = [(''a'', ''b'')], up_Check = None\<rparr>"]
    by (simp add: pwConfig_def openConfig_def)
  then show ?thesis using c' by blast
qed

section \<open>Two corners of AuthConn.Write\<close>

text \<open>A message of 1025 bytes written by an authenticator goes out before a single byte it wrote
  earlier and that is still queued: the test for flushing counts 1026 bytes, the one for writing
  directly 1025, so the client sees the two writes in the wrong order.\<close>

theorem auth_Write_out_of_order:
  assumes "authenticating c" and "writable c" and "out c = [x]" and "length b = maxAuthMsg + 1"
  shows "outgoing (auth_Write b c) = written (net c) @ b @ [x]"
  using assms
  by (cases "writes c")
    (simp_all add: auth_Write_def auth_put_def net_write_def outgoing_def writable_def maxAuthMsg_def)

lemma auth_Write_out_of_order_witness:
  "\<exists>b. outgoing (auth_Write b ((newConn [] (Stop [] (ESent IoEOF)) [] None)
     \<lparr>authenticating := True, out := [7]\<rparr>)) = b @ [7] \<and> b \<noteq> []"
  using auth_Write_out_of_order [of "(newConn [] (Stop [] (ESent IoEOF)) [] None)\<lparr>authenticating := True, out := [7]\<rparr>"
      7 "replicate (maxAuthMsg + 1) 0"]
  by (intro exI [of _ "replicate (maxAuthMsg + 1) 0"]) (simp add: newConn_def writable_def)

text \<open>An authenticator that answers after reading a byte, and fails for a reason of its own.\<close>

definition lateProg :: auth_prog where
  "lateProg =
     ARead False (\<lambda>b. (1, if b = [] then Some (ESent ErrIncomplete) else None))
       (\<lambda>m. AWrite [1, 1] (ADone (Inl (EStr ''backend down''))))"

definition lateConn :: conn where
  "lateConn = (newConn [] (Stop [7] (ESent IoEOF)) [] None)\<lparr>hasBuf := True, out := [5, 0x80]\<rparr>"

text \<open>Only rejections are meant to send what an authenticator queued: any other error cuts the
  queue back to the length it had before. But when the authenticator had waited for the client
  in between, the selection had been flushed, so the cut keeps the first two bytes the
  authenticator itself queued. Here an authenticator that reads a byte, queues \<open>01 01\<close> and fails
  because its backend is down has those two bytes sent to the client.\<close>

theorem unrejected_failure_is_sent:
  "\<exists>c'. authenticate id (Custom 0x80 lateProg) lateConn = Some (c', Inl (EStr ''backend down'')) \<and>
     written (net c') = [5, 0x80] \<and> out c' = [1, 1] \<and> written (net (fst (flush c'))) = [5, 0x80, 1, 1]"
proof -
  have n: "\<exists>c1. next_msg StageAuth maxAuthMsg (unitp (\<lambda>b. (1, if b = [] then Some (ESent ErrIncomplete) else None)))
     (clearLastMsg (lateConn\<lparr>authenticating := True\<rparr>)) = Some (c1, Inr ((), [7])) \<and> out c1 = [] \<and> written (net c1) = [5, 0x80]
     \<and> authenticating c1 \<and> writes c1 = [] \<and> writeErr c1 = None"
    by (subst next_msg.simps, subst next_msg.simps, subst fill.simps, subst fill.simps)
      (simp add: lateConn_def newConn_def clearLastMsg_def pending_def unitp_def maxAuthMsg_def flush_def net_write_def
        compact_def fill_read_def buffers_read_def inSize_def overwrite_def zeroIn_def slice_def)
  then obtain c1 where c1: "next_msg StageAuth maxAuthMsg (unitp (\<lambda>b. (1, if b = [] then Some (ESent ErrIncomplete) else None)))
     (clearLastMsg (lateConn\<lparr>authenticating := True\<rparr>)) = Some (c1, Inr ((), [7]))" "out c1 = []" "written (net c1) = [5, 0x80]"
     "authenticating c1" "writes c1 = []" "writeErr c1 = None" by blast
  let ?c2 = "c1\<lparr>lastMsg := (rpos c1 - 1, rpos c1)\<rparr>"
  have "readMessage False (\<lambda>b. (1, if b = [] then Some (ESent ErrIncomplete) else None)) (lateConn\<lparr>authenticating := True\<rparr>)
      = Some (?c2, Inr [7])"
    using c1 by (simp add: readMessage_def)
  then have r: "run_auth lateProg (lateConn\<lparr>authenticating := True\<rparr>)
      = Some (auth_Write [1, 1] ?c2, Inl (EStr ''backend down''))"
    by (simp add: lateProg_def)
  have w: "out (auth_Write [1, 1] ?c2) = [1, 1]" "net (auth_Write [1, 1] ?c2) = net c1"
    "writeErr (auth_Write [1, 1] ?c2) = None" "writes (auth_Write [1, 1] ?c2) = []"
    using c1 by (simp_all add: auth_Write_def auth_put_def queue_def wrote_def maxAuthMsg_def)
  have o: "out (clearLastMsg (c\<lparr>authenticating := False\<rparr>)) = out c" "net (clearLastMsg (c\<lparr>authenticating := False\<rparr>)) = net c"
    "writeErr (clearLastMsg (c\<lparr>authenticating := False\<rparr>)) = writeErr c" "writes (clearLastMsg (c\<lparr>authenticating := False\<rparr>)) = writes c" for c
    by (simp_all add: clearLastMsg_def Let_def split: prod.splits)
  have l: "length (out lateConn) = 2" by (simp add: lateConn_def)
  show ?thesis
    using r w c1(3) by (simp add: authenticate_def Authenticate_def l o flush_def net_write_def)
qed

end
