(* ===== verification/ServerTunnel.thy ===== *)
theory ServerTunnel
  imports ServerHandshake
begin

text \<open>
  \<open>server/tunnel.go\<close>: the client conn after a successful reply. Its read paths give the bytes
  buffered during the handshake first, then the stream. The critical sections under \<open>mu\<close> are
  functions on the record \<open>tunnel\<close>; the sequential operations compose them, and the step relation
  \<open>tunnel_step\<close> interleaves the sections of a reader, \<open>NetConn\<close> and the end of \<open>ServeSOCKS\<close>.
  \<open>pooled\<close> holds what was given back to the buffer pool for the conn's own buffer, \<open>lingered\<close> for one
  taken only to linger.
\<close>

section \<open>State\<close>

record tunnel =
  tc :: conn
  reading :: bool
  handedOff :: bool
  drained :: bool
  recvd :: nat
  sentb :: nat
  closedC :: bool
  pooled :: "bytes list"
  lingered :: "bytes list"

definition newTunnel :: "conn \<Rightarrow> tunnel" where
  "newTunnel c = \<lparr>tc = c, reading = False, handedOff = False, drained = False, recvd = 0, sentb = 0,
     closedC = False, pooled = [], lingered = []\<rparr>"

definition putBuffers :: "conn \<Rightarrow> tunnel \<Rightarrow> tunnel" where
  "putBuffers c t = t\<lparr>pooled := pooled t @ [put_in c]\<rparr>"

definition drop_buf :: "tunnel \<Rightarrow> tunnel" where
  "drop_buf t = t\<lparr>tc := (tc t)\<lparr>hasBuf := False\<rparr>\<rparr>"

section \<open>The critical sections\<close>

definition releaseLocked :: "tunnel \<Rightarrow> tunnel" where
  "releaseLocked t =
     (if hasBuf (tc t) \<and> \<not> reading t \<and> (\<not> handedOff t \<or> doneC (tc t))
      then drop_buf (if \<not> exposed (tc t) then putBuffers (tc t) t else t)
      else t)"

text \<open>\<open>Inl\<close> the error (or none), \<open>Inr\<close> the buffered bytes.\<close>

definition takeBuffered :: "tunnel \<Rightarrow> tunnel \<times> (error option + bytes)" where
  "takeBuffered t =
     (if doneC (tc t) then (t, Inl (Some (ESent NetErrClosed)))
      else if handedOff t then (t, Inl None)
      else if hasBuf (tc t) \<and> rpos (tc t) < wpos (tc t)
      then (t\<lparr>reading := True\<rparr>, Inr (pending (tc t)))
      else case readErr (tc t) of
        Some e \<Rightarrow> (t, Inl (Some e))
      | None \<Rightarrow> ((releaseLocked t)\<lparr>drained := True\<rparr>, Inl None))"

definition consumed :: "nat \<Rightarrow> tunnel \<Rightarrow> tunnel" where
  "consumed n t =
     (let t1 = t\<lparr>reading := False, tc := (tc t)\<lparr>rpos := rpos (tc t) + n\<rparr>\<rparr> in
      if rpos (tc t1) = wpos (tc t1) \<or> doneC (tc t1) then releaseLocked t1 else t1)"

definition NetConn :: "tunnel \<Rightarrow> tunnel \<times> bytes" where
  "NetConn t =
     (let t1 = t\<lparr>handedOff := True, drained := True\<rparr> in
      if handedOff t \<or> doneC (tc t) \<or> \<not> hasBuf (tc t) then (t1, [])
      else
        let b = pending (tc t) in
        (t1\<lparr>tc := (tc t1)\<lparr>exposed := exposed (tc t) \<or> b \<noteq> []\<rparr>\<rparr>, b))"

definition Buffered :: "tunnel \<Rightarrow> nat" where
  "Buffered t =
     (if doneC (tc t) \<or> handedOff t \<or> \<not> hasBuf (tc t) then 0 else wpos (tc t) - rpos (tc t))"

text \<open>The locked part of \<open>end\<close>: \<open>True\<close> if it takes the buffer along, to clear and pool it later.\<close>

definition end_section :: "tunnel \<Rightarrow> tunnel \<times> bool" where
  "end_section t =
     (let t1 = t\<lparr>tc := (tc t)\<lparr>doneC := True\<rparr>\<rparr>;
          b = (hasBuf (tc t) \<and> \<not> reading t \<and> \<not> exposed (tc t))
      in (if reading t then t1 else drop_buf t1, b))"

text \<open>\<open>lingerClose\<close>, \<open>own\<close> if \<open>end\<close> holds the conn's buffer; else one of the pool is read into.\<close>

lemma buffers_read_weight: "buffers_read 0 c = (c1, m, None) \<Longrightarrow> weight (rd c1) < weight (rd c)"
  using stream_read_weight [of inSize "rd c"] by (fastforce simp: buffers_read_def inSize_def split: prod.splits)

function linger_read :: "nat \<Rightarrow> conn \<Rightarrow> conn" where
  "linger_read n c =
     (if lingerMaxBytes \<le> n then c
      else case buffers_read 0 c of
        (c1, m, Some e) \<Rightarrow> c1
      | (c1, m, None) \<Rightarrow> linger_read (n + m) c1)"
  by auto
termination
  by (relation "measure (\<lambda>(n, c). weight (rd c))")
    (auto dest!: buffers_read_weight [OF sym])

declare linger_read.simps [simp del]

definition lingerClose :: "bool \<Rightarrow> conn \<Rightarrow> conn \<times> bytes list" where
  "lingerClose own c =
     (case closeWrite c of
        None \<Rightarrow> (c, [])
      | Some (Some e) \<Rightarrow> (net_op NCloseWrite c, [])
      | Some None \<Rightarrow>
          let c1 = net_op (NDeadline DlRead True) (net_op NCloseWrite c) in
          if own then (linger_read 0 c1, [])
          else
            let d = linger_read 0 (c1\<lparr>inBuf := zeroIn, inUsed := 0\<rparr>)
            in (d\<lparr>inBuf := inBuf c, inUsed := inUsed c\<rparr>, [put_in d]))"

definition end_rest :: "bool \<Rightarrow> tunnel \<Rightarrow> tunnel" where
  "end_rest own t =
     (let (c, extra) = (if linger (tc t) then lingerClose own (tc t) else (tc t, []));
          t1 = t\<lparr>tc := net_op NClose c, lingered := lingered t @ extra\<rparr>
      in if own then putBuffers (tc t1) t1 else t1)"

definition end_conn :: "tunnel \<Rightarrow> tunnel" where
  "end_conn t = (case end_section t of (t1, own) \<Rightarrow> end_rest own t1)"

section \<open>Reading and writing\<close>

text \<open>A \<open>Read\<close> of the conn itself into \<open>k\<close> bytes.\<close>

definition nc_Read :: "nat \<Rightarrow> tunnel \<Rightarrow> tunnel \<times> bytes \<times> error option" where
  "nc_Read k t =
     (case stream_read k (rd (tc t)) of
        (b, e, s) \<Rightarrow>
          (t\<lparr>tc := (tc t)\<lparr>rd := s, net := net (tc t) @ [NRead (length b)]\<rparr>,
             recvd := (if handedOff t then recvd t else recvd t + length b)\<rparr>, b, e))"

definition Conn_Read :: "nat \<Rightarrow> tunnel \<Rightarrow> tunnel \<times> bytes \<times> error option" where
  "Conn_Read k t =
     (if drained t then nc_Read k t
      else case takeBuffered t of
        (t1, Inr buf) \<Rightarrow>
          let b = take k buf; t2 = consumed (length b) t1
          in (t2\<lparr>recvd := recvd t2 + length b\<rparr>, b, None)
      | (t1, Inl (Some e)) \<Rightarrow> (t1, [], Some e)
      | (t1, Inl None) \<Rightarrow> nc_Read k t1)"

definition Conn_Write :: "bytes \<Rightarrow> tunnel \<Rightarrow> tunnel \<times> error option" where
  "Conn_Write b t =
     (case net_write b (tc t) of
        (c, e) \<Rightarrow> (t\<lparr>tc := c, sentb := (if e = None then sentb t + length b else sentb t)\<rparr>, e))"

text \<open>\<open>writeBufferedTo\<close>, for a writer that takes \<open>m\<close> of the bytes with error \<open>werr\<close>.\<close>

definition writeBufferedTo ::
  "(bytes \<Rightarrow> nat \<times> error option) \<Rightarrow> tunnel \<Rightarrow> tunnel \<times> bytes \<times> error option" where
  "writeBufferedTo wr t =
     (case takeBuffered t of
        (t1, Inl e) \<Rightarrow> (t1, [], e)
      | (t1, Inr b) \<Rightarrow>
          (case wr b of
             (m, werr) \<Rightarrow>
               let t2 = consumed m t1; t3 = t2\<lparr>recvd := recvd t2 + m\<rparr> in
               case werr of
                 Some e \<Rightarrow> (t3, take m b, Some e)
               | None \<Rightarrow>
                   (case takeBuffered t3 of
                      (t4, Inl e) \<Rightarrow> (t4, take m b, e)
                    | (t4, Inr b') \<Rightarrow> (t4, take m b, None))))"

text \<open>\<open>WriteTo\<close> a writer that takes everything; the copy of the conn itself ends with the stream, nil
  for EOF.\<close>

definition nc_WriteTo :: "tunnel \<Rightarrow> tunnel \<times> bytes \<times> error option" where
  "nc_WriteTo t =
     (let b = stream_bytes (rd (tc t)); e = stream_end (rd (tc t)) in
      (t\<lparr>tc := (tc t)\<lparr>rd := Stop [] e\<rparr>,
         recvd := (if handedOff t then recvd t else recvd t + length b)\<rparr>,
       b, if e = ESent IoEOF then None else Some e))"

definition Conn_WriteTo :: "tunnel \<Rightarrow> tunnel \<times> bytes \<times> error option" where
  "Conn_WriteTo t =
     (if drained t then nc_WriteTo t
      else case writeBufferedTo (\<lambda>b. (length b, None)) t of
        (t1, b, Some e) \<Rightarrow> if IsS e IoEOF then (t1, b, None) else (t1, b, Some e)
      | (t1, b, None) \<Rightarrow>
          (case nc_WriteTo t1 of (t2, b2, e) \<Rightarrow> (t2, b @ b2, e)))"

definition nc_Close :: "tunnel \<Rightarrow> tunnel" where
  "nc_Close t = t\<lparr>tc := net_op NClose (tc t)\<rparr>"

definition Conn_Close :: "tunnel \<Rightarrow> tunnel" where
  "Conn_Close t =
     (let first = (\<not> closedC t \<and> \<not> doneC (tc t)); t1 = t\<lparr>closedC := True\<rparr>
      in if first then nc_Close t1 else t1)"

definition Conn_CloseWrite :: "tunnel \<Rightarrow> tunnel \<times> error option" where
  "Conn_CloseWrite t =
     (case closeWrite (tc t) of
        Some e \<Rightarrow> (t\<lparr>tc := net_op NCloseWrite (tc t)\<rparr>, e)
      | None \<Rightarrow> (t, Some (ESent errUnsupported)))"

section \<open>Nothing is lost\<close>

text \<open>The client's bytes the handler has not had yet.\<close>

definition unread :: "tunnel \<Rightarrow> bytes" where
  "unread t = (if hasBuf (tc t) \<and> \<not> handedOff t then pending (tc t) else []) @ stream_bytes (rd (tc t))"

text \<open>The conn is open, the buffer valid while it is held; it is given up only when it is empty and
  nothing else is to come from it.\<close>

definition tunnel_inv :: "tunnel \<Rightarrow> bool" where
  "tunnel_inv t =
     (conn_inv (tc t) \<and> \<not> doneC (tc t) \<and> \<not> reading t \<and> (drained t \<longrightarrow> \<not> hasBuf (tc t) \<or> handedOff t))"

lemma pending_Nil: "conn_inv c \<Longrightarrow> \<not> rpos c < wpos c \<Longrightarrow> pending c = []"
  using length_pending [of c] by (metis diff_is_0_eq length_0_conv not_less)

lemma conn_inv_adv:
  assumes "conn_inv c" and "n \<le> wpos c - rpos c"
  shows "conn_inv (c\<lparr>rpos := rpos c + n\<rparr>) \<and> pending (c\<lparr>rpos := rpos c + n\<rparr>) = drop n (pending c)"
proof -
  note d = conn_invD [OF assms(1)]
  have "conn_inv (c\<lparr>rpos := rpos c + n\<rparr>)" using d assms(2) by (intro conn_invI) auto
  then show ?thesis by (simp add: pending_def drop_slice)
qed

lemma conn_inv_hasBuf [simp]: "conn_inv (c\<lparr>hasBuf := b\<rparr>) = conn_inv c"
  by (simp add: conn_inv_def)

text \<open>A release keeps the rest of the conn.\<close>

lemma releaseLocked_tc: "tc (releaseLocked t) = tc t \<or> tc (releaseLocked t) = (tc t)\<lparr>hasBuf := False\<rparr>"
  by (simp add: releaseLocked_def drop_buf_def putBuffers_def)

lemma releaseLocked_sel [simp]:
  "reading (releaseLocked t) = reading t" "handedOff (releaseLocked t) = handedOff t"
  "drained (releaseLocked t) = drained t" "recvd (releaseLocked t) = recvd t"
  "sentb (releaseLocked t) = sentb t" "closedC (releaseLocked t) = closedC t"
  by (simp_all add: releaseLocked_def drop_buf_def putBuffers_def)

lemma releaseLocked_conn [simp]:
  "rpos (tc (releaseLocked t)) = rpos (tc t)" "wpos (tc (releaseLocked t)) = wpos (tc t)"
  "rd (tc (releaseLocked t)) = rd (tc t)" "doneC (tc (releaseLocked t)) = doneC (tc t)"
  "pending (tc (releaseLocked t)) = pending (tc t)" "conn_inv (tc (releaseLocked t)) = conn_inv (tc t)"
  "readErr (tc (releaseLocked t)) = readErr (tc t)"
  using releaseLocked_tc [of t] by (auto simp: pending_def)

lemma releaseLocked_empty:
  assumes "\<not> reading t" and "\<not> handedOff t"
  shows "\<not> hasBuf (tc (releaseLocked t))"
  using assms by (simp add: releaseLocked_def drop_buf_def putBuffers_def)

lemma nc_Read_unread:
  assumes inv: "tunnel_inv t" and h: "\<not> hasBuf (tc t) \<or> handedOff t \<or> pending (tc t) = []"
    and n: "nc_Read k t = (t', b, e)"
  shows "conn_inv (tc t') \<and> unread t = b @ unread t' \<and> length b \<le> k
    \<and> (\<forall>x. e = Some x \<longrightarrow> x = stream_end (rd (tc t)) \<and> unread t' = [])
    \<and> hasBuf (tc t') = hasBuf (tc t) \<and> doneC (tc t') = doneC (tc t) \<and> reading t' = reading t
    \<and> handedOff t' = handedOff t \<and> drained t' = drained t
    \<and> stream_end (rd (tc t')) = stream_end (rd (tc t))
    \<and> recvd t' = (if handedOff t then recvd t else recvd t + length b)"
proof -
  obtain b' e' s where r: "stream_read k (rd (tc t)) = (b', e', s)" by (cases "stream_read k (rd (tc t))")
  then have t': "t' = t\<lparr>tc := (tc t)\<lparr>rd := s, net := net (tc t) @ [NRead (length b)]\<rparr>,
             recvd := (if handedOff t then recvd t else recvd t + length b)\<rparr>" "b' = b" "e' = e"
    using n by (auto simp: nc_Read_def)
  note rb = stream_read_bytes [OF r]
  have i: "conn_inv (tc t)" using inv by (simp add: tunnel_inv_def)
  note d = conn_invD [OF i]
  have "conn_inv (tc t')"
    using d r t' by (intro conn_invI) (auto split: if_splits)
  moreover have "pending (tc t') = pending (tc t)" by (simp add: t' pending_def)
  ultimately show ?thesis
    using rb stream_read_Some [of k "rd (tc t)" b _ s] r h by (cases e) (auto simp: unread_def t')
qed

text \<open>The tunnel loses nothing: every \<open>Read\<close> of the client conn returns the next of the bytes the
  client sent after its request, those buffered during the handshake first, then the stream's,
  without a gap or a repeat; an error comes only when every byte has been read and is the one
  the stream ended with (a FIN seen during the handshake included); and the counter adds up.\<close>

theorem Conn_Read_loses_nothing:
  assumes inv: "tunnel_inv t" and n: "Conn_Read k t = (t', b, e)"
  shows "tunnel_inv t' \<and> unread t = b @ unread t' \<and> length b \<le> k
    \<and> (\<forall>x. e = Some x \<longrightarrow> x = stream_end (rd (tc t)) \<and> unread t' = [])
    \<and> stream_end (rd (tc t')) = stream_end (rd (tc t))
    \<and> (\<not> handedOff t \<longrightarrow> recvd t' = recvd t + length b)"
proof -
  have i: "conn_inv (tc t)" "\<not> doneC (tc t)" "\<not> reading t" using inv by (simp_all add: tunnel_inv_def)
  consider (drained) "drained t"
    | (off) "\<not> drained t" "handedOff t"
    | (buf) "\<not> drained t" "\<not> handedOff t" "hasBuf (tc t)" "rpos (tc t) < wpos (tc t)"
    | (err) x where "\<not> drained t" "\<not> handedOff t" "\<not> (hasBuf (tc t) \<and> rpos (tc t) < wpos (tc t))" "readErr (tc t) = Some x"
    | (empty) "\<not> drained t" "\<not> handedOff t" "\<not> (hasBuf (tc t) \<and> rpos (tc t) < wpos (tc t))" "readErr (tc t) = None"
    by (cases "readErr (tc t)") auto
  then show ?thesis
  proof cases
    case drained
    then have nc: "nc_Read k t = (t', b, e)" using n by (simp add: Conn_Read_def)
    have h: "\<not> hasBuf (tc t) \<or> handedOff t \<or> pending (tc t) = []"
      using drained inv by (auto simp: tunnel_inv_def)
    show ?thesis
      using nc_Read_unread [OF inv h nc] drained inv by (auto simp: tunnel_inv_def)
  next
    case off
    then have nc: "nc_Read k t = (t', b, e)" using n i by (simp add: Conn_Read_def takeBuffered_def)
    have h: "\<not> hasBuf (tc t) \<or> handedOff t \<or> pending (tc t) = []" using off by simp
    show ?thesis
      using nc_Read_unread [OF inv h nc] off inv by (auto simp: tunnel_inv_def)
  next
    case buf
    let ?b = "take k (pending (tc t))"
    let ?m = "length ?b"
    have len: "?m \<le> wpos (tc t) - rpos (tc t)" using length_pending [OF i(1)] by simp
    note adv = conn_inv_adv [OF i(1) len]
    have tk: "takeBuffered t = (t\<lparr>reading := True\<rparr>, Inr (pending (tc t)))"
      using buf i by (simp add: takeBuffered_def)
    define t1 where "t1 = t\<lparr>reading := False, tc := (tc t)\<lparr>rpos := rpos (tc t) + ?m\<rparr>\<rparr>"
    have res: "b = ?b" "e = None"
      "t' = (if rpos (tc t1) = wpos (tc t1) \<or> doneC (tc t1) then releaseLocked t1 else t1)\<lparr>recvd := recvd t + ?m\<rparr>"
      using n buf tk by (auto simp: Conn_Read_def Let_def consumed_def t1_def)
    have p1: "pending (tc t1) = drop ?m (pending (tc t))" "conn_inv (tc t1)" using adv by (simp_all add: t1_def)
    have sp: "pending (tc t) = ?b @ pending (tc t1)"
      unfolding p1 by (metis append_take_drop_id drop_eq_Nil le_cases length_take min.absorb1 min.absorb2 take_all)
    have s1: "\<not> handedOff t1" "\<not> drained t1" "\<not> doneC (tc t1)" "\<not> reading t1" "hasBuf (tc t1)" "rd (tc t1) = rd (tc t)"
      using buf i by (simp_all add: t1_def)
    show ?thesis
    proof (cases "rpos (tc t1) = wpos (tc t1)")
      case True
      then have pn: "pending (tc t1) = []" using pending_Nil [OF p1(2)] by simp
      have t': "t' = (releaseLocked t1)\<lparr>recvd := recvd t + ?m\<rparr>" using res True by simp
      have nb: "\<not> hasBuf (tc (releaseLocked t1))" using releaseLocked_empty s1 by simp
      show ?thesis
        using t' nb pn sp p1 s1 buf res by (simp add: tunnel_inv_def unread_def)
    next
      case False
      then have t': "t' = t1\<lparr>recvd := recvd t + ?m\<rparr>" using res s1 by simp
      show ?thesis
        using t' sp p1 s1 buf res by (simp add: tunnel_inv_def unread_def)
    qed
  next
    case (err x)
    then have res: "t' = t" "b = []" "e = Some x" using n i by (auto simp: Conn_Read_def takeBuffered_def)
    have "rd (tc t) = Stop [] x" using conn_invD(8) [OF i(1) err(4)] .
    then show ?thesis using res err inv pending_Nil [OF i(1)] by (auto simp: unread_def)
  next
    case empty
    let ?t1 = "(releaseLocked t)\<lparr>drained := True\<rparr>"
    have nc: "nc_Read k ?t1 = (t', b, e)" using n empty i by (simp add: Conn_Read_def takeBuffered_def)
    have nb: "\<not> hasBuf (tc ?t1)" using releaseLocked_empty empty i by simp
    have inv1: "tunnel_inv ?t1" using i nb by (simp add: tunnel_inv_def)
    have u: "unread ?t1 = unread t" using nb pending_Nil [OF i(1)] empty by (auto simp: unread_def)
    show ?thesis
      using nc_Read_unread [OF inv1 _ nc] nb u inv1 empty by (auto simp: tunnel_inv_def)
  qed
qed

lemma nc_WriteTo_all:
  "nc_WriteTo t = (t', b, e) \<Longrightarrow> b = stream_bytes (rd (tc t)) \<and> unread t' =
     (if hasBuf (tc t) \<and> \<not> handedOff t then pending (tc t) else []) \<and>
     e = (if stream_end (rd (tc t)) = ESent IoEOF then None else Some (stream_end (rd (tc t))))"
  by (auto simp: nc_WriteTo_def Let_def unread_def pending_def)

lemma takeBuffered_cases:
  assumes i: "conn_inv (tc t)" "\<not> doneC (tc t)" and h: "\<not> handedOff t"
  obtains (buf) "hasBuf (tc t)" "rpos (tc t) < wpos (tc t)"
      "takeBuffered t = (t\<lparr>reading := True\<rparr>, Inr (pending (tc t)))"
    | (err) x where "\<not> (hasBuf (tc t) \<and> rpos (tc t) < wpos (tc t))" "readErr (tc t) = Some x"
      "rd (tc t) = Stop [] x" "takeBuffered t = (t, Inl (Some x))"
    | (empty) "\<not> (hasBuf (tc t) \<and> rpos (tc t) < wpos (tc t))" "readErr (tc t) = None"
      "takeBuffered t = ((releaseLocked t)\<lparr>drained := True\<rparr>, Inl None)"
  using i h conn_invD(8) [OF i(1)] unfolding takeBuffered_def
  by (cases "hasBuf (tc t) \<and> rpos (tc t) < wpos (tc t)"; cases "readErr (tc t)") auto

lemma not_buffered_pending:
  "conn_inv c \<Longrightarrow> \<not> (hasBuf c \<and> rpos c < wpos c) \<Longrightarrow> hasBuf c \<Longrightarrow> pending c = []"
  using pending_Nil by blast

lemma nc_WriteTo_result:
  "nc_WriteTo t = (t', b, e) \<Longrightarrow> b = stream_bytes (rd (tc t)) \<and>
     e = (if stream_end (rd (tc t)) = ESent IoEOF then None else Some (stream_end (rd (tc t))))"
  by (auto simp: nc_WriteTo_def Let_def)

lemma IsS_EOF [simp]: "IsS (ESent IoEOF) IoEOF"
  by (simp add: err_Is_def)

text \<open>\<open>WriteTo\<close> to a writer that takes everything copies all the client's bytes not read yet, those
  buffered during the handshake first, and ends without an error exactly when the client's
  stream ended with EOF (or an error that wraps it, if it was read during the handshake).\<close>

theorem Conn_WriteTo_copies_everything:
  assumes inv: "tunnel_inv t" and w: "Conn_WriteTo t = (t', b, e)"
  shows "b = unread t \<and> e \<in> {None, Some (stream_end (rd (tc t)))}
    \<and> (stream_end (rd (tc t)) = ESent IoEOF \<longrightarrow> e = None)
    \<and> (e = None \<longrightarrow> IsS (stream_end (rd (tc t))) IoEOF)"
proof -
  have i: "conn_inv (tc t)" "\<not> doneC (tc t)" "\<not> reading t" using inv by (simp_all add: tunnel_inv_def)
  show ?thesis
  proof (cases "drained t \<or> handedOff t")
    case True
    then have nb: "\<not> (hasBuf (tc t) \<and> \<not> handedOff t)" using inv by (auto simp: tunnel_inv_def)
    have "nc_WriteTo t = (t', b, e)"
      using w True i by (auto simp: Conn_WriteTo_def writeBufferedTo_def takeBuffered_def split: prod.splits if_splits)
    then show ?thesis using nc_WriteTo_result [of t t' b e] nb by (auto simp: unread_def)
  next
    case False
    then have h: "\<not> handedOff t" by simp
    from i(1,2) h show ?thesis
    proof (cases rule: takeBuffered_cases)
      case (err x)
      then have "Conn_WriteTo t = (if IsS x IoEOF then (t, [], None) else (t, [], Some x))"
        using False by (simp add: Conn_WriteTo_def writeBufferedTo_def)
      then show ?thesis
        using w err pending_Nil [OF i(1)] by (auto simp: unread_def split: if_splits)
    next
      case empty
      then obtain t1 where t1: "takeBuffered t = (t1, Inl None)" "rd (tc t1) = rd (tc t)" by simp
      then have "nc_WriteTo t1 = (t', b, e)"
        using w False by (auto simp: Conn_WriteTo_def writeBufferedTo_def split: prod.splits)
      then show ?thesis
        using nc_WriteTo_result [of t1 t' b e] t1 empty pending_Nil [OF i(1)] by (auto simp: unread_def)
    next
      case buf
      let ?p = "pending (tc t)"
      define t3 where "t3 = (let t2 = consumed (length ?p) (t\<lparr>reading := True\<rparr>) in t2\<lparr>recvd := recvd t2 + length ?p\<rparr>)"
      have len: "length ?p = wpos (tc t) - rpos (tc t)" using length_pending [OF i(1)] .
      note adv = conn_inv_adv [OF i(1), of "length ?p"]
      have s3: "\<not> hasBuf (tc t3)" "\<not> handedOff t3" "\<not> doneC (tc t3)" "conn_inv (tc t3)"
        "rd (tc t3) = rd (tc t)" "readErr (tc t3) = readErr (tc t)"
        using adv len buf i h releaseLocked_empty
        by (simp_all add: t3_def consumed_def Let_def)
      from s3(4,3,2) show ?thesis
      proof (cases rule: takeBuffered_cases)
        case b: buf
        then show ?thesis using s3 by simp
      next
        case (err x)
        then have "Conn_WriteTo t = (if IsS x IoEOF then (t3, ?p, None) else (t3, ?p, Some x))"
          using buf False by (simp add: Conn_WriteTo_def writeBufferedTo_def t3_def Let_def)
        then show ?thesis using w err s3 buf h by (auto simp: unread_def split: if_splits)
      next
        case empty
        then obtain t4 where t4: "takeBuffered t3 = (t4, Inl None)" "rd (tc t4) = rd (tc t3)" by simp
        obtain t5 b5 e5 where n: "nc_WriteTo t4 = (t5, b5, e5)" by (cases "nc_WriteTo t4")
        have "Conn_WriteTo t = (t5, ?p @ b5, e5)"
          using buf False t4 n by (simp add: Conn_WriteTo_def writeBufferedTo_def t3_def Let_def)
        then show ?thesis
          using w nc_WriteTo_result [OF n] t4 s3 buf h by (auto simp: unread_def)
      qed
    qed
  qed
qed

definition quietTunnel :: "stream \<Rightarrow> tunnel" where
  "quietTunnel s = newTunnel ((newConn [] s [] None)
     \<lparr>hasBuf := True, inBuf := [1, 2, 3] @ drop 3 zeroIn, inUsed := 3, rpos := 1, wpos := 3\<rparr>)"

lemma quietTunnel_inv: "tunnel_inv (quietTunnel s)"
proof -
  have "set (drop 3 ([1, 2, 3] @ drop 3 zeroIn)) \<subseteq> {0 :: byte}"
    by (auto simp: zeroIn_def)
  then have "conn_inv (tc (quietTunnel s))"
    by (intro conn_invI) (simp_all add: quietTunnel_def newTunnel_def newConn_def zeroIn_def inSize_def)
  then show ?thesis by (simp add: tunnel_inv_def quietTunnel_def newTunnel_def newConn_def)
qed

lemma quietTunnel_unread: "unread (quietTunnel s) = [2, 3] @ stream_bytes s"
  by (simp add: unread_def quietTunnel_def newTunnel_def newConn_def pending_def slice_def)

lemma Conn_Read_loses_nothing_witness:
  "unread (quietTunnel (Stop [4] (ESent IoEOF))) =
     fst (snd (Conn_Read 1 (quietTunnel (Stop [4] (ESent IoEOF)))))
     @ unread (fst (Conn_Read 1 (quietTunnel (Stop [4] (ESent IoEOF)))))"
  using Conn_Read_loses_nothing [OF quietTunnel_inv prod.collapse [symmetric, THEN trans
      [OF _ arg_cong2 [OF refl prod.collapse [symmetric], of Pair]]]] by blast

lemma Conn_WriteTo_copies_everything_witness:
  "fst (snd (Conn_WriteTo (quietTunnel (Stop [4] (ESent IoEOF))))) = [2, 3, 4]
   \<and> snd (snd (Conn_WriteTo (quietTunnel (Stop [4] (ESent IoEOF))))) = None"
  using Conn_WriteTo_copies_everything [OF quietTunnel_inv prod.collapse [symmetric, THEN trans
      [OF _ arg_cong2 [OF refl prod.collapse [symmetric], of Pair]]], of "Stop [4] (ESent IoEOF)"]
    quietTunnel_unread [of "Stop [4] (ESent IoEOF)"]
  by (simp add: quietTunnel_def newTunnel_def newConn_def)

section \<open>The buffer of a tunnel\<close>

text \<open>
  The critical sections of the reader, of \<open>NetConn\<close> and of \<open>end\<close>, as they may interleave. \<open>inUse\<close>: the
  reader is between \<open>takeBuffered\<close> and \<open>consumed\<close>, holding a slice of the buffer; \<open>lent\<close>: \<open>NetConn\<close>
  gave a slice away; \<open>endOwns\<close>: \<open>end\<close> has taken the buffer and not yet pooled it.
\<close>

record tsys =
  tun :: tunnel
  inUse :: bool
  lent :: bool
  endOwns :: "bool option"

definition startSys :: "conn \<Rightarrow> tsys" where
  "startSys c = \<lparr>tun = newTunnel c, inUse = False, lent = False, endOwns = None\<rparr>"

inductive tunnel_step :: "tsys \<Rightarrow> tsys \<Rightarrow> bool" where
  take_bytes: "\<not> inUse s \<Longrightarrow> takeBuffered (tun s) = (t, Inr b) \<Longrightarrow>
    tunnel_step s (s\<lparr>tun := t, inUse := True\<rparr>)"
| take_none: "\<not> inUse s \<Longrightarrow> takeBuffered (tun s) = (t, Inl e) \<Longrightarrow> tunnel_step s (s\<lparr>tun := t\<rparr>)"
| use: "inUse s \<Longrightarrow> n \<le> wpos (tc (tun s)) - rpos (tc (tun s)) \<Longrightarrow>
    tunnel_step s (s\<lparr>tun := consumed n (tun s), inUse := False\<rparr>)"
| hand_over: "NetConn (tun s) = (t, b) \<Longrightarrow>
    tunnel_step s (s\<lparr>tun := t, lent := lent s \<or> b \<noteq> []\<rparr>)"
| end_begins: "\<not> doneC (tc (tun s)) \<Longrightarrow> end_section (tun s) = (t, own) \<Longrightarrow>
    tunnel_step s (s\<lparr>tun := t, endOwns := Some own\<rparr>)"
| end_finishes: "endOwns s = Some own \<Longrightarrow>
    tunnel_step s (s\<lparr>tun := end_rest own (tun s), endOwns := None\<rparr>)"

text \<open>What is left in the arrays is zero above the high-water mark.\<close>

definition buf_clean :: "conn \<Rightarrow> bool" where
  "buf_clean c = (length (inBuf c) = inSize \<and> inUsed c \<le> inSize \<and> set (drop (inUsed c) (inBuf c)) \<subseteq> {0})"

lemma put_in_clean: "buf_clean c \<Longrightarrow> put_in c = zeroIn"
proof -
  assume c: "buf_clean c"
  then have "drop (inUsed c) (inBuf c) = replicate (inSize - inUsed c) 0"
    by (intro replicate_eqI) (auto simp: buf_clean_def)
  moreover have "inUsed c + (inSize - inUsed c) = inSize" using c by (simp add: buf_clean_def)
  ultimately show ?thesis by (simp add: put_in_def zeroIn_def flip: replicate_add)
qed

lemma conn_inv_clean: "conn_inv c \<Longrightarrow> buf_clean c"
  by (simp add: conn_inv_def buf_clean_def)

lemma buf_clean_fresh: "buf_clean (c\<lparr>inBuf := zeroIn, inUsed := 0\<rparr>)"
  by (auto simp: buf_clean_def zeroIn_def)

lemma buffers_read_clean:
  assumes "buf_clean c" and "buffers_read off c = (c', n, e)" and "off \<le> inSize"
  shows "buf_clean c'"
proof -
  obtain b e' s where r: "stream_read (inSize - off) (rd c) = (b, e', s)"
    by (cases "stream_read (inSize - off) (rd c)")
  have l: "off + length b \<le> inSize" using conjunct1 [OF stream_read_bytes [OF r]] assms(3) by linarith
  have "set (drop (max (inUsed c) (off + length b)) (overwrite off b (inBuf c))) \<subseteq> {0}"
    using assms(1) l by (intro overwrite_zero_above) (auto simp: buf_clean_def)
  then show ?thesis
    using assms l r by (auto simp: buffers_read_def buf_clean_def)
qed

lemma linger_read_clean: "buf_clean c \<Longrightarrow> buf_clean (linger_read n c)"
proof (induction n c rule: linger_read.induct)
  case (1 n c)
  obtain c1 m e where r: "buffers_read 0 c = (c1, m, e)" by (cases "buffers_read 0 c")
  have "buf_clean c1" using buffers_read_clean [OF "1.prems" r] by simp
  then show ?case
    using "1.IH" [OF _ r [symmetric] refl] "1.prems" r
    by (subst linger_read.simps) (auto split: option.splits)
qed

lemma net_op_clean [simp]: "buf_clean (net_op x c) = buf_clean c"
  by (simp add: buf_clean_def net_op_def)

lemma lingerClose_clean:
  assumes c: "buf_clean c" and r: "lingerClose own c = (c', extra)"
  shows "buf_clean c' \<and> set extra \<subseteq> {zeroIn}"
proof -
  let ?c1 = "net_op (NDeadline DlRead True) (net_op NCloseWrite c)"
  have own: "buf_clean (linger_read 0 ?c1)" using linger_read_clean c by simp
  have new: "put_in (linger_read 0 (?c1\<lparr>inBuf := zeroIn, inUsed := 0\<rparr>)) = zeroIn"
    using put_in_clean linger_read_clean buf_clean_fresh by blast
  have "buf_clean (d\<lparr>inBuf := inBuf c, inUsed := inUsed c\<rparr>)" for d using c by (simp add: buf_clean_def)
  then show ?thesis
    using r c own new by (auto simp: lingerClose_def Let_def split: option.splits if_splits)
qed

text \<open>Lingering keeps the rest of the conn.\<close>

definition end_frame :: "conn \<Rightarrow> conn \<Rightarrow> bool" where
  "end_frame c d =
     (hasBuf d = hasBuf c \<and> exposed d = exposed c \<and> doneC d = doneC c \<and> replied d = replied c
      \<and> listening d = listening c \<and> req d = req c \<and> trace d = trace c \<and> linger d = linger c)"

lemma end_frame_trans: "end_frame c d \<Longrightarrow> end_frame d e \<Longrightarrow> end_frame c e"
  by (simp add: end_frame_def)

lemma buffers_read_frame: "buffers_read off c = (c', n, e) \<Longrightarrow> end_frame c c'"
  by (auto simp: buffers_read_def end_frame_def split: prod.splits)

lemma linger_read_frame: "end_frame c (linger_read n c)"
proof (induction n c rule: linger_read.induct)
  case (1 n c)
  obtain c1 m e where r: "buffers_read 0 c = (c1, m, e)" by (cases "buffers_read 0 c")
  note f = buffers_read_frame [OF r]
  show ?case
  proof (cases "lingerMaxBytes \<le> n")
    case True
    then show ?thesis by (subst linger_read.simps) (simp add: end_frame_def)
  next
    case False
    show ?thesis
    proof (cases e)
      case None
      then have "end_frame c1 (linger_read (n + m) c1)" using "1.IH" [OF False r [symmetric] refl] by simp
      then have "end_frame c (linger_read (n + m) c1)" by (rule end_frame_trans [OF f])
      then show ?thesis using False None r by (subst linger_read.simps) simp
    next
      case (Some x)
      then show ?thesis using False f r by (subst linger_read.simps) simp
    qed
  qed
qed

lemma lingerClose_frame:
  assumes "lingerClose own c = (c', extra)"
  shows "end_frame c c'"
proof -
  let ?c1 = "net_op (NDeadline DlRead True) (net_op NCloseWrite c)"
  have 1: "end_frame c ?c1" "end_frame c (?c1\<lparr>inBuf := zeroIn, inUsed := 0\<rparr>)"
    "end_frame c (net_op NCloseWrite c)" "end_frame c c"
    by (simp_all add: end_frame_def net_op_def)
  note 2 = end_frame_trans [OF 1(1) linger_read_frame [of _ 0]] end_frame_trans [OF 1(2) linger_read_frame [of _ 0]]
  have 3: "end_frame c (d\<lparr>inBuf := x, inUsed := y\<rparr>) = end_frame c d" for d x y
    by (simp add: end_frame_def)
  show ?thesis
    using assms 1 2 3 by (auto simp: lingerClose_def Let_def split: option.splits if_splits)
qed

lemma end_rest_facts:
  assumes "buf_clean (tc t)"
  shows "buf_clean (tc (end_rest own t)) \<and> end_frame (tc t) (tc (end_rest own t))
    \<and> pooled (end_rest own t) = pooled t @ (if own then [zeroIn] else [])
    \<and> set (lingered (end_rest own t)) \<subseteq> set (lingered t) \<union> {zeroIn}
    \<and> reading (end_rest own t) = reading t \<and> handedOff (end_rest own t) = handedOff t"
proof -
  obtain c extra where l: "(if linger (tc t) then lingerClose own (tc t) else (tc t, [])) = (c, extra)"
    by (cases "if linger (tc t) then lingerClose own (tc t) else (tc t, [])")
  have c: "buf_clean c" "set extra \<subseteq> {zeroIn}" "end_frame (tc t) c"
    using l lingerClose_clean [OF assms, of own c extra] lingerClose_frame [of own "tc t" c extra] assms
    by (auto simp: end_frame_def split: if_splits)
  have "put_in (net_op NClose c) = zeroIn" using put_in_clean c by simp
  then show ?thesis
    using l c by (auto simp: end_rest_def putBuffers_def end_frame_def net_op_def buf_clean_def)
qed

text \<open>The invariant of the interleaved sections.\<close>

definition buf_ok :: "tunnel \<Rightarrow> bool \<Rightarrow> bool \<Rightarrow> bool \<Rightarrow> bool" where
  "buf_ok t using_it is_lent owns =
     (buf_clean (tc t) \<and> (using_it \<longrightarrow> reading t) \<and> (reading t \<longrightarrow> hasBuf (tc t))
      \<and> length (pooled t) + (if hasBuf (tc t) then 1 else 0) + (if owns then 1 else 0) \<le> 1
      \<and> (is_lent \<longrightarrow> exposed (tc t)) \<and> (exposed (tc t) \<longrightarrow> pooled t = [] \<and> \<not> owns)
      \<and> set (pooled t) \<union> set (lingered t) \<subseteq> {zeroIn}
      \<and> (hasBuf (tc t) \<or> owns \<or> pooled t \<noteq> [] \<or> exposed (tc t)))"

definition sys_inv :: "tsys \<Rightarrow> bool" where
  "sys_inv s =
     (buf_ok (tun s) (inUse s) (lent s) (endOwns s = Some True)
      \<and> (doneC (tc (tun s)) \<and> \<not> reading (tun s) \<longrightarrow> \<not> hasBuf (tc (tun s)))
      \<and> (endOwns s \<noteq> None \<longrightarrow> doneC (tc (tun s))))"

lemma buf_clean_fields [simp]:
  "buf_clean (c\<lparr>hasBuf := a\<rparr>) = buf_clean c" "buf_clean (c\<lparr>rpos := n\<rparr>) = buf_clean c"
  "buf_clean (c\<lparr>exposed := a\<rparr>) = buf_clean c" "buf_clean (c\<lparr>doneC := a\<rparr>) = buf_clean c"
  by (simp_all add: buf_clean_def)

lemma buf_ok_fields [simp]:
  "buf_ok (t\<lparr>drained := a\<rparr>) u l w = buf_ok t u l w" "buf_ok (t\<lparr>handedOff := a\<rparr>) u l w = buf_ok t u l w"
  "buf_ok (t\<lparr>tc := (tc t)\<lparr>rpos := n\<rparr>\<rparr>) u l w = buf_ok t u l w"
  "buf_ok (t\<lparr>tc := (tc t)\<lparr>doneC := a\<rparr>\<rparr>) u l w = buf_ok t u l w"
  by (simp_all add: buf_ok_def)

lemma buf_ok_used: "buf_ok t u l w \<Longrightarrow> buf_ok (t\<lparr>reading := False\<rparr>) False l w"
  by (simp add: buf_ok_def)

lemma buf_ok_release:
  assumes "buf_ok t u l w"
  shows "buf_ok (releaseLocked t) u l w"
  using assms put_in_clean [of "tc t"]
  by (cases "hasBuf (tc t)") (auto simp: buf_ok_def releaseLocked_def drop_buf_def putBuffers_def)

lemma release_done: "doneC (tc t) \<Longrightarrow> \<not> reading t \<Longrightarrow> \<not> hasBuf (tc (releaseLocked t))"
  by (simp add: releaseLocked_def drop_buf_def putBuffers_def)

lemma takeBuffered_Inl:
  "takeBuffered t = (t', Inl e) \<Longrightarrow> t' = t \<or> t' = (releaseLocked t)\<lparr>drained := True\<rparr> \<and> \<not> doneC (tc t)"
  by (auto simp: takeBuffered_def split: if_splits option.splits)

lemma takeBuffered_Inr:
  "takeBuffered t = (t', Inr b) \<Longrightarrow> t' = t\<lparr>reading := True\<rparr> \<and> hasBuf (tc t) \<and> \<not> doneC (tc t)"
  by (auto simp: takeBuffered_def split: if_splits option.splits)

lemma consumed_cases:
  fixes t :: tunnel and n :: nat
  defines "t1 \<equiv> t\<lparr>reading := False, tc := (tc t)\<lparr>rpos := rpos (tc t) + n\<rparr>\<rparr>"
  shows "consumed n t = releaseLocked t1 \<or> consumed n t = t1 \<and> \<not> doneC (tc t)"
  by (simp add: consumed_def t1_def Let_def)

lemma sys_inv_use:
  assumes i: "sys_inv s"
  shows "sys_inv (s\<lparr>tun := consumed n (tun s), inUse := False\<rparr>)"
proof -
  define t1 where "t1 = (tun s)\<lparr>reading := False, tc := (tc (tun s))\<lparr>rpos := rpos (tc (tun s)) + n\<rparr>\<rparr>"
  have "buf_ok ((tun s)\<lparr>reading := False\<rparr>) False (lent s) (endOwns s = Some True)"
    using i buf_ok_used by (auto simp: sys_inv_def)
  then have t1: "buf_ok t1 False (lent s) (endOwns s = Some True)" by (simp add: t1_def buf_ok_def)
  have d: "doneC (tc t1) = doneC (tc (tun s))" "\<not> reading t1" by (simp_all add: t1_def)
  show ?thesis
    using consumed_cases [of n "tun s"] i t1 d buf_ok_release [OF t1] release_done [of t1]
    unfolding t1_def [symmetric] by (auto simp: sys_inv_def)
qed

lemma sys_inv_hand_over:
  assumes i: "sys_inv s" and n: "NetConn (tun s) = (t, b)"
  shows "sys_inv (s\<lparr>tun := t, lent := lent s \<or> b \<noteq> []\<rparr>)"
proof -
  have "buf_ok t (inUse s) (lent s \<or> b \<noteq> []) (endOwns s = Some True)
      \<and> doneC (tc t) = doneC (tc (tun s)) \<and> reading t = reading (tun s) \<and> hasBuf (tc t) = hasBuf (tc (tun s))"
  proof (cases "handedOff (tun s) \<or> doneC (tc (tun s)) \<or> \<not> hasBuf (tc (tun s))")
    case True
    then show ?thesis using i n by (auto simp: NetConn_def Let_def sys_inv_def)
  next
    case False
    then have t: "t = (tun s)\<lparr>handedOff := True, drained := True,
        tc := (tc (tun s))\<lparr>exposed := exposed (tc (tun s)) \<or> b \<noteq> []\<rparr>\<rparr>"
      using n by (auto simp: NetConn_def Let_def)
    show ?thesis using i False by (simp add: t sys_inv_def buf_ok_def)
  qed
  then show ?thesis using i by (auto simp: sys_inv_def)
qed

lemma sys_inv_end:
  assumes i: "sys_inv s" and n: "end_section (tun s) = (t, own)" and d: "\<not> doneC (tc (tun s))"
  shows "sys_inv (s\<lparr>tun := t, endOwns := Some own\<rparr>)"
proof (cases "reading (tun s)")
  case True
  then have "t = (tun s)\<lparr>tc := (tc (tun s))\<lparr>doneC := True\<rparr>\<rparr>" "\<not> own" using n by (auto simp: end_section_def Let_def)
  then show ?thesis using i True d by (auto simp: sys_inv_def)
next
  case False
  then have t: "t = (tun s)\<lparr>tc := (tc (tun s))\<lparr>doneC := True, hasBuf := False\<rparr>\<rparr>"
    and own: "own = (hasBuf (tc (tun s)) \<and> \<not> exposed (tc (tun s)))"
    using n by (auto simp: end_section_def Let_def drop_buf_def)
  show ?thesis using i False d own by (auto simp: sys_inv_def t buf_ok_def)
qed

lemma sys_inv_step: "tunnel_step s s' \<Longrightarrow> sys_inv s \<Longrightarrow> sys_inv s'"
proof (induction rule: tunnel_step.induct)
  case (take_bytes s t b)
  then show ?case using takeBuffered_Inr [OF take_bytes(2)] by (simp add: sys_inv_def buf_ok_def)
next
  case (take_none s t e)
  then show ?case using takeBuffered_Inl [OF take_none(2)] buf_ok_release
    by (auto simp: sys_inv_def)
next
  case (end_finishes s own)
  have "buf_clean (tc (tun s))" using end_finishes by (simp add: sys_inv_def buf_ok_def)
  note f = end_rest_facts [OF this, of own]
  show ?case
  proof (cases own)
    case True
    then show ?thesis using end_finishes f by (auto simp: sys_inv_def buf_ok_def end_frame_def)
  next
    case False
    then show ?thesis using end_finishes f by (auto simp: sys_inv_def buf_ok_def end_frame_def)
  qed
qed (use sys_inv_use sys_inv_hand_over sys_inv_end in blast)+

text \<open>C7: The pooled read buffer is never seen by two conns (B2). However the sections of a reading
  handler, \<open>NetConn\<close> and the end of the conn interleave: the buffer goes to the pool at most
  once, cleared, and only when the reader holds no slice of it, nothing of it was lent out by
  \<open>NetConn\<close> or a hook, and the conn cannot use it any more; a buffer taken to linger goes back cleared
  too. Once the conn has ended and no read is under way, the conn's buffer is pooled unless user code may
  still hold a slice of it: none leaks.\<close>

theorem buffer_pooled_safely:
  assumes c: "conn_inv c" "hasBuf c" "\<not> doneC c" and s: "tunnel_step\<^sup>*\<^sup>* (startSys c) s"
  shows "length (pooled (tun s)) \<le> 1
    \<and> (pooled (tun s) \<noteq> [] \<longrightarrow> \<not> inUse s \<and> \<not> lent s \<and> \<not> exposed (tc (tun s)) \<and> \<not> hasBuf (tc (tun s)))
    \<and> set (pooled (tun s)) \<union> set (lingered (tun s)) \<subseteq> {zeroIn}
    \<and> (doneC (tc (tun s)) \<and> \<not> reading (tun s) \<and> endOwns s = None \<longrightarrow>
         pooled (tun s) \<noteq> [] \<or> exposed (tc (tun s)))"
proof -
  have "sys_inv (startSys c)"
    using c conn_inv_clean by (simp add: sys_inv_def buf_ok_def startSys_def newTunnel_def)
  with s have "sys_inv s"
    by (induction rule: rtranclp_induct) (auto intro: sys_inv_step)
  then show ?thesis by (auto simp: sys_inv_def buf_ok_def split: if_splits)
qed

lemma buffer_pooled_safely_witness:
  "\<exists>s. tunnel_step\<^sup>*\<^sup>* (startSys (tc (quietTunnel (Stop [4] (ESent IoEOF))))) s \<and> inUse s
     \<and> pooled (tun s) = []"
proof -
  let ?s = "startSys (tc (quietTunnel (Stop [4] (ESent IoEOF))))"
  have i: "conn_inv (tc (quietTunnel (Stop [4] (ESent IoEOF))))" "hasBuf (tc (quietTunnel (Stop [4] (ESent IoEOF))))"
    "\<not> doneC (tc (quietTunnel (Stop [4] (ESent IoEOF))))"
    using quietTunnel_inv [of "Stop [4] (ESent IoEOF)"]
    by (simp_all add: tunnel_inv_def) (simp add: quietTunnel_def newTunnel_def newConn_def)
  obtain t b where t: "takeBuffered (tun ?s) = (t, Inr b)"
    by (simp add: takeBuffered_def startSys_def quietTunnel_def newTunnel_def newConn_def)
  have st: "tunnel_step\<^sup>*\<^sup>* ?s (?s\<lparr>tun := t, inUse := True\<rparr>)"
    using tunnel_step.take_bytes [OF _ t] by (simp add: startSys_def)
  let ?u = "?s\<lparr>tun := t, inUse := True\<rparr>"
  have u: "inUse ?u" by simp
  then have "pooled (tun ?u) = []" using buffer_pooled_safely [OF i st] by blast
  then show ?thesis using st u by blast
qed

end
