(* ===== verification/ServerReply.thy ===== *)
theory ServerReply
  imports ServerTunnel
begin

text \<open>
  \<open>server/request.go\<close> and the frame of \<open>serve\<close> in \<open>server/conn.go\<close>: \<open>Early\<close>, \<open>Peek\<close>, \<open>Reply\<close>,
  \<open>ReplyListening\<close>, the reply the server sends when the handler sent none, and the end of the conn.
  A handler is a program of the type \<open>hprog\<close>: any sequence of calls on the request and its conn,
  each depending on the results before, ending in a return or a panic.
\<close>

section \<open>The calls on a request\<close>

definition live :: "conn \<Rightarrow> bool" where
  "live c = (\<not> replied c \<and> \<not> doneC c \<and> hasBuf c)"

definition Early :: "conn \<Rightarrow> conn \<times> bytes" where
  "Early c =
     (if \<not> live c then (c, [])
      else let b = pending c in (c\<lparr>exposed := exposed c \<or> b \<noteq> []\<rparr>, b))"

text \<open>\<open>ctxErr\<close> is \<open>ctx.Err()\<close> after the read; \<open>later\<close> is what the conn gives after a read that timed out.\<close>

definition fillCtx ::
  "sconfig \<Rightarrow> error option \<Rightarrow> stream \<Rightarrow> nat \<Rightarrow> conn \<Rightarrow> (conn \<times> error option) option" where
  "fillCtx cf ctxErr later n c =
     Option.bind (fill n (net_op (NDeadline DlRead (cf_timeout cf)) c))
       (\<lambda>(c1, err).
          let c2 = net_op (NDeadline DlRead False) c1 in
          case err of
            Some e \<Rightarrow>
              if IsS e OsErrDeadlineExceeded
              then Some (c2\<lparr>readErr := None, rd := later\<rparr>,
                         case ctxErr of Some x \<Rightarrow> Some x | None \<Rightarrow> err)
              else Some (c2, err)
          | None \<Rightarrow> Some (c2, None))"

definition Peek ::
  "sconfig \<Rightarrow> error option \<Rightarrow> stream \<Rightarrow> int \<Rightarrow> conn \<Rightarrow> (conn \<times> bytes \<times> error option) option" where
  "Peek cf ctxErr later n c =
     (if \<not> live c then Some (c, [], Some (ESent ErrReplied))
      else
        let full = (max n 0 > int inSize);
            m = (if full then inSize else nat n);
            err0 = (if full then Some (ESent BufioErrBufferFull) else None)
        in Option.bind
             (if wpos c - rpos c < m then fillCtx cf ctxErr later m c else Some (c, None))
             (\<lambda>(c1, ferr).
                let e = min (wpos c1) (rpos c1 + m);
                    c2 = (if e > rpos c1 then c1\<lparr>exposed := True\<rparr> else c1)
                in Some (c2, slice (rpos c2) e (inBuf c2), if ferr \<noteq> None then ferr else err0)))"

definition writeReply :: "sconfig \<Rightarrow> reply \<Rightarrow> addr \<Rightarrow> conn \<Rightarrow> conn \<times> error option" where
  "writeReply cf rep bound c =
     (if \<not> hasBuf c then (c, Some (ESent NetErrClosed))
      else case appendReply (rq_Version (req c)) [] rep bound of
        (b, Some e) \<Rightarrow> (c, Some e)
      | (b, None) \<Rightarrow>
          let c1 = wrote b c;
              c2 = (if cf_timeout cf then net_op (NDeadline DlWrite True) c1 else c1);
              (c3, err) = net_write b c2
          in (c3\<lparr>linger := (err = None \<and> \<not> isSuccess rep)\<rparr>, err))"

definition Reply :: "sconfig \<Rightarrow> reply \<Rightarrow> addr \<Rightarrow> conn \<Rightarrow> conn \<times> error option" where
  "Reply cf rep bound c =
     (if \<not> live c then (c, Some (ESent ErrReplied))
      else case writeReply cf rep bound (c\<lparr>replied := True\<rparr>) of
        (c1, err) \<Rightarrow>
          let c2 = hook cf (TReplied rep bound err) c1 in
          case err of
            Some e \<Rightarrow> (net_op NClose c2, Some e)
          | None \<Rightarrow>
              if \<not> isSuccess rep then
                (if closeWrite c2 \<noteq> None then net_op NCloseWrite c2 else c2,
                 Some (EReply rep bound (if rq_Version (req c) = V4 then 4 else 5)))
              else (net_op (NDeadline DlBoth False) c2, None))"

definition ReplyListening :: "sconfig \<Rightarrow> addr \<Rightarrow> conn \<Rightarrow> conn \<times> error option" where
  "ReplyListening cf bound c =
     (if rq_Command (req c) \<noteq> CmdBind then (c, Some (ESent errNotBind))
      else if \<not> live c then (c, Some (ESent ErrReplied))
      else if listening c then (c, Some (ESent ErrReplied))
      else case writeReply cf ReplySucceeded bound c of
        (c1, err) \<Rightarrow>
          let c2 = hook cf (TReplied ReplySucceeded bound err)
                     (c1\<lparr>listening := (err = None), replied := (err \<noteq> None)\<rparr>)
          in case err of
               Some e \<Rightarrow> (net_op NClose c2, Some e)
             | None \<Rightarrow> (net_op (NDeadline DlWrite False) c2, None))"

section \<open>The end of a conn\<close>

definition fallbackReply :: "sconfig \<Rightarrow> error option \<Rightarrow> conn \<Rightarrow> conn \<times> bool" where
  "fallbackReply cf err c =
     (if \<not> live c then (c, False)
      else
        let rep0 = ReplyFor err;
            rep = (if isSuccess rep0 then ReplyGeneralFailure else rep0);
            (c1, werr) = writeReply cf rep zeroAddr (c\<lparr>replied := True\<rparr>)
        in (hook cf (TReplied rep zeroAddr werr) c1, True))"

definition finish :: "sconfig \<Rightarrow> bool \<Rightarrow> error option \<Rightarrow> tunnel \<Rightarrow> tunnel \<times> error option" where
  "finish cf hasReq err t =
     (let (t1, err1) =
        (if hasReq then
           (case fallbackReply cf err (tc t) of
              (c, fell) \<Rightarrow> (t\<lparr>tc := c\<rparr>, if fell \<and> err = None then Some (ESent ErrNoReply) else err))
         else (t, err));
          t2 = end_conn t1
      in (t2\<lparr>tc := hook cf (TDone hasReq err1) (tc t2)\<rparr>, err1))"

fun addr_text :: "netaddr \<Rightarrow> string option" where
  "addr_text NilAddr = None"
| "addr_text (TCPAddr ap) = Some (ap_String ap)"
| "addr_text (UDPAddr ap) = Some (ap_String ap)"
| "addr_text (TextAddr s) = Some s"

text \<open>\<open>network\<close> is what \<open>Network()\<close> of the local address returns.\<close>

definition opError :: "string \<Rightarrow> netaddr \<Rightarrow> netaddr \<Rightarrow> string \<times> error \<Rightarrow> error" where
  "opError network local remote se =
     EOp ''socks serve'' (if local = NilAddr then [] else network) (addr_text local) (addr_text remote)
       (EHandshake (fst se) (Some (snd se)))"

section \<open>Handlers\<close>

datatype hprog =
    HRet "error option"
  | HPanic string
  | HReply reply addr "error option \<Rightarrow> hprog"
  | HListening addr "error option \<Rightarrow> hprog"
  | HEarly "bytes \<Rightarrow> hprog"
  | HPeek int "error option" stream "bytes \<Rightarrow> error option \<Rightarrow> hprog"
  | HRead nat "bytes \<Rightarrow> error option \<Rightarrow> hprog"
  | HWriteTo "bytes \<Rightarrow> error option \<Rightarrow> hprog"
  | HWrite bytes "error option \<Rightarrow> hprog"
  | HNetConn "bytes \<Rightarrow> hprog"
  | HCloseWrite "error option \<Rightarrow> hprog"
  | HClose hprog

text \<open>A run ends with the handler's error or its panic. \<open>conn\<close> says that a successful \<open>Reply\<close> gave the
  handler its conn; a call on a nil conn panics.\<close>

definition nilConn :: "tunnel \<Rightarrow> (tunnel \<times> (string + error option)) option" where
  "nilConn t = Some (t, Inl ''runtime error: invalid memory address or nil pointer dereference'')"

primrec run_handler ::
  "sconfig \<Rightarrow> hprog \<Rightarrow> bool \<Rightarrow> tunnel \<Rightarrow> (tunnel \<times> (string + error option)) option" where
  "run_handler cf (HRet e) hasConn t = Some (t, Inr e)"
| "run_handler cf (HPanic v) hasConn t = Some (t, Inl v)"
| "run_handler cf (HReply rep bound k) hasConn t =
     (case Reply cf rep bound (tc t) of (c, r) \<Rightarrow> run_handler cf (k r) (hasConn \<or> r = None) (t\<lparr>tc := c\<rparr>))"
| "run_handler cf (HListening bound k) hasConn t =
     (case ReplyListening cf bound (tc t) of (c, r) \<Rightarrow> run_handler cf (k r) hasConn (t\<lparr>tc := c\<rparr>))"
| "run_handler cf (HEarly k) hasConn t =
     (case Early (tc t) of (c, b) \<Rightarrow> run_handler cf (k b) hasConn (t\<lparr>tc := c\<rparr>))"
| "run_handler cf (HPeek n ctxErr later k) hasConn t =
     Option.bind (Peek cf ctxErr later n (tc t))
       (\<lambda>(c, b, e). run_handler cf (k b e) hasConn (t\<lparr>tc := c\<rparr>))"
| "run_handler cf (HRead n k) hasConn t =
     (if hasConn then (case Conn_Read n t of (t1, b, e) \<Rightarrow> run_handler cf (k b e) hasConn t1) else nilConn t)"
| "run_handler cf (HWriteTo k) hasConn t =
     (if hasConn then (case Conn_WriteTo t of (t1, b, e) \<Rightarrow> run_handler cf (k b e) hasConn t1) else nilConn t)"
| "run_handler cf (HWrite b k) hasConn t =
     (if hasConn then (case Conn_Write b t of (t1, e) \<Rightarrow> run_handler cf (k e) hasConn t1) else nilConn t)"
| "run_handler cf (HNetConn k) hasConn t =
     (if hasConn then (case NetConn t of (t1, b) \<Rightarrow> run_handler cf (k b) hasConn t1) else nilConn t)"
| "run_handler cf (HCloseWrite k) hasConn t =
     (if hasConn then (case Conn_CloseWrite t of (t1, e) \<Rightarrow> run_handler cf (k e) hasConn t1) else nilConn t)"
| "run_handler cf (HClose k) hasConn t =
     (if hasConn then run_handler cf k hasConn (Conn_Close t) else nilConn t)"

text \<open>
  \<open>serve\<close>. \<open>admit\<close> is \<open>Admit\<close>'s error; \<open>active\<close> is the result of \<open>activate\<close>, false if \<open>Shutdown\<close> or \<open>Close\<close>
  came first.
\<close>

definition serve ::
  "sconfig \<Rightarrow> string \<Rightarrow> netaddr \<Rightarrow> netaddr \<Rightarrow> error option \<Rightarrow> bool \<Rightarrow> hprog \<Rightarrow> conn
   \<Rightarrow> (tunnel \<times> error option) option" where
  "serve cf network local remote admit active handler c =
     (case admit of
        Some e \<Rightarrow> Some (finish cf False (Some e) (newTunnel c))
      | None \<Rightarrow>
          Option.bind (handshake cf local remote c)
            (\<lambda>(c1, r).
               case r of
                 Some se \<Rightarrow>
                   Some (finish cf False (Some (opError network local remote se)) (newTunnel (fst (flush c1))))
               | None \<Rightarrow>
                   if \<not> active then Some (finish cf False (Some (ESent ErrServerClosed)) (newTunnel c1))
                   else
                     let c2 = hook cf TGotRequest c1 in
                     case (case cf_Allow cf of None \<Rightarrow> None | Some vet_it \<Rightarrow> vet_it (req c2)) of
                       Some e \<Rightarrow> Some (finish cf True (Some e) (newTunnel c2))
                     | None \<Rightarrow>
                         Option.bind (run_handler cf handler False (newTunnel c2))
                           (\<lambda>(t, res).
                              case res of
                                Inr e \<Rightarrow> Some (finish cf True e t)
                              | Inl v \<Rightarrow> Some (finish cf True (Some (EPanic v (replied (tc t)))) t))))"

section \<open>Frames for any writes\<close>

lemma next_msg_value:
  assumes a: "next_msg stage limit parse c = Some (c', Inr (v, m))"
  shows "\<exists>b n. parse b = (v, n, None) \<and> 0 \<le> n \<and> n \<le> int (length b) \<and> m = take (nat n) b"
proof -
  define P where "P p (r :: conn \<times> (error + 'a \<times> bytes)) \<longleftrightarrow>
     (\<forall>v m. snd r = Inr (v, m) \<longrightarrow> (\<exists>b n. p b = (v, n, None) \<and> 0 \<le> n \<and> n \<le> int (length b) \<and> m = take (nat n) b))"
    for p :: "bytes \<Rightarrow> 'a \<times> int \<times> error option" and r
  have "P parse (c', Inr (v, m))"
  proof (rule next_msg.raw_induct [OF _ a, where P = "\<lambda>st l p c r. P p r"])
    fix f :: "string \<Rightarrow> nat \<Rightarrow> (bytes \<Rightarrow> 'a \<times> int \<times> error option) \<Rightarrow> conn \<Rightarrow> (conn \<times> (error + 'a \<times> bytes)) option"
      and st l p c r
    assume ih: "\<And>l p c b y. f l p c b = Some y \<Longrightarrow> P c y"
      and r: "(let b = pending c
      in case p b of
         (v, n, None) \<Rightarrow>
           if n < 0 \<or> int (length b) < n then Some (c, Inl (protoErr st errContract))
           else Some (c\<lparr>rpos := rpos c + nat n\<rparr>, Inr (v, take (nat n) b))
         | (v, n, Some e) \<Rightarrow>
             if \<not> is_incomplete e then Some (c, Inl e)
             else let need = max n (int (length b) + 1)
                  in if int l < need then Some (c, Inl (protoErr st errTooLong))
                     else Option.bind (fill (nat need) c)
                           (\<lambda>(c1, e1).
                               case e1 of
                               None \<Rightarrow> f st l p c1
                               | Some err \<Rightarrow>
                                   if wpos c1 - rpos c1 = length b then Some (c1, Inl (Truncated st err))
                                   else f st l p c1)) = Some r"
    obtain v n e where pb: "p (pending c) = (v, n, e)" by (metis surj_pair)
    show "P p r"
    proof (cases e)
      case None
      show ?thesis
      proof (cases "n < 0 \<or> int (length (pending c)) < n")
        case False
        then have "r = (c\<lparr>rpos := rpos c + nat n\<rparr>, Inr (v, take (nat n) (pending c)))"
          using r None pb by (auto simp: Let_def)
        then show ?thesis
          using False None pb by (auto simp: P_def intro!: exI [of _ "pending c"] exI [of _ n])
      qed (use r None pb in \<open>auto simp: Let_def P_def\<close>)
    next
      case (Some x)
      let ?k = "max n (int (length (pending c)) + 1)"
      consider (fail) y z where "r = (y, Inl z)" | (again) c1 where "f st l p c1 = Some r"
      proof (cases "is_incomplete x \<and> \<not> int l < ?k")
        case False
        then show ?thesis using r pb Some fail by (auto simp: Let_def split: if_splits)
      next
        case True
        then have "Option.bind (fill (nat ?k) c)
            (\<lambda>(c1, e1). case e1 of
               None \<Rightarrow> f st l p c1
             | Some err \<Rightarrow> if wpos c1 - rpos c1 = length (pending c) then Some (c1, Inl (Truncated st err))
                            else f st l p c1) = Some r"
          using r pb Some by (simp add: Let_def)
        then show ?thesis
          using fail again by (auto simp: bind_eq_Some_conv split: option.splits if_splits)
      qed
      then show ?thesis by cases (use ih in \<open>auto simp: P_def\<close>)
    qed
  qed
  then show ?thesis by (simp add: P_def)
qed

lemma fill_quiet:
  assumes a: "fill need c = Some (c', e)"
  shows "out c = [] \<Longrightarrow> writeErr c = None \<Longrightarrow> out c' = [] \<and> writeErr c' = None \<and> writes c' = writes c"
proof -
  have "out c = [] \<longrightarrow> writeErr c = None \<longrightarrow> out (fst (c', e)) = [] \<and> writeErr (fst (c', e)) = None
      \<and> writes (fst (c', e)) = writes c"
  proof (rule fill.raw_induct [OF _ a, where P = "\<lambda>n c r. out c = [] \<longrightarrow> writeErr c = None \<longrightarrow>
        out (fst r) = [] \<and> writeErr (fst r) = None \<and> writes (fst r) = writes c"])
    fix f :: "nat \<Rightarrow> conn \<Rightarrow> (conn \<times> error option) option" and need c r
    assume ih: "\<And>c b y. f c b = Some y \<Longrightarrow> out b = [] \<longrightarrow> writeErr b = None \<longrightarrow>
        out (fst y) = [] \<and> writeErr (fst y) = None \<and> writes (fst y) = writes b"
      and r: "(if need \<le> wpos c - rpos c then Some (c, None)
      else if readErr c \<noteq> None then Some (c, readErr c)
           else case flush c of
                (c1, None) \<Rightarrow> f need (fill_read (compact need c1))
                | (c1, Some e) \<Rightarrow> Some (c1, Some e)) = Some r"
    show "out c = [] \<longrightarrow> writeErr c = None \<longrightarrow>
        out (fst r) = [] \<and> writeErr (fst r) = None \<and> writes (fst r) = writes c"
    proof (intro impI)
      assume q: "out c = []" "writeErr c = None"
      have fl: "flush c = (c, None)" using q by (simp add: flush_def)
      note o = fill_read_out [of "compact need c"] compact_out [of need c]
      show "out (fst r) = [] \<and> writeErr (fst r) = None \<and> writes (fst r) = writes c"
      proof (cases "need \<le> wpos c - rpos c \<or> readErr c \<noteq> None")
        case True
        then have "fst r = c" using r by (cases r) (auto split: if_splits)
        then show ?thesis using q by simp
      next
        case False
        then have "f need (fill_read (compact need c)) = Some r" using r fl by simp
        then show ?thesis using ih [of need "fill_read (compact need c)" r] q o by simp
      qed
    qed
  qed
  then show "out c = [] \<Longrightarrow> writeErr c = None \<Longrightarrow> out c' = [] \<and> writeErr c' = None \<and> writes c' = writes c"
    by simp
qed

section \<open>Peek loses nothing\<close>

lemma pending_take: "conn_inv c \<Longrightarrow> m \<le> length (pending c) \<Longrightarrow> take m (pending c) = take m (undelivered c)"
  by (simp add: undelivered_def)

lemma slice_peek:
  assumes "conn_inv c"
  shows "slice (rpos c) (min (wpos c) (rpos c + m)) (inBuf c) = take m (pending c)"
proof -
  have "min (wpos c) (rpos c + m) - rpos c = min m (wpos c - rpos c)"
    using conn_invD(2) [OF assms] by arith
  then show ?thesis by (simp add: pending_def slice_def)
qed

text \<open>What \<open>fillCtx\<close> does to a conn with nothing queued.\<close>

lemma fillCtx_result:
  assumes inv: "conn_inv c" and lm: "lastMsg c = (0, 0)" and q: "out c = []" "writeErr c = None"
    and n: "n \<le> inSize"
  shows "\<exists>c' e. fillCtx cf ctxErr later n c = Some (c', e) \<and> conn_inv c' \<and> engine_frame c c'
    \<and> out c' = [] \<and> writeErr c' = None
    \<and> (if n \<le> length (undelivered c)
       then e = None \<and> n \<le> length (pending c') \<and> undelivered c' = undelivered c
         \<and> stream_end (rd c') = stream_end (rd c)
       else pending c' = undelivered c
         \<and> (if IsS (stream_end (rd c)) OsErrDeadlineExceeded
            then rd c' = later \<and> e = (case ctxErr of Some x \<Rightarrow> Some x | None \<Rightarrow> Some (stream_end (rd c)))
            else rd c' = Stop [] (stream_end (rd c)) \<and> e = Some (stream_end (rd c))))"
proof -
  let ?c0 = "net_op (NDeadline DlRead (cf_timeout cf)) c"
  have c0: "conn_inv ?c0" "lastMsg ?c0 = (0, 0)" "undelivered ?c0 = undelivered c" "engine_frame c ?c0"
    "out ?c0 = []" "writeErr ?c0 = None" "stream_end (rd ?c0) = stream_end (rd c)"
    using inv lm q by (simp_all add: net_op_def conn_inv_def undelivered_def pending_def engine_frame_def)
  obtain c1 e where f: "fill n ?c0 = Some (c1, e)" "fill_post n ?c0 c1 e" using fill_spec [OF c0(1,2) n] by blast
  note q1 = fill_quiet [OF f(1) c0(5,6)]
  have p1: "conn_inv c1" "undelivered c1 = undelivered c" "stream_end (rd c1) = stream_end (rd c)"
    "engine_frame c c1"
    using f(2) c0 engine_frame_trans [of c ?c0 c1] by (auto simp: fill_post_def)
  let ?c2 = "net_op (NDeadline DlRead False) c1"
  have p2: "conn_inv ?c2" "pending ?c2 = pending c1" "rd ?c2 = rd c1" "engine_frame c ?c2" "out ?c2 = []"
    "writeErr ?c2 = None" "undelivered ?c2 = undelivered c" "length (pending c1) = wpos c1 - rpos c1"
    using p1 q1 length_pending [OF p1(1)]
    by (simp_all add: net_op_def conn_inv_def undelivered_def pending_def engine_frame_def)
  have inv3: "conn_inv (?c2\<lparr>readErr := None, rd := later\<rparr>)"
    using conn_invD(1-7) [OF p2(1)] by (intro conn_invI) simp_all
  show ?thesis
  proof (cases e)
    case None
    then have n1: "n \<le> length (pending c1)" using f(2) p2 by (simp add: fill_post_def)
    have "length (pending c1) \<le> length (undelivered c1)" by (simp add: undelivered_def)
    then have "n \<le> length (undelivered c)" using n1 p1(2) by simp
    then show ?thesis
      using None f(1) p1 p2 n1 by (auto simp: fillCtx_def Let_def)
  next
    case (Some x)
    have "readErr c1 = Some x" "wpos c1 - rpos c1 < n" using f(2) q1 Some by (auto simp: fill_post_def)
    then have r: "rd c1 = Stop [] x" using conn_invD(8) [OF p1(1)] by blast
    then have x: "x = stream_end (rd c)" "pending c1 = undelivered c" using p1 by (auto simp: undelivered_def)
    have short: "\<not> n \<le> length (undelivered c)" using x p2(8) \<open>wpos c1 - rpos c1 < n\<close> by simp
    have pend: "pending (?c2\<lparr>readErr := None, rd := later\<rparr>) = pending c1"
      by (simp add: pending_def net_op_def)
    have fr: "engine_frame c (?c2\<lparr>readErr := None, rd := later\<rparr>)"
      using p2(4) by (simp add: engine_frame_def)
    show ?thesis
      using Some f(1) p2 short x r inv3 pend fr
      by (cases "IsS x OsErrDeadlineExceeded") (auto simp: fillCtx_def Let_def split: option.splits)
  qed
qed

text \<open>\<open>Peek\<close> shows the first bytes after the request and takes none of them: it returns the first
  \<open>n\<close> (at most 2048) of the bytes the client sent, with an error exactly when there are fewer or more
  than 2048 were asked for. A read that times out loses nothing either: the error is \<open>ctx\<close>'s, if
  \<open>ctx\<close> ended, and what comes later still follows what had arrived.\<close>

theorem Peek_loses_nothing:
  assumes inv: "conn_inv c" and lm: "lastMsg c = (0, 0)" and q: "out c = []" "writeErr c = None"
    and l: "live c"
  shows "\<exists>c' e. Peek cf ctxErr later n c = Some (c', take (min (nat n) inSize) (undelivered c), e)
    \<and> conn_inv c' \<and> live c' \<and> lastMsg c' = (0, 0) \<and> out c' = [] \<and> writeErr c' = None
    \<and> undelivered c' = undelivered c
        @ (if length (undelivered c) < min (nat n) inSize \<and> IsS (stream_end (rd c)) OsErrDeadlineExceeded
           then stream_bytes later else [])
    \<and> (e = None \<longleftrightarrow> nat n \<le> inSize \<and> nat n \<le> length (undelivered c))
    \<and> (length (undelivered c) < min (nat n) inSize \<longrightarrow>
         e = Some (case (ctxErr, IsS (stream_end (rd c)) OsErrDeadlineExceeded) of
                     (Some x, True) \<Rightarrow> x | _ \<Rightarrow> stream_end (rd c)))"
proof -
  define full where "full = (max n 0 > int inSize)"
  define m where "m = (if full then inSize else nat n)"
  define err0 where "err0 = (if full then Some (ESent BufioErrBufferFull) else None)"
  have m: "m = min (nat n) inSize" "m \<le> inSize" "full = (nat n > inSize)"
    by (auto simp: m_def full_def min_def)
  have run: "Peek cf ctxErr later n c = Option.bind
             (if wpos c - rpos c < m then fillCtx cf ctxErr later m c else Some (c, None))
             (\<lambda>(c1, ferr).
                let e = min (wpos c1) (rpos c1 + m);
                    c2 = (if e > rpos c1 then c1\<lparr>exposed := True\<rparr> else c1)
                in Some (c2, slice (rpos c2) e (inBuf c2), if ferr \<noteq> None then ferr else err0))"
    unfolding Peek_def Let_def full_def m_def err0_def using l by (simp only: if_False not_True_eq_False not_not)
  have last: "\<exists>c'. Some (c', take m (pending c1), e) =
        (let e' = min (wpos c1) (rpos c1 + m); c2 = (if e' > rpos c1 then c1\<lparr>exposed := True\<rparr> else c1)
         in Some (c2, slice (rpos c2) e' (inBuf c2), e))
      \<and> conn_inv c' \<and> live c' = live c1 \<and> lastMsg c' = lastMsg c1 \<and> out c' = out c1 \<and> writeErr c' = writeErr c1
      \<and> undelivered c' = undelivered c1"
    if "conn_inv c1" for c1 and e :: "error option"
    using that slice_peek [OF that, of m]
    by (cases "min (wpos c1) (rpos c1 + m) > rpos c1")
      (auto simp: Let_def conn_inv_def live_def undelivered_def pending_def)
  show ?thesis
  proof (cases "wpos c - rpos c < m")
    case False
    have ml: "m \<le> length (pending c)" using False length_pending [OF inv] by simp
    moreover have "length (pending c) \<le> length (undelivered c)" by (simp add: undelivered_def)
    ultimately have mu: "m \<le> length (undelivered c)" by simp
    obtain c' where "Some (c', take m (pending c), err0) = Peek cf ctxErr later n c"
      "conn_inv c'" "live c' = live c" "lastMsg c' = lastMsg c" "out c' = out c" "writeErr c' = writeErr c"
      "undelivered c' = undelivered c"
      using last [OF inv, of err0] run False by auto
    then show ?thesis
      using ml mu pending_take [OF inv ml] m l lm q
      by (intro exI [of _ c'] exI [of _ err0]) (auto simp: err0_def)
  next
    case True
    obtain c1 e where f: "fillCtx cf ctxErr later m c = Some (c1, e)" "conn_inv c1" "engine_frame c c1"
      "out c1 = []" "writeErr c1 = None"
      and r: "if m \<le> length (undelivered c)
       then e = None \<and> m \<le> length (pending c1) \<and> undelivered c1 = undelivered c
         \<and> stream_end (rd c1) = stream_end (rd c)
       else pending c1 = undelivered c
         \<and> (if IsS (stream_end (rd c)) OsErrDeadlineExceeded
            then rd c1 = later \<and> e = (case ctxErr of Some x \<Rightarrow> Some x | None \<Rightarrow> Some (stream_end (rd c)))
            else rd c1 = Stop [] (stream_end (rd c)) \<and> e = Some (stream_end (rd c)))"
      using fillCtx_result [OF inv lm q m(2), of cf ctxErr later] by blast
    define e' where "e' = (if e \<noteq> None then e else err0)"
    have run1: "Peek cf ctxErr later n c =
        (let k = min (wpos c1) (rpos c1 + m); c2 = (if k > rpos c1 then c1\<lparr>exposed := True\<rparr> else c1)
         in Some (c2, slice (rpos c2) k (inBuf c2), e'))"
      unfolding run using True f(1) by (simp add: Let_def e'_def)
    obtain c' where c': "Peek cf ctxErr later n c = Some (c', take m (pending c1), e')"
      "conn_inv c'" "live c' = live c1" "lastMsg c' = lastMsg c1" "out c' = out c1" "writeErr c' = writeErr c1"
      "undelivered c' = undelivered c1"
      using last [OF f(2), of e'] unfolding run1 by metis
    have fr: "live c1" "lastMsg c1 = (0, 0)" using f(3) l lm by (simp_all add: engine_frame_def live_def)
    show ?thesis
    proof (cases "m \<le> length (undelivered c)")
      case True
      then have e: "e = None" "m \<le> length (pending c1)" "undelivered c1 = undelivered c" using r by simp_all
      then show ?thesis
        using c' True fr f m pending_take [OF f(2) e(2)]
        by (intro exI [of _ c'] exI [of _ e']) (auto simp: e'_def err0_def)
    next
      case False
      then have p: "pending c1 = undelivered c" using r by simp
      have "e \<noteq> None" using r False by (auto split: if_splits option.splits)
      then have e': "e' = e" by (simp add: e'_def)
      show ?thesis
        using c' False fr f m p r e'
        by (intro exI [of _ c'] exI [of _ e'])
          (auto simp: undelivered_def split: if_splits option.splits)
    qed
  qed
qed

lemma Peek_loses_nothing_witness:
  "\<exists>c'. Peek openConfig (Some (ESent CtxCanceled)) (Stop [9] (ESent IoEOF)) 4
     (tc (quietTunnel (Stop [5] (ESent OsErrDeadlineExceeded)))) = Some (c', [2, 3, 5], Some (ESent CtxCanceled))
     \<and> undelivered c' = [2, 3, 5, 9]"
proof -
  let ?c = "tc (quietTunnel (Stop [5] (ESent OsErrDeadlineExceeded)))"
  have i: "conn_inv ?c" using quietTunnel_inv by (simp add: tunnel_inv_def)
  have r: "lastMsg ?c = (0, 0)" "out ?c = []" "writeErr ?c = None" "live ?c"
    "rd ?c = Stop [5] (ESent OsErrDeadlineExceeded)" "pending ?c = [2, 3]"
    by (simp_all add: quietTunnel_def newTunnel_def newConn_def live_def pending_def slice_def)
  have t: "IsS (ESent OsErrDeadlineExceeded) OsErrDeadlineExceeded" by (simp add: err_Is_def)
  show ?thesis
    using Peek_loses_nothing [OF i r(1-4), of openConfig "Some (ESent CtxCanceled)" "Stop [9] (ESent IoEOF)" 4] r t
    by (auto simp: undelivered_def inSize_def)
qed

end
