(* ===== verification/ServerServe.thy ===== *)
theory ServerServe
  imports ServerReply
begin

text \<open>
  What \<open>serve\<close> guarantees, whatever the client sends, the writes return and the handler does: it
  returns, it answers every request it activated exactly once (twice for a BIND that announced
  its listener), it never claims a success the handler did not, and it gives its buffer back
  cleared. The bytes sent after the request reach the handler's conn.
\<close>

section \<open>The handshake, for any writes\<close>

fun is_TReplied :: "tevent \<Rightarrow> bool" where
  "is_TReplied (TReplied rep bound err) = True"
| "is_TReplied _ = False"

definition reply_events :: "conn \<Rightarrow> tevent list" where
  "reply_events c = filter is_TReplied (trace c)"

text \<open>\<open>ev\<close> records one reply that is no success.\<close>

definition one_refusal :: "sconfig \<Rightarrow> tevent list \<Rightarrow> bool" where
  "one_refusal cf ev = (if cf_hooks cf then \<exists>rep b e. ev = [TReplied rep b e] \<and> \<not> isSuccess rep else ev = [])"

definition hs_post :: "sconfig \<Rightarrow> conn \<Rightarrow> conn \<Rightarrow> bool \<Rightarrow> bool" where
  "hs_post cf c c' failed =
     (conn_inv c' \<and> lastMsg c' = (0, 0) \<and> hasBuf c' = hasBuf c \<and> listening c' = listening c \<and> doneC c' = doneC c
      \<and> (replied c' = replied c \<and> reply_events c' = reply_events c
         \<or> failed \<and> replied c' \<and> (\<exists>ev. reply_events c' = reply_events c @ ev \<and> one_refusal cf ev)))"

lemma hs_post_trans: "hs_post cf c c1 False \<Longrightarrow> hs_post cf c1 c2 f \<Longrightarrow> hs_post cf c c2 f"
  unfolding hs_post_def by auto

lemma hs_post_weaken: "hs_post cf c c1 False \<Longrightarrow> hs_post cf c c1 f"
  unfolding hs_post_def by auto

lemma hs_post_invD: "hs_post cf c c' f \<Longrightarrow> conn_inv c' \<and> lastMsg c' = (0, 0)"
  by (simp add: hs_post_def)

lemma hs_post_refl: "conn_inv c \<Longrightarrow> lastMsg c = (0, 0) \<Longrightarrow> hs_post cf c c f"
  by (simp add: hs_post_def)

lemma hs_post_hook:
  "hs_post cf c c' f \<Longrightarrow> \<not> is_TReplied e \<Longrightarrow> hs_post cf c (hook cf e c') f"
  by (simp add: hs_post_def hook_def conn_inv_def reply_events_def)

lemma hs_post_fields [simp]:
  "hs_post cf c (c'\<lparr>req := q\<rparr>) f = hs_post cf c c' f" "hs_post cf c (c'\<lparr>linger := l\<rparr>) f = hs_post cf c c' f"
  "hs_post cf c (c'\<lparr>exposed := x\<rparr>) f = hs_post cf c c' f" "hs_post cf c (c'\<lparr>out := y\<rparr>) f = hs_post cf c c' f"
  "hs_post cf c (queue b st c') f = hs_post cf c c' f" "hs_post cf c (net_op z c') f = hs_post cf c c' f"
  by (simp_all add: hs_post_def conn_inv_def reply_events_def queue_def wrote_def net_op_def)

lemma hs_post_next:
  assumes "next_post c c' res" and "lastMsg c = (0, 0)"
  shows "hs_post cf c c' f"
  using assms by (simp add: next_post_def hs_post_def engine_frame_def reply_events_def)

lemma hs_post_fill:
  assumes "fill_post n c c' res" and "lastMsg c = (0, 0)"
  shows "hs_post cf c c' f"
  using assms by (simp add: fill_post_def hs_post_def engine_frame_def reply_events_def)

lemma hs_post_flush:
  assumes "hs_post cf c c' f" and "flush c' = (c'', e)"
  shows "hs_post cf c c'' f"
proof -
  have s: "same_input c' c''" "auth_frame c' c''" using flush_steps [of c'] assms(2) by simp_all
  show ?thesis
    using assms(1) same_input_inv [OF s(1)] s
    by (simp add: hs_post_def auth_frame_def same_input_def reply_events_def)
qed

lemma hs_post_replyNow:
  assumes "hs_post cf c c' False" and "\<not> isSuccess rep"
  shows "hs_post cf c (replyNow cf rep c') True"
proof -
  let ?c1 = "c'\<lparr>replied := True\<rparr>"
  let ?o = "fst (appendReply (rq_Version (req c')) (out c') rep zeroAddr)"
  obtain c3 err where f: "flush (queue ?o StageReply ?c1) = (c3, err)" by (cases "flush (queue ?o StageReply ?c1)")
  have p: "hs_post cf ?c1 (queue ?o StageReply ?c1) False"
  proof -
    have "conn_inv ?c1" "lastMsg ?c1 = (0, 0)" using assms(1) by (simp_all add: hs_post_def conn_inv_def)
    then show ?thesis using hs_post_refl [of ?c1 cf False] by simp
  qed
  have 3: "conn_inv c3" "lastMsg c3 = (0, 0)" "hasBuf c3 = hasBuf c" "listening c3 = listening c" "doneC c3 = doneC c"
    "replied c3" "reply_events c3 = reply_events c"
    using hs_post_flush [OF p f] assms(1) by (auto simp: hs_post_def reply_events_def)
  have eq: "replyNow cf rep c' = hook cf (TReplied rep zeroAddr err) (c3\<lparr>linger := err = None \<and> \<not> isSuccess rep\<rparr>)"
    using f by (simp add: replyNow_def Let_def)
  show ?thesis
    unfolding eq using 3 assms(2)
    by (auto simp: hs_post_def hook_def conn_inv_def reply_events_def one_refusal_def)
qed

lemma authenticate_any:
  assumes "conn_inv c" and "lastMsg c = (0, 0)"
  shows "\<exists>c' r. authenticate h a c = Some (c', r) \<and> hs_post cf c c' False"
proof (cases "a = NoAuth")
  case True
  then show ?thesis using hs_post_refl assms by (simp add: authenticate_def)
next
  case False
  let ?c = "c\<lparr>authenticating := True\<rparr>"
  have "conn_inv ?c" using assms(1) by (simp add: conn_inv_def)
  then obtain c1 r where c1: "run_auth (Authenticate h a) ?c = Some (c1, r)" "conn_inv c1" "auth_frame ?c c1"
    using run_auth_total by blast
  let ?c2 = "clearLastMsg (c1\<lparr>authenticating := False\<rparr>)"
  have "conn_inv (c1\<lparr>authenticating := False\<rparr>)" using c1(2) by (simp add: conn_inv_def)
  note k = clearLastMsg_facts [OF this]
  have fr: "hasBuf ?c2 = hasBuf c" "listening ?c2 = listening c" "doneC ?c2 = doneC c" "replied ?c2 = replied c"
    "trace ?c2 = trace c"
    using c1(3) by (simp_all add: clearLastMsg_def auth_frame_def Let_def split: prod.splits)
  have p: "hs_post cf c ?c2 False" using k fr by (simp add: hs_post_def reply_events_def)
  then show ?thesis
    using False c1(1) by (cases r) (simp_all add: authenticate_def Let_def)
qed

lemma readGreeting_any:
  assumes "conn_inv c" and "lastMsg c = (0, 0)"
  shows "\<exists>c' r. readGreeting cf c = Some (c', r) \<and> hs_post cf c c' False"
proof -
  obtain c1 res where n: "next_msg StageGreeting (2 + 255) (intp (ParseGreeting [])) c = Some (c1, res)"
    "next_post c c1 res"
    using next_total [OF assms, of "2 + 255" StageGreeting "intp (ParseGreeting [])"] by (auto simp: inSize_def)
  note p = hs_post_next [OF n(2) assms(2), of cf False]
  show ?thesis
  proof (cases res)
    case (Inl e)
    then show ?thesis using n p by (simp add: readGreeting_def)
  next
    case (Inr x)
    then show ?thesis using n p by (cases x) (auto simp: readGreeting_def Let_def intro!: hs_post_hook)
  qed
qed

lemma authenticate5_any:
  assumes "conn_inv c" and "lastMsg c = (0, 0)"
  shows "\<exists>c' r. authenticate5 cf c = Some (c', r) \<and> hs_post cf c c' False"
proof -
  obtain c1 g where g: "readGreeting cf c = Some (c1, g)" "hs_post cf c c1 False"
    using readGreeting_any [OF assms] by blast
  show ?thesis
  proof (cases g)
    case (Inl e)
    then show ?thesis using g by (simp add: authenticate5_def)
  next
    case (Inr methods)
    show ?thesis
    proof (cases "choose_auth (cf_auth cf) methods")
      case None
      then show ?thesis using g Inr by (simp add: authenticate5_def)
    next
      case (Some a)
      define c2 where "c2 = queue (AppendMethodSelection (out c1) (auth_Method a)) StageMethodSelection c1"
      define c3 where "c3 = c2\<lparr>req := (req c2)\<lparr>rq_Method := auth_Method a\<rparr>\<rparr>"
      have p3: "hs_post cf c c3 False" using g(2) by (simp add: c3_def c2_def)
      obtain c4 r where a: "authenticate (cf_sha256 cf) a c3 = Some (c4, r)" "hs_post cf c3 c4 False"
        using authenticate_any hs_post_invD [OF p3] by blast
      note p4 = hs_post_trans [OF p3 a(2)]
      show ?thesis
        using g(1) Inr Some a(1) p4
        by (cases r) (auto simp: authenticate5_def Let_def intro!: hs_post_hook simp flip: c2_def c3_def)
    qed
  qed
qed

lemma readRequest5_any:
  assumes "conn_inv c" and "lastMsg c = (0, 0)"
  shows "\<exists>c' r. readRequest5 cf c = Some (c', r) \<and> hs_post cf c c' (r \<noteq> None)"
proof -
  obtain c1 res where n: "next_msg StageRequest MaxReplyLen (intp ParseRequest) c = Some (c1, res)"
    "next_post c c1 res"
    using next_total [OF assms, of MaxReplyLen StageRequest "intp ParseRequest"] by (auto simp: inSize_def MaxReplyLen_262)
  note p = hs_post_next [OF n(2) assms(2), of cf False]
  show ?thesis
  proof (cases res)
    case (Inl e)
    have "hs_post cf c (replyNow cf ReplyAddressTypeNotSupported (c1\<lparr>req := (req c1)\<lparr>rq_Version := V5\<rparr>\<rparr>)) True"
      using p by (intro hs_post_replyNow) (simp_all add: isSuccess_def reply_defs)
    then show ?thesis using n Inl hs_post_weaken [OF p] by (simp add: readRequest5_def)
  next
    case (Inr x)
    then show ?thesis using n p by (cases x) (auto simp: readRequest5_def)
  qed
qed

lemma handshake5_any:
  assumes "conn_inv c" and "lastMsg c = (0, 0)"
  shows "\<exists>c' r. handshake5 cf c = Some (c', r) \<and> hs_post cf c c' (r \<noteq> None)"
proof -
  obtain c1 r where a: "authenticate5 cf c = Some (c1, r)" "hs_post cf c c1 False"
    using authenticate5_any [OF assms] by blast
  obtain c2 r2 where b: "readRequest5 cf c1 = Some (c2, r2)" "hs_post cf c1 c2 (r2 \<noteq> None)"
    using readRequest5_any hs_post_invD [OF a(2)] by blast
  show ?thesis
    using a b hs_post_trans [OF a(2) b(2)] hs_post_weaken [OF a(2)]
    by (cases r) (auto simp: handshake5_def)
qed

lemma hs_post_clear_uid:
  assumes "hs_post cf c c' f" and "rpos c' - n + 8 + len \<le> rpos c'"
  shows "hs_post cf c (clear_uid n len c') f"
proof -
  have inv: "conn_inv c'" using assms(1) by (simp add: hs_post_def)
  note iv = conn_invD [OF inv]
  let ?b = "overwrite (rpos c' - n + 8) (replicate len 0) (inBuf c')"
  have "set (drop (max (inUsed c') (rpos c' - n + 8 + length (replicate len (0 :: byte)))) ?b) \<subseteq> {0}"
    using iv assms(2) by (intro overwrite_zero_above) auto
  moreover have "max (inUsed c') (rpos c' - n + 8 + length (replicate len (0 :: byte))) = inUsed c'"
    using iv assms(2) by simp
  ultimately have z: "set (drop (inUsed c') ?b) \<subseteq> {0}" by simp
  have "conn_inv (clear_uid n len c')"
    using iv assms(2) z by (intro conn_invI) (simp_all add: clear_uid_def)
  then show ?thesis using assms(1) by (simp add: hs_post_def clear_uid_def reply_events_def)
qed

lemma handshake4_any:
  assumes "conn_inv c" and "lastMsg c = (0, 0)"
  shows "\<exists>c' r. handshake4 cf c = Some (c', r) \<and> hs_post cf c c' (r \<noteq> None)"
proof -
  obtain c1 res where n: "next_msg StageRequest4 (8 + 256 + 256) (intp ParseRequest4) c = Some (c1, res)"
    "next_post c c1 res"
    using next_total [OF assms, of "8 + 256 + 256" StageRequest4 "intp ParseRequest4"] by (auto simp: inSize_def)
  note p = hs_post_next [OF n(2) assms(2), of cf False]
  show ?thesis
  proof (cases res)
    case (Inl e)
    then show ?thesis using n hs_post_weaken [OF p] by (simp add: handshake4_def)
  next
    case (Inr x)
    obtain cmd a u m where x: "x = ((cmd, a, u), m)" by (metis surj_pair)
    obtain b k where bk: "intp ParseRequest4 b = ((cmd, a, u), k, None)" "m = take (nat k) b" "k \<le> int (length b)"
      using next_msg_value [OF n(1) [unfolded Inr x]] by blast
    then have "ParseRequest4 b = ((cmd, a, u), nat k, None)" by (auto simp: intp_def split: prod.splits)
    then have "8 + length u \<le> length m" using ParseRequest4_length bk by fastforce
    moreover have "length m \<le> rpos c1" using n(2) Inr x by (simp add: next_post_def)
    ultimately have off: "rpos c1 - length m + 8 + length u \<le> rpos c1" by simp
    define c2 where "c2 = c1\<lparr>req := (req c1)\<lparr>rq_Version := V4, rq_Command := cmd, rq_Addr := a,
                           rq_Method := MethodNoAuth\<rparr>\<rparr>"
    obtain c3 r where a3: "authorize4 cf cmd u c2 = (c3, r)" by (cases "authorize4 cf cmd u c2")
    have p2: "hs_post cf c c2 False" using p by (simp add: c2_def)
    have p3: "hs_post cf c c3 False" and rp: "rpos c3 = rpos c1"
      using a3 p2
      by (auto simp: authorize4_def Let_def c2_def intro!: hs_post_hook split: if_splits option.splits sum.splits)
    have no: "hs_post cf c (clear_uid (length m) (length u) (replyNow cf Reply4Rejected c3)) True"
      using off rp p3 by (intro hs_post_clear_uid hs_post_replyNow) (simp_all add: replyNow_rpos isSuccess_def reply_defs)
    have yes: "hs_post cf c (clear_uid (length m) (length u) c3) False"
      using off rp p3 by (intro hs_post_clear_uid) simp_all
    show ?thesis
      using n(1) Inr x a3 no yes by (cases r) (auto simp: handshake4_def c2_def)
  qed
qed

lemma negotiate_any:
  assumes "conn_inv c" and "lastMsg c = (0, 0)"
  shows "\<exists>c' r. negotiate cf c = Some (c', r) \<and> hs_post cf c c' (r \<noteq> None)"
proof -
  obtain c1 r where f: "fill 1 c = Some (c1, r)" "fill_post 1 c c1 r"
    using fill_spec [OF assms, of 1] by (auto simp: inSize_def)
  note p = hs_post_fill [OF f(2) assms(2), of cf False]
  obtain c5 r5 where 5: "handshake5 cf c1 = Some (c5, r5)" "hs_post cf c1 c5 (r5 \<noteq> None)"
    using handshake5_any hs_post_invD [OF p] by blast
  obtain c4 r4 where 4: "handshake4 cf c1 = Some (c4, r4)" "hs_post cf c1 c4 (r4 \<noteq> None)"
    using handshake4_any hs_post_invD [OF p] by blast
  show ?thesis
    using f(1) 4(1) 5(1) hs_post_trans [OF p 4(2)] hs_post_trans [OF p 5(2)] hs_post_weaken [OF p]
    by (cases r) (auto simp: negotiate_def Let_def)
qed

lemma handshake_any:
  assumes "conn_inv (beginHandshake cf local remote c)" and "lastMsg c = (0, 0)"
  shows "\<exists>c' r. handshake cf local remote c = Some (c', r)
    \<and> hs_post cf (beginHandshake cf local remote c) c' (r \<noteq> None)"
proof -
  let ?c = "beginHandshake cf local remote c"
  have "lastMsg ?c = (0, 0)" using assms(2) by (simp add: beginHandshake_def net_op_def Let_def)
  then obtain c1 r where n: "negotiate cf ?c = Some (c1, r)" "hs_post cf ?c c1 (r \<noteq> None)"
    using negotiate_any assms(1) by blast
  obtain c2 r2 where c2: "(case r of Some e \<Rightarrow> (c1, Some e)
             | None \<Rightarrow> (case flush c1 of (c2, e) \<Rightarrow> (c2, map_option (\<lambda>x. ([], x)) e))) = (c2, r2)"
    by (cases "(case r of Some e \<Rightarrow> (c1, Some e)
             | None \<Rightarrow> (case flush c1 of (c2, e) \<Rightarrow> (c2, map_option (\<lambda>x. ([], x)) e)))")
  have p2: "hs_post cf ?c c2 (r \<noteq> None)"
    using c2 n(2) hs_post_flush [OF n(2)] by (auto split: option.splits prod.splits)
  have r: "r \<noteq> None \<Longrightarrow> r2 \<noteq> None" using c2 by (auto split: option.splits)
  have imp: "hs_post cf ?c c2 f" if "r \<noteq> None \<longrightarrow> f" for f
    using p2 hs_post_weaken that by (cases "r = None") auto
  show ?thesis
    using n(1) c2 imp r by (auto simp: handshake_def split: option.splits)
qed

section \<open>A handler's run\<close>

definition reply_ok :: "sconfig \<Rightarrow> conn \<Rightarrow> bool" where
  "reply_ok cf c =
     (length (reply_events c) = (if cf_hooks cf then of_bool (replied c) + of_bool (listening c) else 0))"

definition run_inv :: "sconfig \<Rightarrow> tunnel \<Rightarrow> bool" where
  "run_inv cf t =
     (tunnel_inv t \<and> lastMsg (tc t) = (0, 0) \<and> out (tc t) = [] \<and> writeErr (tc t) = None
      \<and> buf_ok t False False False \<and> reply_ok cf (tc t))"

definition run_frame :: "tunnel \<Rightarrow> tunnel \<Rightarrow> bool" where
  "run_frame t t' =
     (trace (tc t') = trace (tc t) \<and> replied (tc t') = replied (tc t) \<and> listening (tc t') = listening (tc t)
      \<and> lastMsg (tc t') = lastMsg (tc t) \<and> out (tc t') = out (tc t) \<and> writeErr (tc t') = writeErr (tc t)
      \<and> doneC (tc t') = doneC (tc t))"

lemma run_invI:
  assumes "run_inv cf t" and "run_frame t t'" and "tunnel_inv t'" and "buf_ok t' False False False"
  shows "run_inv cf t'"
  using assms by (simp add: run_inv_def run_frame_def reply_ok_def reply_events_def)

lemma run_frame_trans: "run_frame t t1 \<Longrightarrow> run_frame t1 t2 \<Longrightarrow> run_frame t t2"
  by (simp add: run_frame_def)

lemma run_frame_release: "run_frame t (releaseLocked t)"
  using releaseLocked_tc [of t] by (auto simp: run_frame_def)

lemma run_inv_recvd: "run_inv cf t \<Longrightarrow> run_inv cf (t\<lparr>recvd := n\<rparr>)"
  by (simp add: run_inv_def tunnel_inv_def buf_ok_def)

lemma run_inv_take_none:
  assumes "run_inv cf t" and "takeBuffered t = (t', Inl e)"
  shows "run_inv cf t' \<and> run_frame t t'"
proof (cases "t' = t")
  case False
  have i: "tunnel_inv t" "buf_ok t False False False" using assms(1) by (simp_all add: run_inv_def)
  have t': "t' = (releaseLocked t)\<lparr>drained := True\<rparr>" "\<not> handedOff t"
    using assms(2) False by (auto simp: takeBuffered_def split: if_splits option.splits)
  have "run_frame t t'" using run_frame_release [of t] by (simp add: t' run_frame_def)
  moreover have "tunnel_inv t'" using i(1) releaseLocked_empty [of t] t' by (simp add: tunnel_inv_def)
  moreover have "buf_ok t' False False False" using buf_ok_release [OF i(2)] by (simp add: t')
  ultimately show ?thesis using run_invI [OF assms(1)] by blast
qed (use assms in \<open>simp add: run_frame_def\<close>)

lemma run_inv_take:
  assumes r: "run_inv cf t" and tk: "takeBuffered t = (t1, Inr b)" and n: "n \<le> length b"
  shows "run_inv cf (consumed n t1) \<and> run_frame t (consumed n t1)
    \<and> (n = length b \<longrightarrow> \<not> hasBuf (tc (consumed n t1)))"
proof -
  have i: "conn_inv (tc t)" "\<not> doneC (tc t)" "buf_ok t False False False" "drained t \<longrightarrow> \<not> hasBuf (tc t) \<or> handedOff t"
    using r by (simp_all add: run_inv_def tunnel_inv_def)
  have t1: "t1 = t\<lparr>reading := True\<rparr>" "b = pending (tc t)" "hasBuf (tc t)" "\<not> handedOff t"
    using tk by (auto simp: takeBuffered_def split: if_splits option.splits)
  define t2 where "t2 = t1\<lparr>reading := False, tc := (tc t1)\<lparr>rpos := rpos (tc t1) + n\<rparr>\<rparr>"
  have len: "length b = wpos (tc t) - rpos (tc t)" using length_pending [OF i(1)] t1 by simp
  have c2: "conn_inv (tc t2)" using conn_inv_adv [OF i(1)] n len by (simp add: t2_def t1)
  have s2: "\<not> reading t2" "handedOff t2 = handedOff t" "hasBuf (tc t2)" "drained t2 = drained t" "doneC (tc t2) = doneC (tc t)"
    "run_frame t t2"
    using t1 by (simp_all add: t2_def run_frame_def)
  have b2: "buf_ok t2 False False False" using i(3) by (simp add: t2_def t1 buf_ok_def)
  have "n = length b \<Longrightarrow> rpos (tc t2) = wpos (tc t2)"
    using len conn_invD(2) [OF i(1)] by (simp add: t2_def t1)
  moreover have "consumed n t1 = (if rpos (tc t2) = wpos (tc t2) \<or> doneC (tc t2) then releaseLocked t2 else t2)"
    by (simp add: consumed_def Let_def t2_def)
  moreover have "tunnel_inv t2" "tunnel_inv (releaseLocked t2)"
    using c2 s2 i(2,4) t1 releaseLocked_empty [of t2] by (auto simp: tunnel_inv_def)
  moreover have "\<not> hasBuf (tc (releaseLocked t2))" using releaseLocked_empty s2 t1 by simp
  ultimately show ?thesis
    using run_invI [OF r] b2 buf_ok_release [OF b2] s2(6) run_frame_trans [OF s2(6) run_frame_release]
    by (auto split: if_splits)
qed

lemma run_inv_stream:
  fixes t :: tunnel
  defines "t' \<equiv> \<lambda>s y z. t\<lparr>tc := (tc t)\<lparr>rd := s, net := y\<rparr>, recvd := z\<rparr>"
  assumes r: "run_inv cf t" and s: "\<And>e. rd (tc t) = Stop [] e \<Longrightarrow> s = Stop [] e"
  shows "run_inv cf (t' s y z) \<and> run_frame t (t' s y z)"
proof -
  have i: "conn_inv (tc t)" "tunnel_inv t" "buf_ok t False False False" using r by (simp_all add: run_inv_def tunnel_inv_def)
  have "conn_inv ((tc t)\<lparr>rd := s, net := y\<rparr>)" using conn_invD [OF i(1)] s by (intro conn_invI) auto
  then have "tunnel_inv (t' s y z)" using i(2) by (simp add: tunnel_inv_def t'_def)
  moreover have "buf_ok (t' s y z) False False False"
    using i(3) by (simp add: buf_ok_def buf_clean_def t'_def)
  moreover have "run_frame t (t' s y z)" by (simp add: run_frame_def t'_def)
  ultimately show ?thesis using run_invI [OF r] by blast
qed

lemma run_inv_nc_Read:
  assumes r: "run_inv cf t" and n: "nc_Read k t = (t', b, e)"
  shows "run_inv cf t' \<and> run_frame t t'"
proof -
  obtain b' e' s where rd: "stream_read k (rd (tc t)) = (b', e', s)" by (cases "stream_read k (rd (tc t))")
  have t': "t' = t\<lparr>tc := (tc t)\<lparr>rd := s, net := net (tc t) @ [NRead (length b)]\<rparr>,
      recvd := (if handedOff t then recvd t else recvd t + length b)\<rparr>"
    using n rd by (auto simp: nc_Read_def)
  have s: "s = Stop [] x" if "rd (tc t) = Stop [] x" for x using rd that by (auto split: if_splits)
  show ?thesis unfolding t' by (rule run_inv_stream [OF r s])
qed

lemma run_inv_nc_WriteTo:
  assumes r: "run_inv cf t" and n: "nc_WriteTo t = (t', b, e)"
  shows "run_inv cf t' \<and> run_frame t t'"
proof -
  have t': "t' = t\<lparr>tc := (tc t)\<lparr>rd := Stop [] (stream_end (rd (tc t))), net := net (tc t)\<rparr>,
      recvd := (if handedOff t then recvd t else recvd t + length b)\<rparr>"
    using n by (auto simp: nc_WriteTo_def Let_def)
  show ?thesis unfolding t' by (rule run_inv_stream [OF r]) simp
qed

lemma run_inv_Conn_Read:
  assumes r: "run_inv cf t" and n: "Conn_Read k t = (t', b, e)"
  shows "run_inv cf t' \<and> run_frame t t'"
proof (cases "drained t")
  case True
  then show ?thesis using run_inv_nc_Read [OF r] n by (simp add: Conn_Read_def)
next
  case False
  obtain t1 x where tk: "takeBuffered t = (t1, x)" by (cases "takeBuffered t")
  show ?thesis
  proof (cases x)
    case (Inr buf)
    let ?n = "length (take k buf)"
    have "?n \<le> length buf" by simp
    note c = run_inv_take [OF r tk [unfolded Inr] this]
    have "t' = (consumed ?n t1)\<lparr>recvd := recvd t'\<rparr>" using n False tk Inr by (auto simp: Conn_Read_def Let_def)
    moreover have "run_inv cf ((consumed ?n t1)\<lparr>recvd := n\<rparr>) \<and> run_frame t ((consumed ?n t1)\<lparr>recvd := n\<rparr>)" for n
      using c run_inv_recvd [of cf "consumed ?n t1"] by (simp add: run_frame_def)
    ultimately show ?thesis by metis
  next
    case (Inl y)
    note i = run_inv_take_none [OF r tk [unfolded Inl]]
    show ?thesis
      using n False tk Inl i run_inv_nc_Read [of cf t1 k t' b e] run_frame_trans [of t t1 t']
      by (cases y) (auto simp: Conn_Read_def)
  qed
qed

lemma run_inv_Conn_WriteTo:
  assumes r: "run_inv cf t" and n: "Conn_WriteTo t = (t', b, e)"
  shows "run_inv cf t' \<and> run_frame t t'"
proof (cases "drained t")
  case True
  then show ?thesis using run_inv_nc_WriteTo [OF r] n by (simp add: Conn_WriteTo_def)
next
  case False
  obtain t1 b1 e1 where w: "writeBufferedTo (\<lambda>b. (length b, None)) t = (t1, b1, e1)"
    by (cases "writeBufferedTo (\<lambda>b. (length b, None)) t")
  have 1: "run_inv cf t1 \<and> run_frame t t1"
  proof -
    obtain ta x where tk: "takeBuffered t = (ta, x)" by (cases "takeBuffered t")
    show ?thesis
    proof (cases x)
      case (Inl y)
      then show ?thesis using run_inv_take_none [OF r tk [unfolded Inl]] w tk by (simp add: writeBufferedTo_def)
    next
      case (Inr buf)
      note c = run_inv_take [OF r tk [unfolded Inr] order_refl]
      define t3 where "t3 = (consumed (length buf) ta)\<lparr>recvd := recvd (consumed (length buf) ta) + length buf\<rparr>"
      have t3: "run_inv cf t3" "run_frame t t3" "\<not> hasBuf (tc t3)"
        using c run_inv_recvd [of cf "consumed (length buf) ta"] by (simp_all add: t3_def run_frame_def)
      obtain t4 y where tk3: "takeBuffered t3 = (t4, y)" by (cases "takeBuffered t3")
      then obtain z where y: "y = Inl z"
        using t3(3) by (auto simp: takeBuffered_def split: if_splits option.splits)
      show ?thesis
        using w tk Inr tk3 y run_inv_take_none [OF t3(1) tk3 [unfolded y]] run_frame_trans [OF t3(2)]
        by (auto simp: writeBufferedTo_def Let_def t3_def)
    qed
  qed
  show ?thesis
    using n False w 1 run_inv_nc_WriteTo [of cf t1] run_frame_trans [of t t1]
    by (auto simp: Conn_WriteTo_def split: option.splits prod.splits if_splits)
qed

text \<open>Changes of the conn that keep its input.\<close>

lemma run_inv_conn:
  assumes r: "run_inv cf t" and s: "same_input (tc t) c"
    and f: "hasBuf c = hasBuf (tc t)" "doneC c = doneC (tc t)" "out c = []" "writeErr c = None"
    and x: "exposed c \<longrightarrow> exposed (tc t) \<or> hasBuf (tc t)" and ok: "reply_ok cf c" and e: "exposed (tc t) \<longrightarrow> exposed c"
  shows "run_inv cf (t\<lparr>tc := c\<rparr>)"
proof -
  have i: "conn_inv c" using same_input_inv [OF s] r by (simp add: run_inv_def tunnel_inv_def)
  have l: "lastMsg c = (0, 0)" using s r by (simp add: run_inv_def same_input_def)
  have b: "buf_ok t False False False" using r by (simp add: run_inv_def)
  have "hasBuf (tc t) \<longrightarrow> pooled t = []" using b by (auto simp: buf_ok_def)
  then have "buf_ok (t\<lparr>tc := c\<rparr>) False False False"
    using b f conn_inv_clean [OF i] x e by (auto simp: buf_ok_def)
  then show ?thesis using r i l f ok by (simp add: run_inv_def tunnel_inv_def)
qed

lemma run_inv_D:
  assumes "run_inv cf t"
  shows "out (tc t) = []" "writeErr (tc t) = None" "reply_ok cf (tc t)" "\<not> doneC (tc t)" "conn_inv (tc t)"
    "lastMsg (tc t) = (0, 0)"
  using assms by (simp_all add: run_inv_def tunnel_inv_def)

lemma run_inv_net:
  assumes r: "run_inv cf t"
  shows "run_inv cf (t\<lparr>tc := net_op x (tc t)\<rparr>)" "run_inv cf (t\<lparr>tc := fst (net_write b (tc t))\<rparr>)"
    "run_inv cf (t\<lparr>sentb := n\<rparr>)" "run_inv cf (t\<lparr>closedC := y\<rparr>)"
proof -
  note d = run_inv_D [OF r]
  show "run_inv cf (t\<lparr>tc := net_op x (tc t)\<rparr>)"
    by (rule run_inv_conn [OF r]) (use d in \<open>simp_all add: net_op_def same_input_def reply_ok_def reply_events_def\<close>)
  show "run_inv cf (t\<lparr>tc := fst (net_write b (tc t))\<rparr>)"
    by (rule run_inv_conn [OF r])
      (use d in \<open>simp_all add: net_write_def Let_def same_input_def reply_ok_def reply_events_def\<close>)
  show "run_inv cf (t\<lparr>sentb := n\<rparr>)" "run_inv cf (t\<lparr>closedC := y\<rparr>)"
    using r by (simp_all add: run_inv_def tunnel_inv_def buf_ok_def)
qed

lemma run_inv_NetConn:
  assumes r: "run_inv cf t" and n: "NetConn t = (t', b)"
  shows "run_inv cf t' \<and> run_frame t t'"
proof -
  have "sys_inv \<lparr>tun = t, inUse = False, lent = False, endOwns = None\<rparr>"
    using r by (simp add: sys_inv_def run_inv_def tunnel_inv_def)
  from sys_inv_hand_over [OF this, of t' b] n have "buf_ok t' False (b \<noteq> []) False"
    by (simp add: sys_inv_def)
  then have "buf_ok t' False False False" by (simp add: buf_ok_def)
  moreover have "tunnel_inv t'" "run_frame t t'"
    using r n by (auto simp: NetConn_def Let_def run_inv_def tunnel_inv_def run_frame_def conn_inv_def split: if_splits)
  ultimately show ?thesis using run_invI [OF r] by blast
qed

subsection \<open>Replies\<close>

fun success_event :: "tevent \<Rightarrow> bool" where
  "success_event (TReplied rep bound err) = isSuccess rep"
| "success_event _ = False"

definition no_success :: "conn \<Rightarrow> bool" where
  "no_success c = list_all (\<lambda>e. \<not> success_event e) (trace c)"

lemma writeReply_frame:
  assumes "writeReply cf rep bound c = (c', e)"
  shows "same_input c c' \<and> hasBuf c' = hasBuf c \<and> doneC c' = doneC c \<and> out c' = out c \<and> writeErr c' = writeErr c
    \<and> exposed c' = exposed c \<and> replied c' = replied c \<and> listening c' = listening c \<and> trace c' = trace c
    \<and> closeWrite c' = closeWrite c \<and> req c' = req c"
  using assms
  by (auto simp: writeReply_def Let_def net_write_def wrote_def net_op_def same_input_def split: if_splits prod.splits option.splits)

lemma hook_frame:
  "same_input c (hook cf e c)" "hasBuf (hook cf e c) = hasBuf c" "doneC (hook cf e c) = doneC c"
  "out (hook cf e c) = out c" "writeErr (hook cf e c) = writeErr c" "exposed (hook cf e c) = exposed c"
  "replied (hook cf e c) = replied c" "listening (hook cf e c) = listening c"
  "reply_events (hook cf e c) = reply_events c @ (if cf_hooks cf \<and> is_TReplied e then [e] else [])"
  "no_success (hook cf e c) = (no_success c \<and> (cf_hooks cf \<longrightarrow> \<not> success_event e))"
  by (auto simp: hook_def same_input_def reply_events_def no_success_def)

text \<open>A reply of any kind, given what it does to the flags.\<close>

lemma run_inv_replied:
  assumes r: "run_inv cf t" and l: "live (tc t)"
    and w: "writeReply cf rep bound ((tc t)\<lparr>replied := True\<rparr>) = (c1, e)"
  shows "run_inv cf (t\<lparr>tc := hook cf (TReplied rep bound e) c1\<rparr>)"
    "no_success (hook cf (TReplied rep bound e) c1) = (no_success (tc t) \<and> (cf_hooks cf \<longrightarrow> \<not> isSuccess rep))"
proof -
  note d = run_inv_D [OF r]
  have f: "same_input (tc t) c1" "hasBuf c1 = hasBuf (tc t)" "doneC c1 = doneC (tc t)" "out c1 = []"
    "writeErr c1 = None" "exposed c1 = exposed (tc t)" "replied c1" "listening c1 = listening (tc t)"
    "trace c1 = trace (tc t)"
    using writeReply_frame [OF w] d by (simp_all add: same_input_def)
  have s: "same_input (tc t) (hook cf (TReplied rep bound e) c1)"
    using f(1) by (simp add: hook_def same_input_def)
  have ok: "reply_ok cf (hook cf (TReplied rep bound e) c1)"
  proof -
    have "reply_events c1 = reply_events (tc t)" using f by (simp add: reply_events_def)
    then show ?thesis using d(3) l f by (simp add: reply_ok_def hook_frame live_def)
  qed
  show "run_inv cf (t\<lparr>tc := hook cf (TReplied rep bound e) c1\<rparr>)"
    by (rule run_inv_conn [OF r s _ _ _ _ _ ok]) (use f in \<open>simp_all add: hook_frame\<close>)
  show "no_success (hook cf (TReplied rep bound e) c1) = (no_success (tc t) \<and> (cf_hooks cf \<longrightarrow> \<not> isSuccess rep))"
    using f by (simp add: hook_frame) (simp add: no_success_def)
qed

lemma tunnel_same [simp]: "t\<lparr>tc := tc t\<rparr> = (t :: tunnel)"
  by (cases t) simp

definition answerable :: "tunnel \<Rightarrow> bool" where
  "answerable t = (hasBuf (tc t) \<or> replied (tc t))"

lemma run_inv_Reply:
  assumes r: "run_inv cf t" and n: "Reply cf rep bound (tc t) = (c, e)"
  shows "run_inv cf (t\<lparr>tc := c\<rparr>) \<and> (replied (tc t) \<longrightarrow> replied c) \<and> (e = None \<longrightarrow> replied c)
    \<and> (answerable t \<longrightarrow> replied c) \<and> (no_success (tc t) \<longrightarrow> \<not> isSuccess rep \<longrightarrow> no_success c)"
proof (cases "live (tc t)")
  case False
  then show ?thesis using n r run_inv_D [OF r] by (auto simp: Reply_def answerable_def live_def)
next
  case True
  obtain c1 err where w: "writeReply cf rep bound ((tc t)\<lparr>replied := True\<rparr>) = (c1, err)"
    by (cases "writeReply cf rep bound ((tc t)\<lparr>replied := True\<rparr>)")
  note i = run_inv_replied [OF r True w]
  let ?c2 = "hook cf (TReplied rep bound err) c1"
  have rp: "replied ?c2" using writeReply_frame [OF w] by (simp add: hook_frame)
  have nets: "run_inv cf (t\<lparr>tc := net_op x ?c2\<rparr>)" "replied (net_op x ?c2)"
    "no_success (net_op x ?c2) = no_success ?c2" for x
    using run_inv_net(1) [OF i(1), of x] rp by (simp_all add: net_op_def no_success_def)
  show ?thesis
    using n True w i rp nets
    by (auto simp: Reply_def Let_def split: option.splits if_splits)
qed

lemma run_inv_ReplyListening:
  assumes r: "run_inv cf t" and n: "ReplyListening cf bound (tc t) = (c, e)"
  shows "run_inv cf (t\<lparr>tc := c\<rparr>) \<and> (replied (tc t) \<longrightarrow> replied c) \<and> (answerable t \<longrightarrow> hasBuf c \<or> replied c)"
proof (cases "rq_Command (req (tc t)) = CmdBind \<and> live (tc t) \<and> \<not> listening (tc t)")
  case False
  then have "ReplyListening cf bound (tc t) = (tc t, snd (ReplyListening cf bound (tc t)))"
    by (simp add: ReplyListening_def)
  then have "c = tc t" using n by simp
  then show ?thesis using r by (simp add: answerable_def)
next
  case True
  obtain c1 err where w: "writeReply cf ReplySucceeded bound (tc t) = (c1, err)"
    by (cases "writeReply cf ReplySucceeded bound (tc t)")
  define c2 where "c2 = hook cf (TReplied ReplySucceeded bound err)
                     (c1\<lparr>listening := (err = None), replied := (err \<noteq> None)\<rparr>)"
  note d = run_inv_D [OF r]
  note f = writeReply_frame [OF w]
  have s: "same_input (tc t) c2" using f by (simp add: c2_def hook_def same_input_def)
  have ok: "reply_ok cf c2"
  proof -
    have "reply_events (c1\<lparr>listening := x, replied := y\<rparr>) = reply_events (tc t)" for x y
      using f by (simp add: reply_events_def)
    then show ?thesis
      using d(3) True f by (cases err) (auto simp: c2_def reply_ok_def hook_frame live_def)
  qed
  have i: "run_inv cf (t\<lparr>tc := c2\<rparr>)"
    by (rule run_inv_conn [OF r s _ _ _ _ _ ok]) (use f d in \<open>simp_all add: c2_def hook_frame\<close>)
  have b: "hasBuf c2" using f True by (simp add: c2_def hook_frame live_def)
  have c: "c = net_op (if err = None then NDeadline DlWrite False else NClose) c2"
    using n True w by (auto simp: ReplyListening_def Let_def c2_def split: option.splits)
  then show ?thesis
    using run_inv_net(1) [OF i] b True by (simp add: live_def net_op_def)
qed

lemma run_inv_Early:
  assumes r: "run_inv cf t" and n: "Early (tc t) = (c, b)"
  shows "run_inv cf (t\<lparr>tc := c\<rparr>) \<and> replied c = replied (tc t) \<and> hasBuf c = hasBuf (tc t) \<and> trace c = trace (tc t)"
proof (cases "live (tc t)")
  case False
  then have "c = tc t" using n by (simp add: Early_def)
  then show ?thesis using r by simp
next
  case True
  note d = run_inv_D [OF r]
  have c: "c = (tc t)\<lparr>exposed := exposed (tc t) \<or> b \<noteq> []\<rparr>" using n True by (auto simp: Early_def Let_def)
  have "run_inv cf (t\<lparr>tc := c\<rparr>)"
    by (rule run_inv_conn [OF r])
      (use d True in \<open>simp_all add: c same_input_def live_def reply_ok_def reply_events_def\<close>)
  then show ?thesis by (simp add: c)
qed

lemma Peek_frame:
  assumes inv: "conn_inv c" and lm: "lastMsg c = (0, 0)" and p: "Peek cf ctxErr later n c = Some (c', b, e)"
  shows "hasBuf c' = hasBuf c \<and> replied c' = replied c \<and> listening c' = listening c \<and> doneC c' = doneC c
    \<and> trace c' = trace c \<and> (exposed c \<longrightarrow> exposed c') \<and> (exposed c' \<longrightarrow> exposed c \<or> live c)"
proof (cases "live c")
  case False
  then show ?thesis using p by (simp add: Peek_def)
next
  case True
  define m where "m = (if max n 0 > int inSize then inSize else nat n)"
  have m: "m \<le> inSize" by (auto simp: m_def)
  have "\<exists>c1 e1. (if wpos c - rpos c < m then fillCtx cf ctxErr later m c else Some (c, None)) = Some (c1, e1)
      \<and> engine_frame c c1"
  proof (cases "wpos c - rpos c < m")
    case False
    then show ?thesis by simp
  next
    case True
    let ?c0 = "net_op (NDeadline DlRead (cf_timeout cf)) c"
    have c0: "conn_inv ?c0" "lastMsg ?c0 = (0, 0)" "engine_frame c ?c0"
      using inv lm by (simp_all add: net_op_def conn_inv_def engine_frame_def)
    obtain c1 x where f: "fill m ?c0 = Some (c1, x)" "fill_post m ?c0 c1 x" using fill_spec [OF c0(1,2) m] by blast
    have "engine_frame c c1" using f(2) engine_frame_trans [OF c0(3)] by (simp add: fill_post_def)
    then have fr: "engine_frame c (net_op (NDeadline DlRead False) c1)"
      "engine_frame c ((net_op (NDeadline DlRead False) c1)\<lparr>readErr := None, rd := later\<rparr>)"
      by (simp_all add: net_op_def engine_frame_def)
    show ?thesis
    proof (cases x)
      case None
      then show ?thesis using f(1) True fr by (simp add: fillCtx_def Let_def)
    next
      case (Some y)
      then show ?thesis using f(1) True fr by (cases "IsS y OsErrDeadlineExceeded") (simp_all add: fillCtx_def Let_def)
    qed
  qed
  then obtain c1 e1 where f: "(if wpos c - rpos c < m then fillCtx cf ctxErr later m c else Some (c, None)) = Some (c1, e1)"
    "engine_frame c c1" by blast
  have "\<exists>x. c' = c1\<lparr>exposed := x\<rparr> \<and> (exposed c1 \<longrightarrow> x)"
  proof -
    have "Peek cf ctxErr later n c = Option.bind
             (if wpos c - rpos c < m then fillCtx cf ctxErr later m c else Some (c, None))
             (\<lambda>(c1, ferr).
                let e = min (wpos c1) (rpos c1 + m);
                    c2 = (if e > rpos c1 then c1\<lparr>exposed := True\<rparr> else c1)
                in Some (c2, slice (rpos c2) e (inBuf c2), if ferr \<noteq> None then ferr
                     else (if max n 0 > int inSize then Some (ESent BufioErrBufferFull) else None)))"
      unfolding Peek_def Let_def m_def using True by (simp only: if_False not_True_eq_False not_not)
    then have "c' = (if min (wpos c1) (rpos c1 + m) > rpos c1 then c1\<lparr>exposed := True\<rparr> else c1)"
      using p f(1) by (simp add: Let_def)
    then have "c' = c1\<lparr>exposed := exposed c1 \<or> min (wpos c1) (rpos c1 + m) > rpos c1\<rparr>"
      by (cases c1) auto
    then show ?thesis by blast
  qed
  then obtain x where x: "c' = c1\<lparr>exposed := x\<rparr>" "exposed c1 \<longrightarrow> x" by blast
  show ?thesis using f(2) True x(2) unfolding x(1) engine_frame_def by simp
qed

lemma run_inv_Peek:
  assumes r: "run_inv cf t"
  shows "\<exists>c b e. Peek cf ctxErr later n (tc t) = Some (c, b, e) \<and> run_inv cf (t\<lparr>tc := c\<rparr>)
    \<and> replied c = replied (tc t) \<and> hasBuf c = hasBuf (tc t) \<and> trace c = trace (tc t)"
proof (cases "live (tc t)")
  case False
  then show ?thesis using r by (simp add: Peek_def)
next
  case True
  note d = run_inv_D [OF r]
  obtain c e where p: "Peek cf ctxErr later n (tc t) = Some (c, take (min (nat n) inSize) (undelivered (tc t)), e)"
    "conn_inv c" "live c" "lastMsg c = (0, 0)" "out c = []" "writeErr c = None"
    using Peek_loses_nothing [OF d(5,6,1,2) True, of cf ctxErr later n] by blast
  note f = Peek_frame [OF d(5,6) p(1)]
  have i: "tunnel_inv t" "buf_ok t False False False" using r by (simp_all add: run_inv_def)
  have hb: "hasBuf (tc t)" "pooled t = []" using True i(2) by (auto simp: live_def buf_ok_def)
  have "buf_ok (t\<lparr>tc := c\<rparr>) False False False"
    using i(2) f conn_inv_clean [OF p(2)] hb by (simp add: buf_ok_def)
  moreover have "tunnel_inv (t\<lparr>tc := c\<rparr>)" using i(1) f p(2) by (simp add: tunnel_inv_def)
  ultimately have "run_inv cf (t\<lparr>tc := c\<rparr>)"
    using p f d by (simp add: run_inv_def reply_ok_def reply_events_def)
  then show ?thesis using p f by blast
qed

subsection \<open>The run\<close>

text \<open>A handler that never answers success.\<close>

primrec never_succeeds :: "hprog \<Rightarrow> bool" where
  "never_succeeds (HRet e) = True"
| "never_succeeds (HPanic v) = True"
| "never_succeeds (HReply rep bound k) = (\<not> isSuccess rep \<and> (\<forall>r. never_succeeds (k r)))"
| "never_succeeds (HListening bound k) = False"
| "never_succeeds (HEarly k) = (\<forall>b. never_succeeds (k b))"
| "never_succeeds (HPeek n ctxErr later k) = (\<forall>b e. never_succeeds (k b e))"
| "never_succeeds (HRead n k) = (\<forall>b e. never_succeeds (k b e))"
| "never_succeeds (HWriteTo k) = (\<forall>b e. never_succeeds (k b e))"
| "never_succeeds (HWrite b k) = (\<forall>e. never_succeeds (k e))"
| "never_succeeds (HNetConn k) = (\<forall>b. never_succeeds (k b))"
| "never_succeeds (HCloseWrite k) = (\<forall>e. never_succeeds (k e))"
| "never_succeeds (HClose k) = never_succeeds k"

definition run_post :: "sconfig \<Rightarrow> hprog \<Rightarrow> tunnel \<Rightarrow> (tunnel \<times> (string + error option)) option \<Rightarrow> bool" where
  "run_post cf p t res =
     (\<exists>t' r. res = Some (t', r) \<and> run_inv cf t' \<and> answerable t'
       \<and> (never_succeeds p \<and> no_success (tc t) \<longrightarrow> no_success (tc t')))"

lemma run_frame_keeps:
  assumes "run_frame t t'"
  shows "replied (tc t') = replied (tc t)" "no_success (tc t') = no_success (tc t)"
  using assms by (simp_all add: run_frame_def no_success_def)

lemma run_handler_any:
  assumes "run_inv cf t" and "answerable t" and "h \<longrightarrow> replied (tc t)"
  shows "run_post cf p t (run_handler cf p h t)"
  using assms
proof (induction p arbitrary: h t)
  case (HReply rep bound k)
  obtain c r where n: "Reply cf rep bound (tc t) = (c, r)" by (cases "Reply cf rep bound (tc t)")
  note i = run_inv_Reply [OF HReply.prems(1) n]
  have a: "answerable (t\<lparr>tc := c\<rparr>)" using i HReply.prems(2) by (auto simp: answerable_def)
  have "h \<or> r = None \<longrightarrow> replied (tc (t\<lparr>tc := c\<rparr>))" using i HReply.prems(3) by auto
  from HReply.IH [OF rangeI _ a this, of r] i n show ?case by (auto simp: run_post_def)
next
  case (HListening bound k)
  obtain c r where n: "ReplyListening cf bound (tc t) = (c, r)" by (cases "ReplyListening cf bound (tc t)")
  note i = run_inv_ReplyListening [OF HListening.prems(1) n]
  have "answerable (t\<lparr>tc := c\<rparr>)" using i HListening.prems(2) by (auto simp: answerable_def)
  from HListening.IH [OF rangeI _ this, of h r] i n HListening.prems(3) show ?case by (auto simp: run_post_def)
next
  case (HEarly k)
  obtain c b where n: "Early (tc t) = (c, b)" by (cases "Early (tc t)")
  note i = run_inv_Early [OF HEarly.prems(1) n]
  have "answerable (t\<lparr>tc := c\<rparr>)" using i HEarly.prems(2) by (simp add: answerable_def)
  from HEarly.IH [OF rangeI _ this, of h b] i n HEarly.prems(3) show ?case by (auto simp: run_post_def no_success_def)
next
  case (HPeek n ctxErr later k)
  obtain c b e where n: "Peek cf ctxErr later n (tc t) = Some (c, b, e)" "run_inv cf (t\<lparr>tc := c\<rparr>)"
    "replied c = replied (tc t)" "hasBuf c = hasBuf (tc t)" "trace c = trace (tc t)"
    using run_inv_Peek [OF HPeek.prems(1), of ctxErr later n] by blast
  have a: "answerable (t\<lparr>tc := c\<rparr>)" using n HPeek.prems(2) by (simp add: answerable_def)
  have "run_post cf (k b e) (t\<lparr>tc := c\<rparr>) (run_handler cf (k b e) h (t\<lparr>tc := c\<rparr>))"
    using HPeek.IH [OF rangeI rangeI n(2) a, of h] n(3) HPeek.prems(3) by auto
  then show ?case using n by (auto simp: run_post_def no_success_def)
next
  case (HRead n k)
  obtain t1 b e where r: "Conn_Read n t = (t1, b, e)" by (metis surj_pair)
  note i = run_inv_Conn_Read [OF HRead.prems(1) r]
  show ?case
    using HRead.IH [OF rangeI rangeI conjunct1 [OF i], of h b e] r HRead.prems run_frame_keeps [OF conjunct2 [OF i]]
    by (cases h) (auto simp: run_post_def nilConn_def answerable_def)
next
  case (HWriteTo k)
  obtain t1 b e where r: "Conn_WriteTo t = (t1, b, e)" by (metis surj_pair)
  note i = run_inv_Conn_WriteTo [OF HWriteTo.prems(1) r]
  show ?case
    using HWriteTo.IH [OF rangeI rangeI conjunct1 [OF i], of h b e] r HWriteTo.prems run_frame_keeps [OF conjunct2 [OF i]]
    by (cases h) (auto simp: run_post_def nilConn_def answerable_def)
next
  case (HWrite b k)
  obtain c e where n: "net_write b (tc t) = (c, e)" by (cases "net_write b (tc t)")
  obtain z where r: "Conn_Write b t = (t\<lparr>tc := c, sentb := z\<rparr>, e)" using n by (simp add: Conn_Write_def)
  let ?t = "t\<lparr>tc := c, sentb := z\<rparr>"
  have i: "run_inv cf ?t" using run_inv_net(3) [OF run_inv_net(2) [OF HWrite.prems(1), of b]] n by simp
  have f: "replied c = replied (tc t)" "trace c = trace (tc t)" using n by (auto simp: net_write_def Let_def)
  show ?case
    using HWrite.IH [OF rangeI i, of h e] r HWrite.prems f
    by (cases h) (auto simp: run_post_def nilConn_def answerable_def no_success_def)
next
  case (HNetConn k)
  obtain t1 b where r: "NetConn t = (t1, b)" by (cases "NetConn t")
  note i = run_inv_NetConn [OF HNetConn.prems(1) r]
  show ?case
    using HNetConn.IH [OF rangeI conjunct1 [OF i], of h b] r HNetConn.prems run_frame_keeps [OF conjunct2 [OF i]]
    by (cases h) (auto simp: run_post_def nilConn_def answerable_def)
next
  case (HCloseWrite k)
  obtain t1 e where r: "Conn_CloseWrite t = (t1, e)" by (cases "Conn_CloseWrite t")
  have i: "run_inv cf t1" "replied (tc t1) = replied (tc t)" "trace (tc t1) = trace (tc t)"
    using r run_inv_net(1) [OF HCloseWrite.prems(1)] HCloseWrite.prems(1)
    by (auto simp: Conn_CloseWrite_def net_op_def split: option.splits)
  show ?case
    using HCloseWrite.IH [OF rangeI i(1), of h e] r HCloseWrite.prems i
    by (cases h) (auto simp: run_post_def nilConn_def answerable_def no_success_def)
next
  case (HClose k)
  have i: "run_inv cf (Conn_Close t)" "replied (tc (Conn_Close t)) = replied (tc t)"
    "trace (tc (Conn_Close t)) = trace (tc t)"
    using run_inv_net(1) [OF run_inv_net(4) [OF HClose.prems(1)]] run_inv_net(4) [OF HClose.prems(1)]
    by (simp_all add: Conn_Close_def nc_Close_def Let_def net_op_def)
  show ?case
    using HClose.IH [OF i(1), of h] HClose.prems i
    by (cases h) (auto simp: run_post_def nilConn_def answerable_def no_success_def)
qed (auto simp: run_post_def)

section \<open>The end of a conn\<close>

text \<open>What \<open>finish\<close> needs to know, and what it leaves.\<close>

definition ended :: "sconfig \<Rightarrow> tunnel \<Rightarrow> bool" where
  "ended cf t =
     (doneC (tc t) \<and> \<not> hasBuf (tc t) \<and> length (pooled t) \<le> 1 \<and> (pooled t \<noteq> [] \<or> exposed (tc t))
      \<and> set (pooled t) \<union> set (lingered t) \<subseteq> {zeroIn} \<and> reply_ok cf (tc t))"

lemma end_conn_facts:
  assumes b: "buf_ok t False False False" and r: "\<not> reading t"
  shows "doneC (tc (end_conn t)) \<and> \<not> hasBuf (tc (end_conn t)) \<and> length (pooled (end_conn t)) \<le> 1
    \<and> (pooled (end_conn t) \<noteq> [] \<or> exposed (tc (end_conn t)))
    \<and> set (pooled (end_conn t)) \<union> set (lingered (end_conn t)) \<subseteq> {zeroIn}
    \<and> trace (tc (end_conn t)) = trace (tc t) \<and> replied (tc (end_conn t)) = replied (tc t)
    \<and> listening (tc (end_conn t)) = listening (tc t)"
proof -
  let ?t1 = "t\<lparr>tc := (tc t)\<lparr>doneC := True, hasBuf := False\<rparr>\<rparr>"
  let ?own = "hasBuf (tc t) \<and> \<not> exposed (tc t)"
  have e: "end_conn t = end_rest ?own ?t1"
    using r by (simp add: end_conn_def end_section_def Let_def drop_buf_def)
  have "buf_clean (tc ?t1)" using b by (simp add: buf_ok_def)
  note f = end_rest_facts [OF this, of ?own]
  show ?thesis
    unfolding e using f b by (auto simp: buf_ok_def end_frame_def split: if_splits)
qed

lemma finish_facts:
  assumes b: "buf_ok t False False False" and r: "\<not> reading t" and ok: "reply_ok cf (tc t)"
    and h: "hasReq \<Longrightarrow> run_inv cf t \<and> answerable t" and f: "finish cf hasReq err t = (t', e)"
  shows "ended cf t' \<and> (hasReq \<longrightarrow> replied (tc t'))
    \<and> (cf_hooks cf \<longrightarrow> last (trace (tc t')) = TDone hasReq e)
    \<and> (no_success (tc t) \<longrightarrow> no_success (tc t'))"
proof -
  obtain t1 e1 where t1: "(if hasReq then
           (case fallbackReply cf err (tc t) of
              (c, fell) \<Rightarrow> (t\<lparr>tc := c\<rparr>, if fell \<and> err = None then Some (ESent ErrNoReply) else err))
         else (t, err)) = (t1, e1)"
    by (cases "(if hasReq then
           (case fallbackReply cf err (tc t) of
              (c, fell) \<Rightarrow> (t\<lparr>tc := c\<rparr>, if fell \<and> err = None then Some (ESent ErrNoReply) else err))
         else (t, err))")
  have 1: "buf_ok t1 False False False \<and> \<not> reading t1 \<and> reply_ok cf (tc t1) \<and> (hasReq \<longrightarrow> replied (tc t1))
      \<and> (no_success (tc t) \<longrightarrow> no_success (tc t1))"
  proof (cases "hasReq \<and> live (tc t)")
    case False
    then have "t1 = t" "hasReq \<longrightarrow> replied (tc t)"
      using t1 h run_inv_D(4) [of cf t] by (auto simp: fallbackReply_def live_def answerable_def split: if_splits)
    then show ?thesis using b r ok by simp
  next
    case True
    define rep where "rep = (if isSuccess (ReplyFor err) then ReplyGeneralFailure else ReplyFor err)"
    obtain c1 werr where w: "writeReply cf rep zeroAddr ((tc t)\<lparr>replied := True\<rparr>) = (c1, werr)"
      by (cases "writeReply cf rep zeroAddr ((tc t)\<lparr>replied := True\<rparr>)")
    have t1': "t1 = t\<lparr>tc := hook cf (TReplied rep zeroAddr werr) c1\<rparr>"
      using t1 True w by (simp add: fallbackReply_def Let_def flip: rep_def)
    have "\<not> isSuccess rep" by (simp add: rep_def isSuccess_def reply_defs)
    moreover have "run_inv cf t" "live (tc t)" using h True by simp_all
    note i = run_inv_replied [OF this w]
    have "replied (tc t1)" using writeReply_frame [OF w] by (simp add: t1' hook_frame)
    then show ?thesis using i calculation t1' by (simp add: run_inv_def tunnel_inv_def)
  qed
  note e = end_conn_facts [OF conjunct1 [OF 1]]
  have t': "t' = (end_conn t1)\<lparr>tc := hook cf (TDone hasReq e1) (tc (end_conn t1))\<rparr>" "e = e1"
    using f unfolding finish_def t1 by (auto simp: Let_def)
  show ?thesis
    using e 1 unfolding t'
    by (auto simp: ended_def reply_ok_def hook_frame hook_def reply_events_def no_success_def)
qed

lemma begin_facts:
  fixes cf local remote self s ws cw
  defines "c \<equiv> beginHandshake cf local remote (newConn self s ws cw)"
  shows "conn_inv c \<and> hasBuf c \<and> \<not> replied c \<and> \<not> listening c \<and> \<not> doneC c \<and> reply_events c = [] \<and> trace c = []"
proof -
  have "conn_inv c"
    by (intro conn_invI) (auto simp: c_def beginHandshake_def newConn_def net_op_def zeroIn_def inSize_def Let_def split: if_splits)
  then show ?thesis by (simp add: c_def beginHandshake_def newConn_def net_op_def Let_def reply_events_def)
qed

lemma handshake_no_write_error:
  assumes "handshake cf local remote c = Some (c', None)"
  shows "writeErr c' = None"
proof -
  obtain c1 r where n: "negotiate cf (beginHandshake cf local remote c) = Some (c1, r)"
    using assms by (cases "negotiate cf (beginHandshake cf local remote c)") (auto simp: handshake_def)
  have "r = None"
    using assms n by (cases r) (auto simp: handshake_def split: option.splits)
  moreover obtain c2 e where f: "flush c1 = (c2, e)" by (cases "flush c1")
  ultimately show ?thesis
    using assms n flush_result [OF f]
    by (auto simp: handshake_def net_op_def split: option.splits if_splits)
qed

lemma no_success_events: "no_success c = list_all (\<lambda>e. \<not> success_event e) (reply_events c)"
proof -
  have "(\<forall>e \<in> set es. \<not> success_event e) = (\<forall>e \<in> set (filter is_TReplied es). \<not> success_event e)" for es
  proof -
    have "success_event e \<Longrightarrow> is_TReplied e" for e by (cases e) simp_all
    then show ?thesis by auto
  qed
  then show ?thesis by (simp add: no_success_def reply_events_def list_all_iff)
qed

text \<open>\<open>serve\<close> returns, and what it leaves.\<close>

definition served :: "sconfig \<Rightarrow> hprog \<Rightarrow> tunnel \<Rightarrow> error option \<Rightarrow> bool" where
  "served cf p t e =
     (ended cf t
      \<and> (cf_hooks cf \<longrightarrow> (\<exists>hasReq. last (trace (tc t)) = TDone hasReq e \<and> (hasReq \<longrightarrow> replied (tc t))))
      \<and> (never_succeeds p \<longrightarrow> no_success (tc t)))"

lemma finish_served:
  assumes "buf_ok t False False False" and "\<not> reading t" and "reply_ok cf (tc t)"
    and "hasReq \<Longrightarrow> run_inv cf t \<and> answerable t" and "never_succeeds p \<Longrightarrow> no_success (tc t)"
  shows "\<exists>t' e. finish cf hasReq err t = (t', e) \<and> served cf p t' e"
proof -
  obtain t' e where f: "finish cf hasReq err t = (t', e)" by (cases "finish cf hasReq err t")
  show ?thesis using finish_facts [OF assms(1-4) f] assms(5) f by (auto simp: served_def)
qed

lemma serve_any:
  "\<exists>t e. serve cf network local remote None active p (newConn self s ws cw) = Some (t, e) \<and> served cf p t e"
proof -
  let ?c0 = "beginHandshake cf local remote (newConn self s ws cw)"
  note b = begin_facts [of cf local remote self s ws cw]
  obtain c1 r where h: "handshake cf local remote (newConn self s ws cw) = Some (c1, r)"
    "hs_post cf ?c0 c1 (r \<noteq> None)"
    using handshake_any [of cf local remote "newConn self s ws cw"] b by (auto simp: newConn_def)
  have ok: "reply_ok cf c1" "hasBuf c1" "\<not> doneC c1" "conn_inv c1" "no_success c1"
    using h(2) b
    by (auto simp: hs_post_def reply_ok_def one_refusal_def no_success_events split: if_splits)
  have bo: "buf_ok (newTunnel c) False False False" if "buf_clean c" "hasBuf c" for c
    using that by (simp add: buf_ok_def newTunnel_def)
  show ?thesis
  proof (cases r)
    case (Some se)
    obtain c2 e2 where fl: "flush c1 = (c2, e2)" by (cases "flush c1")
    have s: "same_input c1 c2" "auth_frame c1 c2" using flush_steps [of c1] fl by simp_all
    have 2: "reply_ok cf c2" "hasBuf c2" "buf_clean c2" "no_success c2"
      using ok s conn_inv_clean [OF same_input_inv [OF s(1) ok(4)]]
      by (simp_all add: auth_frame_def reply_ok_def reply_events_def no_success_def)
    obtain t' e where "finish cf False (Some (opError network local remote se)) (newTunnel c2) = (t', e)"
        "served cf p t' e"
      using finish_served [OF bo [OF 2(3,2)], of cf False p "Some (opError network local remote se)"] 2
      by (auto simp: newTunnel_def)
    then show ?thesis using h(1) Some fl by (simp add: serve_def)
  next
    case None
    let ?c2 = "hook cf TGotRequest c1"
    have q: "out c1 = []" "writeErr c1 = None" using handshake_flushed handshake_no_write_error h(1) None by blast+
    have lm: "lastMsg c1 = (0, 0)" using h(2) by (simp add: hs_post_def)
    have inv: "run_inv cf (newTunnel ?c2)"
    proof -
      have s: "same_input c1 ?c2" by (simp add: hook_frame)
      have "conn_inv ?c2" "lastMsg ?c2 = (0, 0)" "reply_ok cf ?c2"
        using same_input_inv [OF s ok(4)] lm ok(1) s
        by (simp_all add: same_input_def reply_ok_def hook_frame)
      then show ?thesis
        using ok q bo [OF conn_inv_clean] by (simp add: run_inv_def tunnel_inv_def newTunnel_def hook_frame)
    qed
    have ans: "answerable (newTunnel ?c2)" using ok by (simp add: answerable_def newTunnel_def hook_frame)
    have ns: "no_success (tc (newTunnel ?c2))" using ok by (simp add: newTunnel_def hook_frame)
    have fin: "\<exists>t' e. finish cf True err t = (t', e) \<and> served cf p t' e"
      if "run_inv cf t" "answerable t" "never_succeeds p \<Longrightarrow> no_success (tc t)" for err t
      using that finish_served [of t cf True p err] by (simp add: run_inv_def tunnel_inv_def)
    show ?thesis
    proof (cases active)
      case False
      obtain t' e where "finish cf False (Some (ESent ErrServerClosed)) (newTunnel c1) = (t', e)" "served cf p t' e"
        using finish_served [OF bo [OF conn_inv_clean [OF ok(4)] ok(2)], of cf False p "Some (ESent ErrServerClosed)"] ok
        by (auto simp: newTunnel_def)
      then show ?thesis using h(1) None False by (simp add: serve_def)
    next
      case True
      define al where "al = (case cf_Allow cf of None \<Rightarrow> None | Some vet_it \<Rightarrow> vet_it (req ?c2))"
      show ?thesis
      proof (cases al)
        case (Some e)
        then show ?thesis using h(1) None True fin [OF inv ans ns] by (simp add: serve_def Let_def flip: al_def)
      next
        case n: None
        obtain t' r' where rh: "run_handler cf p False (newTunnel ?c2) = Some (t', r')" "run_inv cf t'" "answerable t'"
          "never_succeeds p \<Longrightarrow> no_success (tc t')"
          using run_handler_any [OF inv ans, of False p] ns by (auto simp: run_post_def)
        have "\<exists>err. serve cf network local remote None active p (newConn self s ws cw) = Some (finish cf True err t')"
          using h(1) None True n rh(1) by (cases r') (auto simp: serve_def Let_def simp flip: al_def)
        then show ?thesis using fin [OF rh(2-4)] by metis
      qed
    qed
  qed
qed

section \<open>What a served conn is\<close>

lemma serve_admit:
  "\<exists>t. serve cf network local remote (Some x) active p (newConn self s ws cw) = Some (t, Some x)
    \<and> pooled t = [] \<and> lingered t = [] \<and> \<not> hasBuf (tc t) \<and> doneC (tc t) \<and> reply_events (tc t) = []
    \<and> \<not> replied (tc t) \<and> \<not> listening (tc t) \<and> no_success (tc t)
    \<and> (cf_hooks cf \<longrightarrow> last (trace (tc t)) = TDone False (Some x))"
  by (simp add: serve_def finish_def end_conn_def end_section_def drop_buf_def end_rest_def putBuffers_def
      newTunnel_def newConn_def net_op_def hook_def reply_events_def no_success_def Let_def)

text \<open>C4: Serving a conn always ends, whatever the client sends, whatever the writes return, whatever
  the authenticators and the handler do (a panic included): afterwards the conn is done, holds
  no buffer, and what went back to the pool is at most one buffer of its own, and is cleared,
  so no later conn ever reads a byte of this one; the buffer is kept out of the pool only when a
  slice of it reached user code, or when \<open>Admit\<close> refused the conn before it had one.\<close>

theorem serve_gives_buffer_back_clean:
  "\<exists>t e. serve cf network local remote admit active p (newConn self s ws cw) = Some (t, e)
    \<and> doneC (tc t) \<and> \<not> hasBuf (tc t) \<and> length (pooled t) \<le> 1
    \<and> set (pooled t) \<union> set (lingered t) \<subseteq> {zeroIn}
    \<and> (length (pooled t) = 1 \<or> exposed (tc t) \<or> (\<exists>x. admit = Some x))"
proof (cases admit)
  case None
  then show ?thesis
    using serve_any [of cf network local remote active p self s ws cw]
    by (auto simp: served_def ended_def le_Suc_eq)
next
  case (Some x)
  then show ?thesis using serve_admit [of cf network local remote x active p self s ws cw] by auto
qed

text \<open>C5: Every request is answered, and once: when a conn has been served, the replies sent (or that
  failed to be written), the server's own included, are one for \<open>ReplyListening\<close> if it succeeded and
  one final reply; a conn whose request reached the handler (the \<open>Done\<close> hook sees it) has had its final reply, even
  if the handler forgot to reply, failed or panicked; and \<open>Done\<close> comes last, with the error \<open>ServeConn\<close>
  returns.\<close>

theorem every_request_answered_once:
  assumes "cf_hooks cf"
    and "serve cf network local remote admit active p (newConn self s ws cw) = Some (t, e)"
  shows "length (filter is_TReplied (trace (tc t))) = of_bool (replied (tc t)) + of_bool (listening (tc t))
    \<and> (\<exists>hasReq. last (trace (tc t)) = TDone hasReq e \<and> (hasReq \<longrightarrow> replied (tc t)))"
proof (cases admit)
  case None
  then have "served cf p t e"
    using serve_any [of cf network local remote active p self s ws cw] assms(2) by auto
  then show ?thesis using assms(1) by (simp add: served_def ended_def reply_ok_def reply_events_def)
next
  case (Some x)
  then show ?thesis
    using serve_admit [of cf network local remote x active p self s ws cw] assms
    by (auto simp: reply_events_def)
qed

text \<open>The server never claims a success on its own: if the handler never answers success (and never
  announces a listener), no reply the client gets says success, however the handler ends: by
  returning nil without a reply, by an error, even one that itself carries a success REP from an
  upstream proxy, or by a panic.\<close>

theorem no_success_without_handler:
  assumes "cf_hooks cf" and "never_succeeds p"
    and "serve cf network local remote admit active p (newConn self s ws cw) = Some (t, e)"
    and "TReplied rep bound err \<in> set (trace (tc t))"
  shows "\<not> isSuccess rep"
proof -
  have "no_success (tc t)"
  proof (cases admit)
    case None
    then show ?thesis
      using serve_any [of cf network local remote active p self s ws cw] assms(2,3) by (auto simp: served_def)
  next
    case (Some x)
    then show ?thesis
      using serve_admit [of cf network local remote x active p self s ws cw] assms(3) by auto
  qed
  then show ?thesis using assms(4) by (auto simp: no_success_def list_all_iff)
qed

definition tracedConfig :: sconfig where
  "tracedConfig = openConfig\<lparr>cf_hooks := True\<rparr>"

text \<open>A handler that peeks at the early bytes, refuses and then panics.\<close>

definition refuser :: hprog where
  "refuser = HPeek 2 None (Stop [] (ESent IoEOF))
     (\<lambda>b e. HReply ReplyHostUnreachable zeroAddr (\<lambda>r. HPanic ''boom''))"

lemma refuser_never_succeeds: "never_succeeds refuser"
  by (simp add: refuser_def isSuccess_def reply_defs)

lemma every_request_answered_once_witness:
  "\<exists>t e. serve tracedConfig ''tcp'' NilAddr NilAddr None True refuser
       (newConn [] (Stop [5, 1, 0, 5, 1, 0, 1, 1, 2, 3, 4, 0, 80] (ESent IoEOF)) [] None) = Some (t, e)
     \<and> length (filter is_TReplied (trace (tc t))) = of_bool (replied (tc t)) + of_bool (listening (tc t))"
proof -
  obtain t e where r: "serve tracedConfig ''tcp'' NilAddr NilAddr None True refuser
       (newConn [] (Stop [5, 1, 0, 5, 1, 0, 1, 1, 2, 3, 4, 0, 80] (ESent IoEOF)) [] None) = Some (t, e)"
    using serve_any by blast
  then show ?thesis
    using every_request_answered_once [OF _ r] by (auto simp: tracedConfig_def)
qed

lemma no_success_without_handler_witness:
  "\<exists>t e. serve tracedConfig ''tcp'' NilAddr NilAddr None True refuser
       (newConn [] (Stop [4, 1] (ESent IoEOF)) [] None) = Some (t, e)
     \<and> TReplied ReplySucceeded zeroAddr None \<notin> set (trace (tc t))"
proof -
  obtain t e where r: "serve tracedConfig ''tcp'' NilAddr NilAddr None True refuser
       (newConn [] (Stop [4, 1] (ESent IoEOF)) [] None) = Some (t, e)"
    using serve_any by blast
  have h: "cf_hooks tracedConfig" by (simp add: tracedConfig_def)
  have "isSuccess ReplySucceeded" by (simp add: isSuccess_def)
  then show ?thesis
    using no_success_without_handler [OF h refuser_never_succeeds r, of ReplySucceeded zeroAddr None] r by blast
qed

section \<open>From the request to the tunnel\<close>

lemma undelivered_unread:
  "hasBuf c \<Longrightarrow> unread (newTunnel c) = undelivered c"
  by (simp add: unread_def newTunnel_def undelivered_def)

text \<open>C6: The bytes a client sends right after its request reach the handler. If the specification of the
  handshake accepts the client's bytes and leaves \<open>rest\<close>, and the handler's \<open>Reply\<close> of success gives it
  the conn, then copying the conn to a destination (\<open>WriteTo\<close>) yields \<open>rest\<close>: every byte after the request,
  however the bytes arrived, and none of the handshake.\<close>

theorem early_data_reaches_the_handler:
  assumes "set ws \<subseteq> {None}"
    and "\<forall>a \<in> set (cf_auth cf). auth_ok (Authenticate (cf_sha256 cf) a)"
    and "hs_spec cf (stream_end s) (req0 self local remote) (stream_bytes s) = (rest, sent, Inr q)"
    and "handshake cf local remote (newConn self s ws cw) = Some (c1, None)"
    and "Reply cf rep bound c1 = (c2, None)"
  shows "fst (snd (Conn_WriteTo (newTunnel c2))) = rest"
proof -
  have c1: "undelivered c1 = rest" "conn_inv c1"
    using handshake_accepts [OF assms(1-3), of cw] assms(4) by auto
  have b: "\<not> doneC c1"
    using handshake_any [of cf local remote "newConn self s ws cw"] begin_facts [of cf local remote self s ws cw]
      assms(4) by (auto simp: hs_post_def newConn_def)
  have l: "live c1" using assms(5) by (auto simp: Reply_def split: if_splits)
  obtain c err where w: "writeReply cf rep bound (c1\<lparr>replied := True\<rparr>) = (c, err)"
    by (cases "writeReply cf rep bound (c1\<lparr>replied := True\<rparr>)")
  have c2: "err = None" "c2 = net_op (NDeadline DlBoth False) (hook cf (TReplied rep bound None) c)"
    using assms(5) l w by (auto simp: Reply_def Let_def split: option.splits if_splits)
  note f = writeReply_frame [OF w]
  have s: "same_input c1 c2" "hasBuf c2" "\<not> doneC c2"
    using f l b by (simp_all add: c2 net_op_def hook_def same_input_def live_def)
  have i2: "conn_inv c2" using same_input_inv [OF s(1) c1(2)] .
  have "tunnel_inv (newTunnel c2)" using i2 s by (simp add: tunnel_inv_def newTunnel_def)
  moreover have "unread (newTunnel c2) = rest"
    using undelivered_unread [OF s(2)] same_input_bytes [OF s(1)] c1(1) by simp
  ultimately show ?thesis
    using Conn_WriteTo_copies_everything [of "newTunnel c2"] by (cases "Conn_WriteTo (newTunnel c2)") auto
qed

lemma early_data_reaches_the_handler_witness:
  "\<exists>c1 c2. handshake openConfig NilAddr NilAddr
      (newConn [] (Chunk [5, 1] (Chunk [0, 5, 1, 0] (Chunk [1, 1, 2, 3, 4, 0] (Stop [80, 9] (ESent IoEOF))))) [] None)
      = Some (c1, None) \<and> Reply openConfig ReplySucceeded zeroAddr c1 = (c2, None)
      \<and> fst (snd (Conn_WriteTo (newTunnel c2))) = [9]"
proof -
  let ?s = "Chunk [5, 1] (Chunk [0, 5, 1, 0] (Chunk [1, 1, 2, 3, 4, 0] (Stop [80, 9] (ESent IoEOF))))"
  let ?q = "(req0 [] NilAddr NilAddr)\<lparr>rq_Method := 0, rq_Identity := IdNil, rq_Version := V5,
          rq_Command := 1, rq_Addr := ipAddr (AddrFrom4 [1, 2, 3, 4]) 80\<rparr>"
  have s: "hs_spec openConfig (stream_end ?s) (req0 [] NilAddr NilAddr) (stream_bytes ?s) = ([9], [5, 0], Inr ?q)"
    by (simp add: hs_spec_def hs5_spec_def openConfig_def parsed_def ParseGreeting_def checkVersion_def
        Version5_def slice_def choose_auth_def method_defs auth5_spec_def req5_spec_def ParseRequest_def
        parseAddrMessage_def addrMessageLen_def addrAt_def atyp_defs word_of_be_def)
  have ok: "\<forall>a \<in> set (cf_auth openConfig). auth_ok (Authenticate (cf_sha256 openConfig) a)"
    by (simp add: openConfig_def Authenticate_def)
  obtain c1 where c1: "handshake openConfig NilAddr NilAddr (newConn [] ?s [] None) = Some (c1, None)"
    "writable c1" "req c1 = ?q"
    using handshake_refines [of "[]" openConfig, where local = NilAddr and remote = NilAddr and self = "[]"
        and s = ?s and cw = None] s ok
    by (auto simp: hs_result_def refines_def at_rest_def)
  have l: "live c1"
    using handshake_any [of openConfig NilAddr NilAddr "newConn [] ?s [] None"]
      begin_facts [of openConfig NilAddr NilAddr "[]" ?s "[]" None] c1(1)
    by (auto simp: hs_post_def live_def newConn_def)
  have w: "(case writes c1 of [] \<Rightarrow> None | x # xs \<Rightarrow> x) = None"
    using c1(2) by (cases "writes c1") (auto simp: writable_def)
  obtain m where "appendReply V5 [] ReplySucceeded zeroAddr = (m, None)"
    using appendReply_ok [of zeroAddr V5 "[]" ReplySucceeded] by auto
  then obtain c2 where r: "Reply openConfig ReplySucceeded zeroAddr c1 = (c2, None)"
    using l w c1(3)
    by (auto simp: Reply_def Let_def writeReply_def live_def net_write_def isSuccess_def wrote_def net_op_def
        openConfig_def)
  show ?thesis
    using early_data_reaches_the_handler [OF _ ok s c1(1) r] c1(1) r by auto
qed

end
