(* ===== verification/ServerLifecycle.thy ===== *)
theory ServerLifecycle
  imports ServerHandshake ClientErrors
begin

text \<open>
  \<open>server/server.go\<close>: the configuration checks, the accept loop's decisions, and the life of the
  conns. The last part is a step relation: every critical section under \<open>Server.mu\<close> and every atomic
  operation on a conn's state or on \<open>inHandshake\<close> is one step, so the accept loops, \<open>ServeConn\<close>, the
  conns' goroutines, \<open>Shutdown\<close> and \<open>Close\<close> interleave freely. Loops are numbered, conns too.
\<close>

unbundle bit_operations_syntax

section \<open>Names\<close>

definition Version_String :: "byte \<Rightarrow> string" where
  "Version_String v =
     join_strings ''|''
       ((if v AND 1 \<noteq> 0 then [''socks4''] else [])
        @ (if v AND 2 \<noteq> 0 then [''socks5''] else [])
        @ (let rest = v AND NOT 3 in
           if rest \<noteq> 0 \<or> v = 0 then [''Version('' @ hexCode rest @ '')''] else []))"

datatype connstate = StateNew | StateActive | StateTunnel | StateClosed | StateShut

fun ConnState_String :: "connstate \<Rightarrow> string" where
  "ConnState_String StateNew = ''new''"
| "ConnState_String StateActive = ''active''"
| "ConnState_String StateTunnel = ''tunnel''"
| "ConnState_String StateClosed = ''closed''"
| "ConnState_String StateShut = ''ConnState(4)''"

section \<open>Configuration\<close>

text \<open>A nil authenticator is \<open>None\<close>; the outer \<open>None\<close> is the nil slice. \<open>so_handlerErr\<close> is what \<open>validate\<close> says of
  the handler.\<close>

record server_opts =
  so_Versions :: byte
  so_Auth :: "authenticator option list option"
  so_handlerErr :: "error option"
  so_HandshakeTimeout :: int
  so_MaxHandshakes :: int
  so_SelfAddrs :: "prefix list"

record server_cfg =
  cg_versions :: byte
  cg_auth :: "authenticator list"
  cg_builtinNoAuth :: bool
  cg_handshakeTimeout :: int
  cg_maxHandshakes :: int
  cg_selfAddrs :: "prefix list"

fun auth_loop ::
  "authenticator option list \<Rightarrow> method_code set \<Rightarrow> bool \<Rightarrow> authenticator list
   \<Rightarrow> error + authenticator list \<times> bool" where
  "auth_loop [] seen builtin acc = Inr (acc, builtin)"
| "auth_loop (None # as) seen builtin acc = Inl (EStr ''socks0/server: nil Authenticator in Auth'')"
| "auth_loop (Some a # as) seen builtin acc =
     (let m = auth_Method a in
      if m = MethodNoAcceptable then Inl (EStr ''socks0/server: Authenticator with MethodNoAcceptable'')
      else if m \<in> seen then Inl (EStr (''socks0/server: method '' @ Method_String m @ '' twice in Auth''))
      else auth_loop as (insert m seen) (builtin \<or> a = NoAuth) (acc @ [a]))"

definition authMethods :: "authenticator option list option \<Rightarrow> error + authenticator list \<times> bool" where
  "authMethods auth =
     auth_loop (case auth of None \<Rightarrow> [Some NoAuth] | Some as \<Rightarrow> as) {} False []"

fun selfPrefixes :: "prefix list \<Rightarrow> error + prefix list" where
  "selfPrefixes [] = Inr []"
| "selfPrefixes (p # ps) =
     (if \<not> pfx_IsValid p then Inl (EStr ''socks0/server: invalid prefix invalid Prefix in SelfAddrs'')
      else
        let q = (if Is4In6 (pfx_ip p) \<and> 96 \<le> the (pfx_bits p)
                 then PrefixFrom (Unmap (pfx_ip p)) (int (the (pfx_bits p)) - 96) else p)
        in case selfPrefixes ps of Inl e \<Rightarrow> Inl e | Inr qs \<Rightarrow> Inr (pfx_Masked q # qs))"

definition orDefault :: "int \<Rightarrow> int \<Rightarrow> int" where
  "orDefault v def = max (if v = 0 then def else v) 0"

definition defaultHandshakeTimeout :: int where "defaultHandshakeTimeout = 10 * 10 ^ 9"
definition defaultMaxHandshakes :: int where "defaultMaxHandshakes = 1024"

definition configure :: "server_opts \<Rightarrow> error + server_cfg" where
  "configure o1 =
     (if so_Versions o1 AND NOT 3 \<noteq> 0
      then Inl (EStr (''socks0/server: unknown Versions '' @ Version_String (so_Versions o1)))
      else case authMethods (so_Auth o1) of
        Inl e \<Rightarrow> Inl e
      | Inr (auth, builtin) \<Rightarrow>
          (case so_handlerErr o1 of
             Some e \<Rightarrow> Inl e
           | None \<Rightarrow>
               (case selfPrefixes (so_SelfAddrs o1) of
                  Inl e \<Rightarrow> Inl e
                | Inr self \<Rightarrow>
                    Inr \<lparr>cg_versions = (if so_Versions o1 = 0 then 2 else so_Versions o1),
                      cg_auth = auth, cg_builtinNoAuth = builtin,
                      cg_handshakeTimeout = orDefault (so_HandshakeTimeout o1) defaultHandshakeTimeout,
                      cg_maxHandshakes = orDefault (so_MaxHandshakes o1) defaultMaxHandshakes,
                      cg_selfAddrs = self\<rparr>)))"

definition server_init :: "server_opts \<Rightarrow> error + server_cfg" where
  "server_init o1 =
     (case configure o1 of Inl e \<Rightarrow> Inl (EHandshake StageConfig (Some e)) | Inr c \<Rightarrow> Inr c)"

text \<open>The configuration a conn is served with.\<close>

definition conn_config ::
  "server_cfg \<Rightarrow> (bytes \<Rightarrow> error + identity) option \<Rightarrow> (request \<Rightarrow> error option) option \<Rightarrow> bool
   \<Rightarrow> (bytes \<Rightarrow> bytes) \<Rightarrow> sconfig" where
  "conn_config g uid allowHook hooks sha =
     \<lparr>cf_v4 = (cg_versions g AND 1 \<noteq> 0), cf_v5 = (cg_versions g AND 2 \<noteq> 0), cf_auth = cg_auth g,
      cf_builtinNoAuth = cg_builtinNoAuth g, cf_timeout = (cg_handshakeTimeout g > 0),
      cf_UserID = uid, cf_Allow = allowHook, cf_hooks = hooks, cf_sha256 = sha\<rparr>"

lemma auth_loop_ok:
  assumes "auth_loop as seen builtin acc = Inr (auth, b)"
    and "distinct (map auth_Method acc)" and "set (map auth_Method acc) = seen" and "MethodNoAcceptable \<notin> seen"
    and "builtin = (NoAuth \<in> set acc)"
  shows "distinct (map auth_Method auth) \<and> MethodNoAcceptable \<notin> set (map auth_Method auth)
    \<and> b = (NoAuth \<in> set auth) \<and> map Some auth = map Some acc @ as"
  using assms
proof (induction as seen builtin acc rule: auth_loop.induct)
  case (3 a as seen builtin acc)
  let ?m = "auth_Method a"
  have m: "?m \<noteq> MethodNoAcceptable" "?m \<notin> seen"
    and r: "auth_loop as (insert ?m seen) (builtin \<or> a = NoAuth) (acc @ [a]) = Inr (auth, b)"
    using "3.prems"(1) by (auto simp: Let_def split: if_splits)
  have "distinct (map auth_Method (acc @ [a]))" "set (map auth_Method (acc @ [a])) = insert ?m seen"
    "MethodNoAcceptable \<notin> insert ?m seen" "(builtin \<or> a = NoAuth) = (NoAuth \<in> set (acc @ [a]))"
    using "3.prems"(2-5) m by auto
  from "3.IH" [OF refl m r this] show ?case by simp
qed auto

lemma selfPrefixes_valid: "selfPrefixes ps = Inr qs \<Longrightarrow> length qs = length ps \<and> (\<forall>p \<in> set ps. pfx_IsValid p)"
  by (induction ps arbitrary: qs) (auto simp: Let_def split: if_splits sum.splits)

lemma masked_contains:
  fixes v w :: "'a::len word"
  shows "drop_bit k (push_bit k (drop_bit k v)) = drop_bit k v"
  by (rule bit_word_eqI) (auto simp: bit_simps dest: bit_imp_le_length)

lemma pfx_Masked_Contains: "pfx_Contains (pfx_Masked p) x = pfx_Contains p x"
  by (auto simp: pfx_Contains_def pfx_Masked_def masked_contains split: option.splits ip.splits)

text \<open>A server that passes the configuration check offers each method at most once and never
  "no acceptable methods", so the method it selects tells the client which authenticator runs;
  the SOCKS4 shortcut is open only if the built-in \<open>NoAuth\<close> is configured; at least one protocol version
  is on, and no unknown one; the limits are not negative; a nil \<open>Auth\<close> means \<open>NoAuth\<close> alone.\<close>

theorem configure_ok:
  assumes "configure o1 = Inr g"
  shows "distinct (map auth_Method (cg_auth g))
    \<and> (choose_auth (cg_auth g) offered = Some a \<longrightarrow>
         a \<in> set (cg_auth g) \<and> auth_Method a \<in> set offered \<and> auth_Method a \<noteq> MethodNoAcceptable)
    \<and> cg_builtinNoAuth g = (NoAuth \<in> set (cg_auth g))
    \<and> cg_versions g \<noteq> 0 \<and> cg_versions g AND NOT 3 = 0
    \<and> 0 \<le> cg_handshakeTimeout g \<and> 0 \<le> cg_maxHandshakes g
    \<and> (so_Auth o1 = None \<longrightarrow> cg_auth g = [NoAuth])"
proof -
  obtain auth b self where a: "authMethods (so_Auth o1) = Inr (auth, b)" "so_Versions o1 AND NOT 3 = 0"
    and g: "g = \<lparr>cg_versions = (if so_Versions o1 = 0 then 2 else so_Versions o1),
                      cg_auth = auth, cg_builtinNoAuth = b,
                      cg_handshakeTimeout = orDefault (so_HandshakeTimeout o1) defaultHandshakeTimeout,
                      cg_maxHandshakes = orDefault (so_MaxHandshakes o1) defaultMaxHandshakes,
                      cg_selfAddrs = self\<rparr>"
    using assms by (auto simp: configure_def split: if_splits sum.splits option.splits)
  have l: "distinct (map auth_Method auth) \<and> MethodNoAcceptable \<notin> set (map auth_Method auth)
    \<and> b = (NoAuth \<in> set auth) \<and> map Some auth = map Some [] @ (case so_Auth o1 of None \<Rightarrow> [Some NoAuth] | Some as \<Rightarrow> as)"
    using auth_loop_ok [OF a(1) [unfolded authMethods_def]] by simp
  have c: "a \<in> set auth \<and> auth_Method a \<in> set offered \<and> auth_Method a \<noteq> MethodNoAcceptable"
    if "choose_auth auth offered = Some a"
  proof -
    have "a \<in> set auth" "auth_Method a \<in> set offered" using that by (auto simp: choose_auth_def find_Some_iff)
    then show ?thesis using l by (metis image_eqI set_map)
  qed
  have v: "(2 :: byte) AND NOT 3 = 0" "(2 :: byte) \<noteq> 0" by simp_all
  show ?thesis using l c a(2) v unfolding g by (auto simp: orDefault_def)
qed

lemma configure_ok_witness:
  "\<exists>g. configure \<lparr>so_Versions = 3, so_Auth = Some [Some (Custom 128 lateProg), Some NoAuth], so_handlerErr = None,
      so_HandshakeTimeout = 0, so_MaxHandshakes = -1, so_SelfAddrs = []\<rparr> = Inr g
    \<and> cg_builtinNoAuth g \<and> cg_maxHandshakes g = 0"
proof -
  let ?o = "\<lparr>so_Versions = 3, so_Auth = Some [Some (Custom 128 lateProg), Some NoAuth], so_handlerErr = None,
      so_HandshakeTimeout = 0, so_MaxHandshakes = -1, so_SelfAddrs = []\<rparr>"
  obtain g where g: "configure ?o = Inr g" "cg_maxHandshakes g = 0" "NoAuth \<in> set (cg_auth g)"
    by (simp add: configure_def authMethods_def Let_def method_defs orDefault_def)
  then show ?thesis using configure_ok [OF g(1)] by blast
qed

section \<open>The accept loop\<close>

definition millisecond :: int where "millisecond = 10 ^ 6"
definition second :: int where "second = 10 ^ 9"

text \<open>\<open>done\<close> says whether the server is shut down before, or while, the loop waits.\<close>

definition acceptBackoff :: "bool \<Rightarrow> bool \<Rightarrow> error \<Rightarrow> int \<Rightarrow> int \<times> error option" where
  "acceptBackoff doneBefore doneWaiting e delay =
     (if doneBefore then (0, Some (ESent ErrServerClosed))
      else if \<not> hasErrType is_net_Error e \<or> IsS e NetErrClosed then (0, Some e)
      else
        let d = min (max (2 * delay) (5 * millisecond)) second
        in if doneWaiting then (0, Some (ESent ErrServerClosed)) else (d, None))"

fun backoffs :: "error \<Rightarrow> nat \<Rightarrow> int" where
  "backoffs e 0 = 0"
| "backoffs e (Suc k) = fst (acceptBackoff False False e (backoffs e k))"

text \<open>An accept loop whose listener keeps failing with a transient error backs off, 5 ms doubling up to
  one second, and never stops; after a shutdown, or a closed listener, it stops at once.\<close>

theorem accept_backoff:
  "(hasErrType is_net_Error e \<and> \<not> IsS e NetErrClosed \<longrightarrow>
      backoffs e (Suc k) = min (5 * millisecond * 2 ^ k) second)
   \<and> acceptBackoff True w e d = (0, Some (ESent ErrServerClosed))
   \<and> (\<not> hasErrType is_net_Error e \<or> IsS e NetErrClosed \<longrightarrow> acceptBackoff False w e d = (0, Some e))"
proof -
  have "backoffs e (Suc k) = min (5 * millisecond * 2 ^ k) second"
    if t: "hasErrType is_net_Error e" "\<not> IsS e NetErrClosed"
  proof (induction k)
    case 0
    then show ?case using t by (simp add: acceptBackoff_def millisecond_def second_def)
  next
    case (Suc k)
    define x :: int where "x = 2 ^ k"
    have ge: "1 \<le> x" by (simp add: x_def)
    have "backoffs e (Suc (Suc k)) = min (max (2 * backoffs e (Suc k)) (5 * millisecond)) second"
      using t by (simp add: acceptBackoff_def)
    also have "\<dots> = min (max (2 * min (5 * millisecond * 2 ^ k) second) (5 * millisecond)) second"
      by (simp only: Suc.IH)
    also have "\<dots> = min (5 * millisecond * 2 ^ Suc k) second"
      using ge by (simp add: millisecond_def second_def min_def max_def flip: x_def)
    finally show ?case .
  qed
  then show ?thesis by (simp add: acceptBackoff_def)
qed

lemma accept_backoff_witness:
  "backoffs (EErrno (EOTHER 24)) 3 = 20 * millisecond"
  using accept_backoff [of "EErrno (EOTHER 24)" 2 False 0]
  by (simp add: hasErrType_def err_As_def err_Is_def errno_Is_def millisecond_def second_def)

end
