(* ===== verification/ServerConns.thy ===== *)
theory ServerConns
  imports ServerLifecycle
begin

text \<open>
  The life of the conns of a server (\<open>server/server.go\<close> with \<open>activate\<close> and \<open>finish\<close> of
  \<open>server/conn.go\<close>) as a step relation. A step is one critical section under \<open>Server.mu\<close> or one
  atomic operation (a conn's state word, \<open>inHandshake\<close>, a channel), so the accept loops, the callers of
  \<open>ServeConn\<close>, the conns' goroutines, \<open>Shutdown\<close> and \<open>Close\<close> interleave freely. The lemmas show the
  slot accounting, that no loop sleeps while a slot is free, and what a shutdown does to the conns.
\<close>

section \<open>State\<close>

text \<open>Where the goroutine of a conn is: in the handshake; between the successful CAS of \<open>activate\<close> and its
  decrement; in the \<open>ConnState\<close> hook of \<open>activate\<close>; past \<open>r = &sc.req\<close>; in \<open>finish\<close> before its \<open>Store\<close>,
  before its decrement, and before \<open>untrack\<close>.\<close>

datatype phase = PHandshake | PActivated | PHook | PHandler | PFinish | PClosed | PCounted

record sconn =
  cs_state :: connstate
  cs_phase :: phase
  cs_req :: bool
  cs_slotTaken :: bool
  cs_ncClosed :: bool
  cs_tunnelNext :: bool

text \<open>Where an accept loop is: before \<open>Accept\<close>, before a critical section of \<open>waitSlot\<close>, in its \<open>select\<close>, with
  a slot counted and no conn yet, returned.\<close>

datatype loop = LAccept | LWait | LBlocked nat | LSlot | LStopped

text \<open>Channels are numbers; \<open>slotFreed\<close> is the current one. \<open>mu\<close> is held across steps only by the loops over
  \<open>conns\<close> in \<open>Shutdown\<close> (\<open>False\<close>) and \<open>Close\<close> (\<open>True\<close>), with the conns still to visit.\<close>

record srv =
  maxConns :: int
  maxHandshakes :: int
  sdone :: bool
  slotsUsed :: int
  slotFreed :: "nat option"
  freedChans :: "nat set"
  nextChan :: nat
  conns :: "nat \<rightharpoonup> sconn"
  inHandshake :: int
  loops :: "nat \<rightharpoonup> loop"
  mu :: "(bool \<times> nat set) option"

section \<open>Operations\<close>

definition set_loop :: "nat \<Rightarrow> loop \<Rightarrow> srv \<Rightarrow> srv" where
  "set_loop l p s = s\<lparr>loops := (loops s)(l \<mapsto> p)\<rparr>"

definition set_conn :: "nat \<Rightarrow> sconn \<Rightarrow> srv \<Rightarrow> srv" where
  "set_conn i c s = s\<lparr>conns := (conns s)(i \<mapsto> c)\<rparr>"

definition addListener :: "nat \<Rightarrow> srv \<Rightarrow> srv" where
  "addListener l s = set_loop l (if sdone s then LStopped else LAccept) s"

text \<open>\<open>start\<close> up to \<open>waitSlot\<close>: a conn over \<open>MaxHandshakes\<close> is closed and the loop accepts the next.\<close>

definition start :: "nat \<Rightarrow> srv \<Rightarrow> srv" where
  "start l s =
     (if maxHandshakes s > 0 \<and> inHandshake s \<ge> maxHandshakes s then s else set_loop l LWait s)"

definition waitSlot :: "nat \<Rightarrow> srv \<Rightarrow> srv" where
  "waitSlot l s =
     (if sdone s then set_loop l LStopped s
      else if maxConns s \<le> 0 \<or> slotsUsed s < maxConns s
      then set_loop l LSlot (s\<lparr>slotsUsed := slotsUsed s + 1\<rparr>)
      else
        case slotFreed s of
          Some ch \<Rightarrow> set_loop l (LBlocked ch) s
        | None \<Rightarrow>
            set_loop l (LBlocked (nextChan s)) (s\<lparr>slotFreed := Some (nextChan s), nextChan := Suc (nextChan s)\<rparr>))"

definition newConn_locked :: "nat \<Rightarrow> bool \<Rightarrow> srv \<Rightarrow> srv \<times> bool" where
  "newConn_locked i slotTaken s =
     (if sdone s then (if slotTaken then s\<lparr>slotsUsed := slotsUsed s - 1\<rparr> else s, False)
      else
        let s1 = set_conn i \<lparr>cs_state = StateNew, cs_phase = PHandshake, cs_req = False, cs_slotTaken = slotTaken,
                    cs_ncClosed = False, cs_tunnelNext = False\<rparr> s;
            s2 = (if \<not> slotTaken then s1\<lparr>slotsUsed := slotsUsed s1 + 1\<rparr> else s1)
        in (s2\<lparr>inHandshake := inHandshake s2 + 1\<rparr>, True))"

text \<open>The rest of \<open>start\<close>: the loop goes on, or returns \<open>ErrServerClosed\<close>.\<close>

definition start_conn :: "nat \<Rightarrow> nat \<Rightarrow> srv \<Rightarrow> srv" where
  "start_conn l i s =
     (case newConn_locked i True s of (s1, ok) \<Rightarrow> set_loop l (if ok then LAccept else LStopped) s1)"

text \<open>\<open>activate\<close>, split at its three effects: the CAS, the decrement, the hook.\<close>

definition activate_cas :: "nat \<Rightarrow> sconn \<Rightarrow> srv \<Rightarrow> srv" where
  "activate_cas i c s =
     (if cs_state c = StateNew then set_conn i (c\<lparr>cs_state := StateActive, cs_phase := PActivated\<rparr>) s
      else set_conn i (c\<lparr>cs_phase := PFinish\<rparr>) s)"

definition activate_count :: "nat \<Rightarrow> sconn \<Rightarrow> srv \<Rightarrow> srv" where
  "activate_count i c s = set_conn i (c\<lparr>cs_phase := PHook\<rparr>) (s\<lparr>inHandshake := inHandshake s - 1\<rparr>)"

text \<open>\<open>finish\<close>, split likewise: \<open>nc.Close\<close> and the \<open>Store\<close>, the decrement of a conn without request, \<open>untrack\<close>.\<close>

definition finish_store :: "nat \<Rightarrow> sconn \<Rightarrow> srv \<Rightarrow> srv" where
  "finish_store i c s = set_conn i (c\<lparr>cs_state := StateClosed, cs_phase := PClosed, cs_ncClosed := True\<rparr>) s"

definition finish_count :: "nat \<Rightarrow> sconn \<Rightarrow> srv \<Rightarrow> srv" where
  "finish_count i c s =
     set_conn i (c\<lparr>cs_phase := PCounted\<rparr>)
       (if \<not> cs_req c then s\<lparr>inHandshake := inHandshake s - 1\<rparr> else s)"

definition untrack :: "nat \<Rightarrow> srv \<Rightarrow> srv" where
  "untrack i s =
     (let s1 = s\<lparr>conns := (conns s)(i := None), slotsUsed := slotsUsed s - 1\<rparr> in
      case slotFreed s1 of
        Some ch \<Rightarrow> s1\<lparr>freedChans := insert ch (freedChans s1), slotFreed := None\<rparr>
      | None \<Rightarrow> s1)"

text \<open>The critical section of \<open>stop\<close>; the passes of \<open>closeHandshakes\<close> and \<open>Close\<close> over the conns.\<close>

definition stop_locked :: "srv \<Rightarrow> srv" where
  "stop_locked s = s\<lparr>sdone := True\<rparr>"

definition begin_pass :: "bool \<Rightarrow> srv \<Rightarrow> srv" where
  "begin_pass kill s = s\<lparr>mu := Some (kill, dom (conns s))\<rparr>"

definition visited :: "bool \<Rightarrow> sconn \<Rightarrow> sconn" where
  "visited kill c =
     (let new = (cs_state c = StateNew);
          c1 = (if new then c\<lparr>cs_state := StateShut\<rparr> else c)
      in if new \<or> kill then c1\<lparr>cs_ncClosed := True\<rparr> else c1)"

definition visit :: "bool \<Rightarrow> nat \<Rightarrow> sconn \<Rightarrow> srv \<Rightarrow> srv" where
  "visit kill i c s = set_conn i (visited kill c) s"

section \<open>Steps\<close>

text \<open>What may happen around the server: which listeners are served, whether \<open>ServeConn\<close> is called, whether
  the \<open>ConnState\<close> hook may panic, whether \<open>Close\<close> is called, and whether a listener fails for good.\<close>

record behaviour =
  b_listeners :: "nat set"
  b_serveConn :: bool
  b_hookPanics :: bool
  b_close :: bool

inductive sstep :: "behaviour \<Rightarrow> srv \<Rightarrow> srv \<Rightarrow> bool" for b where
  serve: "mu s = None \<Longrightarrow> l \<in> b_listeners b \<Longrightarrow> loops s l = None \<Longrightarrow> sstep b s (addListener l s)"
| accept: "loops s l = Some LAccept \<Longrightarrow> sstep b s (start l s)"
| accept_fails: "loops s l = Some LAccept \<Longrightarrow> sstep b s (set_loop l LStopped s)"
| wait_slot: "mu s = None \<Longrightarrow> loops s l = Some LWait \<Longrightarrow> sstep b s (waitSlot l s)"
| wake: "loops s l = Some (LBlocked ch) \<Longrightarrow> ch \<in> freedChans s \<or> sdone s \<Longrightarrow> sstep b s (set_loop l LWait s)"
| start_conn: "mu s = None \<Longrightarrow> loops s l = Some LSlot \<Longrightarrow> conns s i = None \<Longrightarrow> sstep b s (start_conn l i s)"
| serve_conn: "mu s = None \<Longrightarrow> b_serveConn b \<Longrightarrow> conns s i = None \<Longrightarrow> sstep b s (fst (newConn_locked i False s))"
| activate: "conns s i = Some c \<Longrightarrow> cs_phase c = PHandshake \<Longrightarrow> sstep b s (activate_cas i c s)"
| handshake_fails:
    "conns s i = Some c \<Longrightarrow> cs_phase c = PHandshake \<Longrightarrow> sstep b s (set_conn i (c\<lparr>cs_phase := PFinish\<rparr>) s)"
| activate_count: "conns s i = Some c \<Longrightarrow> cs_phase c = PActivated \<Longrightarrow> sstep b s (activate_count i c s)"
| hook_returns:
    "conns s i = Some c \<Longrightarrow> cs_phase c = PHook \<Longrightarrow> sstep b s (set_conn i (c\<lparr>cs_phase := PHandler, cs_req := True\<rparr>) s)"
| hook_panics:
    "b_hookPanics b \<Longrightarrow> conns s i = Some c \<Longrightarrow> cs_phase c = PHook
     \<Longrightarrow> sstep b s (set_conn i (c\<lparr>cs_phase := PFinish\<rparr>) s)"
| reply: "conns s i = Some c \<Longrightarrow> cs_phase c = PHandler \<Longrightarrow> sstep b s (set_conn i (c\<lparr>cs_tunnelNext := True\<rparr>) s)"
| store_tunnel:
    "conns s i = Some c \<Longrightarrow> cs_tunnelNext c
     \<Longrightarrow> sstep b s (set_conn i (c\<lparr>cs_state := StateTunnel, cs_tunnelNext := False\<rparr>) s)"
| handler_ends: "conns s i = Some c \<Longrightarrow> cs_phase c = PHandler \<Longrightarrow> sstep b s (set_conn i (c\<lparr>cs_phase := PFinish\<rparr>) s)"
| finish_store: "conns s i = Some c \<Longrightarrow> cs_phase c = PFinish \<Longrightarrow> sstep b s (finish_store i c s)"
| finish_count: "conns s i = Some c \<Longrightarrow> cs_phase c = PClosed \<Longrightarrow> sstep b s (finish_count i c s)"
| untrack: "mu s = None \<Longrightarrow> conns s i = Some c \<Longrightarrow> cs_phase c = PCounted \<Longrightarrow> sstep b s (untrack i s)"
| stop: "mu s = None \<Longrightarrow> sstep b s (stop_locked s)"
| begin_pass: "mu s = None \<Longrightarrow> sdone s \<Longrightarrow> kill \<longrightarrow> b_close b \<Longrightarrow> sstep b s (begin_pass kill s)"
| visit:
    "mu s = Some (kill, todo) \<Longrightarrow> i \<in> todo \<Longrightarrow> conns s i = Some c
     \<Longrightarrow> sstep b s ((visit kill i c s)\<lparr>mu := Some (kill, todo - {i})\<rparr>)"
| end_pass: "mu s = Some (kill, {}) \<Longrightarrow> sstep b s (s\<lparr>mu := None\<rparr>)"

definition idle_srv :: "int \<Rightarrow> int \<Rightarrow> srv" where
  "idle_srv mc mh =
     \<lparr>maxConns = mc, maxHandshakes = mh, sdone = False, slotsUsed = 0, slotFreed = None, freedChans = {}, nextChan = 0,
      conns = Map.empty, inHandshake = 0, loops = Map.empty, mu = None\<rparr>"

abbreviation reachable :: "behaviour \<Rightarrow> int \<Rightarrow> int \<Rightarrow> srv \<Rightarrow> bool" where
  "reachable b mc mh s \<equiv> (sstep b)\<^sup>*\<^sup>* (idle_srv mc mh) s"


section \<open>Slots\<close>

definition slot_loops :: "srv \<Rightarrow> nat set" where
  "slot_loops s = {l. loops s l = Some LSlot}"

definition conns_with :: "(sconn \<Rightarrow> bool) \<Rightarrow> srv \<Rightarrow> nat set" where
  "conns_with P s = {i. \<exists>c. conns s i = Some c \<and> P c}"

definition slot_inv :: "int \<Rightarrow> srv \<Rightarrow> bool" where
  "slot_inv mc s =
     (finite (dom (conns s)) \<and> finite (dom (loops s)) \<and> maxConns s = mc
      \<and> slotsUsed s = int (card (slot_loops s)) + int (card (dom (conns s)))
      \<and> (0 < mc \<longrightarrow> int (card (slot_loops s)) + int (card (conns_with cs_slotTaken s)) \<le> mc))"

definition wake_inv :: "srv \<Rightarrow> bool" where
  "wake_inv s =
     (freedChans s \<subseteq> {..<nextChan s}
      \<and> (\<forall>ch. slotFreed s = Some ch \<longrightarrow> ch \<notin> freedChans s \<and> ch < nextChan s)
      \<and> (\<forall>l ch. loops s l = Some (LBlocked ch) \<longrightarrow> ch < nextChan s \<and> (ch \<notin> freedChans s \<longrightarrow> slotFreed s = Some ch))
      \<and> (slotFreed s \<noteq> None \<longrightarrow> \<not> sdone s \<longrightarrow> maxConns s \<le> slotsUsed s))"

lemma set_loop_sel [simp]:
  "loops (set_loop l p s) = (loops s)(l \<mapsto> p)" "conns (set_loop l p s) = conns s" "sdone (set_loop l p s) = sdone s"
  "slotsUsed (set_loop l p s) = slotsUsed s" "slotFreed (set_loop l p s) = slotFreed s" "mu (set_loop l p s) = mu s"
  "freedChans (set_loop l p s) = freedChans s" "nextChan (set_loop l p s) = nextChan s"
  "maxConns (set_loop l p s) = maxConns s" "maxHandshakes (set_loop l p s) = maxHandshakes s"
  "inHandshake (set_loop l p s) = inHandshake s"
  by (simp_all add: set_loop_def)

lemma set_conn_sel [simp]:
  "conns (set_conn i c s) = (conns s)(i \<mapsto> c)" "loops (set_conn i c s) = loops s" "sdone (set_conn i c s) = sdone s"
  "slotsUsed (set_conn i c s) = slotsUsed s" "slotFreed (set_conn i c s) = slotFreed s" "mu (set_conn i c s) = mu s"
  "freedChans (set_conn i c s) = freedChans s" "nextChan (set_conn i c s) = nextChan s"
  "maxConns (set_conn i c s) = maxConns s" "maxHandshakes (set_conn i c s) = maxHandshakes s"
  "inHandshake (set_conn i c s) = inHandshake s"
  by (simp_all add: set_conn_def)

lemma slot_loops_upd: "{l'. ((loops s)(l \<mapsto> p)) l' = Some LSlot} = (if p = LSlot then insert l (slot_loops s) else slot_loops s - {l})"
  by (auto simp: slot_loops_def split: if_splits)

lemma conns_with_upd:
  "{i'. \<exists>c'. ((conns s)(i \<mapsto> c)) i' = Some c' \<and> P c'} = (if P c then insert i (conns_with P s) else conns_with P s - {i})"
  by (auto simp: conns_with_def split: if_splits)

lemma slot_loops_set_loop [simp]:
  "slot_loops (set_loop l p s) = (if p = LSlot then insert l (slot_loops s) else slot_loops s - {l})"
  using slot_loops_upd [of s l p] by (simp add: slot_loops_def)

lemma conns_with_set_conn [simp]:
  "conns_with P (set_conn i c s) = (if P c then insert i (conns_with P s) else conns_with P s - {i})"
  using conns_with_upd [of s i c P] by (simp add: conns_with_def)

lemma slot_loops_cong [simp]:
  "slot_loops (s\<lparr>slotsUsed := n\<rparr>) = slot_loops s" "slot_loops (s\<lparr>inHandshake := k\<rparr>) = slot_loops s"
  "slot_loops (s\<lparr>slotFreed := f\<rparr>) = slot_loops s" "slot_loops (s\<lparr>nextChan := nc\<rparr>) = slot_loops s"
  "slot_loops (s\<lparr>freedChans := fc\<rparr>) = slot_loops s" "slot_loops (s\<lparr>conns := cs\<rparr>) = slot_loops s"
  "slot_loops (s\<lparr>mu := m\<rparr>) = slot_loops s" "slot_loops (s\<lparr>sdone := d\<rparr>) = slot_loops s"
  "slot_loops (set_conn i c s) = slot_loops s"
  by (simp_all add: slot_loops_def)

lemma conns_with_cong [simp]:
  "conns_with P (s\<lparr>slotsUsed := n\<rparr>) = conns_with P s" "conns_with P (s\<lparr>inHandshake := k\<rparr>) = conns_with P s"
  "conns_with P (s\<lparr>slotFreed := f\<rparr>) = conns_with P s" "conns_with P (s\<lparr>nextChan := nc\<rparr>) = conns_with P s"
  "conns_with P (s\<lparr>freedChans := fc\<rparr>) = conns_with P s" "conns_with P (s\<lparr>mu := m\<rparr>) = conns_with P s"
  "conns_with P (s\<lparr>sdone := d\<rparr>) = conns_with P s" "conns_with P (set_loop l p s) = conns_with P s"
  by (simp_all add: conns_with_def)

lemma conns_with_finite: "finite (dom (conns s)) \<Longrightarrow> finite (conns_with P s)"
  by (rule finite_subset [of _ "dom (conns s)"]) (auto simp: conns_with_def)

lemma slot_loops_finite: "finite (dom (loops s)) \<Longrightarrow> finite (slot_loops s)"
  by (rule finite_subset [of _ "dom (loops s)"]) (auto simp: slot_loops_def)

lemma conns_with_iff: "conns s i = Some c \<Longrightarrow> i \<in> conns_with P s \<longleftrightarrow> P c"
  by (simp add: conns_with_def)

lemma conns_with_new: "conns s i = None \<Longrightarrow> i \<notin> conns_with P s"
  by (simp add: conns_with_def)

lemma slot_invI:
  assumes "finite (dom (conns s))" and "finite (dom (loops s))" and "maxConns s = mc"
    and "int (card (slot_loops s)) = a" and "int (card (dom (conns s))) = t" and "int (card (conns_with cs_slotTaken s)) \<le> k"
    and "slotsUsed s = a + t" and "0 < mc \<Longrightarrow> a + k \<le> mc"
  shows "slot_inv mc s"
  using assms unfolding slot_inv_def by force

lemma slot_invD:
  assumes "slot_inv mc s"
  shows "finite (dom (conns s))" and "finite (dom (loops s))" and "maxConns s = mc"
    and "slotsUsed s = int (card (slot_loops s)) + int (card (dom (conns s)))"
    and "0 < mc \<Longrightarrow> int (card (slot_loops s)) + int (card (conns_with cs_slotTaken s)) \<le> mc"
    and "finite (slot_loops s)" and "finite (conns_with cs_slotTaken s)"
    and "card (conns_with cs_slotTaken s) \<le> card (dom (conns s))"
proof -
  show "finite (dom (conns s))" "finite (dom (loops s))" "maxConns s = mc"
    "slotsUsed s = int (card (slot_loops s)) + int (card (dom (conns s)))"
    "0 < mc \<Longrightarrow> int (card (slot_loops s)) + int (card (conns_with cs_slotTaken s)) \<le> mc"
    using assms unfolding slot_inv_def by blast+
  note f = this(1,2)
  show "finite (slot_loops s)" "finite (conns_with cs_slotTaken s)"
    using f by (simp_all add: slot_loops_finite conns_with_finite)
  show "card (conns_with cs_slotTaken s) \<le> card (dom (conns s))"
    using f(1) by (rule card_mono) (auto simp: conns_with_def)
qed

lemma int_card_insert: "finite A \<Longrightarrow> x \<notin> A \<Longrightarrow> int (card (insert x A)) = int (card A) + 1"
  by simp

lemma int_card_remove: "finite A \<Longrightarrow> x \<in> A \<Longrightarrow> int (card (A - {x})) = int (card A) - 1"
  using card_Suc_Diff1 [of A x] by simp

text \<open>A step of one conn: it keeps everything the slots are about.\<close>

definition same_slots :: "srv \<Rightarrow> srv \<Rightarrow> bool" where
  "same_slots s s' =
     (dom (conns s') = dom (conns s) \<and> loops s' = loops s \<and> maxConns s' = maxConns s \<and> slotsUsed s' = slotsUsed s
      \<and> conns_with cs_slotTaken s' = conns_with cs_slotTaken s \<and> slotFreed s' = slotFreed s
      \<and> freedChans s' = freedChans s \<and> nextChan s' = nextChan s \<and> (sdone s \<longrightarrow> sdone s'))"

lemma same_slots_loops: "same_slots s s' \<Longrightarrow> slot_loops s' = slot_loops s"
  by (simp add: same_slots_def slot_loops_def)

lemma same_slots_slot_inv: "same_slots s s' \<Longrightarrow> slot_inv mc s \<Longrightarrow> slot_inv mc s'"
  using same_slots_loops [of s s'] by (simp add: same_slots_def slot_inv_def)

lemma same_slots_wake_inv:
  assumes "same_slots s s'" and "wake_inv s"
  shows "wake_inv s'"
proof -
  have "loops s' = loops s" "slotFreed s' = slotFreed s" "freedChans s' = freedChans s" "nextChan s' = nextChan s"
    "maxConns s' = maxConns s" "slotsUsed s' = slotsUsed s" "\<not> sdone s' \<Longrightarrow> \<not> sdone s"
    using assms(1) by (simp_all add: same_slots_def)
  note same = this
  show ?thesis using assms(2) same(7) unfolding wake_inv_def same(1-6) by blast
qed

lemma wake_invI:
  assumes "freedChans s \<subseteq> {..<nextChan s}"
    and "\<And>ch. slotFreed s = Some ch \<Longrightarrow> ch \<notin> freedChans s \<and> ch < nextChan s"
    and "\<And>l ch. loops s l = Some (LBlocked ch) \<Longrightarrow> ch < nextChan s \<and> (ch \<notin> freedChans s \<longrightarrow> slotFreed s = Some ch)"
    and "slotFreed s \<noteq> None \<Longrightarrow> \<not> sdone s \<Longrightarrow> maxConns s \<le> slotsUsed s"
  shows "wake_inv s"
  using assms unfolding wake_inv_def by blast

lemma wake_invD:
  assumes "wake_inv s"
  shows "freedChans s \<subseteq> {..<nextChan s}"
    and "slotFreed s = Some ch \<Longrightarrow> ch \<notin> freedChans s \<and> ch < nextChan s"
    and "loops s l = Some (LBlocked ch') \<Longrightarrow> ch' < nextChan s \<and> (ch' \<notin> freedChans s \<longrightarrow> slotFreed s = Some ch')"
    and "slotFreed s \<noteq> None \<Longrightarrow> \<not> sdone s \<Longrightarrow> maxConns s \<le> slotsUsed s"
  using assms unfolding wake_inv_def by blast+

lemma same_slots_set_conn:
  "conns s i = Some c \<Longrightarrow> cs_slotTaken c' = cs_slotTaken c \<Longrightarrow> same_slots s (set_conn i c' s)"
  by (auto simp: same_slots_def conns_with_iff insert_absorb)

lemma same_slots_count: "same_slots s (s'\<lparr>inHandshake := k\<rparr>) = same_slots s s'"
  "same_slots s (s'\<lparr>mu := m\<rparr>) = same_slots s s'" "same_slots (s\<lparr>inHandshake := k\<rparr>) s' = same_slots s s'"
  by (simp_all add: same_slots_def)

lemma wake_inv_same:
  assumes w: "wake_inv s"
    and "loops s' = loops s" "slotFreed s' = slotFreed s" "freedChans s' = freedChans s" "nextChan s' = nextChan s"
      "maxConns s' = maxConns s" "sdone s' = sdone s" and le: "sdone s \<or> slotsUsed s \<le> slotsUsed s'"
  shows "wake_inv s'"
proof (rule wake_invI)
  assume "slotFreed s' \<noteq> None" "\<not> sdone s'"
  then show "maxConns s' \<le> slotsUsed s'" unfolding assms(2-7) using wake_invD(4) [OF w] le by linarith
qed (unfold assms(2-7), (rule wake_invD [OF w], assumption?)+)

lemma slot_inv_set_loop:
  "slot_inv mc s \<Longrightarrow> p \<noteq> LSlot \<Longrightarrow> l \<notin> slot_loops s \<Longrightarrow> slot_inv mc (set_loop l p s)"
  by (simp add: slot_inv_def)

lemma wake_inv_set_loop:
  assumes w: "wake_inv s" and p: "\<And>ch. p = LBlocked ch \<Longrightarrow> slotFreed s = Some ch"
  shows "wake_inv (set_loop l p s)"
proof (rule wake_invI)
  fix l' ch
  assume "loops (set_loop l p s) l' = Some (LBlocked ch)"
  then have "p = LBlocked ch \<or> loops s l' = Some (LBlocked ch)" by (simp split: if_splits)
  then show "ch < nextChan (set_loop l p s) \<and> (ch \<notin> freedChans (set_loop l p s) \<longrightarrow> slotFreed (set_loop l p s) = Some ch)"
    unfolding set_loop_sel using p wake_invD(2) [OF w, of ch] wake_invD(3) [OF w, of l' ch] by blast
qed (use w in \<open>simp_all add: wake_invD\<close>)

text \<open>What the critical sections do to the slots.\<close>

lemma waitSlot_inv:
  assumes i: "slot_inv mc s" "wake_inv s" and l: "loops s l = Some LWait"
  shows "slot_inv mc (waitSlot l s) \<and> wake_inv (waitSlot l s)"
proof -
  note D = slot_invD [OF i(1)]
  have n: "l \<notin> slot_loops s" using l by (simp add: slot_loops_def)
  consider "sdone s" | "\<not> sdone s" "mc \<le> 0 \<or> slotsUsed s < mc"
    | ch where "\<not> sdone s" "0 < mc" "mc \<le> slotsUsed s" "slotFreed s = Some ch"
    | "\<not> sdone s" "0 < mc" "mc \<le> slotsUsed s" "slotFreed s = None"
    by (cases "slotFreed s"; cases "mc \<le> 0"; cases "slotsUsed s < mc") auto
  then show ?thesis
  proof cases
    case 1
    then show ?thesis
      using slot_inv_set_loop [OF i(1) _ n] wake_inv_set_loop [OF i(2), of LStopped l] by (simp add: waitSlot_def)
  next
    case 2
    let ?s = "s\<lparr>slotsUsed := slotsUsed s + 1\<rparr>"
    have "slot_inv mc (set_loop l LSlot ?s)"
      by (rule slot_invI [where a = "int (card (slot_loops s)) + 1" and t = "int (card (dom (conns s)))"
            and k = "int (card (conns_with cs_slotTaken s))"])
        (use D 2 int_card_insert [OF D(6) n] in auto)
    moreover have "wake_inv (set_loop l LSlot ?s)"
      by (rule wake_inv_set_loop, rule wake_inv_same [OF i(2)]) simp_all
    ultimately show ?thesis using 2 D(3) by (simp add: waitSlot_def)
  next
    case 3
    then show ?thesis
      using slot_inv_set_loop [OF i(1) _ n] wake_inv_set_loop [OF i(2), of "LBlocked ch" l] D(3) by (simp add: waitSlot_def)
  next
    case 4
    let ?s = "s\<lparr>slotFreed := Some (nextChan s), nextChan := Suc (nextChan s)\<rparr>"
    have "slot_inv mc ?s"
      by (rule slot_invI [where a = "int (card (slot_loops s))" and t = "int (card (dom (conns s)))"
            and k = "int (card (conns_with cs_slotTaken s))"]) (use D in auto)
    moreover have "wake_inv ?s"
    proof (rule wake_invI)
      fix l' ch assume "loops ?s l' = Some (LBlocked ch)"
      then have "loops s l' = Some (LBlocked ch)" by simp
      from wake_invD(3) [OF i(2) this] 4(4)
      show "ch < nextChan ?s \<and> (ch \<notin> freedChans ?s \<longrightarrow> slotFreed ?s = Some ch)" by auto
    qed (use wake_invD(1) [OF i(2)] 4(3) D(3) in auto)
    ultimately show ?thesis
      using slot_inv_set_loop [of mc ?s "LBlocked (nextChan s)" l] wake_inv_set_loop [of ?s "LBlocked (nextChan s)" l]
        4(1-4) D(3) n
      by (simp add: waitSlot_def)
  qed
qed

abbreviation fresh_conn :: "bool \<Rightarrow> sconn" where
  "fresh_conn slotTaken \<equiv> \<lparr>cs_state = StateNew, cs_phase = PHandshake, cs_req = False, cs_slotTaken = slotTaken,
     cs_ncClosed = False, cs_tunnelNext = False\<rparr>"

lemma start_conn_inv:
  assumes i: "slot_inv mc s" "wake_inv s" and l: "loops s l = Some LSlot" and c: "conns s j = None"
  shows "slot_inv mc (start_conn l j s) \<and> wake_inv (start_conn l j s)"
proof -
  note D = slot_invD [OF i(1)]
  have n: "l \<in> slot_loops s" using l by (simp add: slot_loops_def)
  have d: "j \<notin> dom (conns s)" "j \<notin> conns_with cs_slotTaken s" using c by (auto simp: conns_with_def)
  note k = int_card_remove [OF D(6) n] int_card_insert [OF D(1) d(1)] int_card_insert [OF D(7) d(2)]
  show ?thesis
  proof (cases "sdone s")
    case True
    let ?s = "s\<lparr>slotsUsed := slotsUsed s - 1\<rparr>"
    have "slot_inv mc (set_loop l LStopped ?s)"
      by (rule slot_invI [where a = "int (card (slot_loops s)) - 1" and t = "int (card (dom (conns s)))"
            and k = "int (card (conns_with cs_slotTaken s))"]) (use D k in auto)
    moreover have "wake_inv (set_loop l LStopped ?s)"
      by (rule wake_inv_set_loop, rule wake_inv_same [OF i(2)]) (simp_all add: True)
    ultimately show ?thesis using True by (simp add: start_conn_def newConn_locked_def)
  next
    case False
    let ?s = "(set_conn j (fresh_conn True) s)\<lparr>inHandshake := inHandshake s + 1\<rparr>"
    have "slot_inv mc (set_loop l LAccept ?s)"
      by (rule slot_invI [where a = "int (card (slot_loops s)) - 1" and t = "int (card (dom (conns s))) + 1"
            and k = "int (card (conns_with cs_slotTaken s)) + 1"]) (use D k in auto)
    moreover have "wake_inv (set_loop l LAccept ?s)"
      by (rule wake_inv_set_loop, rule wake_inv_same [OF i(2)]) simp_all
    ultimately show ?thesis using False by (simp add: start_conn_def newConn_locked_def)
  qed
qed

lemma serve_conn_inv:
  assumes i: "slot_inv mc s" "wake_inv s" and c: "conns s j = None"
  shows "slot_inv mc (fst (newConn_locked j False s)) \<and> wake_inv (fst (newConn_locked j False s))"
proof (cases "sdone s")
  case True
  then show ?thesis using i by (simp add: newConn_locked_def)
next
  case False
  note D = slot_invD [OF i(1)]
  let ?s = "(set_conn j (fresh_conn False) s)\<lparr>slotsUsed := slotsUsed s + 1, inHandshake := inHandshake s + 1\<rparr>"
  have d: "j \<notin> dom (conns s)" "j \<notin> conns_with cs_slotTaken s" using c by (auto simp: conns_with_def)
  have "slot_inv mc ?s"
    by (rule slot_invI [where a = "int (card (slot_loops s))" and t = "int (card (dom (conns s))) + 1"
          and k = "int (card (conns_with cs_slotTaken s))"])
      (use D d int_card_insert [OF D(1) d(1)] in auto)
  moreover have "wake_inv ?s"
    by (rule wake_inv_same [OF i(2)]) simp_all
  ultimately show ?thesis using False by (simp add: newConn_locked_def)
qed

lemma untrack_inv:
  assumes i: "slot_inv mc s" "wake_inv s" and c: "conns s j = Some c"
  shows "slot_inv mc (untrack j s) \<and> wake_inv (untrack j s)"
proof -
  note D = slot_invD [OF i(1)]
  have d: "j \<in> dom (conns s)" using c by auto
  let ?s1 = "s\<lparr>conns := (conns s)(j := None), slotsUsed := slotsUsed s - 1\<rparr>"
  have w: "conns_with cs_slotTaken ?s1 \<subseteq> conns_with cs_slotTaken s"
    by (auto simp: conns_with_def split: if_splits)
  have le: "int (card (conns_with cs_slotTaken ?s1)) \<le> int (card (conns_with cs_slotTaken s))"
    using card_mono [OF D(7) w] by simp
  have e: "dom (conns ?s1) = dom (conns s) - {j}" by auto
  have s: "slot_inv mc ?s1"
    by (rule slot_invI [where a = "int (card (slot_loops s))" and t = "int (card (dom (conns s))) - 1"
          and k = "int (card (conns_with cs_slotTaken s))"])
      (use D le int_card_remove [OF D(1) d] in \<open>auto simp: e\<close>)
  show ?thesis
  proof (cases "slotFreed s")
    case None
    have "wake_inv ?s1"
    proof (rule wake_invI)
      fix l ch assume "loops ?s1 l = Some (LBlocked ch)"
      then have "loops s l = Some (LBlocked ch)" by simp
      from wake_invD(3) [OF i(2) this]
      show "ch < nextChan ?s1 \<and> (ch \<notin> freedChans ?s1 \<longrightarrow> slotFreed ?s1 = Some ch)" by simp
    qed (use wake_invD(1) [OF i(2)] None in auto)
    then show ?thesis using s None by (simp add: untrack_def)
  next
    case (Some ch0)
    let ?s2 = "?s1\<lparr>freedChans := insert ch0 (freedChans s), slotFreed := None\<rparr>"
    have "wake_inv ?s2"
    proof (rule wake_invI)
      fix l ch assume "loops ?s2 l = Some (LBlocked ch)"
      then have "loops s l = Some (LBlocked ch)" by simp
      from wake_invD(3) [OF i(2) this] Some
      show "ch < nextChan ?s2 \<and> (ch \<notin> freedChans ?s2 \<longrightarrow> slotFreed ?s2 = Some ch)" by auto
    qed (use wake_invD(1) [OF i(2)] wake_invD(2) [OF i(2) Some] in auto)
    moreover have "slot_inv mc ?s2" 
      by (rule slot_invI [where a = "int (card (slot_loops ?s1))" and t = "int (card (dom (conns ?s1)))"
            and k = "int (card (conns_with cs_slotTaken ?s1))"]) (use slot_invD [OF s] in auto)
    ultimately show ?thesis using Some by (simp add: untrack_def)
  qed
qed

lemma same_slots_conn_count:
  "conns s i = Some c \<Longrightarrow> cs_slotTaken c' = cs_slotTaken c \<Longrightarrow> same_slots s (set_conn i c' (s\<lparr>inHandshake := k\<rparr>))"
  by (auto simp: same_slots_def conns_with_iff insert_absorb)

text \<open>The steps of a single conn, and those of a pass, change no slot.\<close>

lemma visited_slot: "cs_slotTaken (visited kill c) = cs_slotTaken c"
  by (simp add: visited_def Let_def)

lemmas conn_step_defs = activate_cas_def activate_count_def finish_store_def finish_count_def visit_def
  stop_locked_def begin_pass_def

lemma same_slots_refl [simp]: "same_slots s s" "same_slots s (s\<lparr>mu := m\<rparr>)" "same_slots s (s\<lparr>sdone := True\<rparr>)"
  by (simp_all add: same_slots_def)

lemma slots_step:
  assumes "sstep b s s'" and i: "slot_inv mc s" "wake_inv s"
  shows "slot_inv mc s' \<and> wake_inv s'"
proof -
  have n: "l \<notin> slot_loops s" if "loops s l \<noteq> Some LSlot" for l using that by (simp add: slot_loops_def)
  have move: "slot_inv mc (set_loop l p s) \<and> wake_inv (set_loop l p s)"
    if "loops s l \<noteq> Some LSlot" and "p \<in> {LAccept, LWait, LStopped}" for l p
    using slot_inv_set_loop [OF i(1) _ n [OF that(1)], of p] wake_inv_set_loop [OF i(2), of p l] that(2) by auto
  note one = same_slots_set_conn same_slots_conn_count same_slots_slot_inv [OF _ i(1)] same_slots_wake_inv [OF _ i(2)]
  show ?thesis
    using assms(1)
  proof cases
    case (serve l)
    then show ?thesis using move [of l] by (simp add: addListener_def)
  next
    case (accept l)
    then show ?thesis using move [of l LWait] i by (simp add: start_def)
  next
    case (accept_fails l)
    then show ?thesis using move [of l LStopped] by simp
  next
    case (wait_slot l)
    then show ?thesis using waitSlot_inv [OF i] by simp
  next
    case (wake l ch)
    then show ?thesis using move [of l LWait] by simp
  next
    case (start_conn l j)
    then show ?thesis using start_conn_inv [OF i] by simp
  next
    case (serve_conn j)
    then show ?thesis using serve_conn_inv [OF i] by simp
  next
    case (untrack j c)
    then show ?thesis using untrack_inv [OF i] by simp
  qed (auto intro!: one simp: conn_step_defs visited_slot same_slots_count Let_def)
qed

lemma slots_reachable: "reachable b mc mh s \<Longrightarrow> slot_inv mc s \<and> wake_inv s"
proof (induction rule: rtranclp_induct)
  case base
  show ?case by (simp add: slot_inv_def wake_inv_def idle_srv_def slot_loops_def conns_with_def)
next
  case (step s s')
  then show ?case using slots_step by blast
qed

section \<open>What a conn may be in\<close>

definition conn_ok :: "behaviour \<Rightarrow> sconn \<Rightarrow> bool" where
  "conn_ok b c =
     ((cs_req c \<longrightarrow> cs_phase c \<in> {PHandler, PFinish, PClosed, PCounted})
      \<and> (cs_phase c = PHandler \<longrightarrow> cs_req c)
      \<and> (cs_state c \<in> {StateNew, StateShut} \<longrightarrow> cs_phase c \<in> {PHandshake, PFinish} \<and> \<not> cs_req c)
      \<and> (cs_phase c = PHandshake \<longrightarrow> cs_state c \<in> {StateNew, StateShut})
      \<and> (cs_tunnelNext c \<longrightarrow> cs_req c)
      \<and> (cs_ncClosed c \<longrightarrow> b_close b \<or> cs_state c = StateShut \<or> cs_phase c \<in> {PClosed, PCounted}))"

text \<open>A conn that still counts as in the handshake.\<close>

definition counted :: "sconn \<Rightarrow> bool" where
  "counted c = (cs_phase c \<in> {PHandshake, PActivated} \<or> cs_phase c \<in> {PFinish, PClosed} \<and> \<not> cs_req c)"

definition pass_inv :: "behaviour \<Rightarrow> srv \<Rightarrow> bool" where
  "pass_inv b s =
     (case mu s of
        None \<Rightarrow> True
      | Some (kill, todo) \<Rightarrow>
          sdone s \<and> (kill \<longrightarrow> b_close b) \<and> todo \<subseteq> dom (conns s)
          \<and> (\<forall>i c. conns s i = Some c \<longrightarrow> i \<notin> todo \<longrightarrow> cs_state c \<noteq> StateNew))"

definition conns_inv :: "behaviour \<Rightarrow> srv \<Rightarrow> bool" where
  "conns_inv b s =
     ((\<forall>i c. conns s i = Some c \<longrightarrow> conn_ok b c) \<and> pass_inv b s
      \<and> (\<not> b_hookPanics b \<longrightarrow> inHandshake s = int (card (conns_with counted s))))"

lemma conns_inv_D:
  assumes "conns_inv b s"
  shows "conns s i = Some c \<Longrightarrow> conn_ok b c" and "pass_inv b s"
    and "\<not> b_hookPanics b \<Longrightarrow> inHandshake s = int (card (conns_with counted s))"
  using assms by (auto simp: conns_inv_def)

text \<open>A step of conn \<open>i\<close> to \<open>c'\<close>, with \<open>k\<close> more in the handshake count.\<close>

lemma conns_inv_conn:
  assumes i: "conns_inv b s" and f: "finite (dom (conns s))" and c: "conns s i = Some c"
    and ok: "conn_ok b c'" and st: "cs_state c' = StateNew \<Longrightarrow> cs_state c = StateNew"
    and k: "\<not> b_hookPanics b \<Longrightarrow> of_bool (counted c') = of_bool (counted c) + k"
    and s': "conns s' = (conns s)(i \<mapsto> c')" "sdone s' = sdone s" "mu s' = mu s" "inHandshake s' = inHandshake s + k"
  shows "conns_inv b s'"
proof -
  have p: "pass_inv b s'"
    using conns_inv_D(2) [OF i] c st unfolding pass_inv_def s' by (auto split: option.splits)
  have cw: "conns_with counted s' = (if counted c' then insert i (conns_with counted s) else conns_with counted s - {i})"
    using conns_with_upd [of s i c' counted] by (simp add: conns_with_def s'(1))
  have m: "i \<in> conns_with counted s \<longleftrightarrow> counted c" using c by (simp add: conns_with_def)
  have "int (card (conns_with counted s')) = int (card (conns_with counted s)) + k" if "\<not> b_hookPanics b"
    using k [OF that] int_card_insert [OF conns_with_finite [OF f], of i counted]
      int_card_remove [OF conns_with_finite [OF f], of i counted] m
    unfolding cw by (auto simp: insert_absorb of_bool_def split: if_splits)
  then show ?thesis
    using p conns_inv_D(1,3) [OF i] ok unfolding conns_inv_def s' by auto
qed

lemma conns_inv_same:
  assumes "conns_inv b s" and "conns s' = conns s" "inHandshake s' = inHandshake s" and "pass_inv b s'"
  shows "conns_inv b s'"
  using assms unfolding conns_inv_def conns_with_def by simp

lemma conns_inv_new:
  assumes i: "conns_inv b s" and f: "finite (dom (conns s))" and c: "conns s i = None" and m: "mu s = None"
  shows "conns_inv b (fst (newConn_locked i k s))"
proof (cases "sdone s")
  case True
  then show ?thesis
    using conns_inv_same [OF i, of "fst (newConn_locked i k s)"] conns_inv_D(2) [OF i] m
    by (auto simp: newConn_locked_def pass_inv_def)
next
  case False
  let ?s = "fst (newConn_locked i k s)"
  have s': "conns ?s = (conns s)(i \<mapsto> fresh_conn k)" "mu ?s = None" "inHandshake ?s = inHandshake s + 1"
    using False m by (simp_all add: newConn_locked_def Let_def)
  have cw: "conns_with counted ?s = insert i (conns_with counted s)"
    using conns_with_upd [of s i "fresh_conn k" counted] by (simp add: conns_with_def s'(1) counted_def)
  have "int (card (conns_with counted ?s)) = int (card (conns_with counted s)) + 1"
    using int_card_insert [OF conns_with_finite [OF f] conns_with_new [OF c], of counted] unfolding cw by simp
  then show ?thesis
    using conns_inv_D [OF i] unfolding conns_inv_def s' by (auto simp: conn_ok_def pass_inv_def s'(2))
qed

lemma start_conn_new: "conns (start_conn l i s) = conns (fst (newConn_locked i True s))"
  "inHandshake (start_conn l i s) = inHandshake (fst (newConn_locked i True s))"
  "mu (start_conn l i s) = mu (fst (newConn_locked i True s))"
  "sdone (start_conn l i s) = sdone (fst (newConn_locked i True s))"
  by (simp_all add: start_conn_def split: prod.split)

lemma pass_inv_mu: "mu s = None \<Longrightarrow> pass_inv b s"
  by (simp add: pass_inv_def)

lemma newConn_locked_mu [simp]: "mu (fst (newConn_locked i k s)) = mu s"
  by (simp add: newConn_locked_def Let_def)

lemma waitSlot_conns [simp]: "conns (waitSlot l s) = conns s" "inHandshake (waitSlot l s) = inHandshake s"
  "mu (waitSlot l s) = mu s" "sdone (waitSlot l s) = sdone s"
  by (simp_all add: waitSlot_def split: option.split)

lemma untrack_conns [simp]: "conns (untrack i s) = (conns s)(i := None)" "inHandshake (untrack i s) = inHandshake s"
  "mu (untrack i s) = mu s" "sdone (untrack i s) = sdone s"
  by (simp_all add: untrack_def Let_def split: option.split)

lemma pass_inv_loops: "pass_inv b (set_loop l p s) = pass_inv b s"
  by (simp only: pass_inv_def set_loop_sel)

lemma visited_facts:
  assumes "conn_ok b c" and "kill \<longrightarrow> b_close b"
  shows "conn_ok b (visited kill c) \<and> cs_state (visited kill c) \<noteq> StateNew \<and> counted (visited kill c) = counted c"
  using assms by (cases "cs_state c"; cases kill) (auto simp: visited_def conn_ok_def counted_def)

lemma conns_step:
  assumes "sstep b s s'" and i: "conns_inv b s" and f: "finite (dom (conns s))"
  shows "conns_inv b s'"
proof -
  note one = conns_inv_conn [OF i f]
  have loop: "conns_inv b (set_loop l p s)" for l p
    by (rule conns_inv_same [OF i]) (use conns_inv_D(2) [OF i] in \<open>simp_all add: pass_inv_loops\<close>)
  have ok: "conn_ok b c" if "conns s j = Some c" for j c using conns_inv_D(1) [OF i that] .
  show ?thesis
    using assms(1)
  proof cases
    case (serve l)
    then show ?thesis using loop by (simp add: addListener_def)
  next
    case (accept l)
    then show ?thesis using loop i by (simp add: start_def)
  next
    case (accept_fails l)
    then show ?thesis using loop by simp
  next
    case (wait_slot l)
    then show ?thesis by (intro conns_inv_same [OF i]) (simp_all add: pass_inv_mu)
  next
    case (wake l ch)
    then show ?thesis using loop by simp
  next
    case (start_conn l j)
    have n: "conns_inv b (fst (newConn_locked j True s))" by (rule conns_inv_new [OF i f start_conn(4,2)])
    have "mu (fst (newConn_locked j True s)) = None" by (simp only: newConn_locked_mu start_conn(2))
    then show ?thesis unfolding start_conn(1)
      by (intro conns_inv_same [OF n] start_conn_new pass_inv_mu) (simp only: start_conn_new)
  next
    case (serve_conn j)
    then show ?thesis using conns_inv_new [OF i f, of j False] by simp
  next
    case (activate j c)
    let ?c' = "if cs_state c = StateNew then c\<lparr>cs_state := StateActive, cs_phase := PActivated\<rparr> else c\<lparr>cs_phase := PFinish\<rparr>"
    have e: "activate_cas j c s = set_conn j ?c' s" by (simp add: activate_cas_def)
    show ?thesis unfolding activate(1) e using ok [OF activate(2)] activate(3)
      by (intro one [OF activate(2), where k = 0 and c' = ?c']) (auto simp: conn_ok_def counted_def)
  next
    case (handshake_fails j c)
    show ?thesis unfolding handshake_fails(1) using ok [OF handshake_fails(2)] handshake_fails(3)
      by (intro one [OF handshake_fails(2), where k = 0]) (auto simp: conn_ok_def counted_def)
  next
    case (activate_count j c)
    show ?thesis unfolding activate_count(1) activate_count_def using ok [OF activate_count(2)] activate_count(3)
      by (intro one [OF activate_count(2), where k = "-1" and c' = "c\<lparr>cs_phase := PHook\<rparr>"]) (auto simp: conn_ok_def counted_def)
  next
    case (hook_returns j c)
    show ?thesis unfolding hook_returns(1) using ok [OF hook_returns(2)] hook_returns(3)
      by (intro one [OF hook_returns(2), where k = 0]) (auto simp: conn_ok_def counted_def)
  next
    case (hook_panics j c)
    show ?thesis unfolding hook_panics(1) using ok [OF hook_panics(3)] hook_panics(2,4)
      by (intro one [OF hook_panics(3), where k = 0]) (auto simp: conn_ok_def counted_def)
  next
    case (reply j c)
    show ?thesis unfolding reply(1) using ok [OF reply(2)] reply(3)
      by (intro one [OF reply(2), where k = 0]) (auto simp: conn_ok_def counted_def)
  next
    case (store_tunnel j c)
    show ?thesis unfolding store_tunnel(1) using ok [OF store_tunnel(2)] store_tunnel(3)
      by (intro one [OF store_tunnel(2), where k = 0]) (auto simp: conn_ok_def counted_def)
  next
    case (handler_ends j c)
    show ?thesis unfolding handler_ends(1) using ok [OF handler_ends(2)] handler_ends(3)
      by (intro one [OF handler_ends(2), where k = 0]) (auto simp: conn_ok_def counted_def)
  next
    case (finish_store j c)
    show ?thesis unfolding finish_store(1) finish_store_def using ok [OF finish_store(2)] finish_store(3)
      by (intro one [OF finish_store(2), where k = 0]) (auto simp: conn_ok_def counted_def)
  next
    case (finish_count j c)
    show ?thesis unfolding finish_count(1) finish_count_def using ok [OF finish_count(2)] finish_count(3)
      by (intro one [OF finish_count(2), where k = "if cs_req c then 0 else -1" and c' = "c\<lparr>cs_phase := PCounted\<rparr>"])
        (auto simp: conn_ok_def counted_def)
  next
    case (untrack j c)
    have "conns_with counted (untrack j s) = conns_with counted s"
      using untrack by (auto simp: conns_with_def counted_def)
    then show ?thesis unfolding untrack(1) conns_inv_def using conns_inv_D [OF i] untrack(2)
      by (auto simp: pass_inv_mu split: if_splits)
  next
    case stop
    then show ?thesis by (intro conns_inv_same [OF i]) (simp_all add: stop_locked_def pass_inv_mu)
  next
    case (begin_pass kill)
    then show ?thesis
      by (intro conns_inv_same [OF i]) (auto simp: begin_pass_def pass_inv_def)
  next
    case (visit kill todo j c)
    have p: "sdone s" "kill \<longrightarrow> b_close b" "todo \<subseteq> dom (conns s)"
      "\<And>i c. conns s i = Some c \<Longrightarrow> i \<notin> todo \<Longrightarrow> cs_state c \<noteq> StateNew"
      using conns_inv_D(2) [OF i] visit(2) by (auto simp: pass_inv_def)
    have v: "conns_inv b (visit kill j c s)"
      unfolding visit_def using visited_facts [OF ok [OF visit(4)]] p(2)
      by (intro one [OF visit(4), where k = 0 and c' = "visited kill c"]) auto
    show ?thesis
      unfolding visit(1)
      by (rule conns_inv_same [OF v])
        (use p visited_facts [OF ok [OF visit(4)] p(2)] in \<open>auto simp: pass_inv_def visit_def\<close>)
  next
    case (end_pass kill)
    then show ?thesis by (intro conns_inv_same [OF i]) (simp_all add: pass_inv_mu)
  qed
qed

lemma conns_reachable: "reachable b mc mh s \<Longrightarrow> conns_inv b s"
proof (induction rule: rtranclp_induct)
  case base
  show ?case by (simp add: conns_inv_def pass_inv_def idle_srv_def conns_with_def)
next
  case (step s s')
  then show ?case using conns_step slots_reachable slot_invD(1) by blast
qed

section \<open>Shutdown\<close>

abbreviation is_new :: "sconn \<Rightarrow> bool" where
  "is_new c \<equiv> cs_state c = StateNew"

text \<open>The server is stopped and no conn is in its handshake state any more.\<close>

definition drained_new :: "srv \<Rightarrow> bool" where
  "drained_new s = (sdone s \<and> conns_with is_new s = {})"

lemma conns_with_empty: "conns_with P s = {} \<longleftrightarrow> (\<forall>i c. conns s i = Some c \<longrightarrow> \<not> P c)"
  by (auto simp: conns_with_def)

lemma drained_conn:
  assumes "drained_new s" and "conns s i = Some c" and "is_new c' \<longrightarrow> is_new c"
    and "conns s' = (conns s)(i \<mapsto> c')" and "sdone s' = sdone s"
  shows "drained_new s' \<and> dom (conns s') \<subseteq> dom (conns s)"
  using assms unfolding drained_new_def conns_with_empty by auto

lemma drained_same:
  assumes "drained_new s" and "conns s' = conns s" and "sdone s \<longrightarrow> sdone s'"
  shows "drained_new s' \<and> dom (conns s') \<subseteq> dom (conns s)"
  using assms unfolding drained_new_def conns_with_empty by simp

lemma drained_step:
  assumes "sstep b s s'" and d: "drained_new s"
  shows "drained_new s' \<and> dom (conns s') \<subseteq> dom (conns s)"
proof -
  have sd: "sdone s" using d by (simp add: drained_new_def)
  note one = drained_conn [OF d] and same = drained_same [OF d]
  show ?thesis
    using assms(1)
  proof cases
    case (start_conn l j)
    show ?thesis unfolding start_conn(1) by (rule same) (simp_all add: start_conn_def newConn_locked_def sd)
  next
    case (activate j c)
    then show ?thesis
      by (intro one [OF activate(2), where c' = "if is_new c then c\<lparr>cs_state := StateActive, cs_phase := PActivated\<rparr>
            else c\<lparr>cs_phase := PFinish\<rparr>"]) (auto simp: activate_cas_def)
  next
    case (visit kill todo j c)
    then show ?thesis
      by (intro one [OF visit(4), where c' = "visited kill c"]) (auto simp: visit_def visited_def Let_def split: if_splits)
  next
    case (untrack j c)
    then show ?thesis using d by (auto simp: drained_new_def conns_with_empty)
  next
    case (activate_count j c)
    show ?thesis unfolding activate_count(1)
      by (rule one [OF activate_count(2), where c' = "c\<lparr>cs_phase := PHook\<rparr>"]) (simp_all add: activate_count_def)
  next
    case (finish_count j c)
    show ?thesis unfolding finish_count(1)
      by (rule one [OF finish_count(2), where c' = "c\<lparr>cs_phase := PCounted\<rparr>"]) (simp_all add: finish_count_def)
  next
    case (finish_store j c)
    show ?thesis unfolding finish_store(1) finish_store_def by (rule one [OF finish_store(2) _ set_conn_sel(1,3)]) simp
  next
    case (handshake_fails j c)
    show ?thesis unfolding handshake_fails(1) by (rule one [OF handshake_fails(2) _ set_conn_sel(1,3)]) simp
  next
    case (hook_returns j c)
    show ?thesis unfolding hook_returns(1) by (rule one [OF hook_returns(2) _ set_conn_sel(1,3)]) simp
  next
    case (hook_panics j c)
    show ?thesis unfolding hook_panics(1) by (rule one [OF hook_panics(3) _ set_conn_sel(1,3)]) simp
  next
    case (reply j c)
    show ?thesis unfolding reply(1) by (rule one [OF reply(2) _ set_conn_sel(1,3)]) simp
  next
    case (store_tunnel j c)
    show ?thesis unfolding store_tunnel(1) by (rule one [OF store_tunnel(2) _ set_conn_sel(1,3)]) simp
  next
    case (handler_ends j c)
    show ?thesis unfolding handler_ends(1) by (rule one [OF handler_ends(2) _ set_conn_sel(1,3)]) simp
  qed (rule same; simp add: addListener_def start_def newConn_locked_def sd stop_locked_def begin_pass_def)+
qed

lemma drained_steps: "(sstep b)\<^sup>*\<^sup>* s s' \<Longrightarrow> drained_new s \<Longrightarrow> drained_new s' \<and> dom (conns s') \<subseteq> dom (conns s)"
  by (induction rule: rtranclp_induct) (use drained_step in blast)+

section \<open>One accept loop\<close>

definition single_inv :: "nat \<Rightarrow> int \<Rightarrow> srv \<Rightarrow> bool" where
  "single_inv l mh s =
     (maxHandshakes s = mh \<and> dom (loops s) \<subseteq> {l} \<and> inHandshake s \<le> mh
      \<and> (loops s l = Some LWait \<or> loops s l = Some LSlot \<or> (\<exists>ch. loops s l = Some (LBlocked ch)) \<longrightarrow> inHandshake s < mh))"

lemma single_step:
  assumes "sstep b s s'" and i: "single_inv l mh s" and b: "b_listeners b \<subseteq> {l}" "\<not> b_serveConn b" and mh: "0 < mh"
  shows "single_inv l mh s'"
proof -
  have eq: "l' = l" if "loops s l' = Some p" for l' p using i that by (auto simp: single_inv_def)
  have mono: "single_inv l mh t"
    if "loops t = loops s" "maxHandshakes t = maxHandshakes s" "inHandshake t \<le> inHandshake s" for t
    using i that by (auto simp: single_inv_def)
  have move: "single_inv l mh (set_loop l p s)"
    if "p = LAccept \<or> p = LStopped \<or> inHandshake s < mh" for p
    using i that by (auto simp: single_inv_def)
  have m: "maxHandshakes s = mh" and le: "inHandshake s \<le> mh" and d: "dom (loops s) \<subseteq> {l}"
    using i by (auto simp: single_inv_def)
  show ?thesis
    using assms(1)
  proof cases
    case (serve l')
    then have "l' = l" using b(1) by auto
    then show ?thesis unfolding serve(1) addListener_def using move [of LAccept] move [of LStopped] by simp
  next
    case (accept l')
    then have "l' = l" using eq by auto
    then show ?thesis unfolding accept(1) start_def using move [of LWait] i m mh by (auto simp: not_le)
  next
    case (accept_fails l')
    then have "l' = l" using eq by auto
    then show ?thesis unfolding accept_fails(1) using move [of LStopped] by simp
  next
    case (wait_slot l')
    then have l': "l' = l" "inHandshake s < mh" using eq i by (auto simp: single_inv_def)
    show ?thesis unfolding wait_slot(1) l'(1) using m d l'(2) le
      by (auto simp: single_inv_def waitSlot_def split: option.split)
  next
    case (wake l' ch)
    then have "l' = l" "inHandshake s < mh" using eq i by (auto simp: single_inv_def)
    then show ?thesis unfolding wake(1) using move [of LWait] by simp
  next
    case (start_conn l' j)
    then have l': "l' = l" "inHandshake s < mh" using eq i by (auto simp: single_inv_def)
    show ?thesis unfolding start_conn(1) l'(1) using m d l'(2) le
      by (auto simp: single_inv_def start_conn_def newConn_locked_def Let_def)
  next
    case (serve_conn j)
    then show ?thesis using b(2) by simp
  qed (auto intro!: mono simp: conn_step_defs untrack_def Let_def split: option.split)
qed

lemma single_reachable:
  "reachable b mc mh s \<Longrightarrow> b_listeners b \<subseteq> {l} \<Longrightarrow> \<not> b_serveConn b \<Longrightarrow> 0 < mh \<Longrightarrow> single_inv l mh s"
proof (induction rule: rtranclp_induct)
  case base
  then show ?case by (simp add: single_inv_def idle_srv_def)
next
  case (step s s')
  then show ?case using single_step [OF step(2)] by blast
qed

section \<open>Properties\<close>

text \<open>C22: \<open>MaxConns\<close> is shared by all listeners without overshoot or stall: the slots used are exactly those held by
  loops about to start a conn and by the conns tracked; conns accepted by \<open>Serve\<close>, with those about to
  start, never exceed \<open>MaxConns\<close>; and a loop asleep in \<open>waitSlot\<close> while a slot is free has been woken: its
  next step is to recount.\<close>

theorem max_conns_no_overshoot_no_stall:
  assumes "reachable b mc mh s"
  shows "slotsUsed s = int (card (slot_loops s)) + int (card (dom (conns s)))
    \<and> (0 < mc \<longrightarrow> int (card (slot_loops s)) + int (card (conns_with cs_slotTaken s)) \<le> mc)
    \<and> (loops s l = Some (LBlocked ch) \<and> \<not> sdone s \<and> slotsUsed s < mc \<longrightarrow> sstep b s (set_loop l LWait s))"
proof -
  have i: "slot_inv mc s" "wake_inv s" using slots_reachable [OF assms] by simp_all
  have "sstep b s (set_loop l LWait s)" if l: "loops s l = Some (LBlocked ch)" and "\<not> sdone s" "slotsUsed s < mc"
  proof -
    have "slotFreed s = None" using wake_invD(4) [OF i(2)] that(2,3) slot_invD(3) [OF i(1)] by (cases "slotFreed s") auto
    then have "ch \<in> freedChans s" using wake_invD(3) [OF i(2) l] by auto
    then show ?thesis using sstep.wake [of s l ch b] l by simp
  qed
  then show ?thesis using slot_invD(4,5) [OF i(1)] by blast
qed

text \<open>C23: A shutdown closes the handshakes and spares the rest: when a pass over the conns is complete, no conn is
  left in \<open>StateNew\<close>, and from then on none ever is again and none is added; a conn caught in its handshake
  never gets a request; and unless \<open>Close\<close> is called, the server closes no conn that has one before its
  handler is through.\<close>

theorem shutdown_closes_handshakes_only:
  assumes "reachable b mc mh s"
  shows "(mu s = Some (kill, {}) \<and> (sstep b)\<^sup>*\<^sup>* s s' \<longrightarrow>
        conns_with is_new s' = {} \<and> dom (conns s') \<subseteq> dom (conns s))
    \<and> (conns s i = Some c \<and> cs_state c = StateShut \<longrightarrow> \<not> cs_req c)
    \<and> (conns s i = Some c \<and> cs_req c \<and> cs_ncClosed c \<and> \<not> b_close b \<longrightarrow> cs_phase c \<in> {PClosed, PCounted})"
proof -
  note i = conns_reachable [OF assms]
  have "drained_new s" if "mu s = Some (kill, {})"
    using conns_inv_D(2) [OF i] that by (simp add: pass_inv_def drained_new_def conns_with_empty)
  then have "conns_with is_new s' = {} \<and> dom (conns s') \<subseteq> dom (conns s)"
    if "mu s = Some (kill, {})" "(sstep b)\<^sup>*\<^sup>* s s'"
    using drained_steps [OF that(2)] that(1) by (auto simp: drained_new_def)
  moreover have "conn_ok b c" if "conns s i = Some c" using conns_inv_D(1) [OF i that] .
  ultimately show ?thesis unfolding conn_ok_def by blast
qed

text \<open>\<open>inHandshake\<close> is exact as long as the \<open>ConnState\<close> hook does not panic: it is the number of conns whose
  handshake is not over; so with a single accept loop, and no \<open>ServeConn\<close>, at most \<open>MaxHandshakes\<close> conns are
  in \<open>StateNew\<close>.\<close>

theorem handshakes_counted:
  assumes "reachable b mc mh s" and "\<not> b_hookPanics b"
  shows "inHandshake s = int (card (conns_with counted s))
    \<and> (b_listeners b \<subseteq> {l} \<and> \<not> b_serveConn b \<and> 0 < mh \<longrightarrow> int (card (conns_with is_new s)) \<le> mh)"
proof -
  note i = conns_reachable [OF assms(1)]
  note n = conns_inv_D(3) [OF i assms(2)]
  have f: "finite (dom (conns s))" using slots_reachable [OF assms(1)] slot_invD(1) by blast
  have "conn_ok b c" if "conns s j = Some c" for j c using conns_inv_D(1) [OF i that] .
  then have "conns_with is_new s \<subseteq> conns_with counted s"
    by (auto simp: conns_with_def conn_ok_def counted_def)
  then have "card (conns_with is_new s) \<le> card (conns_with counted s)"
    by (rule card_mono [OF conns_with_finite [OF f]])
  then show ?thesis using n single_reachable [OF assms(1), of l] by (auto simp: single_inv_def)
qed

section \<open>Concrete runs\<close>

text \<open>One listener, one conn admitted with \<open>MaxConns\<close> 1, a second one waiting.\<close>

definition run_one :: "nat \<Rightarrow> nat \<Rightarrow> srv \<Rightarrow> srv" where
  "run_one l i s = start_conn l i (waitSlot l (start l (addListener l s)))"

lemma run_one_steps:
  assumes "mu s = None" "l \<in> b_listeners b" "loops s l = None" "\<not> sdone s" "conns s i = None"
    and "\<not> (maxHandshakes s > 0 \<and> inHandshake s \<ge> maxHandshakes s)" and "maxConns s \<le> 0 \<or> slotsUsed s < maxConns s"
  shows "(sstep b)\<^sup>*\<^sup>* s (run_one l i s)"
proof -
  let ?s1 = "addListener l s" let ?s2 = "start l ?s1" let ?s3 = "waitSlot l ?s2"
  have 1: "sstep b s ?s1" using assms by (intro sstep.serve)
  have l1: "loops ?s1 l = Some LAccept" using assms by (simp add: addListener_def)
  have 2: "sstep b ?s1 ?s2" by (rule sstep.accept [OF l1])
  have l2: "loops ?s2 l = Some LWait" "mu ?s2 = None" using assms by (auto simp: addListener_def start_def)
  have 3: "sstep b ?s2 ?s3" by (rule sstep.wait_slot [OF l2(2,1)])
  have l3: "loops ?s3 l = Some LSlot" "mu ?s3 = None" "conns ?s3 i = None"
    using assms by (auto simp: addListener_def start_def waitSlot_def)
  have 4: "sstep b ?s3 (run_one l i s)" unfolding run_one_def by (rule sstep.start_conn [OF l3(2,1,3)])
  show ?thesis using 1 2 3 4 by (meson rtranclp.rtrancl_into_rtrancl rtranclp.rtrancl_refl)
qed

abbreviation plain_listeners :: "nat set \<Rightarrow> behaviour" where
  "plain_listeners ls \<equiv> \<lparr>b_listeners = ls, b_serveConn = False, b_hookPanics = False, b_close = False\<rparr>"

lemma run_one_reachable: "0 \<in> b_listeners b \<Longrightarrow> 0 < mc \<Longrightarrow> 0 < mh \<Longrightarrow> reachable b mc mh (run_one 0 7 (idle_srv mc mh))"
  by (rule run_one_steps) (simp_all add: idle_srv_def)

lemma run_one_state:
  assumes "mu s = None" "loops s l = None" "\<not> sdone s" "conns s i = None"
    and "\<not> (maxHandshakes s > 0 \<and> inHandshake s \<ge> maxHandshakes s)" and "maxConns s \<le> 0 \<or> slotsUsed s < maxConns s"
  shows "conns (run_one l i s) = (conns s)(i \<mapsto> fresh_conn True) \<and> inHandshake (run_one l i s) = inHandshake s + 1
    \<and> slotsUsed (run_one l i s) = slotsUsed s + 1 \<and> loops (run_one l i s) = (loops s)(l \<mapsto> LAccept)
    \<and> mu (run_one l i s) = None \<and> sdone (run_one l i s) = False \<and> maxHandshakes (run_one l i s) = maxHandshakes s"
  using assms by (auto simp: run_one_def addListener_def start_def waitSlot_def start_conn_def newConn_locked_def Let_def)

lemma max_conns_no_overshoot_no_stall_witness:
  "slotsUsed (run_one 0 7 (idle_srv 1 8)) = 1 \<and> card (slot_loops (run_one 0 7 (idle_srv 1 8))) = 0"
proof -
  have r: "reachable (plain_listeners {0}) 1 8 (run_one 0 7 (idle_srv 1 8))" by (rule run_one_reachable) simp_all
  have s: "conns (run_one 0 7 (idle_srv 1 8)) = [7 \<mapsto> fresh_conn True]" "slotsUsed (run_one 0 7 (idle_srv 1 8)) = 1"
    using run_one_state [of "idle_srv 1 8" 0 7] by (simp_all add: idle_srv_def)
  show ?thesis using max_conns_no_overshoot_no_stall [OF r, of 0 0] s by simp
qed

lemma handshakes_counted_witness:
  "inHandshake (run_one 0 7 (idle_srv 1 8)) = 1
   \<and> int (card (conns_with is_new (run_one 0 7 (idle_srv 1 8)))) \<le> 8"
proof -
  have r: "reachable (plain_listeners {0}) 1 8 (run_one 0 7 (idle_srv 1 8))" by (rule run_one_reachable) simp_all
  have s: "inHandshake (run_one 0 7 (idle_srv 1 8)) = 1"
    using run_one_state [of "idle_srv 1 8" 0 7] by (simp add: idle_srv_def)
  show ?thesis using handshakes_counted [OF r, of 0] s by simp
qed

text \<open>The same, then a shutdown whose pass has met the conn.\<close>

definition shut_run :: srv where
  "shut_run =
     (let s1 = run_one 0 7 (idle_srv 1 8); s2 = begin_pass False (stop_locked s1)
      in (visit False 7 (fresh_conn True) s2)\<lparr>mu := Some (False, {})\<rparr>)"

lemma shutdown_closes_handshakes_only_witness:
  "mu shut_run = Some (False, {}) \<and> 7 \<in> dom (conns shut_run) \<and> conns_with is_new shut_run = {}"
proof -
  let ?b = "plain_listeners {0}" let ?s1 = "run_one 0 7 (idle_srv 1 8)" let ?s2 = "stop_locked ?s1" let ?s3 = "begin_pass False ?s2"
  have r: "reachable ?b 1 8 ?s1" by (rule run_one_reachable) simp_all
  have s: "conns ?s1 = [7 \<mapsto> fresh_conn True]" "mu ?s1 = None"
    using run_one_state [of "idle_srv 1 8" 0 7] by (simp_all add: idle_srv_def)
  have 1: "sstep ?b ?s1 ?s2" by (rule sstep.stop [OF s(2)])
  have 2: "sstep ?b ?s2 ?s3" by (rule sstep.begin_pass) (simp_all add: stop_locked_def s)
  have m: "mu ?s3 = Some (False, {7})" "conns ?s3 7 = Some (fresh_conn True)" by (simp_all add: begin_pass_def stop_locked_def s)
  have 3: "sstep ?b ?s3 shut_run"
    using sstep.visit [OF m(1) _ m(2), of ?b] by (simp add: shut_run_def Let_def)
  have "reachable ?b 1 8 shut_run" using r 1 2 3 by (meson rtranclp.rtrancl_into_rtrancl)
  note p = shutdown_closes_handshakes_only [OF this, of False shut_run]
  have "mu shut_run = Some (False, {})" "7 \<in> dom (conns shut_run)" by (simp_all add: shut_run_def Let_def visit_def)
  then show ?thesis using p by simp
qed

text \<open>Two accept loops that both look at \<open>inHandshake\<close> before either adds its conn go over \<open>MaxHandshakes\<close>: the
  check and the increment are apart.\<close>

definition race_run :: srv where
  "race_run =
     start_conn 3 8 (start_conn 0 7 (waitSlot 3 (waitSlot 0 (start 3 (start 0 (addListener 3 (addListener 0 (idle_srv 0 1))))))))"

lemma max_handshakes_overshoot:
  "reachable (plain_listeners {0, 3}) 0 1 race_run \<and> card (conns_with is_new race_run) = 2"
proof -
  let ?b = "plain_listeners {0, 3}"
  define s1 where "s1 = addListener 0 (idle_srv 0 1)" define s2 where "s2 = addListener 3 s1"
  define s3 where "s3 = start 0 s2" define s4 where "s4 = start 3 s3"
  define s5 where "s5 = waitSlot 0 s4" define s6 where "s6 = waitSlot 3 s5" define s7 where "s7 = start_conn 0 7 s6"
  have race: "race_run = start_conn 3 8 s7"
    by (simp only: race_run_def s1_def s2_def s3_def s4_def s5_def s6_def s7_def)
  have 1: "sstep ?b (idle_srv 0 1) s1" unfolding s1_def by (rule sstep.serve) (simp_all add: idle_srv_def)
  have e2: "loops s2 = [0 \<mapsto> LAccept, 3 \<mapsto> LAccept]" "mu s2 = None" "inHandshake s2 = 0" "sdone s2 = False"
      "maxConns s2 = 0" "conns s2 = Map.empty" "maxHandshakes s2 = 1"
    by (simp_all add: s2_def s1_def addListener_def idle_srv_def)
  have 2: "sstep ?b s1 s2" unfolding s2_def by (rule sstep.serve) (simp_all add: s1_def idle_srv_def addListener_def)
  have 3: "sstep ?b s2 s3" unfolding s3_def by (rule sstep.accept) (simp add: e2)
  have e3: "s3 = set_loop 0 LWait s2" by (simp add: s3_def start_def e2)
  have e4: "s4 = set_loop 3 LWait s3" using e2 by (simp add: s4_def start_def e3)
  have 4: "sstep ?b s3 s4" unfolding s4_def by (rule sstep.accept) (simp add: e3 e2)
  have 5: "sstep ?b s4 s5" unfolding s5_def by (rule sstep.wait_slot) (simp_all add: e4 e3 e2)
  have e5: "s5 = set_loop 0 LSlot (s4\<lparr>slotsUsed := slotsUsed s4 + 1\<rparr>)"
    by (simp add: s5_def waitSlot_def e4 e3 e2)
  have 6: "sstep ?b s5 s6" unfolding s6_def by (rule sstep.wait_slot) (simp_all add: e5 e4 e3 e2)
  have e6: "s6 = set_loop 3 LSlot (s5\<lparr>slotsUsed := slotsUsed s5 + 1\<rparr>)"
    by (simp add: s6_def waitSlot_def e5 e4 e3 e2)
  have 7: "sstep ?b s6 s7" unfolding s7_def by (rule sstep.start_conn) (simp_all add: e6 e5 e4 e3 e2)
  have e7: "conns s7 = [7 \<mapsto> fresh_conn True]" "loops s7 3 = Some LSlot" "mu s7 = None" "sdone s7 = False"
    by (simp_all add: s7_def start_conn_def newConn_locked_def Let_def e6 e5 e4 e3 e2)
  have 8: "sstep ?b s7 race_run"
    unfolding race by (rule sstep.start_conn) (simp_all add: e7)
  have e8: "conns race_run = [7 \<mapsto> fresh_conn True, 8 \<mapsto> fresh_conn True]"
    by (simp add: race start_conn_def newConn_locked_def Let_def e7)
  have "conns_with is_new race_run = {7, 8}" by (auto simp: conns_with_def e8)
  moreover have "reachable ?b 0 1 race_run"
    using 1 2 3 4 5 6 7 8 by (meson rtranclp.rtrancl_into_rtrancl rtranclp.rtrancl_refl)
  ultimately show ?thesis by simp
qed

text \<open>A \<open>ConnState\<close> hook that panics on \<open>StateActive\<close> is recovered, but \<open>r\<close> is still nil then: \<open>finish\<close> takes
  the conn off \<open>inHandshake\<close> a second time, which loosens \<open>MaxHandshakes\<close> for good.\<close>

lemma hook_panic_miscounts:
  "\<exists>s. reachable \<lparr>b_listeners = {0}, b_serveConn = False, b_hookPanics = True, b_close = False\<rparr> 1 8 s
     \<and> conns s = Map.empty \<and> inHandshake s = -1"
proof -
  let ?b = "\<lparr>b_listeners = {0}, b_serveConn = False, b_hookPanics = True, b_close = False\<rparr>"
  let ?s1 = "run_one 0 7 (idle_srv 1 8)"
  let ?c1 = "fresh_conn True" let ?c2 = "?c1\<lparr>cs_state := StateActive, cs_phase := PActivated\<rparr>"
  let ?c3 = "?c2\<lparr>cs_phase := PHook\<rparr>" let ?c4 = "?c3\<lparr>cs_phase := PFinish\<rparr>"
  let ?c5 = "?c4\<lparr>cs_state := StateClosed, cs_phase := PClosed, cs_ncClosed := True\<rparr>"
  let ?s2 = "activate_cas 7 ?c1 ?s1" let ?s3 = "activate_count 7 ?c2 ?s2" let ?s4 = "set_conn 7 ?c4 ?s3"
  let ?s5 = "finish_store 7 ?c4 ?s4" let ?s6 = "finish_count 7 ?c5 ?s5" let ?s7 = "untrack 7 ?s6"
  have r: "reachable ?b 1 8 ?s1" by (rule run_one_reachable) simp_all
  have s: "conns ?s1 = [7 \<mapsto> ?c1]" "inHandshake ?s1 = 1" "mu ?s1 = None"
    using run_one_state [of "idle_srv 1 8" 0 7] by (simp_all add: idle_srv_def)
  have 2: "sstep ?b ?s1 ?s2" by (rule sstep.activate) (simp_all add: s)
  have 3: "sstep ?b ?s2 ?s3" by (rule sstep.activate_count) (simp_all add: s activate_cas_def)
  have 4: "sstep ?b ?s3 ?s4"
    using sstep.hook_panics [of ?b ?s3 7 ?c3] by (simp add: activate_count_def)
  have 5: "sstep ?b ?s4 ?s5" by (rule sstep.finish_store) simp_all
  have 6: "sstep ?b ?s5 ?s6" by (rule sstep.finish_count) (simp_all add: finish_store_def)
  have 7: "sstep ?b ?s6 ?s7"
    by (rule sstep.untrack [where c = "?c5\<lparr>cs_phase := PCounted\<rparr>"])
      (simp_all add: finish_count_def finish_store_def activate_count_def activate_cas_def s)
  have "reachable ?b 1 8 ?s7" using r 2 3 4 5 6 7 by (meson rtranclp.rtrancl_into_rtrancl)
  moreover have "conns ?s7 = Map.empty" "inHandshake ?s7 = -1"
    by (auto simp: finish_count_def finish_store_def activate_count_def activate_cas_def s)
  ultimately show ?thesis by blast
qed

end
