(* ===== verification/NetTextRoundtrip.thy ===== *)
theory NetTextRoundtrip
  imports TargetFilter
begin

text \<open>
  The textual forms of addresses parse back: what \<open>netip.AddrPort.String\<close> prints, \<open>netip.ParseAddrPort\<close> reads,
  for IPv4, IPv6 with its longest run of zeros shortened, IPv4-mapped IPv6 and zones. This is what makes a check of
  the address string a dialer is about to connect to (\<open>Filter.checkDial\<close>) a check of the address.
\<close>

section \<open>Numbers\<close>

lemma hex_digit_val: "d < 16 \<Longrightarrow> hex_val (hex_digit d) = Some d"
proof -
  assume "d < 16"
  then have "d \<in> set [0..<16]" by simp
  moreover have "\<forall>d \<in> set [0..<16]. hex_val (hex_digit d) = Some d"
    by (simp add: upt_conv_Cons hex_val_def hex_digit_def)
  ultimately show ?thesis by blast
qed

lemma hex_string_length: "n < 16 ^ Suc k \<Longrightarrow> length (hex_string n) \<le> Suc k"
proof (induction k arbitrary: n)
  case 0
  then show ?case by (subst hex_string.simps) simp
next
  case (Suc k)
  then have "n div 16 < 16 ^ Suc k" by (simp add: less_mult_imp_div_less mult.commute)
  from Suc.IH [OF this] show ?case by (subst hex_string.simps) simp
qed

lemma hex_string_ne [simp]: "hex_string n \<noteq> []"
  by (subst hex_string.simps) simp

lemma hex_group_hex_string:
  "off + length (hex_string n) \<le> 4 \<Longrightarrow>
   hex_group acc off (hex_string n @ rest) =
   hex_group (acc * 16 ^ length (hex_string n) + n) (off + length (hex_string n)) rest"
proof (induction n arbitrary: off acc rest rule: hex_string.induct)
  case (1 n)
  show ?case
  proof (cases "n < 16")
    case True
    then have h: "hex_string n = [hex_digit n]" by (subst hex_string.simps) simp
    show ?thesis using "1.prems" True by (simp add: h hex_digit_val)
  next
    case False
    have h: "hex_string n = hex_string (n div 16) @ [hex_digit n]" using False by (subst hex_string.simps) simp
    have d: "hex_digit n = hex_digit (n mod 16)" by (simp add: hex_digit_def)
    have le: "off + length (hex_string (n div 16)) \<le> 3" using "1.prems" h by simp
    have "hex_group acc off (hex_string n @ rest) = hex_group acc off (hex_string (n div 16) @ (hex_digit n # rest))"
      by (simp add: h)
    also have "\<dots> = hex_group (acc * 16 ^ length (hex_string (n div 16)) + n div 16)
        (off + length (hex_string (n div 16))) (hex_digit n # rest)"
      using "1.IH" [OF False] le by simp
    also have "\<dots> = hex_group ((acc * 16 ^ length (hex_string (n div 16)) + n div 16) * 16 + n mod 16)
        (Suc (off + length (hex_string (n div 16)))) rest"
      using le by (simp add: d hex_digit_val)
    finally show ?thesis by (simp add: h algebra_simps)
  qed
qed

lemma nat_string_dec: "list_all is_digit (nat_string n) \<and> nat_string n \<noteq> [] \<and> dec_val acc (nat_string n @ s) = dec_val (acc * 10 ^ length (nat_string n) + n) s"
proof (induction n arbitrary: acc s rule: nat_string.induct)
  case (1 n)
  have d: "is_digit (char_of (48 + k))" "digit_val (char_of (48 + k)) = k" if "k < 10" for k :: nat
    using that by (simp_all add: is_digit_def digit_val_def)
  show ?case
  proof (cases "n < 10")
    case True
    then have h: "nat_string n = [char_of (48 + n)]" by (subst nat_string.simps) simp
    show ?thesis using d [OF True] by (simp add: h algebra_simps)
  next
    case False
    have h: "nat_string n = nat_string (n div 10) @ [char_of (48 + n mod 10)]" using False by (subst nat_string.simps) simp
    show ?thesis using "1.IH" [OF False] d [of "n mod 10"] by (simp add: h algebra_simps)
  qed
qed

lemma ParseUint16_nat_string: "n < 65536 \<Longrightarrow> ParseUint16 (nat_string n) = Some n"
  using nat_string_dec [of n 0 "[]"] by (simp add: ParseUint16_def)

lemma digit_not_special: "is_digit c \<Longrightarrow> c \<noteq> CHR '':'' \<and> c \<noteq> CHR ''.'' \<and> c \<noteq> CHR ''%'' \<and> c \<noteq> CHR '']'' \<and> c \<noteq> CHR ''[''"
  by (auto simp: is_digit_def)

section \<open>IPv4\<close>

lemma nat_string_byte: "n < 256 \<Longrightarrow>
   parseIPv4Fields fs 0 0 (nat_string n @ s) = parseIPv4Fields fs n (length (nat_string n)) s"
proof -
  assume n: "n < 256"
  have d: "is_digit (char_of (48 + k))" "digit_val (char_of (48 + k)) = k" if "k < 10" for k :: nat
    using that by (simp_all add: is_digit_def digit_val_def)
  consider "n < 10" | "10 \<le> n" "n < 100" | "100 \<le> n" by linarith
  then show ?thesis
  proof cases
    case 1
    then have h: "nat_string n = [char_of (48 + n)]" by (subst nat_string.simps) simp
    show ?thesis using d [OF 1] 1 by (simp add: h)
  next
    case 2
    then have m: "n div 10 < 10" "n div 10 \<noteq> 0" by linarith+
    have h: "nat_string n = [char_of (48 + n div 10), char_of (48 + n mod 10)]"
      using 2 m by (subst nat_string.simps, subst nat_string.simps) simp
    show ?thesis using d [OF m(1)] d [of "n mod 10"] m n by (simp add: h)
  next
    case 3
    define a b c where "a = n div 10 div 10" and "b = n div 10 mod 10" and "c = n mod 10"
    have lt: "a < 10" "b < 10" "c < 10" "a \<noteq> 0" and e: "n div 10 = 10 * a + b" "n = 10 * (10 * a + b) + c"
      using 3 n by (simp_all add: a_def b_def c_def)
    have m: "\<not> n div 10 < 10" "n div 10 div 10 < 10" using 3 n by linarith+
    have le: "10 * a + b \<le> 25" using e(2) n by presburger
    have h: "nat_string n = [char_of (48 + a), char_of (48 + b), char_of (48 + c)]"
      using 3 m by (subst nat_string.simps, subst nat_string.simps, subst nat_string.simps) (simp add: a_def b_def c_def)
    show ?thesis unfolding h using d [OF lt(1)] d [OF lt(2)] d [OF lt(3)] lt(4) n le
      by (simp add: e(2) algebra_simps)
  qed
qed

lemma parseIPv4Fields_quad:
  assumes "length b = 4"
  shows "parseIPv4Fields [] 0 0 (ip4_String b) = Some (map unat b)"
proof -
  obtain w x y z where b: "b = [w, x, y, z]" using assms by (auto simp: length_Suc_conv eval_nat_numeral)
  have l: "length (nat_string n) \<noteq> 0" for n using nat_string_dec [of n] by simp
  have n: "\<not> is_digit (CHR ''.'')" by (simp add: is_digit_def)
  have ne: "nat_string n @ s \<noteq> []" "nat_string n \<noteq> []" for n s using nat_string_dec [of n] by simp_all
  have lt: "unat v < 256" for v :: byte by (rule byte_lt_256)
  have end1: "parseIPv4Fields fs 0 0 (nat_string (unat v)) = parseIPv4Fields fs (unat v) (length (nat_string (unat v))) []"
    for fs and v :: byte using nat_string_byte [OF lt, of fs v "[]"] by simp
  show ?thesis unfolding b ip4_String_def
    by (simp add: nat_string_byte [OF lt] end1 n ne l)
qed

lemma ip4_bytes: "map word_of_nat (map unat b) = (b :: bytes)"
  by (induction b) simp_all

lemma parseIPv4_string: "parseIPv4 (ip4_String (be_of_word 4 w)) = Some (IP4 w)"
  unfolding parseIPv4_def by (simp add: parseIPv4Fields_quad ip4_bytes AddrFrom4_def del: map_map)

section \<open>IPv6\<close>

definition groups_text :: "nat list \<Rightarrow> string" where
  "groups_text gs = join_strings '':'' (map hex_string gs)"

definition groups_bytes :: "nat list \<Rightarrow> bytes" where
  "groups_bytes gs = concat (map (nat_be 2) gs)"

lemma groups_text_Cons: "groups_text (g # h # gs) = hex_string g @ CHR '':'' # groups_text (h # gs)"
  by (simp add: groups_text_def)

lemma groups_text_one [simp]: "groups_text [g] = hex_string g" "groups_text [] = []"
  by (simp_all add: groups_text_def)

lemma groups_bytes_simps [simp]: "groups_bytes [] = []" "groups_bytes (g # gs) = nat_be 2 g @ groups_bytes gs"
  "groups_bytes (gs @ hs) = groups_bytes gs @ groups_bytes hs" "length (groups_bytes gs) = 2 * length gs"
  by (simp_all add: groups_bytes_def length_concat comp_def sum_list_triv)

lemma one_group:
  assumes "n < 65536"
  shows "hex_group 0 0 (hex_string n @ rest) =
    (case rest of [] \<Rightarrow> Some (n, length (hex_string n), [])
     | c # s \<Rightarrow> if hex_val c = None then Some (n, length (hex_string n), c # s) else hex_group n (length (hex_string n)) rest)"
proof -
  have "length (hex_string n) \<le> 4" using hex_string_length [of n 3] assms by simp
  then show ?thesis using hex_group_hex_string [of 0 n 0 rest] by (auto split: list.split option.split)
qed

lemma hex_digit_not_colon: "hex_digit d \<noteq> CHR '':''"
proof -
  have "hex_val (hex_digit (d mod 16)) = Some (d mod 16)" by (rule hex_digit_val) simp
  moreover have "hex_digit (d mod 16) = hex_digit d" by (simp add: hex_digit_def)
  ultimately show ?thesis by (auto simp: hex_val_def)
qed

lemma hex_string_chars: "c \<in> set (hex_string n) \<Longrightarrow> hex_val c \<noteq> None"
proof (induction n rule: hex_string.induct)
  case (1 n)
  have d: "hex_val (hex_digit n) \<noteq> None"
  proof -
    have "hex_val (hex_digit (n mod 16)) = Some (n mod 16)" by (rule hex_digit_val) simp
    moreover have "hex_digit (n mod 16) = hex_digit n" by (simp add: hex_digit_def)
    ultimately show ?thesis by simp
  qed
  show ?case
  proof (cases "n < 16")
    case True
    have "hex_string n = [hex_digit n]" using True by (subst hex_string.simps) simp
    then show ?thesis using "1.prems" d by simp
  next
    case False
    have "hex_string n = hex_string (n div 16) @ [hex_digit n]" using False by (subst hex_string.simps) simp
    then show ?thesis using "1.prems" "1.IH" [OF False] d by auto
  qed
qed

lemma special_not_hex: "hex_val (CHR '':'') = None" "hex_val (CHR ''.'') = None" "hex_val (CHR ''%'') = None"
  "hex_val (CHR '']'') = None" "hex_val (CHR ''['') = None"
  by (simp_all add: hex_val_def)

lemma groups_text_hd: "gs \<noteq> [] \<Longrightarrow> \<exists>c s. groups_text gs = c # s \<and> c \<noteq> CHR '':''"
proof -
  assume "gs \<noteq> []"
  then obtain g hs where gs: "gs = g # hs" by (cases gs) auto
  obtain c s where h: "hex_string g = c # s" using hex_string_ne [of g] by (cases "hex_string g") auto
  then have "c \<noteq> CHR '':''" using hex_string_chars [of c g] special_not_hex by auto
  then show ?thesis using h gs by (cases hs) (auto simp: groups_text_Cons)
qed

lemma groups_text_chars: "c \<in> set (groups_text gs) \<Longrightarrow> hex_val c \<noteq> None \<or> c = CHR '':''"
proof (induction gs rule: induct_list012)
  case (3 g h gs)
  then show ?case using hex_string_chars by (auto simp: groups_text_Cons)
qed (use hex_string_chars in auto)

lemma groups_read:
  assumes "gs \<noteq> []" and "length gs \<le> k" and "\<forall>g \<in> set gs. g < 65536"
  shows "ipv6_groups k b el (groups_text gs) = Some (b @ groups_bytes gs, el, [])"
  using assms
proof (induction gs arbitrary: k b rule: induct_list012)
  case (2 g)
  then obtain k' where k: "k = Suc k'" by (cases k) auto
  show ?case using one_group [of g "[]"] 2 by (simp add: k)
next
  case (3 g h gs)
  then obtain k' where k: "k = Suc k'" by (cases k) auto
  obtain c s where t: "groups_text (h # gs) = c # s" "c \<noteq> CHR '':''" using groups_text_hd [of "h # gs"] by auto
  have "hex_group 0 0 (groups_text (g # h # gs)) = Some (g, length (hex_string g), CHR '':'' # c # s)"
    using one_group [of g "CHR '':'' # c # s"] "3.prems" by (simp add: groups_text_Cons t special_not_hex)
  moreover have "ipv6_groups k' (b @ nat_be 2 g) el (c # s) = Some ((b @ nat_be 2 g) @ groups_bytes (h # gs), el, [])"
    using "3.IH"(2) [of k' "b @ nat_be 2 g"] "3.prems" by (simp add: k t)
  ultimately show ?case using t(2) by (simp add: k)
qed simp

lemma groups_read_ellipsis:
  assumes "gs \<noteq> []" and "length gs \<le> k" and "\<forall>g \<in> set gs. g < 65536"
    and hs: "length gs + length hs \<le> k" "\<forall>g \<in> set hs. g < 65536"
  shows "ipv6_groups k b None (groups_text gs @ ''::'' @ groups_text hs)
    = Some (b @ groups_bytes (gs @ hs), Some (length b + 2 * length gs), [])"
  using assms(1-4)
proof (induction gs arbitrary: k b rule: induct_list012)
  case (2 g)
  then obtain k' where k: "k = Suc k'" by (cases k) auto
  show ?case
  proof (cases "hs = []")
    case True
    then show ?thesis using one_group [of g "''::''"] 2 by (simp add: k special_not_hex)
  next
    case False
    obtain c s where t: "groups_text hs = c # s" using groups_text_hd [OF False] by auto
    have "hex_group 0 0 (hex_string g @ ''::'' @ c # s) = Some (g, length (hex_string g), ''::'' @ c # s)"
      using one_group [of g "''::'' @ c # s"] 2 by (simp add: special_not_hex)
    moreover have "ipv6_groups k' (b @ nat_be 2 g) (Some (length b + 2)) (c # s)
        = Some ((b @ nat_be 2 g) @ groups_bytes hs, Some (length b + 2), [])"
      using groups_read [OF False, of k' "b @ nat_be 2 g" "Some (length b + 2)"] 2 hs(2) by (simp add: k t)
    ultimately show ?thesis by (simp add: k t)
  qed
next
  case (3 g h gs)
  then obtain k' where k: "k = Suc k'" by (cases k) auto
  obtain c s where t: "groups_text (h # gs) = c # s" "c \<noteq> CHR '':''" using groups_text_hd [of "h # gs"] by auto
  let ?tail = "''::'' @ groups_text hs"
  have "hex_group 0 0 (groups_text (g # h # gs) @ ?tail) = Some (g, length (hex_string g), CHR '':'' # c # (s @ ?tail))"
    using one_group [of g "CHR '':'' # c # (s @ ?tail)"] "3.prems" by (simp add: groups_text_Cons t special_not_hex)
  moreover have "ipv6_groups k' (b @ nat_be 2 g) None (c # (s @ ?tail))
      = Some ((b @ nat_be 2 g) @ groups_bytes ((h # gs) @ hs), Some (length b + 2 + 2 * length (h # gs)), [])"
    using "3.IH"(2) [of k' "b @ nat_be 2 g"] "3.prems" by (simp add: k t)
  ultimately show ?case using t(2) by (simp add: k)
qed simp

lemma hextets_facts:
  "length (hextets w) = 8" "\<forall>h \<in> set (hextets w). h < 65536" "groups_bytes (hextets w) = be_of_word 16 w"
proof -
  show "length (hextets w) = 8" by (simp add: hextets_def Let_def)
  show "\<forall>h \<in> set (hextets w). h < 65536"
  proof
    fix h assume "h \<in> set (hextets w)"
    then obtain i where i: "i < 8" "h = be_nat (slice (2 * i) (2 * i + 2) (be_of_word 16 w))"
      by (auto simp: hextets_def Let_def)
    then show "h < 65536" using be_nat_bound [of "slice (2 * i) (2 * i + 2) (be_of_word 16 w)"] by simp
  qed
  define b where "b = be_of_word 16 w"
  have l: "length b = 16" by (simp add: b_def)
  have g: "nat_be 2 (be_nat (slice i (i + 2) b)) = slice i (i + 2) b" if "i + 2 \<le> 16" for i
    using that l by (intro nat_be_be_nat') simp
  have "groups_bytes (hextets w) = slice 0 (Suc (Suc 0)) b @ slice 2 4 b @ slice 4 6 b @ slice 6 8 b @ slice 8 10 b @ slice 10 12 b
      @ slice 12 14 b @ slice 14 16 b"
    using g [of 0] g [of 2] g [of 4] g [of 6] g [of 8] g [of 10] g [of 12] g [of 14]
    by (simp add: hextets_def Let_def upt_conv_Cons flip: b_def)
  also have "\<dots> = b" using slice_append_slice [of 0 2 16 b] slice_all [of b, unfolded l]
    by (simp add: slice_append_slice numeral_2_eq_2 [symmetric])
  finally show "groups_bytes (hextets w) = be_of_word 16 w" by (simp add: b_def)
qed

text \<open>The run of zeros found is one.\<close>

lemma zero_run_facts:
  assumes "i \<le> length hs"
  shows "i + zero_run hs i \<le> length hs" and "take (zero_run hs i) (drop i hs) = replicate (zero_run hs i) 0"
proof -
  have "length (takeWhile (\<lambda>h. h = 0) (drop i hs)) \<le> length (drop i hs)" by (rule length_takeWhile_le)
  then show "i + zero_run hs i \<le> length hs" using assms by (simp add: zero_run_def)
  have "take (length (takeWhile (\<lambda>h. h = 0) (drop i hs))) (drop i hs) = takeWhile (\<lambda>h. h = 0) (drop i hs)"
    by (metis takeWhile_eq_take)
  moreover have "takeWhile (\<lambda>h. h = 0) xs = replicate (length (takeWhile (\<lambda>h. h = 0) xs)) 0" for xs :: "nat list"
    by (induction xs) auto
  ultimately show "take (zero_run hs i) (drop i hs) = replicate (zero_run hs i) 0" by (metis zero_run_def)
qed

definition is_run :: "nat list \<Rightarrow> nat \<times> nat \<Rightarrow> bool" where
  "is_run hs p = (p = (255, 0) \<or>
     (2 \<le> snd p \<and> fst p + snd p \<le> length hs \<and> take (snd p) (drop (fst p) hs) = replicate (snd p) 0))"

lemma longest_zeros_run:
  assumes "length hs = 8"
  shows "is_run hs (longest_zeros hs)"
proof -
  define f where "f = (\<lambda>(st, len) i. let l = zero_run hs i in if 2 \<le> l \<and> len < l then (i, l) else (st, len))"
  have f: "f p i = (if 2 \<le> zero_run hs i \<and> snd p < zero_run hs i then (i, zero_run hs i) else p)" for p i
    by (cases p) (simp add: f_def Let_def)
  have "is_run hs (foldl f p xs)" if "is_run hs p" "\<forall>i \<in> set xs. i \<le> length hs" for p xs
    using that
  proof (induction xs arbitrary: p)
    case (Cons i xs)
    have "is_run hs (f p i)"
      using Cons.prems zero_run_facts [of i hs] by (auto simp: is_run_def f)
    from Cons.IH [OF this] Cons.prems(2) show ?case by simp
  qed simp
  from this [of "(255, 0)" "[0..<8]"] show ?thesis using assms by (simp add: longest_zeros_def is_run_def f_def)
qed

lemma groups_bytes_zeros: "groups_bytes (replicate n 0) = replicate (2 * n) 0"
  by (induction n) (simp_all add: numeral_2_eq_2)

lemma be_nat_zeros: "be_nat (replicate n 0) = 0"
  by (induction n) simp_all

lemma run_splits:
  assumes "length hs = 8" and "st + len \<le> 8" and "take len (drop st hs) = replicate len 0"
  shows "groups_bytes hs = groups_bytes (take st hs) @ replicate (2 * len) 0 @ groups_bytes (drop (st + len) hs)"
proof -
  have "take st hs @ take len (drop st hs) @ drop (st + len) hs = hs"
    using append_take_drop_id [of len "drop st hs"] by (simp add: add.commute)
  then have "groups_bytes hs = groups_bytes (take st hs @ take len (drop st hs) @ drop (st + len) hs)"
    by (simp only:)
  then show ?thesis by (simp only: assms(3) groups_bytes_simps groups_bytes_zeros)
qed

text \<open>The text of an address before its zone, and what it parses to.\<close>

definition v6_body :: "string \<Rightarrow> bytes \<Rightarrow> bool" where
  "v6_body t bs =
     (CHR ''%'' \<notin> set t \<and> (\<forall>z. parseIPv6 (t @ (if z = [] then [] else CHR ''%'' # z)) = Some (WithZone (AddrFrom16 bs) z)))"

lemma split_zone_text:
  assumes "CHR ''%'' \<notin> set t"
  shows "split_zone (t @ (if z = [] then [] else CHR ''%'' # z)) = (t, if z = [] then None else Some z)"
proof -
  have "takeWhile (\<lambda>c. c \<noteq> CHR ''%'') (t @ CHR ''%'' # z) = t" "dropWhile (\<lambda>c. c \<noteq> CHR ''%'') (t @ CHR ''%'' # z) = CHR ''%'' # z"
    using assms by (simp_all add: takeWhile_append dropWhile_append) 
  then show ?thesis using assms by (simp add: split_zone_def)
qed

lemma v6_bodyI:
  assumes "CHR ''%'' \<notin> set t" and "t = ''::'' \<Longrightarrow> bs = replicate 16 0"
    and "t \<noteq> ''::'' \<Longrightarrow> \<exists>b el. (if has_prefix t ''::'' then ipv6_groups 8 [] (Some 0) (drop 2 t) else ipv6_groups 8 [] None t)
         = Some (b, el, []) \<and> expand_ellipsis b el = Some bs"
  shows "v6_body t bs"
proof -
  have two: "has_prefix t ''::'' \<and> length t = 2 \<longleftrightarrow> t = ''::''" by (auto simp: has_prefix_def)
  have z: "WithZone (AddrFrom16 (replicate 16 0)) z = IP6 0 z" for z
    by (simp only: AddrFrom16_def word_of_be_def be_nat_zeros semiring_1_class.of_nat_0 unsigned_0 WithZone.simps) simp?
  have "parseIPv6 (t @ (if z = [] then [] else CHR ''%'' # z)) = Some (WithZone (AddrFrom16 bs) z)" for z
  proof (cases "t = ''::''")
    case True
    show ?thesis unfolding parseIPv6_def split_zone_text [OF assms(1)] using True assms(2) z
      by (simp add: has_prefix_def)
  next
    case False
    obtain b el where r: "(if has_prefix t ''::'' then ipv6_groups 8 [] (Some 0) (drop 2 t) else ipv6_groups 8 [] None t)
         = Some (b, el, [])" "expand_ellipsis b el = Some bs" using assms(3) [OF False] by blast
    have two': "(has_prefix t ''::'' \<and> length t = 2) = False" using two False by blast
    have nz: "(if z = [] then None else Some z) \<noteq> Some []"
      "(case if z = [] then None else Some z of None \<Rightarrow> [] | Some x \<Rightarrow> x) = z" by simp_all
    show ?thesis unfolding parseIPv6_def split_zone_text [OF assms(1)] prod.case Let_def two' nz(2) r(1) option.case
      using nz(1) r(2) by simp
  qed
  then show ?thesis using assms(1) by (simp add: v6_body_def)
qed

lemma groups_text_no_percent: "CHR ''%'' \<notin> set (groups_text gs)"
  using groups_text_chars [of "CHR ''%''" gs] special_not_hex by auto

lemma not_lead: "gs \<noteq> [] \<Longrightarrow> \<not> has_prefix (groups_text gs @ s) ''::''"
  using groups_text_hd [of gs] by (auto simp: has_prefix_def)

lemma v6_body_groups:
  assumes hs: "length hs = 8" "\<forall>g \<in> set hs. g < 65536"
  shows "v6_body (groups_text hs) (groups_bytes hs)"
proof (rule v6_bodyI [OF groups_text_no_percent])
  have ne: "hs \<noteq> []" using hs(1) by auto
  show "groups_text hs = ''::'' \<Longrightarrow> groups_bytes hs = replicate 16 0" using groups_text_hd [OF ne] by auto
  have "ipv6_groups 8 [] None (groups_text hs) = Some (groups_bytes hs, None, [])"
    using groups_read [OF ne, of 8 "[]" None] hs by simp
  then show "\<exists>b el. (if has_prefix (groups_text hs) ''::'' then ipv6_groups 8 [] (Some 0) (drop 2 (groups_text hs))
      else ipv6_groups 8 [] None (groups_text hs)) = Some (b, el, []) \<and> expand_ellipsis b el = Some (groups_bytes hs)"
    using not_lead [OF ne, of "[]"] hs(1) by (simp add: expand_ellipsis_def)
qed

lemma v6_body_ellipsis:
  assumes hs: "length hs = 8" "\<forall>g \<in> set hs. g < 65536" and r: "2 \<le> len" "st + len \<le> 8"
    "take len (drop st hs) = replicate len 0"
  shows "v6_body (groups_text (take st hs) @ ''::'' @ groups_text (drop (st + len) hs)) (groups_bytes hs)"
proof (rule v6_bodyI)
  let ?a = "take st hs" and ?b = "drop (st + len) hs"
  let ?t = "groups_text ?a @ ''::'' @ groups_text ?b"
  note split = run_splits [OF hs(1) r(2,3)]
  have la: "length ?a = st" and lb: "length ?b = 8 - (st + len)" using hs(1) r(2) by simp_all
  have lt: "\<forall>g \<in> set ?a. g < 65536" "\<forall>g \<in> set ?b. g < 65536" using hs(2) by (auto dest: in_set_takeD in_set_dropD)
  show "CHR ''%'' \<notin> set ?t" using groups_text_no_percent by simp
  show "groups_bytes hs = replicate 16 0" if "?t = ''::''"
  proof -
    have "groups_text ?a = [] \<and> groups_text ?b = []" using arg_cong [OF that, of length] by simp
    then have "?a = []" "?b = []" using groups_text_hd [of ?a] groups_text_hd [of ?b] by fastforce+
    then have "st = 0" "len = 8" using la lb r(2) by auto
    then show ?thesis using split hs(1) by simp
  qed
  have x: "expand_ellipsis (groups_bytes (?a @ ?b)) (Some (2 * st)) = Some (groups_bytes hs)"
  proof -
    have l: "length (groups_bytes (?a @ ?b)) = 16 - 2 * len" using la lb r(2) by simp
    have t: "take (2 * st) (groups_bytes (?a @ ?b)) = groups_bytes ?a" "drop (2 * st) (groups_bytes (?a @ ?b)) = groups_bytes ?b"
      using la by simp_all
    have i: "16 - (16 - 2 * len) = 2 * len" "(16 - 2 * len < 16) = True" using r(1,2) by auto
    show ?thesis by (simp only: expand_ellipsis_def l i if_True option.case t split)
  qed
  assume nt: "?t \<noteq> ''::''"
  show "\<exists>b el. (if has_prefix ?t ''::'' then ipv6_groups 8 [] (Some 0) (drop 2 ?t) else ipv6_groups 8 [] None ?t)
      = Some (b, el, []) \<and> expand_ellipsis b el = Some (groups_bytes hs)"
  proof (cases "?a = []")
    case True
    then have st: "st = 0" using hs(1) by auto
    have "?b \<noteq> []" using nt True by auto
    then have "ipv6_groups 8 [] (Some 0) (groups_text ?b) = Some (groups_bytes ?b, Some 0, [])"
      using groups_read [of ?b 8 "[]" "Some 0"] lb lt(2) by simp
    then show ?thesis using x True st by (simp add: has_prefix_def)
  next
    case False
    have "ipv6_groups 8 [] None ?t = Some (groups_bytes (?a @ ?b), Some (2 * st), [])"
      using groups_read_ellipsis [OF False, of 8 ?b "[]"] la lb lt r(1,2) by simp
    then show ?thesis using x not_lead [OF False, of "''::'' @ groups_text ?b"] by simp
  qed
qed

text \<open>An IPv4-mapped address is printed with its last four bytes as a dotted quad.\<close>

lemma ip4_String_hd: "length b = 4 \<Longrightarrow> \<exists>s. ip4_String b = nat_string (unat (hd b)) @ CHR ''.'' # s"
  by (auto simp: length_Suc_conv eval_nat_numeral ip4_String_def)

lemma digit_hex: "is_digit c \<Longrightarrow> hex_val c \<noteq> None"
  by (auto simp: is_digit_def hex_val_def Let_def)

lemma hex_group_short:
  "\<forall>c \<in> set t. hex_val c \<noteq> None \<Longrightarrow> off + length t \<le> 4 \<Longrightarrow> hex_val d = None \<Longrightarrow>
   \<exists>acc'. hex_group acc off (t @ d # s) = Some (acc', off + length t, d # s)"
proof (induction t arbitrary: acc off)
  case (Cons c t)
  then obtain v where "hex_val c = Some v" by auto
  then show ?case using Cons.IH [of "Suc off" "acc * 16 + v"] Cons.prems by auto
qed simp

lemma nat_string_digits: "c \<in> set (nat_string n) \<Longrightarrow> is_digit c"
  using nat_string_dec [of n] by (simp add: list_all_iff)

lemma nat_string_ne [simp]: "nat_string n \<noteq> []"
  using nat_string_dec [of n] by simp

lemma nat_string_byte_length: "n < 256 \<Longrightarrow> length (nat_string n) \<le> 3"
  by (subst nat_string.simps, subst nat_string.simps, subst nat_string.simps) auto

lemma ip4_String_chars: "c \<in> set (ip4_String b) \<Longrightarrow> is_digit c \<or> c = CHR ''.''"
proof -
  have "c \<in> set (join_strings ''.'' (map (\<lambda>x. nat_string (unat x)) b)) \<Longrightarrow> is_digit c \<or> c = CHR ''.''" for b :: bytes
    by (induction b rule: induct_list012) (auto dest: nat_string_digits)
  then show "c \<in> set (ip4_String b) \<Longrightarrow> is_digit c \<or> c = CHR ''.''" by (simp add: ip4_String_def)
qed

lemma read_quad_tail:
  assumes "length q = 4" and "length b + 4 \<le> 16"
  shows "ipv6_groups (Suc k) b (Some e) (ip4_String q) = Some (b @ q, Some e, [])"
proof -
  obtain s where s: "ip4_String q = nat_string (unat (hd q)) @ CHR ''.'' # s" using ip4_String_hd [OF assms(1)] by blast
  let ?t = "nat_string (unat (hd q))"
  have "\<forall>c \<in> set ?t. hex_val c \<noteq> None" using nat_string_digits digit_hex by blast
  moreover have "0 + length ?t \<le> 4" using nat_string_byte_length [OF byte_lt_256 [of "hd q"]] by simp
  ultimately obtain acc where "hex_group 0 0 (ip4_String q) = Some (acc, 0 + length ?t, CHR ''.'' # s)"
    unfolding s using hex_group_short special_not_hex(2) by blast
  then show ?thesis using assms parseIPv4Fields_quad [OF assms(1)] by (simp add: ip4_bytes del: map_map)
qed

lemma nat_be_ffff: "nat_be 2 0xffff = [0xff, 0xff]"
proof -
  have "(word_of_nat 65535 :: byte) = word_of_nat 255" using of_nat_byte_add [of 255 255] by simp
  then show ?thesis by (simp add: numeral_2_eq_2 del: of_nat_numeral) simp
qed

lemma v6_body_mapped:
  assumes "length q = 4"
  shows "v6_body (''::ffff:'' @ ip4_String q) (replicate 10 0 @ [0xff, 0xff] @ q)"
proof (rule v6_bodyI)
  let ?t = "''::ffff:'' @ ip4_String q"
  show "CHR ''%'' \<notin> set ?t" using ip4_String_chars [of "CHR ''%''" q] by (auto simp: is_digit_def)
  show "replicate 10 0 @ [0xff, 0xff] @ q = replicate 16 0" if "?t = ''::''" using that by simp
  obtain c d s where t: "ip4_String q = c # d # s" "c \<noteq> CHR '':''"
  proof -
    obtain s where s: "ip4_String q = nat_string (unat (hd q)) @ CHR ''.'' # s" using ip4_String_hd [OF assms(1)] by blast
    obtain c r where "nat_string (unat (hd q)) = c # r" using nat_string_ne by (cases "nat_string (unat (hd q))") auto
    then have "ip4_String q = c # (r @ CHR ''.'' # s)" "c \<noteq> CHR '':''"
      using s nat_string_digits [of c "unat (hd q)"] digit_not_special [of c] by auto
    then show ?thesis using that [of c "hd (r @ CHR ''.'' # s)" "tl (r @ CHR ''.'' # s)"]
      by (cases r) auto
  qed
  have g: "hex_group 0 0 (''ffff:'' @ ip4_String q) = Some (65535, 4, CHR '':'' # ip4_String q)"
    by (simp add: hex_val_def)
  have r: "ipv6_groups 7 [0xff, 0xff] (Some 0) (ip4_String q) = Some ([0xff, 0xff] @ q, Some 0, [])"
    using read_quad_tail [OF assms, of "[0xff, 0xff]" 6 0] by (simp add: eval_nat_numeral)
  note n = nat_be_ffff
  have e: "ipv6_groups (Suc 7) [] (Some 0) (''ffff:'' @ ip4_String q) = Some ([0xff, 0xff] @ q, Some 0, [])"
    unfolding ipv6_groups.simps g using r by (simp add: t n)
  then show "\<exists>b el. (if has_prefix ?t ''::'' then ipv6_groups 8 [] (Some 0) (drop 2 ?t) else ipv6_groups 8 [] None ?t)
      = Some (b, el, []) \<and> expand_ellipsis b el = Some (replicate 10 0 @ [0xff, 0xff] @ q)"
    using assms by (simp add: has_prefix_def expand_ellipsis_def eval_nat_numeral)
qed

lemma nat_be_zero: "nat_be n 0 = replicate n 0"
  by (induction n) simp_all

lemma v6_body_ip6:
  "v6_body (if drop_bit 32 w = 0xffff then ''::ffff:'' @ ip4_String (drop 12 (be_of_word 16 w)) else ip6_String w)
     (be_of_word 16 (w :: 128 word))"
proof (cases "drop_bit 32 w = 0xffff")
  case True
  have "unat w div 2 ^ 32 = 0xffff" using arg_cong [OF True, of unat] by (simp add: unat_drop_bit_word)
  have "take 12 (be_of_word 16 w) = nat_be 12 (unat w div 256 ^ 4)"
    using take_nat_be [of 12 4 "unat w"] by (simp add: be_of_word_def)
  also have "\<dots> = nat_be (10 + 2) 0xffff" using \<open>unat w div 2 ^ 32 = 0xffff\<close> by simp
  also have "\<dots> = take 10 (nat_be (10 + 2) 0xffff) @ drop 10 (nat_be (10 + 2) 0xffff)" by (simp only: append_take_drop_id)
  also have "\<dots> = replicate 10 0 @ [0xff, 0xff]"
    unfolding take_nat_be drop_nat_be nat_be_ffff using nat_be_zero [of 10] by simp
  finally have "be_of_word 16 w = replicate 10 0 @ [0xff, 0xff] @ drop 12 (be_of_word 16 w)"
    by (metis append_take_drop_id append_assoc)
  then show ?thesis using v6_body_mapped [of "drop 12 (be_of_word 16 w)"] True by simp
next
  case False
  obtain st len where l: "longest_zeros (hextets w) = (st, len)" by (cases "longest_zeros (hextets w)")
  have run: "is_run (hextets w) (st, len)" using longest_zeros_run [OF hextets_facts(1), of w] l by simp
  show ?thesis
  proof (cases "st = 255")
    case True
    then show ?thesis using v6_body_groups [OF hextets_facts(1,2)] False l
      by (simp add: ip6_String_def groups_text_def hextets_facts(3) Let_def)
  next
    case st: False
    then have "2 \<le> len" "st + len \<le> 8" "take len (drop st (hextets w)) = replicate len 0"
      using run by (auto simp: is_run_def hextets_facts(1))
    from v6_body_ellipsis [OF hextets_facts(1,2) this] show ?thesis
      using False st l by (simp add: ip6_String_def groups_text_def hextets_facts(3) Let_def)
  qed
qed

section \<open>Addresses and ports\<close>

lemma scan_colon: "\<forall>c \<in> set s. c \<noteq> CHR ''.'' \<and> c \<noteq> CHR '':'' \<and> c \<noteq> CHR ''%'' \<Longrightarrow> scan_ip t (s @ CHR '':'' # r) = parseIPv6 t"
  by (induction s) auto

lemma scan_dot: "\<forall>c \<in> set s. c \<noteq> CHR ''.'' \<and> c \<noteq> CHR '':'' \<and> c \<noteq> CHR ''%'' \<Longrightarrow> scan_ip t (s @ CHR ''.'' # r) = parseIPv4 t"
  by (induction s) auto

lemma hex_not_special: "hex_val c \<noteq> None \<Longrightarrow> c \<noteq> CHR ''.'' \<and> c \<noteq> CHR '':'' \<and> c \<noteq> CHR ''%''"
  using special_not_hex by auto

lemma groups_text_scan:
  "gs \<noteq> [] \<Longrightarrow> \<exists>h r. (\<forall>c \<in> set h. hex_val c \<noteq> None) \<and> groups_text gs @ s = h @ r \<and> (r = s \<or> (\<exists>r'. r = CHR '':'' # r'))"
proof (induction gs rule: induct_list012)
  case (2 g)
  then show ?case using hex_string_chars [of _ g] by (intro exI [of _ "hex_string g"] exI [of _ s]) auto
next
  case (3 g h gs)
  then show ?case using hex_string_chars [of _ g]
    by (intro exI [of _ "hex_string g"] exI [of _ "CHR '':'' # groups_text (h # gs) @ s"]) (auto simp: groups_text_Cons)
qed simp

lemma v6_scan:
  "\<exists>h r. (\<forall>c \<in> set h. hex_val c \<noteq> None)
     \<and> (if drop_bit 32 w = 0xffff then ''::ffff:'' @ ip4_String (drop 12 (be_of_word 16 w)) else ip6_String (w :: 128 word)) @ z
       = h @ CHR '':'' # r"
proof (cases "drop_bit 32 w = 0xffff")
  case True
  then show ?thesis by - (rule exI [of _ "[]"], simp)
next
  case False
  obtain st len where l: "longest_zeros (hextets w) = (st, len)" by (cases "longest_zeros (hextets w)")
  show ?thesis
  proof (cases "st = 255")
    case True
    obtain g h gs where hs: "hextets w = g # h # gs" using hextets_facts(1) [of w] by (auto simp: length_Suc_conv eval_nat_numeral)
    have "ip6_String w = hex_string g @ CHR '':'' # groups_text (h # gs)"
      using True l by (simp add: ip6_String_def hs groups_text_Cons Let_def flip: groups_text_def)
    then show ?thesis using False hex_string_chars [of _ g] by - (rule exI [of _ "hex_string g"], auto)
  next
    case st: False
    have t: "ip6_String w = groups_text (take st (hextets w)) @ ''::'' @ groups_text (drop (st + len) (hextets w))"
      using st l by (simp add: ip6_String_def groups_text_def Let_def)
    show ?thesis
    proof (cases "take st (hextets w) = []")
      case True
      then have g: "groups_text (take st (hextets w)) = []" by (simp only: groups_text_one)
      show ?thesis using False unfolding t g by - (rule exI [of _ "[]"], simp)
    next
      case ne: False
      let ?s = "''::'' @ groups_text (drop (st + len) (hextets w)) @ z"
      obtain h r where "\<forall>c \<in> set h. hex_val c \<noteq> None" "groups_text (take st (hextets w)) @ ?s = h @ r"
        "r = ?s \<or> (\<exists>r'. r = CHR '':'' # r')" using groups_text_scan [OF ne] by blast
      then show ?thesis using False t by auto
    qed
  qed
qed

lemma netip_ParseAddr_String:
  "x \<noteq> NoIP \<Longrightarrow> netip_ParseAddr (ip_String x) = Some x"
proof (cases x)
  case (IP4 w)
  obtain s where s: "ip4_String (be_of_word 4 w) = nat_string (unat (hd (be_of_word 4 w))) @ CHR ''.'' # s"
    using ip4_String_hd [of "be_of_word 4 w"] by auto
  have "\<forall>c \<in> set (nat_string (unat (hd (be_of_word 4 w)))). c \<noteq> CHR ''.'' \<and> c \<noteq> CHR '':'' \<and> c \<noteq> CHR ''%''"
    using nat_string_digits digit_not_special by blast
  from scan_dot [OF this, of "ip4_String (be_of_word 4 w)" s] show ?thesis
    using IP4 parseIPv4_string [of w] by (simp add: netip_ParseAddr_def flip: s)
next
  case (IP6 w z)
  let ?t = "if drop_bit 32 w = 0xffff then ''::ffff:'' @ ip4_String (drop 12 (be_of_word 16 w)) else ip6_String w"
  let ?z = "if z = [] then [] else CHR ''%'' # z"
  obtain h r where h: "\<forall>c \<in> set h. hex_val c \<noteq> None" "?t @ ?z = h @ CHR '':'' # r" using v6_scan [of w ?z] by blast
  have i: "ip_String (IP6 w z) = ?t @ ?z" by simp
  have "netip_ParseAddr (?t @ ?z) = parseIPv6 (?t @ ?z)"
    unfolding netip_ParseAddr_def using scan_colon [of h "?t @ ?z" r] h hex_not_special by metis
  also have "\<dots> = Some (WithZone (AddrFrom16 (be_of_word 16 w)) z)" using v6_body_ip6 [of w] unfolding v6_body_def by blast
  also have "\<dots> = Some (IP6 w z)" by (simp add: AddrFrom16_def)
  finally show ?thesis using IP6 i by (simp only:)
qed simp

lemma find_index_last_app: "c \<notin> set t \<Longrightarrow> find_index_last c (s @ c # t) = Some (length s)"
proof -
  assume c: "c \<notin> set t"
  then have "takeWhile (\<lambda>x. x \<noteq> c) (rev (s @ c # t)) = rev t"
    by (auto simp: takeWhile_tail)
  then show ?thesis using c by (simp add: find_index_last_def)
qed

lemma ParseAddrPort_String:
  assumes "ap_IsValid ap"
  shows "ParseAddrPort (ap_String ap) = Some ap"
proof -
  let ?p = "nat_string (unat (ap_port ap))"
  have nc: "CHR '':'' \<notin> set ?p" using nat_string_digits digit_not_special by blast
  have up: "unat (ap_port ap) < 65536" using unsigned_less [of "ap_port ap", where 'a = nat] by simp
  note port = ParseUint16_nat_string [OF up]
  have eta: "AddrPortFrom (ap_addr ap) (ap_port ap) = ap" by (simp add: AddrPortFrom_eq)
  show ?thesis
  proof (cases "ap_addr ap")
    case NoIP
    then show ?thesis using assms by (simp add: ap_IsValid_def)
  next
    case (IP4 w)
    have s: "ap_String ap = ip_String (IP4 w) @ CHR '':'' # ?p" using IP4 by (simp add: ap_String_def)
    obtain r where r: "ip4_String (be_of_word 4 w) = nat_string (unat (hd (be_of_word 4 w))) @ CHR ''.'' # r"
      using ip4_String_hd [of "be_of_word 4 w"] by auto
    have h: "ip_String (IP4 w) \<noteq> []" "hd (ip_String (IP4 w)) \<noteq> CHR ''[''"
      using r digit_not_special [OF nat_string_digits [OF hd_in_set [OF nat_string_ne]], of "unat (hd (be_of_word 4 w))"]
      by (simp_all add: hd_append)
    show ?thesis
      unfolding ParseAddrPort_def s find_index_last_app [OF nc]
      using h netip_ParseAddr_String [of "IP4 w"] port eta IP4 by (simp del: ip_String.simps)
  next
    case (IP6 w z)
    let ?h = "CHR ''['' # ip_String (IP6 w z) @ '']''"
    have s: "ap_String ap = ?h @ CHR '':'' # ?p" using IP6 by (simp add: ap_String_def del: ip_String.simps)
    have "butlast (tl ?h) = ip_String (IP6 w z)" "last ?h = CHR '']''" by (simp_all add: butlast_append del: ip_String.simps)
    then show ?thesis
      unfolding ParseAddrPort_def s find_index_last_app [OF nc]
      using netip_ParseAddr_String [of "IP6 w z"] port eta IP6 by (simp del: ip_String.simps)
  qed
qed

end
