(* ===== verification/ServerConnect.thy ===== *)
theory ServerConnect
  imports ServerReply ServerLifecycle NetTextRoundtrip
begin

text \<open>
  The built-in handlers of \<open>server/connect.go\<close>, \<open>server/bind.go\<close> and \<open>server/resolve.go\<close>, with the cache
  of \<open>server/ownhost.go\<close>, as handler programs. What the resolver, the sockets and the interface listing
  answer is an argument (\<open>world\<close>); which addresses \<open>net.Dialer\<close> tries for a name is one too. Relaying
  after the reply is the program \<open>relay\<close>. The lemmas show that no packet goes to an address the filter or the
  own-host check denies, whatever the resolver and the dialer choose.
\<close>

section \<open>The world\<close>

text \<open>\<open>wd_lookup\<close> is \<open>LookupNetIP\<close>. \<open>wd_tries\<close> are the addresses \<open>DialContext\<close> tries for a name or an unspecified address,
  in order. \<open>wd_connect\<close> connects to an address: the local and remote address of the conn, or an error.\<close>

record world =
  wd_now :: int
  wd_lookup :: "string \<Rightarrow> ip list \<times> error option"
  wd_ownIPs :: "ip list option"
  wd_sourceFor :: "addrport \<Rightarrow> addrport"
  wd_tries :: "string \<Rightarrow> error + ip list"
  wd_connect :: "string \<Rightarrow> addrport \<Rightarrow> error + netaddr \<times> netaddr"

definition world_vet :: "filter_fn option \<Rightarrow> world \<Rightarrow> request \<Rightarrow> string \<Rightarrow> addrport \<Rightarrow> error option" where
  "world_vet f w r network ap = vet f (wd_ownIPs w) (wd_sourceFor w) (Some r) network ap"

section \<open>The listing of the host's addresses\<close>

text \<open>\<open>ha_ips\<close> is \<open>None\<close> if the listing failed.\<close>

record hostAddrs =
  ha_ips :: "ip list option"
  ha_expires :: int

definition hostTTL :: int where "hostTTL = 10 ^ 9"

definition listHostAddrs :: "int \<Rightarrow> error + ip list \<Rightarrow> hostAddrs" where
  "listHostAddrs now listing =
     \<lparr>ha_ips = (case listing of Inl e \<Rightarrow> None | Inr addrs \<Rightarrow> Some (map Unmap (filter ip_IsValid addrs))),
      ha_expires = now + hostTTL\<rparr>"

text \<open>\<open>locked\<close>: another goroutine is listing at \<open>TryLock\<close>, and leaves \<open>other\<close> in the cache. The result, the cache
  afterwards, and whether this call listed.\<close>

definition currentHostAddrs ::
  "int \<Rightarrow> error + ip list \<Rightarrow> bool \<Rightarrow> hostAddrs option \<Rightarrow> hostAddrs option \<Rightarrow> hostAddrs \<times> hostAddrs option \<times> bool" where
  "currentHostAddrs now listing locked other cached =
     (let fresh = (\<lambda>h. case h of None \<Rightarrow> False | Some x \<Rightarrow> now < ha_expires x) in
      if fresh cached then (the cached, cached, False)
      else if locked \<and> cached \<noteq> None then (the cached, cached, False)
      else
        let cached1 = (if locked then other else cached) in
        if fresh cached1 then (the cached1, cached1, False)
        else let h = listHostAddrs now listing in (h, Some h, True))"

section \<open>Routing by command\<close>

type_synonym handler = "request \<Rightarrow> hprog"

definition notSupported :: handler where
  "notSupported r =
     HReply ReplyCommandNotSupported zeroAddr
       (\<lambda>err. case err of
          Some e \<Rightarrow> if hasErrType is_EReply e then HRet (Some (ESent errUnsupported)) else HRet (Some e)
        | None \<Rightarrow> HRet (Some (ESent errUnsupported)))"

record mux =
  mux_Connect :: "handler option"
  mux_Bind :: "handler option"
  mux_Associate :: "handler option"
  mux_Resolve :: "handler option"

definition mux_handler :: "mux \<Rightarrow> handler" where
  "mux_handler m r =
     (let cmd = rq_Command r;
          h = (if cmd = CmdConnect then mux_Connect m
               else if cmd = CmdBind then mux_Bind m
               else if cmd = CmdUDPAssociate then mux_Associate m
               else if cmd = CmdTorResolve \<or> cmd = CmdTorResolvePTR then mux_Resolve m
               else None)
      in case h of None \<Rightarrow> notSupported r | Some f \<Rightarrow> f r)"

section \<open>CONNECT\<close>

text \<open>A \<open>net.Dialer\<close>: its timeout, its control function (\<open>ControlContext\<close>, else \<open>Control\<close>), whether it has a \<open>LocalAddr\<close>.\<close>

record dialer_opts =
  dl_Timeout :: int
  dl_Control :: "(string \<Rightarrow> string \<Rightarrow> error option) option"
  dl_hasLocalAddr :: bool

record connect_handler =
  ch_Dial :: "(string \<Rightarrow> error + netaddr \<times> netaddr) option"
  ch_Dialer :: "dialer_opts option"
  ch_Filter :: "filter_fn option"
  ch_DialTimeout :: int
  ch_controlSupported :: bool

definition defaultDialTimeout :: int where "defaultDialTimeout = 30 * 10 ^ 9"

definition tcpNetwork :: "ip \<Rightarrow> string" where
  "tcpNetwork x = (if Is4 x then ''tcp4'' else ''tcp6'')"

text \<open>What \<open>net.Dialer\<close> does with its addresses: the control function is asked about each before it is connected to; the first
  conn wins, else the first error. The first result lists the addresses that packets were sent to.\<close>

fun try_dial ::
  "(string \<Rightarrow> string \<Rightarrow> error option) \<Rightarrow> world \<Rightarrow> u16 \<Rightarrow> error option \<Rightarrow> ip list
   \<Rightarrow> addrport list \<times> (error option + netaddr \<times> netaddr)" where
  "try_dial ctl w port first [] = ([], Inl first)"
| "try_dial ctl w port first (x # xs) =
     (let ap = AddrPortFrom x port; network = tcpNetwork x;
          wrap = (\<lambda>e. EOp ''dial'' network None (Some (ap_String ap)) e);
          next1 = (\<lambda>e. if first = None then Some e else first)
      in case ctl network (ap_String ap) of
           Some e \<Rightarrow> try_dial ctl w port (next1 (wrap e)) xs
         | None \<Rightarrow>
             (case wd_connect w network ap of
                Inr c \<Rightarrow> ([ap], Inr c)
              | Inl e \<Rightarrow> (case try_dial ctl w port (next1 (wrap e)) xs of (sent, res) \<Rightarrow> (ap # sent, res))))"

definition dial_error :: "error option + netaddr \<times> netaddr \<Rightarrow> error + netaddr \<times> netaddr" where
  "dial_error res =
     (case res of
        Inr c \<Rightarrow> Inr c
      | Inl (Some e) \<Rightarrow> Inl e
      | Inl None \<Rightarrow> Inl (EOp ''dial'' ''tcp'' None None (EAddr ''missing address'' [])))"

definition DialContext ::
  "(string \<Rightarrow> string \<Rightarrow> error option) \<Rightarrow> world \<Rightarrow> addr \<Rightarrow> addrport list \<times> (error + netaddr \<times> netaddr)" where
  "DialContext ctl w ad =
     (let x = IP_of ad;
          tries = (if ip_IsValid x \<and> \<not> IsUnspecified x then Inr [x] else wd_tries w (addr_String ad))
      in case tries of
           Inl e \<Rightarrow> ([], Inl (EOp ''dial'' ''tcp'' None None e))
         | Inr xs \<Rightarrow> (case try_dial ctl w (Port_of ad) None xs of (sent, res) \<Rightarrow> (sent, dial_error res)))"

definition dialControl ::
  "filter_fn option \<Rightarrow> world \<Rightarrow> request \<Rightarrow> (string \<Rightarrow> string \<Rightarrow> error option) option \<Rightarrow> string \<Rightarrow> string \<Rightarrow> error option" where
  "dialControl f w r inner network address =
     (case checkDial f (wd_ownIPs w) (wd_sourceFor w) (Some r) network address of
        Some e \<Rightarrow> Some e
      | None \<Rightarrow> (case inner of None \<Rightarrow> None | Some g \<Rightarrow> g network address))"

definition vetEarly :: "connect_handler \<Rightarrow> world \<Rightarrow> request \<Rightarrow> dialer_opts \<Rightarrow> bool" where
  "vetEarly h w r d =
     (let x = IP_of (rq_Addr r) in
      if \<not> ip_IsValid x \<or> IsUnspecified x \<or> dl_Control d \<noteq> None \<or> dl_hasLocalAddr d then False
      else world_vet (ch_Filter h) w r (tcpNetwork x) (AddrPortFrom x (Port_of (rq_Addr r))) = None)"

text \<open>The loop of \<open>vettedIPs\<close> over the addresses of a name.\<close>

fun vetLoop :: "filter_fn option \<Rightarrow> world \<Rightarrow> request \<Rightarrow> u16 \<Rightarrow> error option \<Rightarrow> ip list \<Rightarrow> ip list \<times> error option" where
  "vetLoop f w r port denial [] = ([], denial)"
| "vetLoop f w r port denial (x # xs) =
     (let y = WithZone (Unmap x) [] in
      case world_vet f w r (tcpNetwork y) (AddrPortFrom y port) of
        Some e \<Rightarrow> vetLoop f w r port (if denial = None then Some e else denial) xs
      | None \<Rightarrow> (case vetLoop f w r port denial xs of (ys, d) \<Rightarrow> (y # ys, d)))"

definition vettedIPs :: "connect_handler \<Rightarrow> world \<Rightarrow> request \<Rightarrow> error + ip list" where
  "vettedIPs h w r =
     (let x = IP_of (rq_Addr r); port = Port_of (rq_Addr r) in
      if ip_IsValid x then
        (let y = WithZone (Unmap x) [] in
         case world_vet (ch_Filter h) w r (tcpNetwork y) (AddrPortFrom y port) of
           Some e \<Rightarrow> Inl e
         | None \<Rightarrow> Inr [y])
      else
        (case wd_lookup w (Name_of (rq_Addr r)) of
           (found, err) \<Rightarrow>
             (case vetLoop (ch_Filter h) w r port None found of
                (vetted, denial) \<Rightarrow>
                  if vetted \<noteq> [] then Inr vetted
                  else Inl (case denial of
                              Some e \<Rightarrow> e
                            | None \<Rightarrow> (case err of Some e \<Rightarrow> e | None \<Rightarrow> notFound (Name_of (rq_Addr r)))))))"

text \<open>\<open>dialVetted\<close> dials each as a literal; no control function runs there.\<close>

definition dialVetted ::
  "connect_handler \<Rightarrow> world \<Rightarrow> request \<Rightarrow> addrport list \<times> (error + netaddr \<times> netaddr)" where
  "dialVetted h w r =
     (case vettedIPs h w r of
        Inl e \<Rightarrow> ([], Inl (EOp ''dial'' ''tcp'' None None e))
      | Inr xs \<Rightarrow>
          (case try_dial (\<lambda>_ _. None) w (Port_of (rq_Addr r)) None xs of (sent, res) \<Rightarrow> (sent, dial_error res)))"

definition dialChecked ::
  "connect_handler \<Rightarrow> world \<Rightarrow> request \<Rightarrow> dialer_opts \<Rightarrow> addrport list \<times> (error + netaddr \<times> netaddr)" where
  "dialChecked h w r d =
     (if vetEarly h w r d then DialContext (\<lambda>_ _. None) w (rq_Addr r)
      else if \<not> ch_controlSupported h then dialVetted h w r
      else DialContext (dialControl (ch_Filter h) w r (dl_Control d)) w (rq_Addr r))"

definition zero_dialer :: dialer_opts where
  "zero_dialer = \<lparr>dl_Timeout = 0, dl_Control = None, dl_hasLocalAddr = False\<rparr>"

text \<open>The dialer's timeout only bounds \<open>wd_tries\<close> and \<open>wd_connect\<close>, whose errors are arbitrary.\<close>

definition dialFiltered ::
  "connect_handler \<Rightarrow> world \<Rightarrow> request \<Rightarrow> int \<Rightarrow> addrport list \<times> (error + netaddr \<times> netaddr)" where
  "dialFiltered h w r timeout =
     (let d0 = (case ch_Dialer h of Some d \<Rightarrow> d | None \<Rightarrow> zero_dialer);
          d = (if timeout > 0 \<and> (dl_Timeout d0 = 0 \<or> timeout < dl_Timeout d0) then d0\<lparr>dl_Timeout := timeout\<rparr> else d0)
      in case dialChecked h w r d of
           (sent, Inl e) \<Rightarrow> (sent, Inl e)
         | (sent, Inr (local, remoteAddr)) \<Rightarrow>
             let remote = addrPortOf remoteAddr in
             (case checkOwnHost (ch_Filter h) (Some r) (tcpNetwork (ap_addr remote)) (addrPortOf local) remote remoteAddr of
                Some e \<Rightarrow> (sent, Inl e)
              | None \<Rightarrow> (sent, Inr (local, remoteAddr))))"

definition connect_dial ::
  "connect_handler \<Rightarrow> world \<Rightarrow> request \<Rightarrow> addrport list \<times> (error + netaddr \<times> netaddr)" where
  "connect_dial h w r =
     (let timeout = orDefault (ch_DialTimeout h) defaultDialTimeout in
      case ch_Dial h of
        Some dial \<Rightarrow> ([], dial (addr_String (rq_Addr r)))
      | None \<Rightarrow> dialFiltered h w r timeout)"

definition connect_serve :: "connect_handler \<Rightarrow> world \<Rightarrow> hprog \<Rightarrow> handler" where
  "connect_serve h w relay r =
     (if rq_Command r \<noteq> CmdConnect then notSupported r
      else case snd (connect_dial h w r) of
        Inl e \<Rightarrow>
          (if IsName (rq_Addr r) \<and> IsS e ErrNotAllowed
           then HReply ReplyHostUnreachable zeroAddr (\<lambda>_. HRet (Some e))
           else HRet (Some e))
      | Inr (local, remote) \<Rightarrow>
          HReply ReplySucceeded (AddrFromAddrPort (addrPortOf local))
            (\<lambda>err. if err \<noteq> None then HRet err else relay))"

section \<open>RESOLVE\<close>

record resolve_handler =
  rh_Filter :: "filter_fn option"
  rh_LookupAddr :: "(string \<Rightarrow> error + string list) option"

definition tor_resolve :: "resolve_handler \<Rightarrow> world \<Rightarrow> request \<Rightarrow> addr \<times> error option" where
  "tor_resolve h w r =
     (let x = IP_of (rq_Addr r) in
      if ip_IsValid x then (AddrFromAddrPort (AddrPortFrom x 0), allowIP (rh_Filter h) (Some r) x)
      else case lookupAllowed (rh_Filter h) (wd_lookup w (Name_of (rq_Addr r))) (Some r) 0 ipNetwork [] 1 of
        (found, denial, Some e) \<Rightarrow> (zeroAddr, Some e)
      | (found, denial, None) \<Rightarrow>
          (if found = [] then (zeroAddr, Some (notFound (Name_of (rq_Addr r))))
           else (AddrFromAddrPort (AddrPortFrom (hd found) 0), None)))"

definition trim_dot :: "string \<Rightarrow> string" where
  "trim_dot s = (if s \<noteq> [] \<and> last s = CHR ''.'' then butlast s else s)"

definition tor_resolvePTR :: "resolve_handler \<Rightarrow> request \<Rightarrow> addr \<times> error option" where
  "tor_resolvePTR h r =
     (let x = IP_of (rq_Addr r) in
      if \<not> ip_IsValid x then (zeroAddr, Some (EDNS ''unrecognized address'' (Name_of (rq_Addr r)) None False False))
      else case allowIP (rh_Filter h) (Some r) x of
        Some e \<Rightarrow> (zeroAddr, Some e)
      | None \<Rightarrow>
          (case rh_LookupAddr h of
             None \<Rightarrow> (zeroAddr, Some (ESent errUnsupported))
           | Some ptr \<Rightarrow>
               (case ptr (ip_String x) of
                  Inl e \<Rightarrow> (zeroAddr, Some e)
                | Inr [] \<Rightarrow> (zeroAddr, Some (notFound (ip_String x)))
                | Inr (n # ns) \<Rightarrow>
                    (case wire_ParseAddr (JoinHostPort (trim_dot n) ''0'') of
                       Inl e \<Rightarrow> (zeroAddr, Some e)
                     | Inr a \<Rightarrow> (a, None)))))"

definition resolve_serve :: "resolve_handler \<Rightarrow> world \<Rightarrow> handler" where
  "resolve_serve h w r =
     (let answer = (\<lambda>(bound, err).
            if err \<noteq> None then HRet err
            else HReply ReplySucceeded bound (\<lambda>e. if e \<noteq> None then HRet e else HClose (HRet None)))
      in if rq_Command r = CmdTorResolve then answer (tor_resolve h w r)
         else if rq_Command r = CmdTorResolvePTR then answer (tor_resolvePTR h r)
         else notSupported r)"

section \<open>BIND\<close>

record bind_handler =
  bh_Advertise :: "(request \<Rightarrow> addrport \<Rightarrow> addr) option"
  bh_Filter :: "filter_fn option"

definition advertised :: "(request \<Rightarrow> addrport \<Rightarrow> addr) option \<Rightarrow> request \<Rightarrow> addrport \<Rightarrow> addr" where
  "advertised custom r ap =
     (case custom of
        Some f \<Rightarrow> f r ap
      | None \<Rightarrow>
          let x = ipOf (rq_LocalAddr r);
              ap1 = (if IsUnspecified (ap_addr ap) \<and> ip_IsValid x then AddrPortFrom x (ap_port ap) else ap)
          in AddrFromAddrPort ap1)"

definition hostPort :: "ip \<Rightarrow> u16 \<Rightarrow> string" where
  "hostPort x port = (if \<not> ip_IsValid x then '':0'' else ap_String (AddrPortFrom x port))"

text \<open>\<open>None\<close> is the nil slice: any peer.\<close>

definition expectedPeers :: "bind_handler \<Rightarrow> world \<Rightarrow> request \<Rightarrow> error + ip list option" where
  "expectedPeers h w r =
     (let dst = rq_Addr r in
      if \<not> IsName dst then
        (let x = IP_of dst in
         if IsUnspecified x then Inr None
         else case allowIP (bh_Filter h) (Some r) x of Some e \<Rightarrow> Inl e | None \<Rightarrow> Inr (Some [x]))
      else
        (case lookupAllowed (bh_Filter h) (wd_lookup w (Name_of dst)) (Some r) 0 ipNetwork [] 0 of
           (want, _, _) \<Rightarrow> if want = [] then Inl (notFound (Name_of dst)) else Inr (Some want)))"

text \<open>\<open>arrivals\<close>: the conns that come, then the error of \<open>Accept\<close>, with whether the client was gone and what the ctx says then.
  The remote address of the peer, and how many others were closed.\<close>

fun bind_accept ::
  "bind_handler \<Rightarrow> request \<Rightarrow> ip list option \<Rightarrow> netaddr list \<Rightarrow> bool \<Rightarrow> error option \<Rightarrow> error
   \<Rightarrow> nat \<times> (error + netaddr)" where
  "bind_accept h r want [] gone ctxErr acceptErr =
     (0, Inl (if gone then ESent errClientGone else case ctxErr of Some e \<Rightarrow> e | None \<Rightarrow> acceptErr))"
| "bind_accept h r want (c # cs) gone ctxErr acceptErr =
     (let peer = addrPortOf c in
      if (case want of None \<Rightarrow> False | Some xs \<Rightarrow> ap_addr peer \<notin> set xs)
         \<or> allow (bh_Filter h) (Some r) (tcpNetwork (ap_addr peer)) peer \<noteq> None
      then (case bind_accept h r want cs gone ctxErr acceptErr of (k, res) \<Rightarrow> (Suc k, res))
      else (0, Inr c))"

text \<open>\<open>listened\<close> is the listener's address; while it accepts, the handler buffers what the client sends.\<close>

definition bind_serve ::
  "bind_handler \<Rightarrow> world \<Rightarrow> error + netaddr \<Rightarrow> netaddr list \<Rightarrow> bool \<Rightarrow> error option \<Rightarrow> error \<Rightarrow> hprog \<Rightarrow> handler" where
  "bind_serve h w listened arrivals gone ctxErr acceptErr relay r =
     (if rq_Command r \<noteq> CmdBind then notSupported r
      else case expectedPeers h w r of
        Inl e \<Rightarrow> HRet (Some e)
      | Inr want \<Rightarrow>
          (case listened of
             Inl e \<Rightarrow> HRet (Some e)
           | Inr lnAddr \<Rightarrow>
               HListening (advertised (bh_Advertise h) r (addrPortOf lnAddr))
                 (\<lambda>err. if err \<noteq> None then HRet err
                    else case snd (bind_accept h r want arrivals gone ctxErr acceptErr) of
                      Inl e \<Rightarrow> HRet (Some e)
                    | Inr peer \<Rightarrow>
                        HReply ReplySucceeded (AddrFromAddrPort (addrPortOf peer))
                          (\<lambda>e. if e \<noteq> None then HRet e else relay))))"

section \<open>Only vetted addresses are contacted\<close>

lemma try_dial_controlled:
  "ap \<in> set (fst (try_dial ctl w port first xs)) \<Longrightarrow>
   ap_addr ap \<in> set xs \<and> ap_port ap = port \<and> ctl (tcpNetwork (ap_addr ap)) (ap_String ap) = None"
proof (induction xs arbitrary: first)
  case (Cons x xs)
  let ?a = "AddrPortFrom x port"
  show ?case
  proof (cases "ctl (tcpNetwork x) (ap_String ?a)")
    case None
    then show ?thesis
      using Cons by (cases "wd_connect w (tcpNetwork x) ?a") (auto simp: Let_def case_prod_beta)
  next
    case (Some e)
    then show ?thesis using Cons by (auto simp: Let_def split: if_splits)
  qed
qed simp

text \<open>A check of the text a dialer is about to connect to is a check of the address itself.\<close>

lemma checkDial_is_vet:
  "checkDial f ips sourceFor r network (ap_String ap) = None \<Longrightarrow> ap_IsValid ap \<and> vet f ips sourceFor r network (normalize ap) = None"
proof -
  assume c: "checkDial f ips sourceFor r network (ap_String ap) = None"
  have "ParseAddrPort ''invalid AddrPort'' = None" by (simp add: ParseAddrPort_def find_index_last_def)
  then have "ap_IsValid ap" using c
    by (cases "ap_addr ap") (auto simp: ap_IsValid_def ap_String_def checkDial_def)
  then show ?thesis using c by (simp add: checkDial_def ParseAddrPort_String)
qed

lemma vetLoop_vetted:
  "y \<in> set (fst (vetLoop f w r port denial xs)) \<Longrightarrow>
   WithZone (Unmap y) [] = y \<and> world_vet f w r (tcpNetwork y) (AddrPortFrom y port) = None"
  by (induction f w r port denial xs rule: vetLoop.induct)
    (auto simp: Let_def split: option.splits prod.splits if_splits)

lemma vettedIPs_vetted:
  assumes "vettedIPs h w r = Inr ys" and "y \<in> set ys"
  shows "WithZone (Unmap y) [] = y \<and>
    world_vet (ch_Filter h) w r (tcpNetwork y) (AddrPortFrom y (Port_of (rq_Addr r))) = None"
  using assms vetLoop_vetted [of y "ch_Filter h" w r "Port_of (rq_Addr r)" None "fst (wd_lookup w (Name_of (rq_Addr r)))"]
  by (auto simp: vettedIPs_def Let_def split: if_splits option.splits prod.splits)

lemma normalize_plain: "WithZone (Unmap (ap_addr ap)) [] = ap_addr ap \<Longrightarrow> normalize ap = ap"
  by (simp add: normalize_def AddrPortFrom_eq)

definition contacted_ok :: "filter_fn option \<Rightarrow> world \<Rightarrow> request \<Rightarrow> addrport \<Rightarrow> bool" where
  "contacted_ok f w r ap = (world_vet f w r (tcpNetwork (ap_addr ap)) (normalize ap) = None)"

lemma DialContext_contacts:
  assumes "ap \<in> set (fst (DialContext ctl w ad))"
  shows "ap_port ap = Port_of ad \<and> ctl (tcpNetwork (ap_addr ap)) (ap_String ap) = None
    \<and> (ip_IsValid (IP_of ad) \<and> \<not> IsUnspecified (IP_of ad) \<longrightarrow> ap_addr ap = IP_of ad)"
  using assms try_dial_controlled [of ap ctl w "Port_of ad" None]
  by (auto simp: DialContext_def Let_def case_prod_beta simp del: try_dial.simps split: sum.splits if_splits
      dest: try_dial_controlled)

lemma dialChecked_contacts:
  assumes "ap \<in> set (fst (dialChecked h w r d))" and wf: "addr_wf (rq_Addr r)"
  shows "contacted_ok (ch_Filter h) w r ap"
proof -
  let ?x = "IP_of (rq_Addr r)" let ?port = "Port_of (rq_Addr r)"
  consider (early) "vetEarly h w r d" | (vetted) "\<not> vetEarly h w r d" "\<not> ch_controlSupported h"
    | (control) "\<not> vetEarly h w r d" "ch_controlSupported h" by blast
  then show ?thesis
  proof cases
    case early
    then have v: "ip_IsValid ?x" "\<not> IsUnspecified ?x"
      "world_vet (ch_Filter h) w r (tcpNetwork ?x) (AddrPortFrom ?x ?port) = None"
      by (auto simp: vetEarly_def Let_def split: if_splits)
    have "ap = AddrPortFrom ?x ?port"
      using assms(1) early v DialContext_contacts [of ap "\<lambda>_ _. None" w "rq_Addr r"]
      by (auto simp: dialChecked_def AddrPortFrom_eq [symmetric])
    moreover have "WithZone (Unmap ?x) [] = ?x"
      using wf v(1) by (intro plain_id) (auto simp: addr_wf_def)
    ultimately show ?thesis using v(3) by (simp add: contacted_ok_def normalize_plain)
  next
    case vetted
    then obtain ys where ys: "vettedIPs h w r = Inr ys" "ap \<in> set (fst (try_dial (\<lambda>_ _. None) w ?port None ys))"
      using assms(1) by (auto simp: dialChecked_def dialVetted_def split: sum.splits prod.splits)
    have a: "ap_addr ap \<in> set ys" "ap_port ap = ?port" using try_dial_controlled [OF ys(2)] by simp_all
    have e: "AddrPortFrom (ap_addr ap) ?port = ap" using a(2) AddrPortFrom_eq [of "ap_addr ap" ?port ap] by simp
    note v = vettedIPs_vetted [OF ys(1) a(1), unfolded e]
    show ?thesis using v by (simp add: contacted_ok_def normalize_plain [OF conjunct1 [OF v]])
  next
    case control
    then have "dialControl (ch_Filter h) w r (dl_Control d) (tcpNetwork (ap_addr ap)) (ap_String ap) = None"
      using assms(1) DialContext_contacts [of ap "dialControl (ch_Filter h) w r (dl_Control d)" w "rq_Addr r"]
      by (simp add: dialChecked_def)
    then show ?thesis
      using checkDial_is_vet [of "ch_Filter h" "wd_ownIPs w" "wd_sourceFor w" "Some r" "tcpNetwork (ap_addr ap)" ap]
      by (simp add: dialControl_def contacted_ok_def world_vet_def split: option.splits)
  qed
qed

lemma default_vet_facts:
  assumes "world_vet None w r network ap = None" and n: "normalize ap = ap" and net: "\<not> has_prefix network ''ip''"
  shows "globally_reachable (ap_addr ap) \<and> ap_port ap \<noteq> 0 \<and> \<not> isSelf r (ap_addr ap)
    \<and> (\<forall>own. wd_ownIPs w = Some own \<longrightarrow> ap_addr ap \<notin> set own)"
proof -
  have a: "allow None (Some r) network ap = None" and o: "checkOwnHost None (Some r) network (ownHost (wd_ownIPs w) (wd_sourceFor w) ap) ap NilAddr = None"
    using assms(1) by (auto simp: world_vet_def vet_def split: option.splits)
  have p: "WithZone (Unmap (ap_addr ap)) [] = ap_addr ap"
    using n normalize_sel(1) [of ap] by metis
  have "globally_reachable (ap_addr ap) \<and> ap_port ap \<noteq> 0 \<and> \<not> isSelf r (ap_addr ap)"
    using a net p classify_plain [of "Unmap (ap_addr ap)"]
    by (auto simp: allow_def DefaultFilter_def n Let_def split: if_splits)
  moreover have "ap_addr ap \<notin> set own" if own: "wd_ownIPs w = Some own" for own
  proof
    assume m: "ap_addr ap \<in> set own"
    have v: "ip_IsValid (ap_addr ap)" using calculation by (cases "ap_addr ap") simp_all
    then have "ownHost (wd_ownIPs w) (wd_sourceFor w) ap = ap" using m own by (simp add: ownHost_def)
    then show False
      using o v by (simp add: checkOwnHost_def ap_IsValid_def allow_def DefaultFilter_def isSelf_def ipOf_def addrPortOf_def n Let_def)
  qed
  ultimately show ?thesis by blast
qed

lemma connect_dial_contacts:
  assumes "ch_Dial h = None" and "ap \<in> set (fst (connect_dial h w r))" and "addr_wf (rq_Addr r)"
  shows "contacted_ok (ch_Filter h) w r ap"
proof -
  obtain d where "fst (connect_dial h w r) = fst (dialChecked h w r d)"
  proof -
    let ?t = "orDefault (ch_DialTimeout h) defaultDialTimeout"
    let ?d0 = "case ch_Dialer h of Some d \<Rightarrow> d | None \<Rightarrow> zero_dialer"
    let ?d = "if ?t > 0 \<and> (dl_Timeout ?d0 = 0 \<or> ?t < dl_Timeout ?d0) then ?d0\<lparr>dl_Timeout := ?t\<rparr> else ?d0"
    have "fst (dialFiltered h w r ?t) = fst (dialChecked h w r ?d)"
      by (simp add: dialFiltered_def Let_def split: prod.split sum.split option.split)
    then show ?thesis using that assms(1) by (simp add: connect_dial_def Let_def)
  qed
  then show ?thesis using dialChecked_contacts assms(2,3) by simp
qed

section \<open>Properties of the handlers\<close>

text \<open>C12: With a CONNECT handler that filters, a packet is sent only to addresses that passed the filter and the
  own-host check with exactly that IP and port, whatever the resolver answers, whatever addresses
  the dialer tries, with or without \<open>Control\<close> support (no SSRF by DNS rebinding, no port-scan oracle). With
  the default filter they are globally reachable, on a port other than 0, and not this host.\<close>

theorem connect_contacts_only_vetted:
  assumes "ch_Dial h = None" and "ap \<in> set (fst (connect_dial h w r))" and "addr_wf (rq_Addr r)"
  shows "world_vet (ch_Filter h) w r (tcpNetwork (ap_addr ap)) (normalize ap) = None
    \<and> (ch_Filter h = None \<longrightarrow>
        globally_reachable (ap_addr (normalize ap)) \<and> ap_port ap \<noteq> 0 \<and> \<not> isSelf r (ap_addr (normalize ap))
        \<and> (\<forall>own. wd_ownIPs w = Some own \<longrightarrow> ap_addr (normalize ap) \<notin> set own))"
proof -
  have c: "world_vet (ch_Filter h) w r (tcpNetwork (ap_addr ap)) (normalize ap) = None"
    using connect_dial_contacts [OF assms] by (simp add: contacted_ok_def)
  have "\<not> has_prefix (tcpNetwork (ap_addr ap)) ''ip''" by (simp add: tcpNetwork_def has_prefix_def)
  then show ?thesis using c default_vet_facts [of w r "tcpNetwork (ap_addr ap)" "normalize ap"] by auto
qed

text \<open>A world in which a name resolves to a private and a public address.\<close>

definition twoFaced :: world where
  "twoFaced = \<lparr>wd_now = 0, wd_lookup = (\<lambda>_. ([], None)), wd_ownIPs = Some [], wd_sourceFor = (\<lambda>a. zeroAddrPort),
     wd_tries = (\<lambda>_. Inr [IP4 (ip4_of_bytes 10 0 0 2), IP4 (ip4_of_bytes 8 8 8 8)]),
     wd_connect = (\<lambda>n a. Inr (TCPAddr (AddrPortFrom (IP4 (ip4_of_bytes 192 0 2 7)) 999), TCPAddr a))\<rparr>"

definition plainConnect :: connect_handler where
  "plainConnect = \<lparr>ch_Dial = None, ch_Dialer = None, ch_Filter = None, ch_DialTimeout = 0, ch_controlSupported = True\<rparr>"

definition nameRequest :: request where
  "nameRequest = zeroRequest\<lparr>rq_Command := CmdConnect, rq_Addr := nameAddrOf ''example.com'' 80\<rparr>"

lemma checkDial_String:
  "ap_IsValid ap \<Longrightarrow> checkDial f ips src r network (ap_String ap) = vet f ips src r network (normalize ap)"
  by (simp add: checkDial_def ParseAddrPort_String)

lemma twoFaced_vet:
  "vet None (Some []) s (Some nameRequest) n (AddrPortFrom (IP4 (ip4_of_bytes 8 8 8 8)) 80) = None"
  "vet None (Some []) s (Some nameRequest) n (AddrPortFrom (IP4 (ip4_of_bytes 10 0 0 2)) 80)
     = Some (EDenied (AddrPortFrom (IP4 (ip4_of_bytes 10 0 0 2)) 80) ''private'')"
  by (simp_all add: vet_def allow_def DefaultFilter_def Let_def normalize_def classify_def denied4_def ip4_of_bytes_def
      isSelf_def nameRequest_def zeroRequest_def ipOf_def addrPortOf_def zeroAddrPort_def ownHost_def checkOwnHost_def
      IsLoopback_def IsUnspecified_def ap_IsValid_def embedded4_def)

lemma twoFaced_dial:
  "fst (connect_dial plainConnect twoFaced nameRequest) = [AddrPortFrom (IP4 (ip4_of_bytes 8 8 8 8)) 80]"
proof -
  have v: "ap_IsValid (AddrPortFrom (IP4 v) p)" "normalize (AddrPortFrom (IP4 v) p) = AddrPortFrom (IP4 v) p" for v p
    by (simp_all add: ap_IsValid_def normalize_def)
  show ?thesis
    by (simp add: connect_dial_def plainConnect_def dialFiltered_def dialChecked_def vetEarly_def zero_dialer_def Let_def
        DialContext_def dialControl_def checkDial_String v twoFaced_vet twoFaced_def nameRequest_def [THEN arg_cong, of rq_Addr]
        orDefault_def defaultDialTimeout_def case_prod_beta split: sum.split option.split)
qed

lemma connect_contacts_only_vetted_witness:
  "globally_reachable (IP4 (ip4_of_bytes 8 8 8 8))"
  using connect_contacts_only_vetted [of plainConnect "AddrPortFrom (IP4 (ip4_of_bytes 8 8 8 8)) 80" twoFaced nameRequest]
    twoFaced_dial
  by (simp add: plainConnect_def normalize_def nameRequest_def addr_wf_nameAddrOf)

definition is_denial :: "error \<Rightarrow> bool" where
  "is_denial e = (\<exists>op n s a ap why. e = EOp op n s a (EDenied ap why))"

lemma is_denial_reply: "is_denial e \<Longrightarrow> IsS e ErrNotAllowed \<and> ReplyFor (Some e) = ReplyNotAllowed"
  by (auto simp: is_denial_def ReplyFor_def err_Is_def err_As_def)

lemma default_denies:
  assumes "\<not> globally_reachable (ap_addr (normalize ap))"
  shows "\<exists>ap' why. world_vet None w r network (normalize ap) = Some (EDenied ap' why)"
  using assms classify_plain [of "Unmap (ap_addr ap)"]
  by (auto simp: world_vet_def vet_def allow_def DefaultFilter_def Let_def normalize_def)

lemma control_denies:
  assumes "\<not> globally_reachable (WithZone (Unmap x) [])"
  shows "\<exists>ap' why. dialControl None w r inner network (ap_String (AddrPortFrom x port)) = Some (EDenied ap' why)"
proof (cases "x = NoIP")
  case True
  have "ParseAddrPort ''invalid AddrPort'' = None" by (simp add: ParseAddrPort_def find_index_last_def)
  then show ?thesis using True by (simp add: dialControl_def checkDial_def ap_String_def)
next
  case False
  have "normalize (AddrPortFrom x port) = AddrPortFrom (WithZone (Unmap x) []) port" by (simp add: normalize_def)
  then show ?thesis
    using False default_denies [of "AddrPortFrom x port" w r network] assms
    by (auto simp: dialControl_def checkDial_String ap_IsValid_def world_vet_def ip_IsValid_def)
qed

lemma try_dial_denied:
  assumes "\<forall>x \<in> set xs. \<exists>ap why. ctl (tcpNetwork x) (ap_String (AddrPortFrom x port)) = Some (EDenied ap why)"
    and "\<forall>e. first = Some e \<longrightarrow> is_denial e"
  shows "\<exists>f. try_dial ctl w port first xs = ([], Inl f) \<and> (xs \<noteq> [] \<or> first \<noteq> None \<longrightarrow> (\<exists>e. f = Some e \<and> is_denial e))"
  using assms
proof (induction xs arbitrary: first)
  case (Cons x xs)
  then obtain ap why where c: "ctl (tcpNetwork x) (ap_String (AddrPortFrom x port)) = Some (EDenied ap why)" by auto
  let ?first = "if first = None then Some (EOp ''dial'' (tcpNetwork x) None (Some (ap_String (AddrPortFrom x port))) (EDenied ap why)) else first"
  have "\<exists>e. ?first = Some e \<and> is_denial e" using Cons.prems(2) by (cases first) (auto simp: is_denial_def)
  then show ?case using Cons.IH [of ?first] Cons.prems(1) c by (auto simp: Let_def)
qed auto

text \<open>What the dialer does with addresses that are all denied: nothing is sent, the error is a denial.\<close>

definition refused :: "addrport list \<times> (error + netaddr \<times> netaddr) \<Rightarrow> bool" where
  "refused d = (\<exists>e. d = ([], Inl e) \<and> is_denial e)"

lemma dialFiltered_refused: "(\<And>d. refused (dialChecked h w r d)) \<Longrightarrow> refused (dialFiltered h w r t)"
proof -
  assume a: "\<And>d. refused (dialChecked h w r d)"
  show ?thesis
    unfolding dialFiltered_def Let_def
    using a [of "if t > 0 \<and> (dl_Timeout (case ch_Dialer h of Some d \<Rightarrow> d | None \<Rightarrow> zero_dialer) = 0
          \<or> t < dl_Timeout (case ch_Dialer h of Some d \<Rightarrow> d | None \<Rightarrow> zero_dialer))
        then (case ch_Dialer h of Some d \<Rightarrow> d | None \<Rightarrow> zero_dialer)\<lparr>dl_Timeout := t\<rparr>
        else (case ch_Dialer h of Some d \<Rightarrow> d | None \<Rightarrow> zero_dialer)"]
    unfolding refused_def by (elim exE conjE) (simp only: prod.case sum.case simp_thms, blast)
qed

lemma literal_refused:
  assumes "ip_IsValid (IP_of (rq_Addr r))" and "\<not> IsUnspecified (IP_of (rq_Addr r))" and "addr_wf (rq_Addr r)"
    and n: "\<not> globally_reachable (IP_of (rq_Addr r))" and f: "ch_Filter h = None"
  shows "refused (dialChecked h w r d)"
proof -
  let ?x = "IP_of (rq_Addr r)" let ?port = "Port_of (rq_Addr r)"
  have p: "WithZone (Unmap ?x) [] = ?x" using assms(1,3) by (intro plain_id) (auto simp: addr_wf_def)
  have e: "normalize (AddrPortFrom ?x ?port) = AddrPortFrom ?x ?port" by (simp add: normalize_def p)
  have v: "\<exists>ap why. world_vet None w r net (AddrPortFrom ?x ?port) = Some (EDenied ap why)" for net
    using default_denies [of "AddrPortFrom ?x ?port" w r net, unfolded e] n by simp
  have ve: "\<not> vetEarly h w r d" using v [of "tcpNetwork ?x"] f by (auto simp: vetEarly_def Let_def)
  show ?thesis
  proof (cases "ch_controlSupported h")
    case False
    then show ?thesis using ve v [of "tcpNetwork ?x"] f assms(1) p
      by (auto simp: dialChecked_def dialVetted_def vettedIPs_def Let_def refused_def is_denial_def)
  next
    case True
    have "\<forall>x \<in> set [?x]. \<exists>ap why. dialControl None w r (dl_Control d) (tcpNetwork x) (ap_String (AddrPortFrom x ?port)) = Some (EDenied ap why)"
      using control_denies [of ?x] n p by simp
    from try_dial_denied [OF this, of None w] show ?thesis
      using ve True f assms(1,2)
      by (auto simp: dialChecked_def DialContext_def dial_error_def refused_def simp del: try_dial.simps)
  qed
qed

lemma name_refused:
  assumes "\<not> ip_IsValid (IP_of (rq_Addr r))" and "wd_tries w (addr_String (rq_Addr r)) = Inr xs" and "xs \<noteq> []"
    and n: "\<forall>x \<in> set xs. \<not> globally_reachable (WithZone (Unmap x) [])" and f: "ch_Filter h = None" "ch_controlSupported h"
  shows "refused (dialChecked h w r d)"
proof -
  have "\<forall>x \<in> set xs. \<exists>ap why. dialControl None w r (dl_Control d) (tcpNetwork x)
      (ap_String (AddrPortFrom x (Port_of (rq_Addr r)))) = Some (EDenied ap why)"
    using control_denies n by blast
  from try_dial_denied [OF this, of None w] show ?thesis
    using assms
    by (auto simp: dialChecked_def vetEarly_def DialContext_def Let_def dial_error_def refused_def)
qed

text \<open>A CONNECT to an address that is not globally reachable sends no packet and is refused with REP 02, however the
  client spells the address; a name all of whose addresses are denied gets REP 04 instead, as if it did not exist,
  so the reply tells nothing of internal names. Success is replied only when there is a conn to the target.\<close>

theorem connect_refusals:
  assumes "ch_Dial h = None" and "ch_Filter h = None" and "rq_Command r = CmdConnect" and "addr_wf (rq_Addr r)"
  shows "(ip_IsValid (IP_of (rq_Addr r)) \<and> \<not> IsUnspecified (IP_of (rq_Addr r)) \<and> \<not> globally_reachable (IP_of (rq_Addr r)) \<longrightarrow>
        fst (connect_dial h w r) = []
        \<and> (\<exists>e. connect_serve h w relay r = HRet (Some e) \<and> ReplyFor (Some e) = ReplyNotAllowed))
    \<and> (IsName (rq_Addr r) \<and> ch_controlSupported h \<and> wd_tries w (addr_String (rq_Addr r)) = Inr xs \<and> xs \<noteq> []
          \<and> list_all (\<lambda>x. \<not> globally_reachable (WithZone (Unmap x) [])) xs \<longrightarrow>
        fst (connect_dial h w r) = [] \<and> (\<exists>k. connect_serve h w relay r = HReply ReplyHostUnreachable zeroAddr k))
    \<and> (connect_serve h w relay r = HReply ReplySucceeded bound k \<longrightarrow>
        (\<exists>local remote. snd (connect_dial h w r) = Inr (local, remote) \<and> bound = AddrFromAddrPort (addrPortOf local)))"
    (is "?literal \<and> ?name \<and> ?success")
proof (intro conjI)
  have cd: "connect_dial h w r = dialFiltered h w r (orDefault (ch_DialTimeout h) defaultDialTimeout)"
    using assms(1) by (simp add: connect_dial_def Let_def)
  show ?literal
  proof
    assume l: "ip_IsValid (IP_of (rq_Addr r)) \<and> \<not> IsUnspecified (IP_of (rq_Addr r)) \<and> \<not> globally_reachable (IP_of (rq_Addr r))"
    have "refused (connect_dial h w r)"
      unfolding cd using literal_refused [of r h w] l assms(2,4) by (intro dialFiltered_refused) blast
    moreover have "\<not> IsName (rq_Addr r)" using l assms(4) by (auto simp: IsName_def addr_wf_def)
    ultimately show "fst (connect_dial h w r) = []
        \<and> (\<exists>e. connect_serve h w relay r = HRet (Some e) \<and> ReplyFor (Some e) = ReplyNotAllowed)"
      using assms(3) is_denial_reply by (auto simp: refused_def connect_serve_def)
  qed
  show ?name
  proof
    assume l: "IsName (rq_Addr r) \<and> ch_controlSupported h \<and> wd_tries w (addr_String (rq_Addr r)) = Inr xs \<and> xs \<noteq> []
          \<and> list_all (\<lambda>x. \<not> globally_reachable (WithZone (Unmap x) [])) xs"
    have "\<not> ip_IsValid (IP_of (rq_Addr r))" using l assms(4) by (auto simp: IsName_def addr_wf_def)
    then have "refused (connect_dial h w r)"
      unfolding cd using name_refused [of r w xs h] l assms(2) by (intro dialFiltered_refused) (auto simp: list_all_iff)
    then show "fst (connect_dial h w r) = [] \<and> (\<exists>k. connect_serve h w relay r = HReply ReplyHostUnreachable zeroAddr k)"
      using assms(3) is_denial_reply l by (auto simp: refused_def connect_serve_def)
  qed
  show ?success
    using assms(3) by (auto simp: connect_serve_def reply_defs split: sum.splits if_splits)
qed

definition privateRequest :: request where
  "privateRequest = zeroRequest\<lparr>rq_Command := CmdConnect, rq_Addr := ipAddr (IP4 (ip4_of_bytes 10 0 0 2)) 80\<rparr>"

lemma connect_refusals_witness:
  "\<exists>e. connect_serve plainConnect twoFaced (HRet None) privateRequest = HRet (Some e) \<and> ReplyFor (Some e) = ReplyNotAllowed"
proof -
  have "\<not> globally_reachable (IP4 (ip4_of_bytes 10 0 0 2))" "IP4 (ip4_of_bytes 10 0 0 2) \<noteq> IP4 0"
    by (simp_all add: public4_def in_ranges_def special4_def quad_def ip4_of_bytes_def)
  then show ?thesis
    using connect_refusals [of plainConnect privateRequest twoFaced "HRet None" "[]" zeroAddr "\<lambda>_. HRet None"]
    by (simp add: plainConnect_def privateRequest_def plain_ip_def IsUnspecified_def)
qed

definition peer_ok :: "bind_handler \<Rightarrow> request \<Rightarrow> ip list option \<Rightarrow> netaddr \<Rightarrow> bool" where
  "peer_ok h r want c =
     ((case want of None \<Rightarrow> True | Some xs \<Rightarrow> ap_addr (addrPortOf c) \<in> set xs)
      \<and> allow (bh_Filter h) (Some r) (tcpNetwork (ap_addr (addrPortOf c))) (addrPortOf c) = None)"

lemma bind_accept_peers:
  "bind_accept h r want cs gone ctxErr acceptErr =
     (length (takeWhile (Not \<circ> peer_ok h r want) cs),
      case dropWhile (Not \<circ> peer_ok h r want) cs of
        c # _ \<Rightarrow> Inr c
      | [] \<Rightarrow> Inl (if gone then ESent errClientGone else case ctxErr of Some e \<Rightarrow> e | None \<Rightarrow> acceptErr))"
proof (induction cs)
  case (Cons c cs)
  have "((case want of None \<Rightarrow> False | Some xs \<Rightarrow> ap_addr (addrPortOf c) \<notin> set xs)
      \<or> allow (bh_Filter h) (Some r) (tcpNetwork (ap_addr (addrPortOf c))) (addrPortOf c) \<noteq> None) = (\<not> peer_ok h r want c)"
    by (auto simp: peer_ok_def split: option.splits)
  then show ?case using Cons by (simp add: Let_def)
qed simp

lemma fst_lookupAllowed:
  "fst (lookupAllowed f found r port network [] limit) =
     (if limit = 0 then allowed_of f r port network (fst found) else take limit (allowed_of f r port network (fst found)))"
  "snd (snd (lookupAllowed f found r port network [] limit)) = snd found"
  using lookupLoop_take [of limit "[]" f r port network None "fst found"]
  by (auto simp: lookupAllowed_def case_prod_beta)

lemma allowed_of_ip:
  "x \<in> set (allowed_of f r 0 ipNetwork xs) \<Longrightarrow> allowIP f r x = None"
  "list_all (\<lambda>y. allowIP f r (WithZone (Unmap y) []) \<noteq> None) xs \<Longrightarrow> allowed_of f r 0 ipNetwork xs = []"
  by (auto simp: allowed_of_def allowIP_def list_all_iff filter_empty_conv)

lemma expectedPeers_allowed:
  "expectedPeers h w r = Inr (Some xs) \<Longrightarrow> x \<in> set xs \<Longrightarrow> allowIP (bh_Filter h) (Some r) x = None"
  by (auto simp: expectedPeers_def Let_def case_prod_beta fst_lookupAllowed allowed_of_ip split: if_splits option.splits)

text \<open>C13: BIND relays with the first peer that the request expects and the filter allows, and with no other: every
  peer before it is closed; without one the client gets the client-gone, ctx or accept error. The
  peers a name stands for have all passed the filter, and a name whose addresses are all denied is
  indistinguishable from one that does not resolve.\<close>

theorem bind_accepts_the_expected_peer:
  "bind_accept h r want cs gone ctxErr acceptErr =
     (length (takeWhile (Not \<circ> peer_ok h r want) cs),
      case dropWhile (Not \<circ> peer_ok h r want) cs of
        c # _ \<Rightarrow> Inr c
      | [] \<Rightarrow> Inl (if gone then ESent errClientGone else case ctxErr of Some e \<Rightarrow> e | None \<Rightarrow> acceptErr))
   \<and> (expectedPeers h w r = Inr (Some xs) \<and> x \<in> set xs \<longrightarrow> allowIP (bh_Filter h) (Some r) x = None)
   \<and> (IsName (rq_Addr r) \<and> list_all (\<lambda>y. allowIP (bh_Filter h) (Some r) (WithZone (Unmap y) []) \<noteq> None)
          (fst (wd_lookup w (Name_of (rq_Addr r))))
      \<longrightarrow> expectedPeers h w r = Inl (notFound (Name_of (rq_Addr r))))"
proof -
  have "expectedPeers h w r = Inl (notFound (Name_of (rq_Addr r)))"
    if "IsName (rq_Addr r)" "list_all (\<lambda>y. allowIP (bh_Filter h) (Some r) (WithZone (Unmap y) []) \<noteq> None)
          (fst (wd_lookup w (Name_of (rq_Addr r))))"
    using that allowed_of_ip(2) by (simp add: expectedPeers_def Let_def case_prod_beta fst_lookupAllowed)
  then show ?thesis using bind_accept_peers expectedPeers_allowed by blast
qed

lemma bind_accepts_the_expected_peer_witness:
  "bind_accept \<lparr>bh_Advertise = None, bh_Filter = Some AllowAll\<rparr> privateRequest (Some [IP4 2])
     [TCPAddr (AddrPortFrom (IP4 3) 9), TCPAddr (AddrPortFrom (IP4 2) 9)] False None (ESent NetErrClosed)
   = (1, Inr (TCPAddr (AddrPortFrom (IP4 2) 9)))"
  using bind_accepts_the_expected_peer [of "\<lparr>bh_Advertise = None, bh_Filter = Some AllowAll\<rparr>" privateRequest "Some [IP4 2]"
      "[TCPAddr (AddrPortFrom (IP4 3) 9), TCPAddr (AddrPortFrom (IP4 2) 9)]" False None "ESent NetErrClosed" twoFaced "[]" NoIP]
  by (simp add: peer_ok_def addrPortOf_def allow_def AllowAll_def)

text \<open>RESOLVE discloses only allowed addresses: the answer to F0 is the address asked for or the first allowed one
  of the name, and passed the filter; a name all of whose addresses are denied is answered like an unknown
  one; F1 looks up no address the filter denies.\<close>

theorem resolve_discloses_allowed_only:
  "(tor_resolve h w r = (a, None) \<longrightarrow>
      (\<exists>x. a = AddrFromAddrPort (AddrPortFrom x 0) \<and> allowIP (rh_Filter h) (Some r) x = None))
   \<and> (\<not> ip_IsValid (IP_of (rq_Addr r)) \<and> snd (wd_lookup w (Name_of (rq_Addr r))) = None
        \<and> list_all (\<lambda>y. allowIP (rh_Filter h) (Some r) (WithZone (Unmap y) []) \<noteq> None) (fst (wd_lookup w (Name_of (rq_Addr r))))
      \<longrightarrow> tor_resolve h w r = (zeroAddr, Some (notFound (Name_of (rq_Addr r)))))
   \<and> (ip_IsValid (IP_of (rq_Addr r)) \<and> allowIP (rh_Filter h) (Some r) (IP_of (rq_Addr r)) = Some e
      \<longrightarrow> tor_resolvePTR h r = (zeroAddr, Some e))"
proof -
  let ?found = "wd_lookup w (Name_of (rq_Addr r))"
  let ?ans = "lookupAllowed (rh_Filter h) ?found (Some r) 0 ipNetwork [] 1"
  have t: "tor_resolve h w r =
      (if ip_IsValid (IP_of (rq_Addr r))
       then (AddrFromAddrPort (AddrPortFrom (IP_of (rq_Addr r)) 0), allowIP (rh_Filter h) (Some r) (IP_of (rq_Addr r)))
       else if snd ?found \<noteq> None then (zeroAddr, snd ?found)
       else if fst ?ans = [] then (zeroAddr, Some (notFound (Name_of (rq_Addr r))))
       else (AddrFromAddrPort (AddrPortFrom (hd (fst ?ans)) 0), None))"
    using fst_lookupAllowed(2) [of "rh_Filter h" ?found "Some r" 0 ipNetwork 1]
    by (auto simp: tor_resolve_def Let_def split: option.splits prod.splits)
  have h: "allowIP (rh_Filter h) (Some r) (hd (fst ?ans)) = None" if "fst ?ans \<noteq> []"
    using hd_in_set [OF that] allowed_of_ip(1) by (auto simp: fst_lookupAllowed dest: in_set_takeD)
  have "\<exists>x. a = AddrFromAddrPort (AddrPortFrom x 0) \<and> allowIP (rh_Filter h) (Some r) x = None"
    if "tor_resolve h w r = (a, None)"
    using that h unfolding t by (auto split: if_splits)
  moreover have "tor_resolve h w r = (zeroAddr, Some (notFound (Name_of (rq_Addr r))))"
    if "\<not> ip_IsValid (IP_of (rq_Addr r))" "snd ?found = None"
      "list_all (\<lambda>y. allowIP (rh_Filter h) (Some r) (WithZone (Unmap y) []) \<noteq> None) (fst ?found)"
    using that allowed_of_ip(2) [OF that(3)] unfolding t by (simp add: fst_lookupAllowed)
  ultimately show ?thesis by (simp add: tor_resolvePTR_def Let_def)
qed

definition resolveRequest :: request where
  "resolveRequest = zeroRequest\<lparr>rq_Command := CmdTorResolve, rq_Addr := nameAddrOf ''internal'' 0\<rparr>"

lemma resolve_discloses_allowed_only_witness:
  "tor_resolve \<lparr>rh_Filter = None, rh_LookupAddr = None\<rparr> (twoFaced\<lparr>wd_lookup := \<lambda>_. ([IP4 (ip4_of_bytes 10 0 0 2)], None)\<rparr>) resolveRequest
   = (zeroAddr, Some (notFound ''internal''))"
proof -
  have "allowIP None (Some resolveRequest) (IP4 (ip4_of_bytes 10 0 0 2)) \<noteq> None"
    by (simp add: allowIP_def allow_def DefaultFilter_def Let_def normalize_def classify_def denied4_def ip4_of_bytes_def)
  then show ?thesis
    using resolve_discloses_allowed_only [of "\<lparr>rh_Filter = None, rh_LookupAddr = None\<rparr>"
        "twoFaced\<lparr>wd_lookup := \<lambda>_. ([IP4 (ip4_of_bytes 10 0 0 2)], None)\<rparr>" resolveRequest zeroAddr "ESent errNotBind"]
    by (simp add: resolveRequest_def)
qed

end
