(* ===== verification/ServerUDP.thy ===== *)
theory ServerUDP
  imports ServerConnect "HOL-Library.AList"
begin

text \<open>
  \<open>server/udp.go\<close>: the UDP association. Go maps are association lists updated at their keys, so that
  \<open>len\<close> is their length. The state belongs to the \<open>up\<close> goroutine, except for the two words both goroutines
  use; \<open>down\<close> only reads \<open>targets\<close> and \<open>ips\<close>. What the outside world answers at a datagram (the clock, the
  resolver, the host's interfaces) is the argument \<open>world\<close>. Filters are pure, as their documentation asks.
\<close>

section \<open>State\<close>

datatype filtering = AddressAndPortDependent | AddressDependent | EndpointIndependent

text \<open>An instant is a number of nanoseconds, \<open>None\<close> the zero \<open>time.Time\<close>.\<close>

record nameEntry =
  ne_ip :: ip
  ne_err :: "error option"
  ne_exp :: int

record headerVerdict =
  hv_raw :: bytes
  hv_dst :: addrport
  hv_err :: "error option"
  hv_expires :: "int option"

record assoc_cfg =
  ac_req :: request
  ac_filter :: "filter_fn option"
  ac_filtering :: filtering
  ac_maxDatagram :: nat
  ac_maxTargets :: int
  ac_idle :: int
  ac_clientIP :: ip

record assoc =
  clientPort :: u16
  lastMove :: int
  targets :: "(addrport \<times> error option) list"
  ips :: "ip set"
  names :: "(string \<times> nameEntry) list"
  prevHeader :: headerVerdict

definition nameTTL :: int where "nameTTL = 60 * 10 ^ 9"
definition headroom :: nat where "headroom = 3 + 1 + 16 + 2"
definition minDatagram :: int where "minDatagram = int headroom + 1"
definition defaultMaxDatagram :: int where "defaultMaxDatagram = 4096 + int MaxUDPHeaderLen"
definition defaultMaxTargets :: int where "defaultMaxTargets = 1024"
definition defaultUDPIdle :: int where "defaultUDPIdle = 5 * 60 * 10 ^ 9"

section \<open>Setting up\<close>

record assoc_handler =
  ah_Filter :: "filter_fn option"
  ah_Filtering :: filtering
  ah_Advertise :: "(request \<Rightarrow> addrport \<Rightarrow> addr) option"
  ah_IdleTimeout :: int
  ah_MaxDatagram :: int
  ah_MaxTargets :: int

definition int_string :: "int \<Rightarrow> string" where
  "int_string n = (if n < 0 then CHR ''-'' # nat_string (nat (- n)) else nat_string (nat n))"

definition assoc_validate :: "assoc_handler \<Rightarrow> error option" where
  "assoc_validate h =
     (if ah_MaxDatagram h < 0 \<or> (ah_MaxDatagram h > 0 \<and> ah_MaxDatagram h < minDatagram)
      then Some (EStr (''socks0/server: AssociateHandler.MaxDatagram '' @ int_string (ah_MaxDatagram h)
              @ '': negative or under '' @ int_string minDatagram))
      else if ah_MaxTargets h < 0
      then Some (EStr (''socks0/server: AssociateHandler.MaxTargets '' @ int_string (ah_MaxTargets h) @ '': negative''))
      else None)"

definition newAssociation :: "assoc_handler \<Rightarrow> request \<Rightarrow> int \<Rightarrow> assoc_cfg \<times> assoc" where
  "newAssociation h r now =
     (let cfg = \<lparr>ac_req = r, ac_filter = ah_Filter h, ac_filtering = ah_Filtering h,
                 ac_maxDatagram = nat (min (orDefault (ah_MaxDatagram h) defaultMaxDatagram) (int headroom + 65535)),
                 ac_maxTargets = orDefault (ah_MaxTargets h) defaultMaxTargets,
                 ac_idle = orDefault (ah_IdleTimeout h) defaultUDPIdle,
                 ac_clientIP = ipOf (rq_RemoteAddr r)\<rparr>;
          x = IP_of (rq_Addr r)
      in (cfg, \<lparr>clientPort = (if ip_IsValid x \<and> (x = ac_clientIP cfg \<or> IsUnspecified x) then Port_of (rq_Addr r) else 0),
                lastMove = now, targets = [], ips = {}, names = [],
                prevHeader = \<lparr>hv_raw = [], hv_dst = zeroAddrPort, hv_err = None, hv_expires = None\<rparr>\<rparr>))"

section \<open>Verdicts on destinations\<close>

definition udpNetwork :: "ip \<Rightarrow> string" where
  "udpNetwork x = (if Is4 x then ''udp4'' else ''udp6'')"

definition full :: "assoc_cfg \<Rightarrow> assoc \<Rightarrow> bool" where
  "full cfg a = (int (length (targets a)) + int (length (names a)) \<ge> ac_maxTargets cfg)"

definition admit :: "assoc_cfg \<Rightarrow> world \<Rightarrow> addrport \<Rightarrow> assoc \<Rightarrow> assoc \<times> error option" where
  "admit cfg w dst a =
     (case map_of (targets a) dst of
        Some err \<Rightarrow> (a, err)
      | None \<Rightarrow>
          if \<not> ip_IsValid (ap_addr dst) then (a, Some (EDenied dst ''invalid''))
          else if full cfg a then (a, Some (ESent ErrTooManyTargets))
          else
            let err = world_vet (ac_filter cfg) w (ac_req cfg) (udpNetwork (ap_addr dst)) dst
            in (a\<lparr>targets := AList.update dst err (targets a),
                  ips := (if err = None then insert (ap_addr dst) (ips a) else ips a)\<rparr>, err))"

fun is_dns_error :: "error option \<Rightarrow> bool" where
  "is_dns_error (Some (EDNS m n u t f)) = True"
| "is_dns_error _ = False"

text \<open>\<open>resolve\<close> gives the address or the error of the entry.\<close>

definition resolve_name :: "assoc_cfg \<Rightarrow> world \<Rightarrow> string \<Rightarrow> u16 \<Rightarrow> ip \<times> error option" where
  "resolve_name cfg w name port =
     (case lookupAllowed (ac_filter cfg) (wd_lookup w name) (Some (ac_req cfg)) port udpNetwork [] 1 of
        (found, denial, err) \<Rightarrow>
          if found \<noteq> [] then (hd found, None)
          else if denial \<noteq> None \<and> (err = None \<or> is_dns_error err) then (NoIP, denial)
          else if err \<noteq> None then (NoIP, err)
          else (NoIP, Some (notFound name)))"

definition lookup_name :: "assoc_cfg \<Rightarrow> world \<Rightarrow> string \<Rightarrow> u16 \<Rightarrow> assoc \<Rightarrow> assoc \<times> (error + nameEntry)" where
  "lookup_name cfg w name port a =
     (let e0 = map_of (names a) name in
      case e0 of
        Some e \<Rightarrow>
          if wd_now w < ne_exp e then (a, Inr e)
          else (let (x, err) = resolve_name cfg w name port;
                    e1 = \<lparr>ne_ip = x, ne_err = err, ne_exp = wd_now w + nameTTL\<rparr>
                in (a\<lparr>names := AList.update name e1 (names a)\<rparr>, Inr e1))
      | None \<Rightarrow>
          if full cfg a then (a, Inl (ESent ErrTooManyTargets))
          else (let (x, err) = resolve_name cfg w name port;
                    e1 = \<lparr>ne_ip = x, ne_err = err, ne_exp = wd_now w + nameTTL\<rparr>
                in (a\<lparr>names := AList.update name e1 (names a)\<rparr>, Inr e1)))"

definition judge :: "assoc_cfg \<Rightarrow> world \<Rightarrow> addr \<Rightarrow> assoc \<Rightarrow> assoc \<times> addrport \<times> int option \<times> error option" where
  "judge cfg w ad a =
     (if IsName ad then
        (case lookup_name cfg w (Name_of ad) (Port_of ad) a of
           (a1, Inl err) \<Rightarrow> (a1, zeroAddrPort, None, Some err)
         | (a1, Inr e) \<Rightarrow>
             (case ne_err e of
                Some err \<Rightarrow> (a1, AddrPortFrom (ne_ip e) (Port_of ad), Some (ne_exp e), Some err)
              | None \<Rightarrow>
                  let dst = AddrPortFrom (ne_ip e) (Port_of ad); (a2, err) = admit cfg w dst a1
                  in (a2, dst, Some (ne_exp e), err)))
      else
        let dst = AddrPortFrom (IP_of ad) (Port_of ad); (a2, err) = admit cfg w dst a
        in (a2, dst, None, err))"

definition parseClientHeader :: "bytes \<Rightarrow> error + addr \<times> nat" where
  "parseClientHeader p =
     (case ParseUDPHeader p of
        ((frag, ad), hl, Some err) \<Rightarrow> Inl (Truncated StageUDPHeader err)
      | ((frag, ad), hl, None) \<Rightarrow> if frag \<noteq> 0 then Inl (ESent ErrFragment) else Inr (ad, hl))"

definition hv_matches :: "int \<Rightarrow> headerVerdict \<Rightarrow> bytes \<Rightarrow> bool" where
  "hv_matches now v p =
     (hv_raw v \<noteq> [] \<and> has_prefix p (hv_raw v) \<and> (case hv_expires v of None \<Rightarrow> True | Some e \<Rightarrow> now < e))"

definition header :: "assoc_cfg \<Rightarrow> world \<Rightarrow> bytes \<Rightarrow> assoc \<Rightarrow> assoc \<times> addrport \<times> nat \<times> error option" where
  "header cfg w p a =
     (let prev = prevHeader a in
      if hv_matches (wd_now w) prev p then (a, hv_dst prev, length (hv_raw prev), hv_err prev)
      else case parseClientHeader p of
        Inl err \<Rightarrow> (a, zeroAddrPort, 0, Some err)
      | Inr (ad, hl) \<Rightarrow>
          (case judge cfg w ad a of
             (a1, dst, expires, err) \<Rightarrow>
               if err = Some (ESent ErrTooManyTargets) then (a1, dst, hl, err)
               else (a1\<lparr>prevHeader := \<lparr>hv_raw = take hl p, hv_dst = dst, hv_err = err, hv_expires = expires\<rparr>\<rparr>,
                     dst, hl, err)))"

section \<open>The two directions\<close>

text \<open>What one datagram leads to, with where it came from. A datagram longer than the buffer is cut, as by \<open>ReadFrom\<close>.\<close>

datatype action = Dropped addrport error | ToTarget addrport bytes addrport | ToClient addrport bytes addrport

text \<open>\<open>up\<close> until the verdict, and after it.\<close>

definition up_judge :: "assoc_cfg \<Rightarrow> world \<Rightarrow> bytes \<Rightarrow> addrport \<Rightarrow> assoc \<Rightarrow> assoc \<times> (error + bytes \<times> addrport)" where
  "up_judge cfg w datagram from1 a =
     (let p = take (ac_maxDatagram cfg) datagram; port = clientPort a in
      if ap_addr from1 \<noteq> ac_clientIP cfg \<or> (port \<noteq> 0 \<and> ap_port from1 \<noteq> port)
      then (a, Inl (ESent ErrWrongSource))
      else if length p = ac_maxDatagram cfg then (a, Inl (ESent ErrTooLarge))
      else case header cfg w p a of
        (a1, dst, hl, Some err) \<Rightarrow> (a1, Inl err)
      | (a1, dst, hl, None) \<Rightarrow> (a1, Inr (drop hl p, dst)))"

definition up_send :: "world \<Rightarrow> addrport \<Rightarrow> assoc \<Rightarrow> assoc" where
  "up_send w from1 a =
     (let a1 = (if clientPort a = 0 then a\<lparr>clientPort := ap_port from1\<rparr> else a)
      in a1\<lparr>lastMove := wd_now w\<rparr>)"

definition solicited :: "assoc_cfg \<Rightarrow> addrport \<Rightarrow> assoc \<Rightarrow> bool" where
  "solicited cfg from1 a =
     (case ac_filtering cfg of
        EndpointIndependent \<Rightarrow> True
      | AddressDependent \<Rightarrow> ap_addr from1 \<in> ips a
      | AddressAndPortDependent \<Rightarrow> map_of (targets a) from1 = Some None)"

text \<open>\<open>frame\<close>: the header goes right before the payload, which is at \<open>headroom\<close> of the buffer.\<close>

definition frame :: "bytes \<Rightarrow> addrport \<Rightarrow> nat \<Rightarrow> bytes" where
  "frame buf from1 n =
     (let src = AddrFromAddrPort from1;
          begin1 = headroom - UDPHeaderLen src;
          head = fst (AppendUDPHeader [] 0 src)
      in slice begin1 (headroom + n) (overwrite begin1 head buf))"

text \<open>\<open>port\<close> is \<open>clientPort\<close> as loaded before the map is read.\<close>

definition down :: "assoc_cfg \<Rightarrow> int \<Rightarrow> bytes \<Rightarrow> u16 \<Rightarrow> bytes \<Rightarrow> addrport \<Rightarrow> assoc \<Rightarrow> assoc \<times> action" where
  "down cfg now buf port datagram from1 a =
     (let p = take (ac_maxDatagram cfg - headroom) datagram; n = length p; buf1 = overwrite headroom p buf in
      if port = 0 \<or> \<not> solicited cfg from1 a then (a, Dropped from1 (ESent ErrUnsolicited))
      else if n = ac_maxDatagram cfg - headroom then (a, Dropped from1 (ESent ErrTooLarge))
      else (a\<lparr>lastMove := now\<rparr>, ToClient from1 (frame buf1 from1 n) (AddrPortFrom (ac_clientIP cfg) port)))"

section \<open>The control conn\<close>

text \<open>One turn of \<open>watchControl\<close>: \<open>None\<close> goes on reading, \<open>Some\<close> returns.\<close>

definition watchControl :: "assoc_cfg \<Rightarrow> error option \<Rightarrow> int \<Rightarrow> int \<Rightarrow> error option \<Rightarrow> error option option" where
  "watchControl cfg ctxErr now moved rerr =
     (case rerr of
        None \<Rightarrow> None
      | Some e \<Rightarrow>
          if ctxErr \<noteq> None then Some ctxErr
          else if IsS e IoEOF then Some None
          else if ac_idle cfg > 0 \<and> IsS e OsErrDeadlineExceeded then
            (if now - moved \<ge> ac_idle cfg then Some None else None)
          else Some (Some e))"

text \<open>\<open>run\<close>: what the association ends with.\<close>

definition assoc_result :: "bool \<Rightarrow> error option \<Rightarrow> error option" where
  "assoc_result panicked err = (if panicked then Some (ESent errRelayPanic) else err)"

section \<open>The handler\<close>

text \<open>\<open>listened\<close> is what the two listens give (the client socket's address), \<open>ended\<close> what \<open>run\<close> returns.\<close>

definition associate_handler :: "assoc_handler \<Rightarrow> error + netaddr \<Rightarrow> error option \<Rightarrow> request \<Rightarrow> hprog" where
  "associate_handler h listened result r =
     (if rq_Command r \<noteq> CmdUDPAssociate then notSupported r
      else case assoc_validate h of
        Some err \<Rightarrow> HRet (Some (EHandshake StageConfig (Some err)))
      | None \<Rightarrow>
          (case listened of
             Inl err \<Rightarrow> HRet (Some err)
           | Inr client \<Rightarrow>
               HReply ReplySucceeded (advertised (ah_Advertise h) r (addrPortOf client))
                 (\<lambda>err. if err \<noteq> None then HRet err else HRet result)))"

section \<open>Runs\<close>

text \<open>The association as its two goroutines run: \<open>up\<close> is split between its verdict and its stores, where \<open>down\<close> may
  come in between; \<open>down\<close> may have loaded \<open>clientPort\<close> before it was locked. Time does not go backwards. Each step
  yields at most one action. \<open>ur_first\<close> is a ghost of the proofs, which no step reads: for every destination, the world
  as it was at the datagram that was first let through to it.\<close>

record urun =
  ur_a :: assoc
  ur_time :: int
  ur_pending :: "(addrport \<times> bytes \<times> addrport) option"
  ur_acts :: "action list"
  ur_first :: "(addrport \<times> world) list"

definition note_first :: "world \<Rightarrow> addrport \<Rightarrow> (addrport \<times> world) list \<Rightarrow> (addrport \<times> world) list" where
  "note_first w dst l = (if map_of l dst = None then (dst, w) # l else l)"

inductive ustep :: "assoc_cfg \<Rightarrow> urun \<Rightarrow> urun \<Rightarrow> bool" for cfg where
  up_drop:
    "ur_pending s = None \<Longrightarrow> ur_time s \<le> wd_now w \<Longrightarrow> up_judge cfg w datagram from1 (ur_a s) = (a1, Inl err)
     \<Longrightarrow> ustep cfg s (s\<lparr>ur_a := a1, ur_time := wd_now w, ur_acts := ur_acts s @ [Dropped from1 err]\<rparr>)"
| up_judged:
    "ur_pending s = None \<Longrightarrow> ur_time s \<le> wd_now w \<Longrightarrow> up_judge cfg w datagram from1 (ur_a s) = (a1, Inr (payload, dst))
     \<Longrightarrow> ustep cfg s (s\<lparr>ur_a := a1, ur_time := wd_now w, ur_pending := Some (from1, payload, dst),
           ur_first := note_first w dst (ur_first s)\<rparr>)"
| up_send:
    "ur_pending s = Some (from1, payload, dst) \<Longrightarrow> ur_time s \<le> wd_now w
     \<Longrightarrow> ustep cfg s (s\<lparr>ur_a := up_send w from1 (ur_a s), ur_time := wd_now w, ur_pending := None,
           ur_acts := ur_acts s @ [ToTarget from1 payload dst]\<rparr>)"
| down:
    "ur_time s \<le> now \<Longrightarrow> port = clientPort (ur_a s) \<or> port = 0 \<Longrightarrow> down cfg now buf port datagram from1 (ur_a s) = (a1, act)
     \<Longrightarrow> ustep cfg s (s\<lparr>ur_a := a1, ur_time := now, ur_acts := ur_acts s @ [act]\<rparr>)"

definition ur_start :: "assoc \<Rightarrow> int \<Rightarrow> urun" where
  "ur_start a now = \<lparr>ur_a = a, ur_time = now, ur_pending = None, ur_acts = [], ur_first = []\<rparr>"

text \<open>An association of the handler \<open>h\<close> for the request \<open>r\<close>, in any state it can get to.\<close>

definition ureachable :: "assoc_handler \<Rightarrow> request \<Rightarrow> urun \<Rightarrow> bool" where
  "ureachable h r s =
     (\<exists>now. (ustep (fst (newAssociation h r now)))\<^sup>*\<^sup>* (ur_start (snd (newAssociation h r now)) now) s)"

section \<open>The memory of an association\<close>

text \<open>A verdict that stays: asking again changes nothing and answers the same.\<close>

definition settled :: "assoc \<Rightarrow> addrport \<Rightarrow> error option \<Rightarrow> bool" where
  "settled a dst err =
     (map_of (targets a) dst = Some err
      \<or> map_of (targets a) dst = None \<and> \<not> ip_IsValid (ap_addr dst) \<and> err = Some (EDenied dst ''invalid''))"

definition memo :: "assoc \<Rightarrow> addr \<Rightarrow> addrport \<Rightarrow> error option \<Rightarrow> int option \<Rightarrow> bool" where
  "memo a ad dst err expires =
     (if IsName ad then
        (\<exists>e. map_of (names a) (Name_of ad) = Some e \<and> expires = Some (ne_exp e)
           \<and> dst = AddrPortFrom (ne_ip e) (Port_of ad)
           \<and> (if ne_err e = None then settled a dst err else err = ne_err e))
      else expires = None \<and> dst = AddrPortFrom (IP_of ad) (Port_of ad) \<and> settled a dst err)"

definition unexpired :: "int \<Rightarrow> int option \<Rightarrow> bool" where
  "unexpired now expires = (case expires of None \<Rightarrow> True | Some e \<Rightarrow> now < e)"

lemma settled_targets: "targets b = targets a \<Longrightarrow> settled b dst err = settled a dst err"
  by (simp add: settled_def)

lemma admit_settled: "settled a dst err \<Longrightarrow> admit cfg w dst a = (a, err)"
  by (auto simp: settled_def admit_def)

lemma judge_memo: "memo a ad dst err expires \<Longrightarrow> unexpired (wd_now w) expires \<Longrightarrow> judge cfg w ad a = (a, dst, expires, err)"
  by (auto simp: memo_def judge_def lookup_name_def unexpired_def admit_settled Let_def split: if_splits option.splits)

lemma map_of_update: "map_of (AList.update k v al) = (map_of al)(k \<mapsto> v)"
  by (simp add: update_conv')

text \<open>What \<open>admit\<close> may do to the maps.\<close>

lemma admit_cases:
  obtains (same) err where "admit cfg w dst a = (a, err)" "settled a dst err \<or> err = Some (ESent ErrTooManyTargets)"
    | (new) err where "admit cfg w dst a = (a\<lparr>targets := AList.update dst err (targets a),
          ips := (if err = None then insert (ap_addr dst) (ips a) else ips a)\<rparr>, err)"
        "map_of (targets a) dst = None" "ip_IsValid (ap_addr dst)" "\<not> full cfg a"
        "err = world_vet (ac_filter cfg) w (ac_req cfg) (udpNetwork (ap_addr dst)) dst"
proof (cases "map_of (targets a) dst")
  case (Some err)
  then show ?thesis using same by (simp add: admit_def settled_def)
next
  case None
  then show ?thesis
    using same new by (cases "ip_IsValid (ap_addr dst)"; cases "full cfg a") (simp_all add: admit_def settled_def Let_def)
qed

lemma settled_update:
  "settled a dst err \<Longrightarrow> map_of (targets a) d = None \<Longrightarrow> ip_IsValid (ap_addr d) \<Longrightarrow>
   settled (a\<lparr>targets := AList.update d x (targets a), ips := y\<rparr>) dst err"
  by (auto simp: settled_def map_of_update)

lemma settled_admit: "settled a dst err \<Longrightarrow> settled (fst (admit cfg w d a)) dst err"
  by (rule admit_cases [of cfg w d a]) (auto simp: settled_update)

lemma admit_settles: "admit cfg w dst a = (a1, err) \<Longrightarrow> err \<noteq> Some (ESent ErrTooManyTargets) \<Longrightarrow> settled a1 dst err"
  by (rule admit_cases [of cfg w dst a]) (auto simp: settled_def map_of_update)

lemma admit_names [simp]: "names (fst (admit cfg w dst a)) = names a" "prevHeader (fst (admit cfg w dst a)) = prevHeader a"
  "clientPort (fst (admit cfg w dst a)) = clientPort a"
  by (auto simp: admit_def Let_def split: option.split)

text \<open>What \<open>lookup\<close> may do.\<close>

lemma lookup_cases:
  obtains (hit) e where "lookup_name cfg w name port a = (a, Inr e)" "map_of (names a) name = Some e" "wd_now w < ne_exp e"
    | (none) "lookup_name cfg w name port a = (a, Inl (ESent ErrTooManyTargets))" "map_of (names a) name = None" "full cfg a"
    | (new) e where "lookup_name cfg w name port a = (a\<lparr>names := AList.update name e (names a)\<rparr>, Inr e)"
        "(ne_ip e, ne_err e) = resolve_name cfg w name port" "ne_exp e = wd_now w + nameTTL"
        "\<And>e0. map_of (names a) name = Some e0 \<Longrightarrow> \<not> wd_now w < ne_exp e0"
        "map_of (names a) name = None \<Longrightarrow> \<not> full cfg a"
proof -
  let ?e = "\<lparr>ne_ip = fst (resolve_name cfg w name port), ne_err = snd (resolve_name cfg w name port), ne_exp = wd_now w + nameTTL\<rparr>"
  have n: "(let (x, err) = resolve_name cfg w name port; e1 = \<lparr>ne_ip = x, ne_err = err, ne_exp = wd_now w + nameTTL\<rparr>
       in (a\<lparr>names := AList.update name e1 (names a)\<rparr>, Inr e1)) = (a\<lparr>names := AList.update name ?e (names a)\<rparr>, Inr ?e)"
    by (simp add: case_prod_beta Let_def)
  show ?thesis
  proof (cases "map_of (names a) name")
    case None
    show ?thesis
    proof (cases "full cfg a")
      case True
      then show ?thesis using none None by (simp add: lookup_name_def)
    next
      case False
      then show ?thesis using new [of ?e] None n by (simp add: lookup_name_def)
    qed
  next
    case (Some e)
    then show ?thesis using hit new [of ?e] n by (cases "wd_now w < ne_exp e") (simp_all add: lookup_name_def)
  qed
qed

lemma memo_mono:
  assumes m: "memo a ad dst err expires"
    and n: "IsName ad \<Longrightarrow> map_of (names b) (Name_of ad) = map_of (names a) (Name_of ad)"
    and t: "\<And>d e. settled a d e \<Longrightarrow> settled b d e"
  shows "memo b ad dst err expires"
proof (cases "IsName ad")
  case True
  then obtain e where "map_of (names a) (Name_of ad) = Some e" "expires = Some (ne_exp e)" "dst = AddrPortFrom (ne_ip e) (Port_of ad)"
      "if ne_err e = None then settled a dst err else err = ne_err e"
    using m by (auto simp: memo_def)
  then show ?thesis
    using True n [OF True] t [of dst err] unfolding memo_def by (auto split: if_splits)
next
  case False
  then show ?thesis using m t unfolding memo_def by auto
qed

lemma memo_admit: "memo a ad dst err expires \<Longrightarrow> memo (fst (admit cfg w d a)) ad dst err expires"
  by (rule memo_mono [where a = a]) (simp_all add: settled_admit)

lemma judge_alt:
  "judge cfg w ad a =
     (if IsName ad then
        (case lookup_name cfg w (Name_of ad) (Port_of ad) a of
           (a1, Inl err) \<Rightarrow> (a1, zeroAddrPort, None, Some err)
         | (a1, Inr e) \<Rightarrow>
             (let dst = AddrPortFrom (ne_ip e) (Port_of ad) in
              if ne_err e \<noteq> None then (a1, dst, Some (ne_exp e), ne_err e)
              else (fst (admit cfg w dst a1), dst, Some (ne_exp e), snd (admit cfg w dst a1))))
      else (let dst = AddrPortFrom (IP_of ad) (Port_of ad) in (fst (admit cfg w dst a), dst, None, snd (admit cfg w dst a))))"
  by (auto simp: judge_def Let_def case_prod_beta split: option.split sum.split prod.split)

text \<open>A judgement is remembered, and later ones do not change it while it is fresh.\<close>

lemma judge_makes_memo:
  assumes "judge cfg w ad a = (a1, dst, expires, err)" and "err \<noteq> Some (ESent ErrTooManyTargets)"
  shows "memo a1 ad dst err expires"
proof (cases "IsName ad")
  case False
  then show ?thesis using assms admit_settles by (auto simp: judge_alt memo_def Let_def)
next
  case True
  show ?thesis
  proof (cases rule: lookup_cases [of cfg w "Name_of ad" "Port_of ad" a])
    case (hit e)
    then show ?thesis using True assms admit_settles [of cfg w "AddrPortFrom (ne_ip e) (Port_of ad)" a]
      by (cases "ne_err e") (auto simp: judge_alt memo_def Let_def)
  next
    case none
    then show ?thesis using True assms by (auto simp: judge_alt)
  next
    case (new e)
    let ?b = "a\<lparr>names := AList.update (Name_of ad) e (names a)\<rparr>"
    show ?thesis using True assms new(1) admit_settles [of cfg w "AddrPortFrom (ne_ip e) (Port_of ad)" ?b]
      by (cases "ne_err e") (auto simp: judge_alt memo_def Let_def map_of_update)
  qed
qed

lemma judge_keeps_memo:
  assumes m: "memo a ad dst err expires" and u: "unexpired (wd_now w) expires"
  shows "memo (fst (judge cfg w ad' a)) ad dst err expires"
proof (cases "IsName ad'")
  case False
  then show ?thesis using memo_admit [OF m] by (simp add: judge_alt Let_def)
next
  case True
  show ?thesis
  proof (cases rule: lookup_cases [of cfg w "Name_of ad'" "Port_of ad'" a])
    case (hit e)
    then show ?thesis using True m memo_admit [OF m] by (auto simp: judge_alt Let_def)
  next
    case none
    then show ?thesis using True m by (auto simp: judge_alt)
  next
    case (new e)
    let ?b = "a\<lparr>names := AList.update (Name_of ad') e (names a)\<rparr>"
    have "map_of (names ?b) (Name_of ad) = map_of (names a) (Name_of ad)" if "IsName ad"
      using m u new(4) that by (auto simp: memo_def unexpired_def map_of_update)
    then have "memo ?b ad dst err expires"
      by (rule memo_mono [OF m]) (simp_all add: settled_def)
    then show ?thesis using True new(1) memo_admit by (auto simp: judge_alt Let_def)
  qed
qed

section \<open>The header cache is transparent\<close>

text \<open>\<open>header\<close> without its one-entry cache.\<close>

definition header_uncached :: "assoc_cfg \<Rightarrow> world \<Rightarrow> bytes \<Rightarrow> assoc \<Rightarrow> assoc \<times> addrport \<times> nat \<times> error option" where
  "header_uncached cfg w p a =
     (case parseClientHeader p of
        Inl err \<Rightarrow> (a, zeroAddrPort, 0, Some err)
      | Inr (ad, hl) \<Rightarrow> (case judge cfg w ad a of (a1, dst, expires, err) \<Rightarrow> (a1, dst, hl, err)))"

text \<open>The cached verdict is the judgement of the header it is for.\<close>

definition prev_ok :: "int \<Rightarrow> assoc \<Rightarrow> bool" where
  "prev_ok now a =
     (let v = prevHeader a in hv_raw v \<noteq> [] \<longrightarrow>
        (\<exists>ad. parseClientHeader (hv_raw v) = Inr (ad, length (hv_raw v))
          \<and> (unexpired now (hv_expires v) \<longrightarrow> memo a ad (hv_dst v) (hv_err v) (hv_expires v))))"

lemma prev_okD:
  assumes "prev_ok now a" and "hv_raw (prevHeader a) \<noteq> []"
  obtains ad where "parseClientHeader (hv_raw (prevHeader a)) = Inr (ad, length (hv_raw (prevHeader a)))"
    "unexpired now (hv_expires (prevHeader a)) \<Longrightarrow>
       memo a ad (hv_dst (prevHeader a)) (hv_err (prevHeader a)) (hv_expires (prevHeader a))"
  using assms by (auto simp: prev_ok_def Let_def)

lemma parseClientHeader_ok: "parseClientHeader p = Inr (ad, hl) \<longleftrightarrow> ParseUDPHeader p = ((0, ad), hl, None)"
  by (auto simp: parseClientHeader_def split: prod.splits option.splits if_splits)

lemma parseClientHeader_prefix: "parseClientHeader q = Inr (ad, length q) \<Longrightarrow> has_prefix p q \<Longrightarrow> parseClientHeader p = Inr (ad, length q)"
  using udp_header.ok_append [of q _ _ "drop (length q) p"] append_take_drop_id [of "length q" p]
  by (fastforce simp: parseClientHeader_ok has_prefix_def)

lemma unexpired_mono: "unexpired t e \<Longrightarrow> s \<le> t \<Longrightarrow> unexpired s e"
  by (auto simp: unexpired_def split: option.splits)

lemma prev_ok_mono: "prev_ok s a \<Longrightarrow> s \<le> t \<Longrightarrow> prev_ok t a"
  using unexpired_mono by (auto simp: prev_ok_def Let_def)

lemma hv_matches_unexpired: "hv_matches now v p = (hv_raw v \<noteq> [] \<and> has_prefix p (hv_raw v) \<and> unexpired now (hv_expires v))"
  by (auto simp: hv_matches_def unexpired_def split: option.split)

lemma header_hit:
  assumes ok: "prev_ok (wd_now w) a" and m: "hv_matches (wd_now w) (prevHeader a) p"
  shows "header_uncached cfg w p a = (a, hv_dst (prevHeader a), length (hv_raw (prevHeader a)), hv_err (prevHeader a))"
proof -
  obtain ad where ad: "parseClientHeader (hv_raw (prevHeader a)) = Inr (ad, length (hv_raw (prevHeader a)))"
    "memo a ad (hv_dst (prevHeader a)) (hv_err (prevHeader a)) (hv_expires (prevHeader a))"
    using prev_okD [OF ok] m by (auto simp: hv_matches_unexpired)
  then show ?thesis
    using parseClientHeader_prefix [OF ad(1)] judge_memo [OF ad(2)] m by (simp add: header_uncached_def hv_matches_unexpired)
qed

lemma header_eq_uncached:
  assumes "prev_ok (wd_now w) a"
  shows "snd (header cfg w p a) = snd (header_uncached cfg w p a)"
    and "fst (header cfg w p a)\<lparr>prevHeader := v\<rparr> = fst (header_uncached cfg w p a)\<lparr>prevHeader := v\<rparr>"
  using header_hit [OF assms, of p cfg]
  by (auto simp: header_def header_uncached_def Let_def split: sum.split prod.split)

end
