(* ===== verification/WireRoundtrip.thy ===== *)
theory WireRoundtrip
  imports WireParse
begin

text \<open>
  Round trips of package \<open>wire\<close>: what every \<open>Append*\<close> writes, its \<open>Parse*\<close> reads back, whatever
  follows on the stream; and what \<open>Parse*\<close> accepts is well formed, so that it can be written again.
\<close>

section \<open>Reading back what was written\<close>

lemma slice_middle:
  "slice (length a) (length a + length b) (a @ b @ c) = b"
  by (simp add: slice_def)

lemma slice_middle':
  "i = length a \<Longrightarrow> j = i + length b \<Longrightarrow> slice i j (a @ b @ c) = b"
  using slice_middle by blast

lemma greeting_roundtrip:
  assumes "AppendGreeting dst ms = (d, None)"
  shows "\<exists>m. d = dst @ m \<and> ParseGreeting acc (m @ x) = (acc @ ms, length m, None)"
proof -
  have "length ms \<noteq> 0" "length ms < 256"
    and d: "d = dst @ [Version5, word_of_nat (length ms)] @ ms"
    using assms by (auto simp: AppendGreeting_def split: if_splits)
  then show ?thesis
    using slice_middle' [of 2 "[Version5, word_of_nat (length ms)]" "2 + length ms" ms x]
    by (intro exI [of _ "[Version5, word_of_nat (length ms)] @ ms"])
      (simp add: ParseGreeting_ok_iff byte_len_eq_0_iff)
qed

lemma userpass_roundtrip:
  assumes "AppendUserPass dst u p = (d, None)"
  shows "\<exists>m. d = dst @ m \<and> ParseUserPass (m @ x) = ((bytes_of u, bytes_of p), length m, None)"
proof -
  define h where "h = [UserPassVersion, word_of_nat (length u)]"
  define k :: byte where "k = word_of_nat (length p)"
  have len: "length u < 256" "length p < 256"
    and d: "d = dst @ h @ bytes_of u @ [k] @ bytes_of p"
    using assms by (auto simp: AppendUserPass_def h_def k_def split: if_splits)
  let ?m = "h @ bytes_of u @ [k] @ bytes_of p"
  have at: "(?m @ x) ! 0 = UserPassVersion" "unat ((?m @ x) ! 1) = length u"
    "unat ((?m @ x) ! (2 + length u)) = length p"
    using len by (simp_all add: h_def k_def nth_append)
  have sl: "slice 2 (2 + length u) (?m @ x) = bytes_of u"
    "slice (2 + length u + 1) (2 + length u + 1 + length p) (?m @ x) = bytes_of p"
    using slice_middle' [of 2 h "2 + length u" "bytes_of u" "[k] @ bytes_of p @ x"]
      slice_middle' [of "2 + length u + 1" "h @ bytes_of u @ [k]" "2 + length u + 1 + length p" "bytes_of p" x]
    by (simp_all add: h_def)
  show ?thesis
    using d at sl by (intro exI [of _ ?m]) (simp add: ParseUserPass_ok_iff Let_def h_def)
qed

lemma addrAt_append_message:
  assumes wf: "addr_wf a" and v: "addr_IsValid a" and h: "length h = 3"
  shows "addrMessageLen (addr_append a h @ x) st z = Inr (3 + wireLen a)
    \<and> addrAt (addr_append a h @ x) (3 + wireLen a) = a"
  using wf
proof (cases a rule: addr_wf_cases)
  case (ip4 w p)
  have m: "addr_append a h @ x = h @ ATYPIPv4 # be_of_word 4 w @ be_of_word 2 p @ x"
    by (simp add: addr_append_def ip4 addr_ATYP_def)
  have "slice 4 8 (addr_append a h @ x) = be_of_word 4 w"
    "slice 8 10 (addr_append a h @ x) = be_of_word 2 p"
    using slice_middle' [of 4 "h @ [ATYPIPv4]" 8 "be_of_word 4 w" "be_of_word 2 p @ x"]
      slice_middle' [of 8 "h @ ATYPIPv4 # be_of_word 4 w" 10 "be_of_word 2 p" x]
    by (simp_all add: m h)
  moreover have "(addr_append a h @ x) ! 3 = ATYPIPv4" using h by (simp add: m nth_append)
  ultimately show ?thesis
    using h ip4 by (simp add: ip4(1) wireLen_def addrMessageLen_Inr addrAt_def AddrFrom4_def atyp_defs)
next
  case (ip6 w p)
  have m: "addr_append a h @ x = h @ ATYPIPv6 # be_of_word 16 w @ be_of_word 2 p @ x"
    by (simp add: addr_append_def ip6 addr_ATYP_def)
  have "slice 4 20 (addr_append a h @ x) = be_of_word 16 w"
    "slice 20 22 (addr_append a h @ x) = be_of_word 2 p"
    using slice_middle' [of 4 "h @ [ATYPIPv6]" 20 "be_of_word 16 w" "be_of_word 2 p @ x"]
      slice_middle' [of 20 "h @ ATYPIPv6 # be_of_word 16 w" 22 "be_of_word 2 p" x]
    by (simp_all add: m h)
  moreover have "(addr_append a h @ x) ! 3 = ATYPIPv6" using h by (simp add: m nth_append)
  ultimately show ?thesis
    using h ip6 by (simp add: ip6(1) wireLen_def addrMessageLen_Inr addrAt_def AddrFrom16_def atyp_defs)
next
  case (name s p)
  define k :: byte where "k = word_of_nat (length s)"
  have m: "addr_append a h @ x = h @ [ATYPDomain, k] @ bytes_of s @ be_of_word 2 p @ x"
    using name by (simp add: addr_append_def addr_ATYP_def k_def)
  have sl: "slice 5 (5 + length s) (addr_append a h @ x) = bytes_of s"
    "slice (5 + length s) (7 + length s) (addr_append a h @ x) = be_of_word 2 p"
    using slice_middle' [of 5 "h @ [ATYPDomain, k]" "5 + length s" "bytes_of s" "be_of_word 2 p @ x"]
      slice_middle' [of "5 + length s" "h @ [ATYPDomain, k] @ bytes_of s" "7 + length s" "be_of_word 2 p" x]
    by (simp_all add: m h)
  have at: "(addr_append a h @ x) ! 3 = ATYPDomain" "(addr_append a h @ x) ! 4 = k"
    using h by (simp_all add: m nth_append)
  have len: "length s < 256" using name by simp
  then have k: "unat k = length s" "k \<noteq> 0"
    using name by (simp_all add: k_def byte_len_eq_0_iff)
  have "5 \<le> length (addr_append a h @ x)" using h by (simp add: m)
  moreover have "3 + wireLen a = 7 + length s" using name by (simp add: wireLen_def)
  ultimately show ?thesis
    using at sl k name by (simp add: addrMessageLen_Inr addrAt_def atyp_defs)
qed (use v in \<open>simp add: addr_IsValid_def\<close>)

lemma parseAddrMessage_append:
  assumes "addr_wf a" and "addr_IsValid a" and "length h = 3"
  shows "parseAddrMessage (addr_append a h @ x) st z = (a, 3 + wireLen a, None)"
  using assms addrAt_append_message [OF assms, of x st z] length_addr_append [of a h]
    wireLen_bounds [of a]
  by (simp add: parseAddrMessage_ok_iff)

lemma appendAddrMessage_okD:
  assumes "appendAddrMessage dst h a = (d, None)"
  shows "addr_IsValid a \<and> d = dst @ addr_append a h"
  using assms by (auto simp: appendAddrMessage_def addr_append_dst split: if_splits)

lemma addr_append_nth:
  "i < length h \<Longrightarrow> (addr_append a h @ x) ! i = h ! i"
  using addr_append_dst [of a h "[]"] by (simp add: nth_append)

lemma request_roundtrip:
  assumes "AppendRequest dst cmd a = (d, None)" and "addr_wf a"
  shows "\<exists>m. d = dst @ m \<and> ParseRequest (m @ x) = ((cmd, a), length m, None)"
proof -
  let ?h = "[Version5, cmd, 0]"
  have "addr_IsValid a" and d: "d = dst @ addr_append a ?h"
    using assms appendAddrMessage_okD by (simp_all add: AppendRequest_def)
  then show ?thesis
    using assms(2) parseAddrMessage_append [of a ?h x StageRequest False] length_addr_append [of a ?h]
      addr_append_nth [of 0 ?h a x] addr_append_nth [of 1 ?h a x]
    by (intro exI [of _ "addr_append a ?h"]) (simp add: ParseRequest_def checkVersion_def)
qed

lemma reply_roundtrip:
  assumes "AppendReply dst rep a = (d, None)" and "addr_wf a"
  shows "\<exists>m. d = dst @ m \<and> ParseReply (m @ x) cmd = ((rep, a), length m, None)"
proof -
  let ?h = "[Version5, rep, 0]"
  have "addr_IsValid a" and d: "d = dst @ addr_append a ?h"
    using assms appendAddrMessage_okD by (simp_all add: AppendReply_def)
  moreover from this have "1 < length (addr_append a ?h @ x)"
    using assms(2) length_addr_append [of a ?h] by simp
  ultimately show ?thesis
    using assms(2) parseAddrMessage_append [of a ?h x StageReply] length_addr_append [of a ?h]
      addr_append_nth [of 0 ?h a x] addr_append_nth [of 1 ?h a x]
    by (intro exI [of _ "addr_append a ?h"]) (simp add: ParseReply_def checkVersion_def)
qed

lemma udp_header_roundtrip:
  assumes "AppendUDPHeader dst frag a = (d, None)" and "addr_wf a"
  shows "\<exists>m. d = dst @ m \<and> length m = UDPHeaderLen a \<and>
    ParseUDPHeader (m @ x) = ((frag, a), length m, None)"
proof -
  let ?h = "[0, 0, frag]"
  have "addr_IsValid a" and d: "d = dst @ addr_append a ?h"
    using assms appendAddrMessage_okD by (simp_all add: AppendUDPHeader_def)
  then show ?thesis
    using assms(2) parseAddrMessage_append [of a ?h x StageUDPHeader False]
      length_addr_append [of a ?h] addr_append_nth [of 2 ?h a x]
    by (intro exI [of _ "addr_append a ?h"]) (simp add: ParseUDPHeader_def UDPHeaderLen_def)
qed

lemma method_selection_roundtrip:
  "\<exists>s. AppendMethodSelection dst m = dst @ s \<and> ParseMethodSelection (s @ x) = (m, length s, None)"
  by (intro exI [of _ "[Version5, m]"])
    (simp add: AppendMethodSelection_def ParseMethodSelection_def checkVersion_def)

lemma userpass_status_roundtrip:
  "\<exists>s. AppendUserPassStatus dst st = dst @ s \<and> ParseUserPassStatus (s @ x) = (st, length s, None)"
  by (intro exI [of _ "[UserPassVersion, st]"])
    (simp add: AppendUserPassStatus_def ParseUserPassStatus_def checkVersion_def)

lemma word_of_be_zero4: "(word_of_be [0, 0, 0, 0] :: 32 word) = 0"
  by (simp add: word_of_be_def)

lemma reply4_roundtrip:
  assumes "AppendReply4 dst rep a = (d, None)" and "addr_wf a"
  shows "\<exists>m. d = dst @ m \<and> length m = 8 \<and> (\<exists>b. ParseReply4 (m @ x) = ((rep, b), 8, None) \<and>
    Port_of b = Port_of a \<and> IP_of b = (if ip_IsValid (IP_of a) then IP_of a else IP4 0))"
proof -
  define b4 where "b4 = (if Is4 (IP_of a) then As4 (IP_of a) else [0, 0, 0, 0])"
  define m where "m = [0, rep] @ be_of_word 2 (Port_of a) @ b4"
  have d: "d = dst @ m" and n: "Name_of a = []" "\<not> Is6 (IP_of a)"
    using assms by (auto simp: AppendReply4_def m_def b4_def split: if_splits)
  have b4: "length b4 = 4" by (auto simp: b4_def dest: Is4D)
  have sl: "slice 4 8 (m @ x) = b4" "slice 2 4 (m @ x) = be_of_word 2 (Port_of a)"
    using slice_middle' [of 4 "[0, rep] @ be_of_word 2 (Port_of a)" 8 b4 x]
      slice_middle' [of 2 "[0, rep]" 4 "be_of_word 2 (Port_of a)" "b4 @ x"] b4
    by (simp_all add: m_def)
  have "AddrFrom4 b4 = (if ip_IsValid (IP_of a) then IP_of a else IP4 0)"
    using n word_of_be_zero4 by (cases "IP_of a") (simp_all add: b4_def AddrFrom4_def)
  moreover have "length m = 8" by (simp add: m_def b4)
  moreover have "(m @ x) ! 0 = 0" "(m @ x) ! 1 = rep" by (simp_all add: m_def)
  ultimately show ?thesis
    using sl d by (intro exI [of _ m]) (simp add: ParseReply4_def checkVersion_def reply4Len_def Let_def)
qed

lemma index0_bytes_of:
  "char_of_byte 0 \<notin> set u \<Longrightarrow> index0 (bytes_of u @ 0 # y) = Some (length u)"
proof (induction u)
  case (Cons c u)
  have "byte_of_char c \<noteq> 0"
    using Cons.prems by (metis char_of_byte_of_char list.set_intros(1))
  moreover have "index0 (bytes_of u @ 0 # y) = Some (length u)" using Cons by simp
  ultimately show ?case by (simp add: index0_def bytes_of_def split: if_splits)
qed (simp add: index0_def)

lemma cstring_roundtrip:
  assumes "char_of_byte 0 \<notin> set u" and "length u \<le> 255" and "ml \<le> length u"
    and "b = h @ bytes_of u @ 0 # y" and "s = length h"
  shows "cstring b s f ml af = (bytes_of u, s + length u + 1, None)"
proof -
  have "slice s (s + length u) b = bytes_of u"
    using slice_middle' [of s h "s + length u" "bytes_of u" "0 # y"] assms by simp
  moreover have "drop s b = bytes_of u @ 0 # y" using assms by simp
  ultimately show ?thesis using assms index0_bytes_of [of u y] by (simp add: cstring_ok_iff)
qed

lemma request4_roundtrip:
  assumes "AppendRequest4 dst cmd a u = (d, None)" and wf: "addr_wf a"
  shows "\<exists>m. d = dst @ m \<and> ParseRequest4 (m @ x) = ((cmd, a, bytes_of u), length m, None)"
proof -
  define ip where "ip = (if Is4 (IP_of a) then As4 (IP_of a) else [0, 0, 0, 1 :: byte])"
  define h where "h = [Version4, cmd] @ be_of_word 2 (Port_of a) @ ip"
  define nm where "nm = (if Name_of a \<noteq> [] then bytes_of (Name_of a) @ [0] else [])"
  have c: "checkRequest4 a u = None" and d: "d = dst @ h @ bytes_of u @ [0] @ nm"
    using assms(1)
    by (auto simp: AppendRequest4_def Let_def h_def ip_def nm_def split: option.splits if_splits)
  have u: "length u \<le> 255" "char_of_byte 0 \<notin> set u" "char_of_byte 0 \<notin> set (Name_of a)"
    and a: "addr_IsValid a" "\<not> Is6 (IP_of a)"
    using c by (auto simp: checkRequest4_def split: if_splits)
  have ip: "length ip = 4" by (auto simp: ip_def dest: Is4D)
  then have h: "length h = 8" by (simp add: h_def)
  define m where "m = h @ bytes_of u @ [0] @ nm"
  have sl: "slice 4 8 (m @ x) = ip" "slice 2 4 (m @ x) = be_of_word 2 (Port_of a)"
    using slice_middle' [of 4 "[Version4, cmd] @ be_of_word 2 (Port_of a)" 8 ip]
      slice_middle' [of 2 "[Version4, cmd]" 4 "be_of_word 2 (Port_of a)"] ip
    by (simp_all add: m_def h_def)
  have at: "(m @ x) ! 0 = Version4" "(m @ x) ! 1 = cmd" "(m @ x) ! 7 = ip ! 3"
    using h ip by (simp_all add: m_def h_def nth_append nth_Cons')
  have user: "cstring (m @ x) 8 FieldUSERID 0 af = (bytes_of u, 8 + length u + 1, None)" for af
    using cstring_roundtrip [OF u(2,1), of 0 "m @ x" h "nm @ x" 8] h by (simp add: m_def)
  have len: "8 \<le> length (m @ x)" using h by (simp add: m_def)
  show ?thesis
  proof (cases "Name_of a = []")
    case True
    obtain w p where aw: "a = ipAddr (IP4 w) p"
      by (rule addr_wf_cases [OF wf]) (use a True in auto)
    have "\<not> isSOCKS4aIP ip" using c aw by (auto simp: checkRequest4_def ip_def split: if_splits)
    then have "\<not> is4a (m @ x)" by (simp add: is4a_def sl)
    then show ?thesis
      using d at sl user len True aw h
      by (intro exI [of _ m]) (simp add: ParseRequest4_ok_iff m_def ip_def nm_def AddrFrom4_def)
  next
    case False
    then obtain s p where sp: "a = nameAddrOf s p" "length s \<le> 255"
      by (rule_tac addr_wf_cases [OF wf]) auto
    then have ip1: "ip = [0, 0, 0, 1]" and nm: "nm = bytes_of (Name_of a) @ [0]"
      and an: "nameAddrOf (Name_of a) (Port_of a) = a" and n: "length (Name_of a) \<le> 255"
      using False by (simp_all add: ip_def nm_def)
    then have "is4a (m @ x)" by (simp add: is4a_def sl at isSOCKS4aIP_def)
    moreover have "cstring (m @ x) (8 + length u + 1) FieldADDR 1 0
        = (bytes_of (Name_of a), 8 + length u + 1 + length (Name_of a) + 1, None)"
      using cstring_roundtrip [OF u(3) n, of 1 "m @ x" "h @ bytes_of u @ [0]" x] h False nm
      by (simp add: m_def Suc_le_eq)
    moreover have "length m = 8 + length u + 1 + length (Name_of a) + 1"
      using h nm by (simp add: m_def)
    ultimately show ?thesis
      using d at sl user len an by (intro exI [of _ m]) (simp add: ParseRequest4_ok_iff m_def)
  qed
qed

section \<open>What a parser accepts is well formed\<close>

lemma slice_Nil_iff: "slice i j xs = [] \<longleftrightarrow> j \<le> i \<or> length xs \<le> i"
  by (auto simp: slice_def)

lemma addrAt_wf:
  assumes "addrMessageLen b st z = Inr n" and "n \<le> length b"
  shows "addr_wf (addrAt b n) \<and> (b ! 3 \<noteq> 0 \<longrightarrow> addr_IsValid (addrAt b n))"
  using assms byte_lt_256 [of "b ! 4"]
  by (auto simp: addrMessageLen_Inr addrAt_def Let_def atyp_defs AddrFrom4_def AddrFrom16_def
      slice_Nil_iff unat_eq_zero)

lemma parseAddrMessage_wf:
  assumes "parseAddrMessage b st False = (a, n, None)"
  shows "addr_wf a \<and> addr_IsValid a"
  using assms addrAt_wf [of b st False n]
  by (auto simp: parseAddrMessage_ok_iff addrMessageLen_Inr atyp_defs)

lemma ParseRequest_wf: "ParseRequest b = ((cmd, a), n, None) \<Longrightarrow> addr_wf a \<and> addr_IsValid a"
  using parseAddrMessage_wf [of b] by (auto simp: ParseRequest_def split: option.splits prod.splits)

lemma ParseUDPHeader_wf: "ParseUDPHeader b = ((f, a), n, None) \<Longrightarrow> addr_wf a \<and> addr_IsValid a"
  using parseAddrMessage_wf [of b] by (auto simp: ParseUDPHeader_def split: option.splits prod.splits)

lemma ParseReply_wf: "ParseReply b cmd = ((rep, a), n, None) \<Longrightarrow> addr_wf a"
  using addrAt_wf [of b]
  by (auto simp: ParseReply_def Let_def parseAddrMessage_ok_iff split: option.splits prod.splits)

lemma cstring_wf:
  assumes "cstring b s f ml af = (v, k, None)"
  shows "length v \<le> 255 \<and> ml \<le> length v \<and> 0 \<notin> set v"
proof -
  obtain i where i: "index0 (drop s b) = Some i" "i \<le> 255" "ml \<le> i" "v = slice s (s + i) b"
    using assms by (auto simp: cstring_ok_iff)
  then have "v = takeWhile (\<lambda>x. x \<noteq> 0) (drop s b)"
    by (auto simp: index0_def slice_def takeWhile_eq_take [symmetric] split: if_splits)
  moreover have "length v = i" using index0_length [OF i(1)] i by simp
  ultimately show ?thesis using i by (auto dest: set_takeWhileD)
qed

lemma ParseRequest4_wf:
  assumes "ParseRequest4 b = ((cmd, a, u), n, None)"
  shows "addr_wf a \<and> addr_IsValid a \<and> \<not> Is6 (IP_of a) \<and> length u \<le> 255 \<and> 0 \<notin> set u"
  using assms
  by (auto simp: ParseRequest4_ok_iff AddrFrom4_def split: if_splits dest!: cstring_wf)

end
