(* ===== verification/ServerUDPSafety.thy ===== *)
theory ServerUDPSafety
  imports ServerUDP WireRoundtrip
begin

text \<open>
  The UDP association as it runs: the invariant of its reachable states, and what it gives: the header cache
  answers as a fresh judgement, the memory is bounded, datagrams only go to vetted targets, come from one
  client source, and get back to that client only from targets it sent to.
\<close>

section \<open>What a judgement may do to the association\<close>

definition vetted :: "assoc_cfg \<Rightarrow> world \<Rightarrow> addrport \<Rightarrow> error option" where
  "vetted cfg w d = world_vet (ac_filter cfg) w (ac_req cfg) (udpNetwork (ap_addr d)) d"

definition used :: "assoc \<Rightarrow> nat" where
  "used a = length (targets a) + length (names a)"

text \<open>\<open>fit\<close> is the destination that may be new among the permitted ones.\<close>

definition grown :: "assoc_cfg \<Rightarrow> world \<Rightarrow> addrport option \<Rightarrow> assoc \<Rightarrow> assoc \<Rightarrow> bool" where
  "grown cfg w fit a b \<longleftrightarrow>
     (\<forall>d e. map_of (targets a) d = Some e \<longrightarrow> map_of (targets b) d = Some e)
   \<and> (\<forall>d. map_of (targets b) d = Some None \<longrightarrow>
        map_of (targets a) d = Some None \<or> (Some d = fit \<and> ip_IsValid (ap_addr d) \<and> vetted cfg w d = None))
   \<and> ips a \<subseteq> ips b \<and> ips b \<subseteq> ips a \<union> {ap_addr d |d. map_of (targets b) d = Some None}
   \<and> int (used b) \<le> max (int (used a)) (ac_maxTargets cfg)
   \<and> clientPort b = clientPort a \<and> lastMove b = lastMove a"

lemma grown_refl [simp]: "grown cfg w fit a a"
  by (simp add: grown_def)

lemma grownD:
  assumes "grown cfg w fit a b"
  shows "map_of (targets a) d = Some e \<Longrightarrow> map_of (targets b) d = Some e"
    and "map_of (targets b) d = Some None \<Longrightarrow>
      map_of (targets a) d = Some None \<or> (Some d = fit \<and> ip_IsValid (ap_addr d) \<and> vetted cfg w d = None)"
    and "ips a \<subseteq> ips b" and "ips b \<subseteq> ips a \<union> {ap_addr d |d. map_of (targets b) d = Some None}"
    and "int (used b) \<le> max (int (used a)) (ac_maxTargets cfg)"
    and "clientPort b = clientPort a" and "lastMove b = lastMove a"
proof -
  note g = assms [unfolded grown_def]
  show "map_of (targets a) d = Some e \<Longrightarrow> map_of (targets b) d = Some e" using g [THEN conjunct1] by iprover
  show "map_of (targets b) d = Some None \<Longrightarrow>
      map_of (targets a) d = Some None \<or> (Some d = fit \<and> ip_IsValid (ap_addr d) \<and> vetted cfg w d = None)"
    using g [THEN conjunct2, THEN conjunct1] by iprover
  show "ips a \<subseteq> ips b" and "ips b \<subseteq> ips a \<union> {ap_addr d |d. map_of (targets b) d = Some None}"
    and "int (used b) \<le> max (int (used a)) (ac_maxTargets cfg)"
    and "clientPort b = clientPort a" and "lastMove b = lastMove a"
    using g [THEN conjunct2, THEN conjunct2] by iprover+
qed

lemma grown_trans:
  assumes ab: "grown cfg w None a b" and bc: "grown cfg w fit b c"
  shows "grown cfg w fit a c"
  unfolding grown_def
proof (intro conjI allI impI)
  show "map_of (targets c) d = Some e" if "map_of (targets a) d = Some e" for d e
    using that grownD(1) [OF ab] grownD(1) [OF bc] by iprover
  show "map_of (targets a) d = Some None \<or> (Some d = fit \<and> ip_IsValid (ap_addr d) \<and> vetted cfg w d = None)"
    if "map_of (targets c) d = Some None" for d
    using grownD(2) [OF bc that] grownD(2) [OF ab, of d] by auto
  show "ips a \<subseteq> ips c" using grownD(3) [OF ab] grownD(3) [OF bc] by (rule subset_trans)
  have "{ap_addr d |d. map_of (targets b) d = Some None} \<subseteq> {ap_addr d |d. map_of (targets c) d = Some None}"
    using grownD(1) [OF bc] by auto
  then show "ips c \<subseteq> ips a \<union> {ap_addr d |d. map_of (targets c) d = Some None}"
    using grownD(4) [OF ab] grownD(4) [OF bc] by blast
  show "int (used c) \<le> max (int (used a)) (ac_maxTargets cfg)"
    using grownD(5) [OF ab] grownD(5) [OF bc] by linarith
  show "clientPort c = clientPort a" using grownD(6) [OF ab] grownD(6) [OF bc] by simp
  show "lastMove c = lastMove a" using grownD(7) [OF ab] grownD(7) [OF bc] by simp
qed

lemma full_used: "full cfg a = (int (used a) \<ge> ac_maxTargets cfg)"
  by (simp add: full_def used_def)

lemma used_update: "length (AList.update k v xs) \<le> Suc (length xs)"
  by (induction xs) auto

lemma length_update_known: "map_of xs k \<noteq> None \<Longrightarrow> length (AList.update k v xs) = length xs"
  by (induction xs) (auto split: if_splits)

lemma admit_grown:
  assumes "admit cfg w dst a = (b, err)"
  shows "grown cfg w (if err = None then Some dst else None) a b"
proof (cases rule: admit_cases [of cfg w dst a])
  case (same e)
  then show ?thesis using assms by simp
next
  case (new e)
  then have b: "b = a\<lparr>targets := AList.update dst e (targets a), ips := (if e = None then insert (ap_addr dst) (ips a) else ips a)\<rparr>"
    and e: "err = e" using assms by simp_all
  show ?thesis
    using new(2-5) used_update [of dst e "targets a"]
    by (auto simp: b e grown_def map_of_update vetted_def full_used used_def)
qed

lemma admit_grown_fst: "grown cfg w (if snd (admit cfg w d a) = None then Some d else None) a (fst (admit cfg w d a))"
  by (rule admit_grown) simp

lemma lookup_grown:
  assumes "lookup_name cfg w name port a = (b, r)"
  shows "grown cfg w fit a b"
proof (cases rule: lookup_cases [of cfg w name port a])
  case (new e)
  then have b: "b = a\<lparr>names := AList.update name e (names a)\<rparr>" using assms by simp
  have "int (used b) \<le> max (int (used a)) (ac_maxTargets cfg)"
    using new(5) used_update [of name e "names a"] length_update_known [of "names a" name e]
    by (cases "map_of (names a) name") (auto simp: b full_used used_def)
  then show ?thesis by (simp add: grown_def b)
qed (use assms in simp_all)

lemma judge_grown:
  assumes j: "judge cfg w ad a = (b, dst, expires, err)"
  shows "grown cfg w (if err = None then Some dst else None) a b"
proof (cases "IsName ad")
  case False
  let ?d = "AddrPortFrom (IP_of ad) (Port_of ad)"
  show ?thesis using j False admit_grown_fst [of cfg w ?d a] by (auto simp: judge_alt Let_def)
next
  case True
  obtain a1 r where l: "lookup_name cfg w (Name_of ad) (Port_of ad) a = (a1, r)" by fastforce
  have g: "grown cfg w fit a a1" for fit using lookup_grown [OF l] .
  show ?thesis
  proof (cases r)
    case (Inl e)
    then show ?thesis using j True l g by (auto simp: judge_alt)
  next
    case (Inr e)
    let ?d = "AddrPortFrom (ne_ip e) (Port_of ad)"
    show ?thesis
    proof (cases "ne_err e")
      case None
      then show ?thesis
        using j True l Inr grown_trans [OF g admit_grown_fst [of cfg w ?d a1]] by (auto simp: judge_alt Let_def)
    qed (use j True l Inr g in \<open>auto simp: judge_alt Let_def\<close>)
  qed
qed

lemma grown_prev: "grown cfg w fit a (b\<lparr>prevHeader := v\<rparr>) = grown cfg w fit a b"
  by (simp add: grown_def used_def)

lemma header_grown:
  assumes h: "header cfg w p a = (b, dst, hl, err)"
  shows "grown cfg w (if err = None then Some dst else None) a b"
  using h judge_grown
  by (fastforce simp: header_def Let_def grown_prev split: if_splits sum.splits prod.splits)

section \<open>Names are plain addresses\<close>

definition names_plain :: "assoc \<Rightarrow> bool" where
  "names_plain a \<longleftrightarrow> (\<forall>n e. map_of (names a) n = Some e \<longrightarrow> plain_ip (ne_ip e))"

lemma resolve_name_plain: "plain_ip (fst (resolve_name cfg w name port))"
proof -
  let ?l = "lookupAllowed (ac_filter cfg) (wd_lookup w name) (Some (ac_req cfg)) port udpNetwork [] 1"
  let ?xs = "allowed_of (ac_filter cfg) (Some (ac_req cfg)) port udpNetwork (fst (wd_lookup w name))"
  have s: "set (fst ?l) \<subseteq> set ?xs" by (simp add: fst_lookupAllowed set_take_subset)
  have "\<forall>x \<in> set ?xs. plain_ip x" by (auto simp: allowed_of_def)
  then have "plain_ip (hd (fst ?l))" if "fst ?l \<noteq> []" using s hd_in_set [OF that] by blast
  then show ?thesis by (auto simp: resolve_name_def case_prod_beta)
qed

lemma judge_plain:
  assumes n: "names_plain a" and wf: "plain_ip (IP_of ad)" and j: "judge cfg w ad a = (b, dst, expires, err)"
  shows "names_plain b \<and> plain_ip (ap_addr dst)"
proof -
  have l: "names_plain (fst (lookup_name cfg w x p a)) \<and>
      (\<forall>e. snd (lookup_name cfg w x p a) = Inr e \<longrightarrow> plain_ip (ne_ip e))" for x p
  proof (cases rule: lookup_cases [of cfg w x p a])
    case (new e)
    then have "plain_ip (ne_ip e)" using resolve_name_plain [of cfg w x p] by (metis fst_conv)
    then show ?thesis using n new(1) by (auto simp: names_plain_def map_of_update)
  qed (use n in \<open>auto simp: names_plain_def\<close>)
  have "names_plain (fst (admit cfg w d c)) = names_plain c" for d c by (simp add: names_plain_def)
  then show ?thesis
    using n wf j l [of "Name_of ad" "Port_of ad"]
    by (auto simp: judge_alt Let_def case_prod_beta zeroAddrPort_def split: if_splits sum.splits)
qed

section \<open>What the header gives\<close>

lemma judge_prev: "judge cfg w ad a = (b, r) \<Longrightarrow> prevHeader b = prevHeader a"
proof -
  have l: "prevHeader (fst (lookup_name cfg w x p a)) = prevHeader a" for x p
    by (rule lookup_cases [of cfg w x p a]) simp_all
  show "prevHeader b = prevHeader a" if "judge cfg w ad a = (b, r)"
    using that l [of "Name_of ad" "Port_of ad"] by (auto simp: judge_alt Let_def case_prod_beta split: if_splits sum.splits)
qed

text \<open>The three ways through \<open>header\<close>.\<close>

lemma header_cases:
  obtains (hit) "hv_matches (wd_now w) (prevHeader a) p"
      "header cfg w p a = (a, hv_dst (prevHeader a), length (hv_raw (prevHeader a)), hv_err (prevHeader a))"
    | (bad) e where "parseClientHeader p = Inl e" "header cfg w p a = (a, zeroAddrPort, 0, Some e)"
    | (judged) ad hl b dst exp1 err where "parseClientHeader p = Inr (ad, hl)" "judge cfg w ad a = (b, dst, exp1, err)"
        "header cfg w p a =
           ((if err = Some (ESent ErrTooManyTargets) then b
             else b\<lparr>prevHeader := \<lparr>hv_raw = take hl p, hv_dst = dst, hv_err = err, hv_expires = exp1\<rparr>\<rparr>), dst, hl, err)"
proof (cases "hv_matches (wd_now w) (prevHeader a) p")
  case True
  then show ?thesis using hit by (simp add: header_def Let_def)
next
  case False
  show ?thesis
  proof (cases "parseClientHeader p")
    case (Inl e)
    then show ?thesis using bad False by (simp add: header_def Let_def)
  next
    case (Inr q)
    obtain ad hl where q: "q = (ad, hl)" by fastforce
    obtain b dst exp1 err where j: "judge cfg w ad a = (b, dst, exp1, err)" by (metis prod_cases4)
    show ?thesis using judged [OF _ j] False Inr q j by (simp add: header_def Let_def)
  qed
qed

lemma memo_prev [simp]: "memo (b\<lparr>prevHeader := v\<rparr>) = memo b"
  by (intro ext) (simp add: memo_def settled_def)

lemma prev_ok_judged:
  assumes "prev_ok (wd_now w) a" and j: "judge cfg w ad a = (b, dst, expires, err)"
  shows "prev_ok (wd_now w) b"
  using assms(1) judge_prev [OF j] judge_keeps_memo [of a _ _ _ _ w cfg ad] j by (fastforce simp: prev_ok_def Let_def)

lemma prev_ok_stored:
  assumes h: "parseClientHeader p = Inr (ad, hl)" and m: "memo b ad dst err expires"
  shows "prev_ok now (b\<lparr>prevHeader := \<lparr>hv_raw = take hl p, hv_dst = dst, hv_err = err, hv_expires = expires\<rparr>\<rparr>)"
proof -
  have "ParseUDPHeader p = ((0, ad), hl, None)" using h by (simp add: parseClientHeader_ok)
  then have "hl \<le> length p" "ParseUDPHeader (take hl p) = ((0, ad), hl, None)"
    using udp_header.ok_len udp_header.ok_prefix [of p _ hl "[]"] by (blast, fastforce)
  then show ?thesis using m by (simp add: prev_ok_def Let_def parseClientHeader_ok)
qed

lemma header_prev_ok:
  assumes ok: "prev_ok (wd_now w) a" and h: "header cfg w p a = (b, r)"
  shows "prev_ok (wd_now w) b"
proof (cases rule: header_cases [of w a p cfg])
  case (judged ad hl c dst exp1 err)
  show ?thesis
  proof (cases "err = Some (ESent ErrTooManyTargets)")
    case True
    then show ?thesis using judged(3) h prev_ok_judged [OF ok judged(2)] by simp
  next
    case False
    then show ?thesis using judged(3) h prev_ok_stored [OF judged(1) judge_makes_memo [OF judged(2) False]] by simp
  qed
qed (use ok h in simp_all)

lemma parseClientHeader_plain: "parseClientHeader p = Inr (ad, hl) \<Longrightarrow> plain_ip (IP_of ad)"
  using ParseUDPHeader_wf [of p 0 ad hl] by (simp add: parseClientHeader_ok addr_wf_def)

lemma memo_fit: "memo a ad dst None expires \<Longrightarrow> map_of (targets a) dst = Some None"
  by (auto simp: memo_def settled_def split: if_splits)

text \<open>A header that passes has its destination among the permitted targets.\<close>

lemma header_fit:
  assumes ok: "prev_ok (wd_now w) a" and h: "header cfg w p a = (b, dst, hl, None)"
  shows "map_of (targets b) dst = Some None"
proof (cases rule: header_cases [of w a p cfg])
  case hit
  obtain ad where "memo a ad (hv_dst (prevHeader a)) (hv_err (prevHeader a)) (hv_expires (prevHeader a))"
    using prev_okD [OF ok] hit(1) by (auto simp: hv_matches_unexpired)
  then show ?thesis using hit(2) h memo_fit by simp
next
  case (judged ad k c d exp1 err)
  then have "memo c ad dst None exp1" using h judge_makes_memo [OF judged(2)] by simp
  then show ?thesis using judged(3) h memo_fit by simp
qed (use h in simp_all)

lemma header_plain:
  assumes n: "names_plain a" and t: "\<And>d. map_of (targets a) d = Some None \<Longrightarrow> plain_ip (ap_addr d)"
    and ok: "prev_ok (wd_now w) a" and h: "header cfg w p a = (b, dst, hl, err)"
  shows "names_plain b \<and> (err = None \<longrightarrow> plain_ip (ap_addr dst))"
proof (cases rule: header_cases [of w a p cfg])
  case hit
  then show ?thesis using h n t header_fit [OF ok] by auto
next
  case (judged ad k c d exp1 e)
  then show ?thesis
    using h judge_plain [OF n parseClientHeader_plain [OF judged(1)] judged(2)] by (auto simp: names_plain_def split: if_splits)
qed (use n h in simp_all)

section \<open>The invariant\<close>

text \<open>The client asked for \<open>d\<close>: a datagram of its went there, or is about to.\<close>

definition asked :: "urun \<Rightarrow> addrport \<Rightarrow> bool" where
  "asked s d = ((\<exists>f p. ur_pending s = Some (f, p, d)) \<or> (\<exists>f p. ToTarget f p d \<in> set (ur_acts s)))"

definition fromClient :: "assoc_cfg \<Rightarrow> assoc \<Rightarrow> addrport \<Rightarrow> bool" where
  "fromClient cfg a f = (ap_addr f = ac_clientIP cfg \<and> (clientPort a = 0 \<or> ap_port f = clientPort a))"

fun act_ok :: "assoc_cfg \<Rightarrow> assoc \<Rightarrow> action \<Rightarrow> bool" where
  "act_ok cfg a (Dropped f e) = True"
| "act_ok cfg a (ToTarget f p d) =
     (map_of (targets a) d = Some None \<and> ap_addr f = ac_clientIP cfg \<and> (ap_port f = 0 \<or> ap_port f = clientPort a))"
| "act_ok cfg a (ToClient f p d) = (d = AddrPortFrom (ac_clientIP cfg) (clientPort a) \<and> clientPort a \<noteq> 0 \<and> solicited cfg f a)"

text \<open>\<open>d\<close> passed the check in the world in which it was first let through.\<close>

definition first_vetted :: "assoc_cfg \<Rightarrow> urun \<Rightarrow> addrport \<Rightarrow> bool" where
  "first_vetted cfg s d = (\<exists>w. map_of (ur_first s) d = Some w \<and> vetted cfg w d = None)"

definition targets_ok :: "assoc_cfg \<Rightarrow> urun \<Rightarrow> bool" where
  "targets_ok cfg s =
     ((\<forall>d. map_of (targets (ur_a s)) d = Some None \<longrightarrow>
        plain_ip (ap_addr d) \<and> ip_IsValid (ap_addr d) \<and> first_vetted cfg s d \<and> asked s d)
      \<and> (\<forall>d. map_of (ur_first s) d \<noteq> None \<longrightarrow> map_of (targets (ur_a s)) d = Some None))"

definition pending_ok :: "assoc_cfg \<Rightarrow> urun \<Rightarrow> bool" where
  "pending_ok cfg s =
     (\<forall>f p d. ur_pending s = Some (f, p, d) \<longrightarrow> map_of (targets (ur_a s)) d = Some None \<and> fromClient cfg (ur_a s) f)"

definition uinv :: "assoc_cfg \<Rightarrow> urun \<Rightarrow> bool" where
  "uinv cfg s \<longleftrightarrow>
     prev_ok (ur_time s) (ur_a s) \<and> names_plain (ur_a s) \<and> targets_ok cfg s \<and> pending_ok cfg s
   \<and> ips (ur_a s) \<subseteq> {ap_addr d |d. map_of (targets (ur_a s)) d = Some None}
   \<and> int (used (ur_a s)) \<le> max 0 (ac_maxTargets cfg)
   \<and> list_all (act_ok cfg (ur_a s)) (ur_acts s)"

lemma uinvI:
  assumes "prev_ok (ur_time s) (ur_a s)" "names_plain (ur_a s)" "targets_ok cfg s" "pending_ok cfg s"
    "ips (ur_a s) \<subseteq> {ap_addr d |d. map_of (targets (ur_a s)) d = Some None}"
    "int (used (ur_a s)) \<le> max 0 (ac_maxTargets cfg)" "list_all (act_ok cfg (ur_a s)) (ur_acts s)"
  shows "uinv cfg s"
  using assms unfolding uinv_def by iprover

lemma uinvD:
  assumes "uinv cfg s"
  shows "prev_ok (ur_time s) (ur_a s)" "names_plain (ur_a s)" "targets_ok cfg s" "pending_ok cfg s"
    "ips (ur_a s) \<subseteq> {ap_addr d |d. map_of (targets (ur_a s)) d = Some None}"
    "int (used (ur_a s)) \<le> max 0 (ac_maxTargets cfg)" "list_all (act_ok cfg (ur_a s)) (ur_acts s)"
  using assms unfolding uinv_def by iprover+

lemma targets_okD:
  assumes "targets_ok cfg s" and "map_of (targets (ur_a s)) d = Some None"
  shows "plain_ip (ap_addr d)" and "ip_IsValid (ap_addr d)" and "first_vetted cfg s d" and "asked s d"
  using assms unfolding targets_ok_def by iprover+

lemma targets_ok_first:
  "targets_ok cfg s \<Longrightarrow> map_of (ur_first s) d \<noteq> None \<Longrightarrow> map_of (targets (ur_a s)) d = Some None"
  unfolding targets_ok_def by iprover

lemma map_of_note_first:
  "map_of (note_first w dst l) d = (if d = dst \<and> map_of l d = None then Some w else map_of l d)"
  by (auto simp: note_first_def)

lemma solicited_grown: "grown cfg w fit a b \<Longrightarrow> solicited cfg f a \<Longrightarrow> solicited cfg f b"
  using grownD(1, 3) [of cfg w fit a b] by (auto simp: solicited_def split: filtering.splits)

lemma act_ok_grown: "grown cfg w fit a b \<Longrightarrow> act_ok cfg a act \<Longrightarrow> act_ok cfg b act"
  using grownD(1, 6) [of cfg w fit a b] solicited_grown [of cfg w fit a b] by (cases act) auto

lemma names_plain_upd [simp]:
  "names_plain (a\<lparr>clientPort := x\<rparr>) = names_plain a" "names_plain (a\<lparr>lastMove := t\<rparr>) = names_plain a"
  by (simp_all add: names_plain_def)

lemma memo_upd [simp]: "memo (a\<lparr>clientPort := x\<rparr>) = memo a" "memo (a\<lparr>lastMove := t\<rparr>) = memo a"
  by (intro ext, simp add: memo_def settled_def)+

lemma prev_ok_upd [simp]: "prev_ok now (a\<lparr>clientPort := x\<rparr>) = prev_ok now a" "prev_ok now (a\<lparr>lastMove := t\<rparr>) = prev_ok now a"
  by (simp_all add: prev_ok_def)

lemma up_judge_cases:
  assumes "up_judge cfg w datagram from1 a = (b, r)"
  obtains (refused) e where "b = a" "r = Inl e"
    | (denied) dst hl e where "header cfg w (take (ac_maxDatagram cfg) datagram) a = (b, dst, hl, Some e)" "r = Inl e"
        "fromClient cfg a from1"
    | (passed) dst hl where "header cfg w (take (ac_maxDatagram cfg) datagram) a = (b, dst, hl, None)"
        "r = Inr (drop hl (take (ac_maxDatagram cfg) datagram), dst)" "fromClient cfg a from1"
  using assms unfolding up_judge_def Let_def fromClient_def
  by (auto split: if_splits prod.splits option.splits)

text \<open>A judged header keeps the invariant; the destination it lets pass has to be asked for by the new state.\<close>

lemma header_inv:
  assumes i: "uinv cfg s" and t: "ur_time s \<le> wd_now w"
    and h: "header cfg w p (ur_a s) = (b, dst, hl, err)"
    and s': "ur_a s' = b" "ur_time s' = wd_now w" "\<And>d. asked s d \<Longrightarrow> asked s' d" "err = None \<Longrightarrow> asked s' dst"
    and fst1: "ur_first s' = (if err = None then note_first w dst (ur_first s) else ur_first s)"
    and acts: "list_all (act_ok cfg b) (ur_acts s')" and pend: "pending_ok cfg s'"
  shows "uinv cfg s'"
proof (rule uinvI)
  note ok = prev_ok_mono [OF uinvD(1) [OF i] t] and tg = targets_okD [OF uinvD(3) [OF i]]
  have g: "grown cfg w (if err = None then Some dst else None) (ur_a s) b" using header_grown [OF h] .
  have pl: "names_plain b" "err = None \<Longrightarrow> plain_ip (ap_addr dst)"
    using header_plain [OF uinvD(2) [OF i] tg(1) ok h] by simp_all
  show "prev_ok (ur_time s') (ur_a s')" using header_prev_ok [OF ok h] by (simp add: s')
  show "names_plain (ur_a s')" using pl by (simp add: s')
  have fit: "map_of (targets b) dst = Some None" if "err = None" using header_fit [OF ok] h that by simp
  have old: "map_of (ur_first s') d = map_of (ur_first s) d" if "map_of (ur_first s) d \<noteq> None" for d
    using that by (auto simp: fst1 map_of_note_first)
  have first: "first_vetted cfg s' d" if d: "map_of (targets b) d = Some None" for d
  proof (cases "map_of (targets (ur_a s)) d = Some None")
    case True
    then show ?thesis using tg(3) [OF True] old by (auto simp: first_vetted_def)
  next
    case False
    then have "err = None" "d = dst" "vetted cfg w d = None" using grownD(2) [OF g d] by (auto split: if_splits)
    moreover have "map_of (ur_first s) d = None" using targets_ok_first [OF uinvD(3) [OF i]] False by blast
    ultimately show ?thesis by (simp add: first_vetted_def fst1 map_of_note_first)
  qed
  have "plain_ip (ap_addr d) \<and> ip_IsValid (ap_addr d) \<and> asked s' d" if d: "map_of (targets b) d = Some None" for d
    using tg(1, 2, 4) [of d] grownD(2) [OF g d] pl s'(3,4) by (auto split: if_splits)
  moreover have "map_of (targets b) d = Some None" if "map_of (ur_first s') d \<noteq> None" for d
    using that fit targets_ok_first [OF uinvD(3) [OF i]] grownD(1) [OF g]
    by (auto simp: fst1 map_of_note_first split: if_splits)
  ultimately show "targets_ok cfg s'" using first unfolding targets_ok_def s'(1) by blast
  show "pending_ok cfg s'" using pend .
  have "{ap_addr d |d. map_of (targets (ur_a s)) d = Some None} \<subseteq> {ap_addr d |d. map_of (targets b) d = Some None}"
    using grownD(1) [OF g] by auto
  then show "ips (ur_a s') \<subseteq> {ap_addr d |d. map_of (targets (ur_a s')) d = Some None}"
    unfolding s'(1) using grownD(4) [OF g] uinvD(5) [OF i] by blast
  show "int (used (ur_a s')) \<le> max 0 (ac_maxTargets cfg)"
    unfolding s'(1) using grownD(5) [OF g] uinvD(6) [OF i] by linarith
  show "list_all (act_ok cfg (ur_a s')) (ur_acts s')" using acts by (simp add: s')
qed

lemma acts_grown:
  "grown cfg w fit a b \<Longrightarrow> list_all (act_ok cfg a) as \<Longrightarrow> list_all (act_ok cfg b) as"
  using act_ok_grown by (induction as) auto

lemma up_judge_inv:
  assumes i: "uinv cfg s" and t: "ur_time s \<le> wd_now w" and n: "ur_pending s = None"
    and u: "up_judge cfg w datagram from1 (ur_a s) = (b, r)"
  shows "r = Inl e \<Longrightarrow> uinv cfg (s\<lparr>ur_a := b, ur_time := wd_now w, ur_acts := ur_acts s @ [Dropped from1 e]\<rparr>)"
    and "r = Inr (payload, dst) \<Longrightarrow> uinv cfg (s\<lparr>ur_a := b, ur_time := wd_now w, ur_pending := Some (from1, payload, dst),
           ur_first := note_first w dst (ur_first s)\<rparr>)"
proof -
  note ok = prev_ok_mono [OF uinvD(1) [OF i] t]
  let ?d = "s\<lparr>ur_a := b, ur_time := wd_now w, ur_acts := ur_acts s @ [Dropped from1 e]\<rparr>"
  show "uinv cfg ?d" if r: "r = Inl e"
  proof (cases rule: up_judge_cases [OF u])
    case (1 e)
    then show ?thesis using i ok by (auto simp: uinv_def targets_ok_def first_vetted_def pending_ok_def asked_def)
  next
    case (2 d hl e)
    show ?thesis
      by (rule header_inv [OF i t 2(1)])
        (use n acts_grown [OF header_grown [OF 2(1)]] uinvD(7) [OF i] in \<open>auto simp: asked_def pending_ok_def\<close>)
  qed (use r in simp)
  let ?j = "s\<lparr>ur_a := b, ur_time := wd_now w, ur_pending := Some (from1, payload, dst),
           ur_first := note_first w dst (ur_first s)\<rparr>"
  show "uinv cfg ?j" if r: "r = Inr (payload, dst)"
  proof (cases rule: up_judge_cases [OF u])
    case (3 d hl)
    then have h: "header cfg w (take (ac_maxDatagram cfg) datagram) (ur_a s) = (b, dst, hl, None)" and f: "fromClient cfg (ur_a s) from1"
      using r by simp_all
    note g = header_grown [OF h]
    have "pending_ok cfg ?j"
      using header_fit [OF ok h] f grownD(6) [OF g] by (simp add: pending_ok_def fromClient_def)
    then show ?thesis
      by (intro header_inv [OF i t h]) (use n acts_grown [OF g] uinvD(7) [OF i] in \<open>auto simp: asked_def\<close>)
  qed (use r in simp_all)
qed

lemma solicited_upd [simp]:
  "solicited cfg f (a\<lparr>clientPort := x\<rparr>) = solicited cfg f a" "solicited cfg f (a\<lparr>lastMove := t\<rparr>) = solicited cfg f a"
  by (simp_all add: solicited_def split: filtering.split)

lemma targets_ok_mono:
  "targets_ok cfg s \<Longrightarrow> targets (ur_a t) = targets (ur_a s) \<Longrightarrow> ur_first t = ur_first s
   \<Longrightarrow> (\<And>d. asked s d \<Longrightarrow> asked t d) \<Longrightarrow> targets_ok cfg t"
  unfolding targets_ok_def first_vetted_def by simp

lemma pending_ok_mono:
  "pending_ok cfg s \<Longrightarrow> ur_pending t = ur_pending s \<Longrightarrow> targets (ur_a t) = targets (ur_a s)
   \<Longrightarrow> clientPort (ur_a t) = clientPort (ur_a s) \<Longrightarrow> pending_ok cfg t"
  by (simp only: pending_ok_def fromClient_def)

lemma up_send_act_ok: "fromClient cfg a f \<Longrightarrow> act_ok cfg a act \<Longrightarrow> act_ok cfg (up_send w f a) act"
  by (cases act) (auto simp: up_send_def fromClient_def Let_def)

lemma up_send_sel [simp]:
  "targets (up_send w f a) = targets a" "names (up_send w f a) = names a" "ips (up_send w f a) = ips a"
  "names_plain (up_send w f a) = names_plain a" "prev_ok t (up_send w f a) = prev_ok t a"
  by (simp_all add: up_send_def Let_def)

lemma up_send_inv:
  assumes i: "uinv cfg s" and t: "ur_time s \<le> wd_now w" and p: "ur_pending s = Some (from1, payload, dst)"
  shows "uinv cfg (s\<lparr>ur_a := up_send w from1 (ur_a s), ur_time := wd_now w, ur_pending := None,
           ur_acts := ur_acts s @ [ToTarget from1 payload dst]\<rparr>)"
proof -
  have q: "map_of (targets (ur_a s)) dst = Some None" "fromClient cfg (ur_a s) from1"
    using uinvD(4) [OF i] p by (simp_all add: pending_ok_def)
  have new: "act_ok cfg (up_send w from1 (ur_a s)) (ToTarget from1 payload dst)"
    using q by (auto simp: up_send_def fromClient_def Let_def)
  have old: "list_all (act_ok cfg (up_send w from1 (ur_a s))) (ur_acts s)"
    using uinvD(7) [OF i] up_send_act_ok [OF q(2)] by (auto simp: list_all_iff)
  have tg: "targets_ok cfg (s\<lparr>ur_a := up_send w from1 (ur_a s), ur_time := wd_now w, ur_pending := None,
           ur_acts := ur_acts s @ [ToTarget from1 payload dst]\<rparr>)"
    by (rule targets_ok_mono [OF uinvD(3) [OF i]]) (use p in \<open>auto simp: asked_def\<close>)
  show ?thesis
    by (rule uinvI)
      (use uinvD(2, 5, 6) [OF i] prev_ok_mono [OF uinvD(1) [OF i] t] tg old new in \<open>simp_all add: pending_ok_def used_def del: act_ok.simps\<close>)
qed

lemma down_inv:
  assumes i: "uinv cfg s" and t: "ur_time s \<le> now" and port: "port = clientPort (ur_a s) \<or> port = 0"
    and d: "down cfg now buf port datagram from1 (ur_a s) = (b, act)"
  shows "uinv cfg (s\<lparr>ur_a := b, ur_time := now, ur_acts := ur_acts s @ [act]\<rparr>)"
proof -
  have b: "b = ur_a s \<or> b = ur_a s\<lparr>lastMove := now\<rparr>" and a: "act_ok cfg (ur_a s) act" and na: "\<And>f q d. act \<noteq> ToTarget f q d"
    using d port by (auto simp: down_def Let_def split: if_splits)
  have ok: "\<And>x. act_ok cfg (ur_a s\<lparr>lastMove := now\<rparr>) x = act_ok cfg (ur_a s) x" by (case_tac x) auto
  have sel: "targets b = targets (ur_a s)" "names b = names (ur_a s)" "ips b = ips (ur_a s)" "clientPort b = clientPort (ur_a s)"
    "names_plain b = names_plain (ur_a s)" "prev_ok now b = prev_ok now (ur_a s)" using b by auto
  let ?t = "s\<lparr>ur_a := b, ur_time := now, ur_acts := ur_acts s @ [act]\<rparr>"
  show ?thesis
  proof (rule uinvI)
    show "list_all (act_ok cfg (ur_a ?t)) (ur_acts ?t)" using b a uinvD(7) [OF i] by (auto simp: list_all_iff ok)
    show "targets_ok cfg ?t"
      by (rule targets_ok_mono [OF uinvD(3) [OF i]]) (use sel in \<open>auto simp: asked_def\<close>)
    show "pending_ok cfg ?t" by (rule pending_ok_mono [OF uinvD(4) [OF i]]) (simp_all add: sel)
  qed (use uinvD(2, 5, 6) [OF i] prev_ok_mono [OF uinvD(1) [OF i] t] in \<open>simp_all add: sel used_def\<close>)
qed

lemma ustep_inv: "ustep cfg s t \<Longrightarrow> uinv cfg s \<Longrightarrow> uinv cfg t"
proof (induction rule: ustep.induct)
  case (up_drop s w datagram from1 a1 err)
  then show ?case by (intro up_judge_inv(1)) simp_all
next
  case (up_judged s w datagram from1 a1 payload dst)
  then show ?case by (intro up_judge_inv(2)) simp_all
next
  case (up_send s from1 payload dst w)
  then show ?case by (intro up_send_inv) simp_all
next
  case (down s now port buf datagram from1 a1 act)
  then show ?case by (intro down_inv) simp_all
qed

lemma start_inv: "uinv (fst (newAssociation h r now)) (ur_start (snd (newAssociation h r now)) now)"
  by (simp add: uinv_def ur_start_def newAssociation_def Let_def prev_ok_def names_plain_def targets_ok_def pending_ok_def used_def)

lemma ureachable_inv:
  assumes "ureachable h r s"
  shows "uinv (fst (newAssociation h r 0)) s"
proof -
  obtain now where st: "(ustep (fst (newAssociation h r now)))\<^sup>*\<^sup>* (ur_start (snd (newAssociation h r now)) now) s"
    using assms by (auto simp: ureachable_def)
  have c: "fst (newAssociation h r now) = fst (newAssociation h r 0)" by (simp add: newAssociation_def Let_def)
  show ?thesis using st unfolding c [symmetric]
    by (induction rule: rtranclp_induct) (use start_inv ustep_inv in blast)+
qed

section \<open>The port of the client\<close>

text \<open>A port the request named stays, and a datagram from port 0 leaves only while the association is locked to no port.\<close>

definition ports_ok :: "u16 \<Rightarrow> urun \<Rightarrow> bool" where
  "ports_ok p0 s \<longleftrightarrow>
     (p0 \<noteq> 0 \<longrightarrow> clientPort (ur_a s) = p0)
   \<and> (\<forall>xs f p d ys. ur_acts s = xs @ ToTarget f p d # ys \<longrightarrow> ap_port f = 0 \<longrightarrow>
        p0 = 0 \<and> (\<forall>f' p' d'. ToTarget f' p' d' \<in> set xs \<longrightarrow> ap_port f' = 0))"

lemma ports_ok_other:
  assumes "ports_ok p0 s" and "clientPort (ur_a t) = clientPort (ur_a s)" and "ur_acts t = ur_acts s @ l"
    and "\<And>f p d. ToTarget f p d \<notin> set l"
  shows "ports_ok p0 t"
proof -
  have "\<exists>zs. ur_acts s = xs @ ToTarget f p d # zs" if "ur_acts t = xs @ ToTarget f p d # ys" for xs f p d ys
    using that assms(3) assms(4) [of f p d] by (auto simp: append_eq_append_conv2 append_eq_Cons_conv)
  then show ?thesis using assms(1,2) unfolding ports_ok_def by metis
qed

lemma judge_port: "judge cfg w ad a = (b, r) \<Longrightarrow> clientPort b = clientPort a"
  by (cases r) (use judge_grown grownD(6) in blast)

lemma ustep_ports: "ustep cfg s t \<Longrightarrow> uinv cfg s \<Longrightarrow> ports_ok p0 s \<Longrightarrow> ports_ok p0 t"
proof (induction rule: ustep.induct)
  case (up_drop s w datagram from1 a1 err)
  have "clientPort a1 = clientPort (ur_a s)"
    by (rule up_judge_cases [OF up_drop(3)]) (auto dest: header_grown grownD(6))
  then show ?case by (intro ports_ok_other [OF up_drop(5), where l = "[Dropped from1 err]"]) auto
next
  case (up_judged s w datagram from1 a1 payload dst)
  have "clientPort a1 = clientPort (ur_a s)"
    by (rule up_judge_cases [OF up_judged(3)]) (auto dest: header_grown grownD(6))
  then show ?case by (intro ports_ok_other [OF up_judged(5), where l = "[]"]) simp_all
next
  case (up_send s from1 payload dst w)
  have c: "clientPort (ur_a s) = 0 \<or> ap_port from1 = clientPort (ur_a s)"
    using uinvD(4) [OF up_send(3)] up_send(1) by (simp add: pending_ok_def fromClient_def)
  have old: "ap_port f = 0" if "clientPort (ur_a s) = 0" "ToTarget f p d \<in> set (ur_acts s)" for f p d
    using uinvD(7) [OF up_send(3)] that by (auto simp: list_all_iff dest!: bspec)
  show ?case unfolding ports_ok_def
  proof (intro conjI impI allI)
    show "clientPort (ur_a (s\<lparr>ur_a := up_send w from1 (ur_a s), ur_time := wd_now w, ur_pending := None,
           ur_acts := ur_acts s @ [ToTarget from1 payload dst]\<rparr>)) = p0" if "p0 \<noteq> 0"
      using up_send(4) that by (simp add: ports_ok_def up_send_def Let_def)
  next
    fix xs f p d ys
    assume "ur_acts (s\<lparr>ur_a := up_send w from1 (ur_a s), ur_time := wd_now w, ur_pending := None,
           ur_acts := ur_acts s @ [ToTarget from1 payload dst]\<rparr>) = xs @ ToTarget f p d # ys" and z: "ap_port f = 0"
    then have a: "ur_acts s @ [ToTarget from1 payload dst] = xs @ ToTarget f p d # ys" by simp
    show "p0 = 0" and "\<And>f' p' d'. ToTarget f' p' d' \<in> set xs \<Longrightarrow> ap_port f' = 0"
    proof (atomize (full), cases ys rule: rev_cases)
      case Nil
      then have "f = from1" "xs = ur_acts s" using a by auto
      then show "p0 = 0 \<and> (\<forall>f' p' d'. ToTarget f' p' d' \<in> set xs \<longrightarrow> ap_port f' = 0)"
        using up_send(4) c z old by (auto simp: ports_ok_def)
    next
      case (snoc zs z1)
      then have "ur_acts s = xs @ ToTarget f p d # zs" using a by simp
      then show "p0 = 0 \<and> (\<forall>f' p' d'. ToTarget f' p' d' \<in> set xs \<longrightarrow> ap_port f' = 0)"
        using up_send(4) z unfolding ports_ok_def by blast
    qed
  qed
next
  case (down s now port buf datagram from1 a1 act)
  have "clientPort a1 = clientPort (ur_a s)" "\<And>f p d. act \<noteq> ToTarget f p d"
    using down(3) by (auto simp: down_def Let_def split: if_splits)
  then show ?case by (intro ports_ok_other [OF down(5), where l = "[act]"]) auto
qed

lemma ureachable_ports:
  assumes "ureachable h r s"
  shows "ports_ok (clientPort (snd (newAssociation h r 0))) s"
proof -
  obtain now where st: "(ustep (fst (newAssociation h r now)))\<^sup>*\<^sup>* (ur_start (snd (newAssociation h r now)) now) s"
    using assms by (auto simp: ureachable_def)
  have c: "clientPort (snd (newAssociation h r 0)) = clientPort (snd (newAssociation h r now))"
    by (simp add: newAssociation_def Let_def)
  have "uinv (fst (newAssociation h r now)) s \<and> ports_ok (clientPort (snd (newAssociation h r 0))) s"
    using st
  proof (induction rule: rtranclp_induct)
    case base
    then show ?case using start_inv c by (auto simp: ports_ok_def ur_start_def)
  next
    case (step y z)
    then show ?case using ustep_inv ustep_ports by blast
  qed
  then show ?thesis ..
qed

end
