(* ===== verification/ServerUDPProps.thy ===== *)
theory ServerUDPProps
  imports ServerUDPSafety
begin

text \<open>The properties of the UDP association, from its invariant.\<close>

section \<open>A run: one datagram to a target, one back\<close>

definition demoHandler :: assoc_handler where
  "demoHandler = \<lparr>ah_Filter = None, ah_Filtering = AddressAndPortDependent, ah_Advertise = None, ah_IdleTimeout = 0,
     ah_MaxDatagram = 100, ah_MaxTargets = 3\<rparr>"

definition demoClient :: addrport where "demoClient = AddrPortFrom (IP4 (ip4_of_bytes 192 0 2 7)) 5000"
definition demoTarget :: addrport where "demoTarget = AddrPortFrom (IP4 (ip4_of_bytes 8 8 8 8)) 53"

definition demoRequest :: request where
  "demoRequest = zeroRequest\<lparr>rq_Command := CmdUDPAssociate, rq_Addr := ipAddr (IP4 0) 0, rq_RemoteAddr := TCPAddr demoClient\<rparr>"

abbreviation demoCfg :: assoc_cfg where "demoCfg \<equiv> fst (newAssociation demoHandler demoRequest 0)"

definition demoAssoc :: "u16 \<Rightarrow> assoc" where
  "demoAssoc port = \<lparr>clientPort = port, lastMove = 0, targets = [(demoTarget, None)], ips = {ap_addr demoTarget}, names = [],
     prevHeader = \<lparr>hv_raw = [0, 0, 0, 1, 8, 8, 8, 8, 0, 53], hv_dst = demoTarget, hv_err = None, hv_expires = None\<rparr>\<rparr>"

definition demoRun :: urun where
  "demoRun = \<lparr>ur_a = demoAssoc 5000, ur_time = 0, ur_pending = None,
     ur_acts = [ToTarget demoClient [7] demoTarget, ToClient demoTarget [0, 0, 0, 1, 8, 8, 8, 8, 0, 53, 9] demoClient],
     ur_first = [(demoTarget, twoFaced)]\<rparr>"

lemma demoCfg_sel:
  "ac_req demoCfg = demoRequest" "ac_filter demoCfg = None" "ac_filtering demoCfg = AddressAndPortDependent"
  "ac_maxDatagram demoCfg = 100" "ac_maxTargets demoCfg = 3" "ac_clientIP demoCfg = IP4 (ip4_of_bytes 192 0 2 7)"
  by (simp_all add: newAssociation_def Let_def demoHandler_def orDefault_def headroom_def demoRequest_def ipOf_def
      addrPortOf_def demoClient_def normalize_def)

lemma twoFaced_now: "wd_now twoFaced = 0"
  by (simp add: twoFaced_def)

lemma demo_start:
  "snd (newAssociation demoHandler demoRequest 0) =
     \<lparr>clientPort = 0, lastMove = 0, targets = [], ips = {}, names = [],
      prevHeader = \<lparr>hv_raw = [], hv_dst = zeroAddrPort, hv_err = None, hv_expires = None\<rparr>\<rparr>"
  by (simp add: newAssociation_def Let_def demoRequest_def)

lemma demo_vet: "world_vet None twoFaced demoRequest ''udp4'' demoTarget = None"
  by (simp add: world_vet_def twoFaced_def demoTarget_def demoRequest_def demoClient_def
      vet_def allow_def DefaultFilter_def Let_def normalize_def classify_def denied4_def ip4_of_bytes_def
      isSelf_def zeroRequest_def ipOf_def addrPortOf_def zeroAddrPort_def ownHost_def checkOwnHost_def
      IsLoopback_def IsUnspecified_def ap_IsValid_def embedded4_def has_prefix_def)

lemma demo_header:
  "parseClientHeader [0, 0, 0, 1, 8, 8, 8, 8, 0, 53, 7] = Inr (ipAddr (IP4 (ip4_of_bytes 8 8 8 8)) 53, 10)"
  by (simp add: parseClientHeader_ok ParseUDPHeader_def parseAddrMessage_def addrMessageLen_def addrAt_def atyp_defs ip4_of_bytes_def
      AddrFrom4_def slice_def word_of_be_def)

lemma demo_up_judge:
  "up_judge demoCfg twoFaced [0, 0, 0, 1, 8, 8, 8, 8, 0, 53, 7] demoClient (snd (newAssociation demoHandler demoRequest 0))
   = (demoAssoc 0, Inr ([7], demoTarget))"
  using demo_vet
  by (simp add: up_judge_def Let_def demoCfg_sel demo_start header_def hv_matches_def demo_header judge_def admit_def full_def
      demoClient_def demoTarget_def IsName_def udpNetwork_def demoAssoc_def)

lemma demo_up_send: "up_send twoFaced demoClient (demoAssoc 0) = demoAssoc 5000"
  by (simp add: up_send_def demoAssoc_def demoClient_def twoFaced_def)

section \<open>Frames\<close>

lemma slice_overwrite_from:
  "length h \<le> k \<Longrightarrow> k \<le> length b \<Longrightarrow>
   slice (k - length h) (k + n) (overwrite (k - length h) h b) = h @ take n (drop k b)"
  by (simp add: slice_def overwrite_def)

lemma frame_eq:
  assumes n: "headroom + length p \<le> length buf" and ap: "plain_ip (ap_addr from1)" "ip_IsValid (ap_addr from1)"
  shows "frame (overwrite headroom p buf) from1 (length p) = addr_append (AddrFromAddrPort from1) [0, 0, 0] @ p"
proof -
  let ?src = "AddrFromAddrPort from1" and ?b = "overwrite headroom p buf"
  have eta: "AddrPortFrom (ap_addr from1) (ap_port from1) = from1" by (simp add: AddrPortFrom_eq)
  have src: "?src = ipAddr (ap_addr from1) (ap_port from1)" using AddrFromAddrPort_plain [OF ap, of "ap_port from1"]
    unfolding eta .
  let ?h = "addr_append ?src [0, 0, 0]"
  have h: "fst (AppendUDPHeader [] 0 ?src) = ?h" and l: "length ?h = UDPHeaderLen ?src" "UDPHeaderLen ?src \<le> headroom"
    using ap length_addr_append [of ?src "[0, 0, 0]"] by (auto simp: src AppendUDPHeader_def appendAddrMessage_def UDPHeaderLen_def wireLen_def headroom_def)
  have "drop headroom ?b = p @ drop (headroom + length p) buf" using n by (simp add: overwrite_def)
  then have "slice (headroom - length ?h) (headroom + length p) (overwrite (headroom - length ?h) ?h ?b) = ?h @ p"
    using l n slice_overwrite_from [of ?h headroom ?b "length p"] by simp
  then show ?thesis by (simp add: frame_def Let_def h l)
qed

text \<open>What \<open>down\<close> passes is the whole datagram behind its header.\<close>

lemma down_passes:
  assumes d: "down cfg now buf port datagram from1 a = (b, ToClient f data to)"
    and buf: "length buf = ac_maxDatagram cfg" and ap: "plain_ip (ap_addr from1)" "ip_IsValid (ap_addr from1)"
  shows "data = addr_append (AddrFromAddrPort from1) [0, 0, 0] @ datagram \<and> f = from1 \<and> to = AddrPortFrom (ac_clientIP cfg) port"
proof -
  let ?p = "take (ac_maxDatagram cfg - headroom) datagram"
  have n: "length ?p \<noteq> ac_maxDatagram cfg - headroom" and r: "f = from1" "to = AddrPortFrom (ac_clientIP cfg) port"
    "data = frame (overwrite headroom ?p buf) from1 (length ?p)"
    using d by (auto simp: down_def Let_def split: if_splits)
  then have "?p = datagram" "headroom + length ?p \<le> length buf" using buf by auto
  then show ?thesis using frame_eq [of ?p buf, OF _ ap] r by simp
qed

lemma demo_bytes: "be_of_word 4 (134744072 :: 32 word) = [8, 8, 8, 8]" "be_of_word 2 (53 :: u16) = [0, 53]"
  using be_of_word_of_be [where 'a = 32 and n = 4 and bs = "[8, 8, 8, 8]"] be_of_word_of_be [where 'a = 16 and n = 2 and bs = "[0, 53]"]
  by (simp_all add: word_of_be_def)

lemma demo_frame: "addr_append (AddrFromAddrPort demoTarget) [0, 0, 0] = [0, 0, 0, 1, 8, 8, 8, 8, 0, 53]"
  by (simp add: addr_append_def demoTarget_def AddrFromAddrPort_plain Let_def addr_ATYP_def atyp_defs ip4_of_bytes_def
      demo_bytes)

lemma demo_down:
  "down demoCfg 0 (replicate 100 0) 5000 [9] demoTarget (demoAssoc 5000)
   = (demoAssoc 5000, ToClient demoTarget [0, 0, 0, 1, 8, 8, 8, 8, 0, 53, 9] demoClient)"
  using frame_eq [of "[9]" "replicate 100 0" demoTarget] demo_frame
  by (simp add: down_def Let_def demoCfg_sel solicited_def demoAssoc_def headroom_def demoTarget_def demoClient_def)

lemma demo_reachable: "ureachable demoHandler demoRequest demoRun"
proof -
  let ?s0 = "ur_start (snd (newAssociation demoHandler demoRequest 0)) 0"
  let ?s1 = "?s0\<lparr>ur_a := demoAssoc 0, ur_time := wd_now twoFaced, ur_pending := Some (demoClient, [7], demoTarget),
           ur_first := note_first twoFaced demoTarget (ur_first ?s0)\<rparr>"
  let ?s2 = "?s1\<lparr>ur_a := up_send twoFaced demoClient (ur_a ?s1), ur_time := wd_now twoFaced, ur_pending := None,
           ur_acts := ur_acts ?s1 @ [ToTarget demoClient [7] demoTarget]\<rparr>"
  let ?s3 = "?s2\<lparr>ur_a := demoAssoc 5000, ur_time := 0,
           ur_acts := ur_acts ?s2 @ [ToClient demoTarget [0, 0, 0, 1, 8, 8, 8, 8, 0, 53, 9] demoClient]\<rparr>"
  have s1: "ustep demoCfg ?s0 ?s1"
    by (rule ustep.up_judged [where datagram = "[0, 0, 0, 1, 8, 8, 8, 8, 0, 53, 7]"])
      (use demo_up_judge in \<open>simp_all add: ur_start_def twoFaced_now\<close>)
  have s2: "ustep demoCfg ?s1 ?s2" by (rule ustep.up_send) (simp_all add: twoFaced_now)
  have s3: "ustep demoCfg ?s2 ?s3"
    by (rule ustep.down [where port = 5000 and datagram = "[9]" and buf = "replicate 100 0"])
      (simp_all add: demo_up_send twoFaced_now, simp add: demoAssoc_def, rule demo_down)
  have e: "?s3 = demoRun" by (simp add: demoRun_def ur_start_def note_first_def)
  have "(ustep demoCfg)\<^sup>*\<^sup>* ?s0 demoRun"
    using converse_rtranclp_into_rtranclp [OF s1 converse_rtranclp_into_rtranclp [OF s2 r_into_rtranclp [of "ustep demoCfg", OF s3]]]
    unfolding e .
  then show ?thesis unfolding ureachable_def by blast
qed

section \<open>Properties\<close>

lemma cfg_sel [simp]:
  "ac_req (fst (newAssociation h r t)) = r" "ac_filter (fst (newAssociation h r t)) = ah_Filter h"
  "ac_filtering (fst (newAssociation h r t)) = ah_Filtering h" "ac_clientIP (fst (newAssociation h r t)) = ipOf (rq_RemoteAddr r)"
  "ac_maxTargets (fst (newAssociation h r t)) = orDefault (ah_MaxTargets h) defaultMaxTargets"
  by (simp_all add: newAssociation_def Let_def)

lemma reachable_act: "ureachable h r s \<Longrightarrow> act \<in> set (ur_acts s) \<Longrightarrow> act_ok (fst (newAssociation h r 0)) (ur_a s) act"
  using uinvD(7) [OF ureachable_inv] by (simp add: list_all_iff)

text \<open>C8: The one-entry header cache of a UDP association is transparent: in every state an association reaches, at
  every later instant, \<open>header\<close> gives for any datagram the destination, the header length and the error that
  parsing the header and judging it afresh gives, and leaves the same association but for the cache itself.\<close>

theorem udp_header_cache_transparent:
  assumes "ureachable h r s" and "ur_time s \<le> wd_now w"
  shows "snd (header (fst (newAssociation h r 0)) w p (ur_a s)) = snd (header_uncached (fst (newAssociation h r 0)) w p (ur_a s))
    \<and> fst (header (fst (newAssociation h r 0)) w p (ur_a s))\<lparr>prevHeader := v\<rparr>
      = fst (header_uncached (fst (newAssociation h r 0)) w p (ur_a s))\<lparr>prevHeader := v\<rparr>"
  using header_eq_uncached [OF prev_ok_mono [OF uinvD(1) [OF ureachable_inv [OF assms(1)]] assms(2)]] by iprover

lemma demo_hit: "header demoCfg twoFaced [0, 0, 0, 1, 8, 8, 8, 8, 0, 53, 7] (demoAssoc 5000) = (demoAssoc 5000, demoTarget, 10, None)"
  by (simp add: header_def hv_matches_def has_prefix_def demoAssoc_def Let_def)

lemma udp_header_cache_transparent_witness:
  "snd (header_uncached demoCfg twoFaced [0, 0, 0, 1, 8, 8, 8, 8, 0, 53, 7] (demoAssoc 5000)) = (demoTarget, 10, None)"
  using udp_header_cache_transparent [OF demo_reachable, of twoFaced "[0, 0, 0, 1, 8, 8, 8, 8, 0, 53, 7]", THEN conjunct1] demo_hit
  by (simp add: demoRun_def twoFaced_now)

text \<open>C11: The memory of an association is bounded: with a valid handler, the destinations and names it remembers never
  exceed \<open>MaxTargets\<close> (1024 when that is 0), whatever datagrams come.\<close>

theorem udp_memory_bounded:
  assumes "ureachable h r s" and "assoc_validate h = None"
  shows "int (length (targets (ur_a s)) + length (names (ur_a s))) \<le> orDefault (ah_MaxTargets h) defaultMaxTargets"
proof -
  have "0 \<le> orDefault (ah_MaxTargets h) defaultMaxTargets"
    using assms(2) by (auto simp: assoc_validate_def orDefault_def defaultMaxTargets_def split: if_splits)
  then show ?thesis using uinvD(6) [OF ureachable_inv [OF assms(1)]] by (simp add: used_def)
qed

lemma udp_memory_bounded_witness:
  "int (length (targets (ur_a demoRun)) + length (names (ur_a demoRun))) \<le> orDefault 3 defaultMaxTargets"
  using udp_memory_bounded [OF demo_reachable] by (simp add: demoHandler_def assoc_validate_def minDatagram_def headroom_def)

text \<open>C9: A UDP association sends to no target its checks have not allowed. Every datagram it relays came from the IP of
  the control conn's peer, and from the one port the association is locked to (a datagram without a
  source port locks none: such ones pass only before that port is known). Its destination passed the filter and the
  own-host check in the world, interfaces and resolver, of the first datagram that was let through to it. With
  the default filter it is a globally reachable address with a port, not the server's own, and was not
  one of the host's then (\<open>own_target\<close>, by the listing or, if that failed, by the source address).\<close>

theorem udp_sends_only_to_vetted:
  assumes "ureachable h r s" and "ur_acts s = before @ ToTarget from1 payload dst # after"
  shows "ap_addr from1 = ipOf (rq_RemoteAddr r)
    \<and> (ap_port from1 = clientPort (ur_a s)
       \<or> ap_port from1 = 0 \<and> clientPort (snd (newAssociation h r 0)) = 0
         \<and> (\<forall>f p d. ToTarget f p d \<in> set before \<longrightarrow> ap_port f = 0))
    \<and> (\<exists>w. map_of (ur_first s) dst = Some w
        \<and> world_vet (ah_Filter h) w r (udpNetwork (ap_addr dst)) dst = None
        \<and> (ah_Filter h = None \<longrightarrow> globally_reachable (ap_addr dst) \<and> ap_port dst \<noteq> 0 \<and> \<not> isSelf r (ap_addr dst)
            \<and> \<not> own_target (wd_ownIPs w) (wd_sourceFor w) dst))"
proof -
  note i = ureachable_inv [OF assms(1)]
  have a: "act_ok (fst (newAssociation h r 0)) (ur_a s) (ToTarget from1 payload dst)"
    using reachable_act [OF assms(1), of "ToTarget from1 payload dst"] assms(2) by simp
  then have m: "map_of (targets (ur_a s)) dst = Some None" by simp
  have p: "ap_port from1 = clientPort (ur_a s) \<or> ap_port from1 = 0 \<and> clientPort (snd (newAssociation h r 0)) = 0
         \<and> (\<forall>f p d. ToTarget f p d \<in> set before \<longrightarrow> ap_port f = 0)"
    using a assms(2) ureachable_ports [OF assms(1)] unfolding ports_ok_def act_ok.simps by blast
  obtain w where w: "map_of (ur_first s) dst = Some w" "world_vet (ah_Filter h) w r (udpNetwork (ap_addr dst)) dst = None"
    using targets_okD(3) [OF uinvD(3) [OF i] m] by (auto simp: first_vetted_def vetted_def)
  have n: "normalize dst = dst"
    using targets_okD(1) [OF uinvD(3) [OF i] m] by (simp add: normalize_plain plain_id)
  have u: "\<not> has_prefix (udpNetwork (ap_addr dst)) ''ip''" by (simp add: udpNetwork_def has_prefix_def)
  have "globally_reachable (ap_addr dst) \<and> ap_port dst \<noteq> 0 \<and> \<not> isSelf r (ap_addr dst)
            \<and> \<not> own_target (wd_ownIPs w) (wd_sourceFor w) dst" if f: "ah_Filter h = None"
    using default_vet_facts [OF w(2) [unfolded f] n u] w(2) [unfolded f]
      vet_denies_own [OF n, of "wd_ownIPs w" "wd_sourceFor w" "Some r" "udpNetwork (ap_addr dst)"]
    by (auto simp: world_vet_def)
  then show ?thesis using a p w by auto
qed

lemma udp_sends_only_to_vetted_witness:
  "globally_reachable (ap_addr demoTarget) \<and> \<not> own_target (Some []) (\<lambda>a. zeroAddrPort) demoTarget"
  using udp_sends_only_to_vetted [OF demo_reachable, of "[]" demoClient "[7]" demoTarget]
  by (auto simp: demoRun_def demoHandler_def twoFaced_def)

text \<open>C10: What comes back reaches only the client, at the locked port, and is solicited: under
  \<open>AddressAndPortDependent\<close> filtering the sender is a target the client sent a datagram to, under
  \<open>AddressDependent\<close> it has the IP of one (a datagram counts from when its verdict stands, just before it leaves).\<close>

theorem udp_returns_only_solicited:
  assumes "ureachable h r s" and "ToClient from1 data to \<in> set (ur_acts s)"
  shows "to = AddrPortFrom (ipOf (rq_RemoteAddr r)) (clientPort (ur_a s)) \<and> clientPort (ur_a s) \<noteq> 0
    \<and> (ah_Filtering h = AddressAndPortDependent \<longrightarrow> asked s from1)
    \<and> (ah_Filtering h = AddressDependent \<longrightarrow> (\<exists>d. ap_addr d = ap_addr from1 \<and> asked s d))"
proof -
  note i = ureachable_inv [OF assms(1)]
  have a: "act_ok (fst (newAssociation h r 0)) (ur_a s) (ToClient from1 data to)"
    using reachable_act [OF assms] .
  have "asked s from1" if "map_of (targets (ur_a s)) from1 = Some None" using targets_okD(4) [OF uinvD(3) [OF i] that] .
  moreover have "\<exists>d. ap_addr d = ap_addr from1 \<and> asked s d" if x: "ap_addr from1 \<in> ips (ur_a s)"
  proof -
    obtain d where "ap_addr from1 = ap_addr d" "map_of (targets (ur_a s)) d = Some None" using uinvD(5) [OF i] x by blast
    then show ?thesis using targets_okD(4) [OF uinvD(3) [OF i]] by metis
  qed
  ultimately show ?thesis using a by (auto simp: solicited_def split: filtering.splits)
qed

lemma udp_returns_only_solicited_witness: "asked demoRun demoTarget"
  using udp_returns_only_solicited [OF demo_reachable, of demoTarget "[0, 0, 0, 1, 8, 8, 8, 8, 0, 53, 9]" demoClient]
  by (simp add: demoRun_def demoHandler_def)

lemma AppendUDPHeader_parse:
  assumes "AppendUDPHeader [] 0 ad = (m, None)" and "addr_wf ad"
  shows "parseClientHeader (m @ x) = Inr (ad, length m)"
  using udp_header_roundtrip [OF assms, of x] by (auto simp: parseClientHeader_ok)

lemma header_uncached_ip:
  "parseClientHeader p = Inr (ad, k) \<Longrightarrow> header_uncached cfg w p a = (b, dst, hl, None) \<Longrightarrow>
   hl = k \<and> (IP_of ad \<noteq> NoIP \<and> Name_of ad = [] \<longrightarrow> dst = AddrPortFrom (IP_of ad) (Port_of ad))"
  by (auto simp: header_uncached_def judge_def IsName_def Let_def split: prod.splits)

lemma up_payload:
  assumes "ureachable h r s" and "ur_time s \<le> wd_now w" and "AppendUDPHeader [] 0 ad = (m, None)" and "addr_wf ad"
    and "up_judge (fst (newAssociation h r 0)) w (m @ x) from1 (ur_a s) = (b, Inr (payload, dst))"
  shows "payload = x" and "ip_IsValid (IP_of ad) \<longrightarrow> dst = AddrPortFrom (IP_of ad) (Port_of ad)"
proof -
  let ?cfg = "fst (newAssociation h r 0)"
  have cut: "take (ac_maxDatagram ?cfg) (m @ x) = m @ x"
    using assms(5) by (auto simp: up_judge_def Let_def split: if_splits)
  obtain hl where hl: "header ?cfg w (m @ x) (ur_a s) = (b, dst, hl, None)" "payload = drop hl (m @ x)"
    using up_judge_cases [OF assms(5)] unfolding cut by auto
  have ok: "prev_ok (wd_now w) (ur_a s)" using prev_ok_mono [OF uinvD(1) [OF ureachable_inv [OF assms(1)]] assms(2)] .
  obtain b' where u: "header_uncached ?cfg w (m @ x) (ur_a s) = (b', dst, hl, None)"
    using header_eq_uncached(1) [OF ok, of ?cfg "m @ x"] hl(1) by (cases "header_uncached ?cfg w (m @ x) (ur_a s)") simp
  have n: "hl = length m" and "ip_IsValid (IP_of ad) \<longrightarrow> dst = AddrPortFrom (IP_of ad) (Port_of ad)"
    using header_uncached_ip [OF AppendUDPHeader_parse [OF assms(3, 4), of x] u] assms(4)
    by (auto simp: addr_wf_def ip_IsValid_def)
  then show "ip_IsValid (IP_of ad) \<longrightarrow> dst = AddrPortFrom (IP_of ad) (Port_of ad)" by blast
  show "payload = x" using hl(2) n by simp
qed

lemma down_datagram:
  assumes "down cfg now buf port datagram from2 a = (c, ToClient f data to)" and "length buf = ac_maxDatagram cfg"
    and "plain_ip (ap_addr from2)" and "ip_IsValid (ap_addr from2)"
  shows "\<exists>m. AppendUDPHeader [] 0 (AddrFromAddrPort from2) = (m, None) \<and> addr_wf (AddrFromAddrPort from2) \<and> data = m @ datagram"
proof -
  let ?src = "AddrFromAddrPort from2" and ?m = "addr_append (AddrFromAddrPort from2) [0, 0, 0]"
  have eta: "AddrPortFrom (ap_addr from2) (ap_port from2) = from2" by (simp add: AddrPortFrom_eq)
  have "addr_IsValid ?src" using AddrFromAddrPort_plain [OF assms(3, 4), of "ap_port from2"] assms(4) unfolding eta by simp
  then have "AppendUDPHeader [] 0 ?src = (?m, None)" by (simp add: AppendUDPHeader_def appendAddrMessage_def)
  then show ?thesis using down_passes [OF assms] by auto
qed

text \<open>Payloads cross a UDP association unchanged. Up: of a datagram made of the header \<open>AppendUDPHeader\<close> writes for an
  address and a payload, what is relayed is that payload, to that address when it is an IP. Down: what the client
  gets from a target is a header that parses back to the target's address, and then the whole datagram.\<close>

theorem udp_payloads_unchanged:
  assumes "ureachable h r s" and "ur_time s \<le> wd_now w" and "AppendUDPHeader [] 0 ad = (m, None)" and "addr_wf ad"
    and "up_judge (fst (newAssociation h r 0)) w (m @ x) from1 (ur_a s) = (b, Inr (payload, dst))"
    and "down (fst (newAssociation h r 0)) now buf port datagram from2 (ur_a s) = (c, ToClient f data to)"
    and "length buf = ac_maxDatagram (fst (newAssociation h r 0))" and "plain_ip (ap_addr from2)" and "ip_IsValid (ap_addr from2)"
  shows "payload = x \<and> (ip_IsValid (IP_of ad) \<longrightarrow> dst = AddrPortFrom (IP_of ad) (Port_of ad))
    \<and> (\<exists>hl. ParseUDPHeader data = ((0, AddrFromAddrPort from2), hl, None) \<and> drop hl data = datagram)"
proof -
  obtain k where "AppendUDPHeader [] 0 (AddrFromAddrPort from2) = (k, None)" "addr_wf (AddrFromAddrPort from2)" "data = k @ datagram"
    using down_datagram [OF assms(6-9)] by blast
  then have "ParseUDPHeader data = ((0, AddrFromAddrPort from2), length k, None) \<and> drop (length k) data = datagram"
    using AppendUDPHeader_parse [of "AddrFromAddrPort from2" k datagram] by (simp add: parseClientHeader_ok)
  then show ?thesis using up_payload [OF assms(1-5)] by blast
qed

lemma demo_sel: "ap_addr demoClient = IP4 (ip4_of_bytes 192 0 2 7)" "ap_port demoClient = 5000"
    "ipOf (rq_RemoteAddr demoRequest) = IP4 (ip4_of_bytes 192 0 2 7)"
  by (simp_all add: demoClient_def demoRequest_def ipOf_def addrPortOf_def normalize_def)

lemma demo_port: "clientPort (demoAssoc p) = p"
  by (simp add: demoAssoc_def)

lemma demo_again:
  "up_judge demoCfg twoFaced [0, 0, 0, 1, 8, 8, 8, 8, 0, 53, 7] demoClient (demoAssoc 5000) = (demoAssoc 5000, Inr ([7], demoTarget))"
  by (simp add: up_judge_def Let_def demoCfg_sel demo_hit demo_port demo_sel)

lemma udp_payloads_unchanged_witness: "demoTarget = AddrPortFrom (IP4 (ip4_of_bytes 8 8 8 8)) 53"
proof -
  let ?ad = "ipAddr (IP4 (ip4_of_bytes 8 8 8 8)) 53"
  have m: "AppendUDPHeader [] 0 ?ad = ([0, 0, 0, 1, 8, 8, 8, 8, 0, 53], None)"
    using demo_frame by (simp add: AppendUDPHeader_def appendAddrMessage_def demoTarget_def AddrFromAddrPort_plain)
  show ?thesis
    using udp_payloads_unchanged [OF demo_reachable _ m, of twoFaced "[7]" demoClient "demoAssoc 5000" "[7]" demoTarget
        0 "replicate 100 0" 5000 "[9]" demoTarget "demoAssoc 5000" demoTarget "[0, 0, 0, 1, 8, 8, 8, 8, 0, 53, 9]" demoClient]
      demo_again demo_down
    by (simp add: demoRun_def twoFaced_now demoCfg_sel) (simp add: demoTarget_def)
qed

end
