(* ===== verification/ClientHandshake.thy ===== *)
theory ClientHandshake
  imports ClientErrors WireRead
begin

text \<open>
  The client's handshake (\<open>handshake.go\<close>, with the authenticators of \<open>config.go\<close>). A conn is a stream to read
  and room to write: \<open>cn_room\<close> says after how many more bytes a write fails, and with which error. The
  hooks a trace sees are recorded in order.
\<close>

section \<open>Conns\<close>

record cnet =
  cn_rd :: stream
  cn_written :: bytes
  cn_room :: "(nat \<times> error) option"

text \<open>\<open>firstWrite\<close> and \<open>conn.Write\<close>: fewer bytes than asked come with an error.\<close>

definition cnet_write :: "bytes \<Rightarrow> cnet \<Rightarrow> cnet \<times> nat \<times> error option" where
  "cnet_write b c =
     (case cn_room c of
        None \<Rightarrow> (c\<lparr>cn_written := cn_written c @ b\<rparr>, length b, None)
      | Some (k, e) \<Rightarrow>
          if length b \<le> k
          then (c\<lparr>cn_written := cn_written c @ b, cn_room := Some (k - length b, e)\<rparr>, length b, None)
          else (c\<lparr>cn_written := cn_written c @ take k b, cn_room := Some (0, e)\<rparr>, k, Some e))"

section \<open>Modes, authenticators, Config\<close>

type_synonym mode = byte

definition ModePipelined :: mode where "ModePipelined = 0"
definition ModeSequential :: mode where "ModeSequential = 1"
definition ModeEarly :: mode where "ModeEarly = 2"

lemmas mode_defs = ModePipelined_def ModeSequential_def ModeEarly_def

definition Mode_String :: "mode \<Rightarrow> string" where
  "Mode_String m =
     (if m = ModePipelined then ''pipelined''
      else if m = ModeSequential then ''sequential''
      else if m = ModeEarly then ''early''
      else ''Mode('' @ nat_string (unat m) @ '')'')"

text \<open>A \<open>Pipeliner\<close>'s two functions; a \<open>CUserPass\<close> may be a value or a pointer.\<close>

record pipeliner =
  pl_AppendRequest :: "bytes \<Rightarrow> bytes \<times> error option"
  pl_ParseReply :: "bytes \<Rightarrow> int \<times> error option"

datatype cauth =
    CUserPass string string
  | CNilUserPass
  | COther method_code "cnet \<Rightarrow> cnet \<times> error option" "pipeliner option"

record cconfig =
  cc_Version :: nat
  cc_Mode :: mode
  cc_Auth :: "cauth option"
  cc_OfferNoAuth :: bool

definition statusErr :: "byte \<Rightarrow> error option \<Rightarrow> error option" where
  "statusErr status err = (if err = None \<and> status \<noteq> 0 then Some (EAuth MethodUserPass status) else err)"

definition UserPass_ParseReply :: "bytes \<Rightarrow> int \<times> error option" where
  "UserPass_ParseReply b = (case ParseUserPassStatus b of (status, n, err) \<Rightarrow> (int n, statusErr status err))"

definition UserPass_Authenticate :: "string \<Rightarrow> string \<Rightarrow> cnet \<Rightarrow> (cnet \<times> error option) option" where
  "UserPass_Authenticate user pass c =
     (case AppendUserPass [] user pass of
        (b, Some e) \<Rightarrow> Some (c, Some e)
      | (b, None) \<Rightarrow>
          (case cnet_write b c of
             (c1, n, Some e) \<Rightarrow> Some (c1, Some e)
           | (c1, n, None) \<Rightarrow>
               (case ReadUserPassStatus (cn_rd c1) of
                  Ret (status, err, s) \<Rightarrow> Some (c1\<lparr>cn_rd := s\<rparr>, statusErr status err)
                | _ \<Rightarrow> None)))"

fun cauth_Method :: "cauth \<Rightarrow> method_code" where
  "cauth_Method (COther m f p) = m"
| "cauth_Method _ = MethodUserPass"

fun cauth_Authenticate :: "cauth \<Rightarrow> cnet \<Rightarrow> (cnet \<times> error option) option" where
  "cauth_Authenticate (CUserPass u p) c = UserPass_Authenticate u p c"
| "cauth_Authenticate CNilUserPass c = None"
| "cauth_Authenticate (COther m f p) c = Some (f c)"

fun cauth_pipe :: "cauth \<Rightarrow> pipeliner option" where
  "cauth_pipe (CUserPass u p) = Some \<lparr>pl_AppendRequest = (\<lambda>dst. AppendUserPass dst u p), pl_ParseReply = UserPass_ParseReply\<rparr>"
| "cauth_pipe CNilUserPass = None"
| "cauth_pipe (COther m f p) = p"

section \<open>The handshake\<close>

datatype cevent =
    WroteHandshake "error option"
  | GotMethod method_code
  | AuthDone "error option"
  | GotReply reply addr

text \<open>\<open>buf\<close> is the shared allocation of \<open>out\<close> and \<open>rbuf\<close>, which never overlap: an append past the part of \<open>out\<close> moves it.\<close>

record hs =
  h_mode :: mode
  h_version :: nat
  h_cmd :: command
  h_userID :: string
  h_auth :: "cauth option"
  h_pipe :: "pipeliner option"
  h_offered :: method_code
  h_offerNoAuth :: bool
  h_method :: method_code
  h_authLen :: nat
  h_authMin :: nat
  h_userPass :: bool
  h_username :: string
  h_password :: string
  h_authRequest :: bytes
  h_out :: bytes
  h_greetingEnd :: nat
  h_authEnd :: nat
  h_target :: addr
  h_readStage :: string
  h_rbuf :: bytes
  h_msgStart :: nat
  h_filled :: nat
  h_readErr :: "error option"
  h_bound :: addr
  h_events :: "cevent list"

definition zero_hs :: hs where
  "zero_hs = \<lparr>h_mode = 0, h_version = 0, h_cmd = 0, h_userID = [], h_auth = None, h_pipe = None, h_offered = 0,
     h_offerNoAuth = False, h_method = 0, h_authLen = 0, h_authMin = 0, h_userPass = False, h_username = [],
     h_password = [], h_authRequest = [], h_out = [], h_greetingEnd = 0, h_authEnd = 0, h_target = zeroAddr,
     h_readStage = [], h_rbuf = [], h_msgStart = 0, h_filled = 0, h_readErr = None, h_bound = zeroAddr, h_events = []\<rparr>"

definition maxReplyBytes :: nat where "maxReplyBytes = 65536"

definition hook1 :: "cevent \<Rightarrow> hs \<Rightarrow> hs" where
  "hook1 e h = h\<lparr>h_events := h_events h @ [e]\<rparr>"

text \<open>\<open>asUserPass\<close>: \<open>None\<close> if it is none.\<close>

fun asUserPass :: "cauth \<Rightarrow> error + (string \<times> string) option" where
  "asUserPass (CUserPass u p) = Inr (Some (u, p))"
| "asUserPass CNilUserPass = Inl (ESent errNilUserPass)"
| "asUserPass (COther m f p) = Inr None"

definition setAuth :: "cauth \<Rightarrow> bool \<Rightarrow> hs \<Rightarrow> error + hs" where
  "setAuth a offerNoAuth h =
     (case asUserPass a of
        Inl e \<Rightarrow> Inl e
      | Inr up \<Rightarrow>
          let h1 = (case up of Some (u, p) \<Rightarrow> h\<lparr>h_userPass := True, h_username := u, h_password := p\<rparr> | None \<Rightarrow> h);
              h2 = h1\<lparr>h_offered := cauth_Method a\<rparr>
          in if h_offered h2 = MethodNoAcceptable then Inl (ESent errNoAcceptable)
             else let h3 = h2\<lparr>h_auth := Some a, h_offerNoAuth := (offerNoAuth \<and> h_offered h2 \<noteq> MethodNoAuth), h_pipe := cauth_pipe a\<rparr>
                  in if h_pipe h3 = None \<and> h_mode h3 \<noteq> ModeSequential then Inl (ESent ErrNotPipelinable) else Inr h3)"

definition authReqStage :: "hs \<Rightarrow> string" where
  "authReqStage h = (if h_userPass h then StageUserPass else StageAuth)"

definition authRepStage :: "hs \<Rightarrow> string" where
  "authRepStage h = (if h_userPass h then StageUserPassStatus else StageAuth)"

definition preparePipelined :: "pipeliner \<Rightarrow> hs \<Rightarrow> error + hs" where
  "preparePipelined p h =
     (let r = (if h_userPass h then
                 (if length (h_username h) > 255 \<or> length (h_password h) > 255 then Inl (ESent errLongUserPass)
                  else Inr (h\<lparr>h_authLen := 3 + length (h_username h) + length (h_password h)\<rparr>))
               else (case pl_AppendRequest p [] of
                       (b, Some e) \<Rightarrow> Inl e
                     | (b, None) \<Rightarrow> Inr (h\<lparr>h_authRequest := b, h_authLen := length b\<rparr>)))
      in case r of
           Inl e \<Rightarrow> Inl e
         | Inr h1 \<Rightarrow>
             (case pl_ParseReply p [] of
                (n, Some e) \<Rightarrow> Inr (if IsS e ErrIncomplete then h1\<lparr>h_authMin := nat (max n 0)\<rparr> else h1)
              | (n, None) \<Rightarrow> Inr h1))"

definition init5 :: "cconfig \<Rightarrow> hs \<Rightarrow> error + hs" where
  "init5 cfg h =
     (if cc_OfferNoAuth cfg \<and> h_mode h \<noteq> ModeSequential then Inl (ESent errOfferNoAuth)
      else let h1 = h\<lparr>h_offered := MethodNoAuth\<rparr> in
        case cc_Auth cfg of
          None \<Rightarrow> Inr h1
        | Some a \<Rightarrow>
            (case setAuth a (cc_OfferNoAuth cfg) h1 of
               Inl e \<Rightarrow> Inl e
             | Inr h2 \<Rightarrow> (case h_pipe h2 of None \<Rightarrow> Inr h2 | Some p \<Rightarrow> preparePipelined p h2)))"

definition init4 :: "cauth option \<Rightarrow> hs \<Rightarrow> error + hs" where
  "init4 auth h =
     (if h_cmd h \<noteq> CmdConnect \<and> h_cmd h \<noteq> CmdBind
      then Inl (EWrap (''socks0: SOCKS4 has no '' @ Command_String (h_cmd h) @ '': %w'') [ESent ErrorsErrUnsupported])
      else case auth of
        None \<Rightarrow> Inr h
      | Some a \<Rightarrow>
          (case asUserPass a of
             Inl e \<Rightarrow> Inl e
           | Inr None \<Rightarrow> Inl (ESent errAuthSOCKS4)
           | Inr (Some (u, p)) \<Rightarrow> if p \<noteq> [] then Inl (ESent errAuthSOCKS4) else Inr (h\<lparr>h_userID := u\<rparr>)))"

definition hs_init :: "cconfig \<Rightarrow> command \<Rightarrow> hs \<Rightarrow> error + hs" where
  "hs_init cfg cmd h =
     (let h1 = h\<lparr>h_mode := cc_Mode cfg, h_cmd := cmd\<rparr> in
      if h_mode h1 > ModeEarly then Inl (EStr (''socks0: unknown '' @ Mode_String (h_mode h1)))
      else
        let h2 = (if h_mode h1 = ModeEarly \<and> cmd \<noteq> CmdConnect then h1\<lparr>h_mode := ModePipelined\<rparr> else h1) in
        if cc_Version cfg = 0 \<or> cc_Version cfg = 5 then init5 cfg (h2\<lparr>h_version := 5\<rparr>)
        else if cc_Version cfg = 4 then
          (if cc_OfferNoAuth cfg then Inl (ESent errOfferNoAuth) else init4 (cc_Auth cfg) (h2\<lparr>h_version := 4\<rparr>))
        else Inl (EStr (''socks0: unknown Config.Version '' @ nat_string (cc_Version cfg))))"

definition append5 :: "addr \<Rightarrow> hs \<Rightarrow> hs \<times> bytes \<times> error option" where
  "append5 a h =
     (let out1 = (if h_offerNoAuth h then fst (AppendGreeting [] [h_offered h, MethodNoAuth])
                  else fst (AppendGreeting [] [h_offered h]));
          out2 = (if h_mode h = ModeSequential then out1
                  else if h_userPass h then fst (AppendUserPass out1 (h_username h) (h_password h))
                  else out1 @ h_authRequest h);
          (out3, err) = AppendRequest out2 (h_cmd h) a
      in (h\<lparr>h_greetingEnd := length out1, h_authEnd := length out2\<rparr>, out3, err))"

definition writeStage :: "nat \<Rightarrow> hs \<Rightarrow> string" where
  "writeStage n h =
     (if h_version h = 4 \<and> n < length (h_out h) then StageRequest4
      else if h_version h = 4 then StageReply4
      else if n < h_greetingEnd h then StageGreeting
      else if n < h_authEnd h then authReqStage h
      else StageRequest)"

definition replyStage :: "hs \<Rightarrow> string" where
  "replyStage h = (if h_version h = 4 then StageReply4 else StageReply)"

definition setTarget :: "addr \<Rightarrow> hs \<Rightarrow> error + hs" where
  "setTarget a h =
     (let rlen = (if h_version h = 4 then 8 else 2 + h_authMin h + 22);
          (h1, out, err) =
            (if h_version h = 4 then (case AppendRequest4 [] (h_cmd h) a (h_userID h) of (d, e) \<Rightarrow> (h, d, e))
             else append5 a h)
      in case err of
           Some e \<Rightarrow> Inl e
         | None \<Rightarrow>
             let h2 = h1\<lparr>h_target := a, h_out := out\<rparr>
             in Inr (h2\<lparr>h_readStage := (if h_version h = 5 then StageMethodSelection else writeStage (length out) h2),
                        h_rbuf := replicate rlen 0\<rparr>))"

section \<open>Reading the replies\<close>

text \<open>\<open>readNext\<close>: the loop, then with its stage. It returns the last value of \<open>parse\<close>; \<open>None\<close> is a read of no bytes for ever.\<close>

definition h_input :: "hs \<Rightarrow> bytes" where
  "h_input h = slice (h_msgStart h) (h_filled h) (h_rbuf h)"

definition read_more :: "nat \<Rightarrow> hs \<Rightarrow> cnet \<Rightarrow> hs \<times> cnet" where
  "read_more need h c =
     (let buf = (if need > length (h_rbuf h) then take (h_filled h) (h_rbuf h) @ replicate (need - h_filled h) 0 else h_rbuf h);
          (got, e, s) = stream_read (need - h_filled h) (cn_rd c)
      in (h\<lparr>h_rbuf := overwrite (h_filled h) got buf, h_filled := h_filled h + length got, h_readErr := e\<rparr>, c\<lparr>cn_rd := s\<rparr>))"

partial_function (option) readLoop ::
  "string \<Rightarrow> nat \<Rightarrow> (bytes \<Rightarrow> 'v \<times> int \<times> error option) \<Rightarrow> hs \<Rightarrow> cnet
   \<Rightarrow> (hs \<times> cnet \<times> 'v \<times> error option) option" where
  "readLoop stage ahead parse h c =
     (let b = h_input h in
      case parse b of
        (v, n, None) \<Rightarrow> Some (h\<lparr>h_msgStart := h_msgStart h + nat (min (max n 0) (int (length b)))\<rparr>, c, v, None)
      | (v, n, Some e) \<Rightarrow>
          if \<not> is_incomplete e then Some (h, c, v, Some e)
          else case h_readErr h of
            Some re \<Rightarrow> Some (h, c, v, Some (Truncated stage re))
          | None \<Rightarrow>
              let need = h_msgStart h + nat (max n (int (length b) + 1)) + ahead in
              if need > length (h_rbuf h) \<and> need > maxReplyBytes then Some (h, c, v, Some (ESent errLongAuth))
              else (case read_more need h c of (h1, c1) \<Rightarrow> readLoop stage ahead parse h1 c1))"

definition readNext ::
  "string \<Rightarrow> nat \<Rightarrow> (bytes \<Rightarrow> 'v \<times> int \<times> error option) \<Rightarrow> hs \<Rightarrow> cnet
   \<Rightarrow> (hs \<times> cnet \<times> 'v \<times> error option) option" where
  "readNext stage ahead parse h c = readLoop stage ahead parse (h\<lparr>h_readStage := stage\<rparr>) c"

type_synonym hs_error = "(string \<times> error) option"

definition hs_fail :: "hs \<Rightarrow> error \<Rightarrow> hs_error" where
  "hs_fail h e = Some (h_readStage h, e)"

definition readMethod :: "nat \<Rightarrow> hs \<Rightarrow> cnet \<Rightarrow> (hs \<times> cnet \<times> hs_error) option" where
  "readMethod ahead h c =
     Option.bind (readNext StageMethodSelection ahead (\<lambda>b. case ParseMethodSelection b of (m, n, e) \<Rightarrow> (m, int n, e)) h c)
       (\<lambda>(h1, c1, m, err).
          case err of
            Some e \<Rightarrow> Some (h1, c1, hs_fail h1 e)
          | None \<Rightarrow>
              let h2 = (hook1 (GotMethod m) h1)\<lparr>h_method := m\<rparr> in
              if m \<noteq> h_offered h2 \<and> (\<not> h_offerNoAuth h2 \<or> m \<noteq> MethodNoAuth)
              then Some (h2, c1, hs_fail h2 (EMethod (h_offered h2) m (h_offerNoAuth h2)))
              else Some (h2, c1, None))"

definition checkBound :: "addr \<Rightarrow> hs \<Rightarrow> error option" where
  "checkBound bound h =
     (let cmd = h_cmd h in
      if (cmd = CmdUDPAssociate \<or> cmd = CmdBind) \<and> Port_of bound = 0
      then Some (EProtocol (replyStage h) FieldPORT 0 [] None)
      else if (cmd = CmdTorResolve \<and> \<not> ip_IsValid (IP_of bound)) \<or> (cmd = CmdTorResolvePTR \<and> \<not> IsName bound)
      then Some (EProtocol StageReply FieldATYP (addr_ATYP bound) [] None)
      else None)"

text \<open>The parse function of \<open>nextReply\<close>: the reply, and whether VER and REP were there.\<close>

definition parseReplyV :: "hs \<Rightarrow> bytes \<Rightarrow> (reply \<times> addr \<times> bool) \<times> int \<times> error option" where
  "parseReplyV h b =
     (case (if h_version h = 4 then ParseReply4 b else ParseReply b (h_cmd h)) of
        ((rep, bound), n, err) \<Rightarrow>
          ((rep, bound, length b > 1 \<and> b ! 0 = (if h_version h = 4 then 0 else Version5)), int n, err))"

definition nextReply :: "hs \<Rightarrow> cnet \<Rightarrow> (hs \<times> cnet \<times> reply \<times> addr \<times> error option) option" where
  "nextReply h c =
     Option.bind (readNext (replyStage h) 0 (parseReplyV h) h c)
       (\<lambda>(h1, c1, (rep, bound, gotVerRep), err).
          if gotVerRep \<and> rep \<noteq> (if h_version h = 4 then Reply4Granted else ReplySucceeded)
          then (let bound1 = (if err \<noteq> None then zeroAddr else bound)
                in Some (h1, c1, rep, bound1, Some (EReply rep bound1 (h_version h))))
          else Some (h1, c1, rep, bound, err))"

definition readReply :: "hs \<Rightarrow> cnet \<Rightarrow> (hs \<times> cnet \<times> hs_error) option" where
  "readReply h c =
     Option.bind (nextReply h c)
       (\<lambda>(h1, c1, rep, bound, err).
          let h2 = (if (case err of None \<Rightarrow> True | Some e \<Rightarrow> is_EReply e) then hook1 (GotReply rep bound) h1 else h1);
              err1 = (if err = None then checkBound bound h2 else err)
          in case err1 of
               Some e \<Rightarrow> Some (h2, c1, hs_fail h2 e)
             | None \<Rightarrow> Some (h2\<lparr>h_bound := bound\<rparr>, c1, None))"

definition readSecondReply :: "hs \<Rightarrow> cnet \<Rightarrow> (hs \<times> cnet \<times> addr \<times> error option) option" where
  "readSecondReply h c =
     Option.bind (nextReply (h\<lparr>h_msgStart := 0, h_filled := 0\<rparr>) c)
       (\<lambda>(h1, c1, rep, peer, err). Some (h1, c1, peer, err))"

definition readReplies :: "hs \<Rightarrow> cnet \<Rightarrow> (hs \<times> cnet \<times> hs_error) option" where
  "readReplies h c =
     (if h_version h = 4 then readReply h c
      else Option.bind (readMethod (5 + h_authMin h) h c)
        (\<lambda>(h1, c1, he).
           if he \<noteq> None then Some (h1, c1, he)
           else case h_pipe h1 of
             None \<Rightarrow> readReply h1 c1
           | Some p \<Rightarrow>
               Option.bind (readNext (authRepStage h1) 5 (\<lambda>b. ((), pl_ParseReply p b)) h1 c1)
                 (\<lambda>(h2, c2, u, err).
                    let h3 = hook1 (AuthDone err) h2 in
                    case err of
                      Some e \<Rightarrow> Some (h3, c2, hs_fail h3 e)
                    | None \<Rightarrow> readReply h3 c2)))"

section \<open>Running it\<close>

definition wipe_range :: "hs \<Rightarrow> bytes \<Rightarrow> bytes" where
  "wipe_range h b =
     (if h_authEnd h \<le> length b
      then overwrite (h_greetingEnd h) (replicate (h_authEnd h - h_greetingEnd h) 0) b else b)"

text \<open>\<open>wipe\<close> for the handshake's own buffers; \<open>wipe_range\<close> is what it does to a copy.\<close>

definition wipe :: "hs \<Rightarrow> hs" where
  "wipe h = h\<lparr>h_out := wipe_range h (h_out h), h_authRequest := replicate (length (h_authRequest h)) 0\<rparr>"

definition authenticate :: "cauth \<Rightarrow> hs \<Rightarrow> cnet \<Rightarrow> (hs \<times> cnet \<times> hs_error) option" where
  "authenticate a h c =
     Option.bind (cauth_Authenticate a c)
       (\<lambda>(c1, err).
          let n = length (cn_written c1) - length (cn_written c); h1 = hook1 (AuthDone err) h in
          case err of
            None \<Rightarrow> Some (h1, c1, None)
          | Some e \<Rightarrow>
              Some (h1, c1, Some (case err_As is_EProtocol e of
                                    Some (EProtocol st f g hi w) \<Rightarrow> st
                                  | _ \<Rightarrow> if n < h_authLen h then authReqStage h else authRepStage h, e)))"

definition runSequential :: "hs \<Rightarrow> cnet \<Rightarrow> (hs \<times> cnet \<times> hs_error) option" where
  "runSequential h c =
     (case cnet_write (take (h_greetingEnd h) (h_out h)) c of
        (c1, n, werr) \<Rightarrow>
          let h1 = hook1 (WroteHandshake werr) h in
          case werr of
            Some e \<Rightarrow> Some (h1, c1, Some (StageGreeting, e))
          | None \<Rightarrow>
              Option.bind (readMethod 0 h1 c1)
                (\<lambda>(h2, c2, he).
                   if he \<noteq> None then Some (h2, c2, he)
                   else Option.bind
                     (case h_auth h2 of
                        Some a \<Rightarrow> if h_method h2 = h_offered h2 then authenticate a h2 c2 else Some (h2, c2, None)
                      | None \<Rightarrow> Some (h2, c2, None))
                     (\<lambda>(h3, c3, he3).
                        if he3 \<noteq> None then Some (h3, c3, he3)
                        else case cnet_write (drop (h_authEnd h3) (h_out h3)) c3 of
                          (c4, n4, Some e) \<Rightarrow> Some (h3, c4, Some (StageRequest, e))
                        | (c4, n4, None) \<Rightarrow> readReply h3 c4)))"

definition hs_run :: "hs \<Rightarrow> cnet \<Rightarrow> (hs \<times> cnet \<times> hs_error) option" where
  "hs_run h c =
     (if h_mode h = ModeSequential \<and> h_version h = 5 then runSequential h c
      else case cnet_write (h_out h) c of
        (c1, n, werr) \<Rightarrow>
          let h1 = hook1 (WroteHandshake werr) (wipe h) in
          case werr of
            Some e \<Rightarrow> Some (h1, c1, Some (writeStage n h1, e))
          | None \<Rightarrow> readReplies h1 c1)"

end
