(* ===== verification/ClientReplies.thy ===== *)
theory ClientReplies
  imports ClientHandshake ServerAuth
begin

text \<open>
  What the client's reader returns: a function of the proxy's byte string alone, however the bytes arrive, and
  never a byte read past the messages it expects.
\<close>

section \<open>The reader's invariant\<close>

definition cinv :: "hs \<Rightarrow> cnet \<Rightarrow> bool" where
  "cinv h c \<longleftrightarrow> h_msgStart h \<le> h_filled h \<and> h_filled h \<le> length (h_rbuf h)
     \<and> (\<forall>e. h_readErr h = Some e \<longrightarrow> cn_rd c = Stop [] e)"

text \<open>The proxy's bytes not consumed yet.\<close>

definition unread :: "hs \<Rightarrow> cnet \<Rightarrow> bytes" where
  "unread h c = h_input h @ stream_bytes (cn_rd c)"

text \<open>Only the reader's own fields and the stream have changed.\<close>

definition rview :: "hs \<Rightarrow> hs" where
  "rview h = h\<lparr>h_rbuf := [], h_msgStart := 0, h_filled := 0, h_readErr := None\<rparr>"

definition rframe :: "hs \<Rightarrow> cnet \<Rightarrow> hs \<Rightarrow> cnet \<Rightarrow> bool" where
  "rframe h c h' c' \<longleftrightarrow> rview h' = rview h \<and> cn_written c' = cn_written c \<and> cn_room c' = cn_room c
     \<and> stream_end (cn_rd c') = stream_end (cn_rd c)"

lemma rframe_refl [simp]: "rframe h c h c"
  by (simp add: rframe_def)

lemma rframe_trans: "rframe h c h1 c1 \<Longrightarrow> rframe h1 c1 h2 c2 \<Longrightarrow> rframe h c h2 c2"
  by (simp add: rframe_def)

lemma rframeD:
  assumes "rframe h c h' c'"
  shows "h_version h' = h_version h" "h_cmd h' = h_cmd h" "h_pipe h' = h_pipe h" "h_offered h' = h_offered h"
    "h_offerNoAuth h' = h_offerNoAuth h" "h_method h' = h_method h" "h_authMin h' = h_authMin h" "h_userPass h' = h_userPass h"
    "h_readStage h' = h_readStage h" "h_events h' = h_events h" "h_bound h' = h_bound h" "h_out h' = h_out h"
    "h_auth h' = h_auth h" "h_authEnd h' = h_authEnd h" "h_authLen h' = h_authLen h" "h_mode h' = h_mode h"
    "stream_end (cn_rd c') = stream_end (cn_rd c)" "cn_written c' = cn_written c" "cn_room c' = cn_room c"
  using assms by (cases h; cases h'; simp add: rframe_def rview_def)+

lemma length_h_input: "cinv h c \<Longrightarrow> length (h_input h) = h_filled h - h_msgStart h"
  by (simp add: cinv_def h_input_def)

lemma read_more_facts:
  assumes i: "cinv h c" and e: "h_readErr h = None" and n: "h_filled h < need" and r: "read_more need h c = (h1, c1)"
  shows "cinv h1 c1" "rframe h c h1 c1" "unread h1 c1 = unread h c" "h_msgStart h1 = h_msgStart h"
    "h_filled h \<le> h_filled h1" "h_filled h1 \<le> need"
    "weight (cn_rd c1) + (if h_readErr h1 = None then 1 else 0) \<le> weight (cn_rd c)"
proof -
  define buf where "buf = (if need > length (h_rbuf h) then take (h_filled h) (h_rbuf h) @ replicate (need - h_filled h) 0 else h_rbuf h)"
  obtain got err s where st: "stream_read (need - h_filled h) (cn_rd c) = (got, err, s)" by (metis prod_cases3)
  note rb = stream_read_bytes [OF st]
  have fl: "h_msgStart h \<le> h_filled h" "h_filled h \<le> length (h_rbuf h)" using i by (simp_all add: cinv_def)
  have len: "h_filled h + length got \<le> length buf" using rb fl n by (auto simp: buf_def)
  have tk: "take (h_filled h) buf = take (h_filled h) (h_rbuf h)" using fl by (simp add: buf_def)
  have eq: "h1 = h\<lparr>h_rbuf := overwrite (h_filled h) got buf, h_filled := h_filled h + length got, h_readErr := err\<rparr>" "c1 = c\<lparr>cn_rd := s\<rparr>"
    using r st by (simp_all add: read_more_def Let_def buf_def)
  have "slice (h_msgStart h) (h_filled h + length got) (overwrite (h_filled h) got buf) = slice (h_msgStart h) (h_filled h) buf @ got"
    using fl len by (intro slice_overwrite_grow) auto
  also have "slice (h_msgStart h) (h_filled h) buf = h_input h"
    using tk fl by (simp add: h_input_def slice_def take_drop)
  finally have inp: "h_input h1 = h_input h @ got" by (simp add: h_input_def eq)
  show "cinv h1 c1"
    using fl len stream_read_Some [of "need - h_filled h" "cn_rd c" got] st rb by (auto simp: cinv_def eq)
  show "rframe h c h1 c1" using rb by (simp add: rframe_def rview_def eq)
  show "unread h1 c1 = unread h c" using inp rb by (simp add: unread_def eq)
  show "h_msgStart h1 = h_msgStart h" "h_filled h \<le> h_filled h1" by (simp_all add: eq)
  show "h_filled h1 \<le> need" using rb n by (auto simp: eq)
  show "weight (cn_rd c1) + (if h_readErr h1 = None then 1 else 0) \<le> weight (cn_rd c)"
    using stream_read_weight [OF _ st] n by (simp add: eq)
qed

section \<open>One message\<close>

text \<open>The reader took \<open>n\<close> bytes and has at most \<open>hi\<close> in its buffer.\<close>

definition took :: "nat \<Rightarrow> nat \<Rightarrow> hs \<Rightarrow> cnet \<Rightarrow> hs \<Rightarrow> cnet \<Rightarrow> bool" where
  "took n hi h c h' c' \<longleftrightarrow>
     cinv h' c' \<and> rframe h c h' c' \<and> unread h' c' = drop n (unread h c)
   \<and> h_msgStart h' = h_msgStart h + n \<and> h_filled h' \<le> max (h_filled h) hi"

text \<open>\<open>q\<close> is \<open>p\<close> for the loop, which ignores the length that comes with a final error.\<close>

definition agrees :: "(bytes \<Rightarrow> 'v \<times> int \<times> error option) \<Rightarrow> (bytes \<Rightarrow> 'v \<times> nat \<times> error option) \<Rightarrow> bool" where
  "agrees q p \<longleftrightarrow>
     (\<forall>b v n e. p b = (v, n, e) \<longrightarrow>
        (if \<exists>x. e = Some x \<and> \<not> is_incomplete x then \<exists>m. q b = (v, m, e) else q b = (v, int n, e)))"

lemma agreesD:
  assumes "agrees q p"
  shows "p b = (v, n, None) \<Longrightarrow> q b = (v, int n, None)"
    and "p b = (v, n, Some x) \<Longrightarrow> is_incomplete x \<Longrightarrow> q b = (v, int n, Some x)"
    and "p b = (v, n, Some x) \<Longrightarrow> \<not> is_incomplete x \<Longrightarrow> \<exists>m. q b = (v, m, Some x)"
proof -
  note a = assms [unfolded agrees_def, rule_format]
  show "p b = (v, n, None) \<Longrightarrow> q b = (v, int n, None)" using a [of b v n None] by simp
  show "p b = (v, n, Some x) \<Longrightarrow> is_incomplete x \<Longrightarrow> q b = (v, int n, Some x)" using a [of b v n "Some x"] by simp
  show "p b = (v, n, Some x) \<Longrightarrow> \<not> is_incomplete x \<Longrightarrow> \<exists>m. q b = (v, m, Some x)" using a [of b v n "Some x"] by simp
qed

lemma agrees_intp: "agrees (intp p) p"
  by (auto simp: agrees_def intp_def)

context bounded_parse
begin

lemma readLoop_asks:
  assumes i: "cinv h c" and p: "parse (h_input h) = (v, n, Some e)" and inc: "is_incomplete e" and re: "h_readErr h = None"
    and lim: "h_msgStart h + maxlen + ahead \<le> maxReplyBytes" and q: "agrees q parse"
  obtains h1 c1 where "readLoop stage ahead q h c = readLoop stage ahead q h1 c1"
    "cinv h1 c1" "rframe h c h1 c1" "unread h1 c1 = unread h c" "h_msgStart h1 = h_msgStart h"
    "h_filled h1 \<le> max (h_filled h) (h_msgStart h + n + ahead)"
    "weight (cn_rd c1) + (if h_readErr h1 = None then 1 else 0) \<le> weight (cn_rd c)" "n \<le> maxlen"
proof -
  have n: "length (h_input h) < n" "n \<le> maxlen" using inc_len [OF p inc] inc_max [OF p inc] by auto
  let ?need = "h_msgStart h + nat (max (int n) (int (length (h_input h)) + 1)) + ahead"
  have eq: "?need = h_msgStart h + n + ahead" using n by simp
  have f: "h_filled h < ?need" using n i length_h_input [OF i] unfolding eq by (auto simp: cinv_def)
  obtain h1 c1 where r: "read_more ?need h c = (h1, c1)" by fastforce
  note m = read_more_facts [OF i re f r]
  have "readLoop stage ahead q h c = readLoop stage ahead q h1 c1"
    using agreesD(2) [OF q p inc] inc re r n lim
    by (subst readLoop.simps) (simp add: Let_def)
  then show ?thesis using that m n(2) unfolding eq by simp
qed

lemma readLoop_ok:
  assumes "cinv h c" and "parse (unread h c) = (v, n, None)" and "h_msgStart h + maxlen + ahead \<le> maxReplyBytes" and "agrees q parse"
  shows "\<exists>h' c'. readLoop stage ahead q h c = Some (h', c', v, None) \<and> took n (h_msgStart h + n + ahead) h c h' c'"
  using assms
proof (induction "weight (cn_rd c) + (if h_readErr h = None then 1 else 0)" arbitrary: h c rule: less_induct)
  case less
  note i = less.prems(1) and whole = less.prems(2)
  obtain w m r where p: "parse (h_input h) = (w, m, r)" by (cases "parse (h_input h)")
  show ?case
  proof (cases r)
    case None
    have wm: "w = v" "m = n" using ok_unique [OF p [unfolded None]] whole by (auto simp: unread_def)
    have len: "n \<le> length (h_input h)" using ok_len p None wm by blast
    let ?h = "h\<lparr>h_msgStart := h_msgStart h + n\<rparr>"
    have "readLoop stage ahead q h c = Some (?h, c, v, None)"
      using agreesD(1) [OF less.prems(4) p [unfolded None]] wm len by (subst readLoop.simps) (simp add: Let_def)
    moreover have "h_input ?h = drop n (h_input h)" by (simp add: h_input_def drop_slice)
    then have "unread ?h c = drop n (unread h c)" using len by (simp add: unread_def)
    moreover have "cinv ?h c" using i len length_h_input [OF i] by (auto simp: cinv_def)
    ultimately show ?thesis by (auto simp: took_def rframe_def rview_def)
  next
    case (Some e)
    have inc: "is_incomplete e" using err_final [OF p [unfolded Some], of "stream_bytes (cn_rd c)"] whole by (auto simp: unread_def)
    have re: "h_readErr h = None"
    proof (rule ccontr)
      assume "h_readErr h \<noteq> None"
      then have "stream_bytes (cn_rd c) = []" using i by (auto simp: cinv_def)
      then show False using p Some whole by (simp add: unread_def)
    qed
    obtain h1 c1 where s: "readLoop stage ahead q h c = readLoop stage ahead q h1 c1"
      "cinv h1 c1" "rframe h c h1 c1" "unread h1 c1 = unread h c" "h_msgStart h1 = h_msgStart h"
      "h_filled h1 \<le> max (h_filled h) (h_msgStart h + m + ahead)"
      "weight (cn_rd c1) + (if h_readErr h1 = None then 1 else 0) \<le> weight (cn_rd c)"
      using readLoop_asks [OF i p [unfolded Some] inc re less.prems(3,4)] by blast
    have "m \<le> n" using inc_bound [OF p [unfolded Some] inc, of "stream_bytes (cn_rd c)"] whole by (simp add: unread_def)
    have "weight (cn_rd c1) + (if h_readErr h1 = None then 1 else 0) < weight (cn_rd c) + (if h_readErr h = None then 1 else 0)"
      using s(7) re by simp
    moreover have "parse (unread h1 c1) = (v, n, None)" using whole s(4) by simp
    moreover have "h_msgStart h1 + maxlen + ahead \<le> maxReplyBytes" using less.prems(3) s(5) by simp
    ultimately obtain h' c' where "readLoop stage ahead q h1 c1 = Some (h', c', v, None)"
        "took n (h_msgStart h1 + n + ahead) h1 c1 h' c'"
      using less.hyps [OF _ s(2)] less.prems(4) by blast
    then show ?thesis
      using s \<open>m \<le> n\<close> rframe_trans [OF s(3)] by (auto simp: took_def)
  qed
qed

text \<open>On an error the last parse saw a prefix of the bytes, all of them if it asked for more.\<close>

lemma readLoop_err:
  assumes "cinv h c" and "parse (unread h c) = (v, n, Some e)" and "h_msgStart h + maxlen + ahead \<le> maxReplyBytes" and "agrees q parse"
  shows "\<exists>h' c' w m e' b x. readLoop stage ahead q h c =
      Some (h', c', w, Some (if is_incomplete e then Truncated stage (stream_end (cn_rd c)) else e))
    \<and> cinv h' c' \<and> rframe h c h' c' \<and> unread h c = b @ x \<and> parse b = (w, m, Some e')
    \<and> (if is_incomplete e then x = [] else e' = e)"
  using assms
proof (induction "weight (cn_rd c) + (if h_readErr h = None then 1 else 0)" arbitrary: h c rule: less_induct)
  case less
  note i = less.prems(1) and whole = less.prems(2)
  obtain w m r where p: "parse (h_input h) = (w, m, r)" by (cases "parse (h_input h)")
  show ?case
  proof (cases r)
    case None
    then show ?thesis using ok_append [of "h_input h" w m "stream_bytes (cn_rd c)"] p whole by (simp add: unread_def)
  next
    case (Some e')
    note p = p [unfolded Some]
    show ?thesis
    proof (cases "is_incomplete e'")
      case False
      have "e' = e" using err_final [OF p False, of "stream_bytes (cn_rd c)"] whole by (auto simp: unread_def)
      then have "readLoop stage ahead q h c = Some (h, c, w, Some e)"
        using agreesD(3) [OF less.prems(4) p False] False by (subst readLoop.simps) (auto simp: Let_def)
      then show ?thesis
        using i False p \<open>e' = e\<close> by (intro exI [of _ h] exI [of _ c] exI [of _ w] exI [of _ m] exI [of _ e'] exI [of _ "h_input h"]
            exI [of _ "stream_bytes (cn_rd c)"]) (simp add: unread_def)
    next
      case inc: True
      show ?thesis
      proof (cases "h_readErr h")
        case (Some re)
        then have z: "stream_bytes (cn_rd c) = []" "stream_end (cn_rd c) = re" using i by (auto simp: cinv_def)
        then have "e' = e" using p whole by (simp add: unread_def)
        moreover have "readLoop stage ahead q h c = Some (h, c, w, Some (Truncated stage re))"
          using agreesD(2) [OF less.prems(4) p inc] inc Some by (subst readLoop.simps) (simp add: Let_def)
        ultimately show ?thesis
          using i inc p z by (intro exI [of _ h] exI [of _ c] exI [of _ w] exI [of _ m] exI [of _ e'] exI [of _ "h_input h"]
              exI [of _ "[]"]) (simp add: unread_def)
      next
        case None
        obtain h1 c1 where s: "readLoop stage ahead q h c = readLoop stage ahead q h1 c1"
          "cinv h1 c1" "rframe h c h1 c1" "unread h1 c1 = unread h c" "h_msgStart h1 = h_msgStart h"
          "weight (cn_rd c1) + (if h_readErr h1 = None then 1 else 0) \<le> weight (cn_rd c)"
          using readLoop_asks [OF i p inc None less.prems(3,4)] by blast
        have wt: "weight (cn_rd c1) + (if h_readErr h1 = None then 1 else 0) < weight (cn_rd c) + (if h_readErr h = None then 1 else 0)"
          using s(6) None by simp
        have pu: "parse (unread h1 c1) = (v, n, Some e)" and li: "h_msgStart h1 + maxlen + ahead \<le> maxReplyBytes"
          and se: "stream_end (cn_rd c1) = stream_end (cn_rd c)"
          using whole less.prems(3) s by (simp_all add: rframe_def)
        show ?thesis
          using less.hyps [OF wt s(2) pu li less.prems(4)] rframe_trans [OF s(3)] unfolding s(1, 4) se by blast
      qed
    qed
  qed
qed

end

section \<open>The specification on the proxy's bytes\<close>

definition msg_spec :: "string \<Rightarrow> (bytes \<Rightarrow> 'v \<times> nat \<times> error option) \<Rightarrow> error \<Rightarrow> bytes \<Rightarrow> error + 'v \<times> bytes" where
  "msg_spec stage p err d =
     (case p d of
        (v, n, None) \<Rightarrow> Inr (v, drop n d)
      | (v, n, Some e) \<Rightarrow> Inl (if is_incomplete e then Truncated stage err else e))"

definition natp0 :: "(bytes \<Rightarrow> int \<times> error option) \<Rightarrow> bytes \<Rightarrow> unit \<times> nat \<times> error option" where
  "natp0 p b =
     (case p b of (n, e) \<Rightarrow> ((), (case e of Some x \<Rightarrow> if is_incomplete x then nat n else 0 | None \<Rightarrow> nat n), e))"

definition plainReply :: "hs \<Rightarrow> bytes \<Rightarrow> (reply \<times> addr) \<times> nat \<times> error option" where
  "plainReply h d = (if h_version h = 4 then ParseReply4 d else ParseReply d (h_cmd h))"

definition gotVR :: "hs \<Rightarrow> bytes \<Rightarrow> bool" where
  "gotVR h d = (length d > 1 \<and> d ! 0 = (if h_version h = 4 then 0 else Version5))"

definition okReply :: "hs \<Rightarrow> reply" where
  "okReply h = (if h_version h = 4 then Reply4Granted else ReplySucceeded)"

definition next_reply_spec :: "hs \<Rightarrow> error \<Rightarrow> bytes \<Rightarrow> error + addr \<times> bytes" where
  "next_reply_spec h err d =
     (case plainReply h d of
        ((rep, bound), n, e) \<Rightarrow>
          if gotVR h d \<and> d ! 1 \<noteq> okReply h then Inl (EReply (d ! 1) (if e \<noteq> None then zeroAddr else bound) (h_version h))
          else case e of
            Some x \<Rightarrow> Inl (if is_incomplete x then Truncated (replyStage h) err else x)
          | None \<Rightarrow> Inr (bound, drop n d))"

definition reply_spec :: "hs \<Rightarrow> error \<Rightarrow> bytes \<Rightarrow> (string \<times> error) + addr \<times> bytes" where
  "reply_spec h err d =
     (case next_reply_spec h err d of
        Inl e \<Rightarrow> Inl (replyStage h, e)
      | Inr (bound, rest) \<Rightarrow>
          (case checkBound bound h of Some x \<Rightarrow> Inl (replyStage h, x) | None \<Rightarrow> Inr (bound, rest)))"

section \<open>Each message against its specification\<close>

context bounded_parse
begin

lemma readNext_spec:
  assumes i: "cinv h c" and q: "agrees q parse" and lim: "h_msgStart h + maxlen + ahead \<le> maxReplyBytes"
  shows "\<exists>h' c' w err. readNext stage ahead q h c = Some (h', c', w, err)
    \<and> (case msg_spec stage parse (stream_end (cn_rd c)) (unread h c) of
         Inl e \<Rightarrow> err = Some e
       | Inr (v, d) \<Rightarrow> \<exists>n. err = None \<and> w = v \<and> parse (unread h c) = (v, n, None) \<and> d = drop n (unread h c)
           \<and> took n (h_msgStart h + n + ahead) (h\<lparr>h_readStage := stage\<rparr>) c h' c')
    \<and> rframe (h\<lparr>h_readStage := stage\<rparr>) c h' c'"
proof -
  let ?h = "h\<lparr>h_readStage := stage\<rparr>"
  have i': "cinv ?h c" and u: "unread ?h c = unread h c" and s: "h_msgStart ?h = h_msgStart h"
    using i by (simp_all add: cinv_def unread_def h_input_def)
  obtain v n e where p: "parse (unread h c) = (v, n, e)" by (metis prod_cases3)
  show ?thesis
  proof (cases e)
    case None
    then show ?thesis
      using readLoop_ok [OF i', unfolded u s, OF p [unfolded None] lim q, of stage] p
      by (fastforce simp: readNext_def msg_spec_def took_def)
  next
    case (Some x)
    then show ?thesis
      using readLoop_err [OF i', unfolded u s, OF p [unfolded Some] lim q, of stage] p
      by (fastforce simp: readNext_def msg_spec_def)
  qed
qed

end

text \<open>A parser that also tells something its message's first bytes decide.\<close>

lemmas contract_ok_len = parse_contract.ok_len [OF bounded_parse.axioms(1)]
  and contract_ok_prefix = parse_contract.ok_prefix [OF bounded_parse.axioms(1)]
  and contract_inc_len = parse_contract.inc_len [OF bounded_parse.axioms(1)]
  and contract_inc_bound = parse_contract.inc_bound [OF bounded_parse.axioms(1)]
  and contract_err_final = parse_contract.err_final [OF bounded_parse.axioms(1)]

lemma bounded_parse_tells:
  assumes p: "bounded_parse p L"
    and g: "\<And>b v n x. p b = (v, n, None) \<Longrightarrow> g (take n b @ x) = g b"
  shows "bounded_parse (\<lambda>b. case p b of ((x, y), n, e) \<Rightarrow> ((x, y, g b), n, e)) L"
proof -
  show ?thesis
  proof (unfold_locales, goal_cases)
    case (1 b v n)
    then show ?case using contract_ok_len [OF p] by (auto split: prod.splits)
  next
    case (2 b v n x)
    then show ?case using contract_ok_prefix [OF p] g by (auto split: prod.splits)
  next
    case (3 b v n e)
    then show ?case using contract_inc_len [OF p] by (auto split: prod.splits)
  next
    case (4 b v n e x w m)
    then show ?case using contract_inc_bound [OF p] by (fastforce split: prod.splits)
  next
    case (5 b v n e x)
    then obtain v1 v2 where "p b = ((v1, v2), n, Some e)" by (auto split: prod.splits)
    then have "n = 0" "\<exists>w. p (b @ x) = (w, 0, Some e)" using contract_err_final [OF p] 5(2) by blast+
    then show ?case by auto
  next
    case (6 b v n e)
    then show ?case using bounded_parse.inc_max [OF p] by (auto split: prod.splits)
  qed
qed

lemma bounded_parse_mono: "bounded_parse p L \<Longrightarrow> L \<le> M \<Longrightarrow> bounded_parse p M"
  unfolding bounded_parse_def bounded_parse_axioms_def by force

lemma plainReply_bounded: "bounded_parse (plainReply h) 262"
proof -
  have "plainReply h = (if h_version h = 4 then ParseReply4 else (\<lambda>d. ParseReply d (h_cmd h)))"
    by (auto simp: plainReply_def)
  then show ?thesis
    using bounded_parse_mono [OF reply4.bounded_parse_axioms] reply.bounded_parse_axioms by simp
qed

interpretation plain_reply: bounded_parse "plainReply h" 262 for h
  by (rule plainReply_bounded)

lemma plainReply_min: "plainReply h d = (v, n, None) \<Longrightarrow> 8 \<le> n"
  using addrMessageLen_bounds
  by (auto simp: plainReply_def ParseReply4_def ParseReply_alt reply4Len_def Let_def parseAddrMessage_ok_iff
      split: if_splits option.splits prod.splits)

lemma plainReply_rep:
  assumes "plainReply h d = ((rep, bound), n, e)" and "gotVR h d"
  shows "rep = d ! 1"
  using assms
  by (auto simp: plainReply_def gotVR_def ParseReply4_def ParseReply_def Let_def checkVersion_def reply4Len_def
      split: if_splits option.splits prod.splits)

lemma plainReply_final_short:
  assumes "plainReply h d = (v, n, Some e)" and "\<not> is_incomplete e" and "\<not> length d > 1"
  shows "\<not> gotVR h (d @ x)"
proof -
  have "checkVersion d (if h_version h = 4 then 0 else Version5) (replyStage h) \<noteq> None"
    using assms
    by (auto simp: plainReply_def ParseReply4_def ParseReply_def Let_def parseAddrMessage_def reply4Len_def replyStage_def
        split: if_splits option.splits prod.splits)
  then show ?thesis by (cases d) (auto simp: checkVersion_None_iff gotVR_def)
qed

lemma gotVR_append: "length d > 1 \<Longrightarrow> gotVR h (d @ x) = gotVR h d \<and> (d @ x) ! 1 = d ! 1"
  by (auto simp: gotVR_def nth_append)

definition replyV :: "hs \<Rightarrow> bytes \<Rightarrow> (reply \<times> addr \<times> bool) \<times> nat \<times> error option" where
  "replyV h d = (case plainReply h d of ((rep, bound), n, e) \<Rightarrow> ((rep, bound, gotVR h d), n, e))"

lemma replyV_bounded: "bounded_parse (replyV h) 262"
proof -
  have "gotVR h (take n b @ x) = gotVR h b" if "plainReply h b = (v, n, None)" for b v n x
    using plainReply_min [OF that] plain_reply.ok_len [OF that] by (auto simp: gotVR_def nth_append)
  from bounded_parse_tells [OF plainReply_bounded, of h "gotVR h", OF this] show ?thesis
    by (simp add: replyV_def [abs_def])
qed

lemma parseReplyV_intp: "parseReplyV h = intp (replyV h)"
  by (rule ext) (simp add: parseReplyV_def intp_def replyV_def plainReply_def gotVR_def split: prod.splits)

lemma replyV_eq: "replyV h d = ((rep, bound, got), n, e) \<longleftrightarrow> plainReply h d = ((rep, bound), n, e) \<and> got = gotVR h d"
  by (auto simp: replyV_def split: prod.splits)

text \<open>The error with a prefix of the bytes says the same as the error with all of them.\<close>

lemma reply_error_decided:
  assumes d: "plainReply h d = ((rep, bound), n, Some e)" and b: "d = b @ x" "plainReply h b = ((rep', bound'), m, Some e')"
    and s: "if is_incomplete e then x = [] else e' = e"
  shows "gotVR h b \<and> rep' \<noteq> okReply h \<longleftrightarrow> gotVR h d \<and> d ! 1 \<noteq> okReply h"
    and "gotVR h b \<Longrightarrow> rep' = d ! 1"
proof -
  have "gotVR h b = gotVR h d \<and> (gotVR h b \<longrightarrow> rep' = d ! 1)"
  proof (cases "length b > 1")
    case True
    then show ?thesis using gotVR_append [of b h x] plainReply_rep [OF b(2)] b(1) by simp
  next
    case False
    then show ?thesis
      using s b plainReply_final_short [OF b(2), of x] by (cases "is_incomplete e") (auto simp: gotVR_def)
  qed
  then show "gotVR h b \<and> rep' \<noteq> okReply h \<longleftrightarrow> gotVR h d \<and> d ! 1 \<noteq> okReply h" and "gotVR h b \<Longrightarrow> rep' = d ! 1" by auto
qed

lemma nextReply_spec:
  assumes i: "cinv h c" and lim: "h_msgStart h + 262 \<le> maxReplyBytes"
  shows "\<exists>h' c' rep bound err. nextReply h c = Some (h', c', rep, bound, err)
    \<and> rframe (h\<lparr>h_readStage := replyStage h\<rparr>) c h' c'
    \<and> (case next_reply_spec h (stream_end (cn_rd c)) (unread h c) of
         Inl e \<Rightarrow> err = Some e
       | Inr (a, rest) \<Rightarrow> \<exists>n \<ge> 8. err = None \<and> bound = a \<and> rest = drop n (unread h c)
           \<and> took n (h_msgStart h + n) (h\<lparr>h_readStage := replyStage h\<rparr>) c h' c')"
proof -
  let ?h = "h\<lparr>h_readStage := replyStage h\<rparr>" and ?d = "unread h c"
  have i': "cinv ?h c" and u: "unread ?h c = ?d" and s: "h_msgStart ?h = h_msgStart h"
    using i by (simp_all add: cinv_def unread_def h_input_def)
  have lim': "h_msgStart h + 262 + 0 \<le> maxReplyBytes" using lim by simp
  obtain rep bound n e where p: "plainReply h ?d = ((rep, bound), n, e)" by (metis surj_pair)
  then have pv: "replyV h ?d = ((rep, bound, gotVR h ?d), n, e)" by (simp add: replyV_eq)
  show ?thesis
  proof (cases e)
    case None
    obtain h' c' where r: "readLoop (replyStage h) 0 (intp (replyV h)) ?h c = Some (h', c', (rep, bound, gotVR h ?d), None)"
      "took n (h_msgStart h + n) ?h c h' c'"
      using bounded_parse.readLoop_ok [OF replyV_bounded i', unfolded u s, OF pv [unfolded None] lim' agrees_intp, of "replyStage h"] by auto
    have "rframe ?h c h' c'" using r(2) by (simp add: took_def)
    then show ?thesis
      using r p None plainReply_rep [OF p] plainReply_min [of h ?d "(rep, bound)" n]
      by (auto simp: nextReply_def readNext_def parseReplyV_intp next_reply_spec_def okReply_def Let_def)
  next
    case (Some x)
    obtain h' c' w m e' b y where r: "readLoop (replyStage h) 0 (intp (replyV h)) ?h c =
        Some (h', c', w, Some (if is_incomplete x then Truncated (replyStage h) (stream_end (cn_rd c)) else x))"
      "rframe ?h c h' c'" "?d = b @ y" "replyV h b = (w, m, Some e')" "if is_incomplete x then y = [] else e' = x"
      using bounded_parse.readLoop_err [OF replyV_bounded i', unfolded u s, OF pv [unfolded Some] lim' agrees_intp, of "replyStage h"] by blast
    obtain rep' bound' where w: "w = (rep', bound', gotVR h b)" "plainReply h b = ((rep', bound'), m, Some e')"
      using r(4) by (cases w) (auto simp: replyV_eq)
    note dec = reply_error_decided [OF p [unfolded Some] r(3) w(2) r(5)]
    show ?thesis
      using r(1,2) w(1) p Some dec
      by (auto simp: nextReply_def readNext_def parseReplyV_intp next_reply_spec_def okReply_def Let_def)
  qed
qed

end
