(* ===== verification/ClientRefine.thy ===== *)
theory ClientRefine
  imports ClientReplies
begin

text \<open>The client's handshake against its specification on the proxy's bytes.\<close>

definition reply_post :: "hs \<Rightarrow> cnet \<Rightarrow> hs \<Rightarrow> cnet \<Rightarrow> hs_error \<Rightarrow> bool" where
  "reply_post h c h' c' he \<longleftrightarrow>
     cn_written c' = cn_written c
   \<and> (case reply_spec h (stream_end (cn_rd c)) (unread h c) of
        Inl se \<Rightarrow> he = Some se
      | Inr (a, rest) \<Rightarrow> he = None \<and> h_bound h' = a
          \<and> (h_filled h \<le> h_msgStart h + 8 \<longrightarrow> stream_bytes (cn_rd c') = rest \<and> cinv h' c' \<and> h_filled h' = h_msgStart h'))"

lemma reader_upd [simp]:
  "cinv (h\<lparr>h_method := m\<rparr>) c = cinv h c" "cinv (hook1 ev h) c = cinv h c" "cinv (h\<lparr>h_readStage := st\<rparr>) c = cinv h c"
  "unread (h\<lparr>h_method := m\<rparr>) c = unread h c" "unread (hook1 ev h) c = unread h c" "unread (h\<lparr>h_readStage := st\<rparr>) c = unread h c"
  "h_msgStart (hook1 ev h) = h_msgStart h" "h_filled (hook1 ev h) = h_filled h"
  by (simp_all add: cinv_def unread_def h_input_def hook1_def)

lemma unread_all: "cinv h c \<Longrightarrow> h_filled h \<le> h_msgStart h \<Longrightarrow> unread h c = stream_bytes (cn_rd c)"
  by (auto simp: unread_def h_input_def cinv_def)

lemma checkBound_cong:
  assumes "h_version h' = h_version h" and "h_cmd h' = h_cmd h"
  shows "checkBound a h' = checkBound a h"
  unfolding checkBound_def replyStage_def assms ..

lemma reply_spec_cong:
  assumes "h_version h' = h_version h" and "h_cmd h' = h_cmd h"
  shows "reply_spec h' err d = reply_spec h err d"
  unfolding reply_spec_def next_reply_spec_def plainReply_def gotVR_def okReply_def replyStage_def checkBound_def assms ..

lemma readReply_spec:
  assumes i: "cinv h c" and lim: "h_msgStart h + 262 \<le> maxReplyBytes"
  shows "\<exists>h' c' he. readReply h c = Some (h', c', he) \<and> reply_post h c h' c' he"
proof -
  let ?h = "h\<lparr>h_readStage := replyStage h\<rparr>"
  obtain h1 c1 rep bound err where n: "nextReply h c = Some (h1, c1, rep, bound, err)" "rframe ?h c h1 c1"
    "case next_reply_spec h (stream_end (cn_rd c)) (unread h c) of
         Inl e \<Rightarrow> err = Some e
       | Inr (a, rest) \<Rightarrow> \<exists>n \<ge> 8. err = None \<and> bound = a \<and> rest = drop n (unread h c) \<and> took n (h_msgStart h + n) ?h c h1 c1"
    using nextReply_spec [OF i lim] by blast
  have st: "h_readStage h1 = replyStage h" and w: "cn_written c1 = cn_written c"
    using rframeD(9, 18) [OF n(2)] by simp_all
  have cb: "checkBound a (hook1 ev h1) = checkBound a h" "checkBound a h1 = checkBound a h" for a ev
    using rframeD(1, 2) [OF n(2)] by (auto simp: hook1_def intro!: checkBound_cong)
  show ?thesis
  proof (cases "next_reply_spec h (stream_end (cn_rd c)) (unread h c)")
    case (Inl e)
    then show ?thesis using n st w by (auto simp: readReply_def reply_post_def reply_spec_def hs_fail_def hook1_def Let_def)
  next
    case (Inr q)
    obtain a rest where q: "q = (a, rest)" by fastforce
    obtain k where k: "8 \<le> k" "err = None" "bound = a" "rest = drop k (unread h c)" "took k (h_msgStart h + k) ?h c h1 c1"
      using n(3) Inr q by auto
    show ?thesis
    proof (cases "checkBound a h")
      case (Some x)
      then show ?thesis
        using n(1) st w k Inr q cb by (simp add: readReply_def reply_post_def reply_spec_def hs_fail_def hook1_def Let_def)
    next
      case None
      let ?h' = "(hook1 (GotReply rep a) h1)\<lparr>h_bound := a\<rparr>"
      have r: "readReply h c = Some (?h', c1, None)"
        using n(1) k cb None by (simp add: readReply_def Let_def)
      have ci: "cinv h1 c1" and un: "unread h1 c1 = rest" and fl: "h_msgStart h1 = h_msgStart h + k"
        "h_filled h1 \<le> max (h_filled h) (h_msgStart h + k)"
        using k by (simp_all add: took_def)
      have eq: "stream_bytes (cn_rd c1) = rest \<and> h_filled h1 = h_msgStart h1" if "h_filled h \<le> h_msgStart h + 8"
      proof -
        have "h_filled h1 \<le> h_msgStart h1" using that fl k(1) by simp
        moreover have "h_msgStart h1 \<le> h_filled h1" using ci by (simp add: cinv_def)
        ultimately show ?thesis using unread_all [OF ci] un by simp
      qed
      have "cinv ?h' c1" using ci by (simp add: cinv_def hook1_def)
      then show ?thesis using r w Inr q None eq by (auto simp: reply_post_def reply_spec_def hook1_def)
    qed
  qed
qed

section \<open>The method selection\<close>

definition refuses :: "hs \<Rightarrow> method_code \<Rightarrow> bool" where
  "refuses h m = (m \<noteq> h_offered h \<and> (\<not> h_offerNoAuth h \<or> m \<noteq> MethodNoAuth))"

definition method_spec :: "hs \<Rightarrow> error \<Rightarrow> bytes \<Rightarrow> (string \<times> error) + method_code \<times> bytes" where
  "method_spec h err d =
     (case msg_spec StageMethodSelection ParseMethodSelection err d of
        Inl e \<Rightarrow> Inl (StageMethodSelection, e)
      | Inr (m, d1) \<Rightarrow> if refuses h m then Inl (StageMethodSelection, EMethod (h_offered h) m (h_offerNoAuth h)) else Inr (m, d1))"

lemma ParseMethodSelection_len: "ParseMethodSelection d = (m, n, None) \<Longrightarrow> n = 2"
  by (auto simp: ParseMethodSelection_def split: option.splits if_splits)

text \<open>What a reader step keeps of the handshake.\<close>

definition same_hs :: "hs \<Rightarrow> cnet \<Rightarrow> hs \<Rightarrow> cnet \<Rightarrow> bool" where
  "same_hs h c h' c' \<longleftrightarrow>
     h_version h' = h_version h \<and> h_cmd h' = h_cmd h \<and> h_pipe h' = h_pipe h \<and> h_authMin h' = h_authMin h
   \<and> h_userPass h' = h_userPass h \<and> h_offered h' = h_offered h \<and> h_offerNoAuth h' = h_offerNoAuth h \<and> h_auth h' = h_auth h
   \<and> h_out h' = h_out h \<and> h_authEnd h' = h_authEnd h \<and> h_authLen h' = h_authLen h
   \<and> stream_end (cn_rd c') = stream_end (cn_rd c) \<and> cn_written c' = cn_written c \<and> cn_room c' = cn_room c"

lemma rframe_same: "rframe h c h' c' \<Longrightarrow> same_hs h c h' c'"
  by (simp add: same_hs_def rframeD)

lemma same_hs_trans: "same_hs h c h1 c1 \<Longrightarrow> same_hs h1 c1 h2 c2 \<Longrightarrow> same_hs h c h2 c2"
  by (simp add: same_hs_def)

lemma same_hs_upd [simp]:
  "same_hs (h\<lparr>h_readStage := st\<rparr>) c h' c' = same_hs h c h' c'" "same_hs h c (h'\<lparr>h_method := m\<rparr>) c' = same_hs h c h' c'"
  "same_hs h c (hook1 ev h') c' = same_hs h c h' c'"
  by (simp_all add: same_hs_def hook1_def)

lemma readMethod_spec:
  assumes i: "cinv h c" and lim: "h_msgStart h + 2 + ahead \<le> maxReplyBytes"
  shows "\<exists>h' c' he. readMethod ahead h c = Some (h', c', he) \<and> same_hs h c h' c'
    \<and> (case method_spec h (stream_end (cn_rd c)) (unread h c) of
         Inl se \<Rightarrow> he = Some se
       | Inr (m, d) \<Rightarrow> he = None \<and> h_method h' = m \<and> cinv h' c' \<and> unread h' c' = d \<and> h_msgStart h' = h_msgStart h + 2
           \<and> h_filled h' \<le> max (h_filled h) (h_msgStart h + 2 + ahead))"
proof -
  have q: "(\<lambda>b. case ParseMethodSelection b of (m, n, e) \<Rightarrow> (m, int n, e)) = intp ParseMethodSelection"
    by (simp add: intp_def [abs_def])
  obtain h1 c1 w err where n: "readNext StageMethodSelection ahead (intp ParseMethodSelection) h c = Some (h1, c1, w, err)"
    "rframe (h\<lparr>h_readStage := StageMethodSelection\<rparr>) c h1 c1"
    "case msg_spec StageMethodSelection ParseMethodSelection (stream_end (cn_rd c)) (unread h c) of
         Inl e \<Rightarrow> err = Some e
       | Inr (v, d) \<Rightarrow> \<exists>n. err = None \<and> w = v \<and> ParseMethodSelection (unread h c) = (v, n, None) \<and> d = drop n (unread h c)
           \<and> took n (h_msgStart h + n + ahead) (h\<lparr>h_readStage := StageMethodSelection\<rparr>) c h1 c1"
    using method_selection.readNext_spec [OF i agrees_intp lim, of StageMethodSelection] by blast
  have f: "h_readStage h1 = StageMethodSelection" "h_offered h1 = h_offered h" "h_offerNoAuth h1 = h_offerNoAuth h" "same_hs h c h1 c1"
    using rframeD(4, 5, 9) [OF n(2)] rframe_same [OF n(2)] by simp_all
  have fh: "h_offered (hook1 ev h1) = h_offered h" "h_offerNoAuth (hook1 ev h1) = h_offerNoAuth h"
    "h_readStage (hook1 ev h1) = StageMethodSelection" for ev
    using f by (simp_all add: hook1_def)
  show ?thesis
  proof (cases "msg_spec StageMethodSelection ParseMethodSelection (stream_end (cn_rd c)) (unread h c)")
    case (Inl e)
    then show ?thesis using n(1,3) f by (simp add: readMethod_def q method_spec_def hs_fail_def)
  next
    case (Inr x)
    obtain m d where x: "x = (m, d)" by fastforce
    obtain k where k: "err = None" "w = m" "ParseMethodSelection (unread h c) = (m, k, None)" "d = drop k (unread h c)"
      "took k (h_msgStart h + k + ahead) (h\<lparr>h_readStage := StageMethodSelection\<rparr>) c h1 c1"
      using n(3) Inr x by auto
    have k2: "k = 2" using ParseMethodSelection_len [OF k(3)] .
    show ?thesis
      using n(1) k(1,2,4,5) f(4) fh Inr x k2
      by (cases "refuses h m") (simp_all add: readMethod_def q method_spec_def refuses_def hs_fail_def Let_def took_def)
  qed
qed

section \<open>All the replies\<close>

definition replies_spec :: "hs \<Rightarrow> error \<Rightarrow> bytes \<Rightarrow> (string \<times> error) + addr \<times> bytes" where
  "replies_spec h err d =
     (if h_version h = 4 then reply_spec h err d
      else case method_spec h err d of
        Inl se \<Rightarrow> Inl se
      | Inr (m, d1) \<Rightarrow>
          (case h_pipe h of
             None \<Rightarrow> reply_spec h err d1
           | Some p \<Rightarrow>
               (case msg_spec (authRepStage h) (natp0 (pl_ParseReply p)) err d1 of
                  Inl e \<Rightarrow> Inl (authRepStage h, e)
                | Inr (u, d2) \<Rightarrow> reply_spec h err d2)))"

text \<open>A \<open>Pipeliner\<close> whose \<open>ParseReply\<close> keeps the Parse contract within \<open>maxAuthReply\<close> bytes; a length of a final error is ignored.\<close>

definition maxAuthReply :: nat where "maxAuthReply = 65000"

definition pipeliner_ok :: "pipeliner \<Rightarrow> bool" where
  "pipeliner_ok p \<longleftrightarrow>
     bounded_parse (natp0 (pl_ParseReply p)) maxAuthReply
   \<and> (\<forall>b n e. pl_ParseReply p b = (n, e) \<longrightarrow> (\<exists>x. e = Some x \<and> \<not> is_incomplete x) \<or> 0 \<le> n)"

definition authMin_of :: "pipeliner \<Rightarrow> nat" where
  "authMin_of p = (case pl_ParseReply p [] of (n, Some e) \<Rightarrow> if is_incomplete e then nat (max n 0) else 0 | (n, None) \<Rightarrow> 0)"

text \<open>Ready for the replies: nothing read, and \<open>authMin\<close> as \<open>preparePipelined\<close> sets it.\<close>

definition hs_ready :: "hs \<Rightarrow> bool" where
  "hs_ready h \<longleftrightarrow>
     h_msgStart h = 0 \<and> h_filled h = 0 \<and> h_readErr h = None
   \<and> (case h_pipe h of None \<Rightarrow> h_authMin h = 0 | Some p \<Rightarrow> pipeliner_ok p \<and> h_authMin h = authMin_of p)"

lemma natp0_agrees:
  assumes "pipeliner_ok p"
  shows "agrees (\<lambda>b. ((), pl_ParseReply p b)) (natp0 (pl_ParseReply p))"
  unfolding agrees_def
proof (intro allI impI)
  fix b v n e assume a: "natp0 (pl_ParseReply p) b = (v, n, e)"
  obtain k where k: "pl_ParseReply p b = (k, e)" using a by (cases "pl_ParseReply p b") (simp add: natp0_def)
  have "(\<exists>x. e = Some x \<and> \<not> is_incomplete x) \<or> 0 \<le> k" using assms k by (simp add: pipeliner_ok_def)
  then show "if \<exists>x. e = Some x \<and> \<not> is_incomplete x then \<exists>m. ((), pl_ParseReply p b) = (v, m, e) else ((), pl_ParseReply p b) = (v, int n, e)"
    using a k by (auto simp: natp0_def split: option.splits if_splits)
qed

lemma authMin_le:
  assumes ok: "pipeliner_ok p" and s: "natp0 (pl_ParseReply p) d = (v, n, None)"
  shows "authMin_of p \<le> n" and "authMin_of p \<le> maxAuthReply"
proof -
  have bp: "bounded_parse (natp0 (pl_ParseReply p)) maxAuthReply" using ok by (simp add: pipeliner_ok_def)
  obtain k e where k: "pl_ParseReply p [] = (k, e)" by fastforce
  have "authMin_of p \<le> n \<and> authMin_of p \<le> maxAuthReply"
  proof (cases "\<exists>x. e = Some x \<and> is_incomplete x")
    case True
    then obtain x where x: "e = Some x" "is_incomplete x" by blast
    then have z: "natp0 (pl_ParseReply p) [] = ((), nat k, Some x)" using k by (simp add: natp0_def)
    then show ?thesis
      using contract_inc_bound [OF bp z x(2), of d v n] bounded_parse.inc_max [OF bp z x(2)] s x k by (auto simp: authMin_of_def max_def)
  qed (use k in \<open>auto simp: authMin_of_def split: option.splits\<close>)
  then show "authMin_of p \<le> n" and "authMin_of p \<le> maxAuthReply" by simp_all
qed

lemma authMin_max: "pipeliner_ok p \<Longrightarrow> authMin_of p \<le> maxAuthReply"
proof -
  assume ok: "pipeliner_ok p"
  have bp: "bounded_parse (natp0 (pl_ParseReply p)) maxAuthReply" using ok by (simp add: pipeliner_ok_def)
  show ?thesis
    using bounded_parse.inc_max [OF bp, of "[]"] by (force simp: authMin_of_def natp0_def split: prod.splits option.splits)
qed

lemma readAuth_spec:
  assumes ok: "pipeliner_ok p" and i: "cinv h c" and lim: "h_msgStart h \<le> 2"
  shows "\<exists>h' c' err. readNext st 5 (\<lambda>b. ((), pl_ParseReply p b)) h c = Some (h', c', (), err) \<and> same_hs h c h' c' \<and> h_readStage h' = st
    \<and> (case msg_spec st (natp0 (pl_ParseReply p)) (stream_end (cn_rd c)) (unread h c) of
         Inl e \<Rightarrow> err = Some e
       | Inr (v, d) \<Rightarrow> err = None \<and> cinv h' c' \<and> unread h' c' = d \<and> (\<exists>n. authMin_of p \<le> n \<and> n \<le> maxAuthReply
           \<and> h_msgStart h' = h_msgStart h + n \<and> h_filled h' \<le> max (h_filled h) (h_msgStart h + n + 5)))"
proof -
  have bp: "bounded_parse (natp0 (pl_ParseReply p)) maxAuthReply" using ok by (simp add: pipeliner_ok_def)
  have l: "h_msgStart h + maxAuthReply + 5 \<le> maxReplyBytes" using lim by (simp add: maxAuthReply_def maxReplyBytes_def)
  obtain h1 c1 w err where n: "readNext st 5 (\<lambda>b. ((), pl_ParseReply p b)) h c = Some (h1, c1, w, err)"
    "rframe (h\<lparr>h_readStage := st\<rparr>) c h1 c1"
    "case msg_spec st (natp0 (pl_ParseReply p)) (stream_end (cn_rd c)) (unread h c) of
         Inl e \<Rightarrow> err = Some e
       | Inr (v, d) \<Rightarrow> \<exists>n. err = None \<and> w = v \<and> natp0 (pl_ParseReply p) (unread h c) = (v, n, None) \<and> d = drop n (unread h c)
           \<and> took n (h_msgStart h + n + 5) (h\<lparr>h_readStage := st\<rparr>) c h1 c1"
    using bounded_parse.readNext_spec [OF bp i natp0_agrees [OF ok] l, of st] by blast
  have f: "same_hs h c h1 c1" "h_readStage h1 = st" using rframe_same [OF n(2)] rframeD(9) [OF n(2)] by simp_all
  show ?thesis
  proof (cases "msg_spec st (natp0 (pl_ParseReply p)) (stream_end (cn_rd c)) (unread h c)")
    case (Inl e)
    then show ?thesis using n(1,3) f by simp
  next
    case (Inr x)
    obtain d where x: "x = ((), d)" by (cases x) simp
    obtain k where k: "err = None" "natp0 (pl_ParseReply p) (unread h c) = ((), k, None)" "d = drop k (unread h c)"
      "took k (h_msgStart h + k + 5) (h\<lparr>h_readStage := st\<rparr>) c h1 c1"
      using n(3) Inr x by auto
    have "authMin_of p \<le> k" "k \<le> maxAuthReply" using authMin_le(1) [OF ok k(2)] bounded_parse.ok_max [OF bp k(2)] .
    then show ?thesis using n(1) f Inr x k(1,3,4) by (auto simp: took_def)
  qed
qed

lemma readReplies_spec:
  assumes r: "hs_ready h"
  shows "\<exists>h' c' he. readReplies h c = Some (h', c', he) \<and> cn_written c' = cn_written c
    \<and> (case replies_spec h (stream_end (cn_rd c)) (stream_bytes (cn_rd c)) of
         Inl se \<Rightarrow> he = Some se
       | Inr (a, rest) \<Rightarrow> he = None \<and> h_bound h' = a \<and> stream_bytes (cn_rd c') = rest)"
proof -
  let ?err = "stream_end (cn_rd c)"
  have i: "cinv h c" and z: "h_msgStart h = 0" "h_filled h = 0" using r by (simp_all add: hs_ready_def cinv_def)
  have u: "unread h c = stream_bytes (cn_rd c)" using z by (simp add: unread_def h_input_def)
  have am: "h_authMin h \<le> maxAuthReply" using r authMin_max by (auto simp: hs_ready_def split: option.splits)
  show ?thesis
  proof (cases "h_version h = 4")
    case True
    obtain h1 c1 he where rr: "readReply h c = Some (h1, c1, he)" "reply_post h c h1 c1 he"
      using readReply_spec [OF i] z by (auto simp: maxReplyBytes_def)
    then show ?thesis using True z u by (auto simp: readReplies_def replies_spec_def reply_post_def split: sum.splits prod.splits)
  next
    case v5: False
    have l: "h_msgStart h + 2 + (5 + h_authMin h) \<le> maxReplyBytes" using z am by (simp add: maxReplyBytes_def maxAuthReply_def)
    obtain h1 c1 he where m: "readMethod (5 + h_authMin h) h c = Some (h1, c1, he)" "same_hs h c h1 c1"
      "case method_spec h ?err (stream_bytes (cn_rd c)) of
         Inl se \<Rightarrow> he = Some se
       | Inr (m, d) \<Rightarrow> he = None \<and> h_method h1 = m \<and> cinv h1 c1 \<and> unread h1 c1 = d \<and> h_msgStart h1 = h_msgStart h + 2
           \<and> h_filled h1 \<le> max (h_filled h) (h_msgStart h + 2 + (5 + h_authMin h))"
      using readMethod_spec [OF i l] unfolding u by blast
    have s1: "h_pipe h1 = h_pipe h" "authRepStage h1 = authRepStage h" "cn_written c1 = cn_written c" "stream_end (cn_rd c1) = ?err"
      and rc1: "reply_spec h1 e d = reply_spec h e d" for e d
      using m(2) reply_spec_cong [of h1 h] by (simp_all add: same_hs_def authRepStage_def)
    show ?thesis
    proof (cases "method_spec h ?err (stream_bytes (cn_rd c))")
      case (Inl se)
      then show ?thesis using v5 m(1,3) s1 by (simp add: readReplies_def replies_spec_def)
    next
      case (Inr md)
      obtain mm d1 where md: "md = (mm, d1)" by fastforce
      have ok1: "he = None" "cinv h1 c1" "unread h1 c1 = d1" "h_msgStart h1 = 2" "h_filled h1 \<le> 7 + h_authMin h"
        using m(3) Inr md z by simp_all
      show ?thesis
      proof (cases "h_pipe h")
        case None
        have "h_authMin h = 0" using r None by (simp add: hs_ready_def)
        then obtain h2 c2 he2 where rr: "readReply h1 c1 = Some (h2, c2, he2)" "reply_post h1 c1 h2 c2 he2" "h_filled h1 \<le> h_msgStart h1 + 8"
          using readReply_spec [OF ok1(2)] ok1(4,5) by (auto simp: maxReplyBytes_def)
        then show ?thesis
          using v5 m(1) ok1 s1 rc1 None Inr md
          by (auto simp: readReplies_def replies_spec_def reply_post_def split: sum.splits prod.splits)
      next
        case (Some p)
        have po: "pipeliner_ok p" "h_authMin h = authMin_of p" using r Some by (simp_all add: hs_ready_def)
        let ?st = "authRepStage h"
        obtain h2 c2 err where a: "readNext ?st 5 (\<lambda>b. ((), pl_ParseReply p b)) h1 c1 = Some (h2, c2, (), err)"
          "same_hs h1 c1 h2 c2" "h_readStage h2 = ?st"
          "case msg_spec ?st (natp0 (pl_ParseReply p)) ?err d1 of
             Inl e \<Rightarrow> err = Some e
           | Inr (v, d) \<Rightarrow> err = None \<and> cinv h2 c2 \<and> unread h2 c2 = d \<and> (\<exists>n. authMin_of p \<le> n \<and> n \<le> maxAuthReply
               \<and> h_msgStart h2 = h_msgStart h1 + n \<and> h_filled h2 \<le> max (h_filled h1) (h_msgStart h1 + n + 5))"
          using readAuth_spec [OF po(1) ok1(2), of ?st] ok1(4) unfolding ok1(3) s1(4) by fastforce
        show ?thesis
        proof (cases "msg_spec ?st (natp0 (pl_ParseReply p)) ?err d1")
          case e: (Inl x)
          then show ?thesis
            using v5 m(1) ok1 s1 a same_hs_def Some Inr md
            by (simp add: readReplies_def replies_spec_def hs_fail_def hook1_def Let_def same_hs_def)
        next
          case d: (Inr x)
          obtain d2 where x: "x = ((), d2)" by (cases x) simp
          obtain n where n: "err = None" "cinv h2 c2" "unread h2 c2 = d2" "authMin_of p \<le> n" "n \<le> maxAuthReply"
            "h_msgStart h2 = 2 + n" "h_filled h2 \<le> max (h_filled h1) (2 + n + 5)"
            using a(4) d x ok1(4) by auto
          let ?h = "hook1 (AuthDone err) h2"
          have fl: "h_filled ?h \<le> h_msgStart ?h + 8" using n ok1(5) po(2) by (simp add: hook1_def)
          have "h_msgStart ?h + 262 \<le> maxReplyBytes" using n by (simp add: hook1_def maxReplyBytes_def maxAuthReply_def)
          then obtain h3 c3 he3 where rr: "readReply ?h c2 = Some (h3, c3, he3)" "reply_post ?h c2 h3 c3 he3"
            using readReply_spec [of ?h c2] n(2) by auto
          have s2: "cn_written c2 = cn_written c" "stream_end (cn_rd c2) = ?err" "reply_spec ?h e d = reply_spec h e d" for e d
            using a(2) m(2) reply_spec_cong [of ?h h] by (simp_all add: same_hs_def hook1_def)
          show ?thesis
            using v5 m(1) ok1 s1 a(1) n(1,3) rr fl s2 Some Inr md d x
            by (auto simp: readReplies_def replies_spec_def reply_post_def Let_def split: sum.splits prod.splits)
        qed
      qed
    qed
  qed
qed

end
