(* ===== verification/ClientServer.thy ===== *)
theory ClientServer
  imports ClientRefine WireRoundtrip ServerHandshake
begin

text \<open>
  The client's handshake as a whole, and the client against the server: what the pipelined client writes,
  the server accepts as the same request, and what the server answers, the client takes for the same
  result, with the first byte after the messages being the tunnel's on both sides.
\<close>

section \<open>A configured handshake\<close>

definition hs_new :: "cconfig \<Rightarrow> command \<Rightarrow> addr \<Rightarrow> error + hs" where
  "hs_new cfg cmd a = (case hs_init cfg cmd zero_hs of Inl e \<Rightarrow> Inl e | Inr h \<Rightarrow> setTarget a h)"

definition cauth_ok :: "cauth option \<Rightarrow> bool" where
  "cauth_ok a = (case a of None \<Rightarrow> True | Some x \<Rightarrow> (case cauth_pipe x of None \<Rightarrow> True | Some p \<Rightarrow> pipeliner_ok p))"

lemma natp0_UserPass:
  "natp0 UserPass_ParseReply b =
     (case ParseUserPassStatus b of
        (v, n, Some e) \<Rightarrow> ((), n, Some e)
      | (v, n, None) \<Rightarrow> if v = 0 then ((), n, None) else ((), 0, Some (EAuth MethodUserPass v)))"
  using userpass_status.err_final [of b]
  by (auto simp: natp0_def UserPass_ParseReply_def statusErr_def split: prod.splits option.splits)

lemma ParseUserPassStatus_more: "ParseUserPassStatus b = (v, n, None) \<Longrightarrow> ParseUserPassStatus (b @ x) = (v, n, None)"
  by (rule userpass_status.ok_append)

lemma UserPass_pipeliner_ok:
  "pipeliner_ok \<lparr>pl_AppendRequest = f, pl_ParseReply = UserPass_ParseReply\<rparr>"
proof -
  have "bounded_parse (natp0 UserPass_ParseReply) maxAuthReply"
  proof (rule bounded_parseI)
    fix b v n assume p: "natp0 UserPass_ParseReply b = (v, n, None)"
    then have q: "ParseUserPassStatus b = (0, n, None)" by (auto simp: natp0_UserPass split: prod.splits option.splits if_splits)
    then show "0 < n \<and> n \<le> length b \<and> natp0 UserPass_ParseReply (take n b) = (v, n, None)"
      using userpass_status.ok_len [OF q] userpass_status.ok_prefix [OF q, of "[]"] by (simp add: natp0_UserPass)
    show "natp0 UserPass_ParseReply (b @ x) = (v, n, None)" for x
      using ParseUserPassStatus_more [OF q] by (simp add: natp0_UserPass)
  next
    fix b v n e assume p: "natp0 UserPass_ParseReply b = (v, n, Some e)" and i: "is_incomplete e"
    then obtain w where q: "ParseUserPassStatus b = (w, n, Some e)"
      by (auto simp: natp0_UserPass split: prod.splits option.splits if_splits)
    then show "length b < n \<and> n \<le> maxAuthReply"
      using userpass_status.inc_len [OF q i] userpass_status.inc_max [OF q i] by (simp add: maxAuthReply_def)
    show "n \<le> m" if "natp0 UserPass_ParseReply (b @ x) = (u, m, None)" for x u m
      using that userpass_status.inc_bound [OF q i] by (auto simp: natp0_UserPass split: prod.splits option.splits if_splits)
  next
    fix b v n e x assume p: "natp0 UserPass_ParseReply b = (v, n, Some e)" and i: "\<not> is_incomplete e"
    obtain w k r where q: "ParseUserPassStatus b = (w, k, r)" by (cases "ParseUserPassStatus b")
    show "n = 0 \<and> (\<exists>w. natp0 UserPass_ParseReply (b @ x) = (w, 0, Some e))"
    proof (cases r)
      case None
      then show ?thesis using p q ParseUserPassStatus_more [of b w k x] by (auto simp: natp0_UserPass split: if_splits)
    next
      case (Some e')
      then have "e' = e" "k = n" using p q by (simp_all add: natp0_UserPass)
      then show ?thesis using userpass_status.err_final [OF q [unfolded Some], of x] i by (auto simp: natp0_UserPass)
    qed
  qed
  then show ?thesis by (auto simp: pipeliner_ok_def UserPass_ParseReply_def split: prod.splits)
qed

lemma cauth_ok_simps [simp]: "cauth_ok None" "cauth_ok (Some (CUserPass u p))"
  by (simp_all add: cauth_ok_def UserPass_pipeliner_ok)

text \<open>What \<open>setAuth\<close> and \<open>preparePipelined\<close> leave alone, and what they set.\<close>

lemma setAuth_facts:
  assumes "setAuth a off h = Inr h'"
  shows "h_msgStart h' = h_msgStart h \<and> h_filled h' = h_filled h \<and> h_readErr h' = h_readErr h \<and> h_authMin h' = h_authMin h
    \<and> h_version h' = h_version h \<and> h_cmd h' = h_cmd h \<and> h_mode h' = h_mode h
    \<and> h_pipe h' = cauth_pipe a \<and> h_offered h' = cauth_Method a \<and> h_auth h' = Some a
    \<and> h_offerNoAuth h' = (off \<and> cauth_Method a \<noteq> MethodNoAuth)"
  using assms by (cases a) (auto simp: setAuth_def Let_def split: if_splits)

lemma preparePipelined_facts:
  assumes "preparePipelined p h = Inr h'" and "h_authMin h = 0"
  shows "h_msgStart h' = h_msgStart h \<and> h_filled h' = h_filled h \<and> h_readErr h' = h_readErr h \<and> h_authMin h' = authMin_of p
    \<and> h_version h' = h_version h \<and> h_cmd h' = h_cmd h \<and> h_mode h' = h_mode h
    \<and> h_pipe h' = h_pipe h \<and> h_offered h' = h_offered h \<and> h_auth h' = h_auth h \<and> h_offerNoAuth h' = h_offerNoAuth h"
  using assms
  by (auto simp: preparePipelined_def authMin_of_def is_incomplete_def Let_def split: if_splits prod.splits option.splits sum.splits)

definition hs_begun :: "cconfig \<Rightarrow> command \<Rightarrow> hs \<Rightarrow> bool" where
  "hs_begun cfg cmd z \<longleftrightarrow>
     h_mode z = (if cc_Mode cfg = ModeEarly \<and> cmd \<noteq> CmdConnect then ModePipelined else cc_Mode cfg) \<and> h_cmd z = cmd
   \<and> h_version z = (if cc_Version cfg = 4 then 4 else 5) \<and> h_msgStart z = 0 \<and> h_filled z = 0 \<and> h_readErr z = None
   \<and> h_authMin z = 0 \<and> h_pipe z = None \<and> \<not> h_offerNoAuth z \<and> h_auth z = None \<and> \<not> h_userPass z \<and> h_authRequest z = []"

lemma zero_hs_target: "zero_hs\<lparr>h_target := zeroAddr\<rparr> = zero_hs"
  by (simp add: zero_hs_def)

lemma hs_init_begins:
  assumes "hs_init cfg cmd (zero_hs\<lparr>h_target := t\<rparr>) = Inr h"
  shows "\<exists>z. hs_begun cfg cmd z \<and> (if cc_Version cfg = 4 then init4 (cc_Auth cfg) z else init5 cfg z) = Inr h"
proof -
  let ?m = "if cc_Mode cfg = ModeEarly \<and> cmd \<noteq> CmdConnect then ModePipelined else cc_Mode cfg"
  let ?z = "((if cc_Mode cfg = ModeEarly \<and> cmd \<noteq> CmdConnect
      then ((zero_hs\<lparr>h_target := t\<rparr>)\<lparr>h_mode := cc_Mode cfg, h_cmd := cmd\<rparr>)\<lparr>h_mode := ModePipelined\<rparr>
      else (zero_hs\<lparr>h_target := t\<rparr>)\<lparr>h_mode := cc_Mode cfg, h_cmd := cmd\<rparr>))\<lparr>h_version := (if cc_Version cfg = 4 then 4 else 5)\<rparr>"
  have "hs_begun cfg cmd ?z" by (simp add: hs_begun_def zero_hs_def)
  moreover have "(if cc_Version cfg = 4 then init4 (cc_Auth cfg) ?z else init5 cfg ?z) = Inr h"
    using assms by (auto simp: hs_init_def Let_def simp del: hs.update_convs split: if_splits)
  ultimately show ?thesis by blast
qed

lemma hs_init_ready:
  assumes "hs_init cfg cmd (zero_hs\<lparr>h_target := t\<rparr>) = Inr h" and "cauth_ok (cc_Auth cfg)"
  shows "hs_ready h" and "h_cmd h = cmd"
    and "h_version h = (if cc_Version cfg = 4 then 4 else 5)"
    and "h_mode h = (if cc_Mode cfg = ModeEarly \<and> cmd \<noteq> CmdConnect then ModePipelined else cc_Mode cfg)"
proof -
  obtain z where z: "hs_begun cfg cmd z" and run: "(if cc_Version cfg = 4 then init4 (cc_Auth cfg) z else init5 cfg z) = Inr h"
    using hs_init_begins [OF assms(1)] by blast
  have "hs_ready h \<and> h_cmd h = h_cmd z \<and> h_version h = h_version z \<and> h_mode h = h_mode z"
  proof (cases "cc_Version cfg = 4")
    case True
    then show ?thesis
      using run z by (auto simp: init4_def hs_ready_def hs_begun_def split: if_splits option.splits sum.splits)
  next
    case False
    then have i: "init5 cfg z = Inr h" using run by simp
    show ?thesis
    proof (cases "cc_Auth cfg")
      case None
      then show ?thesis using z i by (auto simp: init5_def hs_ready_def hs_begun_def Let_def split: if_splits)
    next
      case (Some a)
      obtain h2 where h2: "setAuth a (cc_OfferNoAuth cfg) (z\<lparr>h_offered := MethodNoAuth\<rparr>) = Inr h2"
        and r: "(case h_pipe h2 of None \<Rightarrow> Inr h2 | Some p \<Rightarrow> preparePipelined p h2) = Inr h"
        using i Some by (auto simp: init5_def Let_def split: if_splits sum.splits)
      note f = setAuth_facts [OF h2]
      show ?thesis
      proof (cases "cauth_pipe a")
        case None
        then show ?thesis using f r z by (auto simp: hs_ready_def hs_begun_def)
      next
        case (Some p)
        then have "preparePipelined p h2 = Inr h" and "h_authMin h2 = 0" using f r z by (simp_all add: hs_begun_def)
        from preparePipelined_facts [OF this] show ?thesis
          using f Some z assms(2) \<open>cc_Auth cfg = Some a\<close> by (auto simp: hs_ready_def hs_begun_def cauth_ok_def)
      qed
    qed
  qed
  then show "hs_ready h" "h_cmd h = cmd" "h_version h = (if cc_Version cfg = 4 then 4 else 5)"
    "h_mode h = (if cc_Mode cfg = ModeEarly \<and> cmd \<noteq> CmdConnect then ModePipelined else cc_Mode cfg)"
    using z by (simp_all add: hs_begun_def)
qed

lemma append5_eq:
  "append5 a h = (case append5 a h of (h1, b, e) \<Rightarrow>
     (h\<lparr>h_greetingEnd := h_greetingEnd h1, h_authEnd := h_authEnd h1\<rparr>, b, e))"
  by (simp add: append5_def Let_def split: prod.splits)

lemma setTarget_facts:
  assumes "setTarget a h = Inr h'"
  shows "h_msgStart h' = h_msgStart h \<and> h_filled h' = h_filled h \<and> h_readErr h' = h_readErr h \<and> h_authMin h' = h_authMin h
    \<and> h_version h' = h_version h \<and> h_cmd h' = h_cmd h \<and> h_mode h' = h_mode h
    \<and> h_pipe h' = h_pipe h \<and> h_offered h' = h_offered h \<and> h_auth h' = h_auth h \<and> h_offerNoAuth h' = h_offerNoAuth h
    \<and> h_userPass h' = h_userPass h \<and> h_target h' = a"
proof (cases "h_version h = 4")
  case True
  then show ?thesis using assms by (auto simp: setTarget_def Let_def split: prod.splits option.splits)
next
  case False
  obtain g e out where "append5 a h = (h\<lparr>h_greetingEnd := g, h_authEnd := e\<rparr>, out, None)"
    using assms False append5_eq [of a h] by (cases "append5 a h") (auto simp: setTarget_def Let_def split: option.splits)
  then show ?thesis using assms False by (auto simp: setTarget_def Let_def)
qed

lemma hs_new_ready:
  assumes "hs_new cfg cmd a = Inr h" and "cauth_ok (cc_Auth cfg)"
  shows "hs_ready h" and "h_cmd h = cmd" and "h_version h = (if cc_Version cfg = 4 then 4 else 5)"
    and "h_mode h = (if cc_Mode cfg = ModeEarly \<and> cmd \<noteq> CmdConnect then ModePipelined else cc_Mode cfg)"
proof -
  obtain h0 where h0: "hs_init cfg cmd zero_hs = Inr h0" "setTarget a h0 = Inr h"
    using assms(1) by (auto simp: hs_new_def split: sum.splits)
  note i = hs_init_ready [of cfg cmd zeroAddr, unfolded zero_hs_target, OF h0(1) assms(2)] and t = setTarget_facts [OF h0(2)]
  show "hs_ready h" using i(1) t by (simp add: hs_ready_def split: option.splits)
  show "h_cmd h = cmd" "h_version h = (if cc_Version cfg = 4 then 4 else 5)"
    "h_mode h = (if cc_Mode cfg = ModeEarly \<and> cmd \<noteq> CmdConnect then ModePipelined else cc_Mode cfg)"
    using i(2-4) t by simp_all
qed

section \<open>The pipelined run\<close>

lemma wiped_sel [simp]:
  "h_version (hook1 ev (wipe h)) = h_version h" "h_cmd (hook1 ev (wipe h)) = h_cmd h" "h_pipe (hook1 ev (wipe h)) = h_pipe h"
  "h_authMin (hook1 ev (wipe h)) = h_authMin h" "h_userPass (hook1 ev (wipe h)) = h_userPass h"
  "h_offered (hook1 ev (wipe h)) = h_offered h" "h_offerNoAuth (hook1 ev (wipe h)) = h_offerNoAuth h"
  "h_msgStart (hook1 ev (wipe h)) = h_msgStart h" "h_filled (hook1 ev (wipe h)) = h_filled h"
  "h_readErr (hook1 ev (wipe h)) = h_readErr h"
  by (simp_all add: hook1_def wipe_def)

lemma wipe_ready [simp]: "hs_ready (hook1 ev (wipe h)) = hs_ready h"
  unfolding hs_ready_def wiped_sel ..

lemma replies_spec_wipe [simp]: "replies_spec (hook1 ev (wipe h)) err d = replies_spec h err d"
proof -
  have "reply_spec (hook1 ev (wipe h)) = reply_spec h" by (intro ext reply_spec_cong) simp_all
  then show ?thesis unfolding replies_spec_def method_spec_def refuses_def authRepStage_def wiped_sel by (rule ssubst) (rule refl)
qed

lemma pipelined_run_spec:
  assumes "hs_ready h" and "h_mode h \<noteq> ModeSequential \<or> h_version h = 4" and "cn_room c = None"
  shows "\<exists>h' c' he. hs_run h c = Some (h', c', he) \<and> cn_written c' = cn_written c @ h_out h
    \<and> (case replies_spec h (stream_end (cn_rd c)) (stream_bytes (cn_rd c)) of
         Inl se \<Rightarrow> he = Some se
       | Inr (a, rest) \<Rightarrow> he = None \<and> h_bound h' = a \<and> stream_bytes (cn_rd c') = rest)"
proof -
  let ?c = "c\<lparr>cn_written := cn_written c @ h_out h\<rparr>"
  have "hs_run h c = readReplies (hook1 (WroteHandshake None) (wipe h)) ?c"
    using assms by (auto simp: hs_run_def cnet_write_def)
  then show ?thesis
    using readReplies_spec [of "hook1 (WroteHandshake None) (wipe h)" ?c] assms(1) by simp
qed

text \<open>C24: The pipelined client writes its whole handshake at once, before reading anything, and its result is a
  function of the proxy's bytes: however the replies arrive (split, merged with each other or with the
  first bytes of the tunnel), the handshake returns, it fails at the stage and with the error the
  specification gives, or else it reports the bound address and has read not one byte past the
  replies. An authenticator must keep the Parse contract; \<open>UserPass\<close> does.\<close>

theorem pipelined_handshake_refines:
  assumes "hs_new cfg cmd a = Inr h" and "cauth_ok (cc_Auth cfg)"
    and "cc_Mode cfg \<noteq> ModeSequential \<or> cc_Version cfg = 4" and "cn_room c = None"
  shows "\<exists>h' c' he. hs_run h c = Some (h', c', he) \<and> cn_written c' = cn_written c @ h_out h
    \<and> (case replies_spec h (stream_end (cn_rd c)) (stream_bytes (cn_rd c)) of
         Inl se \<Rightarrow> he = Some se
       | Inr (bound, tunnel) \<Rightarrow> he = None \<and> h_bound h' = bound \<and> stream_bytes (cn_rd c') = tunnel)"
  using pipelined_run_spec [OF hs_new_ready(1) [OF assms(1,2)] _ assms(4)] hs_new_ready(3,4) [OF assms(1,2)] assms(3)
  by (auto simp: mode_defs split: if_splits)

section \<open>The client against the server\<close>

lemma greeting_back: "AppendGreeting dst ms = (dst @ m, None) \<Longrightarrow> ParseGreeting acc (m @ x) = (acc @ ms, length m, None)"
  using greeting_roundtrip [of dst ms "dst @ m" acc x] by auto

lemma userpass_back:
  "AppendUserPass dst u p = (dst @ m, None) \<Longrightarrow> ParseUserPass (m @ x) = ((bytes_of u, bytes_of p), length m, None)"
  using userpass_roundtrip [of dst u p "dst @ m" x] by auto

lemma request_back:
  "AppendRequest dst cmd a = (dst @ m, None) \<Longrightarrow> addr_wf a \<Longrightarrow> ParseRequest (m @ x) = ((cmd, a), length m, None)"
  using request_roundtrip [of dst cmd a "dst @ m" x] by auto

lemma reply_back:
  "AppendReply [] rep a = (m, None) \<Longrightarrow> addr_wf a \<Longrightarrow> ParseReply (m @ x) cmd = ((rep, a), length m, None)"
  using reply_roundtrip [of "[]" rep a m x cmd] by auto

text \<open>The messages of a pipelined SOCKS5 client that has no authenticator or a \<open>UserPass\<close>.\<close>

definition client_method :: "(string \<times> string) option \<Rightarrow> method_code" where
  "client_method up = (if up = None then MethodNoAuth else MethodUserPass)"

definition client_auth :: "(string \<times> string) option \<Rightarrow> cauth option" where
  "client_auth up = map_option (\<lambda>(u, p). CUserPass u p) up"

lemma client_auth_ok [simp]: "cauth_ok (client_auth up)"
  by (cases up) (auto simp: client_auth_def split: prod.splits)

definition auth_message :: "(string \<times> string) option \<Rightarrow> bytes \<Rightarrow> bool" where
  "auth_message up m = (case up of None \<Rightarrow> m = [] | Some (u, p) \<Rightarrow> (\<exists>dst. AppendUserPass dst u p = (dst @ m, None)))"

lemma pipelined_init5:
  assumes "hs_init cfg cmd zero_hs = Inr h" and "cc_Version cfg \<noteq> 4" and "cc_Mode cfg \<noteq> ModeSequential"
    and "cc_Auth cfg = client_auth up"
  shows "h_version h = 5 \<and> h_cmd h = cmd \<and> h_mode h \<noteq> ModeSequential \<and> \<not> h_offerNoAuth h \<and> h_offered h = client_method up
    \<and> (case up of None \<Rightarrow> h_pipe h = None \<and> \<not> h_userPass h \<and> h_authRequest h = []
       | Some (u, p) \<Rightarrow> h_pipe h = cauth_pipe (CUserPass u p) \<and> h_userPass h \<and> h_username h = u \<and> h_password h = p
           \<and> length u \<le> 255 \<and> length p \<le> 255)"
proof -
  obtain z where z: "hs_begun cfg cmd z" and i: "init5 cfg z = Inr h"
    using hs_init_begins [of cfg cmd zeroAddr, unfolded zero_hs_target, OF assms(1)] assms(2) by auto
  have m: "h_mode z \<noteq> ModeSequential" "h_cmd z = cmd" "h_version z = 5" "\<not> h_userPass z" "h_pipe z = None" "\<not> h_offerNoAuth z" "h_authRequest z = []"
    using z assms(2,3) by (auto simp: hs_begun_def mode_defs)
  show ?thesis
  proof (cases up)
    case None
    then have "h = z\<lparr>h_offered := MethodNoAuth\<rparr>" using i assms(4) by (auto simp: init5_def client_auth_def Let_def split: if_splits)
    then show ?thesis using None m by (simp add: client_method_def)
  next
    case (Some q)
    obtain u p where q: "q = (u, p)" by fastforce
    let ?s = "z\<lparr>h_offered := MethodUserPass, h_userPass := True, h_username := u, h_password := p, h_auth := Some (CUserPass u p),
       h_offerNoAuth := False, h_pipe := cauth_pipe (CUserPass u p)\<rparr>"
    have off: "\<not> cc_OfferNoAuth cfg" using i m(1) by (auto simp: init5_def split: if_splits)
    have "setAuth (CUserPass u p) False (z\<lparr>h_offered := MethodNoAuth\<rparr>) = Inr ?s"
      by (simp add: setAuth_def Let_def method_defs)
    then have "preparePipelined (the (cauth_pipe (CUserPass u p))) ?s = Inr h"
      using i m(1) off assms(4) Some q by (simp add: init5_def client_auth_def)
    then show ?thesis
      using Some q m by (auto simp: preparePipelined_def client_method_def Let_def split: if_splits prod.splits option.splits)
  qed
qed

lemma pipelined_out:
  assumes "hs_new cfg cmd a = Inr h" and "cc_Version cfg \<noteq> 4" and "cc_Mode cfg \<noteq> ModeSequential"
    and "cc_Auth cfg = client_auth up"
  obtains m1 m2 m3 where "h_out h = m1 @ m2 @ m3" and "AppendGreeting [] [client_method up] = ([] @ m1, None)"
    and "auth_message up m2" and "\<exists>dst. AppendRequest dst cmd a = (dst @ m3, None)"
    and "h_version h = 5" and "h_cmd h = cmd" and "h_offered h = client_method up" and "\<not> h_offerNoAuth h"
    and "h_pipe h = (case up of None \<Rightarrow> None | Some (u, p) \<Rightarrow> cauth_pipe (CUserPass u p))"
    and "h_userPass h = (up \<noteq> None)"
proof -
  obtain h0 where h0: "hs_init cfg cmd zero_hs = Inr h0" "setTarget a h0 = Inr h"
    using assms(1) by (auto simp: hs_new_def split: sum.splits)
  note i = pipelined_init5 [OF h0(1) assms(2-4)] and t = setTarget_facts [OF h0(2)]
  define m1 where "m1 = [Version5, word_of_nat 1, client_method up]"
  have g: "AppendGreeting [] [client_method up] = ([] @ m1, None)" by (simp add: AppendGreeting_def m1_def)
  have "\<exists>m2. auth_message up m2 \<and>
      (if h_userPass h0 then fst (AppendUserPass m1 (h_username h0) (h_password h0)) else m1 @ h_authRequest h0) = m1 @ m2"
  proof (cases up)
    case (Some q)
    then show ?thesis
      using i by (cases q) (force simp: auth_message_def AppendUserPass_def)
  qed (use i in \<open>simp add: auth_message_def\<close>)
  then obtain m2 where m2: "auth_message up m2"
    "(if h_userPass h0 then fst (AppendUserPass m1 (h_username h0) (h_password h0)) else m1 @ h_authRequest h0) = m1 @ m2"
    by blast
  obtain h1 where ap: "append5 a h0 = (h1, h_out h, None)"
    using h0(2) i by (auto simp: setTarget_def Let_def split: prod.splits option.splits)
  have "AppendRequest (m1 @ m2) cmd a = (h_out h, None)"
    using ap i m2(2) g unfolding append5_def by (simp add: Let_def split: prod.splits)
  moreover obtain m3 where "h_out h = (m1 @ m2) @ m3"
    using calculation addr_append_dst [of a "m1 @ m2" "[Version5, cmd, 0]"]
    by (simp add: AppendRequest_def appendAddrMessage_def eq_commute split: if_splits)
  ultimately have "h_out h = m1 @ m2 @ m3" "AppendRequest (m1 @ m2) cmd a = ((m1 @ m2) @ m3, None)" by simp_all
  then have "h_out h = m1 @ m2 @ m3" "\<exists>dst. AppendRequest dst cmd a = (dst @ m3, None)" by blast+
  from that [OF this(1) g m2(1) this(2)] show thesis using i t by (cases up) (auto simp: client_method_def)
qed

text \<open>\<open>admits cf up\<close>: the server chooses no authentication, or a user list with that password in it.\<close>

definition admits :: "sconfig \<Rightarrow> (string \<times> string) option \<Rightarrow> bool" where
  "admits cf up =
     (cf_v5 cf \<and> (case up of
        None \<Rightarrow> choose_auth (cf_auth cf) [MethodNoAuth] = Some NoAuth
      | Some (u, p) \<Rightarrow>
          (case choose_auth (cf_auth cf) [MethodUserPass] of
             Some (UserPass l) \<Rightarrow> up_Check l = None \<and> verify (cf_sha256 cf) l (bytes_of u) (bytes_of p)
           | _ \<Rightarrow> False)))"

definition client_identity :: "(string \<times> string) option \<Rightarrow> identity" where
  "client_identity up = (case up of None \<Rightarrow> IdNil | Some (u, p) \<Rightarrow> IdString u)"

definition server_says :: "(string \<times> string) option \<Rightarrow> bytes" where
  "server_says up = [Version5, client_method up] @ (if up = None then [] else statusOK)"

lemma auth_message_parsed:
  assumes "AppendUserPass dst u p = (dst @ m, None)"
  shows "parsed StageAuth (natp parseUserPass) (m @ x) err = Inr ((), m)" and "ParseUserPass m = ((bytes_of u, bytes_of p), length m, None)"
  using userpass_back [OF assms, of x] userpass_back [OF assms, of "[]"]
  by (simp_all add: parsed_def natp_def parseUserPass_def)

lemma server_accepts:
  assumes "AppendGreeting [] [client_method up] = ([] @ m1, None)" and "auth_message up m2"
    and req: "AppendRequest dst cmd a = (dst @ m3, None)" and "addr_wf a" and "admits cf up"
  shows "hs_spec cf err q (m1 @ m2 @ m3 @ data) = (data, server_says up,
    Inr (q\<lparr>rq_Method := client_method up, rq_Identity := client_identity up, rq_Version := V5, rq_Command := cmd, rq_Addr := a\<rparr>))"
proof -
  have v: "m1 = [Version5, 1, client_method up]" using assms(1) by (auto simp: AppendGreeting_def)
  have g: "parsed StageGreeting (ParseGreeting []) (m1 @ x) err = Inr ([client_method up], m1)" for x
    using greeting_back [OF assms(1), of "[]" x] by (simp add: parsed_def)
  have r: "req5_spec cf err q' (m3 @ data) = (data, [], Inr (q'\<lparr>rq_Version := V5, rq_Command := cmd, rq_Addr := a\<rparr>))" for q'
    using request_back [OF req assms(4), of data] by (simp add: req5_spec_def parsed_def)
  have h: "hs_spec cf err q (m1 @ m2 @ m3 @ data) = hs5_spec cf err q (m1 @ m2 @ m3 @ data)"
    using v assms(5) by (simp add: hs_spec_def admits_def)
  show ?thesis
  proof (cases up)
    case None
    then have "m2 = []" "choose_auth (cf_auth cf) [MethodNoAuth] = Some NoAuth"
      using assms(2,5) by (simp_all add: auth_message_def admits_def)
    then show ?thesis
      using None h g r by (simp add: hs5_spec_def auth5_spec_def server_says_def client_method_def client_identity_def)
  next
    case (Some z)
    obtain u p where z: "z = (u, p)" by fastforce
    obtain l d where l: "choose_auth (cf_auth cf) [MethodUserPass] = Some (UserPass l)" "up_Check l = None"
      "verify (cf_sha256 cf) l (bytes_of u) (bytes_of p)" and d: "AppendUserPass d u p = (d @ m2, None)"
      using assms(2,5) Some z by (auto simp: auth_message_def admits_def split: option.splits authenticator.splits)
    have "auth5_spec cf err (UserPass l) (m2 @ x) = (x, statusOK, Inr (IdString u))" for x
      using auth_message_parsed [OF d] l(2,3)
      by (simp add: auth5_spec_def Authenticate_def userpass_prog_def up_identify_def up_finish_def)
    then show ?thesis
      using Some z h g r l(1) by (simp add: hs5_spec_def server_says_def client_method_def client_identity_def)
  qed
qed

text \<open>The client on the server's bytes.\<close>

lemma client_takes:
  assumes "h_version h = 5" and "h_cmd h = cmd" and "h_offered h = client_method up"
    and pipe: "h_pipe h = (case up of None \<Rightarrow> None | Some (u, p) \<Rightarrow> cauth_pipe (CUserPass u p))"
    and rep: "AppendReply [] ReplySucceeded bound = (m, None)" and "addr_wf bound" and cb: "checkBound bound h = None"
  shows "replies_spec h err (server_says up @ m @ tunnel) = Inr (bound, tunnel)"
proof -
  have rv: "ParseReply (m @ tunnel) cmd = ((ReplySucceeded, bound), length m, None)" using reply_back [OF rep assms(6)] .
  then have "ParseReply (m @ tunnel) (h_cmd h) = ((ReplySucceeded, bound), length m, None)" using assms(2) by simp
  moreover have "gotVR h (m @ tunnel) \<Longrightarrow> (m @ tunnel) ! 1 = ReplySucceeded"
    using plainReply_rep [of h "m @ tunnel"] calculation assms(1) by (simp add: plainReply_def)
  ultimately have r: "reply_spec h err (m @ tunnel) = Inr (bound, tunnel)"
    using cb assms(1) by (simp add: reply_spec_def next_reply_spec_def plainReply_def okReply_def)
  have ms: "method_spec h err (Version5 # client_method up # x) = Inr (client_method up, x)" for x
    using assms(3) by (simp add: method_spec_def msg_spec_def ParseMethodSelection_def checkVersion_def refuses_def)
  show ?thesis
  proof (cases up)
    case None
    then show ?thesis using ms r pipe assms(1) by (simp add: replies_spec_def server_says_def)
  next
    case (Some z)
    have "msg_spec st (natp0 UserPass_ParseReply) err (UserPassVersion # 0 # x) = Inr ((), x)" for st x
      by (simp add: msg_spec_def natp0_UserPass ParseUserPassStatus_def checkVersion_def)
    then show ?thesis
      using Some ms r pipe assms(1) by (cases z) (simp add: replies_spec_def server_says_def statusOK_def)
  qed
qed

text \<open>C25: Client and server agree. A pipelined SOCKS5 client without authentication, or with a user name and
  password the server lists, sends its handshake and \<open>data\<close> after it in one go. However the network
  cuts that up, the server accepts exactly the client's command and address for exactly that user, and
  is left with exactly \<open>data\<close> for the handler; and when it answers success and goes on with \<open>tunnel\<close>,
  then however those bytes are cut up the client reports success with the server's bound address, and
  what it has not read is exactly \<open>tunnel\<close>. So both ends agree on where the tunnel begins, although
  the client waited for nothing.\<close>

theorem client_and_server_agree:
  assumes "hs_new cfg cmd a = Inr h" and "cc_Version cfg \<noteq> 4" and "cc_Mode cfg \<noteq> ModeSequential" and "cc_Auth cfg = client_auth up"
    and "addr_wf a" and "admits cf up" and "\<forall>x \<in> set (cf_auth cf). auth_ok (Authenticate (cf_sha256 cf) x)"
    and "stream_bytes s = h_out h @ data" and "set ws \<subseteq> {None}"
    and "AppendReply [] ReplySucceeded bound = (m, None)" and "addr_wf bound" and "checkBound bound h = None"
    and "stream_bytes (cn_rd c) = server_says up @ m @ tunnel" and "cn_room c = None"
  shows "\<exists>sc h' c'. handshake cf local remote (newConn self s ws cw) = Some (sc, None)
    \<and> rq_Command (req sc) = cmd \<and> rq_Addr (req sc) = a \<and> rq_Identity (req sc) = client_identity up
    \<and> undelivered sc = data \<and> written (net sc) = server_says up
    \<and> hs_run h c = Some (h', c', None) \<and> cn_written c' = cn_written c @ h_out h
    \<and> h_bound h' = bound \<and> stream_bytes (cn_rd c') = tunnel"
proof -
  obtain m1 m2 m3 where o: "h_out h = m1 @ m2 @ m3" "AppendGreeting [] [client_method up] = ([] @ m1, None)"
    "auth_message up m2" "\<exists>dst. AppendRequest dst cmd a = (dst @ m3, None)"
    and f: "h_version h = 5" "h_cmd h = cmd" "h_offered h = client_method up" "\<not> h_offerNoAuth h"
    "h_pipe h = (case up of None \<Rightarrow> None | Some (u, p) \<Rightarrow> cauth_pipe (CUserPass u p))" "h_userPass h = (up \<noteq> None)"
    by (rule pipelined_out [OF assms(1-4)])
  obtain dst where rq: "AppendRequest dst cmd a = (dst @ m3, None)" using o(4) by blast
  let ?q = "(req0 self local remote)\<lparr>rq_Method := client_method up, rq_Identity := client_identity up, rq_Version := V5,
      rq_Command := cmd, rq_Addr := a\<rparr>"
  have "hs_spec cf (stream_end s) (req0 self local remote) (stream_bytes s) = (data, server_says up, Inr ?q)"
    using server_accepts [OF o(2,3) rq assms(5,6)] assms(8) o(1) by simp
  then obtain sc where sc: "handshake cf local remote (newConn self s ws cw) = Some (sc, None)" "req sc = ?q"
    "undelivered sc = data" "written (net sc) = server_says up"
    using handshake_done [OF assms(9,7)] by blast
  have "replies_spec h (stream_end (cn_rd c)) (server_says up @ m @ tunnel) = Inr (bound, tunnel)"
    by (rule client_takes [OF f(1-3,5) assms(10-12)])
  moreover have "hs_ready h" "h_mode h \<noteq> ModeSequential \<or> h_version h = 4"
    using hs_new_ready(1,4) [OF assms(1)] assms(3,4) by (auto simp: mode_defs split: if_splits)
  ultimately obtain h' c' where "hs_run h c = Some (h', c', None)" "cn_written c' = cn_written c @ h_out h"
    "h_bound h' = bound" "stream_bytes (cn_rd c') = tunnel"
    using pipelined_run_spec [of h c] assms(13,14) by auto
  then show ?thesis using sc by auto
qed

section \<open>A wrong password\<close>

definition rejects :: "sconfig \<Rightarrow> string \<Rightarrow> string \<Rightarrow> bool" where
  "rejects cf u p =
     (cf_v5 cf \<and> (case choose_auth (cf_auth cf) [MethodUserPass] of
        Some (UserPass l) \<Rightarrow> up_Check l = None \<and> \<not> verify (cf_sha256 cf) l (bytes_of u) (bytes_of p)
      | _ \<Rightarrow> False))"

lemma server_rejects:
  assumes "AppendGreeting [] [MethodUserPass] = ([] @ m1, None)" and d: "AppendUserPass dst u p = (dst @ m2, None)" and "rejects cf u p"
  shows "hs_spec cf err q (m1 @ m2 @ x) = (x, [Version5, MethodUserPass] @ statusFailed, Inl (StageUserPass, errRejected))"
    and "hs_sure cf err (m1 @ m2 @ x)"
proof -
  have v: "m1 = [Version5, 1, MethodUserPass]" using assms(1) by (auto simp: AppendGreeting_def)
  have g: "parsed StageGreeting (ParseGreeting []) (m1 @ x) err = Inr ([MethodUserPass], m1)" for x
    using greeting_back [OF assms(1), of "[]" x] by (simp add: parsed_def)
  obtain l where l: "choose_auth (cf_auth cf) [MethodUserPass] = Some (UserPass l)" "up_Check l = None"
    "\<not> verify (cf_sha256 cf) l (bytes_of u) (bytes_of p)"
    using assms(3) by (auto simp: rejects_def split: option.splits authenticator.splits)
  have a: "auth5_spec cf err (UserPass l) (m2 @ x) = (x, statusFailed, Inl errRejected)" for x
    using auth_message_parsed [OF d] l(2,3)
    by (simp add: auth5_spec_def Authenticate_def userpass_prog_def up_identify_def up_finish_def)
  have v5: "cf_v5 cf" using assms(3) by (simp add: rejects_def)
  have h: "hs_spec cf err q (m1 @ m2 @ x) = hs5_spec cf err q (m1 @ m2 @ x)" "hs_sure cf err (m1 @ m2 @ x) = hs5_sure cf err (m1 @ m2 @ x)"
    using v v5 by (simp_all add: hs_spec_def hs_sure_def)
  show "hs_spec cf err q (m1 @ m2 @ x) = (x, [Version5, MethodUserPass] @ statusFailed, Inl (StageUserPass, errRejected))"
    using h(1) g l(1) a by (simp add: hs5_spec_def authStage_def)
  show "hs_sure cf err (m1 @ m2 @ x)"
    using h(2) g l(1) a by (simp add: hs5_sure_def auth_failure_sent_def errRejected_def)
qed

text \<open>A wrong password is refused, and both ends know why. The server ends the handshake with its
  authentication error, has read nothing behind the credentials (the pipelined request and data stay
  unread) and answers the method and status 1; the client, which has already sent everything, fails at
  the status with an authentication error of status 1, whatever comes after.\<close>

theorem wrong_password_fails_on_both_ends:
  assumes "hs_new cfg cmd a = Inr h" and "cc_Version cfg \<noteq> 4" and "cc_Mode cfg \<noteq> ModeSequential" and "cc_Auth cfg = Some (CUserPass u p)"
    and "rejects cf u p" and "\<forall>x \<in> set (cf_auth cf). auth_ok (Authenticate (cf_sha256 cf) x)"
    and "stream_bytes s = h_out h @ data" and "set ws \<subseteq> {None}"
    and "stream_bytes (cn_rd c) = [Version5, MethodUserPass] @ statusFailed @ x" and "cn_room c = None"
  shows "\<exists>sc h' c' e. handshake cf local remote (newConn self s ws cw) = Some (sc, Some (StageUserPass, errRejected))
    \<and> outgoing sc = [Version5, MethodUserPass] @ statusFailed \<and> length data \<le> length (undelivered sc)
    \<and> hs_run h c = Some (h', c', Some (StageUserPassStatus, e)) \<and> e = EAuth MethodUserPass 1 \<and> IsS e ErrAuthFailed"
proof -
  let ?up = "Some (u, p)"
  have ca: "cc_Auth cfg = client_auth ?up" using assms(4) by (simp add: client_auth_def)
  obtain m1 m2 m3 where o: "h_out h = m1 @ m2 @ m3" "AppendGreeting [] [client_method ?up] = ([] @ m1, None)" "auth_message ?up m2"
    and f: "h_version h = 5" "h_cmd h = cmd" "h_offered h = client_method ?up" "\<not> h_offerNoAuth h"
    "h_pipe h = (case ?up of None \<Rightarrow> None | Some (u, p) \<Rightarrow> cauth_pipe (CUserPass u p))" "h_userPass h = (?up \<noteq> None)"
    by (rule pipelined_out [OF assms(1-3) ca])
  obtain dst where d: "AppendUserPass dst u p = (dst @ m2, None)" using o(3) by (auto simp: auth_message_def)
  have g: "AppendGreeting [] [MethodUserPass] = ([] @ m1, None)" using o(2) by (simp add: client_method_def)
  have b: "stream_bytes s = m1 @ m2 @ (m3 @ data)" using assms(7) o(1) by simp
  have sp: "hs_spec cf (stream_end s) (req0 self local remote) (stream_bytes s)
      = (m3 @ data, [Version5, MethodUserPass] @ statusFailed, Inl (StageUserPass, errRejected))"
    and su: "hs_sure cf (stream_end s) (stream_bytes s)"
    unfolding b using server_rejects [OF g d assms(5)] by blast+
  obtain sc where sc: "handshake cf local remote (newConn self s ws cw) = Some (sc, Some (StageUserPass, errRejected))"
    "outgoing sc = [Version5, MethodUserPass] @ statusFailed" "undelivered sc = m3 @ data"
    using handshake_refused [OF assms(8,6) sp] su by fastforce
  let ?e = "stream_end (cn_rd c)"
  have "method_spec h ?e (Version5 # MethodUserPass # y) = Inr (MethodUserPass, y)" for y
    using f(3) by (simp add: method_spec_def msg_spec_def ParseMethodSelection_def checkVersion_def refuses_def client_method_def)
  moreover have "msg_spec st (natp0 UserPass_ParseReply) ?e (UserPassVersion # 1 # y) = Inl (EAuth MethodUserPass 1)" for st y
    by (simp add: msg_spec_def natp0_UserPass ParseUserPassStatus_def checkVersion_def)
  ultimately have "replies_spec h ?e (stream_bytes (cn_rd c)) = Inl (StageUserPassStatus, EAuth MethodUserPass 1)"
    using assms(9) f by (simp add: replies_spec_def statusFailed_def authRepStage_def)
  moreover have "hs_ready h" "h_mode h \<noteq> ModeSequential \<or> h_version h = 4"
    using hs_new_ready(1,4) [OF assms(1)] assms(3,4) by (auto simp: mode_defs split: if_splits)
  ultimately obtain h' c' where "hs_run h c = Some (h', c', Some (StageUserPassStatus, EAuth MethodUserPass 1))"
    using pipelined_run_spec [of h c] assms(10) by auto
  then show ?thesis using sc by auto
qed

section \<open>Witnesses\<close>

definition demoClient :: "string \<Rightarrow> cconfig" where
  "demoClient p = \<lparr>cc_Version = 5, cc_Mode = ModePipelined, cc_Auth = Some (CUserPass ''a'' p), cc_OfferNoAuth = False\<rparr>"

definition demoTarget :: addr where "demoTarget = ipAddr (AddrFrom4 [1, 2, 3, 4]) 80"

lemma dc_init:
  "length p \<le> 255 \<Longrightarrow> \<exists>h. hs_init (demoClient p) CmdConnect zero_hs = Inr h \<and> h_version h = 5"
  by (simp add: hs_init_def demoClient_def mode_defs init5_def setAuth_def preparePipelined_def Let_def method_defs
      UserPass_ParseReply_def ParseUserPassStatus_def checkVersion_def statusErr_def zero_hs_def)

lemma dc_new:
  assumes "length p \<le> 255"
  obtains h where "hs_new (demoClient p) CmdConnect demoTarget = Inr h"
proof -
  obtain h0 where h0: "hs_init (demoClient p) CmdConnect zero_hs = Inr h0" "h_version h0 = 5"
    using dc_init [OF assms] by blast
  have "addr_IsValid demoTarget" by (simp add: demoTarget_def AddrFrom4_def)
  then have "\<exists>h. setTarget demoTarget h0 = Inr h"
    using h0(2) by (auto simp: setTarget_def append5_def Let_def AppendRequest_def appendAddrMessage_def split: prod.splits)
  then show thesis using that h0(1) by (auto simp: hs_new_def)
qed

lemma dc_ids: "bytes_of ''a'' = [97]" "bytes_of ''b'' = [98]" "bytes_of ''c'' = [99]" "string_of [97] = ''a''"
  by (simp_all add: string_of_def char_of_byte_def bytes_of_def byte_of_char_def char_of_97)

lemma dc_admits: "admits pwConfig (Some (''a'', ''b''))" and dc_rejects: "rejects pwConfig ''a'' ''c''"
  by (simp_all add: admits_def rejects_def pwConfig_def openConfig_def choose_auth_def verify_def dc_ids padded_def)

lemma dc_auths: "\<forall>x \<in> set (cf_auth pwConfig). auth_ok (Authenticate (cf_sha256 pwConfig) x)"
  by (simp add: pwConfig_def Authenticate_def userpass_ok)

lemma dc_wf: "addr_wf demoTarget"
  by (simp add: demoTarget_def plain_ip_def AddrFrom4_def)

definition demoNet :: "bytes \<Rightarrow> cnet" where
  "demoNet b = \<lparr>cn_rd = Chunk (take 3 b) (Stop (drop 3 b) (ESent IoEOF)), cn_written = [], cn_room = None\<rparr>"

lemma demoNet_sel [simp]:
  "stream_bytes (cn_rd (demoNet b)) = b" "cn_room (demoNet b) = None" "cn_written (demoNet b) = []"
  by (simp_all add: demoNet_def)

lemma demoNet_end [simp]: "stream_end (cn_rd (demoNet b)) = ESent IoEOF"
  by (simp add: demoNet_def)

lemma dc_port: "be_of_word 2 (80 :: 16 word) = [0, 80]"
  using be_of_word_of_be [of 2 "[0, 80]", where 'a = 16] by (simp add: word_of_be_def)

lemma dc_reply: "AppendReply [] ReplySucceeded demoTarget = ([5, 0, 0, 1, 1, 2, 3, 4, 0, 80], None)"
  by (simp add: AppendReply_def appendAddrMessage_def demoTarget_def AddrFrom4_def addr_append_def addr_ATYP_def atyp_defs
      Version5_def reply_defs Let_def be_of_word_of_be dc_port)

lemma dc_checkBound: "h_cmd h = CmdConnect \<Longrightarrow> checkBound b h = None"
  by (simp add: checkBound_def Let_def CmdConnect_def CmdUDPAssociate_def CmdBind_def CmdTorResolve_def CmdTorResolvePTR_def)

lemma pipelined_handshake_refines_witness:
  "\<exists>h h' c'. hs_new (demoClient ''b'') CmdConnect demoTarget = Inr h
    \<and> hs_run h (demoNet [5, 255]) = Some (h', c', Some (StageMethodSelection, EMethod MethodUserPass 255 False)) \<and> cn_written c' = h_out h"
proof -
  obtain h where h: "hs_new (demoClient ''b'') CmdConnect demoTarget = Inr h" using dc_new [of "''b''"] by auto
  have up: "cc_Auth (demoClient ''b'') = client_auth (Some (''a'', ''b''))" by (simp add: demoClient_def client_auth_def)
  have n: "cc_Version (demoClient ''b'') \<noteq> 4" "cc_Mode (demoClient ''b'') \<noteq> ModeSequential" "cauth_ok (cc_Auth (demoClient ''b''))"
    by (simp_all add: demoClient_def mode_defs)
  have "h_version h = 5" "h_offered h = MethodUserPass" "\<not> h_offerNoAuth h"
    by (rule pipelined_out [OF h n(1,2) up], simp add: client_method_def)+
  then have "replies_spec h (ESent IoEOF) [5, 255] = Inl (StageMethodSelection, EMethod MethodUserPass 255 False)"
    by (simp add: replies_spec_def method_spec_def msg_spec_def ParseMethodSelection_def checkVersion_def Version5_def refuses_def method_defs)
  then show ?thesis
    using pipelined_handshake_refines [OF h n(3), of "demoNet [5, 255]"] n(2) h by auto
qed

lemma client_and_server_agree_witness:
  "\<exists>h sc h' c'. hs_new (demoClient ''b'') CmdConnect demoTarget = Inr h
    \<and> handshake pwConfig NilAddr NilAddr (newConn [] (Chunk (take 5 (h_out h)) (Stop (drop 5 (h_out h) @ [7]) (ESent IoEOF))) [] None) = Some (sc, None)
    \<and> rq_Addr (req sc) = demoTarget \<and> undelivered sc = [7]
    \<and> hs_run h (demoNet ([5, 2, 1, 0] @ [5, 0, 0, 1, 1, 2, 3, 4, 0, 80] @ [8])) = Some (h', c', None) \<and> stream_bytes (cn_rd c') = [8]"
proof -
  obtain h where h: "hs_new (demoClient ''b'') CmdConnect demoTarget = Inr h" using dc_new [of "''b''"] by auto
  let ?up = "Some (''a'', ''b'')"
  have n: "cc_Version (demoClient ''b'') \<noteq> 4" "cc_Mode (demoClient ''b'') \<noteq> ModeSequential" "cc_Auth (demoClient ''b'') = client_auth ?up"
    "cauth_ok (cc_Auth (demoClient ''b''))"
    by (simp_all add: demoClient_def mode_defs client_auth_def)
  have says: "server_says ?up = [5, 2, 1, 0]"
    by (simp add: server_says_def Version5_def client_method_def method_defs statusOK_def UserPassVersion_def)
  let ?s = "Chunk (take 5 (h_out h)) (Stop (drop 5 (h_out h) @ [7]) (ESent IoEOF))"
  have s: "stream_bytes ?s = h_out h @ [7]" by simp
  have c: "stream_bytes (cn_rd (demoNet ([5, 2, 1, 0] @ [5, 0, 0, 1, 1, 2, 3, 4, 0, 80] @ [8])))
      = server_says ?up @ [5, 0, 0, 1, 1, 2, 3, 4, 0, 80] @ [8]"
    unfolding says by (rule demoNet_sel)
  from client_and_server_agree [OF h n(1-3) dc_wf dc_admits dc_auths s _ dc_reply dc_wf
      dc_checkBound [OF hs_new_ready(2) [OF h n(4)]] c demoNet_sel(2), of "[]" NilAddr NilAddr "[]" None]
  show ?thesis using h by auto
qed

lemma wrong_password_fails_on_both_ends_witness:
  "\<exists>h sc h' c'. hs_new (demoClient ''c'') CmdConnect demoTarget = Inr h
    \<and> handshake pwConfig NilAddr NilAddr (newConn [] (Stop (h_out h @ [7]) (ESent IoEOF)) [] None) = Some (sc, Some (StageUserPass, errRejected))
    \<and> hs_run h (demoNet [5, 2, 1, 1]) = Some (h', c', Some (StageUserPassStatus, EAuth MethodUserPass 1))"
proof -
  obtain h where h: "hs_new (demoClient ''c'') CmdConnect demoTarget = Inr h" using dc_new [of "''c''"] by auto
  have n: "cc_Version (demoClient ''c'') \<noteq> 4" "cc_Mode (demoClient ''c'') \<noteq> ModeSequential" "cc_Auth (demoClient ''c'') = Some (CUserPass ''a'' ''c'')"
    by (simp_all add: demoClient_def mode_defs)
  have c: "stream_bytes (cn_rd (demoNet [5, 2, 1, 1])) = [Version5, MethodUserPass] @ statusFailed @ []"
    by (simp add: Version5_def method_defs statusFailed_def UserPassVersion_def)
  have s: "stream_bytes (Stop (h_out h @ [7]) (ESent IoEOF)) = h_out h @ [7]" by simp
  from wrong_password_fails_on_both_ends [OF h n dc_rejects dc_auths s _ c demoNet_sel(2), of "[]" NilAddr NilAddr "[]" None]
  show ?thesis using h by auto
qed

end
