(* ===== verification/ClientConn.thy ===== *)
theory ClientConn
  imports ClientHandshake
begin

text \<open>
  The client's \<open>Conn\<close> (\<open>conn.go\<close>): the state that \<open>Conn.mu\<close> guards, each critical section as a function on
  it, and the calls of any number of goroutines as a step relation. Reads and writes of the underlying conn
  happen between critical sections and may end in any way; so do the deadlines and the contexts that end them.
\<close>

section \<open>State\<close>

datatype cphase = phIdle | phSending | phSent

type_synonym time = "nat option"

text \<open>A deadline of the underlying conn: none, a time, or \<open>aLongTimeAgo\<close>.\<close>

datatype dline = DLNone | DLAt nat | DLPast

definition dl_of :: "time \<Rightarrow> dline" where
  "dl_of t = (case t of None \<Rightarrow> DLNone | Some x \<Rightarrow> DLAt x)"

datatype cevt =
    EvConnectStart string
  | EvConnectDone "error option"
  | EvWrote "error option"
  | EvDone "error option"
  | EvRelayStart string string
  | EvRelayDone "error option"
  | EvAccepted addr "error option"

text \<open>\<open>Conn\<close> up to \<open>k_replyDeadline\<close>; \<open>k_wake\<close> is the number of the channel \<open>wake\<close>. Then the world: the channels
  closed and made, the deadlines of the underlying conn and whether it is closed, the hooks run, the writes
  (which of them begin with the handshake).\<close>

record kconn =
  k_hasConn :: bool
  k_h :: hs
  k_op :: string
  k_network :: string
  k_proxyAddr :: string
  k_replyTimeout :: int
  k_handshakeTimeout :: int
  k_doneAfterRelay :: bool
  k_readReady :: bool
  k_writeReady :: bool
  k_phase :: cphase
  k_busy :: bool
  k_done :: bool
  k_closed :: bool
  k_abortErr :: "error option"
  k_err :: "error option"
  k_bound :: addr
  k_readDeadline :: time
  k_replyDeadline :: time
  k_wake :: "nat option"
  k_local :: string
  k_remote :: string
  k_canDeadline :: bool
  k_fired :: "nat set"
  k_nextChan :: nat
  k_connRead :: dline
  k_connWrite :: dline
  k_connClosed :: bool
  k_events :: "cevt list"
  k_writes :: "(bool \<times> bytes) list"

definition maxEarlyData :: nat where "maxEarlyData = 32768"

definition opConnect :: string where "opConnect = ''socks connect''"

section \<open>Errors\<close>

definition kproxy :: "kconn \<Rightarrow> addr option" where
  "kproxy c =
     (if k_proxyAddr c = [] then None
      else case wire_ParseAddr (k_proxyAddr c) of Inr a \<Rightarrow> Some a | Inl e \<Rightarrow> None)"

definition opError :: "kconn \<Rightarrow> string \<times> error \<Rightarrow> error" where
  "opError c he =
     EOp (k_op c) (k_network c)
       (case kproxy c of
          Some p \<Rightarrow> Some (addr_String p)
        | None \<Rightarrow> if k_hasConn c then Some (k_remote c) else None)
       (if addr_IsValid (h_target (k_h c)) then Some (addr_String (h_target (k_h c))) else None)
       (EHandshake (fst he) (Some (snd he)))"

definition connErr :: "kconn \<Rightarrow> string \<Rightarrow> error \<Rightarrow> error" where
  "connErr c op e = EOp op (k_network c) (Some (k_local c)) (Some (k_remote c)) e"

definition noConn :: "kconn \<Rightarrow> string \<Rightarrow> error" where
  "noConn c op =
     (case k_err c of
        Some e \<Rightarrow> e
      | None \<Rightarrow> EOp op ''tcp'' None None (EHandshake StageConfig (Some (ESent errNoConn))))"

definition ioErr :: "kconn \<Rightarrow> string \<Rightarrow> error option \<Rightarrow> error option" where
  "ioErr c op err =
     (case err of
        None \<Rightarrow> None
      | Some e \<Rightarrow>
          if IsS e NetErrClosed then Some e
          else if k_closed c then Some (connErr c op (ESent NetErrClosed)) else Some e)"

definition checkLocked :: "string \<Rightarrow> kconn \<Rightarrow> error option" where
  "checkLocked op c =
     (if \<not> k_hasConn c then Some (noConn c op)
      else if \<not> k_closed c then k_err c
      else if op \<noteq> opConnect then Some (connErr c op (ESent NetErrClosed))
      else if k_phase c \<noteq> phIdle then Some (opError c (h_readStage (k_h c), ESent NetErrClosed))
      else Some (opError c (writeStage 0 (k_h c), ESent NetErrClosed)))"

section \<open>Budgets and deadlines\<close>

definition defaultHandshakeTimeout :: int where "defaultHandshakeTimeout = 30000000000"

definition handshakeBudget :: "bool \<Rightarrow> kconn \<Rightarrow> int option" where
  "handshakeBudget hasDeadline c =
     (if k_handshakeTimeout c > 0 then Some (k_handshakeTimeout c)
      else if k_handshakeTimeout c < 0 \<or> hasDeadline then None
      else Some defaultHandshakeTimeout)"

definition replyBudget :: "bool \<Rightarrow> kconn \<Rightarrow> int option" where
  "replyBudget hasDeadline c =
     (if k_replyTimeout c > 0 then Some (k_replyTimeout c) else handshakeBudget hasDeadline c)"

definition before :: "time \<Rightarrow> time \<Rightarrow> bool" where
  "before a b = ((case a of None \<Rightarrow> 0 | Some x \<Rightarrow> x) < (case b of None \<Rightarrow> 0 | Some x \<Rightarrow> x))"

definition earliest :: "time \<Rightarrow> time \<Rightarrow> time" where
  "earliest a b = (if a = None \<or> (b \<noteq> None \<and> before b a) then b else a)"

definition unblock :: "kconn \<Rightarrow> kconn" where
  "unblock c =
     (if k_canDeadline c then c\<lparr>k_connRead := DLPast, k_connWrite := DLPast\<rparr> else c\<lparr>k_connClosed := True\<rparr>)"

definition setReplyDeadlineLocked :: "time \<Rightarrow> kconn \<Rightarrow> kconn" where
  "setReplyDeadlineLocked t c =
     (let c1 = c\<lparr>k_replyDeadline := t\<rparr> in
      if t \<noteq> None then c1\<lparr>k_connRead := dl_of (earliest (k_readDeadline c1) t)\<rparr> else c1)"

definition clearReplyDeadlineLocked :: "kconn \<Rightarrow> kconn" where
  "clearReplyDeadlineLocked c =
     (if k_replyDeadline c \<noteq> None then
        let c1 = c\<lparr>k_replyDeadline := None\<rparr> in
        if k_abortErr c1 = None then c1\<lparr>k_connRead := dl_of (k_readDeadline c1)\<rparr> else c1
      else c)"

section \<open>The end of the handshake\<close>

definition storeReadyLocked :: "kconn \<Rightarrow> kconn" where
  "storeReadyLocked c =
     (let ok = (k_err c = None \<and> \<not> k_closed c)
      in c\<lparr>k_readReady := (ok \<and> k_done c), k_writeReady := (ok \<and> k_phase c = phSent)\<rparr>)"

definition broadcastLocked :: "kconn \<Rightarrow> kconn" where
  "broadcastLocked c = (case k_wake c of Some ch \<Rightarrow> c\<lparr>k_fired := insert ch (k_fired c), k_wake := None\<rparr> | None \<Rightarrow> c)"

text \<open>\<open>waitLocked\<close> up to the unlock: the channel to wait on.\<close>

definition waitLocked :: "kconn \<Rightarrow> kconn \<times> nat" where
  "waitLocked c =
     (case k_wake c of
        Some ch \<Rightarrow> (c, ch)
      | None \<Rightarrow> (c\<lparr>k_wake := Some (k_nextChan c), k_nextChan := Suc (k_nextChan c)\<rparr>, k_nextChan c))"

definition establishLocked :: "addr \<Rightarrow> kconn \<Rightarrow> kconn" where
  "establishLocked bound c = storeReadyLocked (broadcastLocked (c\<lparr>k_done := True, k_bound := bound\<rparr>))"

definition failLocked :: "string \<times> error \<Rightarrow> kconn \<Rightarrow> kconn" where
  "failLocked he c =
     (let c1 = storeReadyLocked (broadcastLocked (c\<lparr>k_done := True, k_err := Some (opError c he)\<rparr>));
          c2 = (if k_busy c1 then c1\<lparr>k_connRead := DLPast\<rparr> else c1)
      in if k_phase c2 = phSending then c2\<lparr>k_connWrite := DLPast\<rparr> else c2)"

definition endLocked :: "hs_error \<Rightarrow> kconn \<Rightarrow> kconn \<times> bool" where
  "endLocked he c =
     (if k_done c then (c, False)
      else
        let c1 = (case he of None \<Rightarrow> establishLocked (h_bound (k_h c)) c | Some x \<Rightarrow> failLocked x c)
        in (c1, k_phase c1 = phSent))"

text \<open>\<open>expired\<close> and \<open>blame\<close>; \<open>now\<close> is the clock.\<close>

definition expired :: "nat \<Rightarrow> error \<Rightarrow> time \<Rightarrow> kconn \<Rightarrow> bool" where
  "expired now e dl c =
     (dl \<noteq> None \<and> IsTimeout e \<and> \<not> before (Some now) dl \<and> (k_readDeadline c = None \<or> before dl (k_readDeadline c)))"

definition blame :: "nat \<Rightarrow> hs_error \<Rightarrow> error option \<Rightarrow> time \<Rightarrow> error option \<Rightarrow> kconn \<Rightarrow> hs_error" where
  "blame now he cause dl expiredErr c =
     (if (case he of Some (st, e) \<Rightarrow> isServerMsgErr e | None \<Rightarrow> False) then he
      else case cause of
        Some x \<Rightarrow> Some (case he of Some (st, e) \<Rightarrow> st | None \<Rightarrow> h_readStage (k_h c), x)
      | None \<Rightarrow>
          (case he of
             Some (st, e) \<Rightarrow>
               (case expiredErr of
                  Some x \<Rightarrow> if expired now e dl c then Some (st, x) else he
                | None \<Rightarrow> he)
           | None \<Rightarrow> None))"

definition settleLocked :: "kconn \<Rightarrow> kconn \<times> bool" where
  "settleLocked c =
     (let (c1, hook) = (if k_abortErr c \<noteq> None \<and> k_phase c = phSent \<and> \<not> k_busy c
                        then endLocked (blame 0 None (k_abortErr c) None None c) c else (c, False))
      in (broadcastLocked c1, hook))"

text \<open>\<open>unlockDone\<close>: the hook runs with the error read under the lock.\<close>

definition unlockDone :: "kconn \<times> bool \<Rightarrow> kconn" where
  "unlockDone ch = (if snd ch then (fst ch)\<lparr>k_events := k_events (fst ch) @ [EvDone (k_err (fst ch))]\<rparr> else fst ch)"

definition settleUnlock :: "kconn \<Rightarrow> kconn" where
  "settleUnlock c = unlockDone (settleLocked c)"

definition endIOLocked :: "error option \<Rightarrow> kconn \<Rightarrow> kconn" where
  "endIOLocked ctxErr c =
     (let c1 = c\<lparr>k_busy := False\<rparr> in
      if k_abortErr c1 = None \<and> ctxErr \<noteq> None then c1\<lparr>k_abortErr := ctxErr\<rparr> else c1)"

section \<open>Claiming the handshake and the replies\<close>

text \<open>What a critical section tells its caller: return this error, go on, wait on a channel, or try again.\<close>

datatype claim = ClRet "error option" | ClGo | ClWait nat | ClAgain

definition waiting :: "kconn \<Rightarrow> kconn \<times> claim" where
  "waiting c = (case waitLocked c of (c1, ch) \<Rightarrow> (c1, ClWait ch))"

definition claimLocked :: "kconn \<Rightarrow> kconn" where
  "claimLocked c = c\<lparr>k_phase := phSending\<rparr>"

definition claimRunLocked :: "string \<Rightarrow> kconn \<Rightarrow> kconn \<times> claim" where
  "claimRunLocked op c =
     (case checkLocked op c of
        Some e \<Rightarrow> (c, ClRet (Some e))
      | None \<Rightarrow>
          if k_done c then (c, ClRet None)
          else if k_phase c \<noteq> phIdle then waiting c
          else case k_abortErr c of
            Some a \<Rightarrow> (let c1 = fst (endLocked (Some (writeStage 0 (k_h c), a)) c) in (c1, ClRet (checkLocked op c1)))
          | None \<Rightarrow> ((claimLocked c)\<lparr>k_busy := True\<rparr>, ClGo))"

text \<open>\<open>run\<close> after the I/O; \<open>he\<close> is its result, \<open>ctxErr\<close> is \<open>ctx.Err()\<close>.\<close>

definition runEnd :: "string \<Rightarrow> hs_error \<Rightarrow> error option \<Rightarrow> kconn \<Rightarrow> kconn \<times> error option" where
  "runEnd op he ctxErr c =
     (let c1 = (endIOLocked ctxErr c)\<lparr>k_phase := phSent\<rparr>;
          (c2, hook) = endLocked (blame 0 he (k_abortErr c1) None None c1) c1
      in (unlockDone (c2, hook), checkLocked op c2))"

definition kclaim :: "string \<Rightarrow> kconn \<Rightarrow> kconn \<times> bool \<times> error option" where
  "kclaim op c =
     (let err = checkLocked op c in
      if err \<noteq> None \<or> k_phase c \<noteq> phIdle then (c, False, err)
      else (broadcastLocked (claimLocked c), True, None))"

text \<open>\<open>send\<close>: the write with its wipe and hook, then the critical section. \<open>n\<close> bytes went out.\<close>

definition sendWrote :: "bytes \<Rightarrow> nat \<Rightarrow> error option \<Rightarrow> kconn \<Rightarrow> kconn" where
  "sendWrote b n werr c =
     c\<lparr>k_writes := k_writes c @ [(True, take n b)], k_h := wipe (k_h c), k_events := k_events c @ [EvWrote werr]\<rparr>"

text \<open>The writes of \<open>h.run\<close>, logged as one; only the pipelined run wipes.\<close>

definition runWrote :: "bytes \<Rightarrow> nat \<Rightarrow> error option \<Rightarrow> kconn \<Rightarrow> kconn" where
  "runWrote b n werr c =
     (let w = sendWrote b n werr c in
      if h_mode (k_h c) = ModeSequential \<and> h_version (k_h c) = 5 then w\<lparr>k_h := k_h c\<rparr> else w)"

definition sendEnd :: "nat \<Rightarrow> error option \<Rightarrow> kconn \<Rightarrow> kconn \<times> int \<times> error option" where
  "sendEnd n werr c =
     (let owed = k_done c;
          hs = length (h_out (k_h c));
          c1 = c\<lparr>k_phase := phSent\<rparr>
      in case (if n < hs then werr else None) of
           Some e \<Rightarrow>
             (let he = blame 0 (Some (writeStage n (k_h c1), e)) (k_abortErr c1) None None c1;
                  (c2, hook) = endLocked he c1;
                  c3 = (if k_err c2 = None
                        then storeReadyLocked (c2\<lparr>k_err := Some (opError c2 (case he of Some x \<Rightarrow> x | None \<Rightarrow> (writeStage n (k_h c1), e)))\<rparr>)
                        else c2)
              in (unlockDone (c3, hook \<or> owed), 0, k_err c3))
         | None \<Rightarrow>
             (let (c2, hook) = settleLocked (storeReadyLocked c1)
              in (unlockDone (c2, hook \<or> owed), int n - int hs, ioErr c2 ''write'' werr)))"

definition waitWritten :: "string \<Rightarrow> kconn \<Rightarrow> kconn \<times> claim" where
  "waitWritten op c =
     (if k_phase c \<noteq> phSent \<and> \<not> k_done c \<and> \<not> k_closed c then waiting c else (c, ClRet (checkLocked op c)))"

definition waitClaimedLocked :: "nat \<Rightarrow> string \<Rightarrow> kconn \<Rightarrow> kconn \<times> claim" where
  "waitClaimedLocked now op c =
     (if k_phase c = phIdle \<and> \<not> k_done c \<and> \<not> k_closed c then
        (if k_readDeadline c \<noteq> None \<and> \<not> before (Some now) (k_readDeadline c)
         then (c, ClRet (Some (connErr c op (ESent OsErrDeadlineExceeded))))
         else waiting c)
      else (c, ClGo))"

definition claimReadLocked :: "string \<Rightarrow> kconn \<Rightarrow> kconn \<times> claim" where
  "claimReadLocked op c =
     (case checkLocked op c of
        Some e \<Rightarrow> (c, ClRet (Some e))
      | None \<Rightarrow>
          if k_done c then (c, ClRet None)
          else if k_abortErr c \<noteq> None \<and> k_phase c = phSent \<and> \<not> k_busy c then (settleUnlock c, ClAgain)
          else if k_abortErr c = None \<and> \<not> k_busy c then (c\<lparr>k_busy := True\<rparr>, ClGo)
          else waiting c)"

text \<open>\<open>awaitReplies\<close> around the reading: \<open>dl\<close> is \<open>replyDeadline\<close>.\<close>

definition replyDeadlineAt :: "nat \<Rightarrow> bool \<Rightarrow> kconn \<Rightarrow> time" where
  "replyDeadlineAt now hasDeadline c = map_option (\<lambda>d. now + nat d) (replyBudget hasDeadline c)"

definition readStart :: "string \<Rightarrow> time \<Rightarrow> kconn \<Rightarrow> kconn \<times> claim" where
  "readStart op dl c =
     (case claimReadLocked op c of
        (c1, ClGo) \<Rightarrow> (setReplyDeadlineLocked dl c1, ClGo)
      | r \<Rightarrow> r)"

definition readEnd :: "string \<Rightarrow> nat \<Rightarrow> hs_error \<Rightarrow> error option \<Rightarrow> time \<Rightarrow> kconn \<Rightarrow> kconn \<times> error option" where
  "readEnd op now he ctxErr dl c =
     (let c1 = clearReplyDeadlineLocked (endIOLocked ctxErr c);
          (c2, hook) = endLocked (blame now he (k_abortErr c1) dl (Some (ESent OsErrDeadlineExceeded)) c1) c1
      in (unlockDone (c2, hook), checkLocked op c2))"

section \<open>Cancellation, Close, deadlines\<close>

definition abortWith :: "error \<Rightarrow> kconn \<Rightarrow> kconn" where
  "abortWith e c =
     (if \<not> k_hasConn c \<or> k_done c \<or> k_abortErr c \<noteq> None then c
      else settleUnlock (unblock (c\<lparr>k_abortErr := Some e\<rparr>)))"

definition handshakeExpired :: "kconn \<Rightarrow> kconn" where
  "handshakeExpired c = abortWith (ESent CtxDeadlineExceeded) c"

text \<open>\<open>Close\<close>; \<open>cerr\<close> is what closing the underlying conn returns.\<close>

definition Conn_Close :: "error option \<Rightarrow> kconn \<Rightarrow> kconn \<times> error option" where
  "Conn_Close cerr c =
     (if \<not> k_hasConn c then (c, Some (noConn c ''close''))
      else if k_closed c then (c, Some (connErr c ''close'' (ESent NetErrClosed)))
      else
        let c1 = c\<lparr>k_closed := True\<rparr>;
            c2 = (if k_abortErr c1 = None \<and> \<not> k_done c1 then c1\<lparr>k_abortErr := Some (ESent NetErrClosed)\<rparr> else c1)
        in ((settleUnlock (storeReadyLocked c2))\<lparr>k_connClosed := True\<rparr>, cerr))"

definition SetReadDeadline :: "time \<Rightarrow> kconn \<Rightarrow> kconn" where
  "SetReadDeadline t c =
     (if \<not> k_hasConn c then c
      else
        let c1 = broadcastLocked (c\<lparr>k_readDeadline := t\<rparr>) in
        if k_abortErr c1 \<noteq> None \<and> \<not> k_done c1 then c1
        else c1\<lparr>k_connRead := dl_of (if k_replyDeadline c1 \<noteq> None then earliest t (k_replyDeadline c1) else t)\<rparr>)"

definition SetWriteDeadline :: "time \<Rightarrow> kconn \<Rightarrow> kconn" where
  "SetWriteDeadline t c =
     (if \<not> k_hasConn c \<or> (k_abortErr c \<noteq> None \<and> \<not> k_done c) then c else c\<lparr>k_connWrite := dl_of t\<rparr>)"

text \<open>\<open>handshakeOver\<close> around \<open>h.run\<close>, whose result is \<open>he\<close>; \<open>cause\<close> is the context's error if it fired.\<close>

definition handshakeOver :: "nat \<Rightarrow> bool \<Rightarrow> time \<Rightarrow> hs_error \<Rightarrow> error option \<Rightarrow> kconn \<Rightarrow> kconn \<times> error option" where
  "handshakeOver now closeOnErr dl he cause c =
     (let he1 = blame now he cause dl (Some (ESent CtxDeadlineExceeded)) c;
          c1 = (if he1 \<noteq> None \<and> closeOnErr then c\<lparr>k_connClosed := True\<rparr> else c);
          err = map_option (opError c1) he1
      in (if err \<noteq> None \<or> \<not> k_doneAfterRelay c1 then c1\<lparr>k_events := k_events c1 @ [EvDone err]\<rparr> else c1, err))"

section \<open>Buffers of early data\<close>

text \<open>The handshake with room for \<open>n\<close> bytes: the slice, and the array of the pool behind it, if any.\<close>

definition maxHandshake :: nat where "maxHandshake = 1024"

definition earlyBuf :: "bytes \<Rightarrow> nat \<Rightarrow> bytes \<Rightarrow> bytes \<times> bytes option" where
  "earlyBuf hs n pool =
     (if length hs > maxHandshake \<or> length hs + n \<le> maxHandshake then (hs, None)
      else (hs, Some (overwrite 0 hs pool)))"

definition putEarlyBuf :: "bytes option \<Rightarrow> nat \<Rightarrow> bytes option" where
  "putEarlyBuf p used = map_option (\<lambda>a. overwrite 0 (replicate used 0) a) p"

section \<open>Calls\<close>

text \<open>A call of a goroutine: \<open>HandshakeContext\<close> (does its context have a deadline), \<open>Read\<close>, \<open>WriteTo\<close>, \<open>CloseWrite\<close>
  (can the conn half-close), \<open>Write\<close>, \<open>ReadFrom\<close> (the first data and the error of its source).\<close>

datatype kcall =
    CHandshake bool
  | CRead
  | CWriteTo
  | CCloseWrite bool
  | CWrite bytes
  | CReadFrom bytes "error option"

fun op_of :: "kcall \<Rightarrow> string" where
  "op_of (CHandshake d) = opConnect"
| "op_of CRead = ''read''"
| "op_of CWriteTo = ''writeto''"
| "op_of (CCloseWrite ok) = ''close''"
| "op_of (CWrite b) = ''write''"
| "op_of (CReadFrom b e) = ''readfrom''"

fun has_deadline :: "kcall \<Rightarrow> bool" where
  "has_deadline (CHandshake d) = d"
| "has_deadline _ = False"

fun call_data :: "kcall \<Rightarrow> bytes" where
  "call_data (CWrite b) = b"
| "call_data (CReadFrom b e) = b"
| "call_data _ = []"

text \<open>The data a call sends with the handshake, and the rest.\<close>

fun early_data :: "kcall \<Rightarrow> bytes" where
  "early_data (CWrite b) = take maxEarlyData b"
| "early_data (CReadFrom b e) = take maxEarlyData b"
| "early_data _ = []"

text \<open>Where a call is: before a critical section, blocked on a channel, in the I/O between two of them, or over.\<close>

datatype kpc =
    PIdle
  | PRun kcall
  | PRunWait kcall nat
  | PRunning kcall
  | PSource kcall
  | PClaim kcall
  | PSending kcall
  | PSent kcall nat "error option"
  | PWritten kcall
  | PWrittenWait kcall nat
  | PAwait kcall
  | PAwaitWait kcall nat time
  | PRead kcall time
  | PReadWait kcall nat time
  | PReading kcall time
  | PWriting kcall bytes
  | PDone kcall "error option"

text \<open>What a call does once its handshake part is over without error.\<close>

fun after_ok :: "kcall \<Rightarrow> kpc" where
  "after_ok (CWrite b) = PWriting (CWrite b) b"
| "after_ok (CReadFrom b e) = PWriting (CReadFrom b e) b"
| "after_ok call = PDone call None"

definition after_ret :: "kcall \<Rightarrow> error option \<Rightarrow> kpc" where
  "after_ret call err = (case err of Some e \<Rightarrow> PDone call (Some e) | None \<Rightarrow> after_ok call)"

text \<open>The start of each call: its fast path, then \<open>handshake\<close>, \<open>writeEarly\<close> or \<open>readFromEarly\<close>. \<open>ctxErr\<close> is
  \<open>ctx.Err()\<close> of \<open>HandshakeContext\<close>.\<close>

definition early :: "kconn \<Rightarrow> bool" where
  "early c = (h_mode (k_h c) = ModeEarly)"

definition start_Handshake :: "bool \<Rightarrow> error option \<Rightarrow> kconn \<Rightarrow> kconn \<times> kpc" where [simp]:
  "start_Handshake d ctxErr c =
     (if k_readReady c then (c, PDone (CHandshake d) None)
      else (case ctxErr of Some e \<Rightarrow> abortWith e c | None \<Rightarrow> c, (if early c then PClaim (CHandshake d) else PRun (CHandshake d))))"

definition start_Read :: "kconn \<Rightarrow> kconn \<times> kpc" where [simp]:
  "start_Read c = (c, if k_readReady c then PDone CRead None else if early c then PAwait CRead else PRun CRead)"

definition start_WriteTo :: "kconn \<Rightarrow> kconn \<times> kpc" where [simp]:
  "start_WriteTo c = (c, if k_readReady c then PDone CWriteTo None else if early c then PAwait CWriteTo else PRun CWriteTo)"

definition start_CloseWrite :: "bool \<Rightarrow> kconn \<Rightarrow> kconn \<times> kpc" where [simp]:
  "start_CloseWrite ok c =
     (case checkLocked ''close'' c of
        Some e \<Rightarrow> (c, PDone (CCloseWrite ok) (Some e))
      | None \<Rightarrow>
          if \<not> ok then (c, PDone (CCloseWrite ok) (Some (connErr c ''close'' (ESent ErrorsErrUnsupported))))
          else if k_readReady c then (c, PDone (CCloseWrite ok) None)
          else (c, if early c then PClaim (CCloseWrite ok) else PRun (CCloseWrite ok)))"

definition start_Write :: "bytes \<Rightarrow> kconn \<Rightarrow> kconn \<times> kpc" where [simp]:
  "start_Write b c =
     (c, if k_writeReady c then PWriting (CWrite b) b else if early c then PClaim (CWrite b) else PRun (CWrite b))"

definition readFromEarly :: "kcall \<Rightarrow> kconn \<Rightarrow> kpc" where [simp]:
  "readFromEarly call c =
     (case checkLocked ''readfrom'' c of
        Some x \<Rightarrow> PDone call (Some x)
      | None \<Rightarrow> if k_phase c \<noteq> phIdle then PWritten call else PSource call)"

definition start_ReadFrom :: "bytes \<Rightarrow> error option \<Rightarrow> kconn \<Rightarrow> kconn \<times> kpc" where [simp]:
  "start_ReadFrom b e c =
     (c, if k_writeReady c then PWriting (CReadFrom b e) b
         else if early c then readFromEarly (CReadFrom b e) c
         else PRun (CReadFrom b e))"

fun start_call :: "kcall \<Rightarrow> error option \<Rightarrow> kconn \<Rightarrow> kconn \<times> kpc" where
  "start_call (CHandshake d) ctxErr c = start_Handshake d ctxErr c"
| "start_call (CCloseWrite ok) ctxErr c = start_CloseWrite ok c"
| "start_call (CWrite b) ctxErr c = start_Write b c"
| "start_call (CReadFrom b e) ctxErr c = start_ReadFrom b e c"
| "start_call CRead ctxErr c = start_Read c"
| "start_call CWriteTo ctxErr c = start_WriteTo c"

text \<open>After \<open>claim\<close>; after \<open>send\<close>.\<close>

definition after_claim :: "kcall \<Rightarrow> bool \<times> error option \<Rightarrow> kpc" where
  "after_claim call r =
     (case r of
        (True, e) \<Rightarrow> PSending call
      | (False, Some e) \<Rightarrow> PDone call (Some e)
      | (False, None) \<Rightarrow> (case call of CWrite b \<Rightarrow> PWritten call | CReadFrom b e \<Rightarrow> PWritten call | _ \<Rightarrow> PAwait call))"

fun after_send :: "kcall \<Rightarrow> error option \<Rightarrow> kpc" where
  "after_send call (Some e) = PDone call (Some e)"
| "after_send (CWrite b) None = (if length b \<le> maxEarlyData then PDone (CWrite b) None else PWriting (CWrite b) (drop maxEarlyData b))"
| "after_send (CReadFrom b rerr) None =
     (case rerr of
        Some e \<Rightarrow> PDone (CReadFrom b rerr) (if IsS e IoEOF then None else Some e)
      | None \<Rightarrow> PWriting (CReadFrom b rerr) [])"
| "after_send call None = PAwait call"

text \<open>\<open>readSome\<close> returns data or an error.\<close>

fun source_result :: "kcall \<Rightarrow> bool" where
  "source_result (CReadFrom b e) = (b \<noteq> [] \<or> e \<noteq> None)"
| "source_result call = True"

definition after_source :: "kcall \<Rightarrow> kpc" where
  "after_source call =
     (case call of
        CReadFrom b (Some e) \<Rightarrow> if b \<noteq> [] \<or> IsS e IoEOF then PClaim call else PDone call (Some e)
      | _ \<Rightarrow> PClaim call)"

definition with_wait :: "(nat \<Rightarrow> kpc) \<Rightarrow> kpc \<Rightarrow> kpc \<Rightarrow> (error option \<Rightarrow> kpc) \<Rightarrow> claim \<Rightarrow> kpc" where
  "with_wait w go again ret r = (case r of ClWait ch \<Rightarrow> w ch | ClGo \<Rightarrow> go | ClAgain \<Rightarrow> again | ClRet e \<Rightarrow> ret e)"

definition run_section :: "kcall \<Rightarrow> kconn \<Rightarrow> kconn \<times> kpc" where
  "run_section call c =
     (case claimRunLocked (op_of call) c of
        (c1, r) \<Rightarrow> (c1, with_wait (PRunWait call) (PRunning call) (PRun call) (after_ret call) r))"

definition written_section :: "kcall \<Rightarrow> kconn \<Rightarrow> kconn \<times> kpc" where
  "written_section call c =
     (case waitWritten (op_of call) c of
        (c1, r) \<Rightarrow> (c1, with_wait (PWrittenWait call) (PWritten call) (PWritten call) (after_ret call) r))"

definition read_section :: "kcall \<Rightarrow> time \<Rightarrow> kconn \<Rightarrow> kconn \<times> kpc" where
  "read_section call dl c =
     (case readStart (op_of call) dl c of
        (c1, r) \<Rightarrow> (c1, with_wait (\<lambda>ch. PReadWait call ch dl) (PReading call dl) (PRead call dl) (PDone call) r))"

definition await_section :: "nat \<Rightarrow> kcall \<Rightarrow> kconn \<Rightarrow> kconn \<times> kpc" where
  "await_section now call c =
     (case waitClaimedLocked now (op_of call) c of
        (c1, ClGo) \<Rightarrow> read_section call (replyDeadlineAt now (has_deadline call) c1) c1
      | (c1, r) \<Rightarrow> (c1, with_wait (\<lambda>ch. PAwaitWait call ch (k_readDeadline c)) (PAwait call) (PAwait call) (PDone call) r))"

section \<open>Steps\<close>

record ksys =
  ks_c :: kconn
  ks_pc :: "nat \<Rightarrow> kpc"

definition at :: "nat \<Rightarrow> ksys \<Rightarrow> kconn \<times> kpc \<Rightarrow> ksys" where
  "at t s r = s\<lparr>ks_c := fst r, ks_pc := (ks_pc s)(t := snd r)\<rparr>"

text \<open>What the I/O leaves in the handshake for the state machine: the stage and the bound address.\<close>

definition io_leaves :: "string \<Rightarrow> addr \<Rightarrow> kconn \<Rightarrow> kconn" where
  "io_leaves st b c = c\<lparr>k_h := (k_h c)\<lparr>h_readStage := st, h_bound := b\<rparr>\<rparr>"

text \<open>\<open>tstep eager t\<close> is a step of goroutine \<open>t\<close>, \<open>estep\<close> one of the world: a context or timer that ends, \<open>Close\<close>, a
  deadline set. \<open>eager\<close>: the proxy may send its success before it has got the handshake.\<close>

inductive tstep :: "bool \<Rightarrow> nat \<Rightarrow> ksys \<Rightarrow> ksys \<Rightarrow> bool" for eager t where
  call: "ks_pc s t = PIdle \<or> (\<exists>x e. ks_pc s t = PDone x e) \<Longrightarrow> tstep eager t s (at t s (start_call call ctxErr (ks_c s)))"
| run: "ks_pc s t = PRun call \<Longrightarrow> tstep eager t s (at t s (run_section call (ks_c s)))"
| run_woken: "ks_pc s t = PRunWait call ch \<Longrightarrow> ch \<in> k_fired (ks_c s) \<Longrightarrow> tstep eager t s (at t s (ks_c s, PRun call))"
| run_io:
    "ks_pc s t = PRunning call \<Longrightarrow> runEnd (op_of call) he ctxErr (runWrote b n werr (io_leaves st bd (ks_c s))) = (c, r)
     \<Longrightarrow> tstep eager t s (at t s (c, after_ret call r))"
| source: "ks_pc s t = PSource call \<Longrightarrow> source_result call \<Longrightarrow> tstep eager t s (at t s (ks_c s, after_source call))"
| claim: "ks_pc s t = PClaim call \<Longrightarrow> kclaim (op_of call) (ks_c s) = (c, r) \<Longrightarrow> tstep eager t s (at t s (c, after_claim call r))"
| send_io:
    "ks_pc s t = PSending call \<Longrightarrow> n \<le> length (h_out (k_h (ks_c s)) @ early_data call)
     \<Longrightarrow> tstep eager t s (at t s (sendWrote (h_out (k_h (ks_c s)) @ early_data call) n werr (ks_c s), PSent call n werr))"
| sent:
    "ks_pc s t = PSent call n werr \<Longrightarrow> sendEnd n werr (ks_c s) = (c, k, r) \<Longrightarrow> tstep eager t s (at t s (c, after_send call r))"
| written: "ks_pc s t = PWritten call \<Longrightarrow> tstep eager t s (at t s (written_section call (ks_c s)))"
| written_woken:
    "ks_pc s t = PWrittenWait call ch \<Longrightarrow> ch \<in> k_fired (ks_c s) \<Longrightarrow> tstep eager t s (at t s (ks_c s, PWritten call))"
| await: "ks_pc s t = PAwait call \<Longrightarrow> tstep eager t s (at t s (await_section now call (ks_c s)))"
| await_woken:
    "ks_pc s t = PAwaitWait call ch dl \<Longrightarrow> ch \<in> k_fired (ks_c s) \<or> dl \<noteq> None \<Longrightarrow> tstep eager t s (at t s (ks_c s, PAwait call))"
| read: "ks_pc s t = PRead call dl \<Longrightarrow> tstep eager t s (at t s (read_section call dl (ks_c s)))"
| read_woken:
    "ks_pc s t = PReadWait call ch dl \<Longrightarrow> ch \<in> k_fired (ks_c s) \<Longrightarrow> tstep eager t s (at t s (ks_c s, PRead call dl))"
| read_io:
    "ks_pc s t = PReading call dl \<Longrightarrow> he = None \<longrightarrow> eager \<or> k_writes (ks_c s) \<noteq> [] \<Longrightarrow> readEnd (op_of call) now he ctxErr dl (io_leaves st bd (ks_c s)) = (c, r)
     \<Longrightarrow> tstep eager t s (at t s (c, PDone call r))"
| stage: "ks_pc s t = PReading call dl \<Longrightarrow> tstep eager t s (at t s (io_leaves st (h_bound (k_h (ks_c s))) (ks_c s), PReading call dl))"
| write_io:
    "ks_pc s t = PWriting call b
     \<Longrightarrow> tstep eager t s (at t s ((ks_c s)\<lparr>k_writes := k_writes (ks_c s) @ [(False, take n b)]\<rparr>, PDone call (ioErr (ks_c s) (op_of call) werr)))"

inductive estep :: "ksys \<Rightarrow> ksys \<Rightarrow> bool" where
  abort: "estep s (s\<lparr>ks_c := abortWith e (ks_c s)\<rparr>)"
| close: "estep s (s\<lparr>ks_c := fst (Conn_Close cerr (ks_c s))\<rparr>)"
| read_deadline: "estep s (s\<lparr>ks_c := SetReadDeadline d (ks_c s)\<rparr>)"
| write_deadline: "estep s (s\<lparr>ks_c := SetWriteDeadline d (ks_c s)\<rparr>)"

definition kstep :: "bool \<Rightarrow> ksys \<Rightarrow> ksys \<Rightarrow> bool" where
  "kstep eager s s' \<longleftrightarrow> (\<exists>t. tstep eager t s s') \<or> estep s s'"

section \<open>A new conn\<close>

definition kconn0 :: "bool \<Rightarrow> string \<Rightarrow> string \<Rightarrow> bool \<Rightarrow> kconn" where
  "kconn0 have loc rem canDL =
     \<lparr>k_hasConn = have, k_h = zero_hs, k_op = opConnect, k_network = ''tcp'', k_proxyAddr = [], k_replyTimeout = 0,
      k_handshakeTimeout = 0, k_doneAfterRelay = False, k_readReady = False, k_writeReady = False, k_phase = phIdle,
      k_busy = False, k_done = False, k_closed = False, k_abortErr = None, k_err = None, k_bound = zeroAddr,
      k_readDeadline = None, k_replyDeadline = None, k_wake = None, k_local = loc, k_remote = rem, k_canDeadline = canDL,
      k_fired = {}, k_nextChan = 0, k_connRead = DLNone, k_connWrite = DLNone, k_connClosed = False, k_events = [],
      k_writes = []\<rparr>"

text \<open>What a failed \<open>init\<close> or \<open>setTarget\<close> leaves in the handshake, for the stages of later errors.\<close>

definition hs_applied :: "cconfig \<Rightarrow> command \<Rightarrow> hs \<Rightarrow> hs" where
  "hs_applied cfg cmd h =
     (let h1 = h\<lparr>h_mode := cc_Mode cfg, h_cmd := cmd\<rparr> in
      if h_mode h1 > ModeEarly then h1
      else
        let h2 = (if h_mode h1 = ModeEarly \<and> cmd \<noteq> CmdConnect then h1\<lparr>h_mode := ModePipelined\<rparr> else h1) in
        if cc_Version cfg = 0 \<or> cc_Version cfg = 5 then h2\<lparr>h_version := 5\<rparr>
        else if cc_Version cfg = 4 then h2\<lparr>h_version := 4\<rparr> else h2)"

definition kinit :: "cconfig \<Rightarrow> int \<Rightarrow> int \<Rightarrow> command \<Rightarrow> addr \<Rightarrow> kconn \<Rightarrow> kconn \<times> error option" where
  "kinit cfg replyTimeout handshakeTimeout cmd target c =
     (let c1 = c\<lparr>k_replyTimeout := replyTimeout, k_handshakeTimeout := handshakeTimeout\<rparr> in
      case hs_init cfg cmd (k_h c1) of
        Inl e \<Rightarrow> (c1\<lparr>k_h := hs_applied cfg cmd (k_h c1)\<rparr>, Some e)
      | Inr h \<Rightarrow>
          (case setTarget target h of
             Inl e \<Rightarrow> (c1\<lparr>k_h := (if h_version h = 4 then h else fst (append5 target h))\<rparr>, Some e)
           | Inr h1 \<Rightarrow> (c1\<lparr>k_h := h1\<rparr>, None)))"

text \<open>\<open>newClient\<close>: \<open>have\<close> is whether there is a conn, \<open>parseErr\<close> comes from parsing the target.\<close>

definition newClient :: "bool \<Rightarrow> string \<Rightarrow> string \<Rightarrow> bool \<Rightarrow> addr \<Rightarrow> cconfig \<Rightarrow> int \<Rightarrow> int \<Rightarrow> error option \<Rightarrow> kconn" where
  "newClient have loc rem canDL target cfg replyTimeout handshakeTimeout parseErr =
     (let c0 = kconn0 have loc rem canDL;
          c1 = c0\<lparr>k_h := (k_h c0)\<lparr>h_target := target\<rparr>\<rparr>;
          (c2, err) = (if \<not> have then (c1, Some (ESent errNoConn))
                       else case kinit cfg replyTimeout handshakeTimeout CmdConnect target c1 of
                         (c, e) \<Rightarrow> (c, if parseErr \<noteq> None then parseErr else e))
      in case err of
           Some e \<Rightarrow> failLocked (StageConfig, e) c2
         | None \<Rightarrow> c2)"

definition Client :: "bool \<Rightarrow> string \<Rightarrow> string \<Rightarrow> bool \<Rightarrow> string \<Rightarrow> cconfig \<Rightarrow> int \<Rightarrow> int \<Rightarrow> kconn" where
  "Client have loc rem canDL target cfg replyTimeout handshakeTimeout =
     (case wire_ParseAddr target of
        Inr a \<Rightarrow> newClient have loc rem canDL a cfg replyTimeout handshakeTimeout None
      | Inl e \<Rightarrow> newClient have loc rem canDL zeroAddr cfg replyTimeout handshakeTimeout (Some e))"

definition kstart :: "kconn \<Rightarrow> ksys" where
  "kstart c = \<lparr>ks_c = c, ks_pc = (\<lambda>t. PIdle)\<rparr>"

abbreviation kreachable :: "bool \<Rightarrow> kconn \<Rightarrow> ksys \<Rightarrow> bool" where
  "kreachable eager c0 s \<equiv> (kstep eager)\<^sup>*\<^sup>* (kstart c0) s"

end
