(* ===== verification/ClientConnSafety.thy ===== *)
theory ClientConnSafety
  imports ClientConn
begin

text \<open>
  The invariant of the steps of \<open>ClientConn\<close>: what the flags say about each other, who is writing and who is
  reading, what a blocked call waits for, which hooks ran, and what went over the conn in which order.
\<close>

section \<open>The building blocks, field by field\<close>

lemma broadcast_sel [simp]:
  "k_hasConn (broadcastLocked c) = k_hasConn c" "k_h (broadcastLocked c) = k_h c" "k_phase (broadcastLocked c) = k_phase c"
  "k_busy (broadcastLocked c) = k_busy c" "k_done (broadcastLocked c) = k_done c" "k_closed (broadcastLocked c) = k_closed c"
  "k_abortErr (broadcastLocked c) = k_abortErr c" "k_err (broadcastLocked c) = k_err c" "k_bound (broadcastLocked c) = k_bound c"
  "k_readReady (broadcastLocked c) = k_readReady c" "k_writeReady (broadcastLocked c) = k_writeReady c"
  "k_readDeadline (broadcastLocked c) = k_readDeadline c" "k_replyDeadline (broadcastLocked c) = k_replyDeadline c"
  "k_connRead (broadcastLocked c) = k_connRead c" "k_connWrite (broadcastLocked c) = k_connWrite c"
  "k_connClosed (broadcastLocked c) = k_connClosed c" "k_events (broadcastLocked c) = k_events c"
  "k_writes (broadcastLocked c) = k_writes c" "k_nextChan (broadcastLocked c) = k_nextChan c" "k_wake (broadcastLocked c) = None"
  "k_fired (broadcastLocked c) = k_fired c \<union> set_option (k_wake c)" "k_canDeadline (broadcastLocked c) = k_canDeadline c"
  by (simp_all add: broadcastLocked_def split: option.splits)

lemma storeReady_sel [simp]:
  "k_hasConn (storeReadyLocked c) = k_hasConn c" "k_h (storeReadyLocked c) = k_h c" "k_phase (storeReadyLocked c) = k_phase c"
  "k_busy (storeReadyLocked c) = k_busy c" "k_done (storeReadyLocked c) = k_done c" "k_closed (storeReadyLocked c) = k_closed c"
  "k_abortErr (storeReadyLocked c) = k_abortErr c" "k_err (storeReadyLocked c) = k_err c" "k_bound (storeReadyLocked c) = k_bound c"
  "k_readReady (storeReadyLocked c) = (k_err c = None \<and> \<not> k_closed c \<and> k_done c)"
  "k_writeReady (storeReadyLocked c) = (k_err c = None \<and> \<not> k_closed c \<and> k_phase c = phSent)"
  "k_readDeadline (storeReadyLocked c) = k_readDeadline c" "k_replyDeadline (storeReadyLocked c) = k_replyDeadline c"
  "k_connRead (storeReadyLocked c) = k_connRead c" "k_connWrite (storeReadyLocked c) = k_connWrite c"
  "k_connClosed (storeReadyLocked c) = k_connClosed c" "k_events (storeReadyLocked c) = k_events c"
  "k_writes (storeReadyLocked c) = k_writes c" "k_nextChan (storeReadyLocked c) = k_nextChan c" "k_wake (storeReadyLocked c) = k_wake c"
  "k_fired (storeReadyLocked c) = k_fired c" "k_canDeadline (storeReadyLocked c) = k_canDeadline c"
  by (simp_all add: storeReadyLocked_def Let_def)

lemma endLocked_sel:
  assumes "endLocked he c = (c', hook)"
  shows "k_hasConn c' = k_hasConn c" "k_h c' = k_h c" "k_phase c' = k_phase c" "k_busy c' = k_busy c" "k_done c'"
    "k_closed c' = k_closed c" "k_abortErr c' = k_abortErr c"
    "k_err c' = (if k_done c then k_err c else case he of Some x \<Rightarrow> Some (opError c x) | None \<Rightarrow> k_err c)"
    "k_readReady c' = (if k_done c then k_readReady c else k_err c' = None \<and> \<not> k_closed c)"
    "k_writeReady c' = (if k_done c then k_writeReady c else k_err c' = None \<and> \<not> k_closed c \<and> k_phase c = phSent)"
    "k_readDeadline c' = k_readDeadline c" "k_replyDeadline c' = k_replyDeadline c"
    "k_connClosed c' = k_connClosed c" "k_events c' = k_events c" "k_writes c' = k_writes c" "k_nextChan c' = k_nextChan c"
    "k_wake c' = (if k_done c then k_wake c else None)"
    "k_fired c' = k_fired c \<union> (if k_done c then {} else set_option (k_wake c))"
    "k_bound c' = (if k_done c \<or> he \<noteq> None then k_bound c else h_bound (k_h c))"
    "hook = (\<not> k_done c \<and> k_phase c = phSent)"
  using assms
  by (auto simp: endLocked_def establishLocked_def failLocked_def Let_def split: if_splits option.splits)

lemma unlockDone_sel [simp]:
  "k_hasConn (unlockDone r) = k_hasConn (fst r)" "k_h (unlockDone r) = k_h (fst r)" "k_phase (unlockDone r) = k_phase (fst r)"
  "k_busy (unlockDone r) = k_busy (fst r)" "k_done (unlockDone r) = k_done (fst r)" "k_closed (unlockDone r) = k_closed (fst r)"
  "k_abortErr (unlockDone r) = k_abortErr (fst r)" "k_err (unlockDone r) = k_err (fst r)" "k_bound (unlockDone r) = k_bound (fst r)"
  "k_readReady (unlockDone r) = k_readReady (fst r)" "k_writeReady (unlockDone r) = k_writeReady (fst r)"
  "k_connRead (unlockDone r) = k_connRead (fst r)" "k_connWrite (unlockDone r) = k_connWrite (fst r)"
  "k_connClosed (unlockDone r) = k_connClosed (fst r)" "k_writes (unlockDone r) = k_writes (fst r)"
  "k_nextChan (unlockDone r) = k_nextChan (fst r)" "k_wake (unlockDone r) = k_wake (fst r)" "k_fired (unlockDone r) = k_fired (fst r)"
  "k_readDeadline (unlockDone r) = k_readDeadline (fst r)" "k_replyDeadline (unlockDone r) = k_replyDeadline (fst r)"
  "k_events (unlockDone r) = (if snd r then k_events (fst r) @ [EvDone (k_err (fst r))] else k_events (fst r))"
  by (simp_all add: unlockDone_def)

lemma settle_cases:
  assumes "settleLocked c = (c', hook)"
  shows "(k_abortErr c \<noteq> None \<and> k_phase c = phSent \<and> \<not> k_busy c
      \<and> (\<exists>c1. endLocked (blame 0 None (k_abortErr c) None None c) c = (c1, hook) \<and> c' = broadcastLocked c1))
    \<or> (\<not> (k_abortErr c \<noteq> None \<and> k_phase c = phSent \<and> \<not> k_busy c) \<and> \<not> hook \<and> c' = broadcastLocked c)"
  using assms by (auto simp: settleLocked_def split: if_splits prod.splits)

lemma blame_cause: "blame now he (Some a) dl x c \<noteq> None"
  by (auto simp: blame_def split: option.splits)

lemma blame_some: "blame now (Some he) cause dl x c \<noteq> None"
  by (auto simp: blame_def split: option.splits prod.splits)

lemma blame_none: "blame now None None dl x c = None"
  by (simp add: blame_def)

section \<open>The flags\<close>

definition chan_ok :: "kconn \<Rightarrow> bool" where
  "chan_ok c \<longleftrightarrow> set_option (k_wake c) \<subseteq> {..<k_nextChan c} - k_fired c \<and> k_fired c \<subseteq> {..<k_nextChan c}"

definition kc_inv :: "kconn \<Rightarrow> bool" where
  "kc_inv c \<longleftrightarrow>
     k_hasConn c
   \<and> k_readReady c = (k_err c = None \<and> \<not> k_closed c \<and> k_done c)
   \<and> k_writeReady c = (k_err c = None \<and> \<not> k_closed c \<and> k_phase c = phSent)
   \<and> (k_err c \<noteq> None \<longrightarrow> k_done c)
   \<and> (k_abortErr c \<noteq> None \<and> k_phase c = phSent \<and> \<not> k_busy c \<longrightarrow> k_done c)
   \<and> (k_phase c = phIdle \<longrightarrow> \<not> k_busy c \<and> (k_done c \<longrightarrow> k_err c \<noteq> None) \<and> (\<not> early c \<longrightarrow> k_wake c = None))
   \<and> (\<not> early c \<longrightarrow> k_done c \<longrightarrow> k_phase c \<noteq> phSending)
   \<and> (k_closed c \<longrightarrow> \<not> k_done c \<longrightarrow> k_abortErr c \<noteq> None)
   \<and> chan_ok c
   \<and> (\<not> early c \<longrightarrow> k_phase c = phSent \<longrightarrow> k_done c)"

lemma kc_invD:
  assumes "kc_inv c"
  shows "k_hasConn c" and "k_readReady c \<longleftrightarrow> k_err c = None \<and> \<not> k_closed c \<and> k_done c"
    and "k_writeReady c \<longleftrightarrow> k_err c = None \<and> \<not> k_closed c \<and> k_phase c = phSent"
    and "k_err c \<noteq> None \<Longrightarrow> k_done c"
    and "k_abortErr c \<noteq> None \<Longrightarrow> k_phase c = phSent \<Longrightarrow> \<not> k_busy c \<Longrightarrow> k_done c"
    and "k_phase c = phIdle \<Longrightarrow> \<not> k_busy c" and "k_phase c = phIdle \<Longrightarrow> k_done c \<Longrightarrow> k_err c \<noteq> None"
    and "k_phase c = phIdle \<Longrightarrow> \<not> early c \<Longrightarrow> k_wake c = None"
    and "\<not> early c \<Longrightarrow> k_done c \<Longrightarrow> k_phase c \<noteq> phSending"
    and "k_closed c \<Longrightarrow> \<not> k_done c \<Longrightarrow> k_abortErr c \<noteq> None"
    and "chan_ok c" and "\<not> early c \<Longrightarrow> k_phase c = phSent \<Longrightarrow> k_done c"
  using assms unfolding kc_inv_def by iprover+

lemma kc_invI:
  assumes "k_hasConn c" and "k_readReady c \<longleftrightarrow> k_err c = None \<and> \<not> k_closed c \<and> k_done c"
    and "k_writeReady c \<longleftrightarrow> k_err c = None \<and> \<not> k_closed c \<and> k_phase c = phSent"
    and "k_err c \<noteq> None \<Longrightarrow> k_done c"
    and "k_abortErr c \<noteq> None \<Longrightarrow> k_phase c = phSent \<Longrightarrow> \<not> k_busy c \<Longrightarrow> k_done c"
    and "k_phase c = phIdle \<Longrightarrow> \<not> k_busy c" and "k_phase c = phIdle \<Longrightarrow> k_done c \<Longrightarrow> k_err c \<noteq> None"
    and "k_phase c = phIdle \<Longrightarrow> \<not> early c \<Longrightarrow> k_wake c = None"
    and "\<not> early c \<Longrightarrow> k_done c \<Longrightarrow> k_phase c \<noteq> phSending"
    and "k_closed c \<Longrightarrow> \<not> k_done c \<Longrightarrow> k_abortErr c \<noteq> None"
    and "chan_ok c" and "\<not> early c \<Longrightarrow> k_phase c = phSent \<Longrightarrow> k_done c"
  shows "kc_inv c"
  using assms unfolding kc_inv_def by iprover

text \<open>\<open>kle c c'\<close>: nothing is taken back, and nobody is left waiting for what has come true.\<close>

definition phase_le :: "cphase \<Rightarrow> cphase \<Rightarrow> bool" where
  "phase_le p q = (p = q \<or> p = phIdle \<or> q = phSent)"

definition quiet :: "kconn \<Rightarrow> kconn \<Rightarrow> bool" where
  "quiet c c' \<longleftrightarrow> k_done c' = k_done c \<and> k_closed c' = k_closed c \<and> k_phase c' = k_phase c \<and> k_abortErr c' = k_abortErr c
     \<and> (k_busy c \<longrightarrow> k_busy c')"

definition kle :: "kconn \<Rightarrow> kconn \<Rightarrow> bool" where
  "kle c c' \<longleftrightarrow>
     early c' = early c \<and> phase_le (k_phase c) (k_phase c')
   \<and> (k_done c \<longrightarrow> k_done c') \<and> (k_closed c \<longrightarrow> k_closed c') \<and> (k_err c \<noteq> None \<longrightarrow> k_err c' = k_err c)
   \<and> (k_done c \<and> k_phase c = phSent \<longrightarrow> k_err c' = k_err c) \<and> (k_done c \<longrightarrow> k_bound c' = k_bound c)
   \<and> k_fired c \<subseteq> k_fired c' \<and> k_nextChan c \<le> k_nextChan c'
   \<and> (\<forall>ch. \<not> k_done c \<longrightarrow> k_wake c = Some ch \<longrightarrow> ch \<in> k_fired c' \<or> (k_wake c' = Some ch \<and> quiet c c'))"

lemma kle_refl [simp]: "kle c c"
  by (simp add: kle_def quiet_def phase_le_def)

text \<open>I/O between critical sections.\<close>

lemma io_sel [simp]:
  "k_h (io_leaves st b c) = (k_h c)\<lparr>h_readStage := st, h_bound := b\<rparr>" "k_hasConn (io_leaves st b c) = k_hasConn c"
  "k_phase (io_leaves st b c) = k_phase c" "k_busy (io_leaves st b c) = k_busy c" "k_done (io_leaves st b c) = k_done c"
  "k_closed (io_leaves st b c) = k_closed c" "k_abortErr (io_leaves st b c) = k_abortErr c" "k_err (io_leaves st b c) = k_err c"
  "k_bound (io_leaves st b c) = k_bound c" "k_readReady (io_leaves st b c) = k_readReady c" "k_writeReady (io_leaves st b c) = k_writeReady c"
  "k_wake (io_leaves st b c) = k_wake c" "k_fired (io_leaves st b c) = k_fired c" "k_nextChan (io_leaves st b c) = k_nextChan c"
  "k_events (io_leaves st b c) = k_events c" "k_writes (io_leaves st b c) = k_writes c" "k_replyDeadline (io_leaves st b c) = k_replyDeadline c"
  "k_connRead (io_leaves st b c) = k_connRead c" "k_connWrite (io_leaves st b c) = k_connWrite c" "k_connClosed (io_leaves st b c) = k_connClosed c"
  by (simp_all add: io_leaves_def)

lemma sendWrote_sel [simp]:
  "k_h (sendWrote b n w c) = wipe (k_h c)" "k_hasConn (sendWrote b n w c) = k_hasConn c"
  "k_phase (sendWrote b n w c) = k_phase c" "k_busy (sendWrote b n w c) = k_busy c" "k_done (sendWrote b n w c) = k_done c"
  "k_closed (sendWrote b n w c) = k_closed c" "k_abortErr (sendWrote b n w c) = k_abortErr c" "k_err (sendWrote b n w c) = k_err c"
  "k_bound (sendWrote b n w c) = k_bound c" "k_readReady (sendWrote b n w c) = k_readReady c" "k_writeReady (sendWrote b n w c) = k_writeReady c"
  "k_wake (sendWrote b n w c) = k_wake c" "k_fired (sendWrote b n w c) = k_fired c" "k_nextChan (sendWrote b n w c) = k_nextChan c"
  "k_events (sendWrote b n w c) = k_events c @ [EvWrote w]" "k_writes (sendWrote b n w c) = k_writes c @ [(True, take n b)]"
  "k_replyDeadline (sendWrote b n w c) = k_replyDeadline c"
  "k_connRead (sendWrote b n w c) = k_connRead c" "k_connWrite (sendWrote b n w c) = k_connWrite c" "k_connClosed (sendWrote b n w c) = k_connClosed c"
  by (simp_all add: sendWrote_def)

lemma runWrote_sel [simp]:
  "k_hasConn (runWrote b n w c) = k_hasConn c"
  "k_phase (runWrote b n w c) = k_phase c" "k_busy (runWrote b n w c) = k_busy c" "k_done (runWrote b n w c) = k_done c"
  "k_closed (runWrote b n w c) = k_closed c" "k_abortErr (runWrote b n w c) = k_abortErr c" "k_err (runWrote b n w c) = k_err c"
  "k_bound (runWrote b n w c) = k_bound c" "k_readReady (runWrote b n w c) = k_readReady c" "k_writeReady (runWrote b n w c) = k_writeReady c"
  "k_wake (runWrote b n w c) = k_wake c" "k_fired (runWrote b n w c) = k_fired c" "k_nextChan (runWrote b n w c) = k_nextChan c"
  "k_events (runWrote b n w c) = k_events c @ [EvWrote w]" "k_writes (runWrote b n w c) = k_writes c @ [(True, take n b)]"
  by (simp_all add: runWrote_def Let_def)

lemma wipe_mode [simp]: "h_mode (wipe h) = h_mode h"
  by (simp add: wipe_def)

lemma early_io [simp]:
  "early (io_leaves st b c) = early c" "early (sendWrote bs n w c) = early c" "early (runWrote bs n w c) = early c"
  by (simp_all add: early_def runWrote_def Let_def)

lemma early_cong: "k_h c' = k_h c \<Longrightarrow> early c' = early c"
  by (simp add: early_def)

lemma waitLocked_sel:
  assumes "waitLocked c = (c', ch)"
  shows "k_hasConn c' = k_hasConn c" "k_h c' = k_h c" "k_phase c' = k_phase c" "k_busy c' = k_busy c" "k_done c' = k_done c"
    "k_closed c' = k_closed c" "k_abortErr c' = k_abortErr c" "k_err c' = k_err c" "k_bound c' = k_bound c"
    "k_readReady c' = k_readReady c" "k_writeReady c' = k_writeReady c" "k_events c' = k_events c" "k_writes c' = k_writes c"
    "k_fired c' = k_fired c" "k_wake c' = Some ch" "k_readDeadline c' = k_readDeadline c" "k_replyDeadline c' = k_replyDeadline c"
    "k_connRead c' = k_connRead c" "k_connWrite c' = k_connWrite c" "k_connClosed c' = k_connClosed c"
    "k_wake c = Some ch \<and> k_nextChan c' = k_nextChan c \<or> k_wake c = None \<and> ch = k_nextChan c \<and> k_nextChan c' = Suc (k_nextChan c)"
  using assms by (auto simp: waitLocked_def split: option.splits)

lemma waitLocked_ok:
  assumes "waitLocked c = (c', ch)" and i: "kc_inv c" and "early c \<or> k_phase c \<noteq> phIdle"
  shows "kc_inv c'" and "kle c c'" and "quiet c c'" and "k_wake c' = Some ch" and "ch < k_nextChan c'"
proof -
  note w = waitLocked_sel [OF assms(1)]
  have e: "early c' = early c" using w(2) by (rule early_cong)
  have "chan_ok c" using i by (rule kc_invD)
  then have f: "chan_ok c' \<and> ch < k_nextChan c'"
    using w(21) unfolding chan_ok_def w(14,15) by fastforce
  show "kc_inv c'" using i f assms(3) unfolding kc_inv_def w(1-11) e w(15) by blast
  show "quiet c c'" unfolding quiet_def w by simp
  then show "kle c c'" unfolding kle_def w(1-20) e phase_le_def using w(21) by auto
  show "k_wake c' = Some ch" "ch < k_nextChan c'" using w f by simp_all
qed

lemma kc_err: "kc_inv c \<Longrightarrow> \<not> k_done c \<Longrightarrow> k_err c = None"
  using kc_invD(4) by blast

text \<open>A broadcast leaves no channel open, and the invariant of the channels.\<close>

lemma chan_ok_broadcast:
  assumes "chan_ok c" and "k_wake c' = None" and "k_fired c' = k_fired c \<union> set_option (k_wake c)" and "k_nextChan c' = k_nextChan c"
  shows "chan_ok c'"
  using assms by (auto simp: chan_ok_def)

lemma chan_ok_same:
  "chan_ok c \<Longrightarrow> k_wake c' = k_wake c \<Longrightarrow> k_fired c' = k_fired c \<Longrightarrow> k_nextChan c' = k_nextChan c \<Longrightarrow> chan_ok c'"
  by (simp add: chan_ok_def)

lemma kleI:
  assumes "early c' = early c" and "phase_le (k_phase c) (k_phase c')" and "k_done c \<Longrightarrow> k_done c'" and "k_closed c \<Longrightarrow> k_closed c'"
    and "k_err c \<noteq> None \<Longrightarrow> k_err c' = k_err c" and "k_done c \<Longrightarrow> k_phase c = phSent \<Longrightarrow> k_err c' = k_err c"
    and "k_done c \<Longrightarrow> k_bound c' = k_bound c" and "k_fired c \<subseteq> k_fired c'" and "k_nextChan c \<le> k_nextChan c'"
    and "\<And>ch. \<not> k_done c \<Longrightarrow> k_wake c = Some ch \<Longrightarrow> ch \<in> k_fired c' \<or> (k_wake c' = Some ch \<and> quiet c c')"
  shows "kle c c'"
  using assms unfolding kle_def by iprover

lemma kleD:
  assumes "kle c c'"
  shows "early c' = early c" and "phase_le (k_phase c) (k_phase c')" and "k_done c \<Longrightarrow> k_done c'" and "k_closed c \<Longrightarrow> k_closed c'"
    and "k_err c \<noteq> None \<Longrightarrow> k_err c' = k_err c" and "k_done c \<Longrightarrow> k_phase c = phSent \<Longrightarrow> k_err c' = k_err c"
    and "k_done c \<Longrightarrow> k_bound c' = k_bound c" and "k_fired c \<subseteq> k_fired c'" and "k_nextChan c \<le> k_nextChan c'"
    and "\<not> k_done c \<Longrightarrow> k_wake c = Some ch \<Longrightarrow> ch \<in> k_fired c' \<or> (k_wake c' = Some ch \<and> quiet c c')"
  using assms unfolding kle_def by iprover+

lemma unlockDone_inv: "kc_inv c \<Longrightarrow> kc_inv (unlockDone (c, hk))"
  by (simp add: kc_inv_def early_def chan_ok_def)

section \<open>The critical sections keep the flags\<close>

lemma endIO_sel [simp]:
  "k_hasConn (endIOLocked x c) = k_hasConn c" "k_h (endIOLocked x c) = k_h c" "k_phase (endIOLocked x c) = k_phase c"
  "\<not> k_busy (endIOLocked x c)" "k_done (endIOLocked x c) = k_done c" "k_closed (endIOLocked x c) = k_closed c"
  "k_err (endIOLocked x c) = k_err c" "k_bound (endIOLocked x c) = k_bound c"
  "k_readReady (endIOLocked x c) = k_readReady c" "k_writeReady (endIOLocked x c) = k_writeReady c"
  "k_wake (endIOLocked x c) = k_wake c" "k_fired (endIOLocked x c) = k_fired c" "k_nextChan (endIOLocked x c) = k_nextChan c"
  "k_events (endIOLocked x c) = k_events c" "k_writes (endIOLocked x c) = k_writes c"
  "k_abortErr c \<noteq> None \<Longrightarrow> k_abortErr (endIOLocked x c) \<noteq> None"
  by (simp_all add: endIOLocked_def Let_def)

lemma clearReply_sel [simp]:
  "k_hasConn (clearReplyDeadlineLocked c) = k_hasConn c" "k_h (clearReplyDeadlineLocked c) = k_h c"
  "k_phase (clearReplyDeadlineLocked c) = k_phase c" "k_busy (clearReplyDeadlineLocked c) = k_busy c"
  "k_done (clearReplyDeadlineLocked c) = k_done c" "k_closed (clearReplyDeadlineLocked c) = k_closed c"
  "k_err (clearReplyDeadlineLocked c) = k_err c" "k_bound (clearReplyDeadlineLocked c) = k_bound c"
  "k_abortErr (clearReplyDeadlineLocked c) = k_abortErr c"
  "k_readReady (clearReplyDeadlineLocked c) = k_readReady c" "k_writeReady (clearReplyDeadlineLocked c) = k_writeReady c"
  "k_wake (clearReplyDeadlineLocked c) = k_wake c" "k_fired (clearReplyDeadlineLocked c) = k_fired c"
  "k_nextChan (clearReplyDeadlineLocked c) = k_nextChan c"
  "k_events (clearReplyDeadlineLocked c) = k_events c" "k_writes (clearReplyDeadlineLocked c) = k_writes c"
  by (simp_all add: clearReplyDeadlineLocked_def Let_def)

lemma runEnd_ok:
  assumes i: "kc_inv c" and pc: "k_phase c = phSending" "\<not> early c"
    and r: "runEnd op he ctxErr (runWrote b n w (io_leaves st bd c)) = (c', e)"
  shows "kc_inv c'" and "kle c c'" and "k_phase c' = phSent" and "\<not> k_busy c'" and "k_done c'" and "k_wake c' = None"
    and "k_events c' = k_events c @ [EvWrote w, EvDone (k_err c')]" and "k_writes c' = k_writes c @ [(True, take n b)]"
    and "k_fired c' = k_fired c \<union> set_option (k_wake c)" and "e = None \<Longrightarrow> k_err c' = None \<and> \<not> k_closed c'"
proof -
  have "\<not> k_done c" using kc_invD(9) [OF i] pc by auto
  then have d: "\<not> k_done c" "k_err c = None" using kc_err [OF i] by simp_all
  let ?c1 = "(endIOLocked ctxErr (runWrote b n w (io_leaves st bd c)))\<lparr>k_phase := phSent\<rparr>"
  obtain c2 hk where e: "endLocked (blame 0 he (k_abortErr ?c1) None None ?c1) ?c1 = (c2, hk)" by fastforce
  have c': "c' = unlockDone (c2, hk)" "e = checkLocked op c2"
    using r e by (simp_all add: runEnd_def Let_def)
  note s = endLocked_sel [OF e]
  have h: "hk" using s(20) d by simp
  have ca: "k_closed c \<Longrightarrow> k_abortErr c2 \<noteq> None" using kc_invD(10) [OF i] d(1) s(7) by simp
  have ea: "early c' = early c" using s(2) early_io(1,3) by (simp add: c' early_def runWrote_def Let_def)
  have ch: "chan_ok c'" using chan_ok_broadcast [OF kc_invD(11) [OF i], of c'] d by (simp add: c' s)
  show "kc_inv c'"
    by (rule kc_invI) (use kc_invD [OF i] d s h ea ch pc in \<open>simp_all add: c'\<close>)
  show "kle c c'" by (rule kleI) (use d s h ea pc in \<open>simp_all add: c' phase_le_def\<close>)
  show "k_phase c' = phSent" "\<not> k_busy c'" "k_done c'" "k_wake c' = None" "k_fired c' = k_fired c \<union> set_option (k_wake c)"
    "k_events c' = k_events c @ [EvWrote w, EvDone (k_err c')]" "k_writes c' = k_writes c @ [(True, take n b)]"
    using d h s by (simp_all add: c')
  show "e = None \<Longrightarrow> k_err c' = None \<and> \<not> k_closed c'"
    by (auto simp: c' checkLocked_def split: if_splits)
qed

text \<open>What every critical section but the one of \<open>run\<close> does: it writes nothing, and \<open>HandshakeDone\<close> runs when it
  finds the handshake written and over for the first time.\<close>

definition evd :: "kconn \<Rightarrow> kconn \<Rightarrow> bool" where
  "evd c c' \<longleftrightarrow> k_events c' = k_events c @
     (if k_phase c' = phSent \<and> k_done c' \<and> \<not> (k_phase c = phSent \<and> k_done c) then [EvDone (k_err c')] else [])"

definition sec :: "kconn \<Rightarrow> kconn \<Rightarrow> bool" where
  "sec c c' \<longleftrightarrow> kc_inv c' \<and> kle c c' \<and> k_writes c' = k_writes c \<and> evd c c'"

lemma secI: "kc_inv c' \<Longrightarrow> kle c c' \<Longrightarrow> k_writes c' = k_writes c \<Longrightarrow> evd c c' \<Longrightarrow> sec c c'"
  by (simp add: sec_def)

lemma sec_refl: "kc_inv c \<Longrightarrow> sec c c"
  by (simp add: sec_def evd_def)

lemma waiting_ok:
  assumes "waiting c = (c', r)" and i: "kc_inv c" and "early c \<or> k_phase c \<noteq> phIdle"
  obtains ch where "r = ClWait ch" and "sec c c'" and "k_phase c' = k_phase c" and "k_busy c' = k_busy c" and "quiet c c'"
    and "k_wake c' = Some ch" and "ch < k_nextChan c'"
proof -
  obtain ch where w: "waitLocked c = (c', ch)" "r = ClWait ch" using assms(1) by (auto simp: waiting_def split: prod.splits)
  note s = waitLocked_sel [OF w(1)] and o = waitLocked_ok [OF w(1) i assms(3)]
  have "sec c c'" using o s by (simp add: sec_def evd_def)
  then show thesis using that w(2) s o by simp
qed

lemma checkLocked_None: "checkLocked op c = None \<longleftrightarrow> k_hasConn c \<and> \<not> k_closed c \<and> k_err c = None"
  by (auto simp: checkLocked_def)

definition run_outcome :: "kconn \<Rightarrow> kconn \<Rightarrow> claim \<Rightarrow> bool" where
  "run_outcome c c' r \<longleftrightarrow>
     r = ClGo \<and> k_phase c = phIdle \<and> k_phase c' = phSending \<and> \<not> k_busy c \<and> k_busy c'
     \<or> k_phase c' = k_phase c \<and> k_busy c' = k_busy c
       \<and> (case r of ClRet e \<Rightarrow> e = None \<longrightarrow> k_done c' \<and> k_err c' = None \<and> \<not> k_closed c'
          | ClWait ch \<Rightarrow> k_wake c' = Some ch \<and> ch < k_nextChan c' \<and> \<not> k_done c' \<and> k_phase c' \<noteq> phIdle
          | _ \<Rightarrow> False)"

lemma claimRun_ok:
  assumes i: "kc_inv c" and n: "\<not> early c" and r: "claimRunLocked op c = (c', r)"
  shows "sec c c'"
    and "run_outcome c c' r"
proof -
  have "sec c c' \<and> run_outcome c c' r"
  proof (cases "checkLocked op c")
    case (Some e)
    then show ?thesis using r sec_refl [OF i] by (auto simp: claimRunLocked_def run_outcome_def)
  next
    case None
    note ck = None [unfolded checkLocked_None]
    consider (d) "k_done c" | (w) "\<not> k_done c" "k_phase c \<noteq> phIdle" | (a) a where "\<not> k_done c" "k_phase c = phIdle" "k_abortErr c = Some a"
      | (go) "\<not> k_done c" "k_phase c = phIdle" "k_abortErr c = None" by fastforce
    then show ?thesis
    proof cases
      case d
      then show ?thesis using r None ck sec_refl [OF i] by (auto simp: claimRunLocked_def run_outcome_def)
    next
      case w
      then have "waiting c = (c', r)" using r None by (simp add: claimRunLocked_def)
      then show ?thesis
        by (rule waiting_ok) (use i w in \<open>auto simp: quiet_def run_outcome_def\<close>)
    next
      case a
      obtain c1 hk where e: "endLocked (Some (writeStage 0 (k_h c), a)) c = (c1, hk)" by fastforce
      have c': "c' = c1" "r = ClRet (checkLocked op c1)" using r None a e by (auto simp: claimRunLocked_def Let_def)
      note s = endLocked_sel [OF e]
      have ea: "early c' = early c" using s(2) by (simp add: c' early_def)
      have ch: "chan_ok c'" using chan_ok_broadcast [OF kc_invD(11) [OF i], of c'] a by (simp add: c' s)
      have "kc_inv c'" by (rule kc_invI) (use kc_invD [OF i] a s ea ch in \<open>simp_all add: c'\<close>)
      moreover have "kle c c'" by (rule kleI) (use a s ea ck in \<open>simp_all add: c' phase_le_def\<close>)
      ultimately show ?thesis using a s by (auto simp: c' sec_def evd_def checkLocked_None run_outcome_def)
    next
      case go
      then have c': "c' = (claimLocked c)\<lparr>k_busy := True\<rparr>" "r = ClGo" using r None by (auto simp: claimRunLocked_def)
      have ea: "early c' = early c" by (simp add: c' claimLocked_def early_def)
      have w: "k_wake c = None" using kc_invD(8) [OF i] go n by simp
      have ch: "chan_ok c'" using kc_invD(11) [OF i] by (simp add: c' claimLocked_def chan_ok_def)
      have "kc_inv c'"
        by (rule kc_invI) (use kc_invD [OF i] go ck ea ch in \<open>simp_all add: c' claimLocked_def\<close>)
      moreover have "kle c c'" by (rule kleI) (use go w ea in \<open>simp_all add: c' claimLocked_def phase_le_def\<close>)
      ultimately show ?thesis using go kc_invD(6) [OF i] by (simp add: c' claimLocked_def sec_def evd_def run_outcome_def)
    qed
  qed
  then show "sec c c'" and "run_outcome c c' r" by iprover+
qed

lemma kclaim_ok:
  assumes i: "kc_inv c" and n: "early c" and r: "kclaim op c = (c', b, e)"
  shows "sec c c'" and "k_busy c' = k_busy c" and "b \<Longrightarrow> k_phase c = phIdle \<and> k_phase c' = phSending"
    and "\<not> b \<Longrightarrow> c' = c" and "\<not> b \<Longrightarrow> e = None \<Longrightarrow> k_phase c \<noteq> phIdle"
proof -
  have c: "if checkLocked op c \<noteq> None \<or> k_phase c \<noteq> phIdle then c' = c \<and> \<not> b \<and> e = checkLocked op c
      else c' = broadcastLocked (claimLocked c) \<and> b"
    using r by (auto simp: kclaim_def Let_def split: if_splits)
  have "sec c c' \<and> k_busy c' = k_busy c \<and> (b \<longrightarrow> k_phase c = phIdle \<and> k_phase c' = phSending) \<and> (\<not> b \<longrightarrow> c' = c)
      \<and> (\<not> b \<longrightarrow> e = None \<longrightarrow> k_phase c \<noteq> phIdle)"
  proof (cases "checkLocked op c \<noteq> None \<or> k_phase c \<noteq> phIdle")
    case True
    then show ?thesis using c sec_refl [OF i] by auto
  next
    case False
    then have c': "c' = broadcastLocked (claimLocked c)" "b" and ck: "\<not> k_closed c" "k_err c = None" "k_phase c = phIdle"
      using c by (simp_all add: checkLocked_None)
    have nd: "\<not> k_done c" using kc_invD(7) [OF i] ck by blast
    have ea: "early c' = early c" by (simp add: c' claimLocked_def early_def)
    have ch: "chan_ok c'" using chan_ok_broadcast [OF kc_invD(11) [OF i], of c'] by (simp add: c' claimLocked_def)
    have "kc_inv c'"
      by (rule kc_invI) (use kc_invD [OF i] nd ck n ea ch in \<open>simp_all add: c' claimLocked_def\<close>)
    moreover have "kle c c'" by (rule kleI) (use nd ck ea in \<open>auto simp: c' claimLocked_def phase_le_def\<close>)
    ultimately show ?thesis using ck c'(2) by (simp add: c' claimLocked_def sec_def evd_def)
  qed
  then show "sec c c'" "k_busy c' = k_busy c" "b \<Longrightarrow> k_phase c = phIdle \<and> k_phase c' = phSending" "\<not> b \<Longrightarrow> c' = c"
    "\<not> b \<Longrightarrow> e = None \<Longrightarrow> k_phase c \<noteq> phIdle"
    by iprover+
qed

text \<open>\<open>settleLocked\<close> and what follows it, from a state whose flags \<open>kc_inv\<close> may miss only by an aborted handshake.\<close>

lemma settle_ok:
  assumes "settleLocked c = (c1, hk)"
    and i: "k_hasConn c" "k_readReady c \<longleftrightarrow> k_err c = None \<and> \<not> k_closed c \<and> k_done c"
      "k_writeReady c \<longleftrightarrow> k_err c = None \<and> \<not> k_closed c \<and> k_phase c = phSent" "k_err c \<noteq> None \<Longrightarrow> k_done c"
      "k_phase c = phIdle \<Longrightarrow> \<not> k_busy c" "k_phase c = phIdle \<Longrightarrow> k_done c \<Longrightarrow> k_err c \<noteq> None"
      "\<not> early c \<Longrightarrow> k_done c \<Longrightarrow> k_phase c \<noteq> phSending" "k_closed c \<Longrightarrow> \<not> k_done c \<Longrightarrow> k_abortErr c \<noteq> None" "chan_ok c"
      "\<not> early c \<Longrightarrow> k_phase c = phSent \<Longrightarrow> k_done c"
  shows "kc_inv c1" and "early c1 = early c" and "k_phase c1 = k_phase c" and "k_busy c1 = k_busy c"
    and "k_done c \<Longrightarrow> k_done c1" and "k_closed c1 = k_closed c" and "k_done c \<Longrightarrow> k_err c1 = k_err c" and "k_done c \<Longrightarrow> k_bound c1 = k_bound c"
    and "k_fired c1 = k_fired c \<union> set_option (k_wake c)" and "k_nextChan c1 = k_nextChan c" and "k_events c1 = k_events c"
    and "k_writes c1 = k_writes c" and "hk = (\<not> k_done c \<and> k_done c1)" and "hk \<Longrightarrow> k_phase c1 = phSent" and "k_h c1 = k_h c"
proof -
  let ?P = "kc_inv c1 \<and> early c1 = early c \<and> k_phase c1 = k_phase c \<and> k_busy c1 = k_busy c \<and> (k_done c \<longrightarrow> k_done c1)
    \<and> k_closed c1 = k_closed c \<and> (k_done c \<longrightarrow> k_err c1 = k_err c) \<and> (k_done c \<longrightarrow> k_bound c1 = k_bound c)
    \<and> k_fired c1 = k_fired c \<union> set_option (k_wake c) \<and> k_nextChan c1 = k_nextChan c \<and> k_events c1 = k_events c
    \<and> k_writes c1 = k_writes c \<and> hk = (\<not> k_done c \<and> k_done c1) \<and> (hk \<longrightarrow> k_phase c1 = phSent) \<and> k_h c1 = k_h c"
  have ?P using settle_cases [OF assms(1)]
  proof (elim disjE conjE exE)
    fix c2 assume ab: "k_abortErr c \<noteq> None" "k_phase c = phSent" "\<not> k_busy c"
      and e: "endLocked (blame 0 None (k_abortErr c) None None c) c = (c2, hk)" and c1: "c1 = broadcastLocked c2"
    note s = endLocked_sel [OF e]
    have ea: "early c1 = early c" using s(2) by (simp add: c1 early_def)
    have ch: "chan_ok c1" using chan_ok_broadcast [OF i(9), of c1] by (auto simp: c1 s)
    have "kc_inv c1" by (rule kc_invI) (use i s ea ch ab in \<open>auto simp: c1\<close>)
    then show ?P using ea s ab by (auto simp: c1)
  next
    assume ab: "\<not> (k_abortErr c \<noteq> None \<and> k_phase c = phSent \<and> \<not> k_busy c)" and c1: "\<not> hk" "c1 = broadcastLocked c"
    have ea: "early c1 = early c" by (simp add: c1 early_def)
    have ch: "chan_ok c1" using chan_ok_broadcast [OF i(9), of c1] by (simp add: c1)
    have "kc_inv c1" by (rule kc_invI) (use i ea ch ab in \<open>auto simp: c1\<close>)
    then show ?P using ea by (simp add: c1)
  qed
  then show "kc_inv c1" "early c1 = early c" "k_phase c1 = k_phase c" "k_busy c1 = k_busy c" "k_done c \<Longrightarrow> k_done c1"
    "k_closed c1 = k_closed c" "k_done c \<Longrightarrow> k_err c1 = k_err c" "k_done c \<Longrightarrow> k_bound c1 = k_bound c"
    "k_fired c1 = k_fired c \<union> set_option (k_wake c)" "k_nextChan c1 = k_nextChan c" "k_events c1 = k_events c"
    "k_writes c1 = k_writes c" "hk = (\<not> k_done c \<and> k_done c1)" "hk \<Longrightarrow> k_phase c1 = phSent" "k_h c1 = k_h c"
    by iprover+
qed

lemma sendEnd_ok:
  assumes i: "kc_inv c" and n: "early c" and p: "k_phase c = phSending" and r: "sendEnd m werr c = (c', k, e)"
  shows "sec c c'" and "k_busy c' = k_busy c" and "k_phase c' = phSent"
proof -
  let ?c1 = "c\<lparr>k_phase := phSent\<rparr>"
  have e1: "early ?c1 = early c" by (simp add: early_def)
  show "sec c c'" "k_busy c' = k_busy c" "k_phase c' = phSent"
  proof -
    have "sec c c' \<and> k_busy c' = k_busy c \<and> k_phase c' = phSent"
    proof (cases "m < length (h_out (k_h c)) \<and> werr \<noteq> None")
      case True
      then obtain x where x: "werr = Some x" "m < length (h_out (k_h c))" by auto
      let ?he = "blame 0 (Some (writeStage m (k_h ?c1), x)) (k_abortErr ?c1) None None ?c1"
      obtain st where he: "?he = Some st" using blame_some by blast
      obtain c2 hk where e: "endLocked ?he ?c1 = (c2, hk)" by fastforce
      let ?c3 = "if k_err c2 = None then storeReadyLocked (c2\<lparr>k_err := Some (opError c2 st)\<rparr>) else c2"
      have c': "c' = unlockDone (?c3, hk \<or> k_done c)"
        using r x by (simp add: sendEnd_def Let_def he [simplified] e [unfolded he, simplified] cong: if_cong)
      note s = endLocked_sel [OF e, unfolded he]
      have er: "k_err c' \<noteq> None" by (simp add: c')
      have ea: "early c' = early c" using s(2) by (simp add: c' early_def)
      have ch: "chan_ok c'"
      proof (cases "k_done c")
        case True
        then show ?thesis using chan_ok_same [OF kc_invD(11) [OF i], of c'] by (simp add: c' s)
      next
        case False
        then show ?thesis using chan_ok_broadcast [OF kc_invD(11) [OF i], of c'] by (simp add: c' s)
      qed
      have q: "k_phase c' = phSent" "k_busy c' = k_busy c" "k_done c'" "k_closed c' = k_closed c" "k_abortErr c' = k_abortErr c"
        "k_hasConn c' = k_hasConn c" "k_fired c \<subseteq> k_fired c'" "k_nextChan c' = k_nextChan c" "k_writes c' = k_writes c"
        "k_bound c' = k_bound c" "k_err c \<noteq> None \<Longrightarrow> k_err c' = k_err c"
        "k_events c' = k_events c @ [EvDone (k_err c')]" "\<not> k_done c \<Longrightarrow> k_wake c = Some ch \<Longrightarrow> ch \<in> k_fired c'" for ch
        using s kc_err [OF i] by (cases "k_done c"; simp add: c')+
      have rd: "\<not> k_readReady c'" "\<not> k_writeReady c'"
        using s kc_invD(2,3) [OF i] p by (auto simp: c')
      have "kc_inv c'" by (rule kc_invI) (use kc_invD(1) [OF i] er ea ch q(1-6) rd n in \<open>simp_all\<close>)
      moreover have "kle c c'"
        by (rule kleI) (use q(1-11) ea p in \<open>simp_all add: phase_le_def\<close>, use q(13) in blast)
      ultimately show ?thesis using q p by (simp add: sec_def evd_def)
    next
      case False
      obtain c2 hk where e: "settleLocked (storeReadyLocked ?c1) = (c2, hk)" by fastforce
      have c': "c' = unlockDone (c2, hk \<or> k_done c)"
        using r False e by (auto simp: sendEnd_def Let_def)
      have es: "early (storeReadyLocked ?c1) = early c" by (simp add: early_def)
      have ch: "chan_ok (storeReadyLocked ?c1)" using chan_ok_same [OF kc_invD(11) [OF i]] by simp
      have hyp: "k_hasConn (storeReadyLocked ?c1)" "k_err (storeReadyLocked ?c1) \<noteq> None \<Longrightarrow> k_done (storeReadyLocked ?c1)"
        "k_closed (storeReadyLocked ?c1) \<Longrightarrow> \<not> k_done (storeReadyLocked ?c1) \<Longrightarrow> k_abortErr (storeReadyLocked ?c1) \<noteq> None"
        "\<not> early (storeReadyLocked ?c1) \<Longrightarrow> k_phase (storeReadyLocked ?c1) = phSent \<Longrightarrow> k_done (storeReadyLocked ?c1)"
        using kc_invD(1,4,10) [OF i] es n by simp_all
      note s = settle_ok [OF e hyp(1) _ _ hyp(2) _ _ _ hyp(3) ch hyp(4), simplified]
      have s': "kc_inv c2" "early c2 = early c" "k_phase c2 = phSent" "k_busy c2 = k_busy c" "k_done c \<Longrightarrow> k_done c2" "k_closed c2 = k_closed c"
        "k_done c \<Longrightarrow> k_err c2 = k_err c" "k_done c \<Longrightarrow> k_bound c2 = k_bound c" "k_fired c2 = k_fired c \<union> set_option (k_wake c)"
        "k_nextChan c2 = k_nextChan c" "k_events c2 = k_events c" "k_writes c2 = k_writes c" "hk = (\<not> k_done c \<and> k_done c2)" "k_h c2 = k_h c"
        using s es by (simp_all add: early_def)
      have ea: "early c' = early c" using s'(14) by (simp add: c' early_def)
      have "kc_inv c'" unfolding c' using s'(1) by (rule unlockDone_inv)
      moreover have "kle c c'"
        by (rule kleI) (use s' ea p kc_invD(4) [OF i] in \<open>simp_all add: c' phase_le_def\<close>)
      ultimately show ?thesis using s' p by (auto simp: c' sec_def evd_def)
    qed
    then show "sec c c'" "k_busy c' = k_busy c" "k_phase c' = phSent" by iprover+
  qed
qed

lemma waitWritten_ok:
  assumes i: "kc_inv c" and n: "early c" "k_phase c \<noteq> phIdle" and r: "waitWritten op c = (c', r)"
  shows "sec c c'" and "k_phase c' = k_phase c" and "k_busy c' = k_busy c"
    and "(\<exists>e. r = ClRet e \<and> c' = c \<and> (e = None \<longrightarrow> k_err c = None \<and> \<not> k_closed c \<and> (k_phase c = phSent \<or> k_done c)))
      \<or> (\<exists>ch. r = ClWait ch \<and> k_wake c' = Some ch \<and> ch < k_nextChan c' \<and> \<not> k_done c' \<and> \<not> k_closed c' \<and> k_phase c' = phSending)"
proof -
  have "sec c c' \<and> k_phase c' = k_phase c \<and> k_busy c' = k_busy c
    \<and> ((\<exists>e. r = ClRet e \<and> c' = c \<and> (e = None \<longrightarrow> k_err c = None \<and> \<not> k_closed c \<and> (k_phase c = phSent \<or> k_done c)))
      \<or> (\<exists>ch. r = ClWait ch \<and> k_wake c' = Some ch \<and> ch < k_nextChan c' \<and> \<not> k_done c' \<and> \<not> k_closed c' \<and> k_phase c' = phSending))"
  proof (cases "k_phase c \<noteq> phSent \<and> \<not> k_done c \<and> \<not> k_closed c")
    case True
    then have "waiting c = (c', r)" using r by (simp add: waitWritten_def)
    then show ?thesis
      by (rule waiting_ok) (use i n True in \<open>cases "k_phase c"; auto simp: quiet_def\<close>)+
  next
    case False
    then have "c' = c" "r = ClRet (checkLocked op c)" using r by (auto simp: waitWritten_def split: if_splits)
    then show ?thesis using False sec_refl [OF i] by (auto simp: checkLocked_None)
  qed
  then show "sec c c'" "k_phase c' = k_phase c" "k_busy c' = k_busy c"
    "(\<exists>e. r = ClRet e \<and> c' = c \<and> (e = None \<longrightarrow> k_err c = None \<and> \<not> k_closed c \<and> (k_phase c = phSent \<or> k_done c)))
      \<or> (\<exists>ch. r = ClWait ch \<and> k_wake c' = Some ch \<and> ch < k_nextChan c' \<and> \<not> k_done c' \<and> \<not> k_closed c' \<and> k_phase c' = phSending)"
    by iprover+
qed

text \<open>What the reader waits for.\<close>

definition read_blocked :: "kconn \<Rightarrow> bool" where
  "read_blocked c \<longleftrightarrow> \<not> k_done c \<and> k_phase c \<noteq> phIdle
     \<and> (if k_abortErr c = None then k_busy c else k_phase c \<noteq> phSent \<or> k_busy c)"

lemma kle_fieldless:
  assumes "early c' = early c" and "k_phase c' = k_phase c" and "k_done c' = k_done c" and "k_closed c' = k_closed c" and "k_err c' = k_err c"
    and "k_bound c' = k_bound c" and "k_fired c' = k_fired c" and "k_nextChan c' = k_nextChan c" and "k_wake c' = k_wake c"
    and "k_abortErr c' = k_abortErr c" and "k_busy c \<Longrightarrow> k_busy c'"
  shows "kle c c'"
  by (rule kleI) (use assms in \<open>simp_all add: phase_le_def quiet_def\<close>)

definition read_outcome :: "kconn \<Rightarrow> kconn \<Rightarrow> claim \<Rightarrow> bool" where
  "read_outcome c c' r \<longleftrightarrow>
     r = ClGo \<and> \<not> k_busy c \<and> k_busy c' \<and> k_phase c' \<noteq> phIdle
   \<or> k_busy c' = k_busy c
     \<and> (case r of ClRet e \<Rightarrow> True | ClWait ch \<Rightarrow> k_wake c' = Some ch \<and> ch < k_nextChan c' \<and> read_blocked c' | _ \<Rightarrow> False)"

lemma readStart_ok:
  assumes i: "kc_inv c" and n: "early c" "k_phase c \<noteq> phIdle \<or> k_done c \<or> k_closed c" and r: "readStart op dl c = (c', r)"
  shows "sec c c'" and "k_phase c' = k_phase c" and "read_outcome c c' r"
proof -
  have "sec c c' \<and> k_phase c' = k_phase c \<and> read_outcome c c' r"
  proof (cases "checkLocked op c")
    case (Some e)
    then have "c' = c" "r = ClRet (Some e)" using r by (auto simp: readStart_def claimReadLocked_def)
    then show ?thesis using sec_refl [OF i] by (simp add: read_outcome_def)
  next
    case None
    note ck = None [unfolded checkLocked_None]
    show ?thesis
    proof (cases "k_done c")
      case True
      then have "c' = c" "r = ClRet None" using r None by (auto simp: readStart_def claimReadLocked_def)
      then show ?thesis using sec_refl [OF i] by (simp add: read_outcome_def)
    next
      case nd: False
      have ph: "k_phase c \<noteq> phIdle" using n(2) nd ck by simp
      have ns: "\<not> (k_abortErr c \<noteq> None \<and> k_phase c = phSent \<and> \<not> k_busy c)" using kc_invD(5) [OF i] nd by blast
      show ?thesis
      proof (cases "k_abortErr c = None \<and> \<not> k_busy c")
        case True
        then have c': "c' = setReplyDeadlineLocked dl (c\<lparr>k_busy := True\<rparr>)" "r = ClGo"
          using r None nd ns by (auto simp: readStart_def claimReadLocked_def)
        have s: "k_hasConn c' = k_hasConn c" "k_h c' = k_h c" "k_phase c' = k_phase c" "k_busy c'" "k_done c' = k_done c"
          "k_closed c' = k_closed c" "k_abortErr c' = k_abortErr c" "k_err c' = k_err c" "k_bound c' = k_bound c" "k_readReady c' = k_readReady c"
          "k_writeReady c' = k_writeReady c" "k_wake c' = k_wake c" "k_fired c' = k_fired c" "k_nextChan c' = k_nextChan c"
          "k_events c' = k_events c" "k_writes c' = k_writes c"
          by (simp_all add: c' setReplyDeadlineLocked_def Let_def)
        have ea: "early c' = early c" using s(2) by (rule early_cong)
        have ch: "chan_ok c'" using chan_ok_same [OF kc_invD(11) [OF i]] s by simp
        have "kc_inv c'" by (rule kc_invI) (use kc_invD [OF i] s ea ch nd n ph in \<open>simp_all\<close>)
        moreover have "kle c c'" by (rule kle_fieldless) (use s ea in simp_all)
        ultimately show ?thesis using s True ph c' by (simp add: sec_def evd_def read_outcome_def)
      next
        case False
        then have "waiting c = (c', r)"
          using r None nd ns by (auto simp: readStart_def claimReadLocked_def waiting_def split: prod.splits if_splits)
        then show ?thesis
          by (rule waiting_ok) (use i n ph nd ns False in \<open>auto simp: quiet_def read_outcome_def read_blocked_def\<close>)
      qed
    qed
  qed
  then show "sec c c'" "k_phase c' = k_phase c" "read_outcome c c' r" by iprover+
qed

lemma waitClaimed_ok:
  assumes i: "kc_inv c" and n: "early c" and r: "waitClaimedLocked now op c = (c', r)"
  shows "sec c c' \<and> k_phase c' = k_phase c \<and> k_busy c' = k_busy c
    \<and> (case r of ClGo \<Rightarrow> c' = c \<and> (k_phase c \<noteq> phIdle \<or> k_done c \<or> k_closed c)
       | ClWait ch \<Rightarrow> k_wake c' = Some ch \<and> ch < k_nextChan c' \<and> k_phase c' = phIdle \<and> \<not> k_done c' \<and> \<not> k_closed c'
       | ClRet e \<Rightarrow> True | ClAgain \<Rightarrow> False)"
proof (cases "k_phase c = phIdle \<and> \<not> k_done c \<and> \<not> k_closed c \<and> \<not> (k_readDeadline c \<noteq> None \<and> \<not> before (Some now) (k_readDeadline c))")
  case True
  then have "waiting c = (c', r)" using r by (auto simp: waitClaimedLocked_def split: if_splits)
  then show ?thesis
    by (rule waiting_ok) (use i n True in \<open>auto simp: quiet_def\<close>)
next
  case False
  then show ?thesis using r sec_refl [OF i] by (auto simp: waitClaimedLocked_def split: if_splits)
qed

lemma readEnd_ok:
  assumes i: "kc_inv c" and n: "early c" "k_phase c \<noteq> phIdle" and r: "readEnd op now he ctxErr dl (io_leaves st b c) = (c', e)"
  shows "sec c c'" and "k_phase c' = k_phase c" and "\<not> k_busy c'" and "k_done c'" and "k_err c' = None \<Longrightarrow> k_done c \<or> he = None"
    and "\<not> k_done c \<Longrightarrow> k_wake c' = None"
proof -
  let ?c1 = "clearReplyDeadlineLocked (endIOLocked ctxErr (io_leaves st b c))"
  let ?he = "blame now he (k_abortErr ?c1) dl (Some (ESent OsErrDeadlineExceeded)) ?c1"
  obtain c2 hk where el: "endLocked ?he ?c1 = (c2, hk)" by fastforce
  have c': "c' = unlockDone (c2, hk)" using r el by (simp add: readEnd_def Let_def)
  note s = endLocked_sel [OF el]
  have ea: "early c' = early c" using s(2) by (simp add: c' early_def)
  have ch: "chan_ok c'"
  proof (cases "k_done c")
    case True
    then show ?thesis using chan_ok_same [OF kc_invD(11) [OF i], of c'] by (simp add: c' s)
  next
    case False
    then show ?thesis using chan_ok_broadcast [OF kc_invD(11) [OF i], of c'] by (simp add: c' s)
  qed
  have q: "k_phase c' = k_phase c" "\<not> k_busy c'" "k_done c'" "k_closed c' = k_closed c" "k_hasConn c' = k_hasConn c"
    "k_fired c \<subseteq> k_fired c'" "k_nextChan c' = k_nextChan c" "k_writes c' = k_writes c" "k_done c \<Longrightarrow> k_bound c' = k_bound c"
    "k_done c \<Longrightarrow> k_err c' = k_err c" "evd c c'" "\<not> k_done c \<Longrightarrow> k_fired c' = k_fired c \<union> set_option (k_wake c)"
    using s by (auto simp: c' evd_def)
  have rd: "k_readReady c' \<longleftrightarrow> k_err c' = None \<and> \<not> k_closed c' \<and> k_done c'"
    "k_writeReady c' \<longleftrightarrow> k_err c' = None \<and> \<not> k_closed c' \<and> k_phase c' = phSent"
    using s kc_invD(2,3) [OF i] by (cases "k_done c"; simp add: c')+
  have "kc_inv c'" by (rule kc_invI) (use kc_invD(1) [OF i] ea ch q(1-5) rd n in \<open>simp_all\<close>)
  moreover have "kle c c'"
    by (rule kleI) (use q ea kc_invD(4) [OF i] in \<open>simp_all add: phase_le_def\<close>)
  ultimately show "sec c c'" using q by (simp add: sec_def)
  show "k_phase c' = k_phase c" "\<not> k_busy c'" "k_done c'" using q by simp_all
  show "k_done c \<or> he = None" if x: "k_err c' = None"
  proof (rule ccontr)
    assume a: "\<not> (k_done c \<or> he = None)"
    then obtain x where "?he = Some x" using blame_some by blast
    then show False using a x s(8) by (simp add: c')
  qed
  show "\<not> k_done c \<Longrightarrow> k_wake c' = None" using s by (simp add: c')
qed

section \<open>The world\<close>

lemma settleUnlock_sec:
  assumes i: "kc_inv c" and h: "k_hasConn c0" "k_readReady c0 \<longleftrightarrow> k_err c0 = None \<and> \<not> k_closed c0 \<and> k_done c0"
      "k_writeReady c0 \<longleftrightarrow> k_err c0 = None \<and> \<not> k_closed c0 \<and> k_phase c0 = phSent" "k_closed c0 \<Longrightarrow> \<not> k_done c0 \<Longrightarrow> k_abortErr c0 \<noteq> None"
    and same: "k_h c0 = k_h c" "k_phase c0 = k_phase c" "k_busy c0 = k_busy c" "k_done c0 = k_done c" "k_err c0 = k_err c" "k_bound c0 = k_bound c"
      "k_fired c0 = k_fired c" "k_nextChan c0 = k_nextChan c" "k_wake c0 = k_wake c" "k_events c0 = k_events c" "k_writes c0 = k_writes c"
    and cl: "k_closed c \<Longrightarrow> k_closed c0"
  shows "sec c (settleUnlock c0) \<and> k_phase (settleUnlock c0) = k_phase c \<and> k_busy (settleUnlock c0) = k_busy c"
proof -
  obtain c1 hk where e: "settleLocked c0 = (c1, hk)" by fastforce
  have e0: "early c0 = early c" using same(1) by (rule early_cong)
  have ch: "chan_ok c0" using chan_ok_same [OF kc_invD(11) [OF i]] same by simp
  have hy: "k_err c0 \<noteq> None \<Longrightarrow> k_done c0" "k_phase c0 = phIdle \<Longrightarrow> \<not> k_busy c0" "k_phase c0 = phIdle \<Longrightarrow> k_done c0 \<Longrightarrow> k_err c0 \<noteq> None"
    "\<not> early c0 \<Longrightarrow> k_done c0 \<Longrightarrow> k_phase c0 \<noteq> phSending" "\<not> early c0 \<Longrightarrow> k_phase c0 = phSent \<Longrightarrow> k_done c0"
    using kc_invD(4,6,7,9,12) [OF i] same e0 by simp_all
  note s = settle_ok [OF e h(1-3) hy(1-4) h(4) ch hy(5)]
  have u: "settleUnlock c0 = unlockDone (c1, hk)" by (simp add: settleUnlock_def e)
  have ea: "early (unlockDone (c1, hk)) = early c" using s(15) same by (simp add: early_def)
  have "kc_inv (unlockDone (c1, hk))" using s(1) by (rule unlockDone_inv)
  moreover have "kle c (unlockDone (c1, hk))"
    by (rule kleI) (use s same ea cl kc_invD(4) [OF i] in \<open>simp_all add: phase_le_def\<close>)
  moreover have "evd c (unlockDone (c1, hk))"
    using s(3,5,11,13,14) same by (auto simp: evd_def)
  ultimately show ?thesis using s same by (simp add: u sec_def)
qed

lemma abortWith_ok:
  assumes i: "kc_inv c"
  shows "sec c (abortWith e c) \<and> k_phase (abortWith e c) = k_phase c \<and> k_busy (abortWith e c) = k_busy c"
proof (cases "k_done c \<or> k_abortErr c \<noteq> None")
  case True
  then show ?thesis using sec_refl [OF i] by (auto simp: abortWith_def)
next
  case False
  let ?c0 = "unblock (c\<lparr>k_abortErr := Some e\<rparr>)"
  have "abortWith e c = settleUnlock ?c0" using False kc_invD(1) [OF i] by (simp add: abortWith_def)
  moreover have "sec c (settleUnlock ?c0) \<and> k_phase (settleUnlock ?c0) = k_phase c \<and> k_busy (settleUnlock ?c0) = k_busy c"
    by (rule settleUnlock_sec [OF i]) (use kc_invD(1-3) [OF i] in \<open>simp_all add: unblock_def\<close>)
  ultimately show ?thesis by simp
qed

lemma sec_fieldless:
  assumes i: "kc_inv c" and same: "k_h c' = k_h c" "k_phase c' = k_phase c" "k_busy c' = k_busy c" "k_done c' = k_done c" "k_err c' = k_err c"
      "k_bound c' = k_bound c" "k_nextChan c' = k_nextChan c" "k_events c' = k_events c" "k_writes c' = k_writes c"
      "k_closed c' = k_closed c" "k_abortErr c' = k_abortErr c" "k_readReady c' = k_readReady c" "k_writeReady c' = k_writeReady c"
      "k_hasConn c' = k_hasConn c"
    and w: "k_wake c' = k_wake c \<and> k_fired c' = k_fired c \<or> k_wake c' = None \<and> k_fired c' = k_fired c \<union> set_option (k_wake c)"
  shows "sec c c'"
proof -
  have ea: "early c' = early c" using same(1) by (rule early_cong)
  have ch: "chan_ok c'"
    using w chan_ok_same [OF kc_invD(11) [OF i]] chan_ok_broadcast [OF kc_invD(11) [OF i]] same(7) by blast
  have "k_phase c' = phIdle \<Longrightarrow> \<not> early c' \<Longrightarrow> k_wake c' = None" using kc_invD(8) [OF i] w same ea by auto
  then have "kc_inv c'" by - (rule kc_invI; use kc_invD(1-7,9,10,12) [OF i] ea ch same in simp)
  moreover have "kle c c'" by (rule kleI) (use same ea w in \<open>auto simp: phase_le_def quiet_def\<close>)
  ultimately show ?thesis using same by (simp add: sec_def evd_def)
qed

lemma SetReadDeadline_ok:
  assumes i: "kc_inv c"
  shows "sec c (SetReadDeadline t c) \<and> k_phase (SetReadDeadline t c) = k_phase c \<and> k_busy (SetReadDeadline t c) = k_busy c"
proof -
  have "sec c (SetReadDeadline t c)"
    by (rule sec_fieldless [OF i]) (auto simp: SetReadDeadline_def Let_def)
  then show ?thesis by (simp add: SetReadDeadline_def Let_def)
qed

lemma SetWriteDeadline_ok:
  assumes i: "kc_inv c"
  shows "sec c (SetWriteDeadline t c) \<and> k_phase (SetWriteDeadline t c) = k_phase c \<and> k_busy (SetWriteDeadline t c) = k_busy c"
proof -
  have "sec c (SetWriteDeadline t c)"
    by (rule sec_fieldless [OF i]) (auto simp: SetWriteDeadline_def)
  then show ?thesis by (simp add: SetWriteDeadline_def)
qed

lemma Conn_Close_ok:
  assumes i: "kc_inv c" and r: "Conn_Close cerr c = (c', e)"
  shows "sec c c' \<and> k_phase c' = k_phase c \<and> k_busy c' = k_busy c"
proof (cases "k_closed c")
  case True
  then have "c' = c" using r kc_invD(1) [OF i] by (simp add: Conn_Close_def)
  then show ?thesis using sec_refl [OF i] by simp
next
  case False
  let ?c1 = "c\<lparr>k_closed := True\<rparr>"
  let ?c2 = "if k_abortErr ?c1 = None \<and> \<not> k_done ?c1 then ?c1\<lparr>k_abortErr := Some (ESent NetErrClosed)\<rparr> else ?c1"
  let ?c3 = "settleUnlock (storeReadyLocked ?c2)"
  have c': "c' = ?c3\<lparr>k_connClosed := True\<rparr>" using r False kc_invD(1) [OF i] by (simp add: Conn_Close_def Let_def)
  have s: "sec c ?c3 \<and> k_phase ?c3 = k_phase c \<and> k_busy ?c3 = k_busy c"
    by (rule settleUnlock_sec [OF i]) (use kc_invD(1) [OF i] in \<open>auto split: if_splits\<close>)
  then have "kc_inv ?c3" by (simp add: sec_def)
  then have "sec ?c3 c'" by (rule sec_fieldless) (simp_all add: c')
  then show ?thesis using s
    by (auto simp: c' sec_def evd_def kle_def quiet_def early_def phase_le_def)
qed

section \<open>The goroutines\<close>

fun is_sender :: "kpc \<Rightarrow> bool" where
  "is_sender (PRunning call) = True"
| "is_sender (PSending call) = True"
| "is_sender (PSent call n e) = True"
| "is_sender p = False"

fun is_reader :: "kpc \<Rightarrow> bool" where
  "is_reader (PRunning call) = True"
| "is_reader (PReading call dl) = True"
| "is_reader p = False"

fun is_sent :: "kpc \<Rightarrow> bool" where
  "is_sent (PSent call n e) = True"
| "is_sent p = False"

text \<open>Which places a goroutine can be at: by mode, and once the handshake is claimed.\<close>

fun pc_ok :: "kconn \<Rightarrow> kpc \<Rightarrow> bool" where
  "pc_ok c (PRun call) = (\<not> early c)"
| "pc_ok c (PRunWait call ch) = (\<not> early c)"
| "pc_ok c (PRunning call) = (\<not> early c)"
| "pc_ok c (PSource call) = early c"
| "pc_ok c (PClaim call) = early c"
| "pc_ok c (PSending call) = early c"
| "pc_ok c (PSent call n e) = early c"
| "pc_ok c (PWritten call) = (early c \<and> k_phase c \<noteq> phIdle)"
| "pc_ok c (PWrittenWait call ch) = (early c \<and> k_phase c \<noteq> phIdle)"
| "pc_ok c (PAwait call) = early c"
| "pc_ok c (PAwaitWait call ch dl) = early c"
| "pc_ok c (PRead call dl) = (early c \<and> k_phase c \<noteq> phIdle)"
| "pc_ok c (PReadWait call ch dl) = (early c \<and> k_phase c \<noteq> phIdle)"
| "pc_ok c (PReading call dl) = (early c \<and> k_phase c \<noteq> phIdle)"
| "pc_ok c p = True"

text \<open>What holds while a goroutine is blocked: its channel is closed, or is the current one and the goroutine
  has to wait.\<close>

fun wait_ok :: "kconn \<Rightarrow> kpc \<Rightarrow> bool" where
  "wait_ok c (PRunWait call ch) = (ch < k_nextChan c \<and> (ch \<notin> k_fired c \<longrightarrow> k_wake c = Some ch \<and> \<not> k_done c \<and> k_phase c \<noteq> phIdle))"
| "wait_ok c (PWrittenWait call ch) =
     (ch < k_nextChan c \<and> (ch \<notin> k_fired c \<longrightarrow> k_wake c = Some ch \<and> \<not> k_done c \<and> \<not> k_closed c \<and> k_phase c = phSending))"
| "wait_ok c (PAwaitWait call ch dl) =
     (ch < k_nextChan c \<and> (ch \<notin> k_fired c \<longrightarrow> k_wake c = Some ch \<and> \<not> k_done c \<and> \<not> k_closed c \<and> k_phase c = phIdle))"
| "wait_ok c (PReadWait call ch dl) = (ch < k_nextChan c \<and> (ch \<notin> k_fired c \<longrightarrow> k_wake c = Some ch \<and> read_blocked c))"
| "wait_ok c p = True"

definition only :: "(kpc \<Rightarrow> bool) \<Rightarrow> (nat \<Rightarrow> kpc) \<Rightarrow> bool \<Rightarrow> bool" where
  "only P pcs b \<longleftrightarrow> (if b then \<exists>t. \<forall>u. P (pcs u) \<longleftrightarrow> u = t else \<forall>u. \<not> P (pcs u))"

definition wrote :: "kconn \<Rightarrow> (nat \<Rightarrow> kpc) \<Rightarrow> bool" where
  "wrote c pcs \<longleftrightarrow> k_phase c = phSent \<or> (\<exists>t. is_sent (pcs t))"

definition ev_ok :: "kconn \<Rightarrow> (nat \<Rightarrow> kpc) \<Rightarrow> bool" where
  "ev_ok c pcs \<longleftrightarrow>
     (\<exists>w. k_events c = (if wrote c pcs then [EvWrote w] else []) @ (if k_phase c = phSent \<and> k_done c then [EvDone (k_err c)] else []))"

definition kinv :: "ksys \<Rightarrow> bool" where
  "kinv s \<longleftrightarrow>
     kc_inv (ks_c s)
   \<and> (\<forall>t. pc_ok (ks_c s) (ks_pc s t) \<and> wait_ok (ks_c s) (ks_pc s t))
   \<and> only is_sender (ks_pc s) (k_phase (ks_c s) = phSending)
   \<and> only is_reader (ks_pc s) (k_busy (ks_c s))
   \<and> ev_ok (ks_c s) (ks_pc s)"

lemma kinvD:
  assumes "kinv s"
  shows "kc_inv (ks_c s)" and "pc_ok (ks_c s) (ks_pc s t)" and "wait_ok (ks_c s) (ks_pc s t)"
    and "only is_sender (ks_pc s) (k_phase (ks_c s) = phSending)" and "only is_reader (ks_pc s) (k_busy (ks_c s))"
    and "ev_ok (ks_c s) (ks_pc s)"
  using assms by (simp_all add: kinv_def)

lemma onlyD: "only P pcs b \<Longrightarrow> P (pcs t) \<Longrightarrow> b" and only_unique: "only P pcs b \<Longrightarrow> P (pcs t) \<Longrightarrow> P (pcs u) \<Longrightarrow> t = u"
  by (auto simp: only_def split: if_splits)

definition moves :: "(kpc \<Rightarrow> bool) \<Rightarrow> kpc \<Rightarrow> kpc \<Rightarrow> bool \<Rightarrow> bool \<Rightarrow> bool" where
  "moves P p q b b' \<longleftrightarrow> (P p = P q \<and> b = b') \<or> (\<not> P p \<and> P q \<and> \<not> b \<and> b') \<or> (P p \<and> \<not> P q \<and> b \<and> \<not> b')"

lemma only_moves:
  assumes o: "only P pcs b" and m: "moves P (pcs t) q b b'"
  shows "only P (pcs(t := q)) b'"
proof -
  consider (same) "P (pcs t) = P q" "b = b'" | (new) "\<not> P (pcs t)" "P q" "\<not> b" "b'" | (old) "P (pcs t)" "\<not> P q" "b" "\<not> b'"
    using m by (auto simp: moves_def)
  then show ?thesis
  proof cases
    case same
    then have "P ((pcs(t := q)) u) = P (pcs u)" for u by simp
    then show ?thesis using o same(2) by (simp add: only_def)
  next
    case new
    then show ?thesis using o by (auto simp: only_def intro: exI [of _ t])
  next
    case old
    then show ?thesis using o only_unique [OF o] by (auto simp: only_def)
  qed
qed

lemma pc_ok_mono: "kle c c' \<Longrightarrow> pc_ok c p \<Longrightarrow> pc_ok c' p"
  using kleD(1,2) [of c c'] by (cases p) (auto simp: phase_le_def)

lemma wait_mono:
  assumes "kle c c'" and "ch < k_nextChan c \<and> (ch \<notin> k_fired c \<longrightarrow> k_wake c = Some ch \<and> Q c)"
    and "Q c \<Longrightarrow> \<not> k_done c" and "Q c \<Longrightarrow> quiet c c' \<Longrightarrow> Q c'"
  shows "ch < k_nextChan c' \<and> (ch \<notin> k_fired c' \<longrightarrow> k_wake c' = Some ch \<and> Q c')"
  using assms kleD(8,9,10) [OF assms(1)] by (meson subsetD order_less_le_trans)

lemma read_blocked_done: "read_blocked c \<Longrightarrow> \<not> k_done c"
  by (simp add: read_blocked_def)

lemma read_blocked_phase: "read_blocked c \<Longrightarrow> k_phase c \<noteq> phIdle"
  by (simp add: read_blocked_def)

lemma read_blocked_quiet: "read_blocked c \<Longrightarrow> quiet c c' \<Longrightarrow> read_blocked c'"
  by (auto simp: quiet_def read_blocked_def)

lemma wait_ok_mono:
  assumes k: "kle c c'" and w: "wait_ok c p"
  shows "wait_ok c' p"
proof (cases p)
  case (PRunWait call ch)
  then show ?thesis
    using wait_mono [OF k, of ch "\<lambda>c. \<not> k_done c \<and> k_phase c \<noteq> phIdle"] w by (auto simp: quiet_def)
next
  case (PWrittenWait call ch)
  then show ?thesis
    using wait_mono [OF k, of ch "\<lambda>c. \<not> k_done c \<and> \<not> k_closed c \<and> k_phase c = phSending"] w by (auto simp: quiet_def)
next
  case (PAwaitWait call ch dl)
  then show ?thesis
    using wait_mono [OF k, of ch "\<lambda>c. \<not> k_done c \<and> \<not> k_closed c \<and> k_phase c = phIdle"] w by (auto simp: quiet_def)
next
  case (PReadWait call ch dl)
  then show ?thesis
    using wait_mono [OF k, of ch read_blocked] w read_blocked_quiet read_blocked_done by simp
qed auto

lemma ev_ok_cong:
  assumes "k_events c' = k_events c" and "k_phase c' = k_phase c" and "k_done c' = k_done c" and "k_err c' = k_err c"
    and "wrote c' pcs' = wrote c pcs" and "ev_ok c pcs"
  shows "ev_ok c' pcs'"
  using assms(6) unfolding ev_ok_def assms(1-5) .

lemma ev_ok_sec:
  assumes e: "ev_ok c pcs" and s: "sec c c'" and w: "wrote c' pcs' = wrote c pcs"
  shows "ev_ok c' pcs'"
proof -
  have k: "kle c c'" and ev: "evd c c'" using s by (simp_all add: sec_def)
  obtain w0 where ec: "k_events c = (if wrote c pcs then [EvWrote w0] else []) @ (if k_phase c = phSent \<and> k_done c then [EvDone (k_err c)] else [])"
    using e by (auto simp: ev_ok_def)
  show ?thesis
  proof (cases "k_phase c = phSent \<and> k_done c")
    case True
    then have "k_phase c' = phSent \<and> k_done c'" "k_err c' = k_err c"
      using kleD(2,3,6) [OF k] by (auto simp: phase_le_def)
    then show ?thesis using True ev ec w by (auto simp: ev_ok_def evd_def)
  next
    case False
    then have "k_events c' = (if wrote c' pcs' then [EvWrote w0] else []) @ (if k_phase c' = phSent \<and> k_done c' then [EvDone (k_err c')] else [])"
      using ev ec w by (auto simp: evd_def)
    then show ?thesis unfolding ev_ok_def by blast
  qed
qed

lemma kinv_at:
  assumes i: "kinv s" and s: "sec (ks_c s) c'" and p: "pc_ok c' p" "wait_ok c' p"
    and m: "moves is_sender (ks_pc s t) p (k_phase (ks_c s) = phSending) (k_phase c' = phSending)"
      "moves is_reader (ks_pc s t) p (k_busy (ks_c s)) (k_busy c')"
    and w: "wrote c' ((ks_pc s)(t := p)) = wrote (ks_c s) (ks_pc s)"
  shows "kinv (at t s (c', p))"
proof -
  have k: "kle (ks_c s) c'" "kc_inv c'" using s by (simp_all add: sec_def)
  have "pc_ok c' (((ks_pc s)(t := p)) u) \<and> wait_ok c' (((ks_pc s)(t := p)) u)" for u
    using p kinvD(2,3) [OF i] pc_ok_mono [OF k(1)] wait_ok_mono [OF k(1)] by simp
  then show ?thesis
    using k(2) only_moves [OF kinvD(4) [OF i] m(1)] only_moves [OF kinvD(5) [OF i] m(2)] ev_ok_sec [OF kinvD(6) [OF i] s w]
    by (simp add: kinv_def at_def)
qed

text \<open>A step that does not change who sends and who reads.\<close>

lemma kinv_plain:
  assumes i: "kinv s" and s: "sec (ks_c s) c'" and same: "k_phase c' = k_phase (ks_c s)" "k_busy c' = k_busy (ks_c s)"
    and p: "pc_ok c' p" "wait_ok c' p" "is_sender p = is_sender (ks_pc s t)" "is_reader p = is_reader (ks_pc s t)" "is_sent p = is_sent (ks_pc s t)"
  shows "kinv (at t s (c', p))"
proof -
  have "is_sent (((ks_pc s)(t := p)) u) = is_sent (ks_pc s u)" for u using p(5) by simp
  then have "wrote c' ((ks_pc s)(t := p)) = wrote (ks_c s) (ks_pc s)" unfolding wrote_def same by simp
  then show ?thesis
    using i s p same by (intro kinv_at) (simp_all add: moves_def)
qed

lemma kinv_env:
  assumes i: "kinv s" and s: "sec (ks_c s) c' \<and> k_phase c' = k_phase (ks_c s) \<and> k_busy c' = k_busy (ks_c s)"
  shows "kinv (s\<lparr>ks_c := c'\<rparr>)"
proof -
  have k: "kle (ks_c s) c'" using s by (simp add: sec_def)
  have "kinv (at 0 s (c', ks_pc s 0))"
    using s kinvD(2,3) [OF i] pc_ok_mono [OF k] wait_ok_mono [OF k] by (intro kinv_plain [OF i]) auto
  then show ?thesis by (simp add: at_def)
qed

lemma estep_inv: "estep s s' \<Longrightarrow> kinv s \<Longrightarrow> kinv s'"
proof (induction rule: estep.induct)
  case (close s cerr)
  obtain c' e where "Conn_Close cerr (ks_c s) = (c', e)" by fastforce
  then show ?case using kinv_env [OF close] Conn_Close_ok [OF kinvD(1) [OF close]] by simp
qed (use kinv_env abortWith_ok SetReadDeadline_ok SetWriteDeadline_ok kinvD(1) in blast)+

section \<open>Every step keeps the invariant\<close>

definition no_role :: "kpc \<Rightarrow> bool" where
  "no_role p \<longleftrightarrow> \<not> is_sender p \<and> \<not> is_reader p \<and> \<not> is_sent p"

lemma no_roleD: "no_role p \<Longrightarrow> \<not> is_sender p" "no_role p \<Longrightarrow> \<not> is_reader p" "no_role p \<Longrightarrow> \<not> is_sent p"
  by (simp_all add: no_role_def)

lemma no_role_simps [simp]:
  "no_role PIdle" "no_role (PRun call)" "no_role (PRunWait call ch)" "no_role (PSource call)" "no_role (PClaim call)" "no_role (PWritten call)"
  "no_role (PWrittenWait call ch)" "no_role (PAwait call)" "no_role (PAwaitWait call ch dl)" "no_role (PRead call dl)"
  "no_role (PReadWait call ch dl)" "no_role (PWriting call b)" "no_role (PDone call e)"
  by (simp_all add: no_role_def)

lemma sent_upd: "\<not> is_sent (pcs t) \<Longrightarrow> \<not> is_sent q \<Longrightarrow> (\<exists>u. is_sent ((pcs(t := q)) u)) = (\<exists>u. is_sent (pcs u))"
  by (metis fun_upd_other fun_upd_same)

lemma kinv_idle:
  assumes "kinv s" and "sec (ks_c s) c'" and "k_phase c' = k_phase (ks_c s)" "k_busy c' = k_busy (ks_c s)"
    and "pc_ok c' p" "wait_ok c' p" "no_role p" "no_role (ks_pc s t)"
  shows "kinv (at t s (c', p))"
  using kinv_plain [OF assms(1-6)] assms(7,8) by (simp add: no_role_def)

lemma after_ok_facts [simp]: "pc_ok c (after_ok call)" "wait_ok c (after_ok call)" "no_role (after_ok call)"
  by (cases call; simp)+

lemma after_ret_facts [simp]: "pc_ok c (after_ret call e)" "wait_ok c (after_ret call e)" "no_role (after_ret call e)"
  by (cases e; simp add: after_ret_def)+

lemma start_call_ok:
  assumes i: "kc_inv c" and r: "start_call call ctxErr c = (c', p)"
  shows "sec c c' \<and> k_phase c' = k_phase c \<and> k_busy c' = k_busy c \<and> pc_ok c' p \<and> wait_ok c' p \<and> no_role p"
proof -
  have keep: "c' = c \<and> pc_ok c p \<and> wait_ok c p \<and> no_role p" if "\<forall>d. call \<noteq> CHandshake d \<or> ctxErr = None \<or> k_readReady c"
    using r that by (cases call) (auto split: if_splits option.splits)
  show ?thesis
  proof (cases "\<forall>d. call \<noteq> CHandshake d \<or> ctxErr = None \<or> k_readReady c")
    case True
    then show ?thesis using keep sec_refl [OF i] by simp
  next
    case False
    then obtain d e where d: "call = CHandshake d" "ctxErr = Some e" "\<not> k_readReady c" by auto
    note a = abortWith_ok [OF i, of e]
    have "early (abortWith e c) = early c" using a kleD(1) by (auto simp: sec_def)
    moreover have "c' = abortWith e c \<and> p = (if early c then PClaim call else PRun call)" using r d by auto
    ultimately show ?thesis using a by simp
  qed
qed

lemma run_idle:
  assumes "run_outcome c c' r" and "\<not> early c'" and "r \<noteq> ClGo"
  shows "k_phase c' = k_phase c" and "k_busy c' = k_busy c"
    and "pc_ok c' (with_wait (PRunWait call) (PRunning call) (PRun call) (after_ret call) r)"
    and "wait_ok c' (with_wait (PRunWait call) (PRunning call) (PRun call) (after_ret call) r)"
    and "no_role (with_wait (PRunWait call) (PRunning call) (PRun call) (after_ret call) r)"
  using assms by (cases r; simp add: with_wait_def run_outcome_def)+

lemma read_idle:
  assumes "read_outcome c c' r" and "early c'" and "r \<noteq> ClGo"
  shows "k_busy c' = k_busy c"
    and "pc_ok c' (with_wait (\<lambda>ch. PReadWait call ch dl) (PReading call dl) (PRead call dl) (PDone call) r)"
    and "wait_ok c' (with_wait (\<lambda>ch. PReadWait call ch dl) (PReading call dl) (PRead call dl) (PDone call) r)"
    and "no_role (with_wait (\<lambda>ch. PReadWait call ch dl) (PReading call dl) (PRead call dl) (PDone call) r)"
  using assms by (cases r; simp add: with_wait_def read_outcome_def read_blocked_phase)+

lemma run_section_ok:
  assumes i: "kinv s" and p: "ks_pc s t = PRun call"
  shows "kinv (at t s (run_section call (ks_c s)))"
proof -
  have n: "\<not> early (ks_c s)" using kinvD(2) [OF i, of t] p by simp
  obtain c' r where r: "claimRunLocked (op_of call) (ks_c s) = (c', r)" by fastforce
  note s = claimRun_ok [OF kinvD(1) [OF i] n r]
  have n': "\<not> early c'" using s(1) kleD(1) n by (auto simp: sec_def)
  have e: "run_section call (ks_c s) = (c', with_wait (PRunWait call) (PRunning call) (PRun call) (after_ret call) r)"
    using r by (simp add: run_section_def)
  show ?thesis
  proof (cases "r = ClGo")
    case True
    then have g: "k_phase (ks_c s) = phIdle" "k_phase c' = phSending" "\<not> k_busy (ks_c s)" "k_busy c'" using s(2) by (simp_all add: run_outcome_def)
    have "wrote c' ((ks_pc s)(t := PRunning call)) = wrote (ks_c s) (ks_pc s)"
      using g p sent_upd [of "ks_pc s" t "PRunning call"] by (simp add: wrote_def)
    then show ?thesis
      unfolding e using True g p n' by (intro kinv_at [OF i s(1)]) (simp_all add: with_wait_def moves_def)
  next
    case False
    then show ?thesis
      unfolding e using kinv_idle [OF i s(1)] run_idle [OF s(2) n' False] p by simp
  qed
qed

lemma read_section_ok:
  assumes i: "kinv s" and n: "early (ks_c s)" "k_phase (ks_c s) \<noteq> phIdle \<or> k_done (ks_c s) \<or> k_closed (ks_c s)" and p: "no_role (ks_pc s t)"
  shows "kinv (at t s (read_section call dl (ks_c s)))"
proof -
  obtain c' r where r: "readStart (op_of call) dl (ks_c s) = (c', r)" by fastforce
  note s = readStart_ok [OF kinvD(1) [OF i] n r]
  have n': "early c'" using s(1) kleD(1) n by (auto simp: sec_def)
  have e: "read_section call dl (ks_c s) = (c', with_wait (\<lambda>ch. PReadWait call ch dl) (PReading call dl) (PRead call dl) (PDone call) r)"
    using r by (simp add: read_section_def)
  show ?thesis
  proof (cases "r = ClGo")
    case True
    then have g: "\<not> k_busy (ks_c s)" "k_busy c'" "k_phase c' \<noteq> phIdle" using s(3) by (simp_all add: read_outcome_def)
    have "is_sent (((ks_pc s)(t := PReading call dl)) u) = is_sent (ks_pc s u)" for u using no_roleD(3) [OF p] by simp
    then have "wrote c' ((ks_pc s)(t := PReading call dl)) = wrote (ks_c s) (ks_pc s)" using s(2) by (simp add: wrote_def)
    then show ?thesis
      unfolding e using True g n' s(2) no_roleD [OF p] by (intro kinv_at [OF i s(1)]) (simp_all add: with_wait_def moves_def)
  next
    case False
    then show ?thesis
      unfolding e using kinv_idle [OF i s(1,2)] read_idle [OF s(3) n' False] p by simp
  qed
qed

lemma await_section_ok:
  assumes i: "kinv s" and p: "ks_pc s t = PAwait call"
  shows "kinv (at t s (await_section now call (ks_c s)))"
proof -
  have n: "early (ks_c s)" using kinvD(2) [OF i, of t] p by simp
  obtain c' r where r: "waitClaimedLocked now (op_of call) (ks_c s) = (c', r)" by fastforce
  note s = waitClaimed_ok [OF kinvD(1) [OF i] n r]
  have nr: "no_role (ks_pc s t)" using p by (simp add: no_role_def)
  have n': "early c'" using s kleD(1) n by (auto simp: sec_def)
  show ?thesis
  proof (cases "r = ClGo")
    case True
    then have g: "c' = ks_c s" "k_phase (ks_c s) \<noteq> phIdle \<or> k_done (ks_c s) \<or> k_closed (ks_c s)" using s by simp_all
    have "await_section now call (ks_c s) = read_section call (replyDeadlineAt now (has_deadline call) (ks_c s)) (ks_c s)"
      using r True g(1) by (simp add: await_section_def)
    then show ?thesis using read_section_ok [OF i n g(2) nr] by simp
  next
    case False
    then have e: "await_section now call (ks_c s)
        = (c', with_wait (\<lambda>ch. PAwaitWait call ch (k_readDeadline (ks_c s))) (PAwait call) (PAwait call) (PDone call) r)"
      using r by (cases r) (simp_all add: await_section_def)
    have "pc_ok c' (snd (await_section now call (ks_c s))) \<and> wait_ok c' (snd (await_section now call (ks_c s)))
        \<and> no_role (snd (await_section now call (ks_c s)))"
      unfolding e using s n' False by (cases r) (auto simp: with_wait_def)
    then show ?thesis
      unfolding e using s nr by (intro kinv_idle [OF i]) simp_all
  qed
qed

lemma written_section_ok:
  assumes i: "kinv s" and p: "ks_pc s t = PWritten call"
  shows "kinv (at t s (written_section call (ks_c s)))"
proof -
  have n: "early (ks_c s)" "k_phase (ks_c s) \<noteq> phIdle" using kinvD(2) [OF i, of t] p by simp_all
  obtain c' r where r: "waitWritten (op_of call) (ks_c s) = (c', r)" by fastforce
  note s = waitWritten_ok [OF kinvD(1) [OF i] n r]
  have n': "early c'" using s(1) kleD(1) n by (auto simp: sec_def)
  have e: "written_section call (ks_c s) = (c', with_wait (PWrittenWait call) (PWritten call) (PWritten call) (after_ret call) r)"
    using r by (simp add: written_section_def)
  have "pc_ok c' (snd (written_section call (ks_c s))) \<and> wait_ok c' (snd (written_section call (ks_c s)))
      \<and> no_role (snd (written_section call (ks_c s)))"
    using s(2-4) n n' unfolding e by (auto simp: with_wait_def)
  then show ?thesis
    unfolding e using s(2,3) p by (intro kinv_idle [OF i s(1)]) simp_all
qed

lemma run_io_ok:
  assumes i: "kinv s" and p: "ks_pc s t = PRunning call"
    and r: "runEnd (op_of call) he ctxErr (runWrote b n w (io_leaves st bd (ks_c s))) = (c', e)"
  shows "kinv (at t s (c', after_ret call e))"
proof -
  let ?c = "ks_c s"
  have n: "\<not> early ?c" and ph: "k_phase ?c = phSending" and bs: "k_busy ?c"
    using kinvD(2) [OF i, of t] onlyD [OF kinvD(4) [OF i], of t] onlyD [OF kinvD(5) [OF i], of t] p by simp_all
  note s = runEnd_ok [OF kinvD(1) [OF i] ph n r]
  have nd: "\<not> k_done ?c" using kc_invD(9) [OF kinvD(1) [OF i]] n ph by blast
  have ns: "\<not> is_sent (ks_pc s u)" for u
    using only_unique [OF kinvD(4) [OF i], of t u] p by (cases "ks_pc s u") auto
  have "k_events ?c = []" using kinvD(6) [OF i] ph ns by (simp add: ev_ok_def wrote_def)
  then have "ev_ok c' ((ks_pc s)(t := after_ret call e))" using s(3,5,7) by (simp add: ev_ok_def wrote_def)
  moreover have "only is_sender ((ks_pc s)(t := after_ret call e)) (k_phase c' = phSending)"
    using p ph s(3) no_roleD by (intro only_moves [OF kinvD(4) [OF i]]) (simp add: moves_def)
  moreover have "only is_reader ((ks_pc s)(t := after_ret call e)) (k_busy c')"
    using p bs s(4) no_roleD by (intro only_moves [OF kinvD(5) [OF i]]) (simp add: moves_def)
  moreover have "pc_ok c' (((ks_pc s)(t := after_ret call e)) u) \<and> wait_ok c' (((ks_pc s)(t := after_ret call e)) u)" for u
    using kinvD(2,3) [OF i] pc_ok_mono [OF s(2)] wait_ok_mono [OF s(2)] by simp
  ultimately show ?thesis using s(1) by (simp add: kinv_def at_def)
qed

lemma send_io_ok:
  assumes i: "kinv s" and p: "ks_pc s t = PSending call"
  shows "kinv (at t s (sendWrote b n w (ks_c s), PSent call n w))"
proof -
  let ?c = "ks_c s" and ?c' = "sendWrote b n w (ks_c s)"
  have ph: "k_phase ?c = phSending" using onlyD [OF kinvD(4) [OF i], of t] p by simp
  have ns: "\<not> is_sent (ks_pc s u)" for u
    using only_unique [OF kinvD(4) [OF i], of t u] p by (cases "ks_pc s u") auto
  have k: "kle ?c ?c'" by (rule kle_fieldless) simp_all
  have ch: "chan_ok ?c'" using chan_ok_same [OF kc_invD(11) [OF kinvD(1) [OF i]]] by simp
  have inv: "kc_inv ?c'" by (rule kc_invI) (use kc_invD [OF kinvD(1) [OF i]] ch in simp_all)
  have "k_events ?c = []" using kinvD(6) [OF i] ph ns by (simp add: ev_ok_def wrote_def)
  then have "ev_ok ?c' ((ks_pc s)(t := PSent call n w))" using ph by (auto simp: ev_ok_def wrote_def intro!: exI [of _ t])
  moreover have "only is_sender ((ks_pc s)(t := PSent call n w)) (k_phase ?c' = phSending)"
    using p by (intro only_moves [OF kinvD(4) [OF i]]) (simp add: moves_def)
  moreover have "only is_reader ((ks_pc s)(t := PSent call n w)) (k_busy ?c')"
    using p by (intro only_moves [OF kinvD(5) [OF i]]) (simp add: moves_def)
  moreover have "pc_ok ?c' (PSent call n w)" using kinvD(2) [OF i, of t] p by simp
  then have "pc_ok ?c' (((ks_pc s)(t := PSent call n w)) u) \<and> wait_ok ?c' (((ks_pc s)(t := PSent call n w)) u)" for u
    using kinvD(2,3) [OF i] pc_ok_mono [OF k] wait_ok_mono [OF k] by simp
  ultimately show ?thesis using inv by (simp add: kinv_def at_def)
qed

lemma after_send_facts: "early c \<Longrightarrow> pc_ok c (after_send call r) \<and> wait_ok c (after_send call r) \<and> no_role (after_send call r)"
  by (cases r; cases call) (auto split: option.splits)

lemma after_claim_facts:
  "early c \<Longrightarrow> \<not> b \<Longrightarrow> e = None \<Longrightarrow> k_phase c \<noteq> phIdle
   \<Longrightarrow> pc_ok c (after_claim call (b, e)) \<and> wait_ok c (after_claim call (b, e)) \<and> no_role (after_claim call (b, e))"
  by (cases call) (simp_all add: after_claim_def)

lemma after_claim_err: "\<not> b \<Longrightarrow> e \<noteq> None \<Longrightarrow> after_claim call (b, e) = PDone call e"
  by (auto simp: after_claim_def)

lemma sent_ok:
  assumes i: "kinv s" and p: "ks_pc s t = PSent call n w" and r: "sendEnd n w (ks_c s) = (c', k, e)"
  shows "kinv (at t s (c', after_send call e))"
proof -
  let ?c = "ks_c s"
  have ph: "k_phase ?c = phSending" and ea: "early ?c" using onlyD [OF kinvD(4) [OF i], of t] kinvD(2) [OF i, of t] p by simp_all
  note s = sendEnd_ok [OF kinvD(1) [OF i] ea ph r]
  have ea': "early c'" using s(1) kleD(1) ea by (auto simp: sec_def)
  have "wrote c' ((ks_pc s)(t := after_send call e)) = wrote ?c (ks_pc s)"
    using s(3) p by (auto simp: wrote_def intro: exI [of _ t])
  then show ?thesis
    using after_send_facts [OF ea'] no_roleD s ph p by (intro kinv_at [OF i s(1)]) (simp_all add: moves_def)
qed

lemma claim_ok:
  assumes i: "kinv s" and p: "ks_pc s t = PClaim call" and r: "kclaim (op_of call) (ks_c s) = (c', be)"
  shows "kinv (at t s (c', after_claim call be))"
proof -
  let ?c = "ks_c s"
  obtain b e where be: "be = (b, e)" by fastforce
  have ea: "early ?c" using kinvD(2) [OF i, of t] p by simp
  note s = kclaim_ok [OF kinvD(1) [OF i] ea r [unfolded be]]
  have ea': "early c'" using s(1) kleD(1) ea by (auto simp: sec_def)
  show ?thesis
  proof (cases b)
    case True
    then have q: "after_claim call be = PSending call" using be by (simp add: after_claim_def)
    have "wrote c' ((ks_pc s)(t := PSending call)) = wrote ?c (ks_pc s)"
      using True s(3) p sent_upd [of "ks_pc s" t "PSending call"] by (simp add: wrote_def)
    then show ?thesis
      unfolding q using True s p ea' by (intro kinv_at [OF i s(1)]) (simp_all add: moves_def)
  next
    case False
    have c': "c' = ?c" using s(4) [OF False] .
    have "pc_ok c' (after_claim call be) \<and> wait_ok c' (after_claim call be) \<and> no_role (after_claim call be)"
      using after_claim_facts [OF ea' False] after_claim_err [OF False] s(5) [OF False] c' be by (cases e) auto
    then show ?thesis using s c' p by (intro kinv_idle [OF i s(1)]) simp_all
  qed
qed

lemma read_io_ok:
  assumes i: "kinv s" and p: "ks_pc s t = PReading call dl"
    and r: "readEnd (op_of call) now he ctxErr dl (io_leaves st bd (ks_c s)) = (c', e)"
  shows "kinv (at t s (c', PDone call e))"
proof -
  let ?c = "ks_c s"
  have bs: "k_busy ?c" and n: "early ?c" "k_phase ?c \<noteq> phIdle"
    using onlyD [OF kinvD(5) [OF i], of t] kinvD(2) [OF i, of t] p by simp_all
  note s = readEnd_ok [OF kinvD(1) [OF i] n r]
  have "wrote c' ((ks_pc s)(t := PDone call e)) = wrote ?c (ks_pc s)"
    using s(2) p sent_upd [of "ks_pc s" t "PDone call e"] by (simp add: wrote_def)
  then show ?thesis using s bs p by (intro kinv_at [OF i s(1)]) (simp_all add: moves_def)
qed

lemma io_kinv:
  assumes i: "kinv s" and p: "ks_pc s t = PReading call dl"
  shows "kinv (at t s (io_leaves st (h_bound (k_h (ks_c s))) (ks_c s), PReading call dl))"
proof -
  let ?c' = "io_leaves st (h_bound (k_h (ks_c s))) (ks_c s)"
  have k: "kle (ks_c s) ?c'" by (rule kle_fieldless) simp_all
  have ch: "chan_ok ?c'" using chan_ok_same [OF kc_invD(11) [OF kinvD(1) [OF i]]] by simp
  have "kc_inv ?c'" by (rule kc_invI) (use kc_invD [OF kinvD(1) [OF i]] ch in simp_all)
  then have "sec (ks_c s) ?c'" using k by (simp add: sec_def evd_def)
  then show ?thesis using kinvD(2) [OF i, of t] p by (intro kinv_plain [OF i]) simp_all
qed

lemma write_io_ok:
  assumes i: "kinv s" and p: "ks_pc s t = PWriting call b"
  shows "kinv (at t s ((ks_c s)\<lparr>k_writes := x\<rparr>, PDone call e))"
proof -
  have e: "early ((ks_c s)\<lparr>k_writes := x\<rparr>) = early (ks_c s)" by (simp add: early_def)
  have pc: "pc_ok ((ks_c s)\<lparr>k_writes := x\<rparr>) q = pc_ok (ks_c s) q" "wait_ok ((ks_c s)\<lparr>k_writes := x\<rparr>) q = wait_ok (ks_c s) q" for q
    using e by (cases q; simp add: read_blocked_def)+
  have "kc_inv ((ks_c s)\<lparr>k_writes := x\<rparr>)" using kinvD(1) [OF i] e by (simp add: kc_inv_def chan_ok_def)
  moreover have w: "wrote ((ks_c s)\<lparr>k_writes := x\<rparr>) ((ks_pc s)(t := PDone call e)) = wrote (ks_c s) (ks_pc s)"
    using p sent_upd [of "ks_pc s" t "PDone call e"] by (simp add: wrote_def)
  have "ev_ok ((ks_c s)\<lparr>k_writes := x\<rparr>) ((ks_pc s)(t := PDone call e))"
    by (rule ev_ok_cong [OF _ _ _ _ w kinvD(6) [OF i]]) simp_all
  moreover have "only is_sender ((ks_pc s)(t := PDone call e)) (k_phase (ks_c s) = phSending)"
    "only is_reader ((ks_pc s)(t := PDone call e)) (k_busy (ks_c s))"
    using p by (auto intro!: only_moves [OF kinvD(4) [OF i]] only_moves [OF kinvD(5) [OF i]] simp: moves_def)
  ultimately show ?thesis using kinvD(2,3) [OF i] by (simp add: kinv_def at_def pc)
qed

lemma tstep_inv: "tstep eager t s s' \<Longrightarrow> kinv s \<Longrightarrow> kinv s'"
proof (induction rule: tstep.induct)
  case (call s cl ctxErr)
  obtain c' p where r: "start_call cl ctxErr (ks_c s) = (c', p)" by fastforce
  have "no_role (ks_pc s t)" using call(1) by auto
  then show ?case using start_call_ok [OF kinvD(1) [OF call(2)] r] r by (auto intro: kinv_idle [OF call(2)])
next
  case (run_woken s cl ch)
  then show ?case using kinvD(2) [OF run_woken(3), of t] by (intro kinv_idle sec_refl kinvD(1)) simp_all
next
  case (source s cl)
  then show ?case using kinvD(2) [OF source(3), of t]
    by (intro kinv_idle sec_refl kinvD(1)) (auto simp: after_source_def split: kcall.splits option.splits)
next
  case (written_woken s cl ch)
  then show ?case using kinvD(2) [OF written_woken(3), of t] by (intro kinv_idle sec_refl kinvD(1)) simp_all
next
  case (await_woken s cl ch dl)
  then show ?case using kinvD(2) [OF await_woken(3), of t] by (intro kinv_idle sec_refl kinvD(1)) simp_all
next
  case (read s cl dl)
  then show ?case using kinvD(2) [OF read(2), of t] by (intro read_section_ok) simp_all
next
  case (read_woken s cl ch dl)
  then show ?case using kinvD(2) [OF read_woken(3), of t] by (intro kinv_idle sec_refl kinvD(1)) simp_all
qed (simp_all add: run_section_ok run_io_ok claim_ok send_io_ok sent_ok written_section_ok await_section_ok read_io_ok io_kinv write_io_ok)

lemma run_section_kle:
  assumes i: "kinv s" and p: "ks_pc s t = PRun call"
  shows "kle (ks_c s) (fst (run_section call (ks_c s)))"
proof -
  have n: "\<not> early (ks_c s)" using kinvD(2) [OF i, of t] p by simp
  obtain c' r where r: "claimRunLocked (op_of call) (ks_c s) = (c', r)" by fastforce
  then show ?thesis using claimRun_ok(1) [OF kinvD(1) [OF i] n r] by (simp add: run_section_def sec_def)
qed

lemma read_section_kle:
  assumes i: "kc_inv c" and n: "early c" "k_phase c \<noteq> phIdle \<or> k_done c \<or> k_closed c"
  shows "kle c (fst (read_section call dl c))"
proof -
  obtain c' r where r: "readStart (op_of call) dl c = (c', r)" by fastforce
  then show ?thesis using readStart_ok(1) [OF i n r] by (simp add: read_section_def sec_def)
qed

lemma await_section_kle:
  assumes i: "kc_inv c" and n: "early c"
  shows "kle c (fst (await_section now call c))"
proof -
  obtain c' r where r: "waitClaimedLocked now (op_of call) c = (c', r)" by fastforce
  note s = waitClaimed_ok [OF i n r]
  show ?thesis
  proof (cases "r = ClGo")
    case True
    then show ?thesis using s r read_section_kle [OF i n] by (simp add: await_section_def)
  next
    case False
    then have "fst (await_section now call c) = c'" using r by (cases r) (simp_all add: await_section_def)
    then show ?thesis using s by (simp add: sec_def)
  qed
qed

lemma written_section_kle:
  assumes i: "kc_inv c" and n: "early c" "k_phase c \<noteq> phIdle"
  shows "kle c (fst (written_section call c))"
proof -
  obtain c' r where r: "waitWritten (op_of call) c = (c', r)" by fastforce
  then show ?thesis using waitWritten_ok(1) [OF i n r] by (simp add: written_section_def sec_def)
qed

lemma at_sel [simp]: "ks_c (at t s r) = fst r" "ks_pc (at t s r) = (ks_pc s)(t := snd r)"
  by (simp_all add: at_def)

lemma tstep_kle: "tstep eager t s s' \<Longrightarrow> kinv s \<Longrightarrow> kle (ks_c s) (ks_c s')"
proof (induction rule: tstep.induct)
  case (call s cl ctxErr)
  obtain c' p where r: "start_call cl ctxErr (ks_c s) = (c', p)" by fastforce
  then show ?case using start_call_ok [OF kinvD(1) [OF call(2)] r] by (simp add: sec_def)
next
  case (run_io s cl he ctxErr b n werr st bd c r)
  have "k_phase (ks_c s) = phSending" "\<not> early (ks_c s)"
    using onlyD [OF kinvD(4) [OF run_io(3)], of t] kinvD(2) [OF run_io(3), of t] run_io(1) by simp_all
  from runEnd_ok(2) [OF kinvD(1) [OF run_io(3)] this run_io(2)] show ?case by simp
next
  case (claim s cl c r)
  then show ?case using kclaim_ok(1) [OF kinvD(1) [OF claim(3)]] kinvD(2) [OF claim(3), of t] by (cases r) (auto simp: sec_def)
next
  case (send_io s cl n werr)
  show ?case by (rule kle_fieldless) simp_all
next
  case (sent s cl n werr c k r)
  have "k_phase (ks_c s) = phSending" "early (ks_c s)"
    using onlyD [OF kinvD(4) [OF sent(3)], of t] kinvD(2) [OF sent(3), of t] sent(1) by simp_all
  then show ?case using sendEnd_ok(1) [OF kinvD(1) [OF sent(3)] _ _ sent(2)] by (simp add: sec_def)
next
  case (await s cl now)
  then show ?case using await_section_kle [OF kinvD(1) [OF await(2)]] kinvD(2) [OF await(2), of t] by simp
next
  case (written s cl)
  then show ?case using written_section_kle [OF kinvD(1) [OF written(2)]] kinvD(2) [OF written(2), of t] by simp
next
  case (read s cl dl)
  then show ?case using read_section_kle [OF kinvD(1) [OF read(2)]] kinvD(2) [OF read(2), of t] by simp
next
  case (read_io s cl dl he now ctxErr st bd c r)
  have "early (ks_c s)" "k_phase (ks_c s) \<noteq> phIdle" using kinvD(2) [OF read_io(4), of t] read_io(1) by simp_all
  then show ?case using readEnd_ok(1) [OF kinvD(1) [OF read_io(4)] _ _ read_io(3)] by (simp add: sec_def)
next
  case (stage s cl dl st)
  show ?case by (simp, rule kle_fieldless) simp_all
next
  case (write_io s cl b n werr)
  show ?case by (simp, rule kle_fieldless) (simp_all add: early_def)
qed (simp_all add: run_section_kle)

lemma estep_kle: "estep s s' \<Longrightarrow> kinv s \<Longrightarrow> kle (ks_c s) (ks_c s')"
proof (induction rule: estep.induct)
  case (close s cerr)
  obtain c' e where "Conn_Close cerr (ks_c s) = (c', e)" by fastforce
  then show ?case using Conn_Close_ok [OF kinvD(1) [OF close]] by (simp add: sec_def)
qed (use abortWith_ok SetReadDeadline_ok SetWriteDeadline_ok kinvD(1) in \<open>simp_all add: sec_def\<close>)

lemma kstep_inv: "kstep eager s s' \<Longrightarrow> kinv s \<Longrightarrow> kinv s'"
  using tstep_inv estep_inv by (auto simp: kstep_def)

lemma kstep_kle: "kstep eager s s' \<Longrightarrow> kinv s \<Longrightarrow> kle (ks_c s) (ks_c s')"
  using tstep_kle estep_kle by (auto simp: kstep_def)

section \<open>The start\<close>

lemma failLocked_sel:
  assumes "\<not> k_busy c" and "k_phase c = phIdle"
  shows "failLocked he c = storeReadyLocked (broadcastLocked (c\<lparr>k_done := True, k_err := Some (opError c he)\<rparr>))"
  using assms by (simp add: failLocked_def Let_def)

lemma newClient_inv: "kinv (kstart (newClient True loc rem dlok target cfg rt ht perr))"
proof -
  let ?c0 = "(kconn0 True loc rem dlok)\<lparr>k_h := (k_h (kconn0 True loc rem dlok))\<lparr>h_target := target\<rparr>\<rparr>"
  obtain c1 e where k: "kinit cfg rt ht CmdConnect target ?c0 = (c1, e)" by fastforce
  have s: "k_hasConn c1" "k_phase c1 = phIdle" "\<not> k_busy c1" "\<not> k_done c1" "\<not> k_closed c1" "k_abortErr c1 = None" "k_err c1 = None"
    "\<not> k_readReady c1" "\<not> k_writeReady c1" "k_wake c1 = None" "k_fired c1 = {}" "k_events c1 = []"
    using k by (auto simp: kinit_def kconn0_def Let_def split: sum.splits)
  let ?c = "newClient True loc rem dlok target cfg rt ht perr"
  have c: "?c = (case (if perr \<noteq> None then perr else e) of Some x \<Rightarrow> failLocked (StageConfig, x) c1 | None \<Rightarrow> c1)"
    using k by (simp add: newClient_def Let_def)
  have "kc_inv ?c \<and> k_phase ?c = phIdle \<and> \<not> k_busy ?c \<and> k_events ?c = []"
    unfolding c using s by (simp add: kc_inv_def chan_ok_def failLocked_sel split: option.splits)
  then show ?thesis by (simp add: kinv_def kstart_def only_def ev_ok_def wrote_def)
qed

lemma kreachable_inv:
  assumes "kreachable eager (newClient True loc rem dlok target cfg rt ht perr) s"
  shows "kinv s"
  using assms
proof (induction rule: rtranclp_induct)
  case base
  then show ?case by (rule newClient_inv)
next
  case (step y z)
  then show ?case using kstep_inv by blast
qed

end
