(* ===== verification/ClientConnProps.thy ===== *)
theory ClientConnProps
  imports ClientConnSafety
begin

text \<open>
  What the invariant of \<open>ClientConnSafety\<close> means for the callers of a \<open>Conn\<close>, in every state that any number of
  goroutines, cancellations, deadlines and \<open>Close\<close> can reach.
\<close>

section \<open>HandshakeDone\<close>

text \<open>The hook \<open>HandshakeDone\<close> runs at most once, and exactly when \<open>WroteHandshake\<close> ran and the handshake is over, after
  it and with the error every later call returns: never for a handshake that was not written, also when the
  replies arrive, the context ends or the conn is closed while the write is still on its way.\<close>

theorem handshake_done_once:
  assumes "kreachable eager (newClient True loc rem dlok target cfg rt ht perr) s"
  shows "\<exists>w. k_events (ks_c s) = (if k_phase (ks_c s) = phSent then [EvWrote w] @ (if k_done (ks_c s) then [EvDone (k_err (ks_c s))] else [])
    else if \<exists>t. is_sent (ks_pc s t) then [EvWrote w] else [])"
  using kinvD(6) [OF kreachable_inv [OF assms]] by (auto simp: ev_ok_def wrote_def)

section \<open>Nobody is left waiting\<close>

fun waits_on :: "kpc \<Rightarrow> nat option" where
  "waits_on (PRunWait call ch) = Some ch"
| "waits_on (PWrittenWait call ch) = Some ch"
| "waits_on (PAwaitWait call ch dl) = Some ch"
| "waits_on (PReadWait call ch dl) = Some ch"
| "waits_on p = None"

definition in_io :: "kpc \<Rightarrow> bool" where
  "in_io p \<longleftrightarrow> is_sender p \<or> is_reader p"

definition phase_moved :: "kconn \<Rightarrow> kconn \<Rightarrow> bool" where
  "phase_moved c c' \<longleftrightarrow> k_phase c' \<noteq> k_phase c \<or> k_done c' \<noteq> k_done c"

lemma moved_wakes:
  assumes "kle c c'" and "phase_moved c c'" and "\<not> k_done c" and "k_wake c = Some ch"
  shows "ch \<in> k_fired c'"
  using kleD(10) [OF assms(1,3,4)] assms(2) by (auto simp: phase_moved_def quiet_def)

text \<open>The end of a goroutine's part in the I/O moves the handshake.\<close>

lemma io_end_moves:
  assumes st: "tstep eager u s s'" and i: "kinv s" and io: "in_io (ks_pc s u)" "\<not> in_io (ks_pc s' u)" and nd: "\<not> k_done (ks_c s)"
  shows "phase_moved (ks_c s) (ks_c s')"
  using st
proof cases
  case (run_io call he ctxErr b n werr std bd c r)
  have "k_phase (ks_c s) = phSending" "\<not> early (ks_c s)"
    using onlyD [OF kinvD(4) [OF i], of u] kinvD(2) [OF i, of u] run_io(2) by simp_all
  from runEnd_ok(5) [OF kinvD(1) [OF i] this run_io(3)] show ?thesis using run_io(1) nd by (simp add: phase_moved_def)
next
  case (sent call n werr c k r)
  have "k_phase (ks_c s) = phSending" "early (ks_c s)"
    using onlyD [OF kinvD(4) [OF i], of u] kinvD(2) [OF i, of u] sent(2) by simp_all
  then show ?thesis using sendEnd_ok(3) [OF kinvD(1) [OF i] _ _ sent(3)] sent(1) by (simp add: phase_moved_def)
next
  case (read_io call dl he now ctxErr st bd c r)
  have "early (ks_c s)" "k_phase (ks_c s) \<noteq> phIdle" using kinvD(2) [OF i, of u] read_io(2) by simp_all
  then show ?thesis using readEnd_ok(4) [OF kinvD(1) [OF i] _ _ read_io(4)] read_io(1) nd by (simp add: phase_moved_def)
qed (use io in \<open>auto simp: in_io_def\<close>)

lemma only_ex: "only P pcs True \<Longrightarrow> \<exists>t. P (pcs t)"
  by (auto simp: only_def)

text \<open>C26: No call waits for nothing. A goroutine that is blocked on a channel that is still open either waits for the
  first \<open>Write\<close> of a \<open>ModeEarly\<close> conn, as documented (nothing was sent, the handshake is not over, the conn is not
  closed), or some other goroutine is writing the handshake or reading the replies, and whatever way its I/O
  ends, the step that ends it closes the channel.\<close>

theorem no_call_waits_forever:
  assumes "kreachable eager (newClient True loc rem dlok target cfg rt ht perr) s"
    and "waits_on (ks_pc s t) = Some ch" and "ch \<notin> k_fired (ks_c s)"
  shows "(k_phase (ks_c s) = phIdle \<and> \<not> k_done (ks_c s) \<and> \<not> k_closed (ks_c s))
    \<or> (\<exists>u. in_io (ks_pc s u) \<and> (\<forall>s'. tstep eager u s s' \<longrightarrow> in_io (ks_pc s' u) \<or> ch \<in> k_fired (ks_c s')))"
proof -
  note i = kreachable_inv [OF assms(1)]
  let ?c = "ks_c s"
  have wake: "k_wake ?c = Some ch" "\<not> k_done ?c"
    using kinvD(3) [OF i, of t] assms(2,3) by (cases "ks_pc s t"; auto simp: read_blocked_def)+
  have "(k_phase ?c = phIdle \<and> \<not> k_closed ?c) \<or> (\<exists>u. in_io (ks_pc s u))"
  proof (cases "k_phase ?c = phSending \<or> k_busy ?c")
    case True
    then have "(\<exists>u. is_sender (ks_pc s u)) \<or> (\<exists>u. is_reader (ks_pc s u))"
      using only_ex [of is_sender "ks_pc s"] only_ex [of is_reader "ks_pc s"] kinvD(4,5) [OF i] by auto
    then show ?thesis by (auto simp: in_io_def)
  next
    case False
    have "k_phase ?c = phSent \<Longrightarrow> early ?c" using kc_invD(12) [OF kinvD(1) [OF i]] wake(2) by blast
    then show ?thesis
      using kinvD(2,3) [OF i, of t] assms(2,3) False
      by (cases "ks_pc s t"; cases "k_phase ?c") (auto simp: read_blocked_def split: if_splits)
  qed
  then show ?thesis
  proof (elim disjE exE)
    fix u assume u: "in_io (ks_pc s u)"
    have "in_io (ks_pc s' u) \<or> ch \<in> k_fired (ks_c s')" if st: "tstep eager u s s'" for s'
      using moved_wakes [OF tstep_kle [OF st i] _ wake(2,1)] io_end_moves [OF st i u _ wake(2)] by blast
    then show ?thesis using u by blast
  qed (use wake in blast)
qed

section \<open>The outcome is final\<close>

text \<open>The outcome is sticky. Once the handshake is over it stays over, the bound address stays the same, an error
  stays the same for ever; and from a success only the failure of the handshake's own write, still on its
  way when the replies came, can take anything back: after the write the result never changes.\<close>

theorem outcome_is_final:
  assumes "kreachable eager (newClient True loc rem dlok target cfg rt ht perr) s" and "(kstep eager)\<^sup>*\<^sup>* s s'" and "k_done (ks_c s)"
  shows "k_done (ks_c s') \<and> k_bound (ks_c s') = k_bound (ks_c s) \<and> (k_err (ks_c s) \<noteq> None \<longrightarrow> k_err (ks_c s') = k_err (ks_c s))
    \<and> (k_phase (ks_c s) = phSent \<longrightarrow> k_err (ks_c s') = k_err (ks_c s) \<and> k_phase (ks_c s') = phSent)"
  using assms(2)
proof (induction rule: rtranclp_induct)
  case base
  then show ?case using assms(3) by simp
next
  case (step y z)
  have i: "kinv y" using kreachable_inv [OF rtranclp_trans [OF assms(1) step(1)]] .
  note k = kleD [OF kstep_kle [OF step(2) i]]
  show ?case using step(3) k(2,3,5,6,7) by (auto simp: phase_le_def)
qed

section \<open>What goes over the conn first\<close>

text \<open>A section that ends no handshake successfully and leaves the messages alone.\<close>

definition nosucc :: "kconn \<Rightarrow> kconn \<Rightarrow> bool" where
  "nosucc c c' \<longleftrightarrow> (k_done c' \<longrightarrow> k_done c \<or> k_err c' \<noteq> None) \<and> h_out (k_h c') = h_out (k_h c)"

lemma nosucc_same: "k_done c' = k_done c \<Longrightarrow> k_h c' = k_h c \<Longrightarrow> nosucc c c'"
  by (simp add: nosucc_def)

lemma nosucc_end: "endLocked (Some x) c = (c', hook) \<Longrightarrow> nosucc c c'"
  using endLocked_sel [of "Some x" c c' hook] by (simp add: nosucc_def)

lemma nosucc_waiting: "waiting c = (c', r) \<Longrightarrow> nosucc c c'"
  by (auto simp: waiting_def waitLocked_def nosucc_def split: prod.splits option.splits)

lemma nosucc_settle:
  assumes "settleLocked c = (c', hook)"
  shows "nosucc c c'"
  using settle_cases [OF assms]
proof (elim disjE conjE exE)
  fix c1 assume ab: "k_abortErr c \<noteq> None" and e: "endLocked (blame 0 None (k_abortErr c) None None c) c = (c1, hook)" and c': "c' = broadcastLocked c1"
  obtain x where "blame 0 None (k_abortErr c) None None c = Some x" using ab blame_cause by fastforce
  then have "nosucc c c1" using e nosucc_end by simp
  then show ?thesis by (simp add: nosucc_def c')
qed (simp add: nosucc_def)

lemma nosucc_settleUnlock: "nosucc c (settleUnlock c)"
  using nosucc_settle [of c] by (cases "settleLocked c") (simp add: settleUnlock_def nosucc_def)

lemma nosucc_abort: "nosucc c (abortWith e c)"
  using nosucc_settleUnlock [of "unblock (c\<lparr>k_abortErr := Some e\<rparr>)"]
  by (auto simp: abortWith_def nosucc_def unblock_def split: if_splits)

lemma nosucc_Close: "nosucc c (fst (Conn_Close cerr c))"
  using nosucc_settleUnlock [of "storeReadyLocked (c\<lparr>k_closed := True, k_abortErr := Some (ESent NetErrClosed)\<rparr>)"]
    nosucc_settleUnlock [of "storeReadyLocked (c\<lparr>k_closed := True\<rparr>)"]
  by (auto simp: Conn_Close_def nosucc_def Let_def)

lemma nosucc_claimRun:
  assumes "claimRunLocked op c = (c', r)"
  shows "nosucc c c'"
proof (cases "checkLocked op c = None \<and> \<not> k_done c \<and> k_phase c = phIdle \<and> k_abortErr c \<noteq> None")
  case True
  then obtain a where a: "k_abortErr c = Some a" by auto
  obtain c1 hk where e: "endLocked (Some (writeStage 0 (k_h c), a)) c = (c1, hk)" by fastforce
  then have "c' = c1" using assms True a by (auto simp: claimRunLocked_def Let_def)
  then show ?thesis using nosucc_end [OF e] by simp
next
  case False
  then show ?thesis
    using assms nosucc_waiting [of c c' r]
    by (auto simp: claimRunLocked_def claimLocked_def nosucc_def split: option.splits if_splits)
qed

lemma nosucc_kclaim: "kclaim op c = (c', r) \<Longrightarrow> nosucc c c'"
  by (auto simp: kclaim_def Let_def nosucc_def claimLocked_def split: if_splits)

lemma nosucc_sendEnd:
  assumes "sendEnd m werr c = (c', k, e)"
  shows "nosucc c c'"
proof (cases "m < length (h_out (k_h c)) \<and> werr \<noteq> None")
  case True
  then obtain x where x: "werr = Some x" "m < length (h_out (k_h c))" by auto
  let ?c1 = "c\<lparr>k_phase := phSent\<rparr>"
  let ?he = "blame 0 (Some (writeStage m (k_h ?c1), x)) (k_abortErr ?c1) None None ?c1"
  obtain st where he: "?he = Some st" using blame_some by blast
  obtain c2 hk where e: "endLocked ?he ?c1 = (c2, hk)" by fastforce
  have c': "c' = unlockDone (if k_err c2 = None then storeReadyLocked (c2\<lparr>k_err := Some (opError c2 st)\<rparr>) else c2, hk \<or> k_done c)"
    using assms x by (simp add: sendEnd_def Let_def he [simplified] e [unfolded he, simplified] cong: if_cong)
  show ?thesis using endLocked_sel(2,5,8) [OF e] by (auto simp: nosucc_def c')
next
  case False
  obtain c2 hk where e: "settleLocked (storeReadyLocked (c\<lparr>k_phase := phSent\<rparr>)) = (c2, hk)" by fastforce
  have "c' = unlockDone (c2, hk \<or> k_done c)"
    using assms False e by (auto simp: sendEnd_def Let_def)
  then show ?thesis using nosucc_settle [OF e] by (simp add: nosucc_def)
qed

lemma nosucc_read: "nosucc c (fst (read_section call dl c))"
proof -
  have s: "nosucc c c'" if "claimReadLocked op c = (c', r)" for op c' r
    using that nosucc_waiting [of c c' r] nosucc_settleUnlock [of c]
    by (auto simp: claimReadLocked_def nosucc_def split: option.splits if_splits)
  obtain c1 r where r: "claimReadLocked (op_of call) c = (c1, r)" by fastforce
  have h: "k_h (setReplyDeadlineLocked dl c1) = k_h c1" "k_done (setReplyDeadlineLocked dl c1) = k_done c1" "k_err (setReplyDeadlineLocked dl c1) = k_err c1"
    by (simp_all add: setReplyDeadlineLocked_def Let_def)
  show ?thesis using s [OF r] r h by (cases r) (simp_all add: read_section_def readStart_def nosucc_def)
qed

lemma nosucc_await: "nosucc c (fst (await_section now call c))"
proof -
  obtain c1 r where r: "waitClaimedLocked now (op_of call) c = (c1, r)" by fastforce
  have "nosucc c c1" "r = ClGo \<Longrightarrow> c1 = c"
    using r nosucc_waiting [of c c1 r] by (auto simp: waitClaimedLocked_def nosucc_def waiting_def split: if_splits prod.splits)
  then show ?thesis using r nosucc_read [of c call "replyDeadlineAt now (has_deadline call) c"]
    by (cases r) (simp_all add: await_section_def)
qed

lemma nosucc_written: "nosucc c (fst (written_section call c))"
  using nosucc_waiting [of c]
  by (auto simp: written_section_def waitWritten_def nosucc_def split: prod.splits if_splits)

text \<open>The order of the writes, for a proxy that does not answer before it was spoken to.\<close>

definition log_ok :: "bytes \<Rightarrow> bool \<Rightarrow> (bool \<times> bytes) list \<Rightarrow> bool" where
  "log_ok out0 w ws \<longleftrightarrow> (if w then \<exists>b r. ws = (True, b) # r \<and> (\<forall>x \<in> set r. \<not> fst x) \<and> (\<exists>n d. b = take n (out0 @ d)) else ws = [])"

definition winv :: "bytes \<Rightarrow> ksys \<Rightarrow> bool" where
  "winv out0 s \<longleftrightarrow>
     kinv s \<and> early (ks_c s)
   \<and> log_ok out0 (wrote (ks_c s) (ks_pc s)) (k_writes (ks_c s))
   \<and> (\<forall>t call b. ks_pc s t = PWriting call b \<longrightarrow> wrote (ks_c s) (ks_pc s))
   \<and> (k_done (ks_c s) \<and> k_err (ks_c s) = None \<longrightarrow> wrote (ks_c s) (ks_pc s))
   \<and> (\<not> wrote (ks_c s) (ks_pc s) \<longrightarrow> h_out (k_h (ks_c s)) = out0)"

lemma winvD:
  assumes "winv out0 s"
  shows "kinv s" and "early (ks_c s)" and "log_ok out0 (wrote (ks_c s) (ks_pc s)) (k_writes (ks_c s))"
    and "ks_pc s t = PWriting call b \<Longrightarrow> wrote (ks_c s) (ks_pc s)"
    and "k_done (ks_c s) \<Longrightarrow> k_err (ks_c s) = None \<Longrightarrow> wrote (ks_c s) (ks_pc s)"
    and "\<not> wrote (ks_c s) (ks_pc s) \<Longrightarrow> h_out (k_h (ks_c s)) = out0"
  using assms unfolding winv_def by iprover+

fun is_writing :: "kpc \<Rightarrow> bool" where
  "is_writing (PWriting call b) = True"
| "is_writing p = False"

text \<open>A step that writes nothing.\<close>

lemma winv_quiet:
  assumes v: "winv out0 s" and i': "kinv s'" and k: "kle (ks_c s) (ks_c s')" and n: "nosucc (ks_c s) (ks_c s')"
    and w: "k_writes (ks_c s') = k_writes (ks_c s)" and wr: "wrote (ks_c s') (ks_pc s') = wrote (ks_c s) (ks_pc s)"
    and pc: "\<And>u. is_writing (ks_pc s' u) \<Longrightarrow> is_writing (ks_pc s u) \<or> wrote (ks_c s) (ks_pc s)"
  shows "winv out0 s'"
proof -
  have "wrote (ks_c s) (ks_pc s)" if "k_done (ks_c s')" "k_err (ks_c s') = None"
  proof -
    have d: "k_done (ks_c s)" using n that by (auto simp: nosucc_def)
    have "k_err (ks_c s) = None" using kleD(5) [OF k] that(2) by (cases "k_err (ks_c s)") auto
    then show ?thesis using winvD(5) [OF v] d by simp
  qed
  moreover have "wrote (ks_c s) (ks_pc s)" if "ks_pc s' t = PWriting call b" for t call b
    using pc [of t] that winvD(4) [OF v] by (cases "ks_pc s t") auto
  moreover have "early (ks_c s')" using winvD(2) [OF v] kleD(1) [OF k] by simp
  moreover have "h_out (k_h (ks_c s')) = h_out (k_h (ks_c s))" using n by (simp add: nosucc_def)
  ultimately show ?thesis
    using i' winvD(3,6) [OF v] unfolding winv_def wr w by auto
qed

lemma wrote_same_at:
  assumes "k_phase c' = k_phase (ks_c s)" and "is_sent p = is_sent (ks_pc s t)"
  shows "wrote c' ((ks_pc s)(t := p)) = wrote (ks_c s) (ks_pc s)"
proof -
  have "is_sent (((ks_pc s)(t := p)) u) = is_sent (ks_pc s u)" for u using assms(2) by simp
  then show ?thesis unfolding wrote_def assms(1) by simp
qed

lemma not_writing: "\<not> is_writing p \<Longrightarrow> is_writing (((ks_pc s)(t := p)) u) \<Longrightarrow> is_writing (ks_pc s u)"
  by (auto split: if_splits)

text \<open>Where a call starts to write its data, the handshake is written.\<close>

lemma start_writing:
  assumes "kinv s" and "start_call call ctxErr (ks_c s) = (c', p)" and "is_writing p"
  shows "wrote (ks_c s) (ks_pc s)"
  using assms kc_invD(3) [OF kinvD(1) [OF assms(1)]]
  by (cases call) (auto simp: wrote_def split: if_splits option.splits)

lemma written_writing:
  assumes v: "winv out0 s" and "is_writing (snd (written_section call (ks_c s)))"
  shows "wrote (ks_c s) (ks_pc s)"
proof -
  have "k_err (ks_c s) = None \<and> (k_phase (ks_c s) = phSent \<or> k_done (ks_c s))"
    using assms(2)
    by (auto simp: written_section_def waitWritten_def with_wait_def waiting_def after_ret_def checkLocked_None
        split: prod.splits if_splits option.splits)
  then show ?thesis using winvD(5) [OF v] by (auto simp: wrote_def)
qed

lemma start_call_nosucc: "nosucc c (fst (start_call call ctxErr c)) \<and> k_writes (fst (start_call call ctxErr c)) = k_writes c \<and>
   k_phase (fst (start_call call ctxErr c)) = k_phase c" if "kc_inv c"
proof -
  obtain c' p where r: "start_call call ctxErr c = (c', p)" by fastforce
  have "nosucc c c'"
    using r nosucc_abort [of c] nosucc_same [of c c] by (cases call) (auto split: if_splits option.splits)
  then show ?thesis using start_call_ok [OF that r] r by (simp add: sec_def)
qed

lemma winv_read_section:
  assumes v: "winv out0 s" and p: "no_role (ks_pc s t)" and n: "k_phase (ks_c s) \<noteq> phIdle \<or> k_done (ks_c s) \<or> k_closed (ks_c s)"
  shows "winv out0 (at t s (read_section call dl (ks_c s)))"
proof -
  note i = winvD(1) [OF v] and e = winvD(2) [OF v]
  obtain c' r where r: "readStart (op_of call) dl (ks_c s) = (c', r)" by fastforce
  note s = readStart_ok [OF kinvD(1) [OF i] e n r]
  let ?q = "with_wait (\<lambda>ch. PReadWait call ch dl) (PReading call dl) (PRead call dl) (PDone call) r"
  have q: "read_section call dl (ks_c s) = (c', ?q)" using r by (simp add: read_section_def)
  have nq: "\<not> is_sent ?q" "\<not> is_writing ?q" by (cases r; simp add: with_wait_def)+
  show ?thesis
  proof (rule winv_quiet [OF v read_section_ok [OF i e n p]])
    show "kle (ks_c s) (ks_c (at t s (read_section call dl (ks_c s))))" "k_writes (ks_c (at t s (read_section call dl (ks_c s)))) = k_writes (ks_c s)"
      using s(1) by (simp_all add: q sec_def)
    show "nosucc (ks_c s) (ks_c (at t s (read_section call dl (ks_c s))))" using nosucc_read by simp
    show "wrote (ks_c (at t s (read_section call dl (ks_c s)))) (ks_pc (at t s (read_section call dl (ks_c s)))) = wrote (ks_c s) (ks_pc s)"
      using wrote_same_at [of c' s ?q t] s(2) nq no_roleD(3) [OF p] by (simp add: q)
  qed (use nq not_writing in \<open>auto simp: q\<close>)
qed

lemma winv_await_section:
  assumes v: "winv out0 s" and p: "ks_pc s t = PAwait call"
  shows "winv out0 (at t s (await_section now call (ks_c s)))"
proof -
  note i = winvD(1) [OF v] and e = winvD(2) [OF v]
  obtain c' r where r: "waitClaimedLocked now (op_of call) (ks_c s) = (c', r)" by fastforce
  note s = waitClaimed_ok [OF kinvD(1) [OF i] e r]
  show ?thesis
  proof (cases "r = ClGo")
    case True
    then have "k_phase (ks_c s) \<noteq> phIdle \<or> k_done (ks_c s) \<or> k_closed (ks_c s)" "c' = ks_c s" using s by simp_all
    then show ?thesis
      using winv_read_section [OF v, of t] p r True by (simp add: await_section_def)
  next
    case False
    let ?q = "with_wait (\<lambda>ch. PAwaitWait call ch (k_readDeadline (ks_c s))) (PAwait call) (PAwait call) (PDone call) r"
    have q: "await_section now call (ks_c s) = (c', ?q)" using r False by (cases r) (simp_all add: await_section_def)
    have nq: "\<not> is_sent ?q" "\<not> is_writing ?q" by (cases r; simp add: with_wait_def)+
    show ?thesis
    proof (rule winv_quiet [OF v await_section_ok [OF i p]])
      show "kle (ks_c s) (ks_c (at t s (await_section now call (ks_c s))))" "k_writes (ks_c (at t s (await_section now call (ks_c s)))) = k_writes (ks_c s)"
        using s by (simp_all add: q sec_def)
      show "nosucc (ks_c s) (ks_c (at t s (await_section now call (ks_c s))))" using nosucc_await by simp
      show "wrote (ks_c (at t s (await_section now call (ks_c s)))) (ks_pc (at t s (await_section now call (ks_c s)))) = wrote (ks_c s) (ks_pc s)"
        using wrote_same_at [of c' s ?q t] s nq p by (simp add: q)
    qed (use nq not_writing in \<open>auto simp: q\<close>)
  qed
qed

lemma winv_same_c:
  assumes v: "winv out0 s" and i': "kinv (at t s (ks_c s, p))" and "is_sent p = is_sent (ks_pc s t)" and "\<not> is_writing p"
  shows "winv out0 (at t s (ks_c s, p))"
  by (rule winv_quiet [OF v i'])
    (use wrote_same_at [of "ks_c s" s p t] assms(3,4) not_writing nosucc_same in \<open>auto simp: nosucc_def\<close>)

lemma winv_send_io:
  assumes v: "winv out0 s" and p: "ks_pc s t = PSending call" and i': "kinv (at t s (sendWrote (h_out (k_h (ks_c s)) @ d) n w (ks_c s), PSent call n w))"
  shows "winv out0 (at t s (sendWrote (h_out (k_h (ks_c s)) @ d) n w (ks_c s), PSent call n w))"
proof -
  note i = winvD(1) [OF v]
  have ph: "k_phase (ks_c s) = phSending" using onlyD [OF kinvD(4) [OF i], of t] p by simp
  have "\<not> is_sent (ks_pc s u)" for u
    using only_unique [OF kinvD(4) [OF i], of t u] p by (cases "ks_pc s u") auto
  then have nw: "\<not> wrote (ks_c s) (ks_pc s)" using ph by (simp add: wrote_def)
  have w': "wrote (sendWrote x n w (ks_c s)) ((ks_pc s)(t := PSent call n w))" for x by (auto simp: wrote_def intro: exI [of _ t])
  have "k_writes (ks_c s) = []" "h_out (k_h (ks_c s)) = out0" using winvD(3,6) [OF v] nw by (simp_all add: log_ok_def)
  then have "log_ok out0 True (k_writes (sendWrote (h_out (k_h (ks_c s)) @ d) n w (ks_c s)))" by (auto simp: log_ok_def)
  then show ?thesis using i' w' winvD(2) [OF v] by (auto simp: winv_def)
qed

lemma winv_read_io:
  assumes v: "winv out0 s" and p: "ks_pc s t = PReading call dl" and g: "he = None \<longrightarrow> k_writes (ks_c s) \<noteq> []"
    and r: "readEnd (op_of call) now he ctxErr dl (io_leaves st bd (ks_c s)) = (c', e)"
  shows "winv out0 (at t s (c', PDone call e))"
proof -
  note i = winvD(1) [OF v] and ea = winvD(2) [OF v]
  have n: "k_phase (ks_c s) \<noteq> phIdle" using kinvD(2) [OF i, of t] p by simp
  note s = readEnd_ok [OF kinvD(1) [OF i] ea n r]
  have k: "kle (ks_c s) c'" "k_writes c' = k_writes (ks_c s)" using s(1) by (simp_all add: sec_def)
  have h: "h_out (k_h c') = h_out (k_h (ks_c s))"
    using r endLocked_sel(2) by (fastforce simp: readEnd_def Let_def split: prod.splits)
  have wr: "wrote c' ((ks_pc s)(t := PDone call e)) = wrote (ks_c s) (ks_pc s)"
    using wrote_same_at [of c' s "PDone call e" t] s(2) p by simp
  have d: "wrote (ks_c s) (ks_pc s)" if "k_err c' = None"
  proof (cases "k_done (ks_c s)")
    case True
    have "k_err (ks_c s) = None" using kleD(5) [OF k(1)] that by (cases "k_err (ks_c s)") auto
    then show ?thesis using winvD(5) [OF v True] by simp
  next
    case False
    then have "k_writes (ks_c s) \<noteq> []" using s(5) [OF that] g by simp
    then show ?thesis using winvD(3) [OF v] by (auto simp: log_ok_def split: if_splits)
  qed
  have "wrote (ks_c s) (ks_pc s)" if "((ks_pc s)(t := PDone call e)) u = PWriting x b" for u x b
    using that winvD(4) [OF v] by (auto split: if_splits)
  then show ?thesis
    using read_io_ok [OF i p r] winvD(3,6) [OF v] kleD(1) [OF k(1)] ea d h by (auto simp: winv_def wr k(2))
qed

lemma log_ok_snoc:
  assumes "log_ok out0 True ws"
  shows "log_ok out0 True (ws @ [(False, x)])"
proof -
  obtain b r n d where "ws = (True, b) # r" "\<forall>x \<in> set r. \<not> fst x" "b = take n (out0 @ d)"
    using assms unfolding log_ok_def if_True by blast
  then have "ws @ [(False, x)] = (True, b) # (r @ [(False, x)])" "\<forall>y \<in> set (r @ [(False, x)]). \<not> fst y" "b = take n (out0 @ d)"
    by simp_all
  then show ?thesis unfolding log_ok_def if_True by blast
qed

lemma winv_write_io:
  assumes v: "winv out0 s" and p: "ks_pc s t = PWriting call b"
  shows "winv out0 (at t s ((ks_c s)\<lparr>k_writes := k_writes (ks_c s) @ [(False, take n b)]\<rparr>, PDone call e))"
proof -
  let ?c' = "(ks_c s)\<lparr>k_writes := k_writes (ks_c s) @ [(False, take n b)]\<rparr>"
  have w: "wrote (ks_c s) (ks_pc s)" using winvD(4) [OF v p] .
  have wr: "wrote ?c' ((ks_pc s)(t := PDone call e)) = wrote (ks_c s) (ks_pc s)" using wrote_same_at [of ?c' s _ t] p by simp
  have "log_ok out0 True (k_writes ?c')" using log_ok_snoc [of out0 "k_writes (ks_c s)" "take n b"] winvD(3) [OF v] w by simp
  then show ?thesis
    using write_io_ok [OF winvD(1) [OF v] p] winvD(2) [OF v] w by (auto simp: winv_def wr early_def)
qed

lemma nosucc_kclaim': "nosucc c (fst (kclaim op c))"
  using nosucc_kclaim [of op c] by (cases "kclaim op c") simp

lemma winv_sent:
  assumes v: "winv out0 s" and p: "ks_pc s t = PSent call n w" and r: "sendEnd n w (ks_c s) = (c', k, e)"
  shows "winv out0 (at t s (c', after_send call e))"
proof -
  note i = winvD(1) [OF v]
  have ph: "k_phase (ks_c s) = phSending" using onlyD [OF kinvD(4) [OF i], of t] p by simp
  note s = sendEnd_ok [OF kinvD(1) [OF i] winvD(2) [OF v] ph r]
  have W: "wrote (ks_c s) (ks_pc s)" using p by (auto simp: wrote_def intro: exI [of _ t])
  have W': "wrote c' ((ks_pc s)(t := after_send call e))" using s(3) by (simp add: wrote_def)
  show ?thesis
    by (rule winv_quiet [OF v sent_ok [OF i p r]])
      (use s(1) W W' nosucc_sendEnd [OF r] in \<open>simp_all add: sec_def\<close>)
qed

lemma winv_claim:
  assumes v: "winv out0 s" and p: "ks_pc s t = PClaim call" and r: "kclaim (op_of call) (ks_c s) = (c', be)"
  shows "winv out0 (at t s (c', after_claim call be))"
proof -
  note i = winvD(1) [OF v]
  obtain b e where be: "be = (b, e)" by fastforce
  note s = kclaim_ok [OF kinvD(1) [OF i] winvD(2) [OF v] r [unfolded be]]
  have q: "\<not> is_sent (after_claim call be)" "\<not> is_writing (after_claim call be)"
    by (cases b; cases e; cases call; simp add: be after_claim_def)+
  have nw: "k_phase (ks_c s) = phSent \<longleftrightarrow> k_phase c' = phSent" using s(3,4) by (cases b) auto
  have "is_sent (((ks_pc s)(t := after_claim call be)) u) = is_sent (ks_pc s u)" for u using q p by simp
  then have W: "wrote c' ((ks_pc s)(t := after_claim call be)) = wrote (ks_c s) (ks_pc s)"
    unfolding wrote_def nw by simp
  show ?thesis
    by (rule winv_quiet [OF v claim_ok [OF i p r]])
      (use s(1) W q not_writing nosucc_kclaim [OF r] in \<open>auto simp: sec_def\<close>)
qed

lemma winv_written:
  assumes v: "winv out0 s" and p: "ks_pc s t = PWritten call"
  shows "winv out0 (at t s (written_section call (ks_c s)))"
proof -
  note i = winvD(1) [OF v]
  have n: "k_phase (ks_c s) \<noteq> phIdle" using kinvD(2) [OF i, of t] p by simp
  obtain c' r where r: "waitWritten (op_of call) (ks_c s) = (c', r)" by fastforce
  note s = waitWritten_ok [OF kinvD(1) [OF i] winvD(2) [OF v] n r]
  let ?q = "with_wait (PWrittenWait call) (PWritten call) (PWritten call) (after_ret call) r"
  have q: "written_section call (ks_c s) = (c', ?q)" using r by (simp add: written_section_def)
  have nq: "\<not> is_sent ?q"
    by (cases r; cases call) (auto simp: with_wait_def after_ret_def split: option.splits)
  have W: "wrote c' ((ks_pc s)(t := ?q)) = wrote (ks_c s) (ks_pc s)"
    using wrote_same_at [of c' s ?q t] s(2) nq p by simp
  show ?thesis
    by (rule winv_quiet [OF v written_section_ok [OF i p]])
      (use s(1) W q written_writing [OF v, where call = call] nosucc_written [where c = "ks_c s" and call = call] in \<open>auto simp: sec_def split: if_splits\<close>)
qed

lemma winv_call:
  assumes v: "winv out0 s" and p: "ks_pc s t = PIdle \<or> (\<exists>x e. ks_pc s t = PDone x e)"
  shows "winv out0 (at t s (start_call call ctxErr (ks_c s)))"
proof -
  note i = winvD(1) [OF v]
  obtain c' q where r: "start_call call ctxErr (ks_c s) = (c', q)" by fastforce
  note s = start_call_ok [OF kinvD(1) [OF i] r]
  note n = start_call_nosucc [OF kinvD(1) [OF i], of call ctxErr]
  have nq: "\<not> is_sent q" using r by (cases call) (auto split: if_splits option.splits)
  have W: "wrote c' ((ks_pc s)(t := q)) = wrote (ks_c s) (ks_pc s)"
    using wrote_same_at [of c' s q t] n nq p r by auto
  have "kinv (at t s (c', q))" using p s r by (auto intro: kinv_idle [OF i])
  then show ?thesis unfolding r
    by (rule winv_quiet [OF v])
      (use s W r start_writing [OF i r] n in \<open>auto simp: sec_def split: if_splits\<close>)
qed

lemma winv_tstep: "tstep eager t s s' \<Longrightarrow> \<not> eager \<Longrightarrow> winv out0 s \<Longrightarrow> winv out0 s'"
proof (induction rule: tstep.induct)
  case (call s cl ctxErr)
  show ?case using winv_call [OF call(3,1)] .
next
  case (run s cl)
  then show ?case using kinvD(2) [OF winvD(1) [OF run(3)], of t] winvD(2) [OF run(3)] by simp
next
  case (run_woken s cl ch)
  then show ?case using kinvD(2) [OF winvD(1) [OF run_woken(4)], of t] winvD(2) [OF run_woken(4)] by simp
next
  case (run_io s cl he ctxErr b n werr st bd c r)
  then show ?case using kinvD(2) [OF winvD(1) [OF run_io(4)], of t] winvD(2) [OF run_io(4)] by simp
next
  case (source s cl)
  have "is_sent (after_source cl) = is_sent (ks_pc s t)" "\<not> is_writing (after_source cl)"
    using source(1) by (auto simp: after_source_def split: kcall.splits option.splits)
  then show ?case using tstep_inv [OF tstep.source [of s t cl eager] winvD(1)] source by (intro winv_same_c) simp_all
next
  case (claim s cl c r)
  show ?case using winv_claim [OF claim(4,1,2)] .
next
  case (send_io s cl n werr)
  show ?case using winv_send_io [OF send_io(4,1)] send_io_ok [OF winvD(1) [OF send_io(4)] send_io(1)] by blast
next
  case (sent s cl n werr c k r)
  show ?case using winv_sent [OF sent(4,1,2)] .
next
  case (written s cl)
  show ?case using winv_written [OF written(3,1)] .
next
  case (written_woken s cl ch)
  then show ?case using tstep_inv [OF tstep.written_woken [of s t cl ch eager] winvD(1)] by (intro winv_same_c) simp_all
next
  case (await s cl now)
  show ?case using winv_await_section [OF await(3,1)] .
next
  case (await_woken s cl ch dl)
  then show ?case using tstep_inv [OF tstep.await_woken [of s t cl ch dl eager] winvD(1)] by (intro winv_same_c) simp_all
next
  case (read s cl dl)
  then show ?case using kinvD(2) [OF winvD(1) [OF read(3)], of t] by (intro winv_read_section) simp_all
next
  case (read_woken s cl ch dl)
  then show ?case using tstep_inv [OF tstep.read_woken [of s t cl ch dl eager] winvD(1)] by (intro winv_same_c) simp_all
next
  case (read_io s cl dl he now ctxErr st bd c r)
  then show ?case using winv_read_io [OF read_io(5,1) _ read_io(3)] by blast
next
  case (stage s cl dl st)
  let ?c' = "io_leaves st (h_bound (k_h (ks_c s))) (ks_c s)"
  have W: "wrote ?c' ((ks_pc s)(t := PReading cl dl)) = wrote (ks_c s) (ks_pc s)"
    using wrote_same_at [of ?c' s "PReading cl dl" t] stage(1) by simp
  have k: "kle (ks_c s) ?c'" by (rule kle_fieldless) simp_all
  show ?case
    by (rule winv_quiet [OF stage(3) io_kinv [OF winvD(1) [OF stage(3)] stage(1)]])
      (use W k in \<open>auto simp: nosucc_def split: if_splits\<close>)
next
  case (write_io s cl b n werr)
  show ?case using winv_write_io [OF write_io(3,1)] .
qed

lemma winv_estep: "estep s s' \<Longrightarrow> winv out0 s \<Longrightarrow> winv out0 s'"
proof -
  assume st: "estep s s'" and v: "winv out0 s"
  note i = winvD(1) [OF v]
  have "nosucc (ks_c s) (ks_c s') \<and> k_writes (ks_c s') = k_writes (ks_c s) \<and> k_phase (ks_c s') = k_phase (ks_c s) \<and> ks_pc s' = ks_pc s"
    using st
  proof cases
    case (abort e)
    then show ?thesis using nosucc_abort abortWith_ok [OF kinvD(1) [OF i]] by (simp add: sec_def)
  next
    case (close cerr)
    obtain c' e where "Conn_Close cerr (ks_c s) = (c', e)" by fastforce
    then show ?thesis using close nosucc_Close [of "ks_c s" cerr] Conn_Close_ok [OF kinvD(1) [OF i]] by (simp add: sec_def)
  next
    case (read_deadline d)
    then show ?thesis using SetReadDeadline_ok [OF kinvD(1) [OF i], of d] by (simp add: sec_def SetReadDeadline_def nosucc_def Let_def)
  next
    case (write_deadline d)
    then show ?thesis using SetWriteDeadline_ok [OF kinvD(1) [OF i], of d] by (simp add: sec_def SetWriteDeadline_def nosucc_def)
  qed
  then show ?thesis
    by (intro winv_quiet [OF v estep_inv [OF st i] estep_kle [OF st i]]) (auto simp: wrote_def)
qed

lemma winv_kstep: "kstep False s s' \<Longrightarrow> winv out0 s \<Longrightarrow> winv out0 s'"
  using winv_tstep [where eager = False] winv_estep unfolding kstep_def by blast

lemma newClient_winv:
  assumes "early (newClient True loc rem dlok target cfg rt ht perr)"
  shows "winv (h_out (k_h (newClient True loc rem dlok target cfg rt ht perr))) (kstart (newClient True loc rem dlok target cfg rt ht perr))"
proof -
  let ?c0 = "(kconn0 True loc rem dlok)\<lparr>k_h := (k_h (kconn0 True loc rem dlok))\<lparr>h_target := target\<rparr>\<rparr>"
  obtain c1 e where k: "kinit cfg rt ht CmdConnect target ?c0 = (c1, e)" by fastforce
  have s: "k_phase c1 = phIdle" "\<not> k_busy c1" "\<not> k_done c1" "k_writes c1 = []"
    using k by (auto simp: kinit_def kconn0_def Let_def split: sum.splits)
  let ?c = "newClient True loc rem dlok target cfg rt ht perr"
  have c: "?c = (case (if perr \<noteq> None then perr else e) of Some x \<Rightarrow> failLocked (StageConfig, x) c1 | None \<Rightarrow> c1)"
    using k by (simp add: newClient_def Let_def)
  have "k_writes ?c = [] \<and> k_phase ?c = phIdle \<and> \<not> (k_done ?c \<and> k_err ?c = None)"
    unfolding c using s by (simp add: failLocked_sel split: option.splits)
  then show ?thesis using newClient_inv [of loc rem dlok target cfg rt ht perr] assms
    by (auto simp: winv_def kstart_def log_ok_def wrote_def)
qed

lemma kreachable_winv:
  assumes "kreachable False c0 s" and "c0 = newClient True loc rem dlok target cfg rt ht perr" and "early c0"
  shows "winv (h_out (k_h c0)) s"
  using assms(1)
proof (induction rule: rtranclp_induct)
  case base
  then show ?case using newClient_winv assms(2,3) by simp
next
  case (step y z)
  then show ?case using winv_kstep by blast
qed

text \<open>C27: Data never overtakes the handshake. In \<open>ModeEarly\<close>, against a proxy that does not send its success before it got
  anything, whatever the goroutines of the client do, the first write of the conn begins with the handshake that the
  constructor built, and it alone does: every later write is plain data.\<close>

theorem handshake_goes_first:
  assumes "kreachable False c0 s" and "c0 = newClient True loc rem dlok target cfg rt ht perr" and "early c0"
  shows "k_writes (ks_c s) = [] \<or> (\<exists>n d r. k_writes (ks_c s) = (True, take n (h_out (k_h c0) @ d)) # r \<and> (\<forall>x \<in> set r. \<not> fst x))"
  using winvD(3) [OF kreachable_winv [OF assms]] unfolding log_ok_def by (auto split: if_splits simp del: take_append)

section \<open>Why it failed\<close>

lemma expired_cong: "k_readDeadline c' = k_readDeadline c \<Longrightarrow> expired now e dl c' = expired now e dl c"
  by (simp add: expired_def)

lemma opError_cong:
  "k_op c' = k_op c \<Longrightarrow> k_network c' = k_network c \<Longrightarrow> k_proxyAddr c' = k_proxyAddr c \<Longrightarrow> k_hasConn c' = k_hasConn c
   \<Longrightarrow> k_remote c' = k_remote c \<Longrightarrow> h_target (k_h c') = h_target (k_h c) \<Longrightarrow> opError c' x = opError c x"
  by (simp add: opError_def kproxy_def cong: option.case_cong sum.case_cong if_cong)

text \<open>The error a handshake fails with: \<open>he\<close> is what its I/O came back with, if any was going on, \<open>cause\<close> the interruption
  (a cancellation, a timer, \<open>Close\<close>) that was recorded, \<open>late\<close> says that a timeout was that of the reply deadline,
  and \<open>st\<close> is the stage the reader was in.\<close>

definition why :: "hs_error \<Rightarrow> error option \<Rightarrow> bool \<Rightarrow> string \<Rightarrow> hs_error" where
  "why he cause late st =
     (case he of
        Some (sg, e) \<Rightarrow>
          Some (sg, if isServerMsgErr e then e
                    else case cause of Some x \<Rightarrow> x | None \<Rightarrow> if late then ESent OsErrDeadlineExceeded else e)
      | None \<Rightarrow> map_option (Pair st) cause)"

text \<open>The steps that end a handshake: of goroutine \<open>t\<close> when its reading (\<open>read\<close>), its whole handshake (\<open>run\<close>) or its
  writing (\<open>send\<close>, \<open>sent\<close>) comes back, when it is to begin after an interruption (\<open>unstarted\<close>), or of the interruption itself
  when no goroutine is at work (\<open>abort\<close>, \<open>close\<close>).\<close>

inductive hs_end :: "nat \<Rightarrow> ksys \<Rightarrow> ksys \<Rightarrow> hs_error \<Rightarrow> error option \<Rightarrow> bool \<Rightarrow> string \<Rightarrow> bool" for t s where
  read:
    "ks_pc s t = PReading call dl \<Longrightarrow> readEnd (op_of call) now he ctxErr dl (io_leaves st bd (ks_c s)) = (c, r)
     \<Longrightarrow> hs_end t s (at t s (c, PDone call r)) he (if k_abortErr (ks_c s) = None then ctxErr else k_abortErr (ks_c s))
           (case he of Some (sg, e) \<Rightarrow> expired now e dl (ks_c s) | None \<Rightarrow> False) st"
| run:
    "ks_pc s t = PRunning call \<Longrightarrow> runEnd (op_of call) he ctxErr (runWrote b n werr (io_leaves st bd (ks_c s))) = (c, r)
     \<Longrightarrow> hs_end t s (at t s (c, after_ret call r)) he (if k_abortErr (ks_c s) = None then ctxErr else k_abortErr (ks_c s)) False st"
| send:
    "ks_pc s t = PSent call n (Some e) \<Longrightarrow> n < length (h_out (k_h (ks_c s))) \<Longrightarrow> sendEnd n (Some e) (ks_c s) = (c, k, r)
     \<Longrightarrow> hs_end t s (at t s (c, after_send call r)) (Some (writeStage n (k_h (ks_c s)), e)) (k_abortErr (ks_c s)) False st"
| sent:
    "ks_pc s t = PSent call n werr \<Longrightarrow> werr = None \<or> \<not> n < length (h_out (k_h (ks_c s))) \<Longrightarrow> sendEnd n werr (ks_c s) = (c, k, r)
     \<Longrightarrow> \<not> k_busy (ks_c s)
     \<Longrightarrow> hs_end t s (at t s (c, after_send call r)) None (k_abortErr (ks_c s)) False (h_readStage (k_h (ks_c s)))"
| unstarted:
    "ks_pc s t = PRun call \<Longrightarrow> k_phase (ks_c s) = phIdle \<Longrightarrow> \<not> k_closed (ks_c s) \<Longrightarrow> k_abortErr (ks_c s) = Some e
     \<Longrightarrow> hs_end t s (at t s (run_section call (ks_c s))) (Some (writeStage 0 (k_h (ks_c s)), e)) (Some e) False st"
| abort:
    "k_phase (ks_c s) = phSent \<Longrightarrow> \<not> k_busy (ks_c s) \<Longrightarrow> k_abortErr (ks_c s) = None
     \<Longrightarrow> hs_end t s (s\<lparr>ks_c := abortWith e (ks_c s)\<rparr>) None (Some e) False (h_readStage (k_h (ks_c s)))"
| close:
    "k_phase (ks_c s) = phSent \<Longrightarrow> \<not> k_busy (ks_c s) \<Longrightarrow> k_abortErr (ks_c s) = None \<Longrightarrow> \<not> k_closed (ks_c s)
     \<Longrightarrow> hs_end t s (s\<lparr>ks_c := fst (Conn_Close cerr (ks_c s))\<rparr>) None (Some (ESent NetErrClosed)) False
           (h_readStage (k_h (ks_c s)))"

lemma hs_end_err_core:
  assumes "endLocked (blame now he cause dl x c1) c1 = (c2, hk)" and "\<not> k_done c1" and "k_err c1 = None"
    and o: "\<And>y. opError c1 y = opError c y" and st: "he = None \<Longrightarrow> h_readStage (k_h c1) = st"
    and late: "late = (case he of Some (sg, e) \<Rightarrow> x = Some (ESent OsErrDeadlineExceeded) \<and> expired now e dl c1 | None \<Rightarrow> False)"
    and x: "x = None \<or> x = Some (ESent OsErrDeadlineExceeded)"
  shows "k_err c2 = map_option (opError c) (why he cause late st)"
  using endLocked_sel(8) [OF assms(1)] assms(2,3) st late x
  unfolding blame_def why_def by (cases he; cases cause) (auto simp: o split: if_splits)

lemma opError_io [simp]:
  "opError (io_leaves st bd c) y = opError c y" "opError (runWrote b n w c) y = opError c y"
  "opError (endIOLocked x c) y = opError c y" "opError (clearReplyDeadlineLocked c) y = opError c y"
  "opError (c\<lparr>k_phase := p\<rparr>) y = opError c y" "opError (storeReadyLocked c) y = opError c y"
  "opError (c\<lparr>k_abortErr := a\<rparr>) y = opError c y" "opError (c\<lparr>k_closed := b0\<rparr>) y = opError c y" "opError (unblock c) y = opError c y"
  "k_h (unblock c) = k_h c" "k_abortErr (unblock c) = k_abortErr c" "k_phase (unblock c) = k_phase c" "k_busy (unblock c) = k_busy c"
  "k_done (unblock c) = k_done c" "k_err (unblock c) = k_err c"
  by ((rule opError_cong)?; simp add: io_leaves_def runWrote_def sendWrote_def wipe_def endIOLocked_def clearReplyDeadlineLocked_def
      storeReadyLocked_def unblock_def Let_def)+

lemma settleUnlock_err:
  assumes "k_abortErr c1 = Some a" and "k_phase c1 = phSent" and "\<not> k_busy c1" and "\<not> k_done c1" and "k_err c1 = None"
    and "\<And>y. opError c1 y = opError c y"
  shows "k_err (settleUnlock c1) = Some (opError c (h_readStage (k_h c1), a))"
proof -
  obtain c2 hk where e: "endLocked (blame 0 None (k_abortErr c1) None None c1) c1 = (c2, hk)" by fastforce
  have "k_err c2 = map_option (opError c) (why None (k_abortErr c1) False (h_readStage (k_h c1)))"
    by (rule hs_end_err_core [OF e assms(4,5,6)]) simp_all
  then show ?thesis using assms(1-3) e by (simp add: settleUnlock_def settleLocked_def why_def)
qed

lemma abort_err:
  assumes "k_hasConn c" and "\<not> k_done c" and "k_err c = None" and "k_phase c = phSent" and "\<not> k_busy c" and "k_abortErr c = None"
  shows "k_err (abortWith e c) = Some (opError c (h_readStage (k_h c), e))"
proof -
  have "k_err (settleUnlock (unblock (c\<lparr>k_abortErr := Some e\<rparr>)))
      = Some (opError c (h_readStage (k_h (unblock (c\<lparr>k_abortErr := Some e\<rparr>))), e))"
    by (rule settleUnlock_err) (use assms in simp_all)
  then show ?thesis using assms by (simp add: abortWith_def)
qed

lemma close_err:
  assumes "k_hasConn c" and "\<not> k_done c" and "k_err c = None" and "k_phase c = phSent" and "\<not> k_busy c" and "k_abortErr c = None"
    and "\<not> k_closed c"
  shows "k_err (fst (Conn_Close cerr c)) = Some (opError c (h_readStage (k_h c), ESent NetErrClosed))"
proof -
  let ?c = "storeReadyLocked (c\<lparr>k_closed := True, k_abortErr := Some (ESent NetErrClosed)\<rparr>)"
  have "k_err (settleUnlock ?c) = Some (opError c (h_readStage (k_h ?c), ESent NetErrClosed))"
    by (rule settleUnlock_err) (use assms in simp_all)
  then show ?thesis using assms by (simp add: Conn_Close_def Let_def)
qed

lemma readEnd_err:
  assumes "\<not> k_done c" and "k_err c = None" and "readEnd op now he ctxErr dl (io_leaves st bd c) = (c', r)"
  shows "k_err c' = map_option (opError c) (why he (if k_abortErr c = None then ctxErr else k_abortErr c)
    (case he of Some (sg, e) \<Rightarrow> expired now e dl c | None \<Rightarrow> False) st)"
proof -
  let ?c1 = "clearReplyDeadlineLocked (endIOLocked ctxErr (io_leaves st bd c))"
  obtain c2 hk where el: "endLocked (blame now he (k_abortErr ?c1) dl (Some (ESent OsErrDeadlineExceeded)) ?c1) ?c1 = (c2, hk)" by fastforce
  have c': "k_err c' = k_err c2" using assms(3) el by (auto simp: readEnd_def Let_def)
  have f: "k_abortErr ?c1 = (if k_abortErr c = None then ctxErr else k_abortErr c)" "k_readDeadline ?c1 = k_readDeadline c"
      "h_readStage (k_h ?c1) = st"
    by (auto simp: clearReplyDeadlineLocked_def endIOLocked_def io_leaves_def Let_def)
  have "k_err c2 = map_option (opError c) (why he (k_abortErr ?c1) (case he of Some (sg, e) \<Rightarrow> expired now e dl c | None \<Rightarrow> False) st)"
    by (rule hs_end_err_core [OF el]) (use assms f in \<open>simp_all add: expired_cong [OF f(2)] split: option.split prod.split\<close>)
  then show ?thesis unfolding c' f .
qed

lemma runEnd_err:
  assumes "\<not> k_done c" and "k_err c = None" and "runEnd op he ctxErr (runWrote b n werr (io_leaves st bd c)) = (c', r)"
  shows "k_err c' = map_option (opError c) (why he (if k_abortErr c = None then ctxErr else k_abortErr c) False st)"
proof -
  let ?c1 = "(endIOLocked ctxErr (runWrote b n werr (io_leaves st bd c)))\<lparr>k_phase := phSent\<rparr>"
  obtain c2 hk where el: "endLocked (blame 0 he (k_abortErr ?c1) None None ?c1) ?c1 = (c2, hk)" by fastforce
  have c': "k_err c' = k_err c2" using assms(3) el by (auto simp: runEnd_def Let_def)
  have f: "k_abortErr ?c1 = (if k_abortErr c = None then ctxErr else k_abortErr c)" "h_readStage (k_h ?c1) = st"
    by (auto simp: endIOLocked_def runWrote_def sendWrote_def wipe_def io_leaves_def Let_def)
  have "k_err c2 = map_option (opError c) (why he (k_abortErr ?c1) False st)"
    by (rule hs_end_err_core [OF el]) (use assms f in \<open>simp_all split: option.split\<close>)
  then show ?thesis unfolding c' f .
qed

lemma sendEnd_err:
  assumes "\<not> k_done c" and "k_err c = None" and "sendEnd n werr c = (c', k, r)"
  shows "werr = Some e \<Longrightarrow> n < length (h_out (k_h c)) \<Longrightarrow>
      k_err c' = map_option (opError c) (why (Some (writeStage n (k_h c), e)) (k_abortErr c) False st)"
    and "werr = None \<or> \<not> n < length (h_out (k_h c)) \<Longrightarrow> \<not> k_busy c \<Longrightarrow> k_abortErr c = Some a \<Longrightarrow>
      k_err c' = Some (opError c (h_readStage (k_h c), a))"
proof -
  let ?c1 = "c\<lparr>k_phase := phSent\<rparr>"
  show "k_err c' = map_option (opError c) (why (Some (writeStage n (k_h c), e)) (k_abortErr c) False st)"
    if w: "werr = Some e" "n < length (h_out (k_h c))"
  proof -
    obtain c2 hk where el: "endLocked (blame 0 (Some (writeStage n (k_h ?c1), e)) (k_abortErr ?c1) None None ?c1) ?c1 = (c2, hk)" by fastforce
    have k: "k_err c2 = map_option (opError c) (why (Some (writeStage n (k_h ?c1), e)) (k_abortErr ?c1) False st)"
      by (rule hs_end_err_core [OF el]) (use assms in simp_all)
    then have "k_err c2 \<noteq> None" by (simp add: why_def)
    then have "k_err c' = k_err c2" using assms(3) w el by (auto simp: sendEnd_def Let_def)
    then show ?thesis using k by simp
  qed
  show "k_err c' = Some (opError c (h_readStage (k_h c), a))"
    if w: "werr = None \<or> \<not> n < length (h_out (k_h c))" "\<not> k_busy c" "k_abortErr c = Some a"
  proof -
    have "k_err (settleUnlock (storeReadyLocked ?c1)) = Some (opError c (h_readStage (k_h (storeReadyLocked ?c1)), a))"
      by (rule settleUnlock_err) (use assms w in simp_all)
    then show ?thesis using assms(3) w(1) by (auto simp: sendEnd_def settleUnlock_def Let_def split: if_splits prod.splits)
  qed
qed

lemma begin_err:
  assumes "k_hasConn c" and "\<not> k_done c" and "k_err c = None" and "k_phase c = phIdle" and "\<not> k_closed c" and "k_abortErr c = Some e"
  shows "k_err (fst (run_section call c)) = Some (opError c (writeStage 0 (k_h c), e))"
proof -
  obtain c1 hk where el: "endLocked (Some (writeStage 0 (k_h c), e)) c = (c1, hk)" by fastforce
  then have "fst (claimRunLocked (op_of call) c) = c1"
    using assms by (simp add: claimRunLocked_def checkLocked_def Let_def)
  then show ?thesis
    using endLocked_sel(8) [OF el] assms(2) by (simp add: run_section_def case_prod_beta)
qed

lemma hs_end_err:
  assumes "hs_end t s s1 he cause late st" and i: "kc_inv (ks_c s)" and d: "\<not> k_done (ks_c s)" and some: "he \<noteq> None \<or> cause \<noteq> None"
  shows "k_err (ks_c s1) = map_option (opError (ks_c s)) (why he cause late st)"
proof -
  have n: "k_err (ks_c s) = None" using kc_err [OF i d] .
  have hc: "k_hasConn (ks_c s)" using kc_invD(1) [OF i] .
  show ?thesis
    using assms(1)
  proof cases
    case (read call dl now ctxErr bd c r)
    then show ?thesis using readEnd_err [OF d n read(5)] by (simp add: at_def)
  next
    case (run call ctxErr b k werr bd c r)
    then show ?thesis using runEnd_err [OF d n run(5)] by (simp add: at_def)
  next
    case (send call k e c j r)
    then show ?thesis using sendEnd_err(1) [OF d n send(7) refl] by (simp add: at_def)
  next
    case (sent call k werr c j r)
    then show ?thesis using sendEnd_err(2) [OF d n sent(8)] some by (auto simp: at_def why_def)
  next
    case (unstarted call e)
    then show ?thesis using begin_err [OF hc d n] by (simp add: at_def why_def)
  next
    case (abort e)
    then show ?thesis using abort_err [OF hc d n] by (simp add: why_def)
  next
    case (close cerr)
    then show ?thesis using close_err [OF hc d n] by (simp add: why_def)
  qed
qed

text \<open>A call at a critical section that asks for the state of the handshake.\<close>

definition asks :: "kcall \<Rightarrow> kpc \<Rightarrow> bool" where
  "asks call pc = (pc \<in> {PRun call, PClaim call, PWritten call, PAwait call} \<or> (\<exists>dl. pc = PRead call dl))"

lemma asks_answer:
  assumes i: "kc_inv (ks_c s)" and f: "k_err (ks_c s) \<noteq> None" and a: "asks call (ks_pc s u)" and st: "tstep eager u s s'"
  shows "\<exists>e. checkLocked (op_of call) (ks_c s) = Some e \<and> ks_pc s' u = PDone call (Some e)"
proof -
  have d: "k_done (ks_c s)" and hc: "k_hasConn (ks_c s)" using kc_invD(1,4) [OF i] f by blast+
  then obtain e where e: "checkLocked (op_of call) (ks_c s) = Some e"
    using f by (cases "checkLocked (op_of call) (ks_c s)") (auto simp: checkLocked_None)
  have "ks_pc s' u = PDone call (Some e)"
    using st a d e
    by cases (auto simp: asks_def at_def run_section_def claimRunLocked_def kclaim_def after_claim_def written_section_def waitWritten_def
        await_section_def waitClaimedLocked_def read_section_def readStart_def claimReadLocked_def with_wait_def after_ret_def Let_def
        split: prod.splits option.splits)
  then show ?thesis using e by blast
qed

lemma checkLocked_after:
  assumes "kc_inv c" and "checkLocked op c = Some e"
  shows "if k_closed c then IsS e NetErrClosed else k_err c = Some e"
  using assms(2) kc_invD(1) [OF assms(1)] by (auto simp: checkLocked_def connErr_def opError_def split: if_splits)

text \<open>C28: Which error a failed handshake has, and what later calls return. Whichever step ends it (its reading, writing or
  whole run comes back, it was to begin after an interruption, or it is interrupted while nobody works on it), the
  error of the conn is fixed for ever: a message of the proxy stands, whatever was cancelled or closed meanwhile; else the
  interruption is the cause, a cancellation, a timer, \<open>Close\<close> or an ended context, also when the I/O had no
  error; else a timeout is \<open>os.ErrDeadlineExceeded\<close> if it is that of the reply deadline and not the
  caller's; else it is the error of the I/O. The stage is where it stopped. Every call that asks for the handshake at any later time
  ends with that error, as long as the conn is not closed; once it is, also after a message of the proxy, with one
  that matches \<open>net.ErrClosed\<close>.\<close>

theorem why_the_handshake_failed:
  assumes "kreachable eager (newClient True loc rem dlok target cfg rt ht perr) s" and "\<not> k_done (ks_c s)"
    and "kstep eager s s1" and "hs_end t s s1 he cause late st" and "he \<noteq> None \<or> cause \<noteq> None"
    and "(kstep eager)\<^sup>*\<^sup>* s1 s'"
  shows "k_err (ks_c s') = map_option (opError (ks_c s)) (why he cause late st)
    \<and> (\<forall>call u s''. asks call (ks_pc s' u) \<and> tstep eager u s' s'' \<longrightarrow>
          (\<exists>e. ks_pc s'' u = PDone call (Some e) \<and> (if k_closed (ks_c s') then IsS e NetErrClosed else k_err (ks_c s') = Some e)))"
proof -
  note i = kreachable_inv [OF assms(1)]
  note e = hs_end_err [OF assms(4) kinvD(1) [OF i] assms(2,5)]
  have ne: "k_err (ks_c s1) \<noteq> None" using assms(5) by (auto simp: e why_def split: option.splits)
  have k: "kinv s' \<and> k_err (ks_c s') = k_err (ks_c s1)"
    using assms(6)
  proof (induction rule: rtranclp_induct)
    case base
    then show ?case using kstep_inv [OF assms(3) i] by simp
  next
    case (step y z)
    then show ?case using kleD(5) [OF kstep_kle [OF step(2)]] kstep_inv [OF step(2)] ne by simp
  qed
  then have c: "kc_inv (ks_c s')" and f: "k_err (ks_c s') \<noteq> None" using kinvD(1) ne by auto
  show ?thesis using k e asks_answer [OF c f] checkLocked_after [OF c] by metis
qed

section \<open>Witnesses\<close>

text \<open>A handshake in \<open>ModeEarly\<close>, and a \<open>Read\<close> that waits while the first call reads the replies.\<close>

definition kdConfig :: cconfig where
  "kdConfig = \<lparr>cc_Version = 5, cc_Mode = ModeEarly, cc_Auth = None, cc_OfferNoAuth = False\<rparr>"

abbreviation kdConn :: kconn where
  "kdConn \<equiv> newClient True ''l'' ''r'' True (ipAddr (AddrFrom4 [1, 2, 3, 4]) 80) kdConfig 0 5 None"

abbreviation kdHs :: kcall where "kdHs \<equiv> CHandshake False"

definition kdH :: hs where "kdH = k_h kdConn"

definition kd1 :: ksys where "kd1 = (let s = kstart kdConn in at 0 s (start_call kdHs None (ks_c s)))"
definition kd2 :: ksys where "kd2 = (let s = kd1 in case kclaim opConnect (ks_c s) of (c, r) \<Rightarrow> at 0 s (c, after_claim kdHs r))"
definition kd3 :: ksys where
  "kd3 = (let s = kd2 in at 0 s (sendWrote (h_out (k_h (ks_c s)) @ early_data kdHs) (length (h_out (k_h (ks_c s)))) None (ks_c s),
      PSent kdHs (length (h_out (k_h (ks_c s)))) None))"
definition kd4 :: ksys where "kd4 = (let s = kd3 in case sendEnd (length (h_out kdH)) None (ks_c s) of (c, k, r) \<Rightarrow> at 0 s (c, after_send kdHs r))"
definition kd5 :: ksys where "kd5 = (let s = kd4 in at 0 s (await_section 7 kdHs (ks_c s)))"
definition kd6 :: ksys where "kd6 = (let s = kd5 in at 2 s (start_call CRead None (ks_c s)))"
definition kd7 :: ksys where "kd7 = (let s = kd6 in at 2 s (await_section 7 CRead (ks_c s)))"

abbreviation kdC :: kconn where "kdC \<equiv> (kconn0 True ''l'' ''r'' True)\<lparr>k_h := kdH, k_replyTimeout := 0, k_handshakeTimeout := 5\<rparr>"

lemma kd_init:
  assumes "addr_IsValid t"
  shows "\<exists>h h1. hs_init kdConfig CmdConnect (zero_hs\<lparr>h_target := t\<rparr>) = Inr h \<and> setTarget t h = Inr h1 \<and> h_mode h1 = ModeEarly"
proof -
  have "\<exists>h. hs_init kdConfig CmdConnect (zero_hs\<lparr>h_target := t\<rparr>) = Inr h \<and> h_version h = 5 \<and> h_mode h = ModeEarly"
    by (simp add: hs_init_def kdConfig_def mode_defs init5_def setAuth_def preparePipelined_def Let_def method_defs zero_hs_def)
  then obtain h where h: "hs_init kdConfig CmdConnect (zero_hs\<lparr>h_target := t\<rparr>) = Inr h" "h_version h = 5" "h_mode h = ModeEarly" by blast
  have "\<exists>h1. setTarget t h = Inr h1 \<and> h_mode h1 = ModeEarly"
    using h(2,3) assms by (auto simp: setTarget_def append5_def Let_def AppendRequest_def appendAddrMessage_def split: prod.splits)
  then show ?thesis using h(1) by blast
qed

lemma kd_conn: "kdConn = kdC" and kd_h: "h_mode kdH = ModeEarly"
proof -
  let ?c0 = "(kconn0 True ''l'' ''r'' True)\<lparr>k_h := (k_h (kconn0 True ''l'' ''r'' True))\<lparr>h_target := ipAddr (AddrFrom4 [1, 2, 3, 4]) 80\<rparr>\<rparr>"
  obtain c e where k: "kinit kdConfig 0 5 CmdConnect (ipAddr (AddrFrom4 [1, 2, 3, 4]) 80) ?c0 = (c, e)" by fastforce
  have "addr_IsValid (ipAddr (AddrFrom4 [1, 2, 3, 4]) 80)" by (simp add: AddrFrom4_def)
  note h = kd_init [OF this]
  have e: "e = None \<and> h_mode (k_h c) = ModeEarly" using k h by (auto simp: kinit_def kconn0_def Let_def)
  then have c: "kdConn = c" using k by (simp add: newClient_def Let_def)
  have "c = (kconn0 True ''l'' ''r'' True)\<lparr>k_h := k_h c, k_replyTimeout := 0, k_handshakeTimeout := 5\<rparr>"
    using k e by (auto simp: kinit_def kconn0_def Let_def split: sum.splits)
  then show "kdConn = kdC" unfolding kdH_def c .
  show "h_mode kdH = ModeEarly" unfolding kdH_def c using e by simp
qed

lemma kd_early: "early kdC"
  by (simp add: early_def kd_h)

lemma kd_s1: "kd1 = at 0 (kstart kdC) (kdC, PClaim kdHs)"
  unfolding kd1_def kd_conn by (simp add: Let_def kstart_def kd_early, simp add: kconn0_def)

lemma kd_s2: "kd2 = at 0 kd1 (kdC\<lparr>k_phase := phSending\<rparr>, PSending kdHs)"
  by (simp add: kd2_def kd_s1 Let_def kclaim_def checkLocked_def kconn0_def broadcastLocked_def claimLocked_def after_claim_def)

lemma kd_s3: "kd3 = at 0 kd2 (kdC\<lparr>k_phase := phSending, k_h := wipe kdH, k_events := [EvWrote None], k_writes := [(True, h_out kdH)]\<rparr>,
    PSent kdHs (length (h_out kdH)) None)"
  by (simp add: kd3_def kd_s2 Let_def sendWrote_def kconn0_def)

lemma kd_s4: "kd4 = at 0 kd3 ((ks_c kd3)\<lparr>k_phase := phSent, k_writeReady := True\<rparr>, PAwait kdHs)"
  by (simp add: kd4_def kd_s3 Let_def sendEnd_def storeReadyLocked_def settleLocked_def broadcastLocked_def unlockDone_def ioErr_def kconn0_def)

lemma kd_s5: "kd5 = at 0 kd4 ((ks_c kd4)\<lparr>k_busy := True, k_replyDeadline := Some 12, k_connRead := DLAt 12\<rparr>, PReading kdHs (Some 12))"
  by (simp add: kd5_def kd_s4 kd_s3 Let_def await_section_def waitClaimedLocked_def read_section_def readStart_def claimReadLocked_def checkLocked_def
      replyDeadlineAt_def replyBudget_def handshakeBudget_def setReplyDeadlineLocked_def earliest_def dl_of_def with_wait_def kconn0_def)

lemma kd_s6: "kd6 = at 2 kd5 (ks_c kd5, PAwait CRead)"
  by (simp add: kd6_def kd_s5 kd_s4 kd_s3 Let_def early_def kd_h kconn0_def)

lemma kd_s7: "kd7 = at 2 kd6 ((ks_c kd6)\<lparr>k_wake := Some 0, k_nextChan := 1\<rparr>, PReadWait CRead 0 (Some 12))"
  by (simp add: kd7_def kd_s6 kd_s5 kd_s4 kd_s3 Let_def await_section_def waitClaimedLocked_def read_section_def readStart_def claimReadLocked_def
      checkLocked_def replyDeadlineAt_def replyBudget_def handshakeBudget_def with_wait_def kconn0_def waiting_def waitLocked_def)

lemmas kd_s = kd_s1 kd_s2 kd_s3 kd_s4 kd_s5 kd_s6 kd_s7

lemma kd_pcs:
  "ks_pc kd1 0 = PClaim kdHs" "ks_pc kd2 0 = PSending kdHs" "ks_pc kd3 0 = PSent kdHs (length (h_out kdH)) None" "ks_pc kd4 0 = PAwait kdHs"
  "ks_pc kd5 0 = PReading kdHs (Some 12)" "ks_pc kd6 2 = PAwait CRead" "ks_pc kd7 2 = PReadWait CRead 0 (Some 12)"
  "ks_pc kd7 0 = PReading kdHs (Some 12)" "ks_pc kd5 2 = PIdle"
  by (simp_all add: kd_s kstart_def)

lemma kd_facts:
  "k_fired (ks_c kd7) = {}" "k_done (ks_c kd7) = False" "k_abortErr (ks_c kd7) = None"
  "k_phase (ks_c kd7) = phSent" "k_writes (ks_c kd7) = [(True, h_out kdH)]" "k_events (ks_c kd7) = [EvWrote None]"
  by (simp_all add: kd_s kd_h) (simp_all add: kconn0_def)

lemma kd_step: "(kstep eager)\<^sup>*\<^sup>* a s \<Longrightarrow> tstep eager t s s' \<Longrightarrow> (kstep eager)\<^sup>*\<^sup>* a s'"
  by (rule rtranclp.rtrancl_into_rtrancl) (auto simp: kstep_def)

lemma kd_reachable: "kreachable False kdConn kd7"
proof -
  have 1: "tstep False 0 (kstart kdConn) kd1"
    unfolding kd1_def Let_def by (rule tstep.call) (simp add: kstart_def)
  have 2: "tstep False 0 kd1 kd2"
    using tstep.claim [of kd1 0 kdHs] kd_pcs(1) by (auto simp: kd2_def Let_def split: prod.splits)
  have 3: "tstep False 0 kd2 kd3"
    unfolding kd3_def Let_def by (rule tstep.send_io) (simp_all add: kd_pcs)
  have 4: "tstep False 0 kd3 kd4"
    using tstep.sent [of kd3 0 kdHs "length (h_out kdH)" None] kd_pcs(3) by (auto simp: kd4_def Let_def split: prod.splits)
  have 5: "tstep False 0 kd4 kd5" unfolding kd5_def Let_def by (rule tstep.await) (simp add: kd_pcs)
  have 6: "tstep False 2 kd5 kd6" unfolding kd6_def Let_def by (rule tstep.call) (simp add: kd_pcs)
  have 7: "tstep False 2 kd6 kd7" unfolding kd7_def Let_def by (rule tstep.await) (simp add: kd_pcs)
  show ?thesis by (rule kd_step [OF kd_step [OF kd_step [OF kd_step [OF kd_step [OF kd_step [OF kd_step [OF rtranclp.rtrancl_refl 1] 2] 3] 4] 5] 6] 7])
qed

lemma handshake_done_once_witness: "\<exists>w. k_events (ks_c kd7) = [EvWrote w]"
  using handshake_done_once [OF kd_reachable] kd_facts by simp

lemma no_call_waits_forever_witness:
  "\<exists>u. in_io (ks_pc kd7 u) \<and> (\<forall>s'. tstep False u kd7 s' \<longrightarrow> in_io (ks_pc s' u) \<or> 0 \<in> k_fired (ks_c s'))"
  using no_call_waits_forever [OF kd_reachable, of 2 0] kd_facts kd_pcs by simp

lemma handshake_goes_first_witness: "\<exists>n d. k_writes (ks_c kd7) = [(True, take n (h_out (k_h kdConn) @ d))]"
proof -
  have "early kdConn" using kd_early by (simp add: kd_conn)
  note p = handshake_goes_first [OF kd_reachable refl this]
  show ?thesis using p unfolding kd_facts(5) by (simp del: take_append)
qed

text \<open>Then the proxy refuses, after the context was cancelled.\<close>

abbreviation kdRefused :: hs_error where "kdRefused \<equiv> Some (StageReply, EReply ReplyNotAllowed zeroAddr 5)"

definition kd8 :: ksys where
  "kd8 = (let s = kd7 in case readEnd opConnect 9 kdRefused (Some (ESent CtxCanceled)) (Some 12) (io_leaves StageReply zeroAddr (ks_c s)) of
     (c, r) \<Rightarrow> at 0 s (c, PDone kdHs r))"

lemma kd8_facts: "k_done (ks_c kd8)" "k_phase (ks_c kd8) = phSent"
proof -
  obtain c r where e: "readEnd opConnect 9 kdRefused (Some (ESent CtxCanceled)) (Some 12) (io_leaves StageReply zeroAddr (ks_c kd7)) = (c, r)"
    by fastforce
  have "early (ks_c kd7)" using kinvD(2) [OF kreachable_inv [OF kd_reachable], of 0] kd_pcs(8) by simp
  then show "k_done (ks_c kd8)" "k_phase (ks_c kd8) = phSent"
    using readEnd_ok(2,4) [OF kinvD(1) [OF kreachable_inv [OF kd_reachable]] _ _ e] e kd_facts(4) by (simp_all add: kd8_def Let_def)
qed

lemma kd8_step: "\<exists>c r. kd8 = at 0 kd7 (c, PDone kdHs r) \<and> readEnd opConnect 9 kdRefused (Some (ESent CtxCanceled)) (Some 12)
    (io_leaves StageReply zeroAddr (ks_c kd7)) = (c, r) \<and> tstep False 0 kd7 kd8"
proof -
  obtain c r where e: "readEnd opConnect 9 kdRefused (Some (ESent CtxCanceled)) (Some 12) (io_leaves StageReply zeroAddr (ks_c kd7)) = (c, r)"
    by fastforce
  then have "kd8 = at 0 kd7 (c, PDone kdHs r)" by (simp add: kd8_def Let_def)
  moreover have "tstep False 0 kd7 (at 0 kd7 (c, PDone kdHs r))"
    by (rule tstep.read_io [OF kd_pcs(8)]) (use e in simp_all)
  ultimately show ?thesis using e by auto
qed

lemma kd8_end: "hs_end 0 kd7 kd8 kdRefused (Some (ESent CtxCanceled)) (expired 9 (EReply ReplyNotAllowed zeroAddr 5) (Some 12) (ks_c kd7)) StageReply"
proof -
  have "k_abortErr (ks_c kd7) = None" by (simp add: kd_s kconn0_def)
  then show ?thesis
    using kd8_step hs_end.read [OF kd_pcs(8), of 9 kdRefused "Some (ESent CtxCanceled)" StageReply zeroAddr] by fastforce
qed

text \<open>The refusal stands, also after \<open>Close\<close>.\<close>

definition kd9 :: ksys where "kd9 = kd8\<lparr>ks_c := fst (Conn_Close None (ks_c kd8))\<rparr>"

lemma why_the_handshake_failed_witness:
  "k_err (ks_c kd9) = Some (opError (ks_c kd7) (StageReply, EReply ReplyNotAllowed zeroAddr 5))"
proof -
  have m: "isServerMsgErr (EReply ReplyNotAllowed zeroAddr 5)" by code_simp
  have s8: "kstep False kd7 kd8" using kd8_step by (auto simp: kstep_def)
  have s9: "(kstep False)\<^sup>*\<^sup>* kd8 kd9" by (intro r_into_rtranclp) (auto simp: kd9_def kstep_def intro: estep.close)
  show ?thesis
    using why_the_handshake_failed [OF kd_reachable _ s8 kd8_end _ s9, THEN conjunct1] kd_facts(2) m by (simp add: why_def)
qed

lemma outcome_is_final_witness:
  "k_done (fst (Conn_Close None (ks_c kd8))) \<and> k_err (fst (Conn_Close None (ks_c kd8))) = k_err (ks_c kd8)"
proof -
  have r: "kreachable False kdConn kd8" using kd_step [OF kd_reachable] kd8_step by blast
  have "(kstep False)\<^sup>*\<^sup>* kd8 (kd8\<lparr>ks_c := fst (Conn_Close None (ks_c kd8))\<rparr>)"
    by (intro r_into_rtranclp) (auto simp: kstep_def intro: estep.close)
  from outcome_is_final [OF r this kd8_facts(1)] kd8_facts(2) show ?thesis by simp
qed

section \<open>A proxy that answers first\<close>

text \<open>The hypothesis of \<open>handshake_goes_first\<close> is needed. \<open>waitWritten\<close> lets a \<open>Write\<close> go when the handshake is over, also while
  the call that claimed it has not written it yet: a proxy that sends its replies at once gets the data of that
  \<open>Write\<close> before the handshake.\<close>

abbreviation keWrite :: kcall where "keWrite \<equiv> CWrite [1]"

definition ke3 :: ksys where "ke3 = (let s = kd2 in at 2 s (start_call CRead None (ks_c s)))"
definition ke4 :: ksys where "ke4 = (let s = ke3 in at 2 s (await_section 7 CRead (ks_c s)))"
definition ke5 :: ksys where
  "ke5 = (let s = ke4 in case readEnd ''read'' 8 None None (Some 12) (io_leaves StageReply zeroAddr (ks_c s)) of (c, r) \<Rightarrow> at 2 s (c, PDone CRead r))"
definition ke6 :: ksys where "ke6 = (let s = ke5 in at 3 s (start_call keWrite None (ks_c s)))"
definition ke7 :: ksys where "ke7 = (let s = ke6 in case kclaim ''write'' (ks_c s) of (c, r) \<Rightarrow> at 3 s (c, after_claim keWrite r))"
definition ke8 :: ksys where "ke8 = (let s = ke7 in at 3 s (written_section keWrite (ks_c s)))"
definition ke9 :: ksys where
  "ke9 = (let s = ke8 in at 3 s ((ks_c s)\<lparr>k_writes := k_writes (ks_c s) @ [(False, take 1 [1])]\<rparr>, PDone keWrite (ioErr (ks_c s) (op_of keWrite) None)))"

lemma ke_s3: "ke3 = at 2 kd2 (ks_c kd2, PAwait CRead)"
  by (simp add: ke3_def kd_s Let_def early_def kd_h kconn0_def)

lemma ke_s4: "ke4 = at 2 ke3 ((ks_c ke3)\<lparr>k_busy := True, k_replyDeadline := Some 12, k_connRead := DLAt 12\<rparr>, PReading CRead (Some 12))"
  by (simp add: ke4_def ke_s3 kd_s Let_def await_section_def waitClaimedLocked_def read_section_def readStart_def claimReadLocked_def checkLocked_def
      replyDeadlineAt_def replyBudget_def handshakeBudget_def setReplyDeadlineLocked_def earliest_def dl_of_def with_wait_def kconn0_def)

lemma ke_s5: "ke5 = at 2 ke4 ((ks_c ke4)\<lparr>k_busy := False, k_replyDeadline := None, k_connRead := DLNone, k_done := True, k_bound := zeroAddr,
    k_readReady := True, k_h := kdH\<lparr>h_readStage := StageReply, h_bound := zeroAddr\<rparr>\<rparr>, PDone CRead None)"
  by (simp add: ke5_def ke_s4 ke_s3 kd_s Let_def readEnd_def endIOLocked_def clearReplyDeadlineLocked_def io_leaves_def dl_of_def kconn0_def
      blame_def endLocked_def establishLocked_def storeReadyLocked_def broadcastLocked_def unlockDone_def checkLocked_def)

lemma ke_s6: "ke6 = at 3 ke5 (ks_c ke5, PClaim keWrite)"
  by (simp add: ke6_def ke_s5 ke_s4 ke_s3 kd_s Let_def early_def kd_h kconn0_def)

lemma ke_s7: "ke7 = at 3 ke6 (ks_c ke6, PWritten keWrite)"
  by (simp add: ke7_def ke_s6 ke_s5 ke_s4 ke_s3 kd_s Let_def kclaim_def checkLocked_def after_claim_def kconn0_def)

lemma ke_s8: "ke8 = at 3 ke7 (ks_c ke7, PWriting keWrite [1])"
  by (simp add: ke8_def ke_s7 ke_s6 ke_s5 ke_s4 ke_s3 kd_s Let_def written_section_def waitWritten_def checkLocked_def with_wait_def after_ret_def kconn0_def)

lemmas ke_s = ke_s3 ke_s4 ke_s5 ke_s6 ke_s7 ke_s8

lemma eager_proxy_gets_data_first: "kreachable True kdConn ke9 \<and> k_writes (ks_c ke9) = [(False, [1])]"
proof
  have 1: "tstep True 0 (kstart kdConn) kd1" unfolding kd1_def Let_def by (rule tstep.call) (simp add: kstart_def)
  have 2: "tstep True 0 kd1 kd2"
    using tstep.claim [of kd1 0 kdHs] kd_pcs(1) by (auto simp: kd2_def Let_def split: prod.splits)
  have 3: "tstep True 2 kd2 ke3" unfolding ke3_def Let_def by (rule tstep.call) (simp add: kd_s kstart_def)
  have 4: "tstep True 2 ke3 ke4" unfolding ke4_def Let_def by (rule tstep.await) (simp add: ke_s)
  obtain c r where e: "readEnd ''read'' 8 None None (Some 12) (io_leaves StageReply zeroAddr (ks_c ke4)) = (c, r)" by fastforce
  have 5: "tstep True 2 ke4 ke5"
    using tstep.read_io [of ke4 2 CRead "Some 12" None True 8 None StageReply zeroAddr c r] e by (simp add: ke5_def ke_s)
  have 6: "tstep True 3 ke5 ke6" unfolding ke6_def Let_def by (rule tstep.call) (simp add: ke_s kd_s kstart_def)
  have 7: "tstep True 3 ke6 ke7"
    using tstep.claim [of ke6 3 keWrite] by (auto simp: ke7_def ke_s6 Let_def split: prod.splits)
  have 8: "tstep True 3 ke7 ke8" unfolding ke8_def Let_def by (rule tstep.written) (simp add: ke_s)
  have 9: "tstep True 3 ke8 ke9" unfolding ke9_def Let_def by (rule tstep.write_io) (simp add: ke_s8)
  show "kreachable True kdConn ke9"
    by (rule kd_step [OF kd_step [OF kd_step [OF kd_step [OF kd_step [OF kd_step [OF kd_step [OF kd_step [OF kd_step [OF rtranclp.rtrancl_refl
          1] 2] 3] 4] 5] 6] 7] 8] 9])
  show "k_writes (ks_c ke9) = [(False, [1])]"
    by (simp add: ke9_def Let_def ke_s kd_s) (simp add: kconn0_def)
qed

end
