(* ===== verification/ClientDial.thy ===== *)
theory ClientDial
  imports ClientConn
begin

text \<open>
  The client's \<open>Dialer\<close> for TCP (\<open>dialer.go\<close>), \<open>Request\<close> (\<open>request.go\<close>) and Tor's RESOLVE (\<open>resolve.go\<close>). The functions
  that dial the proxy and resolve names are parameters, as they are fields or the standard library; so are
  the clock and the moments at which a context ends (\<open>cctx\<close>).
\<close>

section \<open>The outside\<close>

text \<open>A conn to the proxy: what it delivers and takes, its addresses, its peer's IP if that is a TCP address, whether it
  can set deadlines, whether it is closed, its deadline.\<close>

record pconn =
  pn_net :: cnet
  pn_local :: string
  pn_remote :: string
  pn_peer :: ip
  pn_canDeadline :: bool
  pn_closed :: bool
  pn_dl :: dline

type_synonym dialfn = "string \<Rightarrow> string \<Rightarrow> pconn option \<times> error option"
type_synonym resolver = "string \<Rightarrow> string \<Rightarrow> ip list \<times> error option"

text \<open>A UDP socket: the port of its local address if that is a UDP address, the IP it is connected to if any.\<close>

record rsock =
  rs_port :: "u16 option"
  rs_peer :: "addrport option"
  rs_closed :: bool

type_synonym relayfn = "string \<Rightarrow> string \<Rightarrow> rsock option \<times> error option"

text \<open>What the program asks a context: a deadline, \<open>Err\<close> after resolving, after dialing, whether it ended during the
  handshake, and at the end; and the clock at the start and the end of a handshake.\<close>

record cctx =
  cx_hasDeadline :: bool
  cx_atResolve :: "sentinel option"
  cx_atDial :: "sentinel option"
  cx_inHandshake :: "sentinel option"
  cx_atRelay :: "sentinel option"
  cx_now :: nat
  cx_later :: nat

record dialer =
  d_ProxyAddr :: string
  d_ProxyDial :: "dialfn option"
  d_Resolver :: "resolver option"
  d_Config :: "(cconfig \<times> int \<times> int) option"
  d_RelayDial :: "relayfn option"
  d_RelayListen :: "relayfn option"
  d_RelayUseProxyHost :: bool
  d_AssociateAddr :: string
  d_AssociateLocalPort :: bool

text \<open>\<open>d_Config\<close> with its \<open>ReplyTimeout\<close> and \<open>HandshakeTimeout\<close>; nil is the zero \<open>Config\<close>.\<close>

definition zeroConfig :: cconfig where
  "zeroConfig = \<lparr>cc_Version = 0, cc_Mode = ModePipelined, cc_Auth = None, cc_OfferNoAuth = False\<rparr>"

definition configOf :: "(cconfig \<times> int \<times> int) option \<Rightarrow> cconfig \<times> int \<times> int" where
  "configOf cfg = (case cfg of Some c \<Rightarrow> c | None \<Rightarrow> (zeroConfig, 0, 0))"

section \<open>Networks and operations\<close>

definition opBind :: string where "opBind = ''socks bind''"
definition opAssociate :: string where "opAssociate = ''socks udp associate''"
definition opResolve :: string where "opResolve = ''socks resolve''"
definition opResolvePTR :: string where "opResolvePTR = ''socks resolve ptr''"

definition opOf :: "command \<Rightarrow> string" where
  "opOf cmd =
     (if cmd = CmdConnect then opConnect
      else if cmd = CmdBind then opBind
      else if cmd = CmdUDPAssociate then opAssociate
      else if cmd = CmdTorResolve then opResolve
      else if cmd = CmdTorResolvePTR then opResolvePTR
      else ''socks '' @ Command_String cmd)"

definition ipNetworkOf :: "string \<Rightarrow> string" where
  "ipNetworkOf network =
     (if last network = CHR ''4'' then ''ip4'' else if last network = CHR ''6'' then ''ip6'' else ''ip'')"

definition matchesFamily :: "string \<Rightarrow> ip \<Rightarrow> bool" where
  "matchesFamily network x =
     (if last network = CHR ''4'' then \<not> Is6 x else if last network = CHR ''6'' then \<not> Is4 x else True)"

definition familyErr :: "string \<Rightarrow> string \<Rightarrow> error" where
  "familyErr network a = EAddr (''address family mismatch for '' @ network) a"

definition caddrPort :: "ip \<Rightarrow> u16 \<Rightarrow> addr" where
  "caddrPort x p = AddrFromAddrPort (AddrPortFrom x p)"

definition parseTarget :: "string \<Rightarrow> string \<Rightarrow> addr \<times> error option" where
  "parseTarget network a =
     (if network \<notin> {''tcp'', ''tcp4'', ''tcp6'', ''udp'', ''udp4'', ''udp6''} then (zeroAddr, Some (EUnknownNetwork network))
      else case wire_ParseAddr a of
        Inl e \<Rightarrow> (zeroAddr, Some e)
      | Inr x \<Rightarrow> if \<not> matchesFamily network (IP_of x) then (x, Some (familyErr network a)) else (x, None))"

section \<open>The target\<close>

definition ctxErr :: "sentinel option \<Rightarrow> error \<Rightarrow> error" where
  "ctxErr cx e = (case cx of Some c \<Rightarrow> if \<not> IsS e c then ESent c else e | None \<Rightarrow> e)"

definition dresolve :: "resolver \<Rightarrow> string \<Rightarrow> string \<Rightarrow> error + ip" where
  "dresolve rv network host =
     (case rv (ipNetworkOf network) host of
        (ips, Some e) \<Rightarrow> Inl e
      | (ips, None) \<Rightarrow>
          (case find (\<lambda>x. ip_IsValid x \<and> matchesFamily network x) (map Unmap ips) of
             Some x \<Rightarrow> Inr x
           | None \<Rightarrow> Inl (EDNS ''no suitable address found'' host None False True)))"

definition resolveErr :: "sentinel option \<Rightarrow> error \<Rightarrow> error" where
  "resolveErr cx e =
     (case ctxErr cx e of
        EDNS m n (Some u) t f \<Rightarrow>
          if hasErrType is_EHandshake u
          then EDNS m n (if IsS u CtxDeadlineExceeded then Some (ESent CtxDeadlineExceeded)
                         else if IsS u CtxCanceled then Some (ESent CtxCanceled) else None) t f
          else EDNS m n (Some u) t f
      | x \<Rightarrow> x)"

definition resolveTarget :: "cctx \<Rightarrow> resolver \<Rightarrow> string \<Rightarrow> addr \<Rightarrow> kconn \<Rightarrow> kconn \<times> (error + addr)" where
  "resolveTarget x rv network target c =
     (case dresolve rv (if h_version (k_h c) = 4 then ''tcp4'' else network) (Name_of target) of
        Inl e \<Rightarrow> (c, Inl (opError c (StageResolve, resolveErr (cx_atResolve x) e)))
      | Inr a \<Rightarrow>
          let resolved = caddrPort a (Port_of target) in
          case setTarget resolved (k_h c) of
            Inl e \<Rightarrow> (c, Inl (opError c (StageConfig, e)))
          | Inr h \<Rightarrow> (c\<lparr>k_h := h\<lparr>h_target := target\<rparr>\<rparr>, Inr resolved))"

definition dnewConn ::
  "cctx \<Rightarrow> dialer option \<Rightarrow> string \<Rightarrow> string \<Rightarrow> command \<Rightarrow> addr \<Rightarrow> error option \<Rightarrow> kconn \<Rightarrow> kconn \<times> (error + addr)" where
  "dnewConn x dl op network cmd target err c =
     (let c1 = c\<lparr>k_network := network, k_op := op, k_h := (k_h c)\<lparr>h_target := target\<rparr>\<rparr> in
      case dl of
        None \<Rightarrow> (c1, Inl (opError c1 (StageConfig, EStr ''socks0: nil Dialer'')))
      | Some d \<Rightarrow>
          let c2 = c1\<lparr>k_proxyAddr := d_ProxyAddr d\<rparr>;
              (cfg, rt, ht) = configOf (d_Config d);
              (c3, err1) = (if err = None then kinit cfg rt ht cmd target c2 else (c2, err));
              err2 = (if err1 = None \<and> h_version (k_h c3) = 4 \<and> network = ''tcp6'' then Some (EStr ''socks0: SOCKS4 has no IPv6'') else err1)
          in case err2 of
               Some e \<Rightarrow> (c3, Inl (opError c3 (StageConfig, e)))
             | None \<Rightarrow>
                 (case d_Resolver d of
                    Some rv \<Rightarrow> if IsName target \<and> cmd \<noteq> CmdTorResolve then resolveTarget x rv network target c3 else (c3, Inr target)
                  | None \<Rightarrow> (c3, Inr target)))"

section \<open>The proxy\<close>

text \<open>Whether the conn must be closed, and the error.\<close>

definition dialErr :: "'c option \<Rightarrow> error option \<Rightarrow> error \<Rightarrow> bool \<times> error option" where
  "dialErr conn err errNone =
     (if err = None \<and> conn = None then (False, Some errNone) else (err \<noteq> None \<and> conn \<noteq> None, err))"

definition pn_close :: "pconn \<Rightarrow> pconn" where
  "pn_close p = p\<lparr>pn_closed := True\<rparr>"

definition ksay :: "cevt list \<Rightarrow> kconn \<Rightarrow> kconn" where
  "ksay ev c = c\<lparr>k_events := k_events c @ ev\<rparr>"

text \<open>\<open>dialTimeout\<close>: the bound put on the context, if any, and the conn deadline.\<close>

definition dialTimeout :: "cctx \<Rightarrow> dialer \<Rightarrow> kconn \<Rightarrow> int option \<times> int" where
  "dialTimeout x d c =
     (case handshakeBudget (cx_hasDeadline x) c of
        None \<Rightarrow> (None, 0)
      | Some b \<Rightarrow> if d_ProxyDial d = None \<and> k_handshakeTimeout c = 0 then (None, b) else (Some b, 0))"

text \<open>Left: an error, and the conn that was dialed if any. \<open>net\<close> is the zero \<open>net.Dialer\<close>.\<close>

definition dialProxy :: "cctx \<Rightarrow> dialfn \<Rightarrow> dialer \<Rightarrow> kconn \<Rightarrow> kconn \<times> (error \<times> pconn option + pconn)" where
  "dialProxy x net d c =
     (let (conn, err) = (case d_ProxyDial d of Some f \<Rightarrow> f | None \<Rightarrow> net) ''tcp'' (d_ProxyAddr d);
          (cl, err1) = dialErr conn err (ESent errNoProxyConn);
          conn1 = (if cl then map_option pn_close conn else conn);
          c1 = ksay [EvConnectStart (d_ProxyAddr d), EvConnectDone err1] c
      in case (err1, conn1) of
           (None, Some p) \<Rightarrow>
             (case cx_atDial x of
                Some e \<Rightarrow> (c1, Inl (ESent e, Some (pn_close p)))
              | None \<Rightarrow> (c1, Inr p))
         | (None, None) \<Rightarrow> (c1, Inl (ESent errNoProxyConn, None))
         | (Some e, _) \<Rightarrow> (c1, Inl (e, conn1)))"

text \<open>\<open>connect\<close>: the conn in its last state, and the error.\<close>

definition dconnect :: "cctx \<Rightarrow> dialfn \<Rightarrow> dialer \<Rightarrow> kconn \<Rightarrow> (kconn \<times> pconn option \<times> error option) option" where
  "dconnect x net d c =
     (let connTimeout = snd (dialTimeout x d c) in
      case dialProxy x net d c of
        (c1, Inl (e, conn)) \<Rightarrow> Some (c1, conn, Some (opError c1 (StageProxyDial, ctxErr (cx_atDial x) e)))
      | (c1, Inr p) \<Rightarrow>
          if early c1 then Some (c1, Some (p\<lparr>pn_dl := DLNone\<rparr>), None)
          else
            let deadline = (if connTimeout > 0 then Some (cx_now x + nat connTimeout) else None);
                p1 = (if connTimeout > 0 then p\<lparr>pn_dl := dl_of deadline\<rparr> else p)
            in Option.bind (hs_run (k_h c1) (pn_net p1))
                 (\<lambda>(h, n, he).
                    case handshakeOver (cx_later x) True deadline he (map_option ESent (cx_inHandshake x)) (c1\<lparr>k_h := h\<rparr>) of
                      (c2, Some e) \<Rightarrow> Some (c2, Some (p1\<lparr>pn_net := n, pn_closed := k_connClosed c2\<rparr>), Some e)
                    | (c2, None) \<Rightarrow> Some (c2, Some (p1\<lparr>pn_net := n, pn_dl := DLNone\<rparr>), None)))"

section \<open>Dialing\<close>

datatype dialed = DialedErr error "pconn option" | DialedConn pconn | DialedEarly kconn pconn

definition kdial0 :: kconn where "kdial0 = kconn0 False [] [] True"

definition dial_early :: "dialer option \<Rightarrow> bool" where
  "dial_early d = (case d of Some x \<Rightarrow> cc_Mode (fst (configOf (d_Config x))) = ModeEarly \<and> d_Config x \<noteq> None | None \<Rightarrow> False)"

definition overConn :: "pconn \<Rightarrow> kconn \<Rightarrow> kconn" where
  "overConn p c = c\<lparr>k_hasConn := True, k_local := pn_local p, k_remote := pn_remote p, k_canDeadline := pn_canDeadline p\<rparr>"

definition dialEarly :: "cctx \<Rightarrow> dialfn \<Rightarrow> dialer option \<Rightarrow> string \<Rightarrow> addr \<Rightarrow> error option \<Rightarrow> dialed option" where
  "dialEarly x net dl network target err =
     (case dnewConn x dl opConnect network CmdConnect target err kdial0 of
        (c, Inl e) \<Rightarrow> Some (DialedErr e None)
      | (c, Inr a) \<Rightarrow>
          (case dl of
             None \<Rightarrow> None
           | Some d \<Rightarrow>
               map_option
                 (\<lambda>(c1, conn, err1). case (err1, conn) of
                    (Some e, _) \<Rightarrow> DialedErr e conn
                  | (None, Some p) \<Rightarrow> DialedEarly (overConn p c1) p
                  | (None, None) \<Rightarrow> DialedErr (ESent errNoProxyConn) None)
                 (dconnect x net d c)))"

text \<open>\<open>DialContext\<close> for the TCP networks (and the unknown ones).\<close>

definition DialTCP :: "cctx \<Rightarrow> dialfn \<Rightarrow> dialer option \<Rightarrow> string \<Rightarrow> string \<Rightarrow> dialed option" where
  "DialTCP x net dl network a =
     (let (target, err) = parseTarget network a in
      if dial_early dl then dialEarly x net dl network target err
      else
        case dnewConn x dl opConnect network CmdConnect target err kdial0 of
          (c, Inl e) \<Rightarrow> Some (DialedErr e None)
        | (c, Inr r) \<Rightarrow>
            (case dl of
               None \<Rightarrow> None
             | Some d \<Rightarrow>
                 map_option
                   (\<lambda>(c1, conn, err1). case (err1, conn) of
                      (Some e, _) \<Rightarrow> DialedErr e conn
                    | (None, Some p) \<Rightarrow> DialedConn p
                    | (None, None) \<Rightarrow> DialedErr (ESent errNoProxyConn) None)
                   (dconnect x net d c)))"

section \<open>Request\<close>

text \<open>\<open>unblock\<close> on a context that ended.\<close>

definition pn_unblock :: "pconn \<Rightarrow> pconn" where
  "pn_unblock p = (if pn_canDeadline p then p\<lparr>pn_dl := DLPast\<rparr> else pn_close p)"

text \<open>\<open>Request\<close>: BND or the error, and the conn.\<close>

definition Request :: "cctx \<Rightarrow> pconn option \<Rightarrow> command \<Rightarrow> addr \<Rightarrow> (cconfig \<times> int \<times> int) option \<Rightarrow> ((error + addr) \<times> pconn option) option" where
  "Request x conn cmd a cfg =
     (let c0 = kdial0\<lparr>k_op := opOf cmd\<rparr>; c = c0\<lparr>k_h := (k_h c0)\<lparr>h_target := a\<rparr>\<rparr> in
      case conn of
        None \<Rightarrow> Some (Inl (opError c (StageConfig, ESent errNoConn)), None)
      | Some p \<Rightarrow>
          let (cf, rt, ht) = configOf cfg in
          case kinit cf rt ht cmd a (overConn p c) of
            (c1, Some e) \<Rightarrow> Some (Inl (opError c1 (StageConfig, e)), Some p)
          | (c1, None) \<Rightarrow>
              Option.bind (hs_run (k_h c1) (pn_net p))
                (\<lambda>(h, n, he).
                   case handshakeOver (cx_later x) False None he (map_option ESent (cx_inHandshake x)) (c1\<lparr>k_h := h\<rparr>) of
                     (c2, err) \<Rightarrow>
                       Some (case err of Some e \<Rightarrow> Inl e | None \<Rightarrow> Inr (h_bound (k_h c2)),
                             Some (let p1 = p\<lparr>pn_net := n\<rparr> in if cx_inHandshake x = None then p1 else pn_unblock p1))))"

section \<open>RESOLVE\<close>

definition nameAddr :: "string \<Rightarrow> u16 \<Rightarrow> error + addr" where
  "nameAddr host port = wire_ParseAddr (JoinHostPort host (nat_string (unat port)))"

definition errNoSuchHost :: string where "errNoSuchHost = ''no such host''"

definition dnotFound :: "string \<Rightarrow> error" where
  "dnotFound name = EDNS errNoSuchHost name None False True"

fun err_Unwrap :: "error \<Rightarrow> error option" where
  "err_Unwrap (EOp p n s a e) = Some e"
| "err_Unwrap e = None"

fun reply_of :: "error \<Rightarrow> reply option" where
  "reply_of (EReply r b v) = Some r"
| "reply_of e = None"

text \<open>\<open>lookup\<close>; \<open>text\<close> is \<open>Error()\<close> of the errors of other packages. The fields \<open>Server\<close> and \<open>IsTemporary\<close> (the value of
  \<open>IsTimeout\<close>) of \<open>net.DNSError\<close> are left out.\<close>

definition lookupError :: "(error \<Rightarrow> string) \<Rightarrow> string \<Rightarrow> error \<Rightarrow> error" where
  "lookupError other name e =
     (let nf = (case err_As (\<lambda>y. reply_of y \<noteq> None) e of Some y \<Rightarrow> reply_of y = Some ReplyHostUnreachable | None \<Rightarrow> False)
      in EDNS (if nf then errNoSuchHost else (case err_Unwrap e of Some u \<Rightarrow> err_Error other u | None \<Rightarrow> [])) name (Some e) (IsTimeout e) nf)"

definition dlookup ::
  "(error \<Rightarrow> string) \<Rightarrow> cctx \<Rightarrow> dialfn \<Rightarrow> dialer option \<Rightarrow> string \<Rightarrow> command \<Rightarrow> string \<Rightarrow> addr \<Rightarrow> error option
   \<Rightarrow> ((error + addr) \<times> pconn option) option" where
  "dlookup other x net dl op cmd name target err =
     (case dnewConn x dl op ''tcp'' cmd target err kdial0 of
        (c, Inl e) \<Rightarrow> Some (Inl (lookupError other name e), None)
      | (c, Inr r) \<Rightarrow>
          (case dl of
             None \<Rightarrow> None
           | Some d \<Rightarrow>
               map_option
                 (\<lambda>(c1, conn, err1). case err1 of
                    Some e \<Rightarrow> (Inl (lookupError other name e), conn)
                  | None \<Rightarrow> (Inr (h_bound (k_h c1)), map_option pn_close conn))
                 (dconnect x net d c)))"

definition LookupNetIP ::
  "(error \<Rightarrow> string) \<Rightarrow> cctx \<Rightarrow> dialfn \<Rightarrow> dialer option \<Rightarrow> string \<Rightarrow> string \<Rightarrow> ((error + ip list) \<times> pconn option) option" where
  "LookupNetIP other x net dl network host =
     (let err = (if network \<in> {''ip'', ''ip4'', ''ip6''} then None else Some (EUnknownNetwork network)) in
      case (netip_ParseAddr host, err) of
        (Some a, None) \<Rightarrow> Some (if \<not> matchesFamily network (Unmap a) then Inl (dnotFound host) else Inr [Unmap a], None)
      | _ \<Rightarrow>
          let (target, err1) = (if err = None then (case nameAddr host 0 of Inl e \<Rightarrow> (zeroAddr, Some e) | Inr t \<Rightarrow> (t, None)) else (zeroAddr, err))
          in map_option
               (\<lambda>(r, conn). (case r of
                    Inl e \<Rightarrow> Inl e
                  | Inr b \<Rightarrow> if matchesFamily network (IP_of b) then Inr [IP_of b] else Inl (dnotFound host), conn))
               (dlookup other x net dl opResolve CmdTorResolve host target err1))"

definition LookupHost ::
  "(error \<Rightarrow> string) \<Rightarrow> cctx \<Rightarrow> dialfn \<Rightarrow> dialer option \<Rightarrow> string \<Rightarrow> ((error + string list) \<times> pconn option) option" where
  "LookupHost other x net dl host =
     map_option (\<lambda>(r, conn). (case r of Inl e \<Rightarrow> Inl e | Inr ips \<Rightarrow> Inr [ip_String (ips ! 0)], conn))
       (LookupNetIP other x net dl ''ip'' host)"

definition LookupAddr ::
  "(error \<Rightarrow> string) \<Rightarrow> cctx \<Rightarrow> dialfn \<Rightarrow> dialer option \<Rightarrow> string \<Rightarrow> ((error + string list) \<times> pconn option) option" where
  "LookupAddr other x net dl a =
     (case netip_ParseAddr a of
        None \<Rightarrow> Some (Inl (EDNS ''unrecognized address'' a None False False), None)
      | Some i \<Rightarrow>
          map_option (\<lambda>(r, conn). (case r of Inl e \<Rightarrow> Inl e | Inr b \<Rightarrow> Inr [Name_of b], conn))
            (dlookup other x net dl opResolvePTR CmdTorResolvePTR a (caddrPort i 0) None))"

end
