(* ===== verification/ClientRelay.thy ===== *)
theory ClientRelay
  imports ClientDial TargetFilter
begin

text \<open>
  Setting up a UDP association on the client (\<open>relayaddr.go\<close> and the first half of \<open>udp.go\<close>): which DST is asked for,
  which address of the relay is used, and whether it may be used at all.
\<close>

section \<open>The relay address policy (relayaddr.go)\<close>

definition cgnat :: prefix where "cgnat = pfx4 (ip4_of_bytes 100 64 0 0) 10"
definition broadcast4 :: ip where "broadcast4 = IP4 (ip4_of_bytes 255 255 255 255)"

definition cscope :: "ip \<Rightarrow> nat" where
  "cscope x =
     (if IsLoopback x \<or> IsUnspecified x then 0
      else if IsLinkLocalUnicast x then 1
      else if IsPrivate x \<or> pfx_Contains cgnat x then 2
      else 3)"

definition scopeNames :: "string list" where "scopeNames = [''loopback'', ''link-local'', ''private'']"

definition checkRelay :: "ip \<Rightarrow> ip \<Rightarrow> error option" where
  "checkRelay relay0 proxy0 =
     (let relay = WithZone (Unmap relay0) []; proxy = WithZone (Unmap proxy0) [] in
      if relay = proxy then None
      else if IsMulticast relay then Some (ERelay ''multicast'')
      else if relay = broadcast4 then Some (ERelay ''broadcast'')
      else if IsUnspecified relay then Some (ERelay ''unspecified'')
      else
        let proxyScope = (if ip_IsValid proxy then cscope proxy else 3); s = cscope relay
        in if s < proxyScope then Some (ERelay (scopeNames ! s @ '' but the proxy is not (see Dialer.RelayUseProxyHost)''))
           else None)"

record proxyHost =
  ph_name :: string
  ph_ip :: ip
  ph_err :: "error option"

definition proxyHost_of :: "dialer \<Rightarrow> proxyHost" where
  "proxyHost_of d =
     (let (host, err) = (case SplitHostPort (d_ProxyAddr d) of Inl e \<Rightarrow> ([], Some e) | Inr (h, p) \<Rightarrow> (h, None));
          lit = (CHR '':'' \<in> set host \<or> list_all (\<lambda>c. is_digit c \<or> c = CHR ''.'') host);
          x = (if lit then (case netip_ParseAddr host of Some y \<Rightarrow> y | None \<Rightarrow> NoIP) else NoIP)
      in \<lparr>ph_name = host, ph_ip = WithZone (Unmap x) [], ph_err = err\<rparr>)"

text \<open>The control function of the default relay dial: \<open>nobc\<close> is what clearing \<open>SO_BROADCAST\<close> returns.\<close>

definition relayControl :: "ip \<Rightarrow> error option \<Rightarrow> string \<Rightarrow> error option" where
  "relayControl proxy nobc address =
     (case ParseAddrPort address of
        None \<Rightarrow> Some (ERelay ''unparsable'')
      | Some ap \<Rightarrow> (case checkRelay (ap_addr ap) proxy of Some e \<Rightarrow> Some e | None \<Rightarrow> nobc))"

section \<open>DST\<close>

definition unknownDST :: addr where "unknownDST = caddrPort (IP4 0) 0"

definition parseDST :: "dialer \<Rightarrow> string \<Rightarrow> addr \<times> error option" where
  "parseDST d address =
     (if address = [] \<or> address = '':0'' then (unknownDST, None)
      else case wire_ParseAddr address of
        Inl e \<Rightarrow> (zeroAddr, Some e)
      | Inr a \<Rightarrow>
          if Port_of a = 0 \<and> IsUnspecified (IP_of a) then (unknownDST, None)
          else if Port_of a \<noteq> 0 \<and> d_RelayDial d = None \<and> d_RelayListen d = None then (a, Some (ESent errDSTPort))
          else (a, None))"

definition associateDST :: "dialer \<Rightarrow> string \<Rightarrow> addr \<times> error option" where
  "associateDST d dst =
     (case parseDST d dst of
        (req, Some e) \<Rightarrow> (req, Some e)
      | (req, None) \<Rightarrow>
          if d_RelayDial d \<noteq> None \<and> d_RelayListen d \<noteq> None then (req, Some (ESent errRelayBoth))
          else if d_AssociateLocalPort d \<and> (d_RelayDial d \<noteq> None \<or> req \<noteq> unknownDST) then (req, Some (ESent errLocalPort))
          else (req, None))"

section \<open>The relay address\<close>

text \<open>The outside of an association: the default dial to the proxy; the default relay dial, given its control function;
  the default relay socket; \<open>net.DefaultResolver\<close>, which without an error returns an address and maybe more; what
  clearing \<open>SO_BROADCAST\<close> returns.\<close>

record unet =
  un_dial :: dialfn
  un_relay :: "(string \<Rightarrow> error option) \<Rightarrow> relayfn"
  un_listen :: relayfn
  un_lookup :: "string \<Rightarrow> error + ip \<times> ip list"
  un_nobc :: "error option"

definition lookupIPs :: "unet \<Rightarrow> string \<Rightarrow> error + ip \<times> ip list" where
  "lookupIPs u name = (case un_lookup u name of Inl e \<Rightarrow> Inl e | Inr (x, xs) \<Rightarrow> Inr (Unmap x, map Unmap xs))"

definition resolveFirst :: "unet \<Rightarrow> addr \<Rightarrow> bool \<Rightarrow> error + addr" where
  "resolveFirst u a want4 =
     (case lookupIPs u (Name_of a) of
        Inl e \<Rightarrow> Inl e
      | Inr (x, xs) \<Rightarrow>
          Inr (caddrPort (case find Is4 (x # xs) of Some y \<Rightarrow> if want4 then y else x | None \<Rightarrow> x) (Port_of a)))"

text \<open>\<open>peer\<close> is \<open>remoteIP\<close> of the control conn.\<close>

definition pickRelayIP :: "ip \<times> ip list \<Rightarrow> ip \<Rightarrow> ip \<Rightarrow> ip" where
  "pickRelayIP ips peer bound =
     (let l = fst ips # snd ips in
      if (\<not> Is4 bound \<or> Is4 peer) \<and> peer \<in> set l then peer
      else case find (\<lambda>x. Is4 x = Is4 bound) l of Some x \<Rightarrow> x | None \<Rightarrow> fst ips)"

definition resolveProxyHost :: "unet \<Rightarrow> dialer \<Rightarrow> addr \<Rightarrow> ip \<Rightarrow> ip \<Rightarrow> error + addr" where
  "resolveProxyHost u d name boundIP peer =
     (if d_ProxyDial d = None \<and> ip_IsValid peer then
        (case resolveFirst u name True of
           Inr a \<Rightarrow> if Is4 (IP_of a) then Inr a else Inr (caddrPort peer (Port_of name))
         | Inl e \<Rightarrow> Inr (caddrPort peer (Port_of name)))
      else case lookupIPs u (Name_of name) of
        Inl e \<Rightarrow> Inl e
      | Inr ips \<Rightarrow> Inr (caddrPort (pickRelayIP ips peer boundIP) (Port_of name)))"

definition substitute :: "unet \<Rightarrow> dialer \<Rightarrow> addr \<Rightarrow> ip \<Rightarrow> proxyHost \<Rightarrow> bool \<Rightarrow> bool \<Rightarrow> error + addr" where
  "substitute u d bound peer proxy force keepName =
     (let x = IP_of bound in
      if \<not> force \<and> \<not> IsUnspecified x then Inr bound
      else case ph_err proxy of
        Some e \<Rightarrow> Inl e
      | None \<Rightarrow>
          if ip_IsValid (ph_ip proxy) then Inr (caddrPort (ph_ip proxy) (Port_of bound))
          else if d_ProxyDial d = None \<and> ip_IsValid peer \<and> (\<not> Is4 x \<or> Is4 peer) then Inr (caddrPort peer (Port_of bound))
          else case nameAddr (ph_name proxy) (Port_of bound) of
            Inl e \<Rightarrow> Inl e
          | Inr name \<Rightarrow> if keepName then Inr name else resolveProxyHost u d name x peer)"

text \<open>\<open>relayAddr\<close>: the address and the IP of the proxy the policy compares it with.\<close>

definition relayAddr :: "unet \<Rightarrow> dialer \<Rightarrow> ip \<Rightarrow> addr \<Rightarrow> (error + addr) \<times> ip" where
  "relayAddr u d peer bound =
     (let proxy = proxyHost_of d;
          r = substitute u d bound peer proxy (d_RelayUseProxyHost d) (d_RelayDial d \<noteq> None \<and> d_ProxyDial d \<noteq> None);
          proxyIP = (if ip_IsValid (ph_ip proxy) then ph_ip proxy else peer)
      in (case r of
            Inl e \<Rightarrow> Inl e
          | Inr ra \<Rightarrow>
              if ip_IsValid (IP_of ra)
              then (case checkRelay (IP_of ra) proxyIP of Some e \<Rightarrow> Inl e | None \<Rightarrow> Inr ra)
              else Inr ra,
          proxyIP))"

definition cudpNetwork :: "ip \<Rightarrow> string" where
  "cudpNetwork x = (if Is4 x then ''udp4'' else if Is6 x then ''udp6'' else ''udp'')"

section \<open>The relay socket\<close>

definition rs_close :: "rsock \<Rightarrow> rsock" where
  "rs_close s = s\<lparr>rs_closed := True\<rparr>"

text \<open>The socket in its last state, and the error.\<close>

definition dialRelay :: "unet \<Rightarrow> dialer \<Rightarrow> string \<Rightarrow> addr \<Rightarrow> ip \<Rightarrow> rsock option \<times> error option" where
  "dialRelay u d network ra proxyIP =
     (let (conn, err) = (case d_RelayDial d of Some f \<Rightarrow> f | None \<Rightarrow> un_relay u (relayControl proxyIP (un_nobc u))) network (addr_String ra);
          (cl, e) = dialErr conn err (ESent errNoRelayConn)
      in (if cl then map_option rs_close conn else conn, e))"

definition prebind :: "unet \<Rightarrow> dialer \<Rightarrow> string \<Rightarrow> rsock option \<times> error option" where
  "prebind u d network =
     (let (pc, err) = (case d_RelayListen d of Some f \<Rightarrow> f | None \<Rightarrow> un_listen u) network '':0'';
          (cl, e) = dialErr pc err (ESent errNoRelayConn);
          pc1 = (if cl then map_option rs_close pc else pc)
      in case (e, pc1) of
           (None, Some s) \<Rightarrow> if rs_port s = None \<or> rs_port s = Some 0 then (Some (rs_close s), Some (ESent errNoLocalPort)) else (Some s, None)
         | _ \<Rightarrow> (pc1, e))"

text \<open>\<open>listenRelay\<close> with the socket \<open>pre\<close> opened before, if any: the relay's address, the unconnected socket, \<open>pre\<close> in its
  last state.\<close>

definition listenRelay ::
  "unet \<Rightarrow> dialer \<Rightarrow> string \<Rightarrow> addr \<Rightarrow> ip \<Rightarrow> rsock option \<Rightarrow> addr \<times> rsock option \<times> rsock option \<times> error option" where
  "listenRelay u d network ra proxyIP pre =
     (let (ra1, err1) =
            (if IsName ra then
               (case resolveFirst u ra False of
                  Inl e \<Rightarrow> (zeroAddr, Some e)
                | Inr a \<Rightarrow> (a, checkRelay (IP_of a) proxyIP))
             else (ra, None));
          (pc, err2) =
            (if err1 \<noteq> None then (None, err1)
             else case pre of
               Some s \<Rightarrow> (Some s, None)
             | None \<Rightarrow> (case d_RelayListen d of Some f \<Rightarrow> f network '':0'' | None \<Rightarrow> (None, None)));
          (cl, err3) = dialErr pc err2 (ESent errNoRelayConn)
      in (ra1, if cl then map_option rs_close pc else pc, if err3 \<noteq> None then map_option rs_close pre else pre, err3))"

text \<open>What \<open>udpState\<close> holds once the relay is there: a connected socket or an unconnected one with the relay's address.\<close>

record urelay =
  ur_relay :: "rsock option"
  ur_pc :: "rsock option"
  ur_relayAP :: addrport

text \<open>\<open>relay\<close>; every socket in its last state.\<close>

definition urelay_open ::
  "unet \<Rightarrow> dialer \<Rightarrow> ip \<Rightarrow> addr \<Rightarrow> rsock option \<Rightarrow> kconn \<Rightarrow> kconn \<times> urelay \<times> rsock option \<times> error option" where
  "urelay_open u d peer bound pre c =
     (let none = \<lparr>ur_relay = None, ur_pc = None, ur_relayAP = zeroAddrPort\<rparr> in
      case relayAddr u d peer bound of
        (Inl e, proxyIP) \<Rightarrow> (c, none, map_option rs_close pre, Some e)
      | (Inr ra, proxyIP) \<Rightarrow>
          let network = cudpNetwork (IP_of ra); c1 = ksay [EvRelayStart network (addr_String ra)] c in
          if d_RelayListen d = None \<and> pre = None then
            (case dialRelay u d network ra proxyIP of
               (conn, err) \<Rightarrow> (ksay [EvRelayDone err] c1, none\<lparr>ur_relay := conn\<rparr>, None, err))
          else
            (case listenRelay u d network ra proxyIP pre of
               (ra1, pc, pre1, err) \<Rightarrow>
                 (ksay [EvRelayDone err] c1, none\<lparr>ur_pc := pc, ur_relayAP := AddrPortFrom (IP_of ra1) (Port_of ra1)\<rparr>, pre1, err)))"

text \<open>\<open>openRelay\<close>: the control conn is closed on an error, and \<open>HandshakeDone\<close> runs.\<close>

definition openRelay ::
  "cctx \<Rightarrow> unet \<Rightarrow> dialer \<Rightarrow> pconn \<Rightarrow> rsock option \<Rightarrow> kconn \<Rightarrow> kconn \<times> pconn \<times> urelay \<times> rsock option \<times> error option" where
  "openRelay x u d control pre c =
     (case urelay_open u d (Unmap (pn_peer control)) (h_bound (k_h c)) pre c of
        (c1, r, pre1, Some e) \<Rightarrow>
          let err = opError c1 (StageRelayDial, ctxErr (cx_atRelay x) e)
          in (ksay [EvDone (Some err)] c1, pn_close control, r, pre1, Some err)
      | (c1, r, pre1, None) \<Rightarrow> (ksay [EvDone None] c1, control, r, pre1, None))"

section \<open>The association\<close>

definition setRequestDST ::
  "cctx \<Rightarrow> unet \<Rightarrow> dialer \<Rightarrow> string \<Rightarrow> addr \<Rightarrow> bool \<Rightarrow> kconn \<Rightarrow> kconn \<times> rsock option \<times> error option" where
  "setRequestDST x u d network req connected c =
     (let (pre, perr) = (if d_AssociateLocalPort d then prebind u d network else (None, None)) in
      case perr of
        Some e \<Rightarrow> (c, pre, Some (opError c (StageRelayDial, ctxErr (cx_atRelay x) e)))
      | None \<Rightarrow>
          let req1 = (case pre of Some s \<Rightarrow> caddrPort (IP4 0) (case rs_port s of Some p \<Rightarrow> p | None \<Rightarrow> 0) | None \<Rightarrow> req);
              target = (if pre \<noteq> None \<and> \<not> connected then req1 else h_target (k_h c))
          in (if connected \<or> pre \<noteq> None
              then c\<lparr>k_h := (case setTarget req1 (k_h c) of Inr h \<Rightarrow> h | Inl e \<Rightarrow> k_h c)\<lparr>h_target := target\<rparr>\<rparr> else c, pre, None))"

text \<open>\<open>associate\<close> up to \<open>start\<close>: what there is to start, or the error; then the control conn, the socket opened
  first and the relay sockets, in their last states.\<close>

record uassoc =
  ua_control :: pconn
  ua_rel :: urelay
  ua_target :: addr
  ua_bound :: addr
  ua_network :: string

type_synonym uleft = "pconn option \<times> rsock option \<times> urelay option"

definition associate ::
  "cctx \<Rightarrow> unet \<Rightarrow> dialer option \<Rightarrow> string \<Rightarrow> addr \<Rightarrow> error option \<Rightarrow> string \<Rightarrow> ((error + uassoc) \<times> uleft) option" where
  "associate x u dl network target0 err0 dst =
     (let (req, err1) = (case (dl, err0) of (Some d, None) \<Rightarrow> associateDST d dst | _ \<Rightarrow> (zeroAddr, err0));
          connected = addr_IsValid target0;
          target = (if connected then target0 else req)
      in case dnewConn x dl opAssociate network CmdUDPAssociate target err1 (kdial0\<lparr>k_doneAfterRelay := True\<rparr>) of
           (c, Inl e) \<Rightarrow> Some (Inl e, None, None, None)
         | (c, Inr resolved) \<Rightarrow>
             (case dl of
                None \<Rightarrow> None
              | Some d \<Rightarrow>
                  (case setRequestDST x u d network req connected c of
                     (c1, pre, Some e) \<Rightarrow> Some (Inl e, None, pre, None)
                   | (c1, pre, None) \<Rightarrow>
                       map_option
                         (\<lambda>(c2, conn, err). case (err, conn) of
                            (Some e, _) \<Rightarrow> (Inl e, conn, map_option rs_close pre, None)
                          | (None, None) \<Rightarrow> (Inl (ESent errNoProxyConn), None, map_option rs_close pre, None)
                          | (None, Some p) \<Rightarrow>
                              (case openRelay x u d p pre c2 of
                                 (c3, p1, r, pre1, Some e) \<Rightarrow> (Inl e, Some p1, pre1, Some r)
                               | (c3, p1, r, pre1, None) \<Rightarrow>
                                   (Inr \<lparr>ua_control = p1, ua_rel = r, ua_target = (if connected then resolved else zeroAddr),
                                         ua_bound = h_bound (k_h c2), ua_network = network\<rparr>,
                                    Some p1, pre1, Some r)))
                         (dconnect x (un_dial u) d c1))))"

definition ListenUDP :: "cctx \<Rightarrow> unet \<Rightarrow> dialer option \<Rightarrow> string \<Rightarrow> string \<Rightarrow> ((error + uassoc) \<times> uleft) option" where
  "ListenUDP x u dl network address =
     associate x u dl network zeroAddr
       (if network \<in> {''udp'', ''udp4'', ''udp6''} then None else Some (EUnknownNetwork network)) address"

definition DialUDP :: "cctx \<Rightarrow> unet \<Rightarrow> dialer option \<Rightarrow> string \<Rightarrow> string \<Rightarrow> ((error + uassoc) \<times> uleft) option" where
  "DialUDP x u dl network a =
     (let (target, err) = parseTarget network a
      in associate x u dl network target err (case dl of Some d \<Rightarrow> d_AssociateAddr d | None \<Rightarrow> []))"

end
