(* ===== verification/Steps.thy ===== *)
theory Steps
  imports Prelude
begin

text \<open>
  Systems of steps: what holds at the start and is kept by every step holds in every state that is reached; what is kept alone, from
  the state in which it holds on.
\<close>

locale kept =
  fixes step :: "'s \<Rightarrow> 's \<Rightarrow> bool" and inv :: "'s \<Rightarrow> bool" and stays :: "'s \<Rightarrow> 's \<Rightarrow> bool"
  assumes inv_step: "inv s \<Longrightarrow> step s t \<Longrightarrow> inv t"
    and stays_refl: "stays s s"
    and stays_step: "inv s \<Longrightarrow> step s t \<Longrightarrow> stays s t"
    and stays_trans: "stays s t \<Longrightarrow> stays t u \<Longrightarrow> stays s u"
begin

lemma inv_reach: "step\<^sup>*\<^sup>* s t \<Longrightarrow> inv s \<Longrightarrow> inv t"
  by (induction rule: rtranclp_induct) (auto intro: inv_step)

lemma stays_reach: "step\<^sup>*\<^sup>* s t \<Longrightarrow> inv s \<Longrightarrow> stays s t"
proof (induction rule: rtranclp_induct)
  case base
  show ?case by (rule stays_refl)
next
  case (step t u)
  then show ?case using inv_reach stays_step stays_trans by blast
qed

end

locale kept_from = kept step inv stays for step :: "'s \<Rightarrow> 's \<Rightarrow> bool" and inv stays +
  fixes init :: "'s \<Rightarrow> bool"
  assumes inv_init: "init s \<Longrightarrow> inv s"
begin

lemma inv_from: "init s \<Longrightarrow> step\<^sup>*\<^sup>* s t \<Longrightarrow> inv t"
  using inv_init inv_reach by blast

lemma stays_from: "init s \<Longrightarrow> step\<^sup>*\<^sup>* s t \<Longrightarrow> step\<^sup>*\<^sup>* t u \<Longrightarrow> stays t u"
  using inv_from stays_reach by blast

end

end
