(* ===== verification/ClientUDP.thy ===== *)
theory ClientUDP
  imports ClientRelay ClientErrors Steps
begin

text \<open>
  A UDP association on the client (second half of \<open>udp.go\<close>): its datagrams, and how it ends.
\<close>

section \<open>The association\<close>

text \<open>The relay socket: none, a connected conn with its remote address if that is a UDP address, or a packet conn with the relay it
  sends to; whether that is a \<open>net.UDPConn\<close>.\<close>

datatype usock = UDead | UConnected "addrport option" | UPacket bool addrport

text \<open>The fields of \<open>udpState\<close> its datagrams need; addresses in errors are their texts. \<open>us_rcap\<close> is the capacity of \<open>rbuf\<close>.\<close>

record ust =
  us_sock :: usock
  us_network :: string
  us_target :: addr
  us_laddr :: "string option"
  us_maxLen :: nat
  us_rcap :: nat

definition us_dead :: "ust \<Rightarrow> bool" where
  "us_dead s = (us_sock s = UDead)"

definition relayMax :: "ip \<Rightarrow> nat" where
  "relayMax x = (if Is6 x then 65535 - 8 else 65535 - 8 - 20)"

definition ustart :: "usock \<Rightarrow> string option \<Rightarrow> string \<Rightarrow> addr \<Rightarrow> ust" where
  "ustart sock laddr network target =
     \<lparr>us_sock = sock, us_network = network, us_target = target, us_laddr = (if sock = UDead then None else laddr),
      us_maxLen =
        (case sock of
           UDead \<Rightarrow> 65535 - 8 - 20
         | UConnected ua \<Rightarrow> (case ua of Some ap \<Rightarrow> relayMax (Unmap (ap_addr ap)) | None \<Rightarrow> 65535 - 8 - 20)
         | UPacket u ap \<Rightarrow> relayMax (ap_addr ap)),
      us_rcap = 0\<rparr>"

definition us_raddr :: "ust \<Rightarrow> string option" where
  "us_raddr s = (if addr_IsValid (us_target s) then Some (addr_String (us_target s)) else None)"

definition unewErr :: "ust \<Rightarrow> string \<Rightarrow> string option \<Rightarrow> error \<Rightarrow> error" where
  "unewErr s op a e = EOp op ''udp'' (us_laddr s) a e"

definition errNoUDPConn :: error where
  "errNoUDPConn = EHandshake StageConfig (Some (ESent errNoConn))"

definition NewUDPConn :: "pconn option \<Rightarrow> (rsock \<times> string) option \<Rightarrow> addr \<Rightarrow> ust \<times> pconn option \<times> rsock option" where
  "NewUDPConn control relay target =
     (case (control, relay) of
        (Some c, Some (r, l)) \<Rightarrow> (ustart (UConnected (rs_peer r)) (Some l) ''udp'' target, Some c, Some r)
      | _ \<Rightarrow> (ustart UDead None ''udp'' target, map_option pn_close control, map_option (rs_close \<circ> fst) relay))"

section \<open>Errors of I/O\<close>

text \<open>\<open>ioErr\<close> once it has waited: \<open>ended\<close> is \<open>s.err\<close>, read before \<open>closed\<close>.\<close>

definition uioErr :: "ust \<Rightarrow> string \<Rightarrow> string option \<Rightarrow> error \<Rightarrow> error option \<Rightarrow> bool \<Rightarrow> error" where
  "uioErr s op a e ended closed =
     unewErr s op a
       (if closed then ESent NetErrClosed
        else case ended of
          Some x \<Rightarrow> x
        | None \<Rightarrow> (case e of EOp p n sa da x \<Rightarrow> x | _ \<Rightarrow> e))"

section \<open>Reading\<close>

text \<open>What the relay socket gives to a read: a datagram with the address it is from, if the socket tells a UDP address; or an error.\<close>

datatype urecv = URecv "addrport option" bytes | UFail error

definition maxRelayDatagram :: nat where "maxRelayDatagram = 65535"

text \<open>\<open>readRelay\<close> with a buffer of \<open>cap\<close> bytes: an error, a datagram that is dropped for its source, or the bytes read.\<close>

datatype uread = ReadErr error | ReadDrop addr error | ReadGot bytes

definition readRelay :: "ust \<Rightarrow> nat \<Rightarrow> urecv \<Rightarrow> uread" where
  "readRelay s cap r =
     (case r of
        UFail e \<Rightarrow> ReadErr e
      | URecv from d \<Rightarrow>
          (case (us_sock s, from) of
             (UPacket u ap, Some f) \<Rightarrow>
               if Unmap (ap_addr f) \<noteq> ap_addr ap then ReadDrop (AddrFromAddrPort f) (ESent ErrWrongSourceC) else ReadGot (take cap d)
           | _ \<Rightarrow> ReadGot (take cap d)))"

text \<open>\<open>neterr.Truncated\<close> for the hook; without the hook the drops are not seen.\<close>

definition udrop :: "addr \<Rightarrow> error \<Rightarrow> addr \<times> error" where
  "udrop from e = (from, Truncated StageUDPHeader e)"

text \<open>The loop of \<open>readFrom\<close> over what the relay gives: what is dropped, and the datagram or the error of the socket that ends it;
  \<open>None\<close> while it waits for more.\<close>

fun readLoopU :: "ust \<Rightarrow> nat \<Rightarrow> nat \<Rightarrow> (addr \<times> error) list \<Rightarrow> urecv list \<Rightarrow> ((addr \<times> error) list \<times> (error + bytes \<times> addr) \<times> urecv list) option" where
  "readLoopU s cap len ds [] = None"
| "readLoopU s cap len ds (r # rs) =
     (case readRelay s cap r of
        ReadErr e \<Rightarrow> Some (ds, Inl e, rs)
      | ReadDrop a e \<Rightarrow> readLoopU s cap len (ds @ [udrop a e]) rs
      | ReadGot d \<Rightarrow>
          (case ParseUDPHeader d of
             (v, hn, Some e) \<Rightarrow> readLoopU s cap len (ds @ [udrop zeroAddr e]) rs
           | ((frag, from), hn, None) \<Rightarrow>
               if frag \<noteq> 0 then readLoopU s cap len (ds @ [udrop from (ESent ErrFragmentC)]) rs
               else if ip_IsValid (IP_of (us_target s)) \<and> from \<noteq> us_target s
                 then readLoopU s cap len (ds @ [udrop from (ESent ErrWrongSourceC)]) rs
               else Some (ds, Inr (take len (drop hn d), from), rs)))"

text \<open>\<open>readFrom\<close> of at most \<open>len\<close> bytes; \<open>ended\<close> and \<open>closed\<close> are what \<open>ioErr\<close> finds if the socket fails.\<close>

definition ureadFrom ::
  "ust \<Rightarrow> nat \<Rightarrow> error option \<Rightarrow> bool \<Rightarrow> urecv list \<Rightarrow> (ust \<times> (addr \<times> error) list \<times> (error + bytes \<times> addr) \<times> urecv list) option" where
  "ureadFrom s len ended closed rs =
     (if us_dead s then Some (s, [], Inl (unewErr s ''read'' None errNoUDPConn), rs)
      else
        let need = min (len + MaxUDPHeaderLen) maxRelayDatagram; cap = max (us_rcap s) need
        in map_option
             (\<lambda>(ds, r, rest). (s\<lparr>us_rcap := cap\<rparr>, ds, case r of Inl e \<Rightarrow> Inl (uioErr s ''read'' (us_raddr s) e ended closed) | Inr x \<Rightarrow> Inr x, rest))
             (readLoopU s cap len [] rs))"

section \<open>Writing\<close>

text \<open>\<open>writeTo\<close> up to the socket: the error, or the datagram for the relay.\<close>

definition uwriteTo :: "ust \<Rightarrow> bytes \<Rightarrow> addr \<Rightarrow> string option \<Rightarrow> error + bytes" where
  "uwriteTo s b t a =
     (let errAddr = (if a = None \<and> addr_IsValid t then Some (addr_String t) else a) in
      if \<not> addr_IsValid t then Inl (unewErr s ''write'' a (EErrno EINVAL))
      else if \<not> matchesFamily (us_network s) (IP_of t) then Inl (unewErr s ''write'' errAddr (familyErr (us_network s) (addr_String t)))
      else if int (length b) > int (us_maxLen s) - int (UDPHeaderLen t) then Inl (unewErr s ''write'' errAddr (EErrno EMSGSIZE))
      else if us_dead s then Inl (unewErr s ''write'' errAddr errNoUDPConn)
      else Inr (fst (AppendUDPHeader [] 0 t) @ b))"

text \<open>The \<open>net.Addr\<close> a caller passes to \<open>WriteTo\<close>; a \<open>*net.UDPAddr\<close> and a type of the caller with their texts.\<close>

datatype naddr = NNil | NUDPAddr "(addrport \<times> string) option" | NWire addr | NWirePtr "addr option" | NOther string

definition naddr_to :: "naddr \<Rightarrow> addr" where
  "naddr_to a =
     (case a of NUDPAddr (Some (ap, t)) \<Rightarrow> AddrFromAddrPort ap | NWire w \<Rightarrow> w | NWirePtr (Some w) \<Rightarrow> w | _ \<Rightarrow> zeroAddr)"

definition naddr_String :: "naddr \<Rightarrow> string option" where
  "naddr_String a =
     (case a of
        NNil \<Rightarrow> None
      | NUDPAddr (Some (ap, t)) \<Rightarrow> Some t
      | NUDPAddr None \<Rightarrow> Some ''<nil>''
      | NWire w \<Rightarrow> Some (addr_String w)
      | NWirePtr (Some w) \<Rightarrow> Some (addr_String w)
      | NWirePtr None \<Rightarrow> None
      | NOther t \<Rightarrow> Some t)"

definition uWriteTo :: "ust \<Rightarrow> bytes \<Rightarrow> naddr \<Rightarrow> error + bytes" where
  "uWriteTo s b a =
     (if addr_IsValid (us_target s) then Inl (unewErr s ''write'' (naddr_String a) (ESent ErrWriteToConnected))
      else uwriteTo s b (naddr_to a) (naddr_String a))"

definition uWriteToAddr :: "ust \<Rightarrow> bytes \<Rightarrow> addr \<Rightarrow> error + bytes" where
  "uWriteToAddr s b t =
     (if addr_IsValid (us_target s) then Inl (unewErr s ''write'' (Some (addr_String t)) (ESent ErrWriteToConnected))
      else uwriteTo s b t None)"

definition uWrite :: "ust \<Rightarrow> bytes \<Rightarrow> error + bytes" where
  "uWrite s b =
     (if \<not> addr_IsValid (us_target s) then Inl (unewErr s ''write'' None (EErrno EDESTADDRREQ))
      else uwriteTo s b (us_target s) (us_raddr s))"

section \<open>The end of an association\<close>

text \<open>The watcher, between its steps: it reads the control conn, the read failed, it has set \<open>err\<close>, it has closed the relay
  socket, it has closed \<open>done\<close>.\<close>

datatype wpc = WRead | WGot error | WSet | WClosed | WExit

text \<open>A goroutine of the caller: in \<open>Close\<close> after each of its steps, with its result; in a read or write of the relay socket, in
  \<open>ioErr\<close> with the error of the socket, after waiting, after reading \<open>err\<close>, with its result.\<close>

datatype upc = UIdle
  | UClosing | UErrSet | UReadUnblocked | UControl | UWaiting | UClosedRet "error option"
  | UInIO | UFailed error | UAwait error | UAwaited error | UEnded error "error option" | UErr error

record ulife =
  ul_dead :: bool
  ul_err :: "error option"
  ul_closed :: bool
  ul_done :: bool
  ul_readDeadline :: bool
  ul_control :: bool
  ul_relayCloses :: nat
  ul_once :: bool
  ul_over :: bool
  ul_watch :: wpc
  ul_calls :: "nat \<Rightarrow> upc"

text \<open>\<open>ul_over\<close>: the control conn failed or was closed by the proxy. \<open>ustart\<close> and a dead association.\<close>

definition ulife0 :: "bool \<Rightarrow> ulife" where
  "ulife0 dead =
     \<lparr>ul_dead = dead, ul_err = (if dead then Some errNoUDPConn else None), ul_closed = False, ul_done = dead, ul_readDeadline = False,
      ul_control = False, ul_relayCloses = 0, ul_once = False, ul_over = False, ul_watch = (if dead then WExit else WRead),
      ul_calls = (\<lambda>i. UIdle)\<rparr>"

definition ucall :: "nat \<Rightarrow> upc \<Rightarrow> ulife \<Rightarrow> ulife" where
  "ucall i p u = u\<lparr>ul_calls := (ul_calls u)(i := p)\<rparr>"

definition set_err :: "error \<Rightarrow> ulife \<Rightarrow> ulife" where
  "set_err e u = (if ul_err u = None then u\<lparr>ul_err := Some e\<rparr> else u)"

definition closeRelay :: "ulife \<Rightarrow> ulife" where
  "closeRelay u = (if ul_once u then u else u\<lparr>ul_once := True, ul_relayCloses := ul_relayCloses u + 1\<rparr>)"

definition closedByProxy :: "error \<Rightarrow> error" where
  "closedByProxy e = EWrap ''%w: %w'' [ESent ErrAssociationClosed, e]"

text \<open>The steps of \<open>watch\<close>; a read of the control conn fails once the conn is over, closed, or its deadline past.\<close>

inductive wstep :: "ulife \<Rightarrow> ulife \<Rightarrow> bool" where
  w_read: "ul_watch u = WRead \<Longrightarrow> ul_over u \<or> ul_control u \<or> ul_readDeadline u \<Longrightarrow> wstep u (u\<lparr>ul_watch := WGot e\<rparr>)"
| w_err: "ul_watch u = WGot e \<Longrightarrow> wstep u (set_err (closedByProxy e) u\<lparr>ul_watch := WSet\<rparr>)"
| w_relay: "ul_watch u = WSet \<Longrightarrow> wstep u (closeRelay u\<lparr>ul_watch := WClosed\<rparr>)"
| w_done: "ul_watch u = WClosed \<Longrightarrow> wstep u (u\<lparr>ul_done := True, ul_watch := WExit\<rparr>)"

text \<open>The steps of \<open>close\<close> in goroutine \<open>i\<close>. Waiting for the watcher ends with \<open>done\<close> or after a second.\<close>

definition close_swap :: "ust \<Rightarrow> nat \<Rightarrow> ulife \<Rightarrow> ulife" where
  "close_swap s i u =
     (if ul_closed u then ucall i (UClosedRet (Some (unewErr s ''close'' None (ESent NetErrClosed)))) u
      else ucall i UClosing (u\<lparr>ul_closed := True\<rparr>))"

definition close_err :: "nat \<Rightarrow> ulife \<Rightarrow> ulife" where
  "close_err i u = ucall i (if ul_dead u then UClosedRet None else UErrSet) (set_err (ESent NetErrClosed) u)"

inductive cstep :: "ust \<Rightarrow> nat \<Rightarrow> ulife \<Rightarrow> ulife \<Rightarrow> bool" for s i where
  c_swap: "ul_calls u i = UIdle \<Longrightarrow> cstep s i u (close_swap s i u)"
| c_err: "ul_calls u i = UClosing \<Longrightarrow> cstep s i u (close_err i u)"
| c_unblock: "ul_calls u i = UErrSet \<Longrightarrow> cstep s i u (ucall i UReadUnblocked (u\<lparr>ul_readDeadline := True\<rparr>))"
| c_control: "ul_calls u i = UReadUnblocked \<Longrightarrow> cstep s i u (ucall i UControl (u\<lparr>ul_control := True\<rparr>))"
| c_relay: "ul_calls u i = UControl \<Longrightarrow> cstep s i u (ucall i UWaiting (closeRelay u))"
| c_wait: "ul_calls u i = UWaiting \<Longrightarrow> ul_done u \<or> timer \<Longrightarrow> cstep s i u (ucall i (UClosedRet None) u)"

text \<open>The steps of a read or write of goroutine \<open>i\<close> on an association that is not dead: the socket succeeds or fails; \<open>ioErr\<close>
  waits for \<open>done\<close> or 50 ms if the relay's port refused, reads \<open>err\<close>, then \<open>closed\<close>.\<close>

inductive iostep :: "ust \<Rightarrow> nat \<Rightarrow> ulife \<Rightarrow> ulife \<Rightarrow> bool" for s i where
  i_start: "ul_calls u i = UIdle \<Longrightarrow> \<not> ul_dead u \<Longrightarrow> iostep s i u (ucall i UInIO u)"
| i_ok: "ul_calls u i = UInIO \<Longrightarrow> iostep s i u (ucall i UIdle u)"
| i_fail: "ul_calls u i = UInIO \<Longrightarrow> \<not> IsS e ErrAssociationClosed \<Longrightarrow> iostep s i u (ucall i (UFailed e) u)"
| i_refused: "ul_calls u i = UFailed e \<Longrightarrow>
    iostep s i u (ucall i (if \<not> ul_closed u \<and> errnoKind e = KindRefused then UAwait e else UAwaited e) u)"
| i_await: "ul_calls u i = UAwait e \<Longrightarrow> ul_done u \<or> timer \<Longrightarrow> iostep s i u (ucall i (UAwaited e) u)"
| i_ended: "ul_calls u i = UAwaited e \<Longrightarrow> iostep s i u (ucall i (UEnded e (ul_err u)) u)"
| i_result: "ul_calls u i = UEnded e x \<Longrightarrow> iostep s i u (ucall i (UErr (uioErr s op a e x (ul_closed u))) u)"

text \<open>All of them, the next call of a goroutine, and the proxy.\<close>

inductive astep :: "ust \<Rightarrow> ulife \<Rightarrow> ulife \<Rightarrow> bool" for s where
  u_watch: "wstep u v \<Longrightarrow> astep s u v"
| u_close: "cstep s i u v \<Longrightarrow> astep s u v"
| u_io: "iostep s i u v \<Longrightarrow> astep s u v"
| u_next: "ul_calls u i = UClosedRet r \<or> ul_calls u i = UErr e \<Longrightarrow> astep s u (ucall i UIdle u)"
| u_over: "astep s u (u\<lparr>ul_over := True\<rparr>)"

end
