(* ===== verification/ClientURL.thy ===== *)
theory ClientURL
  imports ClientDial NetTextRoundtrip
begin

text \<open>
  Proxy URLs (\<open>url.go\<close>): from \<open>url.URL\<close> to the address, configuration and dialer of a proxy. \<open>strconv.Quote\<close> and the
  zero \<open>tls.Dialer\<close> are parameters.
\<close>

section \<open>url.URL\<close>

text \<open>What \<open>url.go\<close> uses of \<open>url.URL\<close>: \<open>User\<close> with its password if one is set, \<open>Hostname\<close>, \<open>Port\<close>, and \<open>String\<close> of a URL of
  scheme and host.\<close>

record purl =
  u_Scheme :: string
  u_Opaque :: string
  u_User :: "(string \<times> string option) option"
  u_Host :: string

definition validOptionalPort :: "string \<Rightarrow> bool" where
  "validOptionalPort p = (p = [] \<or> (p ! 0 = CHR '':'' \<and> list_all is_digit (tl p)))"

definition u_split :: "string \<Rightarrow> string \<times> string" where
  "u_split hp =
     (let (host, port) = (case last_index_of (CHR '':'') hp of
            Some i \<Rightarrow> if validOptionalPort (drop i hp) then (take i hp, drop (i + 1) hp) else (hp, [])
          | None \<Rightarrow> (hp, []))
      in (if host \<noteq> [] \<and> host ! 0 = CHR ''['' \<and> last host = CHR '']'' \<and> length host > 1 then butlast (tl host) else host, port))"

definition u_Hostname :: "purl \<Rightarrow> string" where "u_Hostname u = fst (u_split (u_Host u))"
definition u_Port :: "purl \<Rightarrow> string" where "u_Port u = snd (u_split (u_Host u))"

definition is_upper :: "char \<Rightarrow> bool" where "is_upper c = (65 \<le> (of_char c :: nat) \<and> (of_char c :: nat) \<le> 90)"
definition is_lower :: "char \<Rightarrow> bool" where "is_lower c = (97 \<le> (of_char c :: nat) \<and> (of_char c :: nat) \<le> 122)"

text \<open>\<open>strings.ToLower\<close> on ASCII: of the other letters only the Kelvin sign lowers to one in the name of a scheme, and no
  parsed URL has it in its scheme.\<close>

definition ToLower :: "string \<Rightarrow> string" where
  "ToLower s = map (\<lambda>c. if is_upper c then char_of (of_char c + 32 :: nat) else c) s"

definition upper_hex :: "nat \<Rightarrow> char" where
  "upper_hex n = char_of (if n < 10 then 48 + n else 55 + n)"

definition escapeHost :: "string \<Rightarrow> string" where
  "escapeHost s = concat (map (\<lambda>c.
     if is_digit c \<or> is_upper c \<or> is_lower c \<or> c \<in> set ''!$&'' \<or> c = CHR 0x27 \<or> c \<in> set ''()*+,;=:[]<>'' \<or> c = CHR 0x22 \<or> c \<in> set ''-_.~''
     then [c] else [CHR ''%'', upper_hex (of_char c div 16), upper_hex (of_char c mod 16)]) s)"

definition url_String :: "string \<Rightarrow> string \<Rightarrow> string" where
  "url_String scheme host =
     (if scheme = [] then [] else scheme @ '':'') @ (if host = [] then [] else ''//'' @ escapeHost host)"

section \<open>ProxyURL\<close>

record proxyURL =
  pu_Addr :: string
  pu_Config :: cconfig
  pu_ResolveLocally :: bool
  pu_TLS :: bool

definition zeroProxyURL :: proxyURL where
  "zeroProxyURL = \<lparr>pu_Addr = [], pu_Config = zeroConfig, pu_ResolveLocally = False, pu_TLS = False\<rparr>"

definition setScheme :: "string \<Rightarrow> proxyURL \<Rightarrow> proxyURL option" where
  "setScheme scheme p =
     (let s = ToLower scheme in
      if s = ''socks5'' then Some (p\<lparr>pu_ResolveLocally := True\<rparr>)
      else if s = ''socks5h'' then Some p
      else if s = ''socks5s'' \<or> s = ''socks5+tls'' \<or> s = ''socks5h+tls'' then Some (p\<lparr>pu_TLS := True\<rparr>)
      else if s = ''socks4'' then Some (p\<lparr>pu_ResolveLocally := True, pu_Config := (pu_Config p)\<lparr>cc_Version := 4\<rparr>\<rparr>)
      else if s = ''socks4a'' then Some (p\<lparr>pu_Config := (pu_Config p)\<lparr>cc_Version := 4\<rparr>\<rparr>)
      else None)"

definition normalizePort :: "string \<Rightarrow> string option" where
  "normalizePort port =
     (if port = [] then Some ''1080''
      else case ParseUint16 port of
        None \<Rightarrow> None
      | Some n \<Rightarrow> if n = 0 then None else Some (nat_string n))"

definition setUser :: "string \<times> string option \<Rightarrow> proxyURL \<Rightarrow> proxyURL \<times> string" where
  "setUser up p =
     (let (user, pw) = up; pass = (case pw of Some x \<Rightarrow> x | None \<Rightarrow> []) in
      if length user > 255 \<or> length pass > 255 then (p, ''username or password over 255 bytes'')
      else if cc_Version (pu_Config p) = 4 \<and> pass \<noteq> [] then (p, ''SOCKS4 has no password'')
      else (p\<lparr>pu_Config := (pu_Config p)\<lparr>cc_Auth := Some (CUserPass user pass)\<rparr>\<rparr>, []))"

definition pu_parse :: "purl \<Rightarrow> proxyURL \<Rightarrow> proxyURL \<times> string" where
  "pu_parse u p =
     (case setScheme (u_Scheme u) p of
        None \<Rightarrow> (p, ''unsupported scheme'')
      | Some p1 \<Rightarrow>
          if u_Opaque u \<noteq> [] then (p1, ''opaque'')
          else if u_Hostname u = [] then (p1, ''no host'')
          else case normalizePort (u_Port u) of
            None \<Rightarrow> (p1, ''port must be 1-65535'')
          | Some port \<Rightarrow>
              let p2 = p1\<lparr>pu_Addr := JoinHostPort (u_Hostname u) port\<rparr> in
              if (case SplitHostPort (pu_Addr p2) of Inl e \<Rightarrow> True | Inr (host, x) \<Rightarrow> host \<noteq> u_Hostname u) then (p2, ''invalid host'')
              else case u_User u of
                Some up \<Rightarrow> setUser up p2
              | None \<Rightarrow> (p2, []))"

definition ParseProxyURL :: "(string \<Rightarrow> string) \<Rightarrow> purl option \<Rightarrow> error + proxyURL" where
  "ParseProxyURL Quote url =
     (case url of
        None \<Rightarrow> Inl (EStr ''socks0: nil proxy URL'')
      | Some u \<Rightarrow>
          (case pu_parse u zeroProxyURL of
             (p, why) \<Rightarrow>
               if why \<noteq> [] then Inl (EStr (''socks0: proxy URL '' @ Quote (url_String (u_Scheme u) (u_Host u)) @ '': '' @ why))
               else Inr p))"

definition FromURL :: "(string \<Rightarrow> string) \<Rightarrow> dialfn \<Rightarrow> resolver \<Rightarrow> purl option \<Rightarrow> error + dialer" where
  "FromURL Quote tlsDial DefaultResolver u =
     (case ParseProxyURL Quote u of
        Inl e \<Rightarrow> Inl e
      | Inr p \<Rightarrow>
          Inr \<lparr>d_ProxyAddr = pu_Addr p, d_ProxyDial = (if pu_TLS p then Some tlsDial else None),
               d_Resolver = (if pu_ResolveLocally p then Some DefaultResolver else None), d_Config = Some (pu_Config p, 0, 0),
               d_RelayDial = None, d_RelayListen = None, d_RelayUseProxyHost = False, d_AssociateAddr = [],
               d_AssociateLocalPort = False\<rparr>)"

end
