(* ===== verification/ClientTotal.thy ===== *)
theory ClientTotal
  imports ClientServer
begin

text \<open>
  The client's handshake always returns, in each mode and with each authenticator a \<open>Config\<close> may hold: nothing
  is asked of a \<open>Pipeliner\<close>'s \<open>ParseReply\<close>, which may break the Parse contract in any way. What the proxy's
  bytes mean is the matter of \<open>ClientRefine\<close>; here only the loop's measure counts, the reads that are left.
\<close>

section \<open>The reader\<close>

text \<open>What the reader needs to go on: its offsets lie in its buffer. A nil \<open>*UserPass\<close> is refused by \<open>setAuth\<close>.\<close>

definition usable :: "hs \<Rightarrow> bool" where
  "usable h \<longleftrightarrow> h_msgStart h \<le> h_filled h \<and> h_filled h \<le> length (h_rbuf h) \<and> h_auth h \<noteq> Some CNilUserPass"

lemma usable_upd [simp]:
  "usable (h\<lparr>h_method := m\<rparr>) = usable h" "usable (hook1 ev h) = usable h" "usable (h\<lparr>h_readStage := st\<rparr>) = usable h"
  "usable (h\<lparr>h_target := t\<rparr>) = usable h" "usable (h\<lparr>h_bound := t\<rparr>) = usable h" "usable (wipe h) = usable h"
  by (simp_all add: usable_def hook1_def wipe_def)

lemma usable_cinv: "usable h \<Longrightarrow> h_readErr h = None \<Longrightarrow> cinv h c"
  by (simp add: usable_def cinv_def)

lemma usable_read_more:
  assumes "usable h" and "h_readErr h = None" and "h_filled h < need" and "read_more need h c = (h1, c1)"
  shows "usable h1" and "weight (cn_rd c1) + (if h_readErr h1 = None then 1 else 0) \<le> weight (cn_rd c)"
  using read_more_facts [OF usable_cinv [OF assms(1,2)] assms(2-4)] assms(1) rframeD(13) [of h c h1 c1]
  by (simp_all add: usable_def cinv_def)

lemma readLoop_returns:
  assumes "usable h"
  shows "\<exists>h' c' v e. readLoop stage ahead q h c = Some (h', c', v, e) \<and> usable h'"
  using assms
proof (induction "weight (cn_rd c) + (if h_readErr h = None then 1 else 0)" arbitrary: h c rule: less_induct)
  case less
  obtain v n r where q: "q (h_input h) = (v, n, r)" by (cases "q (h_input h)")
  have len: "length (h_input h) = h_filled h - h_msgStart h" using less.prems by (simp add: usable_def h_input_def)
  let ?need = "h_msgStart h + nat (max n (int (length (h_input h)) + 1)) + ahead"
  consider (ok) "r = None" | (final) e where "r = Some e" "\<not> is_incomplete e \<or> h_readErr h \<noteq> None \<or> ?need > length (h_rbuf h) \<and> ?need > maxReplyBytes"
    | (more) e where "r = Some e" "is_incomplete e" "h_readErr h = None" "\<not> (?need > length (h_rbuf h) \<and> ?need > maxReplyBytes)"
    by (cases r) auto
  then show ?case
  proof cases
    case ok
    have "h_msgStart h + nat (min (max n 0) (int (length (h_input h)))) \<le> h_filled h" using less.prems len by (auto simp: usable_def)
    then show ?thesis using less.prems q ok by (subst readLoop.simps) (simp add: Let_def usable_def)
  next
    case final
    then show ?thesis
      using less.prems q by (subst readLoop.simps) (auto simp: Let_def split: option.splits)
  next
    case more
    have need: "h_filled h < ?need" using less.prems len by (auto simp: usable_def)
    obtain h1 c1 where rm: "read_more ?need h c = (h1, c1)" by fastforce
    note u = usable_read_more [OF less.prems more(3) need rm]
    have "readLoop stage ahead q h c = readLoop stage ahead q h1 c1"
      using q more rm by (subst readLoop.simps) (auto simp: Let_def)
    moreover have "weight (cn_rd c1) + (if h_readErr h1 = None then 1 else 0) < weight (cn_rd c) + (if h_readErr h = None then 1 else 0)"
      using u(2) more(3) by simp
    ultimately show ?thesis using less.hyps [OF _ u(1)] by simp
  qed
qed

lemma readNext_returns: "usable h \<Longrightarrow> \<exists>h' c' v e. readNext stage ahead q h c = Some (h', c', v, e) \<and> usable h'"
  unfolding readNext_def by (rule readLoop_returns) simp

text \<open>A step of the handshake that returns, and leaves the reader usable.\<close>

definition returns :: "(hs \<times> cnet \<times> 'a) option \<Rightarrow> bool" where
  "returns r \<longleftrightarrow> (\<exists>h c x. r = Some (h, c, x) \<and> usable h)"

lemma returns_Some [simp]: "returns (Some (h, c, x)) = usable h"
  by (auto simp: returns_def)

lemma returns_bind: "returns r \<Longrightarrow> (\<And>h c x. usable h \<Longrightarrow> returns (f (h, c, x))) \<Longrightarrow> returns (Option.bind r f)"
  by (auto simp: returns_def)

lemma returns_not_None: "returns r \<Longrightarrow> r \<noteq> None"
  by (auto simp: returns_def)

lemma readNext_ret: "usable h \<Longrightarrow> returns (readNext stage ahead q h c)"
  using readNext_returns [of h stage ahead q c] by (auto simp: returns_def)

lemma readMethod_ret: "usable h \<Longrightarrow> returns (readMethod ahead h c)"
  unfolding readMethod_def by (rule returns_bind [OF readNext_ret]) (auto simp: Let_def split: option.splits)

lemma readReply_ret: "usable h \<Longrightarrow> returns (readReply h c)"
  unfolding readReply_def nextReply_def
  by (intro returns_bind [OF returns_bind [OF readNext_ret]]) (auto simp: Let_def split: option.splits)

lemma readReplies_ret:
  assumes "usable h"
  shows "returns (readReplies h c)"
proof (cases "h_version h = 4")
  case True
  then show ?thesis using readReply_ret [OF assms] by (simp add: readReplies_def)
next
  case False
  have auth: "returns (case h_pipe h1 of None \<Rightarrow> readReply h1 c1
      | Some p \<Rightarrow> Option.bind (readNext (authRepStage h1) 5 (\<lambda>b. ((), pl_ParseReply p b)) h1 c1)
          (\<lambda>(h2, c2, u, err). let h3 = hook1 (AuthDone err) h2 in
             case err of Some e \<Rightarrow> Some (h3, c2, hs_fail h3 e) | None \<Rightarrow> readReply h3 c2))" if "usable h1" for h1 c1
    using that readReply_ret
    by (auto simp: Let_def intro!: returns_bind [OF readNext_ret] split: option.splits)
  show ?thesis
    using False auth by (auto simp: readReplies_def intro!: returns_bind [OF readMethod_ret [OF assms]])
qed

section \<open>Running it\<close>

lemma ReadUserPassStatus_returns: "\<exists>st e s'. ReadUserPassStatus s = Ret (st, e, s')"
proof -
  have "reads_as ParseUserPassStatus StageUserPassStatus ReadUserPassStatus"
    unfolding ReadUserPassStatus_def [abs_def] by (rule userpass_status.reads_as_wire_read)
  then show ?thesis
    unfolding reads_as_def by (elim allE [of _ s]) (auto split: prod.splits option.splits)
qed

lemma cauth_returns: "a \<noteq> CNilUserPass \<Longrightarrow> \<exists>c' e. cauth_Authenticate a c = Some (c', e)"
proof (cases a)
  case (CUserPass u p)
  obtain b e where a: "AppendUserPass [] u p = (b, e)" by fastforce
  obtain c1 n e1 where w: "cnet_write b c = (c1, n, e1)" by (cases "cnet_write b c") auto
  obtain st e2 s' where "ReadUserPassStatus (cn_rd c1) = Ret (st, e2, s')" using ReadUserPassStatus_returns by blast
  then show ?thesis using CUserPass a w by (cases e; cases e1) (simp_all add: UserPass_Authenticate_def)
next
  case (COther m f p)
  then show ?thesis by (cases "f c") simp
qed simp

lemma authenticate_ret: "usable h \<Longrightarrow> a \<noteq> CNilUserPass \<Longrightarrow> returns (ClientHandshake.authenticate a h c)"
  using cauth_returns [of a c] by (auto simp: ClientHandshake.authenticate_def Let_def split: option.splits)

lemma runSequential_ret:
  assumes "usable h"
  shows "returns (runSequential h c)"
proof -
  obtain c1 n werr where w: "cnet_write (take (h_greetingEnd h) (h_out h)) c = (c1, n, werr)"
    by (cases "cnet_write (take (h_greetingEnd h) (h_out h)) c") auto
  have auth: "returns (case h_auth h2 of
      Some a \<Rightarrow> if h_method h2 = h_offered h2 then ClientHandshake.authenticate a h2 c2 else Some (h2, c2, None)
    | None \<Rightarrow> Some (h2, c2, None))" if "usable h2" for h2 c2
    using that authenticate_ret [OF that] by (auto simp: usable_def split: option.splits)
  have req: "returns (case cnet_write b c3 of (c4, n4, Some e) \<Rightarrow> Some (h3, c4, Some (StageRequest, e)) | (c4, n4, None) \<Rightarrow> readReply h3 c4)"
    if "usable h3" for h3 b c3
    using that readReply_ret by (auto split: prod.splits option.splits)
  show ?thesis
  proof (cases werr)
    case None
    have "returns (readMethod 0 (hook1 (WroteHandshake None) h) c1)" using assms by (intro readMethod_ret) simp
    then show ?thesis
      using w None auth req by (auto simp: runSequential_def Let_def intro!: returns_bind)
  qed (use w assms in \<open>simp add: runSequential_def Let_def\<close>)
qed

lemma hs_run_ret: "usable h \<Longrightarrow> returns (hs_run h c)"
  using runSequential_ret [of h c] readReplies_ret
  by (auto simp: hs_run_def Let_def split: prod.splits option.splits)

text \<open>\<open>ModeSequential\<close> without an authenticator takes the same replies as the other modes.\<close>

lemma sequential_run_spec:
  assumes r: "hs_ready h" and m: "h_mode h = ModeSequential" "h_version h = 5" and a: "h_auth h = None" "h_pipe h = None"
    and c: "cn_room c = None"
  shows "\<exists>h' c' he. hs_run h c = Some (h', c', he)
    \<and> (case replies_spec h (stream_end (cn_rd c)) (stream_bytes (cn_rd c)) of
         Inl se \<Rightarrow> he = Some se
       | Inr (b, rest) \<Rightarrow> he = None \<and> h_bound h' = b \<and> stream_bytes (cn_rd c') = rest)"
proof -
  let ?h = "hook1 (WroteHandshake None) h" and ?c = "c\<lparr>cn_written := cn_written c @ take (h_greetingEnd h) (h_out h)\<rparr>"
  have z: "h_msgStart h = 0" "h_filled h = 0" "cinv ?h ?c" using r by (simp_all add: hs_ready_def cinv_def hook1_def)
  have u: "unread ?h ?c = stream_bytes (cn_rd c)" using z by (simp add: unread_def h_input_def hook1_def)
  have lim: "h_msgStart ?h + 2 + 0 \<le> maxReplyBytes" using z by (simp add: maxReplyBytes_def)
  have "h_offered ?h = h_offered h" "h_offerNoAuth ?h = h_offerNoAuth h" by (simp_all add: hook1_def)
  then have "method_spec ?h e d = method_spec h e d" for e d by (simp only: method_spec_def refuses_def)
  then have eq: "method_spec ?h e d = method_spec h e d" "stream_end (cn_rd ?c) = stream_end (cn_rd c)" for e d by simp_all
  obtain h2 c2 he where rm: "readMethod 0 ?h ?c = Some (h2, c2, he)" "same_hs ?h ?c h2 c2"
    "case method_spec h (stream_end (cn_rd c)) (stream_bytes (cn_rd c)) of
         Inl se \<Rightarrow> he = Some se
       | Inr (m, d) \<Rightarrow> he = None \<and> h_method h2 = m \<and> cinv h2 c2 \<and> unread h2 c2 = d \<and> h_msgStart h2 = h_msgStart ?h + 2
           \<and> h_filled h2 \<le> max (h_filled ?h) (h_msgStart ?h + 2 + 0)"
    using readMethod_spec [OF z(3) lim] unfolding u eq by blast
  have s: "h_auth h2 = None" "cn_room c2 = None" "stream_end (cn_rd c2) = stream_end (cn_rd c)" "reply_spec h2 e d = reply_spec h e d" for e d
    using rm(2) a c reply_spec_cong [of h2 h] by (simp_all add: same_hs_def hook1_def)
  have run: "hs_run h c = (if he \<noteq> None then Some (h2, c2, he)
      else readReply h2 (c2\<lparr>cn_written := cn_written c2 @ drop (h_authEnd h2) (h_out h2)\<rparr>))"
    using m c rm(1) s(1,2) by (simp add: hs_run_def runSequential_def cnet_write_def Let_def)
  show ?thesis
  proof (cases "method_spec h (stream_end (cn_rd c)) (stream_bytes (cn_rd c))")
    case (Inl se)
    then show ?thesis using run rm(3) m by (simp add: replies_spec_def)
  next
    case (Inr md)
    let ?c2 = "c2\<lparr>cn_written := cn_written c2 @ drop (h_authEnd h2) (h_out h2)\<rparr>"
    obtain k d where md: "md = (k, d)" by fastforce
    have f: "he = None" "cinv h2 ?c2" "unread h2 ?c2 = d" "h_msgStart h2 = 2" "h_filled h2 \<le> 2"
      using rm(3) Inr md z by (simp_all add: cinv_def unread_def hook1_def)
    then obtain h3 c3 he3 where rr: "readReply h2 ?c2 = Some (h3, c3, he3)" "reply_post h2 ?c2 h3 c3 he3" "h_filled h2 \<le> h_msgStart h2 + 8"
      using readReply_spec [OF f(2)] by (auto simp: maxReplyBytes_def)
    then show ?thesis
      using run f s m Inr md a by (auto simp: replies_spec_def reply_post_def split: sum.splits prod.splits)
  qed
qed

section \<open>A handshake that was set up\<close>

text \<open>Nothing has been read yet.\<close>

definition fresh_hs :: "hs \<Rightarrow> bool" where
  "fresh_hs h \<longleftrightarrow> h_msgStart h = 0 \<and> h_filled h = 0 \<and> h_auth h \<noteq> Some CNilUserPass"

lemma fresh_usable: "fresh_hs h \<Longrightarrow> usable h"
  by (simp add: fresh_hs_def usable_def)

lemma fresh_upd [simp]:
  "fresh_hs (h\<lparr>h_mode := m\<rparr>) = fresh_hs h" "fresh_hs (h\<lparr>h_cmd := k\<rparr>) = fresh_hs h" "fresh_hs (h\<lparr>h_version := v\<rparr>) = fresh_hs h"
  "fresh_hs (h\<lparr>h_target := t\<rparr>) = fresh_hs h" "fresh_hs (h\<lparr>h_offered := x\<rparr>) = fresh_hs h"
  by (simp_all add: fresh_hs_def)

lemma fresh_zero [simp]: "fresh_hs zero_hs"
  by (simp add: fresh_hs_def zero_hs_def)

lemma setAuth_fresh:
  assumes "setAuth a offer h = Inr h'" and "fresh_hs h"
  shows "fresh_hs h'"
  using assms by (cases a) (auto simp: setAuth_def fresh_hs_def Let_def split: if_splits)

lemma preparePipelined_fresh:
  assumes "preparePipelined p h = Inr h'" and "fresh_hs h"
  shows "fresh_hs h'"
  using assms by (auto simp: preparePipelined_def fresh_hs_def Let_def split: if_splits prod.splits option.splits sum.splits)

lemma hs_init_fresh:
  assumes "hs_init cfg cmd h = Inr h'" and "fresh_hs h"
  shows "fresh_hs h'"
proof -
  have five: "fresh_hs h2" if "init5 cfg h1 = Inr h2" "fresh_hs h1" for h1 h2
  proof -
    have "fresh_hs (h1\<lparr>h_offered := MethodNoAuth\<rparr>)" using that(2) by (simp add: fresh_hs_def)
    then show ?thesis
      using that(1) setAuth_fresh preparePipelined_fresh
      by (auto simp: init5_def Let_def split: if_splits option.splits sum.splits)
  qed
  have four: "fresh_hs h2" if "init4 au h1 = Inr h2" "fresh_hs h1" for au h1 h2
    using that by (auto simp: init4_def fresh_hs_def split: if_splits option.splits sum.splits)
  have "\<exists>z. fresh_hs z \<and> (init5 cfg z = Inr h' \<or> init4 (cc_Auth cfg) z = Inr h')"
    using assms by (auto simp: hs_init_def Let_def split: if_splits) (metis fresh_upd)+
  then show ?thesis using five four by blast
qed

lemma setTarget_fresh: "setTarget a h = Inr h' \<Longrightarrow> fresh_hs h' = fresh_hs h"
  using setTarget_facts [of a h h'] by (simp add: fresh_hs_def)

end
