(* ===== verification/ClientDialProps.thy ===== *)
theory ClientDialProps
  imports ClientURL ClientTotal ClientConnSafety
begin

text \<open>
  What \<open>ClientDial\<close> and \<open>ClientURL\<close> guarantee: a dial ends and leaves no conn open when it fails, the conn it returns is
  the tunnel behind the replies, and a proxy URL gives a dialer that does what its scheme says.
\<close>

section \<open>The handshake of a dial\<close>

lemma append5_split: "append5 a h = (h\<lparr>h_greetingEnd := h_greetingEnd (fst (append5 a h)), h_authEnd := h_authEnd (fst (append5 a h))\<rparr>, snd (append5 a h))"
  by (simp add: append5_def Let_def split: prod.splits)

lemma append5_again:
  "append5 b (h\<lparr>h_greetingEnd := g, h_authEnd := e, h_target := t, h_out := ou, h_readStage := st, h_rbuf := rb\<rparr>)
   = (case append5 b h of (h', r) \<Rightarrow> (h'\<lparr>h_target := t, h_out := ou, h_readStage := st, h_rbuf := rb\<rparr>, r))"
  by (simp add: append5_def Let_def split: prod.splits)

lemma hs_same_update: "h_greetingEnd h = g \<Longrightarrow> h_authEnd h = e \<Longrightarrow> h\<lparr>h_greetingEnd := g, h_authEnd := e\<rparr> = h"
  by (cases h) simp

text \<open>\<open>setTarget\<close> replaces the messages of an earlier \<open>setTarget\<close> as a whole.\<close>

lemma setTarget_again:
  assumes "setTarget a h0 = Inr h1"
  shows "setTarget b h1 = setTarget b h0"
proof (cases "h_version h0 = 4")
  case True
  obtain ou where "h1 = h0\<lparr>h_target := a, h_out := ou, h_readStage := StageReply4, h_rbuf := replicate 8 0\<rparr>"
    using assms True by (auto simp: setTarget_def writeStage_def Let_def split: prod.splits option.splits)
  then show ?thesis using True by (simp add: setTarget_def Let_def writeStage_def split: prod.splits option.splits)
next
  case False
  obtain g e q where q: "append5 a h0 = (h0\<lparr>h_greetingEnd := g, h_authEnd := e\<rparr>, q)" using append5_split [of a h0] by metis
  obtain ou where "q = (ou, None)" using assms False q by (cases q) (auto simp: setTarget_def Let_def split: option.splits)
  then have "h1 = h0\<lparr>h_greetingEnd := g, h_authEnd := e, h_target := a, h_out := ou,
      h_readStage := (if h_version h0 = 5 then StageMethodSelection
        else writeStage (length ou) (h0\<lparr>h_greetingEnd := g, h_authEnd := e, h_target := a, h_out := ou\<rparr>)),
      h_rbuf := replicate (24 + h_authMin h0) 0\<rparr>"
    using assms False q by (simp add: setTarget_def Let_def)
  then obtain st rb where h1: "h1 = h0\<lparr>h_greetingEnd := g, h_authEnd := e, h_target := a, h_out := ou, h_readStage := st, h_rbuf := rb\<rparr>"
    by blast
  obtain g' e' r where b: "append5 b h0 = (h0\<lparr>h_greetingEnd := g', h_authEnd := e'\<rparr>, r)" using append5_split [of b h0] by metis
  have v: "h_version h1 = h_version h0" "h_authMin h1 = h_authMin h0" by (simp_all add: h1)
  have "append5 b h1 = (h0\<lparr>h_greetingEnd := g', h_authEnd := e', h_target := a, h_out := ou, h_readStage := st, h_rbuf := rb\<rparr>, r)"
    using append5_again [where b = b and h = h0 and g = g and e = e and t = a and ou = ou and st = st and rb = rb] by (simp add: h1 b)
  then show ?thesis
    using False by (simp add: setTarget_def b v Let_def writeStage_def authReqStage_def split: prod.splits option.splits)
qed

lemma kinit_ok:
  assumes "kinit cfg rt ht cmd target c = (c1, None)"
  shows "\<exists>h0 h. hs_init cfg cmd (k_h c) = Inr h0 \<and> setTarget target h0 = Inr h
    \<and> c1 = c\<lparr>k_replyTimeout := rt, k_handshakeTimeout := ht, k_h := h\<rparr>"
  using assms by (auto simp: kinit_def Let_def split: sum.splits)

text \<open>The address that is sent for a target.\<close>

definition dial_sends :: "dialer \<Rightarrow> command \<Rightarrow> string \<Rightarrow> addr \<Rightarrow> addr \<Rightarrow> bool" where
  "dial_sends d cmd network target r \<longleftrightarrow>
     (case d_Resolver d of
        Some rv \<Rightarrow>
          if IsName target \<and> cmd \<noteq> CmdTorResolve
          then \<exists>i nd. nd \<in> {network, ''tcp4''} \<and> dresolve rv nd (Name_of target) = Inr i \<and> r = caddrPort i (Port_of target)
          else r = target
      | None \<Rightarrow> r = target)"

lemma kdial0_sel: "k_h kdial0 = zero_hs" "k_connClosed kdial0 = False"
  by (simp_all add: kdial0_def kconn0_def)

lemma dnewConn_ok:
  assumes "dnewConn x (Some d) op network cmd target err c0 = (c, Inr r)" and "configOf (d_Config d) = (cfg, rt, ht)"
    and "k_h c0 = zero_hs"
  shows "\<exists>h0 h. err = None \<and> hs_init cfg cmd (zero_hs\<lparr>h_target := target\<rparr>) = Inr h0 \<and> setTarget r h0 = Inr h
    \<and> k_h c = h\<lparr>h_target := target\<rparr> \<and> dial_sends d cmd network target r \<and> k_connClosed c = k_connClosed c0"
proof -
  let ?c2 = "c0\<lparr>k_network := network, k_op := op, k_h := (k_h c0)\<lparr>h_target := target\<rparr>, k_proxyAddr := d_ProxyAddr d\<rparr>"
  obtain c3 where k: "kinit cfg rt ht cmd target ?c2 = (c3, None)" and e: "err = None"
    and rest: "(case d_Resolver d of Some rv \<Rightarrow> if IsName target \<and> cmd \<noteq> CmdTorResolve then resolveTarget x rv network target c3 else (c3, Inr target)
      | None \<Rightarrow> (c3, Inr target)) = (c, Inr r)"
    using assms(1,2) by (auto simp: dnewConn_def Let_def split: if_splits prod.splits option.splits)
  obtain h0 h where h: "hs_init cfg cmd (zero_hs\<lparr>h_target := target\<rparr>) = Inr h0" "setTarget target h0 = Inr h" "k_h c3 = h"
    "k_connClosed c3 = k_connClosed c0"
    using kinit_ok [OF k] assms(3) by auto
  have t: "h\<lparr>h_target := target\<rparr> = h" using setTarget_facts [OF h(2)] by (cases h) simp
  show ?thesis
  proof (cases "\<exists>rv. d_Resolver d = Some rv \<and> IsName target \<and> cmd \<noteq> CmdTorResolve")
    case True
    then obtain rv where rv: "d_Resolver d = Some rv" "IsName target" "cmd \<noteq> CmdTorResolve" by blast
    then obtain i h' where "dresolve rv (if h_version h = 4 then ''tcp4'' else network) (Name_of target) = Inr i"
      and "r = caddrPort i (Port_of target)" and "setTarget r h = Inr h'" and "c = c3\<lparr>k_h := h'\<lparr>h_target := target\<rparr>\<rparr>"
      using rest h(3) by (auto simp: resolveTarget_def Let_def split: sum.splits)
    then have "setTarget r h0 = Inr h' \<and> k_h c = h'\<lparr>h_target := target\<rparr> \<and> k_connClosed c = k_connClosed c0 \<and> dial_sends d cmd network target r"
      using rv h(4) setTarget_again [OF h(2), of r] by (auto simp: dial_sends_def split: if_splits)
    then show ?thesis using e h(1) by blast
  next
    case False
    then have "c = c3" "r = target" using rest by (auto split: option.splits if_splits)
    then have "setTarget r h0 = Inr h \<and> k_h c = h\<lparr>h_target := target\<rparr> \<and> k_connClosed c = k_connClosed c0 \<and> dial_sends d cmd network target r"
      using False h t by (auto simp: dial_sends_def split: option.splits)
    then show ?thesis using e h(1) by blast
  qed
qed

lemma target_sel [simp]:
  "h_version (h\<lparr>h_target := t\<rparr>) = h_version h" "h_cmd (h\<lparr>h_target := t\<rparr>) = h_cmd h" "h_pipe (h\<lparr>h_target := t\<rparr>) = h_pipe h"
  "h_authMin (h\<lparr>h_target := t\<rparr>) = h_authMin h" "h_userPass (h\<lparr>h_target := t\<rparr>) = h_userPass h"
  "h_offered (h\<lparr>h_target := t\<rparr>) = h_offered h" "h_offerNoAuth (h\<lparr>h_target := t\<rparr>) = h_offerNoAuth h"
  "h_msgStart (h\<lparr>h_target := t\<rparr>) = h_msgStart h" "h_filled (h\<lparr>h_target := t\<rparr>) = h_filled h"
  "h_readErr (h\<lparr>h_target := t\<rparr>) = h_readErr h" "h_mode (h\<lparr>h_target := t\<rparr>) = h_mode h" "h_out (h\<lparr>h_target := t\<rparr>) = h_out h"
  by simp_all

lemma target_ready [simp]: "hs_ready (h\<lparr>h_target := t\<rparr>) = hs_ready h"
  unfolding hs_ready_def target_sel ..

lemma replies_spec_target [simp]: "replies_spec (h\<lparr>h_target := t\<rparr>) err d = replies_spec h err d"
proof -
  have "reply_spec (h\<lparr>h_target := t\<rparr>) = reply_spec h" by (intro ext reply_spec_cong) simp_all
  then show ?thesis unfolding replies_spec_def method_spec_def refuses_def authRepStage_def target_sel by (rule ssubst) (rule refl)
qed

text \<open>A handshake that \<open>newConn\<close> made has read nothing yet, whatever the configuration.\<close>

lemma dnewConn_fresh:
  assumes "dnewConn x (Some d) op network cmd target err c0 = (c, Inr r)" and "k_h c0 = zero_hs"
  shows "fresh_hs (k_h c)"
proof -
  obtain cfg rt ht where cf: "configOf (d_Config d) = (cfg, rt, ht)" by (cases "configOf (d_Config d)") auto
  obtain h0 h where h: "hs_init cfg cmd (zero_hs\<lparr>h_target := target\<rparr>) = Inr h0" "setTarget r h0 = Inr h" "k_h c = h\<lparr>h_target := target\<rparr>"
    using dnewConn_ok [OF assms(1) cf assms(2)] by blast
  have "fresh_hs h0" by (rule hs_init_fresh [OF h(1)]) simp
  then show ?thesis using setTarget_fresh [OF h(2)] h(3) by simp
qed

lemma dnewConn_ready:
  assumes "dnewConn x (Some d) op network cmd target err c0 = (c, Inr r)" and "k_h c0 = zero_hs" and "configOf (d_Config d) = (cfg, rt, ht)"
    and "cauth_ok (cc_Auth cfg)"
  shows "hs_ready (k_h c)" and "h_version (k_h c) = (if cc_Version cfg = 4 then 4 else 5)"
    and "h_mode (k_h c) = (if cc_Mode cfg = ModeEarly \<and> cmd \<noteq> CmdConnect then ModePipelined else cc_Mode cfg)"
proof -
  obtain h0 h where h: "hs_init cfg cmd (zero_hs\<lparr>h_target := target\<rparr>) = Inr h0" "setTarget r h0 = Inr h" "k_h c = h\<lparr>h_target := target\<rparr>"
    using dnewConn_ok [OF assms(1,3,2)] by blast
  note i = hs_init_ready [OF h(1) assms(4)] and t = setTarget_facts [OF h(2)]
  have "hs_ready h" using i(1) t by (simp add: hs_ready_def split: option.splits)
  then show "hs_ready (k_h c)" by (simp add: h(3))
  show "h_version (k_h c) = (if cc_Version cfg = 4 then 4 else 5)"
    "h_mode (k_h c) = (if cc_Mode cfg = ModeEarly \<and> cmd \<noteq> CmdConnect then ModePipelined else cc_Mode cfg)"
    using i t by (simp_all add: h(3))
qed

section \<open>A dial as a whole\<close>

lemma handshakeOver_facts:
  assumes "handshakeOver now True dl he cause c = (c', e)"
  shows "k_connClosed c' = (k_connClosed c \<or> e \<noteq> None)" and "e = None \<Longrightarrow> he = None"
proof -
  obtain b where b: "blame now he cause dl (Some (ESent CtxDeadlineExceeded)) c = b" by simp
  show "k_connClosed c' = (k_connClosed c \<or> e \<noteq> None)"
    using assms unfolding handshakeOver_def b by (cases b) (auto simp: Let_def split: if_splits)
  show "he = None" if "e = None"
  proof -
    have "b = None" using assms that unfolding handshakeOver_def b by (cases b) (auto simp: Let_def)
    then show ?thesis using blame_some [of now _ cause dl "Some (ESent CtxDeadlineExceeded)" c] b by (metis option.exhaust)
  qed
qed

text \<open>The dial functions of the outside return open conns.\<close>

definition opens :: "dialfn \<Rightarrow> bool" where
  "opens f \<longleftrightarrow> (\<forall>n a p e. f n a = (Some p, e) \<longrightarrow> \<not> pn_closed p)"

definition dial_of :: "dialfn \<Rightarrow> dialer \<Rightarrow> dialfn" where
  "dial_of nd d = (case d_ProxyDial d of Some f \<Rightarrow> f | None \<Rightarrow> nd)"

lemma opensD: "opens f \<Longrightarrow> f n a = (Some p, e) \<Longrightarrow> \<not> pn_closed p"
  unfolding opens_def by blast

lemma dialProxy_closes:
  assumes "opens (dial_of nd d)" and "dialProxy x nd d c = (c1, r)"
  shows "case r of Inl (e, conn) \<Rightarrow> (\<forall>p. conn = Some p \<longrightarrow> pn_closed p) | Inr p \<Rightarrow> \<not> pn_closed p"
    and "k_h c1 = k_h c" and "k_connClosed c1 = k_connClosed c"
    and "r = Inr p \<Longrightarrow> dial_of nd d ''tcp'' (d_ProxyAddr d) = (Some p, None)"
  using assms(2) opensD [OF assms(1)]
  by (auto simp: dialProxy_def dial_of_def [symmetric] dialErr_def pn_close_def ksay_def Let_def split: option.splits if_splits prod.splits)

lemma dconnect_result:
  assumes o: "opens (dial_of nd d)" and c: "\<not> k_connClosed c" and r: "dconnect x nd d c = Some (c1, conn, err)"
  shows "case err of Some e \<Rightarrow> (\<forall>p. conn = Some p \<longrightarrow> pn_closed p)
     | None \<Rightarrow> (\<exists>p. conn = Some p \<and> \<not> pn_closed p \<and> pn_dl p = DLNone)"
proof -
  obtain c2 s where p: "dialProxy x nd d c = (c2, s)" by fastforce
  note f = dialProxy_closes [OF o p]
  show ?thesis
  proof (cases s)
    case (Inl ec)
    then show ?thesis using r p f(1) by (cases ec) (auto simp: dconnect_def Let_def)
  next
    case (Inr q)
    show ?thesis
    proof (cases "early c2")
      case True
      then show ?thesis using r p f(1) Inr by (auto simp: dconnect_def Let_def)
    next
      case False
      let ?t = "snd (dialTimeout x d c)"
      let ?dl = "if ?t > 0 then Some (cx_now x + nat ?t) else None"
      let ?q = "if ?t > 0 then q\<lparr>pn_dl := dl_of ?dl\<rparr> else q"
      have q: "pn_closed ?q = pn_closed q" by simp
      obtain h n he c3 e where hr: "hs_run (k_h c2) (pn_net ?q) = Some (h, n, he)"
        and ho: "handshakeOver (cx_later x) True ?dl he (map_option ESent (cx_inHandshake x)) (c2\<lparr>k_h := h\<rparr>) = (c3, e)"
        and res: "(c1, conn, err) = (case e of Some y \<Rightarrow> (c3, Some (?q\<lparr>pn_net := n, pn_closed := k_connClosed c3\<rparr>), Some y)
          | None \<Rightarrow> (c3, Some (?q\<lparr>pn_net := n, pn_dl := DLNone\<rparr>), None))"
        using r p Inr False by (auto simp: dconnect_def Let_def simp del: pconn.simps split: bind_splits option.splits prod.splits)
      then show ?thesis using handshakeOver_facts(1) [OF ho] f(1) Inr by (auto split: option.splits if_splits)
    qed
  qed
qed

lemma dconnect_total:
  assumes "fresh_hs (k_h c)" and "opens (dial_of nd d)"
  shows "dconnect x nd d c \<noteq> None"
proof -
  obtain c2 s where p: "dialProxy x nd d c = (c2, s)" by fastforce
  have "hs_run (k_h c2) m \<noteq> None" for m
    using returns_not_None [OF hs_run_ret [OF fresh_usable [OF assms(1)]]] dialProxy_closes(2) [OF assms(2) p] by simp
  then have run: "\<exists>h n he. hs_run (k_h c2) m = Some (h, n, he)" for m by (metis option.exhaust surj_pair)
  show ?thesis
  proof (cases s)
    case (Inr q)
    obtain h n he where "hs_run (k_h c2) (pn_net q) = Some (h, n, he)" using run by blast
    then show ?thesis using p Inr by (cases "early c2") (auto simp: dconnect_def Let_def split: option.splits prod.splits)
  qed (auto simp: dconnect_def Let_def p split: prod.splits)
qed

text \<open>C29: A TCP dial ends whenever the functions it calls return and the proxy's stream does: with every configuration, so in each of
  the three modes and with every authenticator, also one that breaks the Parse contract, and whatever the proxy sends.
  Whatever went wrong, resolving, dialing the proxy, a cancellation or the handshake, a conn that was dialed is
  closed when an error is returned; without an error the conn is open and has no deadline left.\<close>

theorem dial_ends_and_leaks_nothing:
  assumes "opens (dial_of nd d)"
  shows "\<exists>res. DialTCP x nd (Some d) network a = Some res
     \<and> (case res of
          DialedErr e conn \<Rightarrow> (\<forall>p. conn = Some p \<longrightarrow> pn_closed p)
        | DialedConn p \<Rightarrow> \<not> pn_closed p \<and> pn_dl p = DLNone
        | DialedEarly c p \<Rightarrow> \<not> pn_closed p \<and> pn_dl p = DLNone)"
proof -
  obtain target err where pt: "parseTarget network a = (target, err)" by fastforce
  obtain c r where n: "dnewConn x (Some d) opConnect network CmdConnect target err kdial0 = (c, r)" by fastforce
  show ?thesis
  proof (cases r)
    case (Inl e)
    then show ?thesis using pt n by (auto simp: DialTCP_def dialEarly_def)
  next
    case (Inr y)
    note n' = n [unfolded Inr]
    obtain cfg rt ht where cf: "configOf (d_Config d) = (cfg, rt, ht)" by (cases "configOf (d_Config d)") auto
    have cc: "\<not> k_connClosed c" using dnewConn_ok [OF n' cf kdial0_sel(1)] kdial0_sel(2) by auto
    obtain c1 conn e where d: "dconnect x nd d c = Some (c1, conn, e)"
      using dconnect_total [OF dnewConn_fresh [OF n' kdial0_sel(1)] assms] by fastforce
    note q = dconnect_result [OF assms cc d]
    show ?thesis
      using q pt n' d by (cases e; cases "dial_early (Some d)") (auto simp: DialTCP_def dialEarly_def split: option.splits)
  qed
qed

text \<open>C30: A conn that \<open>DialContext\<close> returns in \<open>ModePipelined\<close> is the tunnel: what was written to it is exactly one handshake, for the
  address that was parsed (or, with a \<open>Resolver\<close>, for the first address of the family it gave), the replies of the
  proxy say success, and the next byte the caller reads is the first one behind them.\<close>

theorem dialed_conn_is_the_tunnel:
  assumes "DialTCP x nd (Some d) network a = Some (DialedConn q)" and "configOf (d_Config d) = (cfg, rt, ht)"
    and "cc_Mode cfg = ModePipelined" and "cauth_ok (cc_Auth cfg)"
    and "opens (dial_of nd d)" and "dial_of nd d ''tcp'' (d_ProxyAddr d) = (Some p, e)" and "cn_room (pn_net p) = None"
  shows "\<exists>target r h0 h bound. parseTarget network a = (target, None) \<and> dial_sends d CmdConnect network target r
     \<and> hs_init cfg CmdConnect (zero_hs\<lparr>h_target := target\<rparr>) = Inr h0 \<and> setTarget r h0 = Inr h
     \<and> cn_written (pn_net q) = cn_written (pn_net p) @ h_out h
     \<and> replies_spec h (stream_end (cn_rd (pn_net p))) (stream_bytes (cn_rd (pn_net p))) = Inr (bound, stream_bytes (cn_rd (pn_net q)))"
proof -
  obtain target err where pt: "parseTarget network a = (target, err)" by fastforce
  have ne: "\<not> dial_early (Some d)" using assms(2,3) by (auto simp: dial_early_def mode_defs)
  obtain c y where n: "dnewConn x (Some d) opConnect network CmdConnect target err kdial0 = (c, Inr y)"
    and d: "\<exists>c1. dconnect x nd d c = Some (c1, Some q, None)"
    using assms(1) pt ne by (auto simp: DialTCP_def split: sum.splits option.splits prod.splits)
  obtain c1 where d: "dconnect x nd d c = Some (c1, Some q, None)" using d by blast
  obtain h0 h where h: "err = None" "hs_init cfg CmdConnect (zero_hs\<lparr>h_target := target\<rparr>) = Inr h0" "setTarget y h0 = Inr h"
    "k_h c = h\<lparr>h_target := target\<rparr>" "dial_sends d CmdConnect network target y"
    using dnewConn_ok [OF n assms(2) kdial0_sel(1)] by blast
  note rd = dnewConn_ready [OF n kdial0_sel(1) assms(2,4)]
  have md: "h_mode (k_h c) = ModePipelined" using rd(3) assms(3) by (simp add: mode_defs)
  obtain c2 s where pr: "dialProxy x nd d c = (c2, s)" by fastforce
  obtain p' where s: "s = Inr p'" using d pr by (cases s) (auto simp: dconnect_def Let_def)
  have p': "p' = p" using dialProxy_closes(4) [OF assms(5) pr s] assms(6) by simp
  have kh: "k_h c2 = h\<lparr>h_target := target\<rparr>" using dialProxy_closes(2) [OF assms(5) pr] h(4) by simp
  have nearly: "\<not> early c2" using md kh h(4) by (simp add: early_def mode_defs)
  let ?t = "snd (dialTimeout x d c)"
  let ?dl = "if ?t > 0 then Some (cx_now x + nat ?t) else None"
  let ?q = "if ?t > 0 then p\<lparr>pn_dl := dl_of ?dl\<rparr> else p"
  have nd: "pn_net ?q = pn_net p" by simp
  have r: "hs_ready (h\<lparr>h_target := target\<rparr>)" "h_mode (h\<lparr>h_target := target\<rparr>) \<noteq> ModeSequential \<or> h_version (h\<lparr>h_target := target\<rparr>) = 4"
    using rd(1) md h(4) by (simp_all add: mode_defs)
  from pipelined_run_spec [OF r assms(7)] obtain h' n' he where run: "hs_run (h\<lparr>h_target := target\<rparr>) (pn_net p) = Some (h', n', he)"
    and wr: "cn_written n' = cn_written (pn_net p) @ h_out h"
    and sp: "case replies_spec h (stream_end (cn_rd (pn_net p))) (stream_bytes (cn_rd (pn_net p))) of
         Inl se \<Rightarrow> he = Some se | Inr (a, rest) \<Rightarrow> he = None \<and> h_bound h' = a \<and> stream_bytes (cn_rd n') = rest"
    by (auto simp del: hs.update_convs)
  obtain c3 e3 where ho: "handshakeOver (cx_later x) True ?dl he (map_option ESent (cx_inHandshake x)) (c2\<lparr>k_h := h'\<rparr>) = (c3, e3)" by fastforce
  have "e3 = None" "q = ?q\<lparr>pn_net := n', pn_dl := DLNone\<rparr>"
    using d pr s p' nearly kh run ho nd
    by (cases e3; simp add: dconnect_def Let_def)+
  then have "he = None" "pn_net q = n'" using handshakeOver_facts(2) [OF ho] by simp_all
  then show ?thesis using pt h wr sp by (auto split: sum.splits prod.splits)
qed

section \<open>Proxy URLs\<close>

lemma last_index_of_app: "c \<notin> set t \<Longrightarrow> last_index_of c (s @ c # t) = Some (length s)"
proof -
  assume c: "c \<notin> set t"
  have "takeWhile (\<lambda>x. x \<noteq> c) (rev t @ c # rev s) = rev t" using c by (simp add: takeWhile_append)
  then show ?thesis by (simp add: last_index_of_def)
qed

lemma SplitHostPort_Join:
  assumes "SplitHostPort (JoinHostPort host port) = Inr (h, p)" and "list_all is_digit port"
  shows "p = port"
proof -
  have nc: "CHR '':'' \<notin> set port" using assms(2) digit_not_special by (auto simp: list_all_iff)
  have "JoinHostPort host port = (if CHR '':'' \<in> set host then ''['' @ host @ '']'' else host) @ CHR '':'' # port"
    by (simp add: JoinHostPort_def)
  then obtain pre where j: "JoinHostPort host port = pre @ CHR '':'' # port" by blast
  then show ?thesis
    using assms(1) last_index_of_app [OF nc, of pre] by (auto simp: SplitHostPort_def addrErr_def split: sum.splits if_splits prod.splits)
qed

lemma normalizePort_ok:
  assumes "normalizePort port = Some q"
  shows "list_all is_digit q \<and> (\<exists>n. ParseUint16 q = Some n \<and> 0 < n \<and> (if port = [] then n = 1080 else ParseUint16 port = Some n))"
proof (cases "port = []")
  case True
  moreover have "list_all is_digit ''1080'' \<and> ParseUint16 ''1080'' = Some 1080"
    by (simp add: ParseUint16_def is_digit_def digit_val_def)
  ultimately show ?thesis using assms by (auto simp: normalizePort_def)
next
  case False
  then obtain n where n: "ParseUint16 port = Some n" "n \<noteq> 0" "q = nat_string n"
    using assms by (auto simp: normalizePort_def split: option.splits if_splits)
  then have "n < 65536" by (auto simp: ParseUint16_def split: if_splits)
  then show ?thesis using n False nat_string_dec [of n 0 "[]"] ParseUint16_nat_string by simp
qed

lemma url_config_ok:
  assumes "cc_Mode cfg = ModePipelined" and "\<not> cc_OfferNoAuth cfg" and "cc_Version cfg \<in> {0, 4}"
    and "cc_Auth cfg \<in> insert None ((\<lambda>(u, p). Some (CUserPass u p)) ` {(u, p). length u \<le> 255 \<and> length p \<le> 255 \<and> (cc_Version cfg = 4 \<longrightarrow> p = [])})"
  shows "\<exists>h. hs_init cfg CmdConnect (zero_hs\<lparr>h_target := t\<rparr>) = Inr h"
  using assms
  by (auto simp: hs_init_def mode_defs init4_def init5_def setAuth_def preparePipelined_def Let_def method_defs
      UserPass_ParseReply_def ParseUserPassStatus_def checkVersion_def statusErr_def zero_hs_def cmd_defs)

lemma setScheme_cases:
  assumes "setScheme sc zeroProxyURL = Some p"
  shows "pu_ResolveLocally p = (ToLower sc \<in> {''socks5'', ''socks4''})"
    and "pu_TLS p = (ToLower sc \<in> {''socks5s'', ''socks5+tls'', ''socks5h+tls''})"
    and "pu_Config p = zeroConfig\<lparr>cc_Version := (if ToLower sc \<in> {''socks4'', ''socks4a''} then 4 else 0)\<rparr>"
  using assms by (auto simp: setScheme_def Let_def zeroProxyURL_def zeroConfig_def split: if_splits)

lemma setUser_ok:
  assumes "setUser (user, pw) p = (q, [])"
  shows "q = p\<lparr>pu_Config := (pu_Config p)\<lparr>cc_Auth := Some (CUserPass user (case pw of Some x \<Rightarrow> x | None \<Rightarrow> []))\<rparr>\<rparr>
    \<and> length user \<le> 255 \<and> length (case pw of Some x \<Rightarrow> x | None \<Rightarrow> []) \<le> 255
    \<and> (cc_Version (pu_Config p) = 4 \<longrightarrow> (case pw of Some x \<Rightarrow> x | None \<Rightarrow> []) = [])"
  using assms by (auto simp: setUser_def Let_def split: if_splits)

lemma pu_parse_ok:
  assumes "pu_parse u zeroProxyURL = (p, [])"
  shows "\<exists>p1 port. setScheme (u_Scheme u) zeroProxyURL = Some p1 \<and> u_Hostname u \<noteq> [] \<and> normalizePort (u_Port u) = Some port
    \<and> (\<exists>x. SplitHostPort (JoinHostPort (u_Hostname u) port) = Inr (u_Hostname u, x))
    \<and> (case u_User u of None \<Rightarrow> p = p1\<lparr>pu_Addr := JoinHostPort (u_Hostname u) port\<rparr>
       | Some up \<Rightarrow> setUser up (p1\<lparr>pu_Addr := JoinHostPort (u_Hostname u) port\<rparr>) = (p, []))"
  using assms by (auto simp: pu_parse_def Let_def split: option.splits if_splits sum.splits prod.splits)

text \<open>C34: A proxy URL gives the dialer its scheme promises. The address is the URL's host with its port, or 1080, and splits back into
  them; names are resolved locally exactly for \<open>socks5\<close> and \<open>socks4\<close>, TLS is used exactly for the TLS schemes, the
  version is 4 exactly for \<open>socks4\<close> and \<open>socks4a\<close>; the user and password are the URL's; and the configuration is
  one that every CONNECT accepts.\<close>

theorem url_dialer:
  assumes "FromURL quo tlsDial resolve (Some u) = Inr d"
  shows "\<exists>port n cfg. SplitHostPort (d_ProxyAddr d) = Inr (u_Hostname u, port) \<and> u_Hostname u \<noteq> [] \<and> ParseUint16 port = Some n \<and> 0 < n
     \<and> (if u_Port u = [] then n = 1080 else ParseUint16 (u_Port u) = Some n)
     \<and> d_Resolver d = (if ToLower (u_Scheme u) \<in> {''socks5'', ''socks4''} then Some resolve else None)
     \<and> d_ProxyDial d = (if ToLower (u_Scheme u) \<in> {''socks5s'', ''socks5+tls'', ''socks5h+tls''} then Some tlsDial else None)
     \<and> d_Config d = Some (cfg, 0, 0) \<and> cc_Version cfg = (if ToLower (u_Scheme u) \<in> {''socks4'', ''socks4a''} then 4 else 0)
     \<and> cc_Auth cfg = map_option (\<lambda>(user, pw). CUserPass user (case pw of Some x \<Rightarrow> x | None \<Rightarrow> [])) (u_User u)
     \<and> (\<exists>h. hs_init cfg CmdConnect (zero_hs\<lparr>h_target := t\<rparr>) = Inr h)"
proof -
  obtain p where p: "pu_parse u zeroProxyURL = (p, [])" and d: "d_ProxyAddr d = pu_Addr p" "d_Config d = Some (pu_Config p, 0, 0)"
    "d_ProxyDial d = (if pu_TLS p then Some tlsDial else None)" "d_Resolver d = (if pu_ResolveLocally p then Some resolve else None)"
    using assms by (auto simp: FromURL_def ParseProxyURL_def split: prod.splits if_splits sum.splits)
  obtain p1 port x where s: "setScheme (u_Scheme u) zeroProxyURL = Some p1" and h: "u_Hostname u \<noteq> []" and n: "normalizePort (u_Port u) = Some port"
    and j: "SplitHostPort (JoinHostPort (u_Hostname u) port) = Inr (u_Hostname u, x)"
    and us: "case u_User u of None \<Rightarrow> p = p1\<lparr>pu_Addr := JoinHostPort (u_Hostname u) port\<rparr>
       | Some up \<Rightarrow> setUser up (p1\<lparr>pu_Addr := JoinHostPort (u_Hostname u) port\<rparr>) = (p, [])"
    using pu_parse_ok [OF p] by blast
  note sc = setScheme_cases [OF s] and np = normalizePort_ok [OF n]
  have x: "x = port" using SplitHostPort_Join [OF j] np by simp
  have f: "pu_Addr p = JoinHostPort (u_Hostname u) port \<and> pu_TLS p = pu_TLS p1 \<and> pu_ResolveLocally p = pu_ResolveLocally p1
    \<and> cc_Version (pu_Config p) = cc_Version (pu_Config p1) \<and> cc_Mode (pu_Config p) = ModePipelined \<and> \<not> cc_OfferNoAuth (pu_Config p)
    \<and> cc_Auth (pu_Config p) = map_option (\<lambda>(user, pw). CUserPass user (case pw of Some x \<Rightarrow> x | None \<Rightarrow> [])) (u_User u)
    \<and> cc_Auth (pu_Config p) \<in> insert None ((\<lambda>(u, p). Some (CUserPass u p)) ` {(u, q). length u \<le> 255 \<and> length q \<le> 255 \<and> (cc_Version (pu_Config p) = 4 \<longrightarrow> q = [])})"
  proof (cases "u_User u")
    case None
    then show ?thesis using us sc(3) by (auto simp: zeroConfig_def)
  next
    case (Some up)
    obtain user pw where up: "up = (user, pw)" by fastforce
    have "setUser (user, pw) (p1\<lparr>pu_Addr := JoinHostPort (u_Hostname u) port\<rparr>) = (p, [])" using us Some up by simp
    from setUser_ok [OF this] show ?thesis using Some up sc(3) by (cases pw) (auto simp: zeroConfig_def)
  qed
  have "\<exists>h. hs_init (pu_Config p) CmdConnect (zero_hs\<lparr>h_target := t\<rparr>) = Inr h"
  proof (rule url_config_ok)
    show "cc_Version (pu_Config p) \<in> {0, 4}" using f sc(3) by simp
  qed (use f in blast)+
  then show ?thesis using f d sc np j x h by (auto simp: zeroConfig_def)
qed

text \<open>An error of \<open>ParseProxyURL\<close> shows the scheme and the host of the URL and one of seven reasons, and nothing of its user, password,
  path or opaque part.\<close>

theorem url_errors_hide_credentials:
  assumes "ParseProxyURL quo (Some u) = Inl e"
  shows "\<exists>why \<in> {''unsupported scheme'', ''opaque'', ''no host'', ''port must be 1-65535'', ''invalid host'',
      ''username or password over 255 bytes'', ''SOCKS4 has no password''}.
    e = EStr (''socks0: proxy URL '' @ quo (url_String (u_Scheme u) (u_Host u)) @ '': '' @ why)"
  using assms
  by (auto simp: ParseProxyURL_def pu_parse_def setUser_def Let_def split: prod.splits if_splits option.splits sum.splits)

section \<open>Witnesses\<close>

definition durl :: purl where
  "durl = \<lparr>u_Scheme = ''socks5h'', u_Opaque = [], u_User = Some (''a'', Some ''b''), u_Host = ''h''\<rparr>"

definition dnone :: dialfn where "dnone n a = (None, Some (EErrno ECONNREFUSED))"

lemma durl_scheme: "ToLower ''socks5h'' = ''socks5h''" "u_split ''h'' = (''h'', [])" "SplitHostPort (JoinHostPort ''h'' ''1080'') = Inr (''h'', ''1080'')"
  by (simp_all add: ToLower_def is_upper_def u_split_def last_index_of_def JoinHostPort_def SplitHostPort_def host_of_def)

definition dres :: resolver where "dres n h = ([IP4 1], None)"

lemma durl_ok: "\<exists>d. FromURL id dnone r (Some durl) = Inr d"
  by (simp add: FromURL_def ParseProxyURL_def pu_parse_def setScheme_def durl_def durl_scheme u_Hostname_def u_Port_def normalizePort_def
      setUser_def zeroProxyURL_def zeroConfig_def Let_def)

lemma url_dialer_witness: "\<exists>d. FromURL id dnone dres (Some durl) = Inr d \<and> d_Resolver d = None"
proof -
  obtain d where d: "FromURL id dnone dres (Some durl) = Inr d" using durl_ok by blast
  show ?thesis using url_dialer [OF d] d by (auto simp: durl_def durl_scheme)
qed

lemma url_errors_hide_credentials_witness:
  "\<exists>why e. ParseProxyURL id (Some (durl\<lparr>u_Scheme := ''http''\<rparr>)) = Inl e \<and> e = EStr (''socks0: proxy URL '' @ url_String ''http'' ''h'' @ '': '' @ why)"
proof -
  have "\<exists>e. ParseProxyURL id (Some (durl\<lparr>u_Scheme := ''http''\<rparr>)) = Inl e"
    by (simp add: ParseProxyURL_def pu_parse_def setScheme_def durl_def Let_def ToLower_def is_upper_def)
  then obtain e where e: "ParseProxyURL id (Some (durl\<lparr>u_Scheme := ''http''\<rparr>)) = Inl e" by blast
  show ?thesis using url_errors_hide_credentials [OF e] e by (auto simp: durl_def)
qed

text \<open>A proxy that answers as expected, one byte behind its replies.\<close>

definition dproxy :: pconn where
  "dproxy = \<lparr>pn_net = demoNet ([5, 0] @ [5, 0, 0, 1, 1, 2, 3, 4, 0, 80] @ [7]), pn_local = ''l'', pn_remote = ''r'', pn_peer = IP4 0,
     pn_canDeadline = True, pn_closed = False, pn_dl = DLNone\<rparr>"

definition ddialer :: "dialfn \<Rightarrow> dialer" where
  "ddialer f = \<lparr>d_ProxyAddr = ''p:1'', d_ProxyDial = Some f, d_Resolver = None, d_Config = Some (zeroConfig, 0, 0), d_RelayDial = None,
     d_RelayListen = None, d_RelayUseProxyHost = False, d_AssociateAddr = [], d_AssociateLocalPort = False\<rparr>"

definition dctx :: cctx where
  "dctx = \<lparr>cx_hasDeadline = True, cx_atResolve = None, cx_atDial = None, cx_inHandshake = None, cx_atRelay = None, cx_now = 0, cx_later = 0\<rparr>"

lemma ddialer_sel [simp]:
  "d_Config (ddialer f) = Some (zeroConfig, 0, 0)" "d_ProxyDial (ddialer f) = Some f" "d_Resolver (ddialer f) = None"
  "configOf (Some (zeroConfig, 0, 0)) = (zeroConfig, 0, 0)" "dial_of nd (ddialer f) = f" "cc_Auth zeroConfig = None"
  "cc_Mode zeroConfig = ModePipelined" "\<not> dial_early (Some (ddialer f))"
  by (simp_all add: ddialer_def configOf_def dial_of_def zeroConfig_def dial_early_def mode_defs)

lemma dtarget: "parseTarget ''tcp'' ''h:80'' = (nameAddrOf ''h'' 80, None)"
  by (simp add: parseTarget_def wire_ParseAddr_def SplitHostPort_def last_index_of_def host_of_def ParseUint16_def is_digit_def
      digit_val_def matchesFamily_def nameAddrOf_def)

lemma demo_handshake_mode:
  assumes "cmd = CmdConnect \<or> cmd = CmdUDPAssociate" and "\<And>b. snd (AppendRequest b cmd r) = None" and "m = ModePipelined \<or> m = ModeSequential"
  shows "\<exists>h0 h. hs_init (zeroConfig\<lparr>cc_Mode := m\<rparr>) cmd (zero_hs\<lparr>h_target := t\<rparr>) = Inr h0 \<and> setTarget r h0 = Inr h
    \<and> h_version h = 5 \<and> h_pipe h = None \<and> h_cmd h = cmd \<and> h_offered h = MethodNoAuth \<and> h_auth h = None"
proof -
  have "\<exists>h0. hs_init (zeroConfig\<lparr>cc_Mode := m\<rparr>) cmd (zero_hs\<lparr>h_target := t\<rparr>) = Inr h0 \<and> h_version h0 = 5 \<and> h_pipe h0 = None
      \<and> h_cmd h0 = cmd \<and> h_offered h0 = MethodNoAuth \<and> h_auth h0 = None"
    using assms(1,3) by (auto simp: hs_init_def zeroConfig_def mode_defs init5_def Let_def zero_hs_def CmdConnect_def CmdUDPAssociate_def)
  then obtain h0 where h0: "hs_init (zeroConfig\<lparr>cc_Mode := m\<rparr>) cmd (zero_hs\<lparr>h_target := t\<rparr>) = Inr h0" "h_version h0 = 5" "h_pipe h0 = None"
    "h_cmd h0 = cmd" "h_offered h0 = MethodNoAuth" "h_auth h0 = None" by blast
  have "snd (snd (append5 r h0)) = None"
    using assms(2) h0(4) by (simp add: append5_def Let_def case_prod_beta)
  then have "\<exists>h. setTarget r h0 = Inr h"
    using h0(2) by (simp add: setTarget_def Let_def case_prod_beta)
  then obtain h where h: "setTarget r h0 = Inr h" by blast
  show ?thesis using h0 h setTarget_facts [OF h] by auto
qed

lemma zero_pipelined: "zeroConfig\<lparr>cc_Mode := ModePipelined\<rparr> = zeroConfig"
  by (simp add: zeroConfig_def)

lemmas demo_handshake = demo_handshake_mode [where m = ModePipelined, unfolded zero_pipelined, OF _ _ disjI1 [OF refl]]

lemma demo_request: "snd (AppendRequest b CmdConnect (nameAddrOf ''h'' 80)) = None"
  by (auto simp: AppendRequest_def appendAddrMessage_def Let_def split: prod.splits)

lemmas dhandshake = demo_handshake [where cmd = CmdConnect and r = "nameAddrOf ''h'' 80", OF disjI1 [OF refl] demo_request]

lemma dreplies:
  assumes "h_version h = 5" and "h_pipe h = None" and "h_cmd h = CmdConnect \<or> h_cmd h = CmdUDPAssociate" and "h_offered h = MethodNoAuth"
  shows "replies_spec h err ([5, 0] @ [5, 0, 0, 1, 1, 2, 3, 4, 0, 80] @ [7]) = Inr (demoTarget, [7])"
proof -
  have "ParseMethodSelection ([5, 0] @ x) = (0, 2, None)" for x
    by (simp add: ParseMethodSelection_def checkVersion_def Version5_def)
  then have m: "method_spec h err ([5, 0] @ x) = Inr (0, x)" for x
    using assms by (simp add: method_spec_def msg_spec_def refuses_def method_defs)
  have bd: "checkBound demoTarget h = None"
    using assms(3)
    by (auto simp: demoTarget_def ipAddr_def checkBound_def Let_def CmdConnect_def CmdUDPAssociate_def CmdBind_def CmdTorResolve_def CmdTorResolvePTR_def)
  have "reply_spec h err ([5, 0, 0, 1, 1, 2, 3, 4, 0, 80] @ [7]) = Inr (demoTarget, [7])"
    using reply_back [OF dc_reply dc_wf, of "[7]" "h_cmd h"] bd assms(1)
    by (simp add: reply_spec_def next_reply_spec_def plainReply_def gotVR_def okReply_def Version5_def reply_defs)
  then show ?thesis using m assms by (simp add: replies_spec_def)
qed

definition dproxyDial :: dialfn where "dproxyDial n a = (Some dproxy, None)"

lemma dproxy_opens: "opens dproxyDial"
  by (simp add: opens_def dproxyDial_def dproxy_def)

text \<open>The same dialer with another mode.\<close>

definition mdialer :: "mode \<Rightarrow> dialer" where
  "mdialer m = (ddialer dproxyDial)\<lparr>d_Config := Some (zeroConfig\<lparr>cc_Mode := m\<rparr>, 0, 0)\<rparr>"

lemma mdialer_sel [simp]:
  "configOf (d_Config (mdialer m)) = (zeroConfig\<lparr>cc_Mode := m\<rparr>, 0, 0)" "d_ProxyDial (mdialer m) = Some dproxyDial"
  "d_Resolver (mdialer m) = None" "dial_of nd (mdialer m) = dproxyDial" "mdialer ModePipelined = ddialer dproxyDial"
  by (simp_all add: mdialer_def ddialer_def configOf_def dial_of_def zeroConfig_def ModePipelined_def)

lemma demo_newConn:
  assumes "m = ModePipelined \<or> m = ModeSequential"
  shows "\<exists>c. dnewConn x (Some (mdialer m)) opConnect ''tcp'' CmdConnect (nameAddrOf ''h'' 80) None kdial0 = (c, Inr (nameAddrOf ''h'' 80))
    \<and> hs_ready (k_h c) \<and> h_mode (k_h c) = m \<and> h_version (k_h c) = 5 \<and> h_pipe (k_h c) = None \<and> h_cmd (k_h c) = CmdConnect
    \<and> h_offered (k_h c) = MethodNoAuth \<and> h_auth (k_h c) = None"
proof -
  let ?t = "nameAddrOf ''h'' 80" and ?d = "mdialer m"
  obtain h0 h where h: "hs_init (zeroConfig\<lparr>cc_Mode := m\<rparr>) CmdConnect (zero_hs\<lparr>h_target := ?t\<rparr>) = Inr h0" "setTarget ?t h0 = Inr h"
    "h_version h = 5" "h_pipe h = None" "h_cmd h = CmdConnect" "h_offered h = MethodNoAuth" "h_auth h = None"
    using demo_handshake_mode [OF disjI1 [OF refl] demo_request assms, of ?t] by blast
  obtain c where n: "dnewConn x (Some ?d) opConnect ''tcp'' CmdConnect ?t None kdial0 = (c, Inr ?t)"
    using h by (auto simp: dnewConn_def Let_def kinit_def kdial0_def kconn0_def split: prod.splits)
  obtain h0' h' where h': "hs_init (zeroConfig\<lparr>cc_Mode := m\<rparr>) CmdConnect (zero_hs\<lparr>h_target := ?t\<rparr>) = Inr h0'" "setTarget ?t h0' = Inr h'"
    "k_h c = h'\<lparr>h_target := ?t\<rparr>"
    using dnewConn_ok [OF n _ kdial0_sel(1), of "zeroConfig\<lparr>cc_Mode := m\<rparr>" 0 0] by auto
  have kh: "k_h c = h\<lparr>h_target := ?t\<rparr>" using h' h by simp
  have "cauth_ok (cc_Auth (zeroConfig\<lparr>cc_Mode := m\<rparr>))" by (simp add: zeroConfig_def)
  note rd = dnewConn_ready [OF n kdial0_sel(1) mdialer_sel(1) this]
  have "h_mode (k_h c) = m" using rd(3) assms by (auto simp: mode_defs)
  then show ?thesis using n kh h rd(1) by (intro exI [of _ c]) simp
qed

lemma ddial_mode:
  assumes "m = ModePipelined \<or> m = ModeSequential"
  shows "\<exists>q. DialTCP dctx dnone (Some (mdialer m)) ''tcp'' ''h:80'' = Some (DialedConn q)"
    and "\<exists>e p. DialTCP (dctx\<lparr>cx_atDial := Some CtxCanceled\<rparr>) dnone (Some (mdialer m)) ''tcp'' ''h:80'' = Some (DialedErr e (Some p))"
proof -
  let ?d = "mdialer m"
  have ne: "\<not> dial_early (Some ?d)" using assms by (auto simp: dial_early_def mode_defs)
  obtain c where n: "dnewConn dctx (Some ?d) opConnect ''tcp'' CmdConnect (nameAddrOf ''h'' 80) None kdial0 = (c, Inr (nameAddrOf ''h'' 80))"
    and h: "hs_ready (k_h c)" "h_mode (k_h c) = m" "h_version (k_h c) = 5" "h_pipe (k_h c) = None" "h_cmd (k_h c) = CmdConnect"
      "h_offered (k_h c) = MethodNoAuth" "h_auth (k_h c) = None"
    using demo_newConn [OF assms, of dctx] by blast
  note rep = dreplies [OF h(3,4) disjI1 [OF h(5)] h(6)]
  have "cn_room (pn_net dproxy) = None" and "stream_bytes (cn_rd (pn_net dproxy)) = [5, 0] @ [5, 0, 0, 1, 1, 2, 3, 4, 0, 80] @ [7]"
    by (simp_all add: dproxy_def)
  then obtain hh n' where run: "hs_run (k_h c) (pn_net dproxy) = Some (hh, n', None)"
    using sequential_run_spec [OF h(1) _ h(3,7,4), of "pn_net dproxy"] pipelined_run_spec [OF h(1), of "pn_net dproxy"] assms h(2) rep
    by (auto simp: mode_defs simp del: append.simps)
  obtain c2 where pr: "dialProxy dctx dnone ?d c = (c2, Inr dproxy)" "k_h c2 = k_h c"
    by (simp add: dialProxy_def dproxyDial_def dialErr_def dctx_def ksay_def)
  have "snd (dialTimeout dctx ?d c) = 0"
    by (simp add: dialTimeout_def split: option.splits)
  moreover have "\<not> early c2" using pr h(2) assms by (auto simp: early_def mode_defs)
  moreover obtain c3 where "handshakeOver (cx_later dctx) True None None (map_option ESent (cx_inHandshake dctx)) (c2\<lparr>k_h := hh\<rparr>) = (c3, None)"
    by (auto simp: handshakeOver_def dctx_def blame_def Let_def)
  ultimately have "\<exists>c3 q. dconnect dctx dnone ?d c = Some (c3, Some q, None)"
    using pr run by (auto simp: dconnect_def Let_def)
  then show "\<exists>q. DialTCP dctx dnone (Some ?d) ''tcp'' ''h:80'' = Some (DialedConn q)" using n dtarget ne by (auto simp: DialTCP_def)
  let ?x = "dctx\<lparr>cx_atDial := Some CtxCanceled\<rparr>"
  obtain c' where n': "dnewConn ?x (Some ?d) opConnect ''tcp'' CmdConnect (nameAddrOf ''h'' 80) None kdial0 = (c', Inr (nameAddrOf ''h'' 80))"
    using demo_newConn [OF assms, of ?x] by blast
  have "\<exists>c2 e p. dconnect ?x dnone ?d c' = Some (c2, Some p, Some e)"
    by (simp add: dconnect_def dialProxy_def dproxyDial_def dialErr_def Let_def)
  then show "\<exists>e p. DialTCP ?x dnone (Some ?d) ''tcp'' ''h:80'' = Some (DialedErr e (Some p))" using n' dtarget ne by (auto simp: DialTCP_def)
qed

lemmas ddial = ddial_mode(1) [of ModePipelined, unfolded mdialer_sel(5), OF disjI1 [OF refl]]

text \<open>The proxy's conn is open after a handshake in one go and after one step by step, and closed when the context ended with the dial.\<close>

lemma dial_ends_and_leaks_nothing_witness:
  "(\<exists>q. DialTCP dctx dnone (Some (mdialer ModePipelined)) ''tcp'' ''h:80'' = Some (DialedConn q) \<and> \<not> pn_closed q \<and> pn_dl q = DLNone)
   \<and> (\<exists>q. DialTCP dctx dnone (Some (mdialer ModeSequential)) ''tcp'' ''h:80'' = Some (DialedConn q) \<and> \<not> pn_closed q \<and> pn_dl q = DLNone)
   \<and> (\<exists>e p. DialTCP (dctx\<lparr>cx_atDial := Some CtxCanceled\<rparr>) dnone (Some (mdialer ModeSequential)) ''tcp'' ''h:80'' = Some (DialedErr e (Some p))
      \<and> pn_closed p)"
proof -
  have o: "opens (dial_of dnone (mdialer m))" for m using dproxy_opens by simp
  show ?thesis
    using ddial_mode(1) [OF disjI1 [OF refl]] ddial_mode [OF disjI2 [OF refl]]
      dial_ends_and_leaks_nothing [OF o, of dctx ModePipelined "''tcp''" "''h:80''"]
      dial_ends_and_leaks_nothing [OF o, of dctx ModeSequential "''tcp''" "''h:80''"]
      dial_ends_and_leaks_nothing [OF o, of "dctx\<lparr>cx_atDial := Some CtxCanceled\<rparr>" ModeSequential "''tcp''" "''h:80''"]
    by auto
qed

lemma dialed_conn_is_the_tunnel_witness:
  "\<exists>q. DialTCP dctx dnone (Some (ddialer dproxyDial)) ''tcp'' ''h:80'' = Some (DialedConn q) \<and> stream_bytes (cn_rd (pn_net q)) = [7]"
proof -
  obtain q where q: "DialTCP dctx dnone (Some (ddialer dproxyDial)) ''tcp'' ''h:80'' = Some (DialedConn q)" using ddial by blast
  have p: "dial_of dnone (ddialer dproxyDial) ''tcp'' (d_ProxyAddr (ddialer dproxyDial)) = (Some dproxy, None)" by (simp add: dproxyDial_def)
  obtain r h0 h bound where e: "dial_sends (ddialer dproxyDial) CmdConnect ''tcp'' (nameAddrOf ''h'' 80) r"
    "hs_init zeroConfig CmdConnect (zero_hs\<lparr>h_target := nameAddrOf ''h'' 80\<rparr>) = Inr h0" "setTarget r h0 = Inr h"
    "replies_spec h (stream_end (cn_rd (pn_net dproxy))) (stream_bytes (cn_rd (pn_net dproxy))) = Inr (bound, stream_bytes (cn_rd (pn_net q)))"
    using dialed_conn_is_the_tunnel [OF q _ _ _ _ p, of zeroConfig 0 0] dproxy_opens dtarget by (auto simp: dproxy_def)
  have "r = nameAddrOf ''h'' 80" using e(1) by (simp add: dial_sends_def)
  then have "h_version h = 5 \<and> h_pipe h = None \<and> h_cmd h = CmdConnect \<and> h_offered h = MethodNoAuth"
    using dhandshake [of "nameAddrOf ''h'' 80"] e(2,3) by auto
  then have "stream_bytes (cn_rd (pn_net q)) = [7]" using e(4) dreplies by (auto simp: dproxy_def)
  then show ?thesis using q by blast
qed

end
