(* ===== verification/ClientRelayProps.thy ===== *)
theory ClientRelayProps
  imports ClientRelay ClientDialProps
begin

text \<open>
  What the set-up of an association guarantees: the policy keeps a hostile BND away from the networks behind the
  client, every relay that is used has passed it, and a failure leaves nothing open.
\<close>

section \<open>Sockets\<close>

definition sopens :: "relayfn \<Rightarrow> bool" where
  "sopens f \<longleftrightarrow> (\<forall>n a s e. f n a = (Some s, e) \<longrightarrow> \<not> rs_closed s)"

lemma sopensD: "sopens f \<Longrightarrow> f n a = (Some s, e) \<Longrightarrow> \<not> rs_closed s"
  unfolding sopens_def by blast

definition relay_fns_open :: "unet \<Rightarrow> dialer \<Rightarrow> bool" where
  "relay_fns_open u d \<longleftrightarrow>
     (case d_RelayDial d of Some f \<Rightarrow> sopens f | None \<Rightarrow> \<forall>ctl. sopens (un_relay u ctl))
   \<and> (case d_RelayListen d of Some f \<Rightarrow> sopens f | None \<Rightarrow> sopens (un_listen u))"

definition closed_opt :: "rsock option \<Rightarrow> bool" where
  "closed_opt s \<longleftrightarrow> (\<forall>x. s = Some x \<longrightarrow> rs_closed x)"

definition open_some :: "rsock option \<Rightarrow> bool" where
  "open_some s \<longleftrightarrow> (\<exists>x. s = Some x \<and> \<not> rs_closed x)"

lemma closed_opt_simps [simp]: "closed_opt None" "closed_opt (Some x) = rs_closed x" "closed_opt (map_option rs_close s)"
  by (auto simp: closed_opt_def rs_close_def)

lemma open_some_simps [simp]: "\<not> open_some None" "open_some (Some x) = (\<not> rs_closed x)"
  by (auto simp: open_some_def)

lemma prebind_result:
  assumes "relay_fns_open u d" and "prebind u d network = (pc, e)"
  shows "if e = None then open_some pc else closed_opt pc"
proof -
  let ?f = "case d_RelayListen d of Some f \<Rightarrow> f | None \<Rightarrow> un_listen u"
  have "sopens ?f" using assms(1) by (auto simp: relay_fns_open_def split: option.splits)
  then show ?thesis
    using assms(2) sopensD [of ?f network "'':0''"]
    by (cases "?f network '':0''") (auto simp: prebind_def dialErr_def rs_close_def Let_def split: if_splits option.splits prod.splits)
qed

lemma dialRelay_result:
  assumes "relay_fns_open u d" and "dialRelay u d network ra pip = (s, e)"
  shows "if e = None then open_some s else closed_opt s"
proof -
  let ?f = "case d_RelayDial d of Some f \<Rightarrow> f | None \<Rightarrow> un_relay u (relayControl pip (un_nobc u))"
  have "sopens ?f" using assms(1) by (auto simp: relay_fns_open_def split: option.splits)
  then show ?thesis
    using assms(2) sopensD [of ?f network "addr_String ra"]
    by (cases "?f network (addr_String ra)") (auto simp: dialRelay_def dialErr_def rs_close_def Let_def split: if_splits option.splits prod.splits)
qed

lemma listenRelay_result:
  assumes "relay_fns_open u d" and "listenRelay u d network ra pip pre = (ra1, pc, pre1, e)" and "pre \<noteq> None \<longrightarrow> open_some pre"
    and "d_RelayListen d \<noteq> None \<or> pre \<noteq> None"
  shows "if e = None then open_some pc else closed_opt pc \<and> closed_opt pre1"
proof -
  have f: "\<not> rs_closed s" if "d_RelayListen d = Some f" "f network '':0'' = (Some s, x)" for f s x
    using that sopensD [of f] assms(1) by (auto simp: relay_fns_open_def)
  show ?thesis
    using assms(2-4) f
    by (auto simp: listenRelay_def dialErr_def rs_close_def open_some_def closed_opt_def Let_def split: if_splits option.splits prod.splits sum.splits)
qed

lemma urelay_open_result:
  assumes "relay_fns_open u d" and "urelay_open u d peer bound pre c = (c1, r, pre1, e)" and "pre \<noteq> None \<longrightarrow> open_some pre"
  shows "if e = None then open_some (ur_relay r) \<or> open_some (ur_pc r) else closed_opt (ur_relay r) \<and> closed_opt (ur_pc r) \<and> closed_opt pre1"
proof -
  obtain q pip where q: "relayAddr u d peer bound = (q, pip)" by fastforce
  show ?thesis
  proof (cases q)
    case (Inl x)
    then show ?thesis using assms(2) q by (auto simp: urelay_open_def Let_def)
  next
    case (Inr ra)
    show ?thesis
    proof (cases "d_RelayListen d = None \<and> pre = None")
      case True
      then show ?thesis
        using assms(2) q Inr dialRelay_result [OF assms(1), of "cudpNetwork (IP_of ra)" ra pip]
        by (auto simp: urelay_open_def Let_def split: prod.splits if_splits)
    next
      case False
      then show ?thesis
        using assms(2,3) q Inr listenRelay_result [OF assms(1), of "cudpNetwork (IP_of ra)" ra pip pre]
        by (auto simp: urelay_open_def Let_def split: prod.splits if_splits)
    qed
  qed
qed

lemma openRelay_result:
  assumes "relay_fns_open u d" and "openRelay x u d p pre c = (c1, p1, r, pre1, e)" and "pre \<noteq> None \<longrightarrow> open_some pre"
  shows "if e = None then p1 = p \<and> (open_some (ur_relay r) \<or> open_some (ur_pc r))
     else pn_closed p1 \<and> closed_opt (ur_relay r) \<and> closed_opt (ur_pc r) \<and> closed_opt pre1"
  using assms(2) urelay_open_result [OF assms(1) _ assms(3), of "Unmap (pn_peer p)" "h_bound (k_h c)" c]
  by (auto simp: openRelay_def pn_close_def Let_def split: prod.splits option.splits)

section \<open>The policy as intervals\<close>

text \<open>The addresses a public proxy may not name, as intervals, each from its first address up to the first one after it.\<close>

definition internal4 :: "(nat \<times> nat) list" where
  "internal4 =
     [(quad 0 0 0 0, quad 0 0 0 1), (quad 10 0 0 0, quad 11 0 0 0), (quad 100 64 0 0, quad 100 128 0 0), (quad 127 0 0 0, quad 128 0 0 0),
      (quad 169 254 0 0, quad 169 255 0 0), (quad 172 16 0 0, quad 172 32 0 0), (quad 192 168 0 0, quad 192 169 0 0),
      (quad 224 0 0 0, quad 240 0 0 0), (quad 255 255 255 255, quad 256 0 0 0)]"

definition internal6 :: "(nat \<times> nat) list" where
  "internal6 =
     [(0, 2), (0xfc00 * 2 ^ 112, 0xfe00 * 2 ^ 112), (0xfe80 * 2 ^ 112, 0xfec0 * 2 ^ 112), (0xff00 * 2 ^ 112, 0x10000 * 2 ^ 112)]"

definition internal :: "ip \<Rightarrow> bool" where
  "internal x = (case x of IP4 w \<Rightarrow> in_ranges internal4 (unat w) | IP6 w z \<Rightarrow> in_ranges internal6 (unat w) | NoIP \<Rightarrow> False)"

lemma drop_bit_interval_const:
  "drop_bit k (w :: 'a::len word) = v \<longleftrightarrow> unat v * 2 ^ k \<le> unat w \<and> unat w < unat v * 2 ^ k + 2 ^ k"
proof -
  have "drop_bit k w = v \<longleftrightarrow> unat w div 2 ^ k = unat v"
    by (metis unat_drop_bit_word word_unat_eq_iff)
  then show ?thesis using div_eq_iff_interval [of "2 ^ k" "unat v * 2 ^ k" "unat w"] by auto
qed

lemma cscope_low: "cscope x < 3 \<longleftrightarrow> IsLoopback x \<or> IsUnspecified x \<or> IsLinkLocalUnicast x \<or> IsPrivate x \<or> pfx_Contains cgnat x"
  by (simp add: cscope_def)

lemmas classes = internal_def in_ranges_def IsMulticast_def broadcast4_def IsUnspecified_def cscope_low IsLoopback_def IsLinkLocalUnicast_def
  IsPrivate_def cgnat_def drop_bit_interval_const

lemma internal_4: "internal (IP4 w) \<longleftrightarrow> IsMulticast (IP4 w) \<or> IP4 w = broadcast4 \<or> IsUnspecified (IP4 w) \<or> cscope (IP4 w) < 3"
proof -
  have "w = 0 \<longleftrightarrow> unat w = 0" by (simp add: word_unat_eq_iff)
  moreover have lt: "unat w < 4294967296" using unat_32_bound [of w] by simp
  moreover have "w = 4294967295 \<longleftrightarrow> 4294967295 \<le> unat w" using lt by (auto simp: word_unat_eq_iff)
  ultimately show ?thesis
    by (simp add: classes internal4_def quad_def pfx4_interval ip4_of_bytes_def del: pfx4_Contains) blast
qed

lemma internal_6:
  assumes "Unmap (IP6 w []) = IP6 w []"
  shows "internal (IP6 w []) \<longleftrightarrow> IsMulticast (IP6 w []) \<or> IP6 w [] = broadcast4 \<or> IsUnspecified (IP6 w []) \<or> cscope (IP6 w []) < 3"
proof -
  have "w = 0 \<or> w = 1 \<longleftrightarrow> unat w < 2" by (auto simp: word_unat_eq_iff)
  moreover have "unat w < 2 ^ 128" by (rule order_less_le_trans [OF unsigned_less]) simp
  ultimately show ?thesis
    by (simp add: classes internal6_def assms del: Unmap.simps) blast
qed

lemma internal_iff:
  assumes "plain_ip x"
  shows "internal x \<longleftrightarrow> IsMulticast x \<or> x = broadcast4 \<or> IsUnspecified x \<or> cscope x < 3"
proof (cases x)
  case NoIP
  then show ?thesis by (simp add: classes)
next
  case (IP4 w)
  then show ?thesis by (simp only: internal_4)
next
  case (IP6 w z)
  have "z = []" "Unmap (IP6 w []) = IP6 w []" using assms IP6 by (auto simp: plain_ip_def split: if_splits)
  then show ?thesis using internal_6 IP6 by simp
qed

section \<open>The association as a whole\<close>

lemma setRequestDST_result:
  assumes "relay_fns_open u d" and "setRequestDST x u d network rq connected c = (c1, pre, e)"
  shows "if e = None then pre \<noteq> None \<longrightarrow> open_some pre else closed_opt pre"
    and "fresh_hs (k_h c1) = fresh_hs (k_h c)" and "k_connClosed c1 = k_connClosed c"
  using assms(2) prebind_result [OF assms(1), of network] setTarget_fresh
  by (auto simp: setRequestDST_def Let_def split: prod.splits option.splits if_splits sum.splits)

text \<open>C33: Setting up a UDP association ends whenever the functions it calls return and the proxy's stream does, with every configuration
  and whatever the proxy sends. An error, in the arguments, the local socket, the dial, the handshake, the
  relay address, its resolution or the relay dial, leaves neither the control conn nor any UDP socket open;
  otherwise the control conn and a relay socket are open.\<close>

theorem association_leaks_nothing:
  assumes "opens (dial_of (un_dial u) d)" and "relay_fns_open u d"
  shows "\<exists>r ctl pre rel. associate x u (Some d) network target err dst = Some (r, ctl, pre, rel)
     \<and> (case r of
          Inl e \<Rightarrow> (\<forall>p. ctl = Some p \<longrightarrow> pn_closed p) \<and> closed_opt pre \<and> (\<forall>q. rel = Some q \<longrightarrow> closed_opt (ur_relay q) \<and> closed_opt (ur_pc q))
        | Inr a \<Rightarrow> \<not> pn_closed (ua_control a) \<and> (open_some (ur_relay (ua_rel a)) \<or> open_some (ur_pc (ua_rel a))))"
proof -
  obtain rq err1 where rq: "(case err of None \<Rightarrow> associateDST d dst | _ \<Rightarrow> (zeroAddr, err)) = (rq, err1)" by fastforce
  let ?con = "addr_IsValid target" let ?t = "if ?con then target else rq" let ?c0 = "kdial0\<lparr>k_doneAfterRelay := True\<rparr>"
  have z: "k_h ?c0 = zero_hs" "\<not> k_connClosed ?c0" using kdial0_sel by simp_all
  obtain c y where n: "dnewConn x (Some d) opAssociate network CmdUDPAssociate ?t err1 ?c0 = (c, y)" by fastforce
  show ?thesis
  proof (cases y)
    case (Inl e)
    then show ?thesis using rq n by (auto simp: associate_def split: option.splits)
  next
    case (Inr r)
    note n' = n [unfolded Inr]
    obtain cfg rt ht where cf: "configOf (d_Config d) = (cfg, rt, ht)" by (cases "configOf (d_Config d)") auto
    have cc: "\<not> k_connClosed c" using dnewConn_ok [OF n' cf z(1)] z(2) by auto
    obtain c1 pre e1 where sr: "setRequestDST x u d network rq ?con c = (c1, pre, e1)" by (cases "setRequestDST x u d network rq ?con c") auto
    note s = setRequestDST_result [OF assms(2) sr]
    show ?thesis
    proof (cases e1)
      case (Some e)
      then show ?thesis using s(1) rq n' sr by (auto simp: associate_def split: option.splits)
    next
      case None
      have pre: "pre \<noteq> None \<longrightarrow> open_some pre" using s(1) None by simp
      have f: "fresh_hs (k_h c1)" "\<not> k_connClosed c1" using s(2,3) dnewConn_fresh [OF n' z(1)] cc by simp_all
      obtain c2 conn e2 where d: "dconnect x (un_dial u) d c1 = Some (c2, conn, e2)"
        using dconnect_total [OF f(1) assms(1)] by fastforce
      note q = dconnect_result [OF assms(1) f(2) d]
      show ?thesis
      proof (cases e2)
        case (Some e)
        then show ?thesis using q rq n' sr None d by (auto simp: associate_def split: option.splits)
      next
        case e2: None
        then obtain p where p: "conn = Some p" "\<not> pn_closed p" using q by auto
        obtain c3 p1 rl pre1 e3 where o: "openRelay x u d p pre c2 = (c3, p1, rl, pre1, e3)" by (cases "openRelay x u d p pre c2") auto
        note res = openRelay_result [OF assms(2) o pre]
        show ?thesis using res p e2 rq n' sr None d o by (cases e3) (auto simp: associate_def split: option.splits)
      qed
    qed
  qed
qed

section \<open>The relay is vetted\<close>

text \<open>The IP that stands for the proxy: \<open>ProxyAddr\<close>'s, else the control conn's peer.\<close>

definition proxy_ip :: "dialer \<Rightarrow> pconn \<Rightarrow> ip" where
  "proxy_ip d p = (if ip_IsValid (ph_ip (proxyHost_of d)) then ph_ip (proxyHost_of d) else Unmap (pn_peer p))"

text \<open>The standard dialer calls its control function with the address it is about to connect to, and connects to no address
  for which it fails.\<close>

definition controlled :: "((string \<Rightarrow> error option) \<Rightarrow> relayfn) \<Rightarrow> bool" where
  "controlled f \<longleftrightarrow> (\<forall>ctl n a s. f ctl n a = (Some s, None) \<longrightarrow> (\<exists>t ap. ctl t = None \<and> ParseAddrPort t = Some ap \<and> rs_peer s = Some ap))"

lemma relayControl_ok: "relayControl pip nobc t = None \<Longrightarrow> ParseAddrPort t = Some ap \<Longrightarrow> checkRelay (ap_addr ap) pip = None"
  by (auto simp: relayControl_def split: option.splits)

lemma checkRelay_NoIP [simp]: "checkRelay NoIP p = None"
proof -
  have "cscope NoIP = 3" by (simp add: cscope_def IsLoopback_def IsUnspecified_def IsLinkLocalUnicast_def IsPrivate_def cgnat_def)
  moreover have "\<not> 3 < cscope x" for x by (simp add: cscope_def)
  ultimately show ?thesis
    by (simp add: checkRelay_def Let_def IsMulticast_def broadcast4_def IsUnspecified_def)
qed

lemma relayAddr_vetted:
  assumes "relayAddr u d peer bound = (Inr ra, pip)"
  shows "checkRelay (IP_of ra) pip = None" and "pip = (if ip_IsValid (ph_ip (proxyHost_of d)) then ph_ip (proxyHost_of d) else peer)"
proof -
  have "ip_IsValid (IP_of ra) \<Longrightarrow> checkRelay (IP_of ra) pip = None"
    using assms by (auto simp: relayAddr_def Let_def split: sum.splits if_splits option.splits)
  then show "checkRelay (IP_of ra) pip = None" by (cases "IP_of ra") (auto simp: ip_IsValid_def)
qed (use assms in \<open>simp add: relayAddr_def Let_def\<close>)

lemma urelay_vetted:
  assumes "urelay_open u d peer bound pre c = (c1, r, pre1, None)" and "controlled (un_relay u)"
  shows "(ur_pc r \<noteq> None \<longrightarrow> checkRelay (ap_addr (ur_relayAP r)) (snd (relayAddr u d peer bound)) = None)
     \<and> (\<forall>s. ur_relay r = Some s \<longrightarrow> (case d_RelayDial d of
           None \<Rightarrow> \<exists>ap. rs_peer s = Some ap \<and> checkRelay (ap_addr ap) (snd (relayAddr u d peer bound)) = None
         | Some f \<Rightarrow> \<exists>ra n. fst (f n (addr_String ra)) = Some s
             \<and> (ip_IsValid (IP_of ra) \<longrightarrow> checkRelay (IP_of ra) (snd (relayAddr u d peer bound)) = None)))"
proof -
  obtain ra pip where ra: "relayAddr u d peer bound = (Inr ra, pip)"
    using assms(1) by (cases "relayAddr u d peer bound"; cases "fst (relayAddr u d peer bound)") (auto simp: urelay_open_def Let_def)
  note v = relayAddr_vetted(1) [OF ra]
  show ?thesis
  proof (cases "d_RelayListen d = None \<and> pre = None")
    case True
    obtain s where s: "dialRelay u d (cudpNetwork (IP_of ra)) ra pip = (s, None)" "r = \<lparr>ur_relay = s, ur_pc = None, ur_relayAP = zeroAddrPort\<rparr>"
      using assms(1) ra True by (auto simp: urelay_open_def Let_def split: prod.splits)
    show ?thesis
    proof (cases "d_RelayDial d")
      case None
      then obtain s' where "s = Some s'" "un_relay u (relayControl pip (un_nobc u)) (cudpNetwork (IP_of ra)) (addr_String ra) = (Some s', None)"
        using s(1) by (auto simp: dialRelay_def dialErr_def Let_def split: if_splits prod.splits option.splits)
      then show ?thesis using assms(2) relayControl_ok None s(2) ra unfolding controlled_def by fastforce
    next
      case (Some f)
      then have "\<exists>s' e. s = Some s' \<and> f (cudpNetwork (IP_of ra)) (addr_String ra) = (Some s', e)"
        using s(1) by (auto simp: dialRelay_def dialErr_def Let_def split: if_splits prod.splits option.splits)
      then show ?thesis using Some s(2) ra v by (simp, metis fst_conv)
    qed
  next
    case False
    obtain ra1 pc where l: "listenRelay u d (cudpNetwork (IP_of ra)) ra pip pre = (ra1, pc, pre1, None)"
      and r: "r = \<lparr>ur_relay = None, ur_pc = pc, ur_relayAP = AddrPortFrom (IP_of ra1) (Port_of ra1)\<rparr>"
      using assms(1) ra False by (auto simp: urelay_open_def Let_def split: prod.splits if_splits)
    have "checkRelay (IP_of ra1) pip = None"
      using l v by (auto simp: listenRelay_def dialErr_def Let_def split: if_splits prod.splits sum.splits option.splits)
    then show ?thesis using r ra by simp
  qed
qed

lemma associate_openRelay:
  assumes "associate x u (Some d) network target err dst = Some (Inr a, rest)"
  shows "\<exists>c p pre c1 pre1. openRelay x u d p pre c = (c1, ua_control a, ua_rel a, pre1, None)"
proof -
  obtain rq err1 where rq: "(case err of None \<Rightarrow> associateDST d dst | _ \<Rightarrow> (zeroAddr, err)) = (rq, err1)" by fastforce
  let ?con = "addr_IsValid target" let ?t = "if ?con then target else rq" let ?c0 = "kdial0\<lparr>k_doneAfterRelay := True\<rparr>"
  obtain c y where n: "dnewConn x (Some d) opAssociate network CmdUDPAssociate ?t err1 ?c0 = (c, y)" by fastforce
  obtain c1 pre e1 where sr: "setRequestDST x u d network rq ?con c = (c1, pre, e1)" by (cases "setRequestDST x u d network rq ?con c") auto
  note f = assms [unfolded associate_def Let_def] rq n sr
  obtain z where y: "y = Inr z" using f by (cases y) (auto split: option.splits)
  have e1: "e1 = None" using f y by (cases e1) (auto split: option.splits)
  then obtain c2 conn e2 where d: "dconnect x (un_dial u) d c1 = Some (c2, conn, e2)"
    using f y by (cases "dconnect x (un_dial u) d c1") (auto split: option.splits)
  have e2: "e2 = None" using f y e1 d by (cases e2) (auto split: option.splits)
  obtain p where p: "conn = Some p" using f y e1 d e2 by (cases conn) (auto split: option.splits)
  obtain c3 p1 rl pre1 e3 where o: "openRelay x u d p pre c2 = (c3, p1, rl, pre1, e3)" by (cases "openRelay x u d p pre c2") auto
  have "e3 = None" "ua_control a = p1" "ua_rel a = rl"
    using f y e1 d e2 p o by (cases e3; auto split: option.splits)+
  then show ?thesis using o by blast
qed

text \<open>C31: Whatever relay address a hostile proxy names, the sockets this package opens itself pass the relay address policy: an
  unconnected socket sends only to a checked IP, also when the proxy gave a name, and the default dial, whose control
  function sees the address it connects to, is connected to a checked IP. A \<open>RelayDial\<close> of the caller is asked for the
  relay's address, checked if it is an IP; a name is its own to resolve and, as documented, not checked.\<close>

theorem relay_is_vetted:
  assumes "associate x u (Some d) network target err dst = Some (Inr a, rest)" and "controlled (un_relay u)"
  shows "(ur_pc (ua_rel a) \<noteq> None \<longrightarrow> checkRelay (ap_addr (ur_relayAP (ua_rel a))) (proxy_ip d (ua_control a)) = None)
     \<and> (\<forall>s. ur_relay (ua_rel a) = Some s \<longrightarrow> (case d_RelayDial d of
           None \<Rightarrow> \<exists>ap. rs_peer s = Some ap \<and> checkRelay (ap_addr ap) (proxy_ip d (ua_control a)) = None
         | Some f \<Rightarrow> \<exists>ra n. fst (f n (addr_String ra)) = Some s
             \<and> (ip_IsValid (IP_of ra) \<longrightarrow> checkRelay (IP_of ra) (proxy_ip d (ua_control a)) = None)))"
proof -
  obtain c2 p pre c3 pre1 where o: "openRelay x u d p pre c2 = (c3, ua_control a, ua_rel a, pre1, None)"
    using associate_openRelay [OF assms(1)] by blast
  then obtain c4 where oo: "urelay_open u d (Unmap (pn_peer p)) (h_bound (k_h c2)) pre c2 = (c4, ua_rel a, pre1, None)" and p: "ua_control a = p"
    by (auto simp: openRelay_def Let_def split: prod.splits option.splits)
  have "snd (relayAddr u d (Unmap (pn_peer p)) (h_bound (k_h c2))) = proxy_ip d (ua_control a)"
    using p by (simp add: relayAddr_def proxy_ip_def Let_def)
  with urelay_vetted [OF oo assms(2)] show ?thesis by (rule subst [rotated])
qed

section \<open>Witnesses\<close>

text \<open>An outside whose relay dial asks its control function as \<open>net.Dialer\<close> does, and then gives a socket connected to the address.\<close>

definition dsock :: rsock where "dsock = \<lparr>rs_port = Some 9, rs_peer = None, rs_closed = False\<rparr>"

definition drelay :: "(string \<Rightarrow> error option) \<Rightarrow> relayfn" where
  "drelay ctl n a =
     (case ctl a of
        Some e \<Rightarrow> (None, Some e)
      | None \<Rightarrow> (case ParseAddrPort a of
                   None \<Rightarrow> (None, Some (EErrno ECONNREFUSED))
                 | Some ap \<Rightarrow> (Some (dsock\<lparr>rs_peer := Some ap\<rparr>), None)))"

definition dunet :: "error option \<Rightarrow> unet" where
  "dunet nobc = \<lparr>un_dial = dproxyDial, un_relay = drelay, un_listen = (\<lambda>n a. (None, Some (EErrno ECONNREFUSED))),
     un_lookup = (\<lambda>h. Inl (EDNS errNoSuchHost h None False True)), un_nobc = nobc\<rparr>"

lemma dunet_sel [simp]: "un_dial (dunet nobc) = dproxyDial" "un_relay (dunet nobc) = drelay" "un_nobc (dunet nobc) = nobc"
  by (simp_all add: dunet_def)

lemma drelay_controlled: "controlled drelay"
  unfolding controlled_def
proof (intro allI impI)
  fix ctl n a s assume r: "drelay ctl n a = (Some s, None)"
  then obtain ap where "ctl a = None" "ParseAddrPort a = Some ap" "s = dsock\<lparr>rs_peer := Some ap\<rparr>"
    by (auto simp: drelay_def split: option.splits)
  then show "\<exists>t ap. ctl t = None \<and> ParseAddrPort t = Some ap \<and> rs_peer s = Some ap" by (intro exI [of _ a] exI [of _ ap]) simp
qed

text \<open>A dialer with a \<open>RelayListen\<close> and one without, and a proxy that names its relay 1.2.3.4:80.\<close>

definition dudialer :: "relayfn option \<Rightarrow> dialer" where
  "dudialer l = (ddialer dproxyDial)\<lparr>d_RelayListen := l\<rparr>"

definition dlisten :: relayfn where "dlisten n a = (Some dsock, None)"

lemma dudialer_sel [simp]:
  "d_Config (dudialer l) = Some (zeroConfig, 0, 0)" "d_ProxyDial (dudialer l) = Some dproxyDial" "d_Resolver (dudialer l) = None"
  "dial_of nd (dudialer l) = dproxyDial" "d_RelayDial (dudialer l) = None" "d_RelayUseProxyHost (dudialer l) = False"
  "d_AssociateLocalPort (dudialer l) = False" "d_RelayListen (dudialer l) = l"
  by (simp_all add: dudialer_def ddialer_def dial_of_def)

lemma demo_host: "proxyHost_of (dudialer l) = \<lparr>ph_name = ''p'', ph_ip = NoIP, ph_err = None\<rparr>"
  by (simp add: proxyHost_of_def dudialer_def ddialer_def SplitHostPort_def last_index_of_def host_of_def Let_def is_digit_def)

lemma demo_ip: "IP_of demoTarget = IP4 16909060" "\<not> IsName demoTarget"
  by (simp_all add: demoTarget_def ipAddr_def AddrFrom4_def word_of_be_def IsName_def)

lemma demo_checkRelay: "checkRelay (IP4 16909060) (IP4 0) = None"
  by (simp add: checkRelay_def Let_def IsMulticast_def broadcast4_def IsUnspecified_def ip4_of_bytes_def cscope_def ip_IsValid_def IsLoopback_def)

lemma demo_relayAddr: "relayAddr (dunet nobc) (dudialer l) (IP4 0) demoTarget = (Inr demoTarget, IP4 0)"
  by (simp add: relayAddr_def Let_def demo_host substitute_def demo_ip demo_checkRelay ip_IsValid_def IsUnspecified_def)

lemma demo_text: "ParseAddrPort (addr_String demoTarget) = Some (AddrPortFrom (IP4 16909060) 80)"
proof -
  have "addr_String demoTarget = ap_String (AddrPortFrom (IP4 16909060) 80)"
    using demo_ip by (simp add: addr_String_def IsName_def ip_IsValid_def demoTarget_def ipAddr_def)
  then show ?thesis using ParseAddrPort_String [of "AddrPortFrom (IP4 16909060) 80"] by (simp add: ap_IsValid_def AddrPortFrom_def ip_IsValid_def)
qed

text \<open>The control conn of both.\<close>

lemma demo_control:
  "\<exists>c c3 n. dnewConn dctx (Some (dudialer l)) opAssociate ''udp'' CmdUDPAssociate unknownDST None (kdial0\<lparr>k_doneAfterRelay := True\<rparr>) = (c, Inr unknownDST)
     \<and> dconnect dctx dproxyDial (dudialer l) c = Some (c3, Some (dproxy\<lparr>pn_net := n, pn_dl := DLNone\<rparr>), None) \<and> h_bound (k_h c3) = demoTarget"
proof -
  let ?d = "dudialer l" and ?c0 = "kdial0\<lparr>k_doneAfterRelay := True\<rparr>"
  have z: "k_h ?c0 = zero_hs" using kdial0_sel by simp
  have ap: "snd (AppendRequest b CmdUDPAssociate unknownDST) = None" for b
    by (simp add: AppendRequest_def appendAddrMessage_def Let_def unknownDST_def caddrPort_def AddrFromAddrPort_def AddrPortFrom_def ap_IsValid_def split: prod.splits)
  obtain h0 h where h: "hs_init zeroConfig CmdUDPAssociate (zero_hs\<lparr>h_target := unknownDST\<rparr>) = Inr h0" "setTarget unknownDST h0 = Inr h"
    "h_version h = 5" "h_pipe h = None" "h_cmd h = CmdUDPAssociate" "h_offered h = MethodNoAuth"
    using demo_handshake [of CmdUDPAssociate unknownDST unknownDST] ap by blast
  obtain c where n: "dnewConn dctx (Some ?d) opAssociate ''udp'' CmdUDPAssociate unknownDST None ?c0 = (c, Inr unknownDST)"
    using h by (auto simp: dnewConn_def Let_def kinit_def kdial0_def kconn0_def configOf_def split: prod.splits)
  obtain h0' h' where h': "hs_init zeroConfig CmdUDPAssociate (zero_hs\<lparr>h_target := unknownDST\<rparr>) = Inr h0'" "setTarget unknownDST h0' = Inr h'"
      "k_h c = h'\<lparr>h_target := unknownDST\<rparr>"
    using dnewConn_ok [OF n _ z, of zeroConfig 0 0] by auto
  have kh: "k_h c = h\<lparr>h_target := unknownDST\<rparr>" using h' h by simp
  note rd = dnewConn_ready [OF n z, of zeroConfig 0 0, simplified]
  have md: "hs_ready (h\<lparr>h_target := unknownDST\<rparr>)" "h_mode h = ModePipelined" using rd kh by (simp_all add: mode_defs zeroConfig_def)
  obtain hh n' where run: "hs_run (h\<lparr>h_target := unknownDST\<rparr>) (pn_net dproxy) = Some (hh, n', None)" and bound: "h_bound hh = demoTarget"
    using pipelined_run_spec [of "h\<lparr>h_target := unknownDST\<rparr>" "pn_net dproxy"] md dreplies [of h] h(3-6)
    by (auto simp: dproxy_def mode_defs simp del: hs.update_convs append.simps)
  obtain c2 where pr: "dialProxy dctx dproxyDial ?d c = (c2, Inr dproxy)" "k_h c2 = k_h c"
    by (simp add: dialProxy_def dproxyDial_def dialErr_def dctx_def ksay_def)
  have "snd (dialTimeout dctx ?d c) = 0" by (simp add: dialTimeout_def split: option.splits)
  moreover have "\<not> early c2" using pr kh md by (simp add: early_def mode_defs)
  moreover obtain c3 where "handshakeOver (cx_later dctx) True None None (map_option ESent (cx_inHandshake dctx)) (c2\<lparr>k_h := hh\<rparr>) = (c3, None)"
      and c3: "k_h c3 = hh"
    by (auto simp: handshakeOver_def dctx_def blame_def Let_def)
  ultimately have "dconnect dctx dproxyDial ?d c = Some (c3, Some (dproxy\<lparr>pn_net := n', pn_dl := DLNone\<rparr>), None)"
    using pr run kh by (simp add: dconnect_def Let_def)
  then show ?thesis using n bound c3 by (intro exI [of _ c] exI [of _ c3] exI [of _ n']) simp
qed

lemma demo_associate:
  assumes "\<And>c p. h_bound (k_h c) = demoTarget \<Longrightarrow> pn_peer p = IP4 0 \<Longrightarrow>
      \<exists>c1 e. openRelay dctx u (dudialer l) p None c = (c1, (if ok then p else pn_close p), r, None, e) \<and> (e = None) = ok"
    and "un_dial u = dproxyDial"
  shows "\<exists>p bound e. ListenUDP dctx u (Some (dudialer l)) ''udp'' '''' =
     Some (if ok then Inr \<lparr>ua_control = p, ua_rel = r, ua_target = zeroAddr, ua_bound = bound, ua_network = ''udp''\<rparr> else Inl e, Some p, None, Some r)"
proof -
  obtain c c3 n where c: "dnewConn dctx (Some (dudialer l)) opAssociate ''udp'' CmdUDPAssociate unknownDST None (kdial0\<lparr>k_doneAfterRelay := True\<rparr>)
      = (c, Inr unknownDST)"
    "dconnect dctx dproxyDial (dudialer l) c = Some (c3, Some (dproxy\<lparr>pn_net := n, pn_dl := DLNone\<rparr>), None)" "h_bound (k_h c3) = demoTarget"
    using demo_control [of l] by blast
  let ?p = "dproxy\<lparr>pn_net := n, pn_dl := DLNone\<rparr>"
  have "pn_peer ?p = IP4 0" by (simp add: dproxy_def)
  then obtain c1 e where "openRelay dctx u (dudialer l) ?p None c3 = (c1, (if ok then ?p else pn_close ?p), r, None, e)" "(e = None) = ok"
    using assms(1) [OF c(3)] by blast
  then show ?thesis
    using c(1,2) assms(2)
    by (cases e) (auto simp: ListenUDP_def associate_def associateDST_def parseDST_def setRequestDST_def zeroAddr_def addr_IsValid_def
        simp del: append.simps pconn.simps)
qed

text \<open>The association over the caller's \<open>RelayListen\<close>, over the default relay dial, and one whose relay socket cannot be set up.\<close>

lemma dassoc_listen:
  "\<exists>a p pre. ListenUDP dctx (dunet None) (Some (dudialer (Some dlisten))) ''udp'' '''' = Some (Inr a, p, pre, Some (ua_rel a)) \<and> ur_pc (ua_rel a) \<noteq> None
     \<and> ur_relay (ua_rel a) = None"
proof -
  let ?r = "\<lparr>ur_relay = None, ur_pc = Some dsock, ur_relayAP = AddrPortFrom (IP4 16909060) (Port_of demoTarget)\<rparr>"
  have "\<exists>c1 e. openRelay dctx (dunet None) (dudialer (Some dlisten)) p None c = (c1, if True then p else pn_close p, ?r, None, e) \<and> (e = None) = True"
    if "h_bound (k_h c) = demoTarget" "pn_peer p = IP4 0" for c p
    using that demo_relayAddr
    by (simp add: openRelay_def urelay_open_def Let_def ksay_def listenRelay_def dlisten_def dialErr_def demo_ip)
  then show ?thesis
    using demo_associate [of "dunet None" "Some dlisten" True ?r] by fastforce
qed

lemma dassoc_dial:
  "\<exists>a p pre s. ListenUDP dctx (dunet None) (Some (dudialer None)) ''udp'' '''' = Some (Inr a, p, pre, Some (ua_rel a)) \<and> ur_relay (ua_rel a) = Some s
     \<and> rs_peer s = Some (AddrPortFrom (IP4 16909060) 80)"
proof -
  let ?r = "\<lparr>ur_relay = Some (dsock\<lparr>rs_peer := Some (AddrPortFrom (IP4 16909060) 80)\<rparr>), ur_pc = None, ur_relayAP = zeroAddrPort\<rparr>"
  have "relayControl (IP4 0) None (addr_String demoTarget) = None"
    using demo_text demo_checkRelay by (simp add: relayControl_def AddrPortFrom_def)
  then have "\<exists>c1 e. openRelay dctx (dunet None) (dudialer None) p None c = (c1, if True then p else pn_close p, ?r, None, e) \<and> (e = None) = True"
    if "h_bound (k_h c) = demoTarget" "pn_peer p = IP4 0" for c p
    using that demo_relayAddr demo_text
    by (simp add: openRelay_def urelay_open_def Let_def ksay_def dialRelay_def drelay_def dialErr_def demo_ip)
  then show ?thesis
    using demo_associate [of "dunet None" None True ?r] by fastforce
qed

lemma dassoc_fails:
  "\<exists>e p rel. ListenUDP dctx (dunet (Some (EErrno EACCES))) (Some (dudialer None)) ''udp'' '''' = Some (Inl e, Some p, None, Some rel)"
proof -
  let ?r = "\<lparr>ur_relay = None, ur_pc = None, ur_relayAP = zeroAddrPort\<rparr>" and ?u = "dunet (Some (EErrno EACCES))"
  have "relayControl (IP4 0) (Some (EErrno EACCES)) (addr_String demoTarget) = Some (EErrno EACCES)"
    using demo_text demo_checkRelay by (simp add: relayControl_def AddrPortFrom_def)
  then have "\<exists>c1 e. openRelay dctx ?u (dudialer None) p None c = (c1, if False then p else pn_close p, ?r, None, e) \<and> (e = None) = False"
    if "h_bound (k_h c) = demoTarget" "pn_peer p = IP4 0" for c p
    using that demo_relayAddr
    by (simp add: openRelay_def urelay_open_def Let_def ksay_def dialRelay_def drelay_def dialErr_def demo_ip)
  then show ?thesis
    using demo_associate [of ?u None False ?r] by fastforce
qed

lemma dunet_opens: "opens (dial_of (un_dial (dunet nobc)) (dudialer l))" "l = None \<or> l = Some dlisten \<Longrightarrow> relay_fns_open (dunet nobc) (dudialer l)"
  using dproxy_opens
  by (auto simp: relay_fns_open_def sopens_def drelay_def dlisten_def dsock_def dunet_def split: option.splits)

text \<open>The sockets are open after the first two, and the control conn is closed after the third.\<close>

lemma association_leaks_nothing_witness:
  "(\<exists>a rest. ListenUDP dctx (dunet None) (Some (dudialer (Some dlisten))) ''udp'' '''' = Some (Inr a, rest) \<and> \<not> pn_closed (ua_control a)
      \<and> open_some (ur_pc (ua_rel a)))
   \<and> (\<exists>e p rest. ListenUDP dctx (dunet (Some (EErrno EACCES))) (Some (dudialer None)) ''udp'' '''' = Some (Inl e, Some p, rest) \<and> pn_closed p)"
proof -
  obtain a p pre where a: "ListenUDP dctx (dunet None) (Some (dudialer (Some dlisten))) ''udp'' '''' = Some (Inr a, p, pre, Some (ua_rel a))"
    "ur_relay (ua_rel a) = None"
    using dassoc_listen by blast
  obtain e q rel where f: "ListenUDP dctx (dunet (Some (EErrno EACCES))) (Some (dudialer None)) ''udp'' '''' = Some (Inl e, Some q, None, Some rel)"
    using dassoc_fails by blast
  show ?thesis
    using association_leaks_nothing [OF dunet_opens(1) dunet_opens(2) [OF disjI2 [OF refl]], of dctx None "''udp''" zeroAddr None "''''"]
      association_leaks_nothing [OF dunet_opens(1) dunet_opens(2) [OF disjI1 [OF refl]], of dctx "Some (EErrno EACCES)" "''udp''" zeroAddr None "''''"] a f
    by (auto simp: ListenUDP_def)
qed

lemma relay_is_vetted_witness:
  "(\<exists>a rest. ListenUDP dctx (dunet None) (Some (dudialer (Some dlisten))) ''udp'' '''' = Some (Inr a, rest) \<and> ur_pc (ua_rel a) \<noteq> None
      \<and> checkRelay (ap_addr (ur_relayAP (ua_rel a))) (proxy_ip (dudialer (Some dlisten)) (ua_control a)) = None)
   \<and> (\<exists>a rest s ap. ListenUDP dctx (dunet None) (Some (dudialer None)) ''udp'' '''' = Some (Inr a, rest) \<and> ur_relay (ua_rel a) = Some s
      \<and> rs_peer s = Some ap \<and> ap_addr ap = IP4 16909060 \<and> checkRelay (ap_addr ap) (proxy_ip (dudialer None) (ua_control a)) = None)"
proof -
  have c: "controlled (un_relay (dunet None))" using drelay_controlled by simp
  have l: "associate dctx (dunet None) (Some (dudialer l)) ''udp'' zeroAddr None '''' = Some (Inr a, rest)"
    if "ListenUDP dctx (dunet None) (Some (dudialer l)) ''udp'' '''' = Some (Inr a, rest)" for l a rest
    using that by (simp add: ListenUDP_def)
  obtain a rest where a: "ListenUDP dctx (dunet None) (Some (dudialer (Some dlisten))) ''udp'' '''' = Some (Inr a, rest)" "ur_pc (ua_rel a) \<noteq> None"
    using dassoc_listen by blast
  obtain b rest' s where b: "ListenUDP dctx (dunet None) (Some (dudialer None)) ''udp'' '''' = Some (Inr b, rest')" "ur_relay (ua_rel b) = Some s"
    "rs_peer s = Some (AddrPortFrom (IP4 16909060) 80)"
    using dassoc_dial by blast
  have "checkRelay (IP4 16909060) (proxy_ip (dudialer None) (ua_control b)) = None"
    using relay_is_vetted [OF l [OF b(1)] c] b(2,3) by (simp add: AddrPortFrom_def)
  then show ?thesis
    using relay_is_vetted [OF l [OF a(1)] c] a b
    by (intro conjI exI [of _ a] exI [of _ rest] exI [of _ b] exI [of _ rest'] exI [of _ s] exI [of _ "AddrPortFrom (IP4 16909060) 80"])
      (auto simp: AddrPortFrom_def)
qed

section \<open>What the policy keeps away\<close>

lemma cscope_le: "cscope x \<le> 3" by (simp add: cscope_def)

text \<open>C32: With a proxy outside the internal networks, the policy allows exactly the proxy itself and the relays outside them (also
  those written as IPv4-mapped IPv6 or with a zone): private, shared (100.64.0.0/10), loopback, link-local, multicast, broadcast
  and unspecified addresses are refused.\<close>

theorem relay_policy:
  assumes "\<not> internal (WithZone (Unmap proxy) [])"
  shows "checkRelay relay proxy = None \<longleftrightarrow> WithZone (Unmap relay) [] = WithZone (Unmap proxy) [] \<or> \<not> internal (WithZone (Unmap relay) [])"
proof -
  let ?r = "WithZone (Unmap relay) []" and ?p = "WithZone (Unmap proxy) []"
  have "cscope ?p = 3" using assms internal_iff [of ?p] cscope_le [of ?p] by auto
  then show ?thesis
    using internal_iff [of ?r] by (auto simp: checkRelay_def Let_def)
qed

lemma relay_policy_witness:
  "checkRelay (IP4 (ip4_of_bytes 192 168 0 1)) (IP4 (ip4_of_bytes 8 8 8 8)) \<noteq> None"
  using relay_policy [of "IP4 (ip4_of_bytes 8 8 8 8)" "IP4 (ip4_of_bytes 192 168 0 1)"]
  by (simp add: internal_def in_ranges_def internal4_def quad_def ip4_of_bytes_def unat_of_nat)

end
