(* ===== verification/ClientUDPProps.thy ===== *)
theory ClientUDPProps
  imports ClientUDP ServerUDPProps ClientRelayProps
begin

text \<open>
  What an association on the client guarantees: which datagrams a read delivers and what a write sends, against the server's frames;
  how it ends, whatever the watcher, \<open>Close\<close> and the calls in flight do.
\<close>

section \<open>The end: invariant\<close>

definition call_inv :: "ulife \<Rightarrow> upc \<Rightarrow> bool" where
  "call_inv u p =
     (case p of
        UClosing \<Rightarrow> ul_closed u
      | UErrSet \<Rightarrow> ul_closed u \<and> ul_err u \<noteq> None \<and> \<not> ul_dead u
      | UReadUnblocked \<Rightarrow> ul_closed u \<and> ul_err u \<noteq> None \<and> \<not> ul_dead u
      | UControl \<Rightarrow> ul_closed u \<and> ul_control u
      | UWaiting \<Rightarrow> ul_closed u \<and> ul_control u \<and> ul_once u
      | UClosedRet r \<Rightarrow> ul_closed u \<and> (r = None \<longrightarrow> ul_err u \<noteq> None \<and> (ul_dead u \<or> ul_control u \<and> ul_once u))
      | UFailed e \<Rightarrow> \<not> IsS e ErrAssociationClosed \<and> \<not> ul_dead u
      | UAwait e \<Rightarrow> \<not> IsS e ErrAssociationClosed \<and> \<not> ul_dead u
      | UAwaited e \<Rightarrow> \<not> IsS e ErrAssociationClosed \<and> \<not> ul_dead u
      | UEnded e x \<Rightarrow> \<not> IsS e ErrAssociationClosed \<and> \<not> ul_dead u \<and> (x \<noteq> None \<longrightarrow> x = ul_err u)
      | UErr e \<Rightarrow> IsS e ErrAssociationClosed \<longrightarrow> ul_over u
      | UInIO \<Rightarrow> \<not> ul_dead u
      | UIdle \<Rightarrow> True)"

definition why_inv :: "ulife \<Rightarrow> bool" where
  "why_inv u =
     (case ul_err u of
        None \<Rightarrow> \<not> ul_dead u
      | Some e \<Rightarrow> if ul_dead u then e = errNoUDPConn else e = ESent NetErrClosed \<and> ul_closed u \<or> (\<exists>x. e = closedByProxy x) \<and> ul_over u)"

definition watch_inv :: "ulife \<Rightarrow> bool" where
  "watch_inv u =
     (case ul_watch u of
        WRead \<Rightarrow> \<not> ul_dead u \<and> \<not> ul_done u
      | WGot e \<Rightarrow> \<not> ul_dead u \<and> \<not> ul_done u \<and> (ul_over u \<or> ul_err u \<noteq> None)
      | WSet \<Rightarrow> \<not> ul_dead u \<and> \<not> ul_done u \<and> ul_err u \<noteq> None
      | WClosed \<Rightarrow> \<not> ul_dead u \<and> \<not> ul_done u \<and> ul_err u \<noteq> None \<and> ul_once u
      | WExit \<Rightarrow> ul_done u \<and> ul_err u \<noteq> None \<and> (ul_dead u \<or> ul_once u))"

definition ul_inv :: "ulife \<Rightarrow> bool" where
  "ul_inv u \<longleftrightarrow>
     ul_relayCloses u = (if ul_once u then 1 else 0) \<and> why_inv u \<and> watch_inv u
   \<and> (ul_readDeadline u \<or> ul_control u \<longrightarrow> ul_err u \<noteq> None \<and> ul_closed u)
   \<and> (ul_dead u \<longrightarrow> \<not> ul_once u \<and> \<not> ul_control u)
   \<and> (\<forall>i. call_inv u (ul_calls u i))"

text \<open>What only grows.\<close>

definition ul_le :: "ulife \<Rightarrow> ulife \<Rightarrow> bool" where
  "ul_le u v \<longleftrightarrow>
     ul_dead v = ul_dead u \<and> (ul_err u \<noteq> None \<longrightarrow> ul_err v = ul_err u) \<and> (ul_closed u \<longrightarrow> ul_closed v) \<and> (ul_done u \<longrightarrow> ul_done v)
   \<and> (ul_control u \<longrightarrow> ul_control v) \<and> (ul_once u \<longrightarrow> ul_once v) \<and> (ul_over u \<longrightarrow> ul_over v) \<and> (ul_readDeadline u \<longrightarrow> ul_readDeadline v)"

lemma call_inv_le: "ul_le u v \<Longrightarrow> call_inv u p \<Longrightarrow> call_inv v p"
  by (cases p) (auto simp: call_inv_def ul_le_def)

lemma ul_sel [simp]:
  "ul_dead (ucall i p u) = ul_dead u" "ul_err (ucall i p u) = ul_err u" "ul_closed (ucall i p u) = ul_closed u"
  "ul_done (ucall i p u) = ul_done u" "ul_readDeadline (ucall i p u) = ul_readDeadline u" "ul_control (ucall i p u) = ul_control u"
  "ul_relayCloses (ucall i p u) = ul_relayCloses u" "ul_once (ucall i p u) = ul_once u" "ul_over (ucall i p u) = ul_over u"
  "ul_watch (ucall i p u) = ul_watch u" "ul_calls (ucall i p u) = (ul_calls u)(i := p)"
  "ul_dead (set_err e u) = ul_dead u" "ul_err (set_err e u) = (if ul_err u = None then Some e else ul_err u)" "ul_closed (set_err e u) = ul_closed u"
  "ul_done (set_err e u) = ul_done u" "ul_readDeadline (set_err e u) = ul_readDeadline u" "ul_control (set_err e u) = ul_control u"
  "ul_relayCloses (set_err e u) = ul_relayCloses u" "ul_once (set_err e u) = ul_once u" "ul_over (set_err e u) = ul_over u"
  "ul_watch (set_err e u) = ul_watch u" "ul_calls (set_err e u) = ul_calls u"
  "ul_dead (closeRelay u) = ul_dead u" "ul_err (closeRelay u) = ul_err u" "ul_closed (closeRelay u) = ul_closed u"
  "ul_done (closeRelay u) = ul_done u" "ul_readDeadline (closeRelay u) = ul_readDeadline u" "ul_control (closeRelay u) = ul_control u"
  "ul_relayCloses (closeRelay u) = (if ul_once u then ul_relayCloses u else ul_relayCloses u + 1)" "ul_once (closeRelay u) = True"
  "ul_over (closeRelay u) = ul_over u" "ul_watch (closeRelay u) = ul_watch u" "ul_calls (closeRelay u) = ul_calls u"
  by (auto simp: ucall_def set_err_def closeRelay_def)

lemma closedByProxy_Is: "IsS (closedByProxy e) ErrAssociationClosed"
  by (simp add: closedByProxy_def err_Is_def)

lemma uioErr_Is:
  assumes "\<not> IsS e ErrAssociationClosed"
  shows "IsS (uioErr s op a e x c) ErrAssociationClosed \<longleftrightarrow> \<not> c \<and> (\<exists>y. x = Some y \<and> IsS y ErrAssociationClosed)"
    and "IsS (uioErr s op a e x True) NetErrClosed"
  using assms by (cases e; auto simp: uioErr_def unewErr_def split: option.splits)+

lemma why_Is: "why_inv u \<Longrightarrow> ul_err u = Some e \<Longrightarrow> IsS e ErrAssociationClosed \<Longrightarrow> ul_over u"
  by (auto simp: why_inv_def errNoUDPConn_def split: if_splits)

lemma ul_le_refl: "ul_le u u" by (simp add: ul_le_def)

lemma ul_le_trans: "ul_le u v \<Longrightarrow> ul_le v w \<Longrightarrow> ul_le u w"
  unfolding ul_le_def by (metis (no_types, lifting))

text \<open>A step of goroutine \<open>i\<close> leaves the others where they are.\<close>

lemma calls_step:
  assumes "ul_le u v" and "\<forall>j. call_inv u (ul_calls u j)" and "ul_calls v = (ul_calls u)(i := p)" and "call_inv v p"
  shows "\<forall>j. call_inv v (ul_calls v j)"
  using assms call_inv_le by simp

lemma wstep_le: "wstep u v \<Longrightarrow> ul_inv u \<Longrightarrow> ul_le u v"
  by (erule wstep.cases) (auto simp: ul_le_def)

lemma ul_invI:
  assumes "ul_le u v" and "ul_inv u" and "ul_calls v = (ul_calls u)(i := p)" and "call_inv v p"
    and "ul_relayCloses v = (if ul_once v then 1 else 0)" and "why_inv v" and "watch_inv v"
    and "ul_readDeadline v \<or> ul_control v \<longrightarrow> ul_err v \<noteq> None \<and> ul_closed v" and "ul_dead v \<longrightarrow> \<not> ul_once v \<and> \<not> ul_control v"
  shows "ul_inv v"
  using assms call_inv_le [OF assms(1)] unfolding ul_inv_def by simp

lemma ul_invI_same:
  assumes "ul_le u v" and "ul_inv u" and "ul_calls v = ul_calls u"
    and "ul_relayCloses v = (if ul_once v then 1 else 0)" and "why_inv v" and "watch_inv v"
    and "ul_readDeadline v \<or> ul_control v \<longrightarrow> ul_err v \<noteq> None \<and> ul_closed v" and "ul_dead v \<longrightarrow> \<not> ul_once v \<and> \<not> ul_control v"
  shows "ul_inv v"
  using assms call_inv_le [OF assms(1)] unfolding ul_inv_def by simp

lemma ul_invD:
  assumes "ul_inv u"
  shows "ul_relayCloses u = (if ul_once u then 1 else 0)" "why_inv u" "watch_inv u"
    "ul_readDeadline u \<or> ul_control u \<Longrightarrow> ul_err u \<noteq> None \<and> ul_closed u" "ul_dead u \<Longrightarrow> \<not> ul_once u \<and> \<not> ul_control u"
    "call_inv u (ul_calls u i)"
  using assms unfolding ul_inv_def by blast+

lemma wstep_inv:
  assumes "wstep u v" and "ul_inv u"
  shows "ul_inv v"
  using assms(1)
proof cases
  case (w_read e)
  then show ?thesis
    using ul_invD(1-5) [OF assms(2)] by (intro ul_invI_same [OF wstep_le [OF assms] assms(2)]) (auto simp: why_inv_def watch_inv_def split: option.splits)
next
  case (w_err e)
  then show ?thesis
    using ul_invD(1-5) [OF assms(2)]
    by (intro ul_invI_same [OF wstep_le [OF assms] assms(2)]) (auto simp: why_inv_def watch_inv_def split: option.splits)
next
  case w_relay
  then show ?thesis
    using ul_invD(1-5) [OF assms(2)]
    by (intro ul_invI_same [OF wstep_le [OF assms] assms(2)]) (auto simp: why_inv_def watch_inv_def split: option.splits)
next
  case w_done
  then show ?thesis
    using ul_invD(1-5) [OF assms(2)]
    by (intro ul_invI_same [OF wstep_le [OF assms] assms(2)]) (auto simp: why_inv_def watch_inv_def split: option.splits)
qed

lemma cstep_le: "cstep s i u v \<Longrightarrow> ul_inv u \<Longrightarrow> ul_le u v"
  by (erule cstep.cases) (auto simp: ul_le_def close_swap_def close_err_def)

lemma cstep_inv:
  assumes "cstep s i u v" and "ul_inv u"
  shows "ul_inv v"
proof -
  note le = cstep_le [OF assms] and d = ul_invD(1-5) [OF assms(2)] ul_invD(6) [OF assms(2), of i]
  show ?thesis
    using assms(1)
  proof cases
    case c_swap
    then show ?thesis
      using d by (intro ul_invI [OF le assms(2), of i "ul_calls v i"]) (auto simp: why_inv_def watch_inv_def call_inv_def close_swap_def split: option.splits wpc.splits)
  next
    case c_err
    then show ?thesis
      using d by (intro ul_invI [OF le assms(2), of i "ul_calls v i"]) (auto simp: why_inv_def watch_inv_def call_inv_def close_err_def split: option.splits wpc.splits)
  next
    case c_unblock
    then show ?thesis
      using d by (intro ul_invI [OF le assms(2), of i UReadUnblocked]) (auto simp: why_inv_def watch_inv_def call_inv_def split: option.splits wpc.splits)
  next
    case c_control
    then show ?thesis
      using d by (intro ul_invI [OF le assms(2), of i UControl]) (auto simp: why_inv_def watch_inv_def call_inv_def split: option.splits wpc.splits)
  next
    case c_relay
    then show ?thesis
      using d by (intro ul_invI [OF le assms(2), of i UWaiting]) (auto simp: why_inv_def watch_inv_def call_inv_def split: option.splits wpc.splits)
  next
    case (c_wait timer)
    then show ?thesis
      using d by (intro ul_invI [OF le assms(2), of i "UClosedRet None"]) (auto simp: why_inv_def watch_inv_def call_inv_def split: option.splits wpc.splits)
  qed
qed

lemma iostep_le: "iostep s i u v \<Longrightarrow> ul_inv u \<Longrightarrow> ul_le u v"
  by (erule iostep.cases) (auto simp: ul_le_def)

text \<open>A step of a call alone.\<close>

lemma ucall_inv: "ul_inv u \<Longrightarrow> call_inv u p \<Longrightarrow> ul_inv (ucall i p u)"
proof -
  assume u: "ul_inv u" and p: "call_inv u p"
  have le: "ul_le u (ucall i p u)" by (simp add: ul_le_def)
  have "why_inv (ucall i p u) = why_inv u" "watch_inv (ucall i p u) = watch_inv u"
    unfolding why_inv_def watch_inv_def ul_sel by (rule refl)+
  then show ?thesis
    using ul_invD(1-5) [OF u] call_inv_le [OF le p] by (intro ul_invI [OF le u, of i p]) auto
qed

lemma iostep_call: "iostep s i u v \<Longrightarrow> \<exists>p. v = ucall i p u"
  by (erule iostep.cases) auto

lemma iostep_inv:
  assumes "iostep s i u v" and "ul_inv u"
  shows "ul_inv v"
proof -
  note c = ul_invD(6) [OF assms(2), of i] and w = ul_invD(2) [OF assms(2)]
  show ?thesis
    using assms(1)
  proof cases
    case (i_result e x op a)
    then have "IsS (uioErr s op a e x (ul_closed u)) ErrAssociationClosed \<longrightarrow> ul_over u"
      using c uioErr_Is(1) [of e s op a x] why_Is [OF w] by (fastforce simp: call_inv_def)
    then show ?thesis using i_result assms(2) by (auto intro!: ucall_inv simp: call_inv_def)
  qed (use c assms(2) in \<open>auto intro!: ucall_inv simp: call_inv_def split: if_splits\<close>)
qed

lemma over_inv:
  assumes "ul_inv u"
  shows "ul_inv (u\<lparr>ul_over := True\<rparr>)"
proof -
  have le: "ul_le u (u\<lparr>ul_over := True\<rparr>)" by (simp add: ul_le_def)
  have "why_inv (u\<lparr>ul_over := True\<rparr>)" using ul_invD(2) [OF assms] by (auto simp: why_inv_def split: option.splits)
  moreover have "watch_inv (u\<lparr>ul_over := True\<rparr>)" using ul_invD(3) [OF assms] by (auto simp: watch_inv_def split: wpc.splits)
  ultimately show ?thesis using ul_invD(1,4,5) [OF assms] by (intro ul_invI_same [OF le assms]) auto
qed

lemma astep_inv: "ul_inv u \<Longrightarrow> astep s u v \<Longrightarrow> ul_inv v"
  by (erule astep.cases) (auto intro: wstep_inv cstep_inv iostep_inv over_inv ucall_inv simp: call_inv_def)

lemma astep_le: "ul_inv u \<Longrightarrow> astep s u v \<Longrightarrow> ul_le u v"
  by (erule astep.cases) (auto dest: wstep_le cstep_le iostep_le simp: ul_le_def)

interpretation udp_end: kept_from "astep s" ul_inv ul_le "\<lambda>u. \<exists>dead. u = ulife0 dead"
proof unfold_locales
  show "\<exists>dead. u = ulife0 dead \<Longrightarrow> ul_inv u" for u
    by (auto simp: ul_inv_def ulife0_def why_inv_def watch_inv_def call_inv_def)
qed (blast intro: astep_inv astep_le ul_le_refl ul_le_trans)+

text \<open>C38: However the watcher, \<open>Close\<close>, reads and writes interleave: the relay socket is closed at most once, and is closed when \<open>done\<close>
  is; a \<open>Close\<close> that returned nil has closed both conns (or there were none) and left \<open>Err\<close> set; and \<open>Err\<close>, once set, never changes.\<close>

theorem association_ends_once:
  assumes "(astep s)\<^sup>*\<^sup>* (ulife0 dead) u"
  shows "ul_relayCloses u \<le> 1 \<and> (ul_done u \<longrightarrow> ul_err u \<noteq> None \<and> (dead \<or> ul_relayCloses u = 1))
    \<and> (\<forall>i. ul_calls u i = UClosedRet None \<longrightarrow> ul_err u \<noteq> None \<and> (dead \<or> ul_control u \<and> ul_relayCloses u = 1))
    \<and> (\<forall>e v. ul_err u = Some e \<longrightarrow> (astep s)\<^sup>*\<^sup>* u v \<longrightarrow> ul_err v = Some e)"
proof -
  have inv: "ul_inv u" by (rule udp_end.inv_from [OF _ assms]) blast
  note d = ul_invD [OF inv]
  have dead: "ul_dead u = dead" using udp_end.stays_from [OF _ rtranclp.rtrancl_refl assms] by (auto simp: ul_le_def ulife0_def)
  have "ul_relayCloses u \<le> 1" using d(1) by simp
  moreover have "ul_err u \<noteq> None \<and> (dead \<or> ul_relayCloses u = 1)" if "ul_done u"
    using d(1,3) dead that by (auto simp: watch_inv_def split: wpc.splits)
  moreover have "ul_err u \<noteq> None \<and> (dead \<or> ul_control u \<and> ul_relayCloses u = 1)" if "ul_calls u i = UClosedRet None" for i
    using d(1) d(6) [of i] that dead by (auto simp: call_inv_def)
  moreover have "ul_err v = Some e" if "ul_err u = Some e" "(astep s)\<^sup>*\<^sup>* u v" for e v
    using udp_end.stays_reach [OF that(2) inv] that(1) by (simp add: ul_le_def)
  ultimately show ?thesis by blast
qed

text \<open>What a call of goroutine \<open>i\<close> that had not failed in state \<open>u\<close> knows of \<open>u\<close> later.\<close>

definition call_after :: "ulife \<Rightarrow> ulife \<Rightarrow> upc \<Rightarrow> bool" where
  "call_after u v p =
     (case p of
        UEnded e x \<Rightarrow> ul_err u \<noteq> None \<longrightarrow> x = ul_err u
      | UErr e \<Rightarrow> (ul_closed u \<longrightarrow> IsS e NetErrClosed \<and> \<not> IsS e ErrAssociationClosed) \<and> (ul_err u \<noteq> None \<and> \<not> ul_closed v \<longrightarrow> IsS e ErrAssociationClosed)
      | _ \<Rightarrow> True)"

definition after_inv :: "ulife \<Rightarrow> nat \<Rightarrow> ulife \<Rightarrow> bool" where
  "after_inv u i v \<longleftrightarrow> ul_inv v \<and> ul_le u v \<and> \<not> ul_dead u \<and> call_after u v (ul_calls v i)"

lemma call_after_le: "ul_le v w \<Longrightarrow> call_after u v p \<Longrightarrow> call_after u w p"
  by (cases p) (auto simp: call_after_def ul_le_def)

lemma call_after_none: "\<forall>e x. p \<noteq> UEnded e x \<Longrightarrow> \<forall>e. p \<noteq> UErr e \<Longrightarrow> call_after u v p"
  by (cases p) (simp_all add: call_after_def)

lemma after_ul: "after_inv u i v \<Longrightarrow> ul_inv v"
  by (simp add: after_inv_def)

lemma astep_call:
  assumes "astep s v w" and "ul_inv v"
  shows "ul_calls w i = ul_calls v i \<or> (\<forall>e x. ul_calls w i \<noteq> UEnded e x) \<and> (\<forall>e. ul_calls w i \<noteq> UErr e)
    \<or> (\<exists>e. ul_calls w i = UEnded e (ul_err v) \<and> ul_err w = ul_err v)
    \<or> (\<exists>e x op a. ul_calls v i = UEnded e x \<and> ul_calls w i = UErr (uioErr s op a e x (ul_closed v)) \<and> ul_closed w = ul_closed v)"
  using assms(1)
proof cases
  case u_watch
  then show ?thesis by cases auto
next
  case (u_close j)
  then show ?thesis by cases (auto simp: close_swap_def close_err_def)
next
  case (u_io j)
  then show ?thesis by cases auto
qed auto

lemma after_step:
  assumes "after_inv u i v" and "astep s v w"
  shows "after_inv u i w"
proof -
  have v: "ul_inv v" "ul_le u v" "\<not> ul_dead u" "call_after u v (ul_calls v i)" using assms(1) by (simp_all add: after_inv_def)
  have le: "ul_le v w" by (rule astep_le [OF v(1) assms(2)])
  have r: "call_after u w (UErr (uioErr s op a e y (ul_closed v)))"
    if "ul_calls v i = UEnded e y" "ul_closed w = ul_closed v" for e y op a
  proof -
    have y: "ul_err u \<noteq> None \<longrightarrow> y = ul_err u" "\<not> IsS e ErrAssociationClosed"
      using that(1) v(4) ul_invD(6) [OF v(1), of i] by (simp_all add: call_after_def call_inv_def)
    have "IsS z ErrAssociationClosed" if "ul_err u = Some z" "\<not> ul_closed v" for z
      using ul_invD(2) [OF v(1)] v(2,3) that closedByProxy_Is by (auto simp: why_inv_def ul_le_def)
    then show ?thesis
      using uioErr_Is(1) [OF y(2), of s op a y "ul_closed v"] uioErr_Is(2) [OF y(2), of s op a y] y(1) that(2) v(2)
      by (cases "ul_closed v") (auto simp: call_after_def ul_le_def)
  qed
  have "call_after u w (ul_calls w i)"
    using astep_call [OF assms(2) v(1), of i]
  proof (elim disjE conjE exE)
    assume "ul_calls w i = ul_calls v i"
    then show ?thesis using call_after_le [OF le v(4)] by simp
  next
    fix e assume "ul_calls w i = UEnded e (ul_err v)"
    then show ?thesis using v(2) by (simp add: call_after_def ul_le_def)
  qed (use r call_after_none in auto)
  then show ?thesis using astep_inv [OF v(1) assms(2)] ul_le_trans [OF v(2) le] v(3) by (simp add: after_inv_def)
qed

interpretation after: kept "astep s" "after_inv u i" ul_le
proof unfold_locales
  show "after_inv u i v \<Longrightarrow> astep s v w \<Longrightarrow> after_inv u i w" for v w by (rule after_step)
  show "after_inv u i v \<Longrightarrow> astep s v w \<Longrightarrow> ul_le v w" for v w by (rule astep_le [OF after_ul])
qed (rule ul_le_refl, rule ul_le_trans)

text \<open>C37: Why an association ended, and what its reads and writes say: \<open>Err\<close> is \<open>net.ErrClosed\<close> only after a \<open>Close\<close> and matches
  \<open>ErrAssociationClosed\<close> only if the control conn ended by itself, and so does the error of a read or write; one that fails
  after \<open>Close\<close> was called matches \<open>net.ErrClosed\<close> and never \<open>ErrAssociationClosed\<close>; one that fails after the proxy ended an
  association that nobody closed matches \<open>ErrAssociationClosed\<close>.\<close>

theorem why_the_association_ended:
  assumes "(astep s)\<^sup>*\<^sup>* (ulife0 False) u" and "(astep s)\<^sup>*\<^sup>* u v" and "ul_calls v i = UErr e"
    and "\<forall>x. ul_calls u i \<noteq> UErr x" and "\<forall>x y. ul_calls u i \<noteq> UEnded x y"
  shows "(\<forall>x. ul_err v = Some x \<longrightarrow> x = ESent NetErrClosed \<and> ul_closed v \<or> IsS x ErrAssociationClosed \<and> ul_over v)
    \<and> (IsS e ErrAssociationClosed \<longrightarrow> ul_over v)
    \<and> (ul_closed u \<longrightarrow> IsS e NetErrClosed \<and> \<not> IsS e ErrAssociationClosed)
    \<and> (ul_err u \<noteq> None \<and> \<not> ul_closed v \<longrightarrow> IsS e ErrAssociationClosed)"
proof -
  have init: "\<exists>dead. ulife0 False = ulife0 dead" by blast
  have u: "ul_inv u" by (rule udp_end.inv_from [OF init assms(1)])
  have "ul_le (ulife0 False) u" by (rule udp_end.stays_from [OF init rtranclp.rtrancl_refl assms(1)])
  then have "\<not> ul_dead u" by (simp add: ul_le_def ulife0_def)
  note u = u this
  then have "after_inv u i u" using call_after_none [of "ul_calls u i" u u] assms(4,5) by (simp add: after_inv_def ul_le_refl)
  then have v: "after_inv u i v" using after.inv_reach [OF assms(2)] by blast
  have w: "why_inv v" "call_inv v (ul_calls v i)" by (rule ul_invD [OF after_ul [OF v]])+
  have "ul_dead v = ul_dead u" "call_after u v (UErr e)" using v assms(3) by (simp_all add: after_inv_def ul_le_def)
  moreover have "x = ESent NetErrClosed \<and> ul_closed v \<or> IsS x ErrAssociationClosed \<and> ul_over v" if "ul_err v = Some x" for x
    using w(1) that u(2) calculation(1) closedByProxy_Is by (auto simp: why_inv_def)
  moreover have "IsS e ErrAssociationClosed \<longrightarrow> ul_over v" using w(2) assms(3) by (simp add: call_inv_def)
  ultimately show ?thesis by (simp add: call_after_def)
qed

section \<open>The watcher\<close>

definition wrank :: "ulife \<Rightarrow> nat" where
  "wrank u = (case ul_watch u of WRead \<Rightarrow> 4 | WGot e \<Rightarrow> 3 | WSet \<Rightarrow> 2 | WClosed \<Rightarrow> 1 | WExit \<Rightarrow> 0)"

lemma wrank_sel [simp]: "wrank (ucall i p u) = wrank u" "wrank (u\<lparr>ul_over := True\<rparr>) = wrank u" "wrank (closeRelay u) = wrank u"
  "wrank (set_err e u) = wrank u" "wrank (u\<lparr>ul_closed := True\<rparr>) = wrank u" "wrank (u\<lparr>ul_readDeadline := True\<rparr>) = wrank u"
  "wrank (u\<lparr>ul_control := True\<rparr>) = wrank u"
  by (simp_all add: wrank_def)

lemma wstep_rank: "wstep u v \<Longrightarrow> wrank v < wrank u"
  by (erule wstep.cases) (auto simp: wrank_def)

lemma astep_rank:
  assumes "astep s u v"
  shows "wrank v \<le> wrank u"
  using assms
proof cases
  case u_watch
  then show ?thesis using wstep_rank by fastforce
next
  case (u_close i)
  then show ?thesis by cases (auto simp: close_swap_def close_err_def)
next
  case (u_io i)
  then show ?thesis by cases auto
qed auto

text \<open>\<open>done\<close> is closed: once the control conn has ended or \<open>Close\<close> has unblocked the watcher, the watcher can always take a step
  until it has closed \<open>done\<close>; it takes at most four, and nothing another goroutine does sets it back.\<close>

theorem done_is_reached:
  assumes "(astep s)\<^sup>*\<^sup>* (ulife0 dead) u" and "ul_over u \<or> ul_control u \<or> ul_readDeadline u"
  shows "(ul_done u \<or> (\<exists>v. wstep u v)) \<and> wrank u \<le> 4 \<and> (\<forall>v. wstep u v \<longrightarrow> wrank v < wrank u) \<and> (\<forall>v. astep s u v \<longrightarrow> wrank v \<le> wrank u)"
proof -
  have "ul_inv u" by (rule udp_end.inv_from [OF _ assms(1)]) blast
  then have w: "watch_inv u" by (rule ul_invD(3))
  have "ul_done u \<or> (\<exists>v. wstep u v)"
  proof (cases "ul_watch u")
    case WRead
    then show ?thesis using w_read assms(2) by blast
  next
    case (WGot e)
    then show ?thesis using w_err by blast
  next
    case WSet
    then show ?thesis using w_relay by blast
  next
    case WClosed
    then show ?thesis using w_done by blast
  qed (use w in \<open>simp add: watch_inv_def\<close>)
  then show ?thesis using wstep_rank astep_rank by (auto simp: wrank_def split: wpc.splits)
qed

section \<open>Datagrams\<close>

text \<open>Whether a read may deliver the datagram \<open>d\<close>, as read into the buffer, that came from \<open>f\<close>.\<close>

definition source_ok :: "ust \<Rightarrow> addrport option \<Rightarrow> bool" where
  "source_ok s f = (case (us_sock s, f) of (UPacket u ap, Some x) \<Rightarrow> Unmap (ap_addr x) = ap_addr ap | _ \<Rightarrow> True)"

definition deliverable :: "ust \<Rightarrow> addrport option \<Rightarrow> bytes \<Rightarrow> nat \<Rightarrow> addr \<Rightarrow> bool" where
  "deliverable s f d hn from \<longleftrightarrow>
     source_ok s f \<and> ParseUDPHeader d = ((0, from), hn, None) \<and> (ip_IsValid (IP_of (us_target s)) \<longrightarrow> from = us_target s)"

lemma readLoopU_got:
  "deliverable s f (take cap d) hn from \<Longrightarrow> readLoopU s cap len ds (URecv f d # rs) = Some (ds, Inr (take len (drop hn (take cap d)), from), rs)"
  by (auto simp: deliverable_def source_ok_def readRelay_def split: usock.splits option.splits)

lemma readLoopU_drop:
  assumes "\<not> (\<exists>hn from. deliverable s f (take cap d) hn from)"
  shows "\<exists>x. readLoopU s cap len ds (URecv f d # rs) = readLoopU s cap len (ds @ [x]) rs"
proof (cases "source_ok s f")
  case True
  then have "readRelay s cap (URecv f d) = ReadGot (take cap d)"
    by (auto simp: source_ok_def readRelay_def split: usock.splits option.splits)
  moreover obtain v a hn e where p: "ParseUDPHeader (take cap d) = ((v, a), hn, e)" by (metis surj_pair)
  moreover have "e \<noteq> None \<or> v \<noteq> 0 \<or> ip_IsValid (IP_of (us_target s)) \<and> a \<noteq> us_target s"
    using assms True p unfolding deliverable_def by auto
  ultimately show ?thesis by (cases e) (auto simp del: split_paired_Ex)
next
  case False
  then show ?thesis by (auto simp: source_ok_def readRelay_def simp del: split_paired_Ex split: usock.splits option.splits)
qed

lemma readLoopU_result:
  "readLoopU s cap len ds rs = Some (ds', Inr (b, from), rest) \<Longrightarrow>
   \<exists>pre f d hn. rs = pre @ URecv f d # rest \<and> length ds' = length ds + length pre \<and> deliverable s f (take cap d) hn from
     \<and> b = take len (drop hn (take cap d)) \<and> (\<forall>r\<in>set pre. \<exists>g c. r = URecv g c \<and> (\<forall>k a. \<not> deliverable s g (take cap c) k a))"
proof (induction rs arbitrary: ds)
  case Nil
  then show ?case by simp
next
  case (Cons r rs)
  show ?case
  proof (cases r)
    case (UFail e)
    then show ?thesis using Cons.prems by (simp add: readRelay_def)
  next
    case (URecv f d)
    show ?thesis
    proof (cases "\<exists>hn a. deliverable s f (take cap d) hn a")
      case True
      then obtain hn a where k: "deliverable s f (take cap d) hn a" by blast
      then show ?thesis
        using Cons.prems readLoopU_got [OF k, of len ds rs] unfolding URecv by (intro exI [of _ "[]"] exI [of _ f] exI [of _ d] exI [of _ hn]) auto
    next
      case False
      then obtain x where "readLoopU s cap len (ds @ [x]) rs = Some (ds', Inr (b, from), rest)"
        using Cons.prems readLoopU_drop [OF False, of len ds rs] unfolding URecv by auto
      from Cons.IH [OF this] obtain pre g c hn where
        "rs = pre @ URecv g c # rest" "length ds' = length (ds @ [x]) + length pre" "deliverable s g (take cap c) hn from"
        "b = take len (drop hn (take cap c))" "\<forall>r\<in>set pre. \<exists>g c. r = URecv g c \<and> (\<forall>k a. \<not> deliverable s g (take cap c) k a)" by blast
      then show ?thesis using False URecv by (intro exI [of _ "r # pre"] exI [of _ g] exI [of _ c] exI [of _ hn]) auto
    qed
  qed
qed

lemma readLoopU_error: "readLoopU s cap len ds rs = Some (ds', Inl e, rest) \<Longrightarrow> \<exists>pre. rs = pre @ UFail e # rest \<and> length ds' = length ds + length pre"
proof (induction rs arbitrary: ds)
  case (Cons r rs)
  show ?case
  proof (cases r)
    case (UFail x)
    then show ?thesis using Cons.prems by (auto simp: readRelay_def)
  next
    case (URecv f d)
    then have "\<not> (\<exists>hn a. deliverable s f (take cap d) hn a)"
      using Cons.prems readLoopU_got [of s f cap d _ _ len ds rs] by auto
    then obtain x where "readLoopU s cap len (ds @ [x]) rs = Some (ds', Inl e, rest)"
      using Cons.prems readLoopU_drop [of s f cap d len ds rs] unfolding URecv by auto
    from Cons.IH [OF this] obtain pre where "rs = pre @ UFail e # rest" "length ds' = length (ds @ [x]) + length pre" by blast
    then show ?thesis by (intro exI [of _ "r # pre"]) simp
  qed
qed simp

text \<open>C36: A read of an association delivers the first datagram that is a whole unfragmented one, from the relay's IP if the socket says,
  and from the target if the association is connected to an IP; it drops every one before it, each with a reason,
  and reports an error of the socket only where the socket failed.\<close>

theorem reads_deliver_the_first:
  assumes "ureadFrom s len ended closed rs = Some (s', ds, r, rest)" and "\<not> us_dead s"
  shows "\<exists>pre x. rs = pre @ x # rest \<and> length ds = length pre \<and> us_rcap s' \<ge> us_rcap s
    \<and> (case r of
         Inr (b, from) \<Rightarrow> (\<forall>y\<in>set pre. \<exists>g c. y = URecv g c \<and> (\<forall>k a. \<not> deliverable s g (take (us_rcap s') c) k a))
           \<and> (\<exists>f d hn. x = URecv f d \<and> deliverable s f (take (us_rcap s') d) hn from \<and> b = take len (drop hn (take (us_rcap s') d)))
       | Inl e \<Rightarrow> (\<exists>z. x = UFail z \<and> e = uioErr s ''read'' (us_raddr s) z ended closed))"
proof -
  let ?cap = "max (us_rcap s) (min (len + MaxUDPHeaderLen) maxRelayDatagram)"
  obtain q where q: "readLoopU s ?cap len [] rs = Some (ds, q, rest)" "s' = s\<lparr>us_rcap := ?cap\<rparr>"
    "r = (case q of Inl e \<Rightarrow> Inl (uioErr s ''read'' (us_raddr s) e ended closed) | Inr x \<Rightarrow> Inr x)"
    using assms by (auto simp: ureadFrom_def Let_def)
  show ?thesis
  proof (cases q)
    case (Inl e)
    then show ?thesis using readLoopU_error [of s ?cap len "[]" rs ds e rest] q by auto
  next
    case (Inr z)
    obtain b fr where z: "z = (b, fr)" by (cases z)
    then show ?thesis using readLoopU_result [of s ?cap len "[]" rs ds b fr rest] q Inr by fastforce
  qed
qed

section \<open>Client and server\<close>

lemma read_frame:
  assumes "AppendUDPHeader [] 0 src = (m, None)" and "addr_wf src" and "\<not> us_dead s" and "source_ok s f"
    and "ip_IsValid (IP_of (us_target s)) \<longrightarrow> src = us_target s" and "length m + length p \<le> 65535"
  shows "\<exists>s'. ureadFrom s len ended closed (URecv f (m @ p) # rs) = Some (s', [], Inr (take len p, src), rs)"
proof -
  let ?need = "min (len + MaxUDPHeaderLen) maxRelayDatagram"
  let ?cap = "max (us_rcap s) ?need"
  have m: "length m \<le> MaxUDPHeaderLen"
    using udp_header_roundtrip [OF assms(1,2), of "[]"] UDPHeaderLen_max [OF assms(2)] by auto
  have "take ?cap (m @ p) = m @ take (?cap - length m) p" using m assms(6) by (simp add: maxRelayDatagram_def)
  moreover have "ParseUDPHeader (m @ take (?cap - length m) p) = ((0, src), length m, None)"
    using AppendUDPHeader_parse [OF assms(1,2)] by (simp add: parseClientHeader_ok)
  ultimately have d: "deliverable s f (take ?cap (m @ p)) (length m) src" and t: "drop (length m) (take ?cap (m @ p)) = take (?cap - length m) p"
    using assms(4,5) by (auto simp: deliverable_def)
  have "take len (take (?cap - length m) p) = take len p"
    using m assms(6) by (auto simp: maxRelayDatagram_def min_def take_take)
  then show ?thesis using readLoopU_got [OF d, of len "[]" rs] assms(3) t by (simp add: ureadFrom_def Let_def)
qed

lemma write_frame:
  assumes "uwriteTo s b t a = Inr d"
  shows "\<exists>m. AppendUDPHeader [] 0 t = (m, None) \<and> d = m @ b \<and> addr_IsValid t \<and> int (length b) \<le> int (us_maxLen s) - int (UDPHeaderLen t)
    \<and> matchesFamily (us_network s) (IP_of t) \<and> \<not> us_dead s"
  using assms by (auto simp: uwriteTo_def Let_def AppendUDPHeader_def appendAddrMessage_def split: if_splits)

text \<open>C35: Client and server against each other, in every state of the server's association: what a client writes for a target, the
  server relays to that target as it is (if it relays it); and what the server passes back from a target, a client's read returns
  (up to the caller's buffer) with the target's address. No write exceeds what a datagram to the relay can carry.\<close>

theorem datagrams_cross_both_ends:
  assumes "ureachable h r st" and "ur_time st \<le> wd_now w" and "uwriteTo s b t a = Inr d" and "addr_wf t"
    and "up_judge (fst (newAssociation h r 0)) w d from1 (ur_a st) = (st', Inr (payload, dst))"
    and "down (fst (newAssociation h r 0)) now buf port datagram from2 (ur_a st) = (st'', ToClient g data to)"
    and "length buf = ac_maxDatagram (fst (newAssociation h r 0))" and "plain_ip (ap_addr from2)" and "ip_IsValid (ap_addr from2)"
    and "source_ok s f" and "ip_IsValid (IP_of (us_target s)) \<longrightarrow> AddrFromAddrPort from2 = us_target s" and "length data \<le> 65535"
  shows "payload = b \<and> (ip_IsValid (IP_of t) \<longrightarrow> dst = AddrPortFrom (IP_of t) (Port_of t)) \<and> length d \<le> us_maxLen s
    \<and> (\<exists>s'. ureadFrom s len ended closed (URecv f data # rs) = Some (s', [], Inr (take len datagram, AddrFromAddrPort from2), rs))"
proof -
  obtain m where m: "AppendUDPHeader [] 0 t = (m, None)" "d = m @ b" "int (length b) \<le> int (us_maxLen s) - int (UDPHeaderLen t)" "\<not> us_dead s"
    using write_frame [OF assms(3)] by blast
  have "length m = UDPHeaderLen t" using udp_header_roundtrip [OF m(1) assms(4), of "[]"] by auto
  then have "length d \<le> us_maxLen s" using m by simp
  moreover have "payload = b" "ip_IsValid (IP_of t) \<longrightarrow> dst = AddrPortFrom (IP_of t) (Port_of t)"
    using up_payload [OF assms(1,2) m(1) assms(4)] assms(5) m(2) by auto
  moreover obtain k where k: "AppendUDPHeader [] 0 (AddrFromAddrPort from2) = (k, None)" "addr_wf (AddrFromAddrPort from2)" "data = k @ datagram"
    using down_datagram [OF assms(6-9)] by blast
  then have "\<exists>s'. ureadFrom s len ended closed (URecv f data # rs) = Some (s', [], Inr (take len datagram, AddrFromAddrPort from2), rs)"
    using read_frame [OF k(1,2) m(4) assms(10,11), of datagram] assms(12) by auto
  ultimately show ?thesis by blast
qed

section \<open>Witnesses\<close>

definition dust :: ust where "dust = ustart (UConnected None) None ''udp'' zeroAddr"

lemma dust_sel [simp]: "\<not> us_dead dust" "us_target dust = zeroAddr" "us_sock dust = UConnected None" "us_network dust = ''udp''" "us_maxLen dust = 65507"
  by (simp_all add: dust_def ustart_def us_dead_def)

text \<open>The proxy ends the control conn; while the watcher is between setting \<open>Err\<close> and closing the relay socket, a read begins and a
  \<open>Close\<close> closes both conns, the relay socket first; the read fails, and the \<open>Close\<close> returns once the watcher is done.\<close>

lemma association_ends_once_witness:
  "\<exists>u. (astep dust)\<^sup>*\<^sup>* (ulife0 False) u \<and> ul_done u \<and> ul_calls u 1 = UClosedRet None \<and> (\<exists>e. ul_calls u 0 = UFailed e)
     \<and> ul_relayCloses u = 1 \<and> ul_control u \<and> ul_err u = Some (closedByProxy (ESent IoEOF))"
proof -
  let ?r = "ESent IoEOF" and ?e = "EErrno ECONNRESET"
  define u1 where "u1 = (ulife0 False)\<lparr>ul_over := True\<rparr>"
  define u2 where "u2 = u1\<lparr>ul_watch := WGot ?r\<rparr>"
  define u3 where "u3 = set_err (closedByProxy ?r) u2\<lparr>ul_watch := WSet\<rparr>"
  define u4 where "u4 = ucall 0 UInIO u3"
  define u5 where "u5 = close_swap dust 1 u4"
  define u6 where "u6 = close_err 1 u5"
  define u7 where "u7 = ucall 1 UReadUnblocked (u6\<lparr>ul_readDeadline := True\<rparr>)"
  define u8 where "u8 = ucall 1 UControl (u7\<lparr>ul_control := True\<rparr>)"
  define u9 where "u9 = ucall 1 UWaiting (closeRelay u8)"
  define v1 where "v1 = ucall 0 (UFailed ?e) u9"
  define v2 where "v2 = closeRelay v1\<lparr>ul_watch := WClosed\<rparr>"
  define v3 where "v3 = v2\<lparr>ul_done := True, ul_watch := WExit\<rparr>"
  define v4 where "v4 = ucall 1 (UClosedRet None) v3"
  note defs = u2_def u1_def ulife0_def set_err_def ucall_def close_swap_def close_err_def closeRelay_def
  have e3: "u3 = (ulife0 False)\<lparr>ul_over := True, ul_watch := WSet, ul_err := Some (closedByProxy ?r)\<rparr>"
    by (simp add: u3_def defs)
  have e5: "u5 = (ulife0 False)\<lparr>ul_over := True, ul_watch := WSet, ul_err := Some (closedByProxy ?r), ul_closed := True,
      ul_calls := (\<lambda>i. UIdle)(0 := UInIO, 1 := UClosing)\<rparr>"
    by (simp add: u5_def u4_def e3 defs)
  have e6: "u6 = u5\<lparr>ul_calls := (\<lambda>i. UIdle)(0 := UInIO, 1 := UErrSet)\<rparr>"
    by (simp add: u6_def e5 defs)
  have e9: "u9 = u5\<lparr>ul_readDeadline := True, ul_control := True, ul_once := True, ul_relayCloses := 1,
      ul_calls := (\<lambda>i. UIdle)(0 := UInIO, 1 := UWaiting)\<rparr>"
    by (simp add: u9_def u8_def u7_def e6 e5 defs)
  have s: "astep dust (ulife0 False) u1" "astep dust u1 u2" "astep dust u2 u3" "astep dust u3 u4" "astep dust u4 u5"
    "astep dust u5 u6" "astep dust u6 u7" "astep dust u7 u8" "astep dust u8 u9" "astep dust u9 v1" "astep dust v1 v2" "astep dust v2 v3" "astep dust v3 v4"
    subgoal unfolding u1_def by (rule u_over)
    subgoal unfolding u2_def by (rule u_watch, rule w_read) (simp_all add: u1_def ulife0_def)
    subgoal unfolding u3_def by (rule u_watch, rule w_err) (simp add: u2_def)
    subgoal unfolding u4_def by (rule u_io, rule i_start) (simp_all add: e3 ulife0_def)
    subgoal unfolding u5_def by (rule u_close, rule c_swap) (simp add: u4_def e3 ulife0_def)
    subgoal unfolding u6_def by (rule u_close, rule c_err) (simp add: e5)
    subgoal unfolding u7_def by (rule u_close, rule c_unblock) (simp add: e6)
    subgoal unfolding u8_def by (rule u_close, rule c_control) (simp add: u7_def)
    subgoal unfolding u9_def by (rule u_close, rule c_relay) (simp add: u8_def)
    subgoal unfolding v1_def by (rule u_io, rule i_fail) (simp_all add: e9 errno_Is_def)
    subgoal unfolding v2_def by (rule u_watch, rule w_relay) (simp add: v1_def e9 e5)
    subgoal unfolding v3_def by (rule u_watch, rule w_done) (simp add: v2_def)
    subgoal unfolding v4_def by (rule u_close, rule c_wait) (simp_all add: v3_def v2_def v1_def e9 defs)
    done
  note first = converse_rtranclp_into_rtranclp [where r = "astep dust"]
  have run: "(astep dust)\<^sup>*\<^sup>* (ulife0 False) v4"
    by (rule first [OF s(1)], rule first [OF s(2)], rule first [OF s(3)], rule first [OF s(4)], rule first [OF s(5)],
      rule first [OF s(6)], rule first [OF s(7)], rule first [OF s(8)], rule first [OF s(9)], rule first [OF s(10)],
      rule first [OF s(11)], rule first [OF s(12)], rule first [OF s(13)], rule rtranclp.rtrancl_refl)
  have f: "ul_done v4" "ul_calls v4 1 = UClosedRet None" "ul_calls v4 0 = UFailed ?e" "ul_err v4 = Some (closedByProxy ?r)"
    by (simp_all add: v4_def v3_def v2_def v1_def e9 e5 defs)
  have "\<forall>i. ul_calls v4 i = UClosedRet None \<longrightarrow> ul_err v4 \<noteq> None \<and> (False \<or> ul_control v4 \<and> ul_relayCloses v4 = 1)"
    using association_ends_once [OF run] by (elim conjE)
  from this [rule_format, OF f(2)] have "ul_control v4 \<and> ul_relayCloses v4 = 1" by simp
  then show ?thesis using run f by (intro exI [of _ v4] conjI exI [of _ ?e]) simp_all
qed

text \<open>A read that fails after the proxy has ended the control conn.\<close>

lemma why_the_association_ended_witness: "\<exists>v e. (astep dust)\<^sup>*\<^sup>* (ulife0 False) v \<and> ul_calls v 0 = UErr e \<and> IsS e ErrAssociationClosed"
proof -
  let ?e = "EErrno ECONNRESET" and ?r = "ESent IoEOF"
  define u1 where "u1 = (ulife0 False)\<lparr>ul_over := True\<rparr>"
  define u2 where "u2 = u1\<lparr>ul_watch := WGot ?r\<rparr>"
  define u3 where "u3 = set_err (closedByProxy ?r) u2\<lparr>ul_watch := WSet\<rparr>"
  define v1 where "v1 = ucall 0 UInIO u3"
  define v2 where "v2 = ucall 0 (UFailed ?e) v1"
  define v3 where "v3 = ucall 0 (UAwaited ?e) v2"
  define v4 where "v4 = ucall 0 (UEnded ?e (ul_err v3)) v3"
  define v5 where "v5 = ucall 0 (UErr (uioErr dust ''read'' None ?e (ul_err v3) (ul_closed v4))) v4"
  have s1: "astep dust (ulife0 False) u1" unfolding u1_def by (rule u_over)
  have s2: "astep dust u1 u2" unfolding u2_def by (rule u_watch, rule w_read) (simp_all add: u1_def ulife0_def)
  have s3: "astep dust u2 u3" unfolding u3_def by (rule u_watch, rule w_err) (simp add: u2_def)
  have u: "ul_calls u3 = (\<lambda>i. UIdle)" "\<not> ul_dead u3" "ul_err u3 = Some (closedByProxy ?r)" "\<not> ul_closed u3"
    by (simp_all add: u3_def u2_def u1_def ulife0_def set_err_def)
  have t1: "astep dust u3 v1" unfolding v1_def by (rule u_io, rule i_start) (simp_all add: u)
  have t2: "astep dust v1 v2" unfolding v2_def by (rule u_io, rule i_fail) (simp_all add: v1_def errno_Is_def)
  have "iostep dust 0 v2 (ucall 0 (if \<not> ul_closed v2 \<and> errnoKind ?e = KindRefused then UAwait ?e else UAwaited ?e) v2)"
    by (rule i_refused) (simp add: v2_def)
  then have t3: "astep dust v2 v3" unfolding v3_def by (auto intro: u_io simp: errnoKind_def errno_Is_def)
  have t4: "astep dust v3 v4" unfolding v4_def by (rule u_io, rule i_ended) (simp add: v3_def)
  have t5: "astep dust v4 v5" unfolding v5_def by (rule u_io, rule i_result) (simp add: v4_def)
  note into = rtranclp.rtrancl_into_rtrancl [where r = "astep dust"] and refl = rtranclp.rtrancl_refl [where r = "astep dust"]
  have a: "(astep dust)\<^sup>*\<^sup>* (ulife0 False) u3" by (rule into [OF _ s3], rule into [OF _ s2], rule into [OF _ s1], rule refl)
  have b: "(astep dust)\<^sup>*\<^sup>* u3 v5" by (rule into [OF _ t5], rule into [OF _ t4], rule into [OF _ t3], rule into [OF _ t2], rule into [OF _ t1], rule refl)
  have e: "ul_calls v5 0 = UErr (uioErr dust ''read'' None ?e (ul_err v3) (ul_closed v4))" "\<not> ul_closed v5"
    by (simp_all add: v5_def v4_def v3_def v2_def v1_def u)
  show ?thesis
    using why_the_association_ended [OF a b e(1)] e u rtranclp_trans [OF a b] by auto
qed

lemma done_is_reached_witness: "\<exists>v. wstep ((ulife0 False)\<lparr>ul_over := True\<rparr>) v"
proof -
  have "(astep dust)\<^sup>*\<^sup>* (ulife0 False) ((ulife0 False)\<lparr>ul_over := True\<rparr>)" by (rule r_into_rtranclp, rule u_over)
  from done_is_reached [OF this] show ?thesis by (auto simp: ulife0_def)
qed

lemma demo_frame_header: "AppendUDPHeader [] 0 (AddrFromAddrPort ServerUDPProps.demoTarget) = ([0, 0, 0, 1, 8, 8, 8, 8, 0, 53], None)"
  using demo_frame by (simp add: AppendUDPHeader_def appendAddrMessage_def ServerUDPProps.demoTarget_def AddrFromAddrPort_plain)

lemma demo_plain: "plain_ip (ap_addr ServerUDPProps.demoTarget)" "ip_IsValid (ap_addr ServerUDPProps.demoTarget)"
  by (simp_all add: ServerUDPProps.demoTarget_def plain_ip_def ip_IsValid_def AddrPortFrom_def)

lemma dust_reads:
  "\<exists>s'. ureadFrom dust 100 None False [URecv None ([0, 0, 0, 1, 8, 8, 8, 8, 0, 53] @ [9])] = Some (s', [], Inr ([9], AddrFromAddrPort ServerUDPProps.demoTarget), [])"
  using read_frame [OF demo_frame_header, of dust None "[9]" 100 None False "[]"] by (simp add: source_ok_def zeroAddr_def ip_IsValid_def)

lemma reads_deliver_the_first_witness:
  "\<exists>cap hn. deliverable dust None (take cap [0, 0, 0, 1, 8, 8, 8, 8, 0, 53, 9]) hn (AddrFromAddrPort ServerUDPProps.demoTarget)"
proof -
  obtain s' where s: "ureadFrom dust 100 None False [URecv None ([0, 0, 0, 1, 8, 8, 8, 8, 0, 53] @ [9])]
      = Some (s', [], Inr ([9], AddrFromAddrPort ServerUDPProps.demoTarget), [])"
    using dust_reads by blast
  from reads_deliver_the_first [OF s] show ?thesis by auto
qed

lemma datagrams_cross_both_ends_witness:
  "\<exists>s'. ureadFrom dust 100 None False [URecv None [0, 0, 0, 1, 8, 8, 8, 8, 0, 53, 9]] = Some (s', [], Inr ([9], AddrFromAddrPort ServerUDPProps.demoTarget), [])"
proof -
  let ?ad = "AddrFromAddrPort ServerUDPProps.demoTarget"
  have m: "uwriteTo dust [7] ?ad None = Inr ([0, 0, 0, 1, 8, 8, 8, 8, 0, 53] @ [7])"
    using demo_frame_header udp_header_roundtrip [OF demo_frame_header, of "[]"] demo_plain
    by (auto simp: uwriteTo_def Let_def matchesFamily_def AppendUDPHeader_def appendAddrMessage_def split: if_splits)
  show ?thesis
    using datagrams_cross_both_ends [OF demo_reachable _ m, of twoFaced ServerUDPProps.demoClient "demoAssoc 5000" "[7]" ServerUDPProps.demoTarget
        0 "replicate 100 0" 5000 "[9]" ServerUDPProps.demoTarget "demoAssoc 5000" ServerUDPProps.demoTarget "[0, 0, 0, 1, 8, 8, 8, 8, 0, 53, 9]" ServerUDPProps.demoClient None 100 None False "[]"]
      demo_again demo_down demo_plain
    by (simp add: demoRun_def twoFaced_now demoCfg_sel source_ok_def zeroAddr_def ip_IsValid_def)
qed

end
