(* ===== verification/ClientBind.thy ===== *)
theory ClientBind
  imports ClientRelay Steps
begin

text \<open>
  BIND on the client (\<open>bind.go\<close>): \<open>Listen\<close>, and the listener it returns as a step relation over the calls of any number of
  goroutines: \<open>Accept\<close>, \<open>Close\<close>, \<open>SetDeadline\<close>.
\<close>

section \<open>The listener\<close>

datatype lstate = Listening | Accepting | LDone

text \<open>\<open>netAddr\<close>: the text of the address.\<close>

definition netAddr :: "addr \<Rightarrow> string" where
  "netAddr a =
     (if IsName a then addr_String a
      else if ip_IsValid (IP_of a) then ap_String (AddrPortFrom (IP_of a) (Port_of a))
      else CHR '':'' # nat_string (unat (Port_of a)))"

record listener =
  l_c :: kconn
  l_conn :: pconn
  l_addr :: string
  l_state :: lstate
  l_closed :: bool

section \<open>Listen\<close>

definition listenTarget :: "string \<Rightarrow> string \<Rightarrow> addr \<times> error option" where
  "listenTarget network a =
     (if network \<notin> {''tcp'', ''tcp4'', ''tcp6''} then (zeroAddr, Some (EUnknownNetwork network))
      else if a = [] then (unknownDST, None)
      else parseTarget network a)"

text \<open>The address to connect to: BND, substituted; if that fails, the proxy's name.\<close>

definition listenAddr :: "unet \<Rightarrow> dialer \<Rightarrow> ip \<Rightarrow> addr \<Rightarrow> addr" where
  "listenAddr u d peer bound =
     (case substitute u d bound peer (proxyHost_of d) False False of
        Inr a \<Rightarrow> a
      | Inl e \<Rightarrow> (case substitute u d bound peer (proxyHost_of d) False True of Inr a \<Rightarrow> a | Inl e' \<Rightarrow> zeroAddr))"

text \<open>The listener or the error, and the conn that was dialed if any.\<close>

definition Listen :: "cctx \<Rightarrow> unet \<Rightarrow> dialer option \<Rightarrow> string \<Rightarrow> string \<Rightarrow> ((error + listener) \<times> pconn option) option" where
  "Listen x u dl network address =
     (let (target, err) = listenTarget network address in
      case dnewConn x dl opBind network CmdBind target err kdial0 of
        (c, Inl e) \<Rightarrow> Some (Inl e, None)
      | (c, Inr r) \<Rightarrow>
          (case dl of
             None \<Rightarrow> None
           | Some d \<Rightarrow>
               map_option
                 (\<lambda>(c1, conn, err1). case (err1, conn) of
                    (Some e, _) \<Rightarrow> (Inl e, conn)
                  | (None, None) \<Rightarrow> (Inl (ESent errNoProxyConn), None)
                  | (None, Some p) \<Rightarrow>
                      (Inr \<lparr>l_c = c1, l_conn = p, l_addr = netAddr (listenAddr u d (Unmap (pn_peer p)) (h_bound (k_h c1))),
                            l_state = Listening, l_closed = False\<rparr>, Some p))
                 (dconnect x (un_dial u) d c)))"

section \<open>The critical sections\<close>

definition closedErrLocked :: "listener \<Rightarrow> error" where
  "closedErrLocked l = opError (l_c l) (StageAccept, ESent NetErrClosed)"

text \<open>\<open>Accept\<close>, first part: the error, or the second reply is awaited.\<close>

definition accept_start :: "listener \<Rightarrow> listener \<times> error option" where
  "accept_start l = (if l_state l \<noteq> Listening then (l, Some (closedErrLocked l)) else (l\<lparr>l_state := Accepting\<rparr>, None))"

text \<open>\<open>Accept\<close> after the second reply: the conn is the peer's, or the error.\<close>

definition accept_settle :: "addr \<Rightarrow> error option \<Rightarrow> listener \<Rightarrow> listener \<times> error option" where
  "accept_settle peer err0 l =
     (let err = (if l_closed l then Some (ESent NetErrClosed) else err0); l1 = l\<lparr>l_state := LDone\<rparr> in
      if err = None
      then (l1\<lparr>l_c := (l_c l)\<lparr>k_hasConn := True, k_local := l_addr l, k_remote := netAddr peer, k_canDeadline := pn_canDeadline (l_conn l),
                             k_phase := phSent\<rparr>\<rparr>, None)
      else (l1, err))"

text \<open>\<open>Accept\<close>, the end, on an error and without one.\<close>

definition accept_fail :: "addr \<Rightarrow> error \<Rightarrow> listener \<Rightarrow> listener \<times> error" where
  "accept_fail peer e l =
     (let e' = opError (l_c l) (StageAccept, e)
      in (l\<lparr>l_conn := pn_close (l_conn l), l_c := ksay [EvAccepted peer (Some e')] (l_c l)\<rparr>, e'))"

definition accept_done :: "addr \<Rightarrow> listener \<Rightarrow> listener" where
  "accept_done peer l =
     l\<lparr>l_conn := (l_conn l)\<lparr>pn_dl := DLNone\<rparr>, l_c := establishLocked peer (ksay [EvAccepted peer None] (l_c l))\<rparr>"

text \<open>\<open>SetDeadline\<close>; a time in the past is \<open>DLPast\<close>.\<close>

definition l_SetDeadline :: "dline \<Rightarrow> listener \<Rightarrow> listener \<times> error option" where
  "l_SetDeadline t l =
     (if l_state l = LDone then (l, Some (closedErrLocked l)) else (l\<lparr>l_conn := (l_conn l)\<lparr>pn_dl := t\<rparr>\<rparr>, None))"

text \<open>\<open>Close\<close> up to closing the conn: the result, or the conn is to be closed.\<close>

datatype lclose = CloseRet "error option" | CloseConn

definition close_start :: "listener \<Rightarrow> listener \<times> lclose" where
  "close_start l =
     (if l_closed l then (l, CloseRet (Some (closedErrLocked l)))
      else if l_state l = LDone then (l, CloseRet None)
      else (l\<lparr>l_closed := True, l_state := (if l_state l = Listening then LDone else l_state l)\<rparr>, CloseConn))"

section \<open>Steps\<close>

text \<open>A goroutine between its critical sections: idle, waiting for the second reply, with the reply, after settling with or without an
  error, about to close the conn, returned.\<close>

datatype lpc = LIdle | LReading | LRead addr "error option" | LFail addr error | LGot addr | LClosing | LRetConn addr | LRet "error option"

record lsys =
  ls_l :: listener
  ls_calls :: "nat \<Rightarrow> lpc"
  ls_given :: nat

text \<open>\<open>ls_given\<close> counts the conns \<open>Accept\<close> returned.\<close>

definition lput :: "nat \<Rightarrow> lpc \<Rightarrow> listener \<Rightarrow> lsys \<Rightarrow> lsys" where
  "lput i p l s = s\<lparr>ls_l := l, ls_calls := (ls_calls s)(i := p)\<rparr>"

inductive lstep :: "lsys \<Rightarrow> lsys \<Rightarrow> bool" where
  l_accept: "ls_calls s i = LIdle \<Longrightarrow> accept_start (ls_l s) = (l, e) \<Longrightarrow>
     lstep s (lput i (case e of Some x \<Rightarrow> LRet (Some x) | None \<Rightarrow> LReading) l s)"
| l_read: "ls_calls s i = LReading \<Longrightarrow> readSecondReply (k_h (l_c (ls_l s))) net = Some (h, n, peer, e) \<Longrightarrow>
     lstep s (lput i (LRead peer e) ((ls_l s)\<lparr>l_c := (l_c (ls_l s))\<lparr>k_h := h\<rparr>, l_conn := (l_conn (ls_l s))\<lparr>pn_net := n\<rparr>\<rparr>) s)"
| l_settle: "ls_calls s i = LRead peer e \<Longrightarrow> accept_settle peer e (ls_l s) = (l, e') \<Longrightarrow>
     lstep s (lput i (case e' of Some x \<Rightarrow> LFail peer x | None \<Rightarrow> LGot peer) l s)"
| l_fail: "ls_calls s i = LFail peer e \<Longrightarrow> accept_fail peer e (ls_l s) = (l, e') \<Longrightarrow> lstep s (lput i (LRet (Some e')) l s)"
| l_done: "ls_calls s i = LGot peer \<Longrightarrow> lstep s (lput i (LRetConn peer) (accept_done peer (ls_l s)) s\<lparr>ls_given := ls_given s + 1\<rparr>)"
| l_deadline: "ls_calls s i = LIdle \<Longrightarrow> l_SetDeadline t (ls_l s) = (l, e) \<Longrightarrow> lstep s (lput i (LRet e) l s)"
| l_close: "ls_calls s i = LIdle \<Longrightarrow> close_start (ls_l s) = (l, r) \<Longrightarrow>
     lstep s (lput i (case r of CloseRet e \<Rightarrow> LRet e | CloseConn \<Rightarrow> LClosing) l s)"
| l_closed: "ls_calls s i = LClosing \<Longrightarrow> lstep s (lput i (LRet e) ((ls_l s)\<lparr>l_conn := pn_close (l_conn (ls_l s))\<rparr>) s)"
| l_next: "ls_calls s i = LRet e \<or> ls_calls s i = LRetConn peer \<Longrightarrow> lstep s (lput i LIdle (ls_l s) s)"

text \<open>The state \<open>Listen\<close> leaves.\<close>

definition lsys0 :: "listener \<Rightarrow> lsys" where
  "lsys0 l = \<lparr>ls_l = l, ls_calls = (\<lambda>i. LIdle), ls_given = 0\<rparr>"

end
