(* ===== verification/ClientBindProps.thy ===== *)
theory ClientBindProps
  imports ClientBind ClientDialProps
begin

text \<open>
  What a listener guarantees, however \<open>Accept\<close>, \<open>Close\<close> and \<open>SetDeadline\<close> interleave; and that \<open>Listen\<close> leaks nothing.
\<close>

section \<open>One conn or none\<close>

definition waits :: "lpc \<Rightarrow> bool" where
  "waits p = (case p of LReading \<Rightarrow> True | LRead a e \<Rightarrow> True | _ \<Rightarrow> False)"

definition settled :: "lpc \<Rightarrow> bool" where
  "settled p = (case p of LFail a e \<Rightarrow> True | LGot a \<Rightarrow> True | _ \<Rightarrow> False)"

definition accepts :: "lpc \<Rightarrow> bool" where "accepts p \<longleftrightarrow> waits p \<or> settled p"

lemma lpc_simps [simp]:
  "waits LReading" "waits (LRead a e)" "\<not> waits LIdle" "\<not> waits (LFail a x)" "\<not> waits (LGot a)" "\<not> waits LClosing" "\<not> waits (LRet e)" "\<not> waits (LRetConn a)"
  "\<not> settled LReading" "\<not> settled (LRead a e)" "\<not> settled LIdle" "settled (LFail a x)" "settled (LGot a)" "\<not> settled LClosing" "\<not> settled (LRet e)"
  "\<not> settled (LRetConn a)"
  by (simp_all add: waits_def settled_def)

text \<open>What holds while nobody accepts, and while a call that accepts is at \<open>p\<close>.\<close>

definition nobody_inv :: "listener \<Rightarrow> nat \<Rightarrow> bool \<Rightarrow> bool" where
  "nobody_inv l given closing \<longleftrightarrow>
     (case l_state l of
        Listening \<Rightarrow> given = 0 \<and> \<not> l_closed l \<and> \<not> pn_closed (l_conn l)
      | Accepting \<Rightarrow> False
      | LDone \<Rightarrow>
          if given = 0 then pn_closed (l_conn l) \<or> closing
          else given = 1 \<and> \<not> l_closed l \<and> \<not> pn_closed (l_conn l) \<and> pn_dl (l_conn l) = DLNone
             \<and> k_done (l_c l) \<and> k_hasConn (l_c l) \<and> k_phase (l_c l) = phSent)"

definition accept_inv :: "listener \<Rightarrow> lpc \<Rightarrow> bool" where
  "accept_inv l p \<longleftrightarrow>
     (case p of
        LFail a e \<Rightarrow> l_state l = LDone
      | LGot a \<Rightarrow> l_state l = LDone \<and> \<not> l_closed l \<and> \<not> pn_closed (l_conn l) \<and> k_hasConn (l_c l) \<and> k_phase (l_c l) = phSent
      | _ \<Rightarrow> l_state l = Accepting \<and> (pn_closed (l_conn l) \<longrightarrow> l_closed l))"

text \<open>\<open>ow\<close>: the call that accepts, if any.\<close>

definition linv_at :: "nat option \<Rightarrow> lsys \<Rightarrow> bool" where
  "linv_at ow s \<longleftrightarrow>
     (\<forall>i. accepts (ls_calls s i) \<longleftrightarrow> ow = Some i)
   \<and> (\<forall>i. ls_calls s i = LClosing \<longrightarrow> l_closed (ls_l s))
   \<and> (case ow of
        None \<Rightarrow> nobody_inv (ls_l s) (ls_given s) (\<exists>i. ls_calls s i = LClosing)
      | Some i \<Rightarrow> ls_given s = 0 \<and> accept_inv (ls_l s) (ls_calls s i))"

definition linv :: "lsys \<Rightarrow> bool" where "linv s \<longleftrightarrow> (\<exists>ow. linv_at ow s)"

lemma lput_sel [simp]: "ls_l (lput i p l s) = l" "ls_calls (lput i p l s) = (ls_calls s)(i := p)" "ls_given (lput i p l s) = ls_given s"
  by (simp_all add: lput_def)

lemma accepts_simps [simp]:
  "accepts LReading" "accepts (LRead a e)" "\<not> accepts LIdle" "accepts (LFail a x)" "accepts (LGot a)" "\<not> accepts LClosing" "\<not> accepts (LRet e)" "\<not> accepts (LRetConn a)"
  by (simp_all add: accepts_def)

text \<open>A step of the call that accepts, and of one that does not.\<close>

lemma linv_own:
  assumes "linv_at (Some i) s" and "accepts p" and "accept_inv l p" and "l_closed (ls_l s) \<longrightarrow> l_closed l"
  shows "linv (lput i p l s)"
proof -
  have "linv_at (Some i) (lput i p l s)"
    using assms unfolding linv_at_def by (auto split: if_splits)
  then show ?thesis unfolding linv_def by blast
qed

lemma linv_end:
  assumes "linv_at (Some i) s" and "\<not> accepts p" and "p \<noteq> LClosing" and "nobody_inv l g False" and "l_closed (ls_l s) \<longrightarrow> l_closed l"
  shows "linv (lput i p l s\<lparr>ls_given := g\<rparr>)"
proof -
  have "nobody_inv l g c" for c using assms(4) by (auto simp: nobody_inv_def split: lstate.splits if_splits)
  then have "linv_at None (lput i p l s\<lparr>ls_given := g\<rparr>)"
    using assms unfolding linv_at_def by (auto split: if_splits)
  then show ?thesis unfolding linv_def by blast
qed

lemma linv_other:
  assumes "linv_at ow s" and "\<not> accepts (ls_calls s i)" and "\<not> accepts p" and "l_closed (ls_l s) \<or> p = LClosing \<longrightarrow> l_closed l"
    and "case ow of None \<Rightarrow> nobody_inv l (ls_given s) (p = LClosing \<or> (\<exists>j. j \<noteq> i \<and> ls_calls s j = LClosing)) | Some j \<Rightarrow> accept_inv l (ls_calls s j)"
  shows "linv (lput i p l s)"
proof -
  have eq: "(\<exists>j. ((ls_calls s)(i := p)) j = LClosing) = (p = LClosing \<or> (\<exists>j. j \<noteq> i \<and> ls_calls s j = LClosing))" by auto
  have "\<forall>j. accepts (((ls_calls s)(i := p)) j) = (ow = Some j)" and "\<forall>j. ((ls_calls s)(i := p)) j = LClosing \<longrightarrow> l_closed l"
    using assms(1-4) unfolding linv_at_def by auto
  moreover have "ow = Some j \<Longrightarrow> j \<noteq> i" for j using assms(1,2) unfolding linv_at_def by auto
  ultimately have "linv_at ow (lput i p l s)"
    using assms(1,5) unfolding linv_at_def lput_sel eq by (auto split: option.splits)
  then show ?thesis unfolding linv_def by blast
qed

lemma deadline_keeps:
  assumes "l_SetDeadline t l = (l', e)"
  shows "nobody_inv l g c \<Longrightarrow> nobody_inv l' g c" and "accepts p \<Longrightarrow> accept_inv l p \<Longrightarrow> accept_inv l' p" and "l_closed l' = l_closed l"
  using assms by (auto simp: l_SetDeadline_def nobody_inv_def accept_inv_def accepts_def split: if_splits lstate.splits lpc.splits)

lemma close_keeps:
  assumes "close_start l = (l', r)"
  shows "nobody_inv l g c \<Longrightarrow> nobody_inv l' g (r = CloseConn \<or> c)" and "accepts p \<Longrightarrow> accept_inv l p \<Longrightarrow> accept_inv l' p"
    and "l_closed l \<or> r = CloseConn \<Longrightarrow> l_closed l'"
  using assms by (auto simp: close_start_def nobody_inv_def accept_inv_def accepts_def split: if_splits lstate.splits lpc.splits)

lemma closed_keeps:
  assumes "l_closed l"
  shows "nobody_inv l g c \<Longrightarrow> nobody_inv (l\<lparr>l_conn := pn_close (l_conn l)\<rparr>) g c'"
    and "accepts p \<Longrightarrow> accept_inv l p \<Longrightarrow> accept_inv (l\<lparr>l_conn := pn_close (l_conn l)\<rparr>) p"
  using assms by (auto simp: pn_close_def nobody_inv_def accept_inv_def accepts_def split: if_splits lstate.splits lpc.splits)

lemma linv_step:
  assumes "linv s" and "lstep s t"
  shows "linv t"
proof -
  obtain ow where ow: "linv_at ow s" using assms(1) unfolding linv_def by blast
  have own: "ow = Some i" if "accepts (ls_calls s i)" for i using ow that unfolding linv_at_def by blast
  have nob: "nobody_inv (ls_l s) (ls_given s) (\<exists>j. ls_calls s j = LClosing)" if "ow = None" using ow that unfolding linv_at_def by simp
  have acc: "ls_given s = 0 \<and> accept_inv (ls_l s) (ls_calls s j)" if "ow = Some j" for j using ow that unfolding linv_at_def by simp
  have accj: "accepts (ls_calls s j)" if "ow = Some j" for j using ow that unfolding linv_at_def by blast
  have idle: "(\<exists>j. ls_calls s j = LClosing) = (\<exists>j. j \<noteq> i \<and> ls_calls s j = LClosing)" if "ls_calls s i \<noteq> LClosing" for i
    using that by metis
  have cl: "l_closed (ls_l s)" if "ls_calls s i = LClosing" for i using ow that unfolding linv_at_def by blast
  show ?thesis
    using assms(2)
  proof cases
    case (l_accept i l e)
    show ?thesis
    proof (cases "l_state (ls_l s) = Listening")
      case True
      then have "ow = None" using acc by (cases ow) (auto simp: accept_inv_def split: lpc.splits)
      then have "linv_at (Some i) (lput i LReading l s)"
        using ow True l_accept(3) nob by (auto simp: linv_at_def accept_start_def nobody_inv_def accept_inv_def split: if_splits)
      then show ?thesis using l_accept True by (auto simp: linv_def accept_start_def)
    next
      case False
      then have "l = ls_l s" "e \<noteq> None" using l_accept by (auto simp: accept_start_def)
      then show ?thesis
        using l_accept nob acc idle [of i] by (auto intro!: linv_other [OF ow] split: option.splits)
    qed
  next
    case (l_read i net h n peer e)
    then have "ow = Some i" using own by simp
    then show ?thesis
      using l_read acc [of i] ow by (auto intro!: linv_own simp: accept_inv_def)
  next
    case (l_settle i peer e l e')
    then have o: "ow = Some i" using own by simp
    then show ?thesis
      using l_settle acc [of i] ow by (auto intro!: linv_own simp: accept_inv_def accept_settle_def Let_def split: if_splits option.splits)
  next
    case (l_fail i peer e l e')
    then have o: "ow = Some i" using own by simp
    have "linv (lput i (LRet (Some e')) l s\<lparr>ls_given := 0\<rparr>)"
      by (rule linv_end [of i]) (use l_fail acc [OF o] ow o in \<open>auto simp: accept_inv_def accept_fail_def Let_def nobody_inv_def pn_close_def\<close>)
    then show ?thesis using l_fail acc [OF o] by (cases s) (simp add: lput_def)
  next
    case (l_done i peer)
    then have o: "ow = Some i" using own by simp
    have "linv (lput i (LRetConn peer) (accept_done peer (ls_l s)) s\<lparr>ls_given := 1\<rparr>)"
      by (rule linv_end [of i]) (use l_done acc [OF o] ow o in \<open>auto simp: accept_inv_def accept_done_def nobody_inv_def establishLocked_def ksay_def\<close>)
    then show ?thesis using l_done acc [OF o] by simp
  next
    case (l_deadline i tt l e)
    note k = deadline_keeps [OF l_deadline(3)]
    show ?thesis
      using k nob acc accj idle [of i] l_deadline by (auto intro!: linv_other [OF ow] split: option.splits)
  next
    case (l_close i l r)
    note k = close_keeps [OF l_close(3)]
    show ?thesis
    proof (cases r)
      case (CloseRet e)
      then show ?thesis using k nob acc accj idle [of i] l_close by (auto intro!: linv_other [OF ow] split: option.splits)
    next
      case CloseConn
      then show ?thesis using k nob acc accj l_close by (auto intro!: linv_other [OF ow] split: option.splits)
    qed
  next
    case (l_closed i e)
    note k = closed_keeps [OF cl [OF l_closed(2)]]
    show ?thesis
      using k nob acc accj cl [OF l_closed(2)] l_closed by (auto intro!: linv_other [OF ow] split: option.splits)
  next
    case (l_next i e peer)
    then show ?thesis
      using nob acc idle [of i] by (auto intro!: linv_other [OF ow] split: option.splits)
  qed
qed

definition lfresh :: "listener \<Rightarrow> bool" where
  "lfresh l \<longleftrightarrow> l_state l = Listening \<and> \<not> l_closed l \<and> \<not> pn_closed (l_conn l)"

interpretation bind: kept_from lstep linv "\<lambda>s t. l_closed (ls_l s) \<longrightarrow> l_closed (ls_l t)" "\<lambda>s. \<exists>l. s = lsys0 l \<and> lfresh l"
proof unfold_locales
  show "linv s \<Longrightarrow> lstep s t \<Longrightarrow> linv t" for s t by (rule linv_step)
  show "\<exists>l. s = lsys0 l \<and> lfresh l \<Longrightarrow> linv s" for s
    by (auto simp: linv_def linv_at_def lsys0_def lfresh_def nobody_inv_def intro!: exI [of _ None])
  show "lstep s t \<Longrightarrow> l_closed (ls_l s) \<longrightarrow> l_closed (ls_l t)" for s t
    by (erule lstep.cases)
      (auto simp: accept_start_def accept_settle_def accept_fail_def accept_done_def l_SetDeadline_def close_start_def Let_def split: if_splits)
qed auto

text \<open>C39: A listener gives out one conn at most, however \<open>Accept\<close>, \<open>Close\<close> and \<open>SetDeadline\<close> interleave: the conn it gives is
  established, open, and without a deadline, and no \<open>Close\<close> or \<open>SetDeadline\<close> of the listener touches it any more; a
  listener that was closed before gives none; and once it is done and no call is pending, the conn was given or is closed.\<close>

theorem listener_gives_one_conn:
  assumes "lfresh l" and "lstep\<^sup>*\<^sup>* (lsys0 l) s"
  shows "ls_given s \<le> 1
    \<and> (ls_given s = 1 \<longrightarrow> \<not> l_closed (ls_l s) \<and> \<not> pn_closed (l_conn (ls_l s)) \<and> pn_dl (l_conn (ls_l s)) = DLNone \<and> k_done (l_c (ls_l s)))
    \<and> (\<forall>i peer. l_closed (ls_l s) \<longrightarrow> ls_given s = 0 \<and> ls_calls s i \<noteq> LGot peer)
    \<and> (l_state (ls_l s) = LDone \<and> (\<forall>i. \<not> accepts (ls_calls s i) \<and> ls_calls s i \<noteq> LClosing) \<longrightarrow> ls_given s = 1 \<or> pn_closed (l_conn (ls_l s)))"
proof -
  have "\<exists>l'. lsys0 l = lsys0 l' \<and> lfresh l'" using assms(1) by blast
  then have "linv s" using bind.inv_from assms(2) by blast
  then obtain ow where ow: "linv_at ow s" unfolding linv_def by blast
  show ?thesis
  proof (cases ow)
    case None
    then have "nobody_inv (ls_l s) (ls_given s) (\<exists>i. ls_calls s i = LClosing)" "\<forall>i. \<not> accepts (ls_calls s i)"
      using ow unfolding linv_at_def by simp_all
    moreover from this have "\<forall>i a. ls_calls s i \<noteq> LGot a" by (metis accepts_simps(5))
    ultimately show ?thesis by (auto simp: nobody_inv_def split: lstate.splits if_splits)
  next
    case (Some j)
    then have g: "ls_given s = 0" "accept_inv (ls_l s) (ls_calls s j)" "accepts (ls_calls s j)" "\<forall>i. accepts (ls_calls s i) \<longrightarrow> i = j"
      using ow unfolding linv_at_def by auto
    have "\<not> l_closed (ls_l s)" if "ls_calls s i = LGot a" for i a
    proof -
      have "i = j" using g(4) that accepts_simps(5) by metis
      then show ?thesis using g(2) that by (simp add: accept_inv_def)
    qed
    then show ?thesis using g(1,3) by (intro conjI allI impI) auto
  qed
qed

text \<open>A \<open>Close\<close> before anything else.\<close>

definition dlistener :: listener where
  "dlistener = \<lparr>l_c = kdial0, l_conn = dproxy, l_addr = ''a'', l_state = Listening, l_closed = False\<rparr>"

lemma listener_gives_one_conn_witness: "\<exists>s. lstep\<^sup>*\<^sup>* (lsys0 dlistener) s \<and> l_closed (ls_l s) \<and> ls_given s = 0"
proof -
  have f: "lfresh dlistener" by (simp add: lfresh_def dlistener_def dproxy_def)
  let ?l = "dlistener\<lparr>l_closed := True, l_state := LDone\<rparr>"
  have "lstep (lsys0 dlistener) (lput 0 (case CloseConn of CloseRet e \<Rightarrow> LRet e | CloseConn \<Rightarrow> LClosing) ?l (lsys0 dlistener))"
    by (rule l_close) (simp_all add: lsys0_def close_start_def dlistener_def)
  then have r: "lstep\<^sup>*\<^sup>* (lsys0 dlistener) (lput 0 LClosing ?l (lsys0 dlistener))" by auto
  show ?thesis using listener_gives_one_conn [OF f r] r by (intro exI [of _ "lput 0 LClosing ?l (lsys0 dlistener)"]) simp
qed

section \<open>Listen leaks nothing\<close>

lemma listen_leaks_nothing:
  assumes "opens (dial_of (un_dial u) d)"
  shows "\<exists>r conn. Listen x u (Some d) network a = Some (r, conn)
     \<and> (case r of Inl e \<Rightarrow> (\<forall>p. conn = Some p \<longrightarrow> pn_closed p) | Inr l \<Rightarrow> lfresh l \<and> conn = Some (l_conn l) \<and> pn_dl (l_conn l) = DLNone)"
proof -
  obtain target err where t: "listenTarget network a = (target, err)" by fastforce
  obtain c y where n: "dnewConn x (Some d) opBind network CmdBind target err kdial0 = (c, y)" by fastforce
  show ?thesis
  proof (cases y)
    case (Inl e)
    then show ?thesis using t n by (auto simp: Listen_def)
  next
    case (Inr r)
    note n' = n [unfolded Inr]
    obtain cfg rt ht where cf: "configOf (d_Config d) = (cfg, rt, ht)" by (cases "configOf (d_Config d)") auto
    have cc: "\<not> k_connClosed c" using dnewConn_ok [OF n' cf kdial0_sel(1)] kdial0_sel by auto
    obtain c2 conn e2 where d: "dconnect x (un_dial u) d c = Some (c2, conn, e2)"
      using dconnect_total [OF dnewConn_fresh [OF n' kdial0_sel(1)] assms] by fastforce
    then have q: "case e2 of Some e \<Rightarrow> (\<forall>p. conn = Some p \<longrightarrow> pn_closed p)
        | None \<Rightarrow> (\<exists>p. conn = Some p \<and> \<not> pn_closed p \<and> pn_dl p = DLNone)"
      using dconnect_result [OF assms cc] by blast
    then show ?thesis using t n' d by (cases e2) (auto simp: Listen_def lfresh_def)
  qed
qed

end
