(* ===== verification/ClientTraces.thy ===== *)
theory ClientTraces
  imports GoErrors
begin

text \<open>
  \<open>trace.go\<close> and \<open>timings.go\<close>: hooks as functions on the state of the program that installed them, their composition, and the hooks
  that measure a dial, with the clock's readings as arguments.
\<close>

section \<open>Hooks (trace.go)\<close>

record 'w ctrace =
  ConnectStart :: "(string \<Rightarrow> string \<Rightarrow> 'w \<Rightarrow> 'w) option"
  ConnectDone :: "(string \<Rightarrow> string \<Rightarrow> error option \<Rightarrow> 'w \<Rightarrow> 'w) option"
  WroteHandshake :: "(error option \<Rightarrow> 'w \<Rightarrow> 'w) option"
  GotMethod :: "(method_code \<Rightarrow> 'w \<Rightarrow> 'w) option"
  AuthDone :: "(error option \<Rightarrow> 'w \<Rightarrow> 'w) option"
  GotReply :: "(reply \<Rightarrow> addr \<Rightarrow> 'w \<Rightarrow> 'w) option"
  HandshakeDone :: "(error option \<Rightarrow> 'w \<Rightarrow> 'w) option"
  RelayDialStart :: "(string \<Rightarrow> string \<Rightarrow> 'w \<Rightarrow> 'w) option"
  RelayDialDone :: "(string \<Rightarrow> string \<Rightarrow> error option \<Rightarrow> 'w \<Rightarrow> 'w) option"
  DroppedDatagram :: "(addr \<Rightarrow> error \<Rightarrow> 'w \<Rightarrow> 'w) option"
  Accepted :: "(addr \<Rightarrow> error option \<Rightarrow> 'w \<Rightarrow> 'w) option"

definition noTrace :: "'w ctrace" where
  "noTrace = \<lparr>ConnectStart = None, ConnectDone = None, WroteHandshake = None, GotMethod = None, AuthDone = None, GotReply = None,
     HandshakeDone = None, RelayDialStart = None, RelayDialDone = None, DroppedDatagram = None, Accepted = None\<rparr>"

definition join1 :: "('a \<Rightarrow> 'w \<Rightarrow> 'w) option \<Rightarrow> ('a \<Rightarrow> 'w \<Rightarrow> 'w) option \<Rightarrow> ('a \<Rightarrow> 'w \<Rightarrow> 'w) option" where
  "join1 f g = (case (f, g) of (None, _) \<Rightarrow> g | (_, None) \<Rightarrow> f | (Some f1, Some g1) \<Rightarrow> Some (\<lambda>a w. g1 a (f1 a w)))"

definition join2 :: "('a \<Rightarrow> 'b \<Rightarrow> 'w \<Rightarrow> 'w) option \<Rightarrow> ('a \<Rightarrow> 'b \<Rightarrow> 'w \<Rightarrow> 'w) option \<Rightarrow> ('a \<Rightarrow> 'b \<Rightarrow> 'w \<Rightarrow> 'w) option" where
  "join2 f g = (case (f, g) of (None, _) \<Rightarrow> g | (_, None) \<Rightarrow> f | (Some f1, Some g1) \<Rightarrow> Some (\<lambda>a b w. g1 a b (f1 a b w)))"

definition join3 ::
  "('a \<Rightarrow> 'b \<Rightarrow> 'c \<Rightarrow> 'w \<Rightarrow> 'w) option \<Rightarrow> ('a \<Rightarrow> 'b \<Rightarrow> 'c \<Rightarrow> 'w \<Rightarrow> 'w) option \<Rightarrow> ('a \<Rightarrow> 'b \<Rightarrow> 'c \<Rightarrow> 'w \<Rightarrow> 'w) option" where
  "join3 f g = (case (f, g) of (None, _) \<Rightarrow> g | (_, None) \<Rightarrow> f | (Some f1, Some g1) \<Rightarrow> Some (\<lambda>a b c w. g1 a b c (f1 a b c w)))"

definition compose :: "'w ctrace \<Rightarrow> 'w ctrace \<Rightarrow> 'w ctrace" where
  "compose a b =
     \<lparr>ConnectStart = join2 (ConnectStart a) (ConnectStart b), ConnectDone = join3 (ConnectDone a) (ConnectDone b),
      WroteHandshake = join1 (WroteHandshake a) (WroteHandshake b), GotMethod = join1 (GotMethod a) (GotMethod b),
      AuthDone = join1 (AuthDone a) (AuthDone b), GotReply = join2 (GotReply a) (GotReply b),
      HandshakeDone = join1 (HandshakeDone a) (HandshakeDone b), RelayDialStart = join2 (RelayDialStart a) (RelayDialStart b),
      RelayDialDone = join3 (RelayDialDone a) (RelayDialDone b), DroppedDatagram = join2 (DroppedDatagram a) (DroppedDatagram b),
      Accepted = join2 (Accepted a) (Accepted b)\<rparr>"

text \<open>The context carries its trace or none.\<close>

definition WithClientTrace :: "'w ctrace option \<Rightarrow> 'w ctrace option \<Rightarrow> 'w ctrace option" where
  "WithClientTrace old trace =
     (case trace of None \<Rightarrow> old | Some t \<Rightarrow> (case old of Some o' \<Rightarrow> Some (compose t o') | None \<Rightarrow> Some t))"

definition newTracer :: "'w ctrace option \<Rightarrow> 'w ctrace option \<Rightarrow> 'w ctrace" where
  "newTracer ctx cfg =
     (case (cfg, ctx) of
        (None, None) \<Rightarrow> noTrace
      | (Some c, None) \<Rightarrow> c
      | (None, Some t) \<Rightarrow> t
      | (Some c, Some t) \<Rightarrow> compose c t)"

text \<open>The hook runners, as one function of the hook that is due.\<close>

datatype due =
    DueConnectStart string string | DueConnectDone string string "error option" | DueWroteHandshake "error option" | DueGotMethod method_code
  | DueAuthDone "error option" | DueGotReply reply addr | DueHandshakeDone "error option" | DueRelayDialStart string string
  | DueRelayDialDone string string "error option" | DueDroppedDatagram addr error | DueAccepted addr "error option"

fun runHook :: "'w ctrace \<Rightarrow> due \<Rightarrow> 'w \<Rightarrow> 'w" where
  "runHook t (DueConnectStart n a) w = (case ConnectStart t of Some f \<Rightarrow> f n a w | None \<Rightarrow> w)"
| "runHook t (DueConnectDone n a e) w = (case ConnectDone t of Some f \<Rightarrow> f n a e w | None \<Rightarrow> w)"
| "runHook t (DueWroteHandshake e) w = (case WroteHandshake t of Some f \<Rightarrow> f e w | None \<Rightarrow> w)"
| "runHook t (DueGotMethod m) w = (case GotMethod t of Some f \<Rightarrow> f m w | None \<Rightarrow> w)"
| "runHook t (DueAuthDone e) w = (case AuthDone t of Some f \<Rightarrow> f e w | None \<Rightarrow> w)"
| "runHook t (DueGotReply r b) w = (case GotReply t of Some f \<Rightarrow> f r b w | None \<Rightarrow> w)"
| "runHook t (DueHandshakeDone e) w = (case HandshakeDone t of Some f \<Rightarrow> f e w | None \<Rightarrow> w)"
| "runHook t (DueRelayDialStart n a) w = (case RelayDialStart t of Some f \<Rightarrow> f n a w | None \<Rightarrow> w)"
| "runHook t (DueRelayDialDone n a e) w = (case RelayDialDone t of Some f \<Rightarrow> f n a e w | None \<Rightarrow> w)"
| "runHook t (DueDroppedDatagram a e) w = (case DroppedDatagram t of Some f \<Rightarrow> f a e w | None \<Rightarrow> w)"
| "runHook t (DueAccepted p e) w = (case Accepted t of Some f \<Rightarrow> f p e w | None \<Rightarrow> w)"

section \<open>Timings (timings.go)\<close>

text \<open>Times; \<open>None\<close> is the zero time.\<close>

record timings =
  t_ProxyConnect :: int
  t_Handshake :: int
  t_RelayDial :: int
  t_Total :: int
  t_start :: int
  t_connected :: "int option"
  t_relay :: int
  t_replied :: bool

definition zeroTimings :: timings where
  "zeroTimings = \<lparr>t_ProxyConnect = 0, t_Handshake = 0, t_RelayDial = 0, t_Total = 0, t_start = 0, t_connected = None, t_relay = 0, t_replied = False\<rparr>"

definition t_connectStart :: "int \<Rightarrow> timings \<Rightarrow> timings" where
  "t_connectStart now t =
     t\<lparr>t_ProxyConnect := 0, t_Handshake := 0, t_RelayDial := 0, t_Total := 0, t_replied := False, t_connected := None, t_start := now\<rparr>"

definition t_connectDone :: "int \<Rightarrow> error option \<Rightarrow> timings \<Rightarrow> timings" where
  "t_connectDone now e t =
     (let t1 = t\<lparr>t_connected := Some now, t_ProxyConnect := now - t_start t\<rparr>
      in if e \<noteq> None then t1\<lparr>t_Total := t_ProxyConnect t1\<rparr> else t1)"

definition t_gotReply :: "int \<Rightarrow> timings \<Rightarrow> timings" where
  "t_gotReply now t =
     (case t_connected t of Some c \<Rightarrow> if \<not> t_replied t then t\<lparr>t_replied := True, t_Handshake := now - c\<rparr> else t | None \<Rightarrow> t)"

definition t_handshakeDone :: "int \<Rightarrow> timings \<Rightarrow> timings" where
  "t_handshakeDone now t =
     (case t_connected t of
        None \<Rightarrow> t
      | Some c \<Rightarrow> (if \<not> t_replied t then t\<lparr>t_Handshake := now - c\<rparr> else t)\<lparr>t_Total := now - t_start t\<rparr>)"

definition t_relayDialStart :: "int \<Rightarrow> timings \<Rightarrow> timings" where "t_relayDialStart now t = t\<lparr>t_relay := now\<rparr>"
definition t_relayDialDone :: "int \<Rightarrow> timings \<Rightarrow> timings" where "t_relayDialDone now t = t\<lparr>t_RelayDial := now - t_relay t\<rparr>"

text \<open>\<open>Trace\<close>: its hooks, with the clock in the state.\<close>

definition timingsTrace :: "(timings \<times> int) ctrace" where
  "timingsTrace = noTrace\<lparr>
     ConnectStart := Some (\<lambda>n a (t, now). (t_connectStart now t, now)),
     ConnectDone := Some (\<lambda>n a e (t, now). (t_connectDone now e t, now)),
     GotReply := Some (\<lambda>r b (t, now). (t_gotReply now t, now)),
     HandshakeDone := Some (\<lambda>e (t, now). (t_handshakeDone now t, now)),
     RelayDialStart := Some (\<lambda>n a (t, now). (t_relayDialStart now t, now)),
     RelayDialDone := Some (\<lambda>n a e (t, now). (t_relayDialDone now t, now))\<rparr>"

section \<open>Order\<close>

text \<open>The hooks of the configuration run before the context's, and among those of a context the last installed first.\<close>

lemma runHook_compose: "runHook (compose a b) d w = runHook b d (runHook a d w)"
  by (cases d) (auto simp: compose_def join1_def join2_def join3_def split: option.splits)

lemma runHook_noTrace [simp]: "runHook noTrace d w = w"
  by (cases d) (simp_all add: noTrace_def)

lemma newTracer_order:
  "runHook (newTracer ctx cfg) d w =
     (let w1 = (case cfg of Some c \<Rightarrow> runHook c d w | None \<Rightarrow> w) in case ctx of Some t \<Rightarrow> runHook t d w1 | None \<Rightarrow> w1)"
  by (simp add: newTracer_def runHook_compose Let_def split: option.splits)

lemma WithClientTrace_order:
  "runHook (newTracer (WithClientTrace old (Some t)) None) d w = (let w1 = runHook t d w in case old of Some o' \<Rightarrow> runHook o' d w1 | None \<Rightarrow> w1)"
  by (simp add: newTracer_def WithClientTrace_def runHook_compose Let_def split: option.splits)

section \<open>A dial that is measured\<close>

definition hooksAt :: "(due \<times> int) list \<Rightarrow> timings \<Rightarrow> timings" where
  "hooksAt ds t = fold (\<lambda>(d, now) u. fst (runHook timingsTrace d (u, now))) ds t"

lemma hooksAt_simps [simp]:
  "hooksAt [] t = t"
  "hooksAt ((DueConnectStart n a, now) # ds) t = hooksAt ds (t_connectStart now t)"
  "hooksAt ((DueConnectDone n a e, now) # ds) t = hooksAt ds (t_connectDone now e t)"
  "hooksAt ((DueWroteHandshake e, now) # ds) t = hooksAt ds t"
  "hooksAt ((DueGotMethod m, now) # ds) t = hooksAt ds t"
  "hooksAt ((DueAuthDone e, now) # ds) t = hooksAt ds t"
  "hooksAt ((DueGotReply r b, now) # ds) t = hooksAt ds (t_gotReply now t)"
  "hooksAt ((DueHandshakeDone e, now) # ds) t = hooksAt ds (t_handshakeDone now t)"
  "hooksAt ((DueRelayDialStart n a, now) # ds) t = hooksAt ds (t_relayDialStart now t)"
  "hooksAt ((DueRelayDialDone n a e, now) # ds) t = hooksAt ds (t_relayDialDone now t)"
  by (simp_all add: hooksAt_def timingsTrace_def noTrace_def)

text \<open>Of a dial whatever ran before it with the same \<open>Timings\<close>, the parts are measured from their own hooks: for an association,
  \<open>Total\<close> is the connect, the wait for the first reply, and the rest, in which the relay dial lies.\<close>

lemma timings_of_a_dial:
  "hooksAt [(DueConnectStart n a, t0), (DueConnectDone n a None, t1), (DueWroteHandshake None, t2), (DueGotMethod m, t3), (DueGotReply r b, t4),
       (DueGotReply r b', t5), (DueRelayDialStart n' a', t6), (DueRelayDialDone n' a' e, t7), (DueHandshakeDone e, t8)] t
   = t\<lparr>t_ProxyConnect := t1 - t0, t_Handshake := t4 - t1, t_RelayDial := t7 - t6, t_Total := (t1 - t0) + (t4 - t1) + (t8 - t4), t_start := t0,
       t_connected := Some t1, t_relay := t6, t_replied := True\<rparr>"
  by (simp add: t_connectStart_def t_connectDone_def t_gotReply_def t_handshakeDone_def t_relayDialStart_def t_relayDialDone_def)

lemma timings_of_a_failed_connect:
  "t_Total (hooksAt [(DueConnectStart n a, t0), (DueConnectDone n a (Some e), t1)] t) = t1 - t0"
  by (simp add: t_connectStart_def t_connectDone_def)

end
