(* ===== verification/ServerRelay.thy ===== *)
theory ServerRelay
  imports GoErrors Steps
begin

text \<open>
  \<open>server/relay.go\<close>: a \<open>Relayer\<close> copies between client and target. The two directions run concurrently; each step below is one
  call or one access to what they share. What the conns return, when the context ends and how time passes are free; a direction is
  \<open>True\<close> for up (client to target) and \<open>False\<close> for down.
\<close>

section \<open>State\<close>

record relayer =
  rl_IdleTimeout :: int
  rl_HalfCloseTimeout :: int

text \<open>Where \<open>copy\<close> is: \<open>copyIdle\<close> before arming its read deadline, having computed it, in \<open>Read\<close>, with what it read, with the time
  it took then, having stored it, in \<open>Write\<close>, deciding on the error of the read; \<open>copy\<close> with the result of the loop, with the half-close
  deadline, having stored it, having set it on the client, on both; about to half-close; over.\<close>

datatype dpc = PArm | PArmed int | PRead | PGot bytes "error option" | PNow bytes "error option" int | PStored bytes "error option" int
  | PWrite bytes "error option" | PDecide "error option" | PEnd "error option"
  | PHalf int | PHalfStored int | PHalfClient int | PCloseWrite | POver

record dir =
  d_pc :: dpc
  d_read :: bytes
  d_written :: bytes
  d_n :: nat
  d_eof :: bool

text \<open>\<open>st_rd b\<close>: the read deadline of the conn direction \<open>b\<close> reads from; \<open>st_wr b\<close>: the write deadline of the one it writes to.
  \<open>st_cut\<close>: \<open>fail\<close> ran because a side could not be half-closed.\<close>

record rstate =
  st_now :: int
  st_lastMove :: int
  st_halfCloseAt :: int
  st_rd :: "bool \<Rightarrow> int option"
  st_wr :: "bool \<Rightarrow> int option"
  st_closed :: bool
  st_once :: bool
  st_err :: "error option"
  st_cut :: bool
  st_ctx :: "error option"
  st_panicked :: bool
  st_dir :: "bool \<Rightarrow> dir"
  st_result :: "(nat \<times> nat \<times> error option) option"

definition dir0 :: "relayer \<Rightarrow> dir" where
  "dir0 rl = \<lparr>d_pc = (if rl_IdleTimeout rl > 0 then PArm else PRead), d_read = [], d_written = [], d_n = 0, d_eof = False\<rparr>"

definition relay0 :: "relayer \<Rightarrow> int \<Rightarrow> rstate" where
  "relay0 rl now =
     \<lparr>st_now = now, st_lastMove = now, st_halfCloseAt = 0, st_rd = (\<lambda>b. None), st_wr = (\<lambda>b. None), st_closed = False, st_once = False,
      st_err = None, st_cut = False, st_ctx = None, st_panicked = False, st_dir = (\<lambda>b. dir0 rl), st_result = None\<rparr>"

definition goto :: "bool \<Rightarrow> dpc \<Rightarrow> rstate \<Rightarrow> rstate" where
  "goto b p st = st\<lparr>st_dir := (st_dir st)(b := (st_dir st b)\<lparr>d_pc := p\<rparr>)\<rparr>"

section \<open>What the directions share\<close>

definition r_fail :: "error option \<Rightarrow> rstate \<Rightarrow> rstate" where
  "r_fail e st = (if st_once st then st else st\<lparr>st_once := True, st_err := e\<rparr>)\<lparr>st_closed := True\<rparr>"

definition readDeadline :: "relayer \<Rightarrow> rstate \<Rightarrow> int" where
  "readDeadline rl st =
     (let d = st_lastMove st + rl_IdleTimeout rl; hc = st_halfCloseAt st
      in if hc \<noteq> 0 \<and> hc < d then hc else d)"

definition otherDirectionMoved :: "relayer \<Rightarrow> error \<Rightarrow> rstate \<Rightarrow> bool" where
  "otherDirectionMoved rl e st \<longleftrightarrow>
     IsS e OsErrDeadlineExceeded \<and> st_now st - st_lastMove st < rl_IdleTimeout rl \<and> st_halfCloseAt st = 0"

text \<open>The client is the source of up and the destination of down.\<close>

definition setDeadline :: "bool \<Rightarrow> int \<Rightarrow> rstate \<Rightarrow> rstate" where
  "setDeadline client d st = st\<lparr>st_rd := (st_rd st)(client := Some d), st_wr := (st_wr st)((\<not> client) := Some d)\<rparr>"

section \<open>The loop\<close>

text \<open>What follows a read: the loop of \<open>copyIdle\<close>, or of \<open>io.Copy\<close> when no idle timeout is set.\<close>

definition afterRead :: "relayer \<Rightarrow> error option \<Rightarrow> rstate \<Rightarrow> dpc" where
  "afterRead rl rerr st =
     (case rerr of
        None \<Rightarrow> if rl_IdleTimeout rl > 0 \<and> st_halfCloseAt st \<noteq> 0 then PArm else PRead
      | Some e \<Rightarrow>
          if rl_IdleTimeout rl > 0 \<and> otherDirectionMoved rl e st then PArm
          else if IsS e IoEOF then PEnd None
          else PEnd (Some e))"

text \<open>A read of \<open>m\<close>, with an error or not; a write of the first \<open>w\<close> bytes of \<open>m\<close>.\<close>

definition got :: "bool \<Rightarrow> bytes \<Rightarrow> error option \<Rightarrow> rstate \<Rightarrow> rstate" where
  "got b m rerr st =
     (let d = st_dir st b
      in st\<lparr>st_dir := (st_dir st)(b := d\<lparr>d_read := d_read d @ m, d_pc := (if m = [] then PDecide rerr else PGot m rerr)\<rparr>)\<rparr>)"

definition wroteTo :: "bool \<Rightarrow> bytes \<Rightarrow> nat \<Rightarrow> error option \<Rightarrow> error option \<Rightarrow> rstate \<Rightarrow> rstate" where
  "wroteTo b m w werr rerr st =
     (let d = st_dir st b
      in st\<lparr>st_dir := (st_dir st)(b := d\<lparr>d_written := d_written d @ take w m, d_n := d_n d + w,
              d_pc := (case werr of Some e \<Rightarrow> PEnd (Some e) | None \<Rightarrow> PDecide rerr)\<rparr>)\<rparr>)"

inductive dstep :: "relayer \<Rightarrow> bool \<Rightarrow> rstate \<Rightarrow> rstate \<Rightarrow> bool" for rl b where
  d_deadline: "d_pc (st_dir st b) = PArm \<Longrightarrow> dstep rl b st (goto b (PArmed (readDeadline rl st)) st)"
| d_armed: "d_pc (st_dir st b) = PArmed d \<Longrightarrow> dstep rl b st (goto b PRead (st\<lparr>st_rd := (st_rd st)(b := Some d)\<rparr>))"
| d_reads: "d_pc (st_dir st b) = PRead \<Longrightarrow> m \<noteq> [] \<or> rerr \<noteq> None \<Longrightarrow> dstep rl b st (got b m rerr st)"
| d_now: "d_pc (st_dir st b) = PGot m rerr \<Longrightarrow>
    dstep rl b st (goto b (if rl_IdleTimeout rl > 0 then PNow m rerr (st_now st) else PWrite m rerr) st)"
| d_store: "d_pc (st_dir st b) = PNow m rerr now \<Longrightarrow> dstep rl b st (goto b (PStored m rerr now) (st\<lparr>st_lastMove := now\<rparr>))"
| d_writeDeadline: "d_pc (st_dir st b) = PStored m rerr now \<Longrightarrow>
    dstep rl b st (goto b (PWrite m rerr) (st\<lparr>st_wr := (st_wr st)(b := Some (now + rl_IdleTimeout rl))\<rparr>))"
| d_writes: "d_pc (st_dir st b) = PWrite m rerr \<Longrightarrow> w \<le> length m \<Longrightarrow> werr = None \<longrightarrow> w = length m \<Longrightarrow>
    dstep rl b st (wroteTo b m w werr rerr st)"
| d_decide: "d_pc (st_dir st b) = PDecide rerr \<Longrightarrow>
    dstep rl b st (let p = afterRead rl rerr st; t = goto b p st
                   in if p = PEnd None then t\<lparr>st_dir := (st_dir t)(b := (st_dir t b)\<lparr>d_eof := True\<rparr>)\<rparr> else t)"
| d_failed: "d_pc (st_dir st b) = PEnd (Some e) \<Longrightarrow> dstep rl b st (goto b POver (r_fail (Some e) st))"
| d_ended: "d_pc (st_dir st b) = PEnd None \<Longrightarrow>
    dstep rl b st (goto b (if rl_HalfCloseTimeout rl > 0 then PHalf (st_now st + rl_HalfCloseTimeout rl) else PCloseWrite) st)"
| d_half: "d_pc (st_dir st b) = PHalf d \<Longrightarrow>
    dstep rl b st (goto b (PHalfStored d) (if st_halfCloseAt st = 0 then st\<lparr>st_halfCloseAt := d\<rparr> else st))"
| d_halfClient: "d_pc (st_dir st b) = PHalfStored d \<Longrightarrow> dstep rl b st (goto b (PHalfClient d) (setDeadline True d st))"
| d_halfTarget: "d_pc (st_dir st b) = PHalfClient d \<Longrightarrow> dstep rl b st (goto b PCloseWrite (setDeadline False d st))"
| d_closeWrite: "d_pc (st_dir st b) = PCloseWrite \<Longrightarrow>
    dstep rl b st (goto b POver (if ok then st else (r_fail None st)\<lparr>st_cut := True\<rparr>))"

section \<open>Relay\<close>

text \<open>Both directions; time; the context, its \<open>AfterFunc\<close> unless it is the handler's; a panic of the goroutine that copies down; the
  return, once both are over.\<close>

definition relay_return :: "rstate \<Rightarrow> rstate" where
  "relay_return st =
     st\<lparr>st_once := True, st_closed := True,
        st_result := Some (d_n (st_dir st True), d_n (st_dir st False),
          if st_err st \<noteq> None \<and> st_ctx st \<noteq> None then st_ctx st else st_err st)\<rparr>"

inductive rstep :: "relayer \<Rightarrow> bool \<Rightarrow> rstate \<Rightarrow> rstate \<Rightarrow> bool" for rl handlerCtx where
  r_dir: "dstep rl b st st' \<Longrightarrow> rstep rl handlerCtx st st'"
| r_time: "st_now st \<le> t \<Longrightarrow> rstep rl handlerCtx st (st\<lparr>st_now := t\<rparr>)"
| r_ctx: "st_ctx st = None \<Longrightarrow> rstep rl handlerCtx st (st\<lparr>st_ctx := Some e\<rparr>)"
| r_after: "st_ctx st = Some e \<Longrightarrow> \<not> handlerCtx \<Longrightarrow> rstep rl handlerCtx st (r_fail (Some e) st)"
| r_panic: "d_pc (st_dir st False) \<in> {PRead, PCloseWrite} \<or> (\<exists>m rerr. d_pc (st_dir st False) = PWrite m rerr) \<Longrightarrow>
    rstep rl handlerCtx st (goto False POver (r_fail (Some (ESent errPanic)) st)\<lparr>st_panicked := True\<rparr>)"
| r_return: "d_pc (st_dir st True) = POver \<Longrightarrow> d_pc (st_dir st False) = POver \<Longrightarrow> st_result st = None \<Longrightarrow>
    rstep rl handlerCtx st (relay_return st)"

end
