(* ===== verification/ServerRelayProps.thy ===== *)
theory ServerRelayProps
  imports ServerRelay
begin

text \<open>
  What a relay guarantees, however its two directions, the context and time interleave: bytes in order, one result, bounded waits.
\<close>

section \<open>Invariant\<close>

definition dir_inv :: "bool \<Rightarrow> dir \<Rightarrow> bool" where
  "dir_inv once d \<longleftrightarrow>
     d_n d = length (d_written d)
   \<and> (case d_pc d of
        PGot m r \<Rightarrow> d_read d = d_written d @ m \<and> \<not> d_eof d
      | PNow m r t \<Rightarrow> d_read d = d_written d @ m \<and> \<not> d_eof d
      | PStored m r t \<Rightarrow> d_read d = d_written d @ m \<and> \<not> d_eof d
      | PWrite m r \<Rightarrow> d_read d = d_written d @ m \<and> \<not> d_eof d
      | PEnd (Some e) \<Rightarrow> (\<exists>x. d_read d = d_written d @ x) \<and> \<not> d_eof d
      | POver \<Rightarrow> (\<exists>x. d_read d = d_written d @ x) \<and> (if d_eof d then d_read d = d_written d else once)
      | PArm \<Rightarrow> d_read d = d_written d \<and> \<not> d_eof d
      | PArmed t \<Rightarrow> d_read d = d_written d \<and> \<not> d_eof d
      | PRead \<Rightarrow> d_read d = d_written d \<and> \<not> d_eof d
      | PDecide r \<Rightarrow> d_read d = d_written d \<and> \<not> d_eof d
      | _ \<Rightarrow> d_read d = d_written d \<and> d_eof d)"

definition end_inv :: "rstate \<Rightarrow> bool" where
  "end_inv st \<longleftrightarrow>
     (st_once st \<longrightarrow> st_closed st) \<and> (st_err st \<noteq> None \<longrightarrow> st_once st)
   \<and> (case st_result st of
        None \<Rightarrow> st_once st \<and> st_err st = None \<longrightarrow> st_cut st
      | Some (u, d, e) \<Rightarrow>
          st_once st \<and> d_pc (st_dir st True) = POver \<and> d_pc (st_dir st False) = POver \<and> u = d_n (st_dir st True) \<and> d = d_n (st_dir st False)
        \<and> (if st_err st = None then e = None \<and> (st_cut st \<or> d_eof (st_dir st True) \<and> d_eof (st_dir st False))
           else e = st_err st \<or> e = st_ctx st \<and> e \<noteq> None))"

definition rinv :: "rstate \<Rightarrow> bool" where
  "rinv st \<longleftrightarrow> (\<forall>b. dir_inv (st_once st) (st_dir st b)) \<and> end_inv st"

definition rle :: "rstate \<Rightarrow> rstate \<Rightarrow> bool" where
  "rle s t \<longleftrightarrow> (st_once s \<longrightarrow> st_once t \<and> st_err t = st_err s) \<and> (st_closed s \<longrightarrow> st_closed t) \<and> (st_result s \<noteq> None \<longrightarrow> st_result t = st_result s)
   \<and> (\<forall>b. (\<exists>x. d_written (st_dir t b) = d_written (st_dir s b) @ x))"

lemma goto_sel [simp]:
  "st_now (goto b p st) = st_now st" "st_lastMove (goto b p st) = st_lastMove st" "st_halfCloseAt (goto b p st) = st_halfCloseAt st"
  "st_rd (goto b p st) = st_rd st" "st_wr (goto b p st) = st_wr st" "st_closed (goto b p st) = st_closed st" "st_once (goto b p st) = st_once st"
  "st_err (goto b p st) = st_err st" "st_cut (goto b p st) = st_cut st" "st_ctx (goto b p st) = st_ctx st" "st_panicked (goto b p st) = st_panicked st"
  "st_result (goto b p st) = st_result st" "st_dir (goto b p st) = (st_dir st)(b := (st_dir st b)\<lparr>d_pc := p\<rparr>)"
  by (simp_all add: goto_def)

lemma r_fail_sel [simp]:
  "st_now (r_fail e st) = st_now st" "st_lastMove (r_fail e st) = st_lastMove st" "st_halfCloseAt (r_fail e st) = st_halfCloseAt st"
  "st_rd (r_fail e st) = st_rd st" "st_wr (r_fail e st) = st_wr st" "st_closed (r_fail e st)" "st_once (r_fail e st)"
  "st_err (r_fail e st) = (if st_once st then st_err st else e)" "st_cut (r_fail e st) = st_cut st" "st_ctx (r_fail e st) = st_ctx st"
  "st_result (r_fail e st) = st_result st" "st_dir (r_fail e st) = st_dir st"
  by (simp_all add: r_fail_def)

lemma setDeadline_sel [simp]:
  "st_now (setDeadline c d st) = st_now st" "st_lastMove (setDeadline c d st) = st_lastMove st" "st_halfCloseAt (setDeadline c d st) = st_halfCloseAt st"
  "st_rd (setDeadline c d st) = (st_rd st)(c := Some d)" "st_wr (setDeadline c d st) = (st_wr st)((\<not> c) := Some d)" "st_closed (setDeadline c d st) = st_closed st"
  "st_once (setDeadline c d st) = st_once st" "st_err (setDeadline c d st) = st_err st" "st_cut (setDeadline c d st) = st_cut st"
  "st_ctx (setDeadline c d st) = st_ctx st" "st_result (setDeadline c d st) = st_result st" "st_dir (setDeadline c d st) = st_dir st"
  by (simp_all add: setDeadline_def)

lemma dir_inv_once: "dir_inv once d \<Longrightarrow> (once \<longrightarrow> once') \<Longrightarrow> dir_inv once' d"
  by (cases "d_pc d") (auto simp: dir_inv_def split: option.splits)

text \<open>A step of direction \<open>b\<close> changes that direction, and at the end the first error.\<close>

lemma dstep_dir:
  assumes "dstep rl b st st'"
  shows "st_dir st' (\<not> b) = st_dir st (\<not> b)" and "d_pc (st_dir st b) \<noteq> POver" and "st_result st' = st_result st"
    and "\<exists>x. d_written (st_dir st' b) = d_written (st_dir st b) @ x" and "st_ctx st' = st_ctx st"
  using assms by (cases; auto simp: got_def wroteTo_def Let_def)+

lemma dstep_inv:
  assumes "dstep rl b st st'" and "dir_inv (st_once st) (st_dir st b)"
  shows "dir_inv (st_once st') (st_dir st' b)"
  using assms(1)
proof cases
  case (d_reads m rerr)
  then show ?thesis using assms(2) by (auto simp: dir_inv_def got_def Let_def)
next
  case (d_writes m rerr w werr)
  then show ?thesis using assms(2)
    by (cases werr) (auto simp: dir_inv_def wroteTo_def Let_def, metis append_take_drop_id)
next
  case (d_decide rerr)
  then show ?thesis using assms(2)
    by (auto simp: dir_inv_def Let_def afterRead_def split: option.splits if_splits)
qed (use assms(2) in \<open>auto simp: dir_inv_def split: option.splits\<close>)

lemma dstep_end:
  assumes "dstep rl b st st'" and "end_inv st"
  shows "end_inv st'"
proof -
  have p: "d_pc (st_dir st b) \<noteq> POver" by (rule dstep_dir(2) [OF assms(1)])
  have r: "st_result st = None" using assms(2) p by (cases b) (auto simp: end_inv_def split: option.splits)
  show ?thesis
    using assms(1)
    by cases (use assms(2) r in \<open>auto simp: end_inv_def got_def wroteTo_def Let_def split: option.splits\<close>)
qed

lemma dstep_le: "dstep rl b st st' \<Longrightarrow> rle st st'"
proof -
  assume d: "dstep rl b st st'"
  have "\<exists>x. d_written (st_dir st' c) = d_written (st_dir st c) @ x" for c
    using dstep_dir(1,4) [OF d] by (cases "c = b") auto
  moreover have "(st_once st \<longrightarrow> st_once st' \<and> st_err st' = st_err st) \<and> (st_closed st \<longrightarrow> st_closed st')"
    using d by cases (auto simp: got_def wroteTo_def Let_def)
  ultimately show ?thesis using dstep_dir(3) [OF d] by (simp add: rle_def)
qed

lemma rstep_le: "rstep rl hc st st' \<Longrightarrow> rle st st'"
  by (erule rstep.cases) (auto simp: dstep_le, auto simp: rle_def relay_return_def)

lemma rstep_inv:
  assumes "rinv st" and "rstep rl hc st st'"
  shows "rinv st'"
  using assms(2)
proof cases
  case (r_dir b)
  have "dir_inv (st_once st') (st_dir st' c)" for c
    using dstep_inv [OF r_dir] dstep_dir(1) [OF r_dir] dir_inv_once [of "st_once st" "st_dir st c" "st_once st'"] dstep_le [OF r_dir] assms(1)
    by (cases "c = b") (auto simp: rinv_def rle_def)
  then show ?thesis using dstep_end [OF r_dir] assms(1) by (simp add: rinv_def)
next
  case (r_after e)
  then show ?thesis using assms(1) dir_inv_once by (auto simp: rinv_def end_inv_def split: option.splits)
next
  case r_panic
  then have "dir_inv True ((st_dir st False)\<lparr>d_pc := POver\<rparr>)" using assms(1) by (auto simp: rinv_def dir_inv_def all_bool_eq split: dpc.splits)
  moreover have "dir_inv True (st_dir st True)" using assms(1) dir_inv_once by (auto simp: rinv_def)
  moreover have "st_result st = None" using assms(1) r_panic by (auto simp: rinv_def end_inv_def split: option.splits)
  ultimately show ?thesis using assms(1) r_panic by (auto simp: rinv_def end_inv_def all_bool_eq)
next
  case r_return
  then have "st_once st \<or> d_eof (st_dir st True) \<and> d_eof (st_dir st False)"
    using assms(1) by (auto simp: rinv_def dir_inv_def all_bool_eq split: if_splits)
  moreover have "dir_inv True (st_dir st c)" for c using assms(1) dir_inv_once by (auto simp: rinv_def)
  ultimately show ?thesis using assms(1) r_return by (auto simp: rinv_def end_inv_def relay_return_def)
qed (use assms(1) in \<open>auto simp: rinv_def end_inv_def split: option.splits\<close>)

interpretation relay: kept_from "rstep rl hc" rinv rle "\<lambda>st. \<exists>now. st = relay0 rl now"
proof unfold_locales
  show "rinv s \<Longrightarrow> rstep rl hc s t \<Longrightarrow> rinv t" for s t by (rule rstep_inv)
  show "rle s s" for s by (auto simp: rle_def)
  show "rinv s \<Longrightarrow> rstep rl hc s t \<Longrightarrow> rle s t" for s t by (rule rstep_le)
  show "rle s t \<Longrightarrow> rle t u \<Longrightarrow> rle s u" for s t u unfolding rle_def by (metis append.assoc)
  show "\<exists>now. s = relay0 rl now \<Longrightarrow> rinv s" for s
    by (auto simp: rinv_def end_inv_def relay0_def dir0_def dir_inv_def)
qed

section \<open>Bytes and result\<close>

text \<open>C40: Whatever the conns return and however the two directions, the context, a panic and time interleave: each direction has written a
  prefix of what it read, in order, and all of it once it ended with EOF; the counts of the result are the bytes written; the
  conns are closed on return; without an error every byte up to both EOFs was delivered, unless a side that cannot be half-closed was
  cut; and the first error is the one that stays.\<close>

theorem relay_copies_in_order:
  assumes "(rstep rl hc)\<^sup>*\<^sup>* (relay0 rl now) st"
  shows "(\<forall>b. \<exists>x. d_read (st_dir st b) = d_written (st_dir st b) @ x \<and> (d_eof (st_dir st b) \<longrightarrow> x = []))
    \<and> (\<forall>u d e. st_result st = Some (u, d, e) \<longrightarrow>
         st_closed st \<and> u = length (d_written (st_dir st True)) \<and> d = length (d_written (st_dir st False))
       \<and> (e = None \<longrightarrow> st_cut st \<or> (\<forall>b. d_eof (st_dir st b) \<and> d_written (st_dir st b) = d_read (st_dir st b)))
       \<and> (e \<noteq> None \<longrightarrow> e = st_err st \<or> e = st_ctx st))
    \<and> (\<forall>st'. st_once st \<longrightarrow> (rstep rl hc)\<^sup>*\<^sup>* st st' \<longrightarrow> st_err st' = st_err st)"
proof -
  have inv: "rinv st" by (rule relay.inv_from [OF _ assms]) blast
  then have d: "dir_inv (st_once st) (st_dir st b)" and e: "end_inv st" for b by (simp_all add: rinv_def)
  have p: "\<exists>x. d_read (st_dir st b) = d_written (st_dir st b) @ x \<and> (d_eof (st_dir st b) \<longrightarrow> x = [])" for b
    using d [of b] by (auto simp: dir_inv_def split: dpc.splits option.splits if_splits)
  moreover have "st_closed st \<and> u = length (d_written (st_dir st True)) \<and> w = length (d_written (st_dir st False))
       \<and> (x = None \<longrightarrow> st_cut st \<or> (\<forall>b. d_eof (st_dir st b) \<and> d_written (st_dir st b) = d_read (st_dir st b)))
       \<and> (x \<noteq> None \<longrightarrow> x = st_err st \<or> x = st_ctx st)" if "st_result st = Some (u, w, x)" for u w x
    using e that d [of True] d [of False] p [of True] p [of False] by (auto simp: end_inv_def dir_inv_def all_bool_eq split: if_splits)
  moreover have "st_err st' = st_err st" if "st_once st" "(rstep rl hc)\<^sup>*\<^sup>* st st'" for st'
    using relay.stays_reach [OF that(2) inv] that(1) by (simp add: rle_def)
  ultimately show ?thesis by blast
qed

section \<open>Deadlines\<close>

definition dir_time :: "relayer \<Rightarrow> rstate \<Rightarrow> bool \<Rightarrow> bool" where
  "dir_time rl st b \<longleftrightarrow>
     (case d_pc (st_dir st b) of
        PArm \<Rightarrow> True
      | PArmed t \<Rightarrow> t \<le> st_now st + rl_IdleTimeout rl
      | PNow m r t \<Rightarrow> t \<le> st_now st
      | PStored m r t \<Rightarrow> t \<le> st_now st
      | PHalf t \<Rightarrow> t \<le> st_now st + rl_HalfCloseTimeout rl
      | PHalfStored t \<Rightarrow> t \<le> st_now st + rl_HalfCloseTimeout rl
      | PHalfClient t \<Rightarrow> t \<le> st_now st + rl_HalfCloseTimeout rl
      | PRead \<Rightarrow> st_rd st b \<noteq> None
      | PGot m r \<Rightarrow> st_rd st b \<noteq> None
      | PWrite m r \<Rightarrow> st_wr st b \<noteq> None \<and> st_rd st b \<noteq> None
      | PDecide r \<Rightarrow> st_rd st b \<noteq> None
      | _ \<Rightarrow> True)
   \<and> ((\<exists>m r t. d_pc (st_dir st b) = PNow m r t \<or> d_pc (st_dir st b) = PStored m r t) \<longrightarrow> st_rd st b \<noteq> None)"

definition time_inv :: "relayer \<Rightarrow> rstate \<Rightarrow> bool" where
  "time_inv rl st \<longleftrightarrow>
     st_lastMove st \<le> st_now st
   \<and> (\<forall>b t. st_rd st b = Some t \<or> st_wr st b = Some t \<longrightarrow> t \<le> st_now st + max (rl_IdleTimeout rl) (rl_HalfCloseTimeout rl))
   \<and> (\<forall>b. dir_time rl st b)"

lemma readDeadline_le: "st_lastMove st \<le> st_now st \<Longrightarrow> readDeadline rl st \<le> st_now st + rl_IdleTimeout rl"
  by (auto simp: readDeadline_def Let_def)

lemma dir_time_mono:
  assumes "dir_time rl st b" and "st_dir st' b = st_dir st b" and "st_now st \<le> st_now st'"
    and "st_rd st b \<noteq> None \<longrightarrow> st_rd st' b \<noteq> None" and "st_wr st b \<noteq> None \<longrightarrow> st_wr st' b \<noteq> None"
  shows "dir_time rl st' b"
  using assms by (cases "d_pc (st_dir st b)") (auto simp: dir_time_def)

lemma dstep_time:
  assumes "dstep rl b st st'" and "time_inv rl st" and "rl_IdleTimeout rl > 0"
  shows "time_inv rl st'"
proof -
  have t: "st_lastMove st \<le> st_now st" "dir_time rl st b" "dir_time rl st (\<not> b)"
    and m: "st_rd st c = Some x \<or> st_wr st c = Some x \<Longrightarrow> x \<le> st_now st + max (rl_IdleTimeout rl) (rl_HalfCloseTimeout rl)" for c x
    using assms(2) by (auto simp: time_inv_def)
  have now: "st_now st' = st_now st" and mono: "st_rd st c \<noteq> None \<longrightarrow> st_rd st' c \<noteq> None" "st_wr st c \<noteq> None \<longrightarrow> st_wr st' c \<noteq> None" for c
    using assms(1) by (cases; auto simp: got_def wroteTo_def Let_def)+
  have "dir_time rl st' (\<not> b)"
    by (rule dir_time_mono [OF t(3) dstep_dir(1) [OF assms(1)]]) (use now mono in auto)
  moreover have "dir_time rl st' b"
    using assms(1) by cases (use t assms(3) readDeadline_le [of st rl] in \<open>auto simp: dir_time_def got_def wroteTo_def afterRead_def Let_def split: option.splits\<close>)
  moreover have "st_lastMove st' \<le> st_now st'"
    using assms(1) by cases (use t in \<open>auto simp: dir_time_def got_def wroteTo_def Let_def\<close>)
  moreover have "x \<le> st_now st' + max (rl_IdleTimeout rl) (rl_HalfCloseTimeout rl)" if "st_rd st' c = Some x \<or> st_wr st' c = Some x" for c x
    using assms(1)
  proof cases
    case (d_armed d)
    then show ?thesis using that t m [of c x] by (auto simp: dir_time_def split: if_splits)
  next
    case (d_writeDeadline n r z)
    then show ?thesis using that t m [of c x] by (auto simp: dir_time_def split: if_splits)
  next
    case (d_halfClient d)
    then show ?thesis using that t m [of c x] by (auto simp: dir_time_def split: if_splits)
  next
    case (d_halfTarget d)
    then show ?thesis using that t m [of c x] by (auto simp: dir_time_def split: if_splits)
  qed (use that m [of c x] in \<open>auto simp: got_def wroteTo_def Let_def split: if_splits\<close>)
  ultimately show ?thesis by (auto simp: time_inv_def all_bool_eq) (metis (full_types))+
qed

lemma rstep_time:
  assumes "rstep rl hc st st'" and "time_inv rl st" and "rl_IdleTimeout rl > 0"
  shows "time_inv rl st'"
  using assms(1)
proof cases
  case (r_dir b)
  then show ?thesis using dstep_time assms(2,3) by blast
next
  case (r_time t)
  then have "dir_time rl st' b" for b
    using dir_time_mono [of rl st b st'] assms(2) by (auto simp: time_inv_def)
  moreover have "x \<le> t + max (rl_IdleTimeout rl) (rl_HalfCloseTimeout rl)" if "st_rd st c = Some x \<or> st_wr st c = Some x" for c x
    using that assms(2) r_time(2) unfolding time_inv_def by (meson add_mono order_refl order_trans)
  ultimately show ?thesis using r_time assms(2) by (auto simp: time_inv_def)
next
  case r_panic
  then have "dir_time rl st' b" for b
    using dir_time_mono [of rl st True st'] assms(2) by (cases b) (auto simp: time_inv_def dir_time_def)
  then show ?thesis using r_panic assms(2) by (auto simp: time_inv_def)
next
  case (r_ctx e)
  have "dir_time rl st' b" for b using dir_time_mono [of rl st b st'] assms(2) r_ctx by (auto simp: time_inv_def)
  then show ?thesis using r_ctx assms(2) by (auto simp: time_inv_def)
next
  case (r_after e)
  have "dir_time rl st' b" for b using dir_time_mono [of rl st b st'] assms(2) r_after by (auto simp: time_inv_def)
  then show ?thesis using r_after assms(2) by (auto simp: time_inv_def)
next
  case r_return
  have "dir_time rl st' b" for b using dir_time_mono [of rl st b st'] assms(2) r_return by (auto simp: time_inv_def relay_return_def)
  then show ?thesis using r_return assms(2) by (auto simp: time_inv_def relay_return_def)
qed

interpretation relay_time: kept "rstep rl hc" "\<lambda>st. time_inv rl st \<and> rl_IdleTimeout rl > 0" "\<lambda>s t. True"
  by unfold_locales (auto intro: rstep_time)

text \<open>With an idle timeout no direction waits for ever: whenever one is in \<open>Read\<close> or \<open>Write\<close>, the conn has a deadline for that, at
  most the idle or the half-close timeout, whichever is longer, from now.\<close>

theorem relay_waits_bounded:
  assumes "(rstep rl hc)\<^sup>*\<^sup>* (relay0 rl now) st" and "rl_IdleTimeout rl > 0"
  shows "(d_pc (st_dir st b) = PRead \<longrightarrow> (\<exists>t. st_rd st b = Some t \<and> t \<le> st_now st + max (rl_IdleTimeout rl) (rl_HalfCloseTimeout rl)))
    \<and> (d_pc (st_dir st b) = PWrite m e \<longrightarrow> (\<exists>t. st_wr st b = Some t \<and> t \<le> st_now st + max (rl_IdleTimeout rl) (rl_HalfCloseTimeout rl)))"
proof -
  have "time_inv rl (relay0 rl now)" by (auto simp: time_inv_def relay0_def dir_time_def dir0_def assms(2))
  then have t: "time_inv rl st" using relay_time.inv_reach [OF assms(1)] assms(2) by blast
  then have b: "st_rd st b = Some x \<or> st_wr st b = Some x \<Longrightarrow> x \<le> st_now st + max (rl_IdleTimeout rl) (rl_HalfCloseTimeout rl)" for x
    unfolding time_inv_def by blast
  have "dir_time rl st b" using t by (simp add: time_inv_def)
  then show ?thesis using b by (auto simp: dir_time_def)
qed

section \<open>Timeouts that are exceeded\<close>

definition drelayer :: "int \<Rightarrow> relayer" where "drelayer half = \<lparr>rl_IdleTimeout = 100, rl_HalfCloseTimeout = half\<rparr>"

text \<open>The client ends with EOF at once, while the other direction is in its first read.\<close>

lemma half_closed_run:
  assumes "half > 0"
  shows "\<exists>st. (rstep (drelayer half) True)\<^sup>*\<^sup>* (relay0 (drelayer half) 0) st \<and> st_now st = 0 \<and> st_lastMove st = 0 \<and> st_halfCloseAt st = half
    \<and> d_pc (st_dir st False) = PRead \<and> st_rd st False = Some half \<and> d_pc (st_dir st True) = POver \<and> d_eof (st_dir st True)"
proof -
  let ?rl = "drelayer half"
  let ?R = "rstep ?rl True"
  have rl: "rl_IdleTimeout ?rl = 100" "rl_HalfCloseTimeout ?rl = half" by (simp_all add: drelayer_def)
  define s0 where "s0 = relay0 ?rl 0"
  define s1 where "s1 = goto False (PArmed (readDeadline ?rl s0)) s0"
  define s2 where "s2 = goto False PRead (s1\<lparr>st_rd := (st_rd s1)(False := Some (readDeadline ?rl s0))\<rparr>)"
  define s3 where "s3 = goto True (PArmed (readDeadline ?rl s2)) s2"
  define s4 where "s4 = goto True PRead (s3\<lparr>st_rd := (st_rd s3)(True := Some (readDeadline ?rl s2))\<rparr>)"
  define s5 where "s5 = got True [] (Some (ESent IoEOF)) s4"
  define s6 where "s6 = (let p = afterRead ?rl (Some (ESent IoEOF)) s5; t = goto True p s5
                   in if p = PEnd None then t\<lparr>st_dir := (st_dir t)(True := (st_dir t True)\<lparr>d_eof := True\<rparr>)\<rparr> else t)"
  define s7 where "s7 = goto True (PHalf half) s6"
  define s8 where "s8 = goto True (PHalfStored half) (s7\<lparr>st_halfCloseAt := half\<rparr>)"
  define s9 where "s9 = goto True (PHalfClient half) (setDeadline True half s8)"
  define s10 where "s10 = goto True PCloseWrite (setDeadline False half s9)"
  define s11 where "s11 = goto True POver s10"
  note i = s0_def s1_def s2_def s3_def s4_def
  have "afterRead ?rl (Some (ESent IoEOF)) s5 = PEnd None"
    by (simp add: afterRead_def otherDirectionMoved_def)
  then have s6: "s6 = goto True (PEnd None) s5\<lparr>st_dir := (st_dir (goto True (PEnd None) s5))(True := (st_dir (goto True (PEnd None) s5) True)\<lparr>d_eof := True\<rparr>)\<rparr>"
    by (simp add: s6_def Let_def)
  have "?R s0 s1" unfolding s1_def by (rule r_dir, rule d_deadline) (simp add: s0_def relay0_def dir0_def rl)
  moreover have "?R s1 s2" unfolding s2_def by (rule r_dir, rule d_armed) (simp add: s1_def)
  moreover have "?R s2 s3" unfolding s3_def by (rule r_dir, rule d_deadline) (simp add: s2_def s1_def s0_def relay0_def dir0_def rl)
  moreover have "?R s3 s4" unfolding s4_def by (rule r_dir, rule d_armed) (simp add: s3_def)
  moreover have "?R s4 s5" unfolding s5_def by (rule r_dir, rule d_reads) (simp_all add: s4_def)
  moreover have "?R s5 s6" unfolding s6_def by (rule r_dir, rule d_decide) (simp add: s5_def got_def Let_def)
  moreover have "?R s6 s7"
  proof -
    have "?R s6 (goto True (if rl_HalfCloseTimeout ?rl > 0 then PHalf (st_now s6 + rl_HalfCloseTimeout ?rl) else PCloseWrite) s6)"
      by (rule r_dir, rule d_ended) (simp add: s6)
    moreover have "st_now s6 = 0" by (simp add: s6 s5_def got_def Let_def i relay0_def)
    ultimately show ?thesis using assms rl by (simp add: s7_def)
  qed
  moreover have "?R s7 s8"
  proof -
    have "?R s7 (goto True (PHalfStored half) (if st_halfCloseAt s7 = 0 then s7\<lparr>st_halfCloseAt := half\<rparr> else s7))"
      by (rule r_dir, rule d_half) (simp add: s7_def)
    moreover have "st_halfCloseAt s7 = 0" by (simp add: s7_def s6 s5_def got_def Let_def i relay0_def)
    ultimately show ?thesis by (simp add: s8_def)
  qed
  moreover have "?R s8 s9" unfolding s9_def by (rule r_dir, rule d_halfClient) (simp add: s8_def)
  moreover have "?R s9 s10" unfolding s10_def by (rule r_dir, rule d_halfTarget) (simp add: s9_def)
  moreover have "?R s10 s11"
  proof -
    have "?R s10 (goto True POver (if True then s10 else (r_fail None s10)\<lparr>st_cut := True\<rparr>))"
      by (rule r_dir, rule d_closeWrite) (simp add: s10_def)
    then show ?thesis by (simp add: s11_def)
  qed
  ultimately have "?R\<^sup>*\<^sup>* s0 s11" by (meson rtranclp.rtrancl_refl rtranclp.rtrancl_into_rtrancl)
  moreover have "st_now s11 = 0 \<and> st_lastMove s11 = 0 \<and> st_halfCloseAt s11 = half \<and> d_pc (st_dir s11 False) = PRead \<and> st_rd s11 False = Some half
    \<and> d_pc (st_dir s11 True) = POver \<and> d_eof (st_dir s11 True)"
    by (simp add: s11_def s10_def s9_def s8_def s7_def s6 s5_def got_def Let_def i relay0_def)
  ultimately show ?thesis unfolding s0_def by blast
qed

text \<open>No byte moves for longer than \<open>IdleTimeout\<close>, and the read that waits has a deadline ten times as far: the half-close deadline
  has replaced its idle deadline.\<close>

lemma half_close_suspends_idle:
  "\<exists>st. (rstep (drelayer 1000) True)\<^sup>*\<^sup>* (relay0 (drelayer 1000) 0) st \<and> d_pc (st_dir st False) = PRead
    \<and> st_now st - st_lastMove st = 900 \<and> st_rd st False = Some 1000"
proof -
  obtain st where st: "(rstep (drelayer 1000) True)\<^sup>*\<^sup>* (relay0 (drelayer 1000) 0) st" "st_now st = 0" "st_lastMove st = 0"
    "d_pc (st_dir st False) = PRead" "st_rd st False = Some 1000"
    using half_closed_run [of 1000] by auto
  have "rstep (drelayer 1000) True st (st\<lparr>st_now := 900\<rparr>)" using st(2) by (intro r_time) simp
  with st(1) have "(rstep (drelayer 1000) True)\<^sup>*\<^sup>* (relay0 (drelayer 1000) 0) (st\<lparr>st_now := 900\<rparr>)" by (rule rtranclp.rtrancl_into_rtrancl)
  then show ?thesis using st by (intro exI [of _ "st\<lparr>st_now := 900\<rparr>"]) simp
qed

text \<open>The other way round: a write of the remaining direction may block until long after the half-close deadline, as it gets the idle one.\<close>

lemma write_exceeds_half_close:
  "\<exists>st m. (rstep (drelayer 10) True)\<^sup>*\<^sup>* (relay0 (drelayer 10) 0) st \<and> d_eof (st_dir st True) \<and> st_halfCloseAt st = 10
    \<and> d_pc (st_dir st False) = PWrite m None \<and> st_wr st False = Some 100"
proof -
  let ?R = "rstep (drelayer 10) True"
  obtain s0 where s0: "?R\<^sup>*\<^sup>* (relay0 (drelayer 10) 0) s0" "st_now s0 = 0" "st_halfCloseAt s0 = 10" "d_pc (st_dir s0 False) = PRead" "d_eof (st_dir s0 True)"
    using half_closed_run [of 10] by auto
  have rl: "rl_IdleTimeout (drelayer 10) = 100" by (simp add: drelayer_def)
  define s1 where "s1 = got False [7] None s0"
  define s2 where "s2 = goto False (PNow [7] None 0) s1"
  define s3 where "s3 = goto False (PStored [7] None 0) (s2\<lparr>st_lastMove := 0\<rparr>)"
  define s4 where "s4 = goto False (PWrite [7] None) (s3\<lparr>st_wr := (st_wr s3)(False := Some (0 + rl_IdleTimeout (drelayer 10)))\<rparr>)"
  have "?R s0 s1" unfolding s1_def by (rule r_dir, rule d_reads) (simp_all add: s0)
  moreover have "?R s1 s2"
  proof -
    have "?R s1 (goto False (if rl_IdleTimeout (drelayer 10) > 0 then PNow [7] None (st_now s1) else PWrite [7] None) s1)"
      by (rule r_dir, rule d_now) (simp add: s1_def got_def Let_def)
    then show ?thesis using rl s0(2) by (simp add: s2_def s1_def got_def Let_def)
  qed
  moreover have "?R s2 s3" unfolding s3_def by (rule r_dir, rule d_store) (simp add: s2_def)
  moreover have "?R s3 s4" unfolding s4_def by (rule r_dir, rule d_writeDeadline) (simp add: s3_def)
  ultimately have "?R\<^sup>*\<^sup>* (relay0 (drelayer 10) 0) s4" using s0(1) by (meson rtranclp.rtrancl_into_rtrancl)
  moreover have "d_eof (st_dir s4 True)" "st_halfCloseAt s4 = 10" "d_pc (st_dir s4 False) = PWrite [7] None" "st_wr s4 False = Some 100"
    using s0 rl by (simp_all add: s4_def s3_def s2_def s1_def got_def Let_def)
  ultimately show ?thesis by blast
qed

section \<open>Witnesses\<close>

lemma relay_copies_in_order_witness: "\<exists>st :: rstate. d_eof (st_dir st True) \<and> d_written (st_dir st True) = d_read (st_dir st True)"
proof -
  obtain st where st: "(rstep (drelayer 10) True)\<^sup>*\<^sup>* (relay0 (drelayer 10) 0) st" "d_eof (st_dir st True)"
    using half_closed_run [of 10] by auto
  obtain x where "d_read (st_dir st True) = d_written (st_dir st True) @ x" "d_eof (st_dir st True) \<longrightarrow> x = []"
    using relay_copies_in_order [OF st(1), THEN conjunct1] by blast
  then show ?thesis using st(2) by (intro exI [of _ st]) simp
qed

lemma relay_waits_bounded_witness: "\<exists>(st :: rstate) t. d_pc (st_dir st False) = PRead \<and> st_rd st False = Some t \<and> t \<le> st_now st + 100"
proof -
  obtain st where st: "(rstep (drelayer 10) True)\<^sup>*\<^sup>* (relay0 (drelayer 10) 0) st" "d_pc (st_dir st False) = PRead"
    using half_closed_run [of 10] by auto
  obtain t where "st_rd st False = Some t" "t \<le> st_now st + 100"
    using relay_waits_bounded [OF st(1), of False "[]" None] st(2) by (auto simp: drelayer_def)
  then show ?thesis using st(2) by blast
qed

end
