(* ===== verification/WireComplete.thy ===== *)
theory WireComplete
  imports WireParse
begin

text \<open>
  The rest of the Parse contract of \<open>doc.go\<close>, beside the locales of \<open>WireParse\<close>: bytes that are called incomplete
  are a valid prefix, so an error in the bytes that are there is never hidden behind incompleteness; and every
  other error is a \<open>*ProtocolError\<close>.
\<close>

section \<open>The interface\<close>

text \<open>The bytes so far may still become a message.\<close>

definition going :: "(bytes \<Rightarrow> 'a \<times> nat \<times> error option) \<Rightarrow> bytes \<Rightarrow> bool" where
  "going parse b = (case parse b of (v, n, None) \<Rightarrow> True | (v, n, Some e) \<Rightarrow> is_incomplete e)"

locale complete_parse = bounded_parse +
  assumes one_more: "parse b = (v, n, Some e) \<Longrightarrow> is_incomplete e \<Longrightarrow> \<exists>c. going parse (b @ [c])"
    and err_protocol: "parse b = (v, n, Some e) \<Longrightarrow> \<not> is_incomplete e \<Longrightarrow> \<exists>st f g h u. e = EProtocol st f g h u"
begin

text \<open>One byte that goes on after another makes a message in the end, for an incomplete one is never longer
  than \<open>maxlen\<close>.\<close>

lemma going_completes: "going parse b \<Longrightarrow> \<exists>x v n. parse (b @ x) = (v, n, None)"
proof (induction "Suc maxlen - length b" arbitrary: b rule: less_induct)
  case less
  obtain v n r where p: "parse b = (v, n, r)" by (cases "parse b")
  show ?case
  proof (cases r)
    case None
    then have "parse (b @ []) = (v, n, None)" using p by simp
    then show ?thesis by blast
  next
    case (Some e)
    then have i: "is_incomplete e" using less.prems p by (simp add: going_def)
    have "length b < maxlen" using inc_len [OF p [unfolded Some] i] inc_max [OF p [unfolded Some] i] by simp
    obtain c where c: "going parse (b @ [c])" using one_more [OF p [unfolded Some] i] by blast
    have "Suc maxlen - length (b @ [c]) < Suc maxlen - length b" using \<open>length b < maxlen\<close> by simp
    from less.hyps [OF this c] obtain x w m where "parse ((b @ [c]) @ x) = (w, m, None)" by blast
    then have "parse (b @ c # x) = (w, m, None)" by simp
    then show ?thesis by blast
  qed
qed

lemma inc_valid_prefix: "parse b = (v, n, Some e) \<Longrightarrow> is_incomplete e \<Longrightarrow> \<exists>x w m. parse (b @ x) = (w, m, None)"
  using going_completes [of b] by (simp add: going_def)

end

section \<open>Greeting, user and password\<close>

lemma protocol_error: "\<exists>st' f' g' h' u'. EProtocol st f g h u = EProtocol st' f' g' h' u'"
  by blast

lemma checkVersion_protocol: "checkVersion b v st = Some e \<Longrightarrow> \<exists>st f g h u. e = EProtocol st f g h u"
  by (auto simp: checkVersion_def split: if_splits)

lemma going_greeting:
  "going (ParseGreeting dst) b \<longleftrightarrow> (b = [] \<or> b ! 0 = Version5) \<and> (2 \<le> length b \<longrightarrow> b ! 1 \<noteq> 0)"
  by (auto simp: going_def ParseGreeting_def checkVersion_def Let_def)

interpretation greeting: complete_parse "ParseGreeting dst" "2 + 255"
proof
  fix b v n e
  assume p: "ParseGreeting dst b = (v, n, Some e)"
  show "\<exists>c. going (ParseGreeting dst) (b @ [c])" if "is_incomplete e"
  proof -
    have g: "going (ParseGreeting dst) b" using p that by (simp add: going_def)
    have "going (ParseGreeting dst) (b @ [if b = [] then Version5 else 1])"
      using g unfolding going_greeting by (cases b; cases "tl b") (auto simp: nth_append nth_Cons')
    then show ?thesis by blast
  qed
  show "\<exists>st f g h u. e = EProtocol st f g h u" if "\<not> is_incomplete e"
    using p that by (cases rule: ParseGreeting_err_cases) (auto dest: checkVersion_protocol)
qed

lemma going_userpass: "going ParseUserPass b \<longleftrightarrow> b = [] \<or> b ! 0 = UserPassVersion"
  by (auto simp: going_def ParseUserPass_def checkVersion_def Let_def)

interpretation userpass: complete_parse ParseUserPass "3 + 255 + 255"
proof
  fix b v n e
  assume p: "ParseUserPass b = (v, n, Some e)"
  show "\<exists>c. going ParseUserPass (b @ [c])" if "is_incomplete e"
  proof -
    have "going ParseUserPass b" using p that by (simp add: going_def)
    then have "going ParseUserPass (b @ [UserPassVersion])" unfolding going_userpass by (cases b) auto
    then show ?thesis by blast
  qed
  show "\<exists>st f g h u. e = EProtocol st f g h u" if "\<not> is_incomplete e"
    using p that by (cases rule: ParseUserPass_err_cases) (auto dest: checkVersion_protocol)
qed

section \<open>Address messages\<close>

lemma going_addr:
  "going (\<lambda>b. parseAddrMessage b st z) b \<longleftrightarrow>
     (4 \<le> length b \<longrightarrow> b ! 3 \<in> {ATYPIPv4, ATYPIPv6, ATYPDomain} \<or> b ! 3 = 0 \<and> z)
   \<and> (5 \<le> length b \<and> b ! 3 = ATYPDomain \<longrightarrow> b ! 4 \<noteq> 0)"
  by (auto simp: going_def parseAddrMessage_def addrMessageLen_def throughDomainLen_def atyp_defs Let_def)

lemma complete_parseAddrMessage: "complete_parse (\<lambda>b. parseAddrMessage b st z) 262"
proof (intro complete_parse.intro bounded_parseAddrMessage complete_parse_axioms.intro)
  fix b v n e
  assume p: "parseAddrMessage b st z = (v, n, Some e)"
  show "\<exists>c. going (\<lambda>b. parseAddrMessage b st z) (b @ [c])" if "is_incomplete e"
  proof -
    have g: "going (\<lambda>b. parseAddrMessage b st z) b" using p that by (simp add: going_def)
    have "going (\<lambda>b. parseAddrMessage b st z) (b @ [1])"
      using g unfolding going_addr by (auto simp: nth_append atyp_defs)
    then show ?thesis by blast
  qed
  show "\<exists>st f g h u. e = EProtocol st f g h u" if "\<not> is_incomplete e"
    using p that by (cases rule: parseAddrMessage_err_cases) (auto elim!: addrMessageLen_Inl)
qed

lemma complete_parse_versioned:
  assumes p: "complete_parse p L" and b: "bounded_parse parse L"
    and parse: "\<And>b. parse b =
      (case checkVersion b ver st of
         Some e \<Rightarrow> (d, 0, Some e)
       | None \<Rightarrow> (case p b of (a, n, Some e) \<Rightarrow> (g b a, n, Some e) | (a, n, None) \<Rightarrow> (f b a, n, None)))"
    and one: "going p [ver]"
  shows "complete_parse parse L"
proof (intro complete_parse.intro b complete_parse_axioms.intro)
  have go: "going parse b \<longleftrightarrow> (b = [] \<or> b ! 0 = ver) \<and> going p b" for b
    by (auto simp: going_def parse checkVersion_def split: prod.splits option.splits)
  fix b v n e
  assume q: "parse b = (v, n, Some e)"
  show "\<exists>c. going parse (b @ [c])" if i: "is_incomplete e"
  proof (cases "b = []")
    case True
    then have "going parse (b @ [ver])" using one by (simp add: go)
    then show ?thesis by blast
  next
    case False
    have "going parse b" using q i by (simp add: going_def)
    then have v: "b ! 0 = ver" using False by (simp add: go)
    then obtain a where "p b = (a, n, Some e)" using q by (auto simp: parse checkVersion_def split: prod.splits option.splits)
    then obtain c where "going p (b @ [c])" using complete_parse.one_more [OF p _ i] by blast
    then show ?thesis using v False by (auto simp: go nth_append)
  qed
  show "\<exists>st f g h u. e = EProtocol st f g h u" if i: "\<not> is_incomplete e"
    using q complete_parse.err_protocol [OF p _ i]
    by (auto simp: parse split: prod.splits option.splits dest: checkVersion_protocol)
qed

interpretation request: complete_parse ParseRequest 262
  by (rule complete_parse_versioned [OF complete_parseAddrMessage request.bounded_parse_axioms,
        where f = "\<lambda>b a. (b ! 1, a)" and g = "\<lambda>b a. (0, zeroAddr)"])
    (auto simp: ParseRequest_def going_addr intro: split: option.splits prod.splits)

interpretation reply: complete_parse "\<lambda>b. ParseReply b cmd" 262
  by (rule complete_parse_versioned [OF complete_parseAddrMessage reply.bounded_parse_axioms ParseReply_alt])
    (simp add: going_addr)

interpretation udp_header: complete_parse ParseUDPHeader 262
proof
  have go: "going ParseUDPHeader b \<longleftrightarrow> going (\<lambda>b. parseAddrMessage b StageUDPHeader False) b" for b
    by (auto simp: going_def ParseUDPHeader_def split: prod.splits option.splits)
  fix b v n e
  assume "ParseUDPHeader b = (v, n, Some e)"
  then obtain a where a: "parseAddrMessage b StageUDPHeader False = (a, n, Some e)"
    by (auto simp: ParseUDPHeader_def split: prod.splits option.splits)
  show "\<exists>c. going ParseUDPHeader (b @ [c])" if "is_incomplete e"
    using complete_parse.one_more [OF complete_parseAddrMessage a that] by (simp add: go)
  show "\<exists>st f g h u. e = EProtocol st f g h u" if "\<not> is_incomplete e"
    using complete_parse.err_protocol [OF complete_parseAddrMessage a that] .
qed

section \<open>Messages of a fixed length\<close>

lemma complete_parse_fixed:
  assumes b: "bounded_parse parse k"
    and parse: "\<And>b. parse b =
      (case checkVersion b ver st of
         Some e \<Rightarrow> (d, 0, Some e)
       | None \<Rightarrow> if length b < k then (g b, k, Some (ESent ErrIncomplete)) else (f b, k, None))"
  shows "complete_parse parse k"
proof (intro complete_parse.intro b complete_parse_axioms.intro)
  have go: "going parse b \<longleftrightarrow> b = [] \<or> b ! 0 = ver" for b
    by (auto simp: going_def parse checkVersion_def)
  fix b v n e
  assume q: "parse b = (v, n, Some e)"
  show "\<exists>c. going parse (b @ [c])" if "is_incomplete e"
  proof -
    have "going parse b" using q that by (simp add: going_def)
    then have "going parse (b @ [ver])" unfolding go by (cases b) auto
    then show ?thesis by blast
  qed
  show "\<exists>st f g h u. e = EProtocol st f g h u" if "\<not> is_incomplete e"
    using q that by (auto simp: parse split: option.splits if_splits dest: checkVersion_protocol)
qed

interpretation method_selection: complete_parse ParseMethodSelection 2
  by (rule complete_parse_fixed [OF method_selection.bounded_parse_axioms])
    (simp add: ParseMethodSelection_def)

interpretation userpass_status: complete_parse ParseUserPassStatus 2
  by (rule complete_parse_fixed [OF userpass_status.bounded_parse_axioms])
    (simp add: ParseUserPassStatus_def)

interpretation reply4: complete_parse ParseReply4 8
  by (rule complete_parse_fixed [OF reply4.bounded_parse_axioms, where ver = 0 and st = StageReply4 and d = "(0, zeroAddr)"
        and f = "\<lambda>b. (b ! 1, ipAddr (AddrFrom4 (slice 4 8 b)) (word_of_be (slice 2 4 b)))"
        and g = "\<lambda>b. (if length b > 1 then b ! 1 else 0, zeroAddr)"])
    (auto simp: ParseReply4_def Let_def reply4Len_def split: option.split)

section \<open>SOCKS4 requests\<close>

lemma cstring_err_protocol:
  "cstring b s f ml af = (v, n, Some e) \<Longrightarrow> \<not> is_incomplete e \<Longrightarrow> \<exists>st f g h u. e = EProtocol st f g h u"
  by (erule cstring_err_cases) auto

text \<open>A text that is not finished may be ended, after a byte where one is asked for.\<close>

lemma cstring_one_more:
  assumes "cstring b s f ml af = (v, n, Some e)" and "is_incomplete e" and "s \<le> length b" and "ml \<le> 1"
  shows "\<exists>c. going (\<lambda>b. cstring b s f ml af) (b @ [c])"
  using assms(1)
proof (cases rule: cstring_err_cases)
  case short
  let ?c = "if ml \<le> length b - s then 0 else 1"
  have i: "index0 (drop s (b @ [?c])) = map_option ((+) (length b - s)) (index0 [?c])"
    using index0_append_None [OF short(2), of "[?c]"] assms(3) by simp
  have "going (\<lambda>b. cstring b s f ml af) (b @ [?c])"
    using i short(3) assms(4) by (auto simp: going_def cstring_def index0_def split: if_splits)
  then show ?thesis by blast
qed (use assms(2) in auto)

lemma going_request4:
  assumes "8 \<le> length b" and "b ! 0 = Version4" and "af = (if is4a b then 2 else 0)"
    and "going (\<lambda>b. cstring b 8 FieldUSERID 0 af) b"
    and "\<And>u k. cstring b 8 FieldUSERID 0 af = (u, k, None) \<Longrightarrow> is4a b \<Longrightarrow> going (\<lambda>b. cstring b k FieldADDR 1 0) b"
  shows "going ParseRequest4 b"
proof -
  have "checkVersion b Version4 StageRequest4 = None" using assms(2) by (simp add: checkVersion_def)
  obtain u k r where c: "cstring b 8 FieldUSERID 0 af = (u, k, r)" by (cases "cstring b 8 FieldUSERID 0 af")
  then show ?thesis
    using assms by (cases r) (auto simp: going_def ParseRequest4_def checkVersion_def Let_def split: prod.splits option.splits)
qed

lemma cstring_at_end: "going (\<lambda>b. cstring b s f ml af) b" if "length b \<le> s"
  using that by (simp add: going_def cstring_def index0_def)

interpretation request4: complete_parse ParseRequest4 520
proof
  fix b v n e
  assume p: "ParseRequest4 b = (v, n, Some e)"
  show "\<exists>c. going ParseRequest4 (b @ [c])" if i: "is_incomplete e"
    using p
  proof (cases rule: ParseRequest4_err_cases)
    case short
    let ?c = "if b = [] then Version4 else 1"
    have "checkVersion b Version4 StageRequest4 = None"
      using p i by (auto simp: ParseRequest4_def split: option.splits dest: checkVersion_SomeD)
    then have v: "(b @ [?c]) ! 0 = Version4" by (cases b) (auto simp: checkVersion_def split: if_splits)
    have "going ParseRequest4 (b @ [?c])"
    proof (cases "length b = 7")
      case True
      then show ?thesis
        using v by (intro going_request4 [OF _ _ refl]) (auto simp: cstring_ok_iff index0_def cstring_at_end)
    next
      case False
      then show ?thesis using v short(1) by (simp add: going_def ParseRequest4_def checkVersion_def)
    qed
    then show ?thesis by blast
  next
    case version
    then show ?thesis using i by (auto dest: checkVersion_SomeD)
  next
    case (userid u)
    obtain c where c: "going (\<lambda>x. cstring x 8 FieldUSERID 0 (if is4a b then 2 else 0)) (b @ [c])"
      using cstring_one_more [OF userid(3) i userid(1)] by blast
    have s: "index0 (drop 8 b) = None"
      using userid(3) i by (auto elim: cstring_err_cases)
    have "going (\<lambda>b. cstring b k FieldADDR 1 0) (b @ [c])"
      if ok: "cstring (b @ [c]) 8 FieldUSERID 0 af = (x, k, None)" for af x k
    proof (rule cstring_at_end)
      obtain j where "index0 (drop 8 b @ [c]) = Some j" "k = 8 + j + 1"
        using ok userid(1) by (auto simp: cstring_ok_iff)
      then show "length (b @ [c]) \<le> k"
        using index0_append_None [OF s, of "[c]"] userid(1) by auto
    qed
    then have "going ParseRequest4 (b @ [c])"
      using userid(1,2) c is4a_append(1) [OF userid(1), of "[c]"]
      by (intro going_request4 [where af = "if is4a b then 2 else 0"]) (auto simp: nth_append)
    then show ?thesis by blast
  next
    case (name u k nm)
    have k: "k \<le> length b" using cstring_ok_len [OF name(4)] by simp
    obtain c where c: "going (\<lambda>b. cstring b k FieldADDR 1 0) (b @ [c])"
      using cstring_one_more [OF name(5) i k] by auto
    have "is4a (b @ [c])" using name(1,3) is4a_append(1) by blast
    then have "going ParseRequest4 (b @ [c])"
      using name(1,2) c cstring_ok_append [OF name(4), of "[c]"]
      by (intro going_request4 [where af = 2]) (auto simp: nth_append going_def)
    then show ?thesis by blast
  qed
  show "\<exists>st f g h u. e = EProtocol st f g h u" if i: "\<not> is_incomplete e"
    using p
  proof (cases rule: ParseRequest4_err_cases)
    case version
    then show ?thesis by (auto dest: checkVersion_protocol)
  next
    case (userid u)
    then show ?thesis using cstring_err_protocol i by blast
  next
    case (name u k nm)
    then show ?thesis using cstring_err_protocol i by blast
  qed (use i in simp)
qed

end
