(* ===== verification/WireProps.thy ===== *)
theory WireProps
  imports WireRoundtrip WireComplete WireRead ServerErrors ClientErrors
begin

text \<open>
  What the wire package promises as a whole: the Parse contract for every parser, the round trips
  between the \<open>Append\<close> and \<open>Parse\<close> functions, and the \<open>Read\<close> functions.
\<close>

section \<open>Parsing\<close>

text \<open>The contract of \<open>doc.go\<close> for one parser whose messages have at most \<open>L\<close> bytes.\<close>

definition parse_safe :: "(bytes \<Rightarrow> 'a \<times> nat \<times> error option) \<Rightarrow> nat \<Rightarrow> bool" where
  "parse_safe parse L =
     (\<forall>b. case parse b of
        (v, n, None) \<Rightarrow>
          0 < n \<and> n \<le> length b \<and> n \<le> L \<and> (\<forall>x. parse (take n b @ x) = (v, n, None))
          \<and> (\<forall>k<n. \<exists>w m e. parse (take k b) = (w, m, Some e) \<and> is_incomplete e \<and> k < m \<and> m \<le> n)
      | (v, n, Some e) \<Rightarrow>
          if is_incomplete e
          then length b < n \<and> n \<le> L
            \<and> (\<exists>x w m. parse (b @ x) = (w, m, None)) \<and> (\<forall>x w m. parse (b @ x) = (w, m, None) \<longrightarrow> n \<le> m)
          else n = 0 \<and> (\<exists>st f got hint cause. e = EProtocol st f got hint cause)
            \<and> (\<forall>x. \<exists>w. parse (b @ x) = (w, 0, Some e)))"

context complete_parse
begin

lemma contract: "parse_safe parse maxlen"
proof -
  have ok: "0 < n \<and> n \<le> length b \<and> n \<le> maxlen \<and> (\<forall>x. parse (take n b @ x) = (v, n, None))
      \<and> (\<forall>k<n. \<exists>w m e. parse (take k b) = (w, m, Some e) \<and> is_incomplete e \<and> k < m \<and> m \<le> n)"
    if p: "parse b = (v, n, None)" for b v n
  proof (intro conjI allI impI)
    fix k assume k: "k < n"
    obtain w m e where q: "parse (take k b) = (w, m, Some e)" "is_incomplete e" "m \<le> n"
      using proper_prefix_incomplete [OF p k] by blast
    have "length (take k b) < m" using inc_len [OF q(1,2)] .
    then have "k < m" using k ok_len [OF p] by simp
    then show "\<exists>w m e. parse (take k b) = (w, m, Some e) \<and> is_incomplete e \<and> k < m \<and> m \<le> n" using q by blast
  qed (use ok_len [OF p] ok_max [OF p] ok_prefix [OF p] in auto)
  have inc: "length b < n \<and> n \<le> maxlen
      \<and> (\<exists>x w m. parse (b @ x) = (w, m, None)) \<and> (\<forall>x w m. parse (b @ x) = (w, m, None) \<longrightarrow> n \<le> m)"
    if "parse b = (v, n, Some e)" and "is_incomplete e" for b v n e
    using inc_len [OF that] inc_max [OF that] inc_valid_prefix [OF that] inc_bound [OF that] by blast
  have err: "n = 0 \<and> (\<exists>st f got hint cause. e = EProtocol st f got hint cause) \<and> (\<forall>x. \<exists>w. parse (b @ x) = (w, 0, Some e))"
    if "parse b = (v, n, Some e)" and "\<not> is_incomplete e" for b v n e
    using err_protocol [OF that] err_final [OF that] by blast
  show ?thesis unfolding parse_safe_def by (auto split: prod.splits option.splits dest: ok inc err)
qed

end

text \<open>C14: Every parser of the package keeps the Parse contract of \<open>doc.go\<close>. A message is recognised from its own bytes
  alone, whatever follows; less than the whole message is incomplete. What is incomplete is a valid prefix of a
  message, so an error in the bytes that are there wins over incompleteness; the length asked for is more than what
  is there, and not more than any message that begins so, nor than the largest one: a reader that reads what it is
  asked for never reads past the message and never overruns its buffer. Any other error is a
  \<open>*ProtocolError\<close>, has length 0, and is final: no further bytes change it.\<close>

theorem parsers_keep_contract:
  "parse_safe (ParseGreeting dst) 257 \<and> parse_safe ParseUserPass 513 \<and> parse_safe ParseRequest 262
   \<and> parse_safe ParseRequest4 520 \<and> parse_safe ParseMethodSelection 2 \<and> parse_safe ParseUserPassStatus 2
   \<and> parse_safe (\<lambda>b. ParseReply b cmd) 262 \<and> parse_safe ParseReply4 8 \<and> parse_safe ParseUDPHeader 262"
  using greeting.contract [of dst] userpass.contract request.contract request4.contract
    method_selection.contract userpass_status.contract reply.contract [of cmd] reply4.contract udp_header.contract
  by simp

text \<open>C15: The \<open>Read\<close> functions do what one parse of all that the stream will ever give does, however the bytes
  come in: on success what is left on the stream is exactly what follows the message; on a final error
  they return it; and a stream that ends inside a message is a truncation. They always return.\<close>

theorem read_functions_read_one_message:
  "reads_as (ParseGreeting []) StageGreeting ReadGreeting \<and>
   reads_as ParseUserPass StageUserPass ReadUserPass \<and>
   reads_as ParseRequest StageRequest ReadRequest \<and>
   reads_as ParseMethodSelection StageMethodSelection ReadMethodSelection \<and>
   reads_as ParseUserPassStatus StageUserPassStatus ReadUserPassStatus \<and>
   reads_as (\<lambda>b. ParseReply b cmd) StageReply (\<lambda>s. ReadReply s cmd) \<and>
   reads_as ParseRequest4 StageRequest4 ReadRequest4 \<and>
   reads_as ParseReply4 StageReply4 ReadReply4"
  using greeting.reads_as_wire_read [of "[]" StageGreeting]
    userpass.reads_as_wire_read [of StageUserPass] request.reads_as_wire_read [of StageRequest]
    method_selection.reads_as_wire_read [of StageMethodSelection]
    userpass_status.reads_as_wire_read [of StageUserPassStatus]
    reply.reads_as_wire_read [of cmd StageReply] request4.reads_as_wire_read [of StageRequest4]
    reply4.reads_as_wire_read [of StageReply4]
  by (simp add: ReadGreeting_def [abs_def] ReadUserPass_def [abs_def] ReadRequest_def [abs_def]
      ReadMethodSelection_def [abs_def] ReadUserPassStatus_def [abs_def] ReadReply_def [abs_def]
      ReadRequest4_def [abs_def] ReadReply4_def [abs_def] maxGreetingLen_def maxUserPassLen_def
      maxRequest4Len_def MaxReplyLen_262 reply4Len_def)

section \<open>Round trips\<close>

text \<open>C16: What a client encodes, a server reads back: the greeting's methods, the user name and password, the
  command and address of a SOCKS5 request, and those and the user id of a SOCKS4 or 4a request. The encoding is appended to what the
  buffer holds, and whatever follows it is left alone.\<close>

theorem client_messages_roundtrip:
  assumes "addr_wf a"
  shows "(AppendGreeting dst ms = (d1, None) \<longrightarrow>
      (\<exists>m. d1 = dst @ m \<and> ParseGreeting [] (m @ x) = (ms, length m, None)))
    \<and> (AppendUserPass dst u p = (d2, None) \<longrightarrow>
      (\<exists>m. d2 = dst @ m \<and> ParseUserPass (m @ x) = ((bytes_of u, bytes_of p), length m, None)))
    \<and> (AppendRequest dst cmd a = (d3, None) \<longrightarrow>
      (\<exists>m. d3 = dst @ m \<and> ParseRequest (m @ x) = ((cmd, a), length m, None)))
    \<and> (AppendRequest4 dst cmd a u = (d4, None) \<longrightarrow>
      (\<exists>m. d4 = dst @ m \<and> ParseRequest4 (m @ x) = ((cmd, a, bytes_of u), length m, None)))"
  using greeting_roundtrip [of dst ms d1 "[]" x] userpass_roundtrip [of dst u p d2 x]
    request_roundtrip [of dst cmd a d3 x] request4_roundtrip [of dst cmd a u d4 x] assms
  by auto

lemma client_messages_roundtrip_witness:
  "\<exists>m. fst (AppendRequest [7] CmdConnect (ipAddr (IP4 0x01020304) 80)) = [7] @ m
     \<and> ParseRequest (m @ [9]) = ((CmdConnect, ipAddr (IP4 0x01020304) 80), length m, None)"
proof -
  have wf: "addr_wf (ipAddr (IP4 0x01020304) 80)"
    by (simp add: addr_wf_def ipAddr_def)
  have "AppendRequest [7] CmdConnect (ipAddr (IP4 0x01020304) 80)
      = (fst (AppendRequest [7] CmdConnect (ipAddr (IP4 0x01020304) 80)), None)"
    by (simp add: AppendRequest_def appendAddrMessage_def ipAddr_def addr_IsValid_def)
  then show ?thesis
    using client_messages_roundtrip [OF wf, of "[7]" "[]" _ "[9]" "[]" "[]" _ CmdConnect _ _] by blast
qed

text \<open>C17: What a server encodes, a client reads back: the method selection, the password status, the reply
  with its bound address (for any command), the SOCKS4 reply, whose invalid bound is sent as 0.0.0.0, and the
  header of a UDP datagram, which is as long as \<open>UDPHeaderLen\<close> says.\<close>

theorem server_messages_roundtrip:
  assumes "addr_wf a"
  shows "(\<exists>s. AppendMethodSelection dst meth = dst @ s \<and> ParseMethodSelection (s @ x) = (meth, length s, None))
    \<and> (\<exists>s. AppendUserPassStatus dst st = dst @ s \<and> ParseUserPassStatus (s @ x) = (st, length s, None))
    \<and> (AppendReply dst rep a = (d1, None) \<longrightarrow>
      (\<exists>m. d1 = dst @ m \<and> ParseReply (m @ x) cmd = ((rep, a), length m, None)))
    \<and> (AppendReply4 dst rep a = (d2, None) \<longrightarrow>
      (\<exists>m. d2 = dst @ m \<and> length m = 8 \<and> (\<exists>b. ParseReply4 (m @ x) = ((rep, b), 8, None) \<and>
        Port_of b = Port_of a \<and> IP_of b = (if ip_IsValid (IP_of a) then IP_of a else IP4 0))))
    \<and> (AppendUDPHeader dst frag a = (d3, None) \<longrightarrow>
      (\<exists>m. d3 = dst @ m \<and> length m = UDPHeaderLen a \<and> ParseUDPHeader (m @ x) = ((frag, a), length m, None)))"
  using method_selection_roundtrip [of dst meth x] userpass_status_roundtrip [of dst st x]
    reply_roundtrip [of dst rep a d1 x cmd] reply4_roundtrip [of dst rep a d2 x]
    udp_header_roundtrip [of dst frag a d3 x] assms
  by auto

lemma server_messages_roundtrip_witness:
  "\<exists>m. fst (AppendReply [7] ReplySucceeded (ipAddr (IP4 0x01020304) 80)) = [7] @ m
     \<and> ParseReply (m @ [9]) CmdConnect = ((ReplySucceeded, ipAddr (IP4 0x01020304) 80), length m, None)"
proof -
  have wf: "addr_wf (ipAddr (IP4 0x01020304) 80)"
    by (simp add: addr_wf_def ipAddr_def)
  have "AppendReply [7] ReplySucceeded (ipAddr (IP4 0x01020304) 80)
      = (fst (AppendReply [7] ReplySucceeded (ipAddr (IP4 0x01020304) 80)), None)"
    by (simp add: AppendReply_def appendAddrMessage_def ipAddr_def addr_IsValid_def)
  then show ?thesis
    using server_messages_roundtrip [OF wf, of "[7]" 0 "[9]" 0 ReplySucceeded _ CmdConnect] by blast
qed

text \<open>C18: Whatever bytes a server accepts as a request or a datagram, the address it hands on is valid and in the
  form the program compares (an IP without zone and not a mapped IPv4, or a name of 1 to 255 bytes), and
  a SOCKS4 user id has at most 255 bytes and no NUL.\<close>

theorem parsed_addresses_are_valid:
  "(ParseRequest b = ((cmd, a), n, None) \<longrightarrow> addr_wf a \<and> addr_IsValid a)
   \<and> (ParseRequest4 b = ((cmd, a, u), n, None) \<longrightarrow>
        addr_wf a \<and> addr_IsValid a \<and> \<not> Is6 (IP_of a) \<and> length u \<le> 255 \<and> 0 \<notin> set u)
   \<and> (ParseReply b cmd = ((rep, a), n, None) \<longrightarrow> addr_wf a)
   \<and> (ParseUDPHeader b = ((frag, a), n, None) \<longrightarrow> addr_wf a \<and> addr_IsValid a)"
  using ParseRequest_wf ParseRequest4_wf ParseReply_wf ParseUDPHeader_wf by blast

lemma parsed_addresses_are_valid_witness:
  "\<exists>a. ParseUDPHeader [0, 0, 0, 1, 1, 2, 3, 4, 0, 80, 7] = ((0, a), 10, None) \<and> addr_IsValid a"
proof -
  have "\<exists>a. ParseUDPHeader [0, 0, 0, 1, 1, 2, 3, 4, 0, 80, 7] = ((0, a), 10, None)"
    by (simp add: ParseUDPHeader_def parseAddrMessage_def addrMessageLen_def addrAt_def atyp_defs)
  then show ?thesis
    using parsed_addresses_are_valid [of "[0, 0, 0, 1, 1, 2, 3, 4, 0, 80, 7]" 0 _ 10 "[]" 0 0] by blast
qed

end
