(* ===== verification/FailureReplies.thy ===== *)
theory FailureReplies
  imports ServerServe WireProps
begin

text \<open>
  What a client learns of a failure: from the error of a handler or of \<open>Allow\<close> through \<open>ReplyFor\<close> and
  \<open>fallbackReply\<close> to the bytes on the wire, and from these through the client's parser to its error.
\<close>

section \<open>The bytes of a fallback reply\<close>

lemma zeroBound_wf: "addr_wf zeroBound"
  by (simp_all add: zeroBound_def AddrFromAddrPort_plain addr_wf_def ipAddr_def)

lemma fallbackReply_wrote:
  assumes "live c" and "writable c"
  shows "\<exists>c' m rep. fallbackReply cf err c = (c', True) \<and> written (net c') = written (net c) @ m
    \<and> rep = (if isSuccess (ReplyFor err) then ReplyGeneralFailure else ReplyFor err)
    \<and> appendReply (rq_Version (req c)) [] rep zeroAddr = (m, None)"
proof -
  let ?rep = "if isSuccess (ReplyFor err) then ReplyGeneralFailure else ReplyFor err"
  obtain m where m: "appendReply (rq_Version (req c)) [] ?rep zeroAddr = (m, None)"
    using appendReply_ok [of zeroAddr "rq_Version (req c)" "[]" ?rep] by auto
  have w: "(case writes c of [] \<Rightarrow> None | x # xs \<Rightarrow> x) = None"
    using assms(2) by (cases "writes c") (auto simp: writable_def)
  have "\<exists>c'. fallbackReply cf err c = (c', True) \<and> written (net c') = written (net c) @ m"
    using assms(1) m w
    by (auto simp: fallbackReply_def Let_def writeReply_def live_def net_write_def wrote_def net_op_def hook_def)
  then show ?thesis using m by blast
qed

lemma appendReply5_parse:
  assumes "appendReply V5 [] rep zeroAddr = (m, None)"
  shows "ParseReply (m @ x) cmd = ((rep, zeroBound), length m, None)"
proof -
  have "AppendReply [] rep zeroBound = (m, None)" using assms by (simp add: appendReply_def V4_def V5_def)
  from reply_roundtrip [OF this zeroBound_wf, of x cmd] show ?thesis by auto
qed

lemma appendReply4_parse:
  assumes "appendReply V4 [] rep zeroAddr = (m, None)" and "\<not> isSuccess rep"
  shows "\<exists>rep4 b. ParseReply4 (m @ x) = ((rep4, b), 8, None) \<and> rep4 \<in> {Reply4Rejected, Reply4NoIdentd, Reply4IdentMismatch}"
proof -
  let ?rep4 = "if rep < Reply4Granted \<or> rep > Reply4IdentMismatch then Reply4Rejected else rep"
  have "AppendReply4 [] ?rep4 zeroAddr = (m, None)"
    using assms by (auto simp: appendReply_def Let_def isSuccess_def split: if_splits)
  from reply4_roundtrip [OF this, of x] obtain b where p: "ParseReply4 (m @ x) = ((?rep4, b), 8, None)"
    by (auto simp: addr_wf_def)
  have "?rep4 \<in> {Reply4Rejected, Reply4NoIdentd, Reply4IdentMismatch}"
  proof (cases "rep < Reply4Granted \<or> rep > Reply4IdentMismatch")
    case False
    then have "unat rep \<in> {0x5a..0x5d}" by (simp add: word_less_nat_alt word_le_nat_alt not_less reply_defs)
    then have "rep \<in> {0x5a, 0x5b, 0x5c, 0x5d}" by (auto simp: word_unat_eq_iff)
    then show ?thesis using False assms(2) by (auto simp: isSuccess_def reply_defs)
  qed simp
  then show ?thesis using p by blast
qed

section \<open>The cause\<close>

text \<open>The reply \<open>rep\<close> tells a SOCKS5 client of this package the cause \<open>e\<close>: the refusal of a proxy behind the server is
  its own code; else the client's error for \<open>rep\<close> matches what \<open>e\<close> matches first of \<open>ErrNotAllowed\<close>,
  \<open>errors.ErrUnsupported\<close> and the first errno.\<close>

definition tells_cause :: "error \<Rightarrow> reply \<Rightarrow> bool" where
  "tells_cause e rep =
     (case err_As is_EReply e of
        Some (EReply up b v) \<Rightarrow>
          if v \<noteq> 4 then isSuccess up \<or> rep = up
          else if up = Reply4NoIdentd \<or> up = Reply4IdentMismatch then IsS (EReply rep zeroBound 5) ErrNotAllowed
          else rep = ReplyGeneralFailure
      | _ \<Rightarrow>
          if IsS e ErrNotAllowed then IsS (EReply rep zeroBound 5) ErrNotAllowed
          else if IsS e ErrorsErrUnsupported then IsS (EReply rep zeroBound 5) ErrorsErrUnsupported
          else case err_As is_EErrno e of
            Some (EErrno n) \<Rightarrow>
              (n \<in> {ENETUNREACH, EHOSTUNREACH, ECONNREFUSED, ETIMEDOUT} \<longrightarrow> err_Is (EReply rep zeroBound 5) (TErrno n))
              \<and> (n \<in> {EACCES, EPERM} \<longrightarrow> IsS (EReply rep zeroBound 5) ErrNotAllowed)
          | _ \<Rightarrow> True)"

lemma errno_mirror: "errno_mirror_Is 3 (TErrno ENETUNREACH)" "errno_mirror_Is 4 (TErrno EHOSTUNREACH)"
    "errno_mirror_Is 5 (TErrno ECONNREFUSED)" "errno_mirror_Is 6 (TErrno ETIMEDOUT)"
  by (simp_all add: errno_mirror_Is_def errno_replies_def reply_defs)

lemma tells_cause_ReplyFor:
  assumes "rep = (if isSuccess (ReplyFor (Some e)) then ReplyGeneralFailure else ReplyFor (Some e))"
  shows "tells_cause e rep"
proof (cases "err_As is_EReply e")
  case (Some x)
  then obtain up b v where x: "x = EReply up b v" using err_As_SomeD is_EReplyD by blast
  have r: "ReplyFor (Some e) = upstreamReply up v" by (simp add: ReplyFor_def Some x)
  show ?thesis
    using assms by (auto simp: tells_cause_def Some x r upstreamReply_def isSuccess_def reply_defs ReplyError_Is_def)
next
  case None
  note n = None
  show ?thesis
  proof (cases "IsS e ErrNotAllowed \<or> IsS e ErrorsErrUnsupported")
    case True
    then show ?thesis
      using assms by (auto simp: tells_cause_def None ReplyFor_def isSuccess_def reply_defs ReplyError_Is_def)
  next
    case False
    show ?thesis
    proof (cases "err_As is_EErrno e")
      case None
      then show ?thesis using n False by (simp add: tells_cause_def)
    next
      case (Some x)
      then obtain k where x: "x = EErrno k" using err_As_SomeD is_EErrnoD by blast
      have mir: "ReplyFor (Some e) = r" if "errno_mirror_Is r (TErrno k)" for r
        using ReplyFor_errno [OF n _ _ _ that] False Some x by simp
      have acc: "ReplyFor (Some e) = ReplyNotAllowed" if "k \<in> {EACCES, EPERM}"
        using that n False Some x by (auto simp: ReplyFor_def errnoReply_def)
      have "err_Is (EReply rep zeroBound 5) (TErrno k)" if four: "k \<in> {ENETUNREACH, EHOSTUNREACH, ECONNREFUSED, ETIMEDOUT}"
      proof -
        obtain r where r: "errno_mirror_Is r (TErrno k)" "r \<in> {3, 4, 5, 6}" using four errno_mirror by (elim insertE) auto
        then have "rep = r" using assms mir [OF r(1)] by (auto simp: isSuccess_def reply_defs)
        then show ?thesis using r(1) by (simp add: ReplyError_Is_def)
      qed
      moreover have "IsS (EReply rep zeroBound 5) ErrNotAllowed" if "k \<in> {EACCES, EPERM}"
        using acc [OF that] assms by (auto simp: ReplyError_Is_def isSuccess_def reply_defs)
      ultimately show ?thesis using n False Some x by (simp add: tells_cause_def)
    qed
  qed
qed


definition failingConn :: conn where
  "failingConn = (newConn [] (Stop [] (ESent IoEOF)) [] None)\<lparr>hasBuf := True, req := zeroRequest\<lparr>rq_Version := V5\<rparr>\<rparr>"


end
