(* ===== verification/Spec2Isabelle.thy ===== *)
theory Spec2Isabelle
  imports TargetFilter ServerServe ServerConns ServerUDPProps ClientServer ClientConnProps ClientUDPProps ClientBindProps ClientTraces ServerRelayProps FailureReplies
begin

text \<open>
  Verification of \<open>socks0\<close> (\<open>src/go/socks0\<close>): a SOCKS4/4a/5 wire codec (\<open>wire/\<close>), a server
  (\<open>server/\<close>) and a client that pipelines its handshake.

  How the program is put together. Package \<open>wire\<close> turns messages into bytes and back. The server
  reads them through a pooled buffer per conn (\<open>serverConn\<close> in \<open>server/conn.go\<close>), runs the
  authenticator (\<open>server/auth.go\<close>), hands the request to a handler (\<open>server/request.go\<close>) and, after a
  successful reply, gives the handler the tunnel conn (\<open>server/tunnel.go\<close>). The target filter
  (\<open>server/filter.go\<close>) decides what the built-in handlers may dial (\<open>connect.go\<close>), accept
  (\<open>bind.go\<close>), disclose (\<open>resolve.go\<close>) and relay datagrams to (\<open>udp.go\<close>). \<open>server.go\<close> keeps the set of
  conns. The client builds its handshake before it connects, writes it at once and reads the replies
  byte by byte as far as they go (\<open>handshake.go\<close>); it classifies what went wrong (\<open>errors.go\<close>).

  Theories.
  \<^item> \<open>Prelude\<close>: byte strings, slices, big-endian integers, lemmas all theories share.
  \<^item> \<open>Netip\<close>, \<open>NetText\<close>, \<open>GoErrors\<close>, \<open>Streams\<close>: what is used of Go's standard library: \<open>netip\<close>, the
    textual addresses, error values with \<open>errors.Is\<close> / \<open>errors.As\<close>, readers that deliver in chunks.
    \<open>NetTextRoundtrip\<close>: an address printed and parsed again is itself.
  \<^item> \<open>WireTypes\<close>, \<open>WireEncode\<close>, \<open>WireParse\<close>, \<open>WireRead\<close>: package \<open>wire\<close>, file by file.
    \<open>WireRoundtrip\<close> and \<open>WireProps\<close>: its contracts, composed. The locales \<open>parse_contract\<close> and
    \<open>bounded_parse\<close> are the contract of \<open>wire/doc.go\<close>; every parser interprets them, and the
    readers of both sides are proved once inside them. \<open>WireComplete\<close> adds, in the locale \<open>complete_parse\<close>, that bytes
    called incomplete are a valid prefix and that other errors are of the protocol.
  \<^item> \<open>ServerErrors\<close>, \<open>ClientErrors\<close>: errors to reply codes and back to errors and their kinds.
    \<open>FailureReplies\<close>: the bytes of the server's fallback reply, and what the client makes of them.
  \<^item> \<open>TargetFilter\<close>: \<open>server/filter.go\<close>, \<open>server/ownhost.go\<close>; the check at the socket denies the host itself.
  \<^item> \<open>ServerConn\<close>, \<open>ServerNext\<close>: the buffers of a conn, \<open>flush\<close>, \<open>fill\<close>, \<open>next\<close>.
  \<^item> \<open>ServerAuth\<close>, \<open>ServerHandshake\<close>: authenticators and the handshake, with its specification on the
    byte string the client sends, whatever chunks it arrives in.
  \<^item> \<open>ServerTunnel\<close>, \<open>ServerReply\<close>, \<open>ServerServe\<close>: replies, early data, the tunnel conn, the end of a
    conn; what \<open>serve\<close> guarantees for every client and every handler.
  \<^item> \<open>ServerLifecycle\<close>, \<open>ServerConns\<close>: \<open>server/server.go\<close>: configuration, accept back-off; the conns a
    server has, its slots and its shutdown as a step relation over all interleavings.
  \<^item> \<open>ServerConnect\<close>: the built-in handlers; dialer, resolver and listener are parameters.
  \<^item> \<open>ServerUDP\<close>, \<open>ServerUDPSafety\<close>, \<open>ServerUDPProps\<close>: a UDP association, datagram by datagram, with the
    invariant of its caches and what that guarantees. A field that only the proofs read, \<open>ur_first\<close>, keeps the
    surroundings (interfaces, resolver) in which a destination was let through first.
  \<^item> \<open>ClientHandshake\<close>: \<open>handshake.go\<close> and the authenticators of \<open>config.go\<close>. \<open>ClientReplies\<close>,
    \<open>ClientRefine\<close>: the incremental reader against a specification on the bytes of the proxy.
    \<open>ClientServer\<close>: the handshake as a whole, and client and server against each other. \<open>ClientTotal\<close>: the handshake
    returns in every mode, \<open>ModeSequential\<close> included, and with any authenticator.
  \<^item> \<open>ClientConn\<close>: \<open>conn.go\<close>, the state that \<open>Conn.mu\<close> guards, one function per critical section, and the
    calls of any number of goroutines as the step relation \<open>kstep\<close>; what the underlying conn, the clock and the
    contexts do between two sections is free. \<open>ClientConnSafety\<close>: its invariant. \<open>ClientConnProps\<close>: no call waits for
    nothing, the outcome is final, the hooks run once, the handshake is written first, and why it failed (\<open>hs_end\<close> lists the
    steps that end it) with what every later call returns.
  \<^item> \<open>ClientDial\<close>, \<open>ClientURL\<close>: \<open>dialer.go\<close>, \<open>request.go\<close>, \<open>resolve.go\<close> and \<open>url.go\<close>; \<open>ClientDialProps\<close>: a dial ends, leaks
    nothing, and the conn it returns is the tunnel; what a proxy URL means.
  \<^item> \<open>ClientRelay\<close>, \<open>ClientRelayProps\<close>: \<open>relayaddr.go\<close> and the set-up of an association in \<open>udp.go\<close>: which relay it uses, that the
    policy vetted it, and that a failure leaves nothing open. \<open>ClientUDP\<close>, \<open>ClientUDPProps\<close>: the rest of \<open>udp.go\<close>: datagrams, also
    against the server's association, and the end of an association as steps of the watcher, \<open>Close\<close> and I/O.
  \<^item> \<open>ClientBind\<close>, \<open>ClientBindProps\<close>: \<open>bind.go\<close>, the listener as steps of \<open>Accept\<close>, \<open>Close\<close> and \<open>SetDeadline\<close>.
  \<^item> \<open>ClientTraces\<close>: \<open>trace.go\<close>, \<open>timings.go\<close>: the order of composed hooks, and what they measure.
  \<^item> \<open>ServerRelay\<close>, \<open>ServerRelayProps\<close>: \<open>server/relay.go\<close>, the two directions, half-close and deadlines as steps.
  \<^item> \<open>Steps\<close>: the locales \<open>kept\<close> and \<open>kept_from\<close> for invariants of step relations, interpreted by the systems above.

  Loops. \<open>readLoop\<close> and the server's \<open>fill\<close> are \<open>partial_function (option)\<close>: \<open>None\<close> is a reader that returns
  no bytes and no error for ever. The refinement theorems show a result for every stream, which delivers
  finitely many chunks and then an error.

  Not modelled: socket options and TCP fast open, which are system calls with no state of the program, the Plan 9 variants, the same
  tables for another system, package documentation, and the benchmarks and demos, which start other programs and print.
\<close>

end
